(* ===== verification/Prelude.thy ===== *)
theory Prelude
  imports Main "HOL-Library.Word"
begin

unbundle bit_operations_syntax

text \<open>
  What every component shares: the machine integer types of the Rust source, the integer
  operations of its standard library (checked, saturating, rounding up), the result type of code
  that can return an error or panic, little-endian reads of byte slices, and the generic lemmas on
  lists, options and words that the component proofs rest on.

  Conventions. A \<open>usize\<close> index or length is a \<open>nat\<close>. A \<open>u64\<close> on which the code works bitwise is a
  \<open>64 word\<close>; a \<open>u64\<close> that only counts or orders (frame numbers, ticks) is a \<open>nat\<close> below
  \<open>2 ^ 64\<close>, with the overflow check of the development build written out where an addition can
  reach it. \<open>Result<T, E>\<close> is \<open>('e, 'a) outcome\<close> when the code can also panic, and \<open>'e + 'a\<close> when
  it cannot.
\<close>

subsection \<open>Types and collections\<close>

type_synonym u8 = "8 word"
type_synonym u16 = "16 word"
type_synonym u32 = "32 word"
type_synonym u64 = "64 word"

named_theorems rust_arith \<open>definitions of the integer operations of the Rust standard library\<close>
named_theorems rust_slice \<open>facts about slices: ranges, updates, fixed-size reads\<close>

abbreviation u64_limit :: nat where
  "u64_limit \<equiv> 2 ^ 64"

subsection \<open>Results that can also panic\<close>

datatype ('e, 'a) outcome = Ok 'a | Err 'e | Panic

definition bind_outcome :: "('e, 'a) outcome \<Rightarrow> ('a \<Rightarrow> ('e, 'b) outcome) \<Rightarrow> ('e, 'b) outcome" where
  "bind_outcome m f = (case m of Ok a \<Rightarrow> f a | Err e \<Rightarrow> Err e | Panic \<Rightarrow> Panic)"

definition ok_or :: "'e \<Rightarrow> 'a option \<Rightarrow> ('e, 'a) outcome" where
  "ok_or e x = (case x of Some a \<Rightarrow> Ok a | None \<Rightarrow> Err e)"

lemma bind_outcome_simps [simp]:
  "bind_outcome (Ok a) f = f a"
  "bind_outcome (Err e) f = Err e"
  "bind_outcome Panic f = Panic"
  by (simp_all add: bind_outcome_def)

lemma bind_outcome_eq_Ok [simp]:
  "bind_outcome m f = Ok b \<longleftrightarrow> (\<exists>a. m = Ok a \<and> f a = Ok b)"
  by (cases m) auto

lemma bind_outcome_eq_Panic:
  "bind_outcome m f = Panic \<longleftrightarrow> m = Panic \<or> (\<exists>a. m = Ok a \<and> f a = Panic)"
  by (cases m) auto

lemma ok_or_simps [simp]:
  "ok_or e (Some a) = Ok a"
  "ok_or e None = Err e"
  by (simp_all add: ok_or_def)

lemma ok_or_eq_Ok [simp]: "ok_or e x = Ok a \<longleftrightarrow> x = Some a"
  by (cases x) auto

lemma ok_or_not_Panic [simp]: "ok_or e x \<noteq> Panic"
  by (cases x) auto

text \<open>What holds of a result that did not fail, for a computation that must not panic.\<close>

definition outcome_ok :: "('a \<Rightarrow> bool) \<Rightarrow> ('e, 'a) outcome \<Rightarrow> bool" where
  "outcome_ok P m = (case m of Ok a \<Rightarrow> P a | Err e \<Rightarrow> True | Panic \<Rightarrow> False)"

lemma outcome_ok_simps [simp]:
  "outcome_ok P (Ok a) = P a"
  "outcome_ok P (Err e)"
  "\<not> outcome_ok P Panic"
  by (simp_all add: outcome_ok_def)

lemma outcome_ok_bind:
  "outcome_ok Q m \<Longrightarrow> (\<And>a. m = Ok a \<Longrightarrow> Q a \<Longrightarrow> outcome_ok P (f a)) \<Longrightarrow> outcome_ok P (bind_outcome m f)"
  by (cases m) auto

lemma outcome_ok_mono: "outcome_ok Q m \<Longrightarrow> (\<And>a. m = Ok a \<Longrightarrow> Q a \<Longrightarrow> P a) \<Longrightarrow> outcome_ok P m"
  by (cases m) auto

lemma outcome_ok_if:
  "(b \<Longrightarrow> outcome_ok P m) \<Longrightarrow> (\<not> b \<Longrightarrow> outcome_ok P n) \<Longrightarrow> outcome_ok P (if b then m else n)"
  by simp

lemma outcome_okD: "outcome_ok P m \<Longrightarrow> m = Ok a \<Longrightarrow> P a"
  by simp

lemma outcome_ok_not_Panic: "outcome_ok P m \<Longrightarrow> m \<noteq> Panic"
  by auto

subsection \<open>Integer operations\<close>

definition checked_add :: "'a::len word \<Rightarrow> 'a word \<Rightarrow> 'a word option" where
  [rust_arith]: "checked_add a b = (if unat a + unat b < 2 ^ LENGTH('a) then Some (a + b) else None)"

definition checked_sub :: "'a::len word \<Rightarrow> 'a word \<Rightarrow> 'a word option" where
  [rust_arith]: "checked_sub a b = (if b \<le> a then Some (a - b) else None)"

definition checked_mul :: "'a::len word \<Rightarrow> 'a word \<Rightarrow> 'a word option" where
  [rust_arith]: "checked_mul a b = (if unat a * unat b < 2 ^ LENGTH('a) then Some (a * b) else None)"

definition saturating_add :: "'a::len word \<Rightarrow> 'a word \<Rightarrow> 'a word" where
  [rust_arith]: "saturating_add a b = (if unat a + unat b < 2 ^ LENGTH('a) then a + b else - 1)"

definition saturating_sub :: "'a::len word \<Rightarrow> 'a word \<Rightarrow> 'a word" where
  [rust_arith]: "saturating_sub a b = (if b \<le> a then a - b else 0)"

definition saturating_mul :: "'a::len word \<Rightarrow> 'a word \<Rightarrow> 'a word" where
  [rust_arith]: "saturating_mul a b = (if unat a * unat b < 2 ^ LENGTH('a) then a * b else - 1)"

definition is_power_of_two :: "'a::len word \<Rightarrow> bool" where
  "is_power_of_two a \<longleftrightarrow> a \<noteq> 0 \<and> a AND (a - 1) = 0"

text \<open>Rounding on \<open>nat\<close>: \<open>div_ceil\<close> and \<open>next_multiple_of\<close>, for a divisor that is not zero.\<close>

definition div_ceil :: "nat \<Rightarrow> nat \<Rightarrow> nat" where
  "div_ceil a b = (if a mod b = 0 then a div b else a div b + 1)"

lemma div_ceil_mult_ge:
  assumes "0 < b"
  shows "a \<le> div_ceil a b * b"
proof (cases "a mod b = 0")
  case True
  then show ?thesis using div_mult_mod_eq [of a b] by (simp add: div_ceil_def)
next
  case False
  then have "div_ceil a b * b = a div b * b + b" by (simp add: div_ceil_def)
  then show ?thesis using div_mult_mod_eq [of a b] mod_less_divisor [OF assms, of a] by linarith
qed

definition next_multiple_of :: "nat \<Rightarrow> nat \<Rightarrow> nat" where
  "next_multiple_of a b = (if a mod b = 0 then a else a + (b - a mod b))"

lemma checked_add_Some:
  "checked_add a b = Some c \<Longrightarrow> unat c = unat a + unat b"
  by (auto simp: checked_add_def unat_word_ariths split: if_splits)

lemma checked_sub_Some:
  "checked_sub a b = Some c \<Longrightarrow> unat c = unat a - unat b \<and> b \<le> a"
  by (auto simp: checked_sub_def unat_sub split: if_splits)

lemma checked_mul_Some:
  "checked_mul a b = Some c \<Longrightarrow> unat c = unat a * unat b"
  by (auto simp: checked_mul_def unat_word_ariths split: if_splits)

lemma unat_add_no_overflow:
  fixes a b :: "'a::len word"
  assumes "unat a + unat b < 2 ^ LENGTH('a)"
  shows "unat (a + b) = unat a + unat b"
  using assms by (simp add: unat_word_ariths)

lemma unat_u64_less [simp]: "unat (a :: u64) < u64_limit"
  using unsigned_less [of a] by simp

lemma unat_u8_le [simp]: "unat (a :: u8) \<le> 255"
  using unsigned_less [of a, where 'a = nat] by simp

lemma next_multiple_of_props:
  assumes "0 < b"
  shows "a \<le> next_multiple_of a b" and "next_multiple_of a b mod b = 0"
    and "next_multiple_of a b < a + b"
proof -
  have less: "a mod b < b" using assms by simp
  then show "a \<le> next_multiple_of a b" by (auto simp: next_multiple_of_def)
  show "next_multiple_of a b < a + b"
    using assms less by (auto simp: next_multiple_of_def)
  have "(a + (b - a mod b)) mod b = 0"
  proof -
    have "a + (b - a mod b) = b * (a div b) + b"
      using less mult_div_mod_eq [of b a] by linarith
    then show ?thesis by simp
  qed
  then show "next_multiple_of a b mod b = 0" by (simp add: next_multiple_of_def)
qed

lemma next_multiple_of_least:
  assumes "0 < b" "a \<le> c" "c mod b = 0"
  shows "next_multiple_of a b \<le> c"
proof (rule ccontr)
  assume "\<not> next_multiple_of a b \<le> c"
  then have lt: "c < next_multiple_of a b" by simp
  obtain m where m: "next_multiple_of a b = b * m"
    using next_multiple_of_props(2) [OF assms(1)] by (auto simp: mod_eq_0_iff_dvd )
  obtain k where k: "c = b * k" using assms(3) by (auto simp: mod_eq_0_iff_dvd )
  have "k + 1 \<le> m" using lt m k assms(1) by simp
  then have "b * (k + 1) \<le> b * m" by (rule mult_le_mono2)
  then have "c + b \<le> next_multiple_of a b" using m k by simp
  then show False using next_multiple_of_props(3) [OF assms(1), of a] assms(2) by simp
qed

subsection \<open>Words: masks and shifts read as arithmetic\<close>

lemma unat_drop_bit: "unat (drop_bit n w) = unat (w::'a::len word) div 2 ^ n"
  by (simp only: unat_drop_bit_eq) (simp only: drop_bit_eq_div)

lemma unat_and_mask: "unat (w AND mask n) = unat (w::'a::len word) mod 2 ^ n"
  by (metis take_bit_eq_mask take_bit_eq_mod unsigned_take_bit_eq)

lemma and_not_mask_eq: "w AND NOT (mask n) = push_bit n (drop_bit n (w::'a::len word))"
  by (rule bit_eqI) (auto simp: bit_simps)

lemma unat_and_not_mask: "unat (w AND NOT (mask n)) = unat w div 2 ^ n * 2 ^ n" for w :: "'a::len word"
proof -
  have "push_bit n (drop_bit n w) + take_bit n w = w" by (rule bits_ident)
  then have e: "w AND NOT (mask n) = w - (w AND mask n)"
    by (simp only: and_not_mask_eq take_bit_eq_mask) (metis add_diff_cancel_right')
  have "w AND mask n \<le> w" by (rule word_and_le2)
  then have "unat (w AND NOT (mask n)) = unat w - unat (w AND mask n)"
    by (simp only: e unat_sub)
  then show ?thesis
    by (simp only: unat_and_mask minus_mod_eq_div_mult)
qed

lemma unat_word_of_nat: "n < 2 ^ LENGTH('a) \<Longrightarrow> unat (word_of_nat n :: 'a::len word) = n"
  by (simp add: unat_of_nat)

lemma word_eq_0_unat: "w = 0 \<longleftrightarrow> unat (w::'a::len word) = 0"
  by (metis unsigned_0 unsigned_word_eqI)

lemma bit_below_mask: "bit (w AND mask n) k = (k < n \<and> bit (w::'a::len word) k)"
  by (auto simp: bit_simps dest: bit_imp_le_length)

subsection \<open>Slices of bytes\<close>

text \<open>The slice \<open>data[from..from + len]\<close>; the panic of a range that runs past the end is the
  business of the callers, which check the length first or model it.\<close>

definition subslice :: "nat \<Rightarrow> nat \<Rightarrow> 'a list \<Rightarrow> 'a list" where
  "subslice from len xs = take len (drop from xs)"

fun le_nat :: "u8 list \<Rightarrow> nat" where
  "le_nat [] = 0"
| "le_nat (b # bs) = unat b + 256 * le_nat bs"

lemma length_subslice [rust_slice, simp]: "from + len \<le> length xs \<Longrightarrow> length (subslice from len xs) = len"
  by (simp add: subslice_def)

lemma length_subslice_le: "length (subslice from len xs) \<le> len"
  by (simp add: subslice_def)

lemma nth_subslice [rust_slice]: "i < len \<Longrightarrow> from + len \<le> length xs \<Longrightarrow> subslice from len xs ! i = xs ! (from + i)"
  by (simp add: subslice_def)

lemma le_nat_bound: "le_nat bs < 256 ^ length bs"
proof (induction bs)
  case Nil
  show ?case by simp
next
  case (Cons b bs)
  have "unat b < 256" using unsigned_less [of b] by simp
  with Cons show ?case by simp
qed

text \<open>An unsigned little-endian read of \<open>n\<close> bytes, with the panic of a range past the end, and the
  bytes of a value as \<open>to_le_bytes\<close> gives them.\<close>

definition read_le :: "nat \<Rightarrow> u8 list \<Rightarrow> nat \<Rightarrow> ('e, nat) outcome" where
  "read_le n data at = (if at + n \<le> length data then Ok (le_nat (subslice at n data)) else Panic)"

fun le_bytes :: "nat \<Rightarrow> nat \<Rightarrow> u8 list" where
  "le_bytes 0 v = []"
| "le_bytes (Suc n) v = word_of_nat (v mod 256) # le_bytes n (v div 256)"

lemma length_le_bytes [simp]: "length (le_bytes n v) = n"
  by (induction n arbitrary: v) auto

lemma le_nat_zeros [simp]: "le_nat (replicate n 0) = 0"
  by (induction n) simp_all

lemma le_nat_le_bytes [simp]: "v < 256 ^ n \<Longrightarrow> le_nat (le_bytes n v) = v"
proof (induction n arbitrary: v)
  case 0
  then show ?case by simp
next
  case (Suc n)
  have "unat (word_of_nat (v mod 256) :: u8) = v mod 256" by (rule unat_word_of_nat) simp
  moreover have "le_nat (le_bytes n (v div 256)) = v div 256"
    using Suc.prems by (intro Suc.IH) (simp add: less_mult_imp_div_less mult.commute)
  ultimately show ?case by simp
qed

lemma le_bytes_le_nat [simp]: "length bs = n \<Longrightarrow> le_bytes n (le_nat bs) = bs"
proof (induction n arbitrary: bs)
  case 0
  then show ?case by simp
next
  case (Suc n)
  then obtain b cs where b: "bs = b # cs" "length cs = n" by (cases bs) auto
  have "unat b < 256" using unsigned_less [of b] by simp
  then show ?case using Suc.IH [OF b(2)] by (simp add: b(1))
qed

lemma read_le_Ok: "read_le n data at = Ok v \<longleftrightarrow> at + n \<le> length data \<and> v = le_nat (subslice at n data)"
  by (auto simp: read_le_def)

lemma read_le_ok [simp]: "outcome_ok (\<lambda>v. True) (read_le n data at) \<longleftrightarrow> at + n \<le> length data"
  by (simp add: read_le_def)

lemma read_le_bound: "read_le n data at = Ok v \<Longrightarrow> v < 256 ^ n"
  using le_nat_bound [of "subslice at n data"] by (auto simp: read_le_Ok)

lemma outcome_ok_read: "at + n \<le> length data \<Longrightarrow> outcome_ok (\<lambda>v. v < 256 ^ n) (read_le n data at)"
  using read_le_bound [of n data "at"] by (simp add: read_le_def)

subsection \<open>Lists: first match, update at an index\<close>

text \<open>The index of the first element that satisfies a predicate, as \<open>iter().position\<close> and the
  first-free-slot loops of the source compute it.\<close>

fun find_index :: "('a \<Rightarrow> bool) \<Rightarrow> 'a list \<Rightarrow> nat option" where
  "find_index P [] = None"
| "find_index P (x # xs) = (if P x then Some 0 else map_option Suc (find_index P xs))"

lemma find_index_Some:
  "find_index P xs = Some i \<Longrightarrow> i < length xs \<and> P (xs ! i) \<and> (\<forall>j < i. \<not> P (xs ! j))"
proof (induction xs arbitrary: i)
  case Nil
  then show ?case by simp
next
  case (Cons x xs)
  show ?case
  proof (cases "P x")
    case True
    with Cons.prems show ?thesis by simp
  next
    case False
    with Cons.prems obtain k where k: "find_index P xs = Some k" "i = Suc k" by auto
    from Cons.IH [OF k(1)] k(2) False show ?thesis by (auto simp: nth_Cons split: nat.splits)
  qed
qed

lemma find_index_None: "find_index P xs = None \<longleftrightarrow> (\<forall>x \<in> set xs. \<not> P x)"
  by (induction xs) auto

lemma find_index_eq_Some_iff:
  "find_index P xs = Some i \<longleftrightarrow> i < length xs \<and> P (xs ! i) \<and> (\<forall>j < i. \<not> P (xs ! j))"
proof
  assume r: "i < length xs \<and> P (xs ! i) \<and> (\<forall>j < i. \<not> P (xs ! j))"
  then have "find_index P xs \<noteq> None" by (auto simp: find_index_None)
  then obtain k where k: "find_index P xs = Some k" by auto
  from find_index_Some [OF this] r have "k = i" by (metis nat_neq_iff)
  with k show "find_index P xs = Some i" by simp
qed (rule find_index_Some)

lemma list_all_update: "list_all P xs \<Longrightarrow> P x \<Longrightarrow> list_all P (xs[i := x])"
  by (auto simp: list_all_iff dest: set_update_subset_insert [THEN subsetD])

lemma list_all_nth: "list_all P xs \<Longrightarrow> i < length xs \<Longrightarrow> P (xs ! i)"
  by (simp add: list_all_length)

end
