(* ===== verification/Addr.thy ===== *)
theory Addr
  imports Prelude
begin

text \<open>
  Physical and virtual addresses and the direct physical map (\<open>common/src/addr.rs\<close>): the two
  address types with their validity checks, alignment and checked arithmetic, the page-table
  indices of a virtual address, the window that maps physical memory linearly, and the one global
  slot that holds it.

  The \<open>debug_assert!\<close> that an alignment is a power of two is a hypothesis of the lemmas that need
  it. The atomics of the slot are fields of a record: the source writes them one after the other
  in the order kept here.
\<close>

subsection \<open>The two address types\<close>

definition PHYS_ADDR_BITS :: nat where
  "PHYS_ADDR_BITS = 52"

datatype phys_addr = PhysAddr (phys_raw: u64)
datatype virt_addr = VirtAddr (virt_raw: u64)

instantiation phys_addr :: linorder
begin
definition less_eq_phys_addr :: "phys_addr \<Rightarrow> phys_addr \<Rightarrow> bool" where
  "less_eq_phys_addr a b \<longleftrightarrow> phys_raw a \<le> phys_raw b"
definition less_phys_addr :: "phys_addr \<Rightarrow> phys_addr \<Rightarrow> bool" where
  "less_phys_addr a b \<longleftrightarrow> phys_raw a < phys_raw b"
instance
  by standard (auto simp: less_eq_phys_addr_def less_phys_addr_def intro: phys_addr.expand)
end

definition is_valid_phys :: "u64 \<Rightarrow> bool" where
  "is_valid_phys raw \<longleftrightarrow> drop_bit PHYS_ADDR_BITS raw = 0"

definition is_canonical :: "u64 \<Rightarrow> bool" where
  "is_canonical raw \<longleftrightarrow> signed_drop_bit 16 (push_bit 16 raw) = raw"

definition phys_new :: "u64 \<Rightarrow> phys_addr option" where
  "phys_new raw = (if is_valid_phys raw then Some (PhysAddr raw) else None)"

definition frame_number :: "phys_addr \<Rightarrow> nat" where
  "frame_number p = unat (phys_raw p) div 4096"

definition from_frame_number :: "nat \<Rightarrow> phys_addr option" where
  "from_frame_number frame =
     (if frame * 4096 < u64_limit then phys_new (word_of_nat (frame * 4096)) else None)"

definition phys_is_aligned :: "phys_addr \<Rightarrow> u64 \<Rightarrow> bool" where
  "phys_is_aligned p align \<longleftrightarrow> phys_raw p AND (align - 1) = 0"

definition phys_align_up :: "phys_addr \<Rightarrow> u64 \<Rightarrow> phys_addr option" where
  "phys_align_up p align =
     (case checked_add (phys_raw p) (align - 1) of
        Some raw \<Rightarrow> phys_new (raw AND NOT (align - 1))
      | None \<Rightarrow> None)"

definition phys_align_down :: "phys_addr \<Rightarrow> u64 \<Rightarrow> phys_addr option" where
  "phys_align_down p align = phys_new (phys_raw p AND NOT (align - 1))"

definition phys_checked_add :: "phys_addr \<Rightarrow> u64 \<Rightarrow> phys_addr option" where
  "phys_checked_add p offset =
     (case checked_add (phys_raw p) offset of Some raw \<Rightarrow> phys_new raw | None \<Rightarrow> None)"

definition phys_checked_sub :: "phys_addr \<Rightarrow> u64 \<Rightarrow> phys_addr option" where
  "phys_checked_sub p offset =
     (case checked_sub (phys_raw p) offset of Some d \<Rightarrow> phys_new d | None \<Rightarrow> None)"

definition virt_new :: "u64 \<Rightarrow> virt_addr option" where
  "virt_new raw = (if is_canonical raw then Some (VirtAddr raw) else None)"

definition page_offset :: "virt_addr \<Rightarrow> u64" where
  "page_offset v = virt_raw v AND 0xFFF"

definition virt_is_aligned :: "virt_addr \<Rightarrow> u64 \<Rightarrow> bool" where
  "virt_is_aligned v align \<longleftrightarrow> virt_raw v AND (align - 1) = 0"

definition virt_align_up :: "virt_addr \<Rightarrow> u64 \<Rightarrow> virt_addr option" where
  "virt_align_up v align =
     (case checked_add (virt_raw v) (align - 1) of
        Some raw \<Rightarrow> virt_new (raw AND NOT (align - 1))
      | None \<Rightarrow> None)"

definition virt_align_down :: "virt_addr \<Rightarrow> u64 \<Rightarrow> virt_addr option" where
  "virt_align_down v align = virt_new (virt_raw v AND NOT (align - 1))"

definition virt_checked_add :: "virt_addr \<Rightarrow> u64 \<Rightarrow> virt_addr option" where
  "virt_checked_add v offset =
     (case checked_add (virt_raw v) offset of Some raw \<Rightarrow> virt_new raw | None \<Rightarrow> None)"

definition virt_checked_sub :: "virt_addr \<Rightarrow> u64 \<Rightarrow> virt_addr option" where
  "virt_checked_sub v offset =
     (case checked_sub (virt_raw v) offset of Some d \<Rightarrow> virt_new d | None \<Rightarrow> None)"

definition top_index :: "virt_addr \<Rightarrow> nat" where
  "top_index v = unat (drop_bit 39 (virt_raw v) AND 0x1FF)"

definition upper_index :: "virt_addr \<Rightarrow> nat" where
  "upper_index v = unat (drop_bit 30 (virt_raw v) AND 0x1FF)"

definition middle_index :: "virt_addr \<Rightarrow> nat" where
  "middle_index v = unat (drop_bit 21 (virt_raw v) AND 0x1FF)"

definition leaf_index :: "virt_addr \<Rightarrow> nat" where
  "leaf_index v = unat (drop_bit 12 (virt_raw v) AND 0x1FF)"

subsection \<open>The direct map and its global slot\<close>

record direct_map =
  dm_base :: virt_addr
  dm_length :: u64

record direct_map_slot =
  slot_base :: u64
  slot_length :: u64
  slot_ready :: bool
  identity_removed :: bool

datatype direct_map_init_error = AlreadyInitialised | NotInitialised

definition empty_slot :: direct_map_slot where
  "empty_slot = \<lparr>slot_base = 0, slot_length = 0, slot_ready = False, identity_removed = False\<rparr>"

definition DIRECT_MAP_BASE :: u64 where
  "DIRECT_MAP_BASE = 0xFFFF800000000000"

definition IDENTITY_MAX_LENGTH :: u64 where
  "IDENTITY_MAX_LENGTH = 0x00007FFFFFFFF000"

definition direct_map_new :: "direct_map_slot \<Rightarrow> virt_addr \<Rightarrow> u64 \<Rightarrow> ('e, direct_map option) outcome" where
  "direct_map_new s base len =
     (if virt_raw base = 0 \<and> identity_removed s then Panic
      else Ok (map_option (\<lambda>_. \<lparr>dm_base = base, dm_length = len\<rparr>) (virt_checked_add base len)))"

definition direct_map_identity :: "direct_map_slot \<Rightarrow> u64 \<Rightarrow> ('e, direct_map option) outcome" where
  "direct_map_identity s len = direct_map_new s (VirtAddr 0) len"

definition covers :: "direct_map \<Rightarrow> phys_addr \<Rightarrow> bool" where
  "covers m p \<longleftrightarrow> phys_raw p < dm_length m"

definition phys_to_virt :: "direct_map \<Rightarrow> phys_addr \<Rightarrow> virt_addr" where
  "phys_to_virt m p = VirtAddr (virt_raw (dm_base m) + phys_raw p)"

definition virt_to_phys :: "direct_map \<Rightarrow> virt_addr \<Rightarrow> phys_addr option" where
  "virt_to_phys m v =
     (let base = virt_raw (dm_base m) in
      if virt_raw v < base then None
      else let offset = virt_raw v - base in
        if dm_length m \<le> offset then None else phys_new offset)"

definition mark_identity_removed :: "direct_map_slot \<Rightarrow> direct_map_slot" where
  "mark_identity_removed s = s\<lparr>identity_removed := True\<rparr>"

text \<open>\<open>init_direct_map\<close> stores the base and the length before it looks at \<open>READY\<close>.\<close>

definition init_direct_map ::
    "direct_map_slot \<Rightarrow> direct_map \<Rightarrow> direct_map_slot \<times> (direct_map_init_error + unit)" where
  "init_direct_map s m =
     (let s1 = s\<lparr>slot_base := virt_raw (dm_base m), slot_length := dm_length m\<rparr> in
      if slot_ready s1 then (s1, Inl AlreadyInitialised)
      else (s1\<lparr>slot_ready := True\<rparr>, Inr ()))"

definition replace_direct_map ::
    "direct_map_slot \<Rightarrow> direct_map \<Rightarrow> direct_map_slot \<times> (direct_map_init_error + unit)" where
  "replace_direct_map s m =
     (if \<not> slot_ready s then (s, Inl NotInitialised)
      else (s\<lparr>slot_base := virt_raw (dm_base m), slot_length := dm_length m\<rparr>, Inr ()))"

text \<open>Reading the slot panics before initialisation, and where the stored base is not canonical
  (\<open>VirtAddr::new_const\<close>).\<close>

definition current_direct_map :: "direct_map_slot \<Rightarrow> ('e, direct_map) outcome" where
  "current_direct_map s =
     (if \<not> slot_ready s then Panic
      else if \<not> is_canonical (slot_base s) then Panic
      else Ok \<lparr>dm_base = VirtAddr (slot_base s), dm_length = slot_length s\<rparr>)"

subsection \<open>Reading the checks as bounds\<close>

lemma is_valid_phys_iff: "is_valid_phys raw \<longleftrightarrow> unat raw < 2 ^ 52"
  by (simp add: is_valid_phys_def PHYS_ADDR_BITS_def word_eq_0_unat unat_drop_bit div_eq_0_iff
      del: drop_bit_eq_div)

lemma phys_new_Some: "phys_new raw = Some p \<longleftrightarrow> p = PhysAddr raw \<and> unat raw < 2 ^ 52"
  by (auto simp: phys_new_def is_valid_phys_iff)

lemma from_frame_number_Some:
  "from_frame_number frame = Some p \<longleftrightarrow>
     frame < 2 ^ 40 \<and> p = PhysAddr (word_of_nat (frame * 4096))"
proof -
  have u: "unat (word_of_nat (frame * 4096) :: u64) = frame * 4096" if "frame * 4096 < u64_limit"
    using that by (intro unat_word_of_nat) simp
  show ?thesis
    unfolding from_frame_number_def phys_new_Some
    using u by (auto simp: phys_new_Some simp del: of_nat_mult)
qed

lemma frame_number_from: "from_frame_number frame = Some p \<Longrightarrow> frame_number p = frame"
  using unat_word_of_nat [where 'a = 64, of "frame * 4096"]
  by (auto simp: from_frame_number_Some frame_number_def simp del: of_nat_mult)

text \<open>A canonical address repeats bit 47 in every bit above it.\<close>

lemma bit_sign_extended:
  fixes raw :: u64
  assumes "n < 64"
  shows "bit (signed_drop_bit 16 (push_bit 16 raw)) n = bit raw (min n 47)"
  using assms by (auto simp: bit_signed_drop_bit_iff bit_push_bit_iff min_def)

lemma is_canonical_bits: "is_canonical raw \<longleftrightarrow> (\<forall>n < 64. bit raw n = bit raw (min n 47))"
proof
  assume "is_canonical raw"
  then show "\<forall>n < 64. bit raw n = bit raw (min n 47)"
    unfolding is_canonical_def by (metis bit_sign_extended)
next
  assume b: "\<forall>n < 64. bit raw n = bit raw (min n 47)"
  show "is_canonical raw"
    unfolding is_canonical_def
    by (rule bit_word_eqI) (simp add: bit_sign_extended b [rule_format, symmetric])
qed

lemma canonical_eqI:
  assumes "is_canonical a" "is_canonical b" "\<And>n. n < 48 \<Longrightarrow> bit a n = bit b n"
  shows "a = b"
proof (rule bit_word_eqI)
  fix n assume "n < LENGTH(64)"
  then have n: "n < 64" by simp
  have "bit a n = bit a (min n 47)" and "bit b n = bit b (min n 47)"
    using assms(1,2) n unfolding is_canonical_bits by blast+
  moreover have "bit a (min n 47) = bit b (min n 47)"
    by (rule assms(3)) simp
  ultimately show "bit a n = bit b n" by simp
qed

lemma is_canonical_iff:
  "is_canonical raw \<longleftrightarrow> unat raw < 2 ^ 47 \<or> u64_limit - 2 ^ 47 \<le> unat raw"
proof
  assume c: "is_canonical raw"
  have high: "bit raw n = bit raw 47" if "47 \<le> n" "n < 64" for n
    using c that unfolding is_canonical_bits by (metis min.absorb2)
  show "unat raw < 2 ^ 47 \<or> u64_limit - 2 ^ 47 \<le> unat raw"
  proof (cases "bit raw 47")
    case False
    have "bit (take_bit 47 raw) n = bit raw n" if "n < 64" for n
      using high [of n] False that by (cases "n < 47") (simp_all add: bit_take_bit_iff)
    then have "take_bit 47 raw = raw"
      by (intro bit_word_eqI) simp
    then have "unat raw = unat raw mod 2 ^ 47"
      by (metis take_bit_eq_mask unat_and_mask)
    then have "unat raw < 2 ^ 47"
      by (metis mod_less_divisor zero_less_numeral zero_less_power)
    then show ?thesis ..
  next
    case True
    have "bit (drop_bit 47 raw) n = bit (mask 17 :: u64) n" if "n < 64" for n
      using high [of "47 + n"] True that bit_imp_le_length [of raw "47 + n"]
      by (cases "n < 17") (auto simp: bit_drop_bit_eq bit_mask_iff)
    then have "drop_bit 47 raw = mask 17"
      by (intro bit_word_eqI) simp
    then have "unat raw div 2 ^ 47 = unat (mask 17 :: u64)"
      by (metis unat_drop_bit)
    then have "131071 * 2 ^ 47 \<le> unat raw"
      by (simp add: mask_eq_exp_minus_1 div_nat_eqI)
    then show ?thesis by simp
  qed
next
  assume r: "unat raw < 2 ^ 47 \<or> u64_limit - 2 ^ 47 \<le> unat raw"
  have drop: "drop_bit 47 raw = 0 \<or> drop_bit 47 raw = mask 17"
  proof (rule disjE [OF r])
    assume "unat raw < 2 ^ 47"
    then show ?thesis by (simp add: word_eq_0_unat unat_drop_bit del: drop_bit_eq_div)
  next
    assume "u64_limit - 2 ^ 47 \<le> unat raw"
    then have "unat raw div 2 ^ 47 = 131071"
      using unat_u64_less [of raw] by (intro div_nat_eqI) simp_all
    then have "unat (drop_bit 47 raw) = unat (mask 17 :: u64)"
      by (simp add: unat_drop_bit mask_eq_exp_minus_1 del: drop_bit_eq_div)
    then show ?thesis by (simp add: unsigned_word_eqI)
  qed
  have "bit raw n = bit raw 47" if "47 \<le> n" "n < 64" for n
  proof -
    have "bit raw n = bit (drop_bit 47 raw) (n - 47)" and "bit raw 47 = bit (drop_bit 47 raw) 0"
      using that by (simp_all add: bit_drop_bit_eq)
    with drop that show ?thesis by (auto simp: bit_mask_iff)
  qed
  then show "is_canonical raw"
    unfolding is_canonical_bits by (metis le_cases min.absorb1 min.absorb2)
qed

subsection \<open>Page-table indices\<close>

lemma index_mask: "(0x1FF :: u64) = mask 9" "(0xFFF :: u64) = mask 12"
  by (simp_all add: mask_eq_exp_minus_1)

lemma index_bound:
  "top_index v < 512" "upper_index v < 512" "middle_index v < 512" "leaf_index v < 512"
  unfolding top_index_def upper_index_def middle_index_def leaf_index_def
  by (simp_all add: index_mask unat_and_mask)

lemma index_bits:
  fixes a b :: u64
  assumes "unat (drop_bit s a AND 0x1FF) = unat (drop_bit s b AND 0x1FF)" "k < 9"
  shows "bit a (s + k) = bit b (s + k)"
proof -
  have "drop_bit s a AND mask 9 = drop_bit s b AND mask 9"
    using assms(1) by (simp add: index_mask unsigned_word_eqI)
  then have "bit (drop_bit s a AND mask 9) k = bit (drop_bit s b AND mask 9) k" by simp
  then show ?thesis using assms(2) by (simp add: bit_below_mask bit_drop_bit_eq)
qed

lemma same_indices_same_bits:
  assumes "top_index v = top_index w" "upper_index v = upper_index w"
    "middle_index v = middle_index w" "leaf_index v = leaf_index w"
    "page_offset v = page_offset w" "n < 48"
  shows "bit (virt_raw v) n = bit (virt_raw w) n"
proof -
  note idx = index_bits [OF assms(1) [unfolded top_index_def], of "n - 39"]
    index_bits [OF assms(2) [unfolded upper_index_def], of "n - 30"]
    index_bits [OF assms(3) [unfolded middle_index_def], of "n - 21"]
    index_bits [OF assms(4) [unfolded leaf_index_def], of "n - 12"]
  have low: "bit (virt_raw v) n = bit (virt_raw w) n" if "n < 12"
    using assms(5) that unfolding page_offset_def index_mask by (metis bit_below_mask)
  consider "n < 12" | "12 \<le> n" "n < 21" | "21 \<le> n" "n < 30" | "30 \<le> n" "n < 39" | "39 \<le> n"
    by linarith
  then show ?thesis
    using low idx assms(6) by cases auto
qed

text \<open>The four page-table indices and the page offset determine a canonical virtual address:
  two different canonical addresses never walk to the same slot and offset.\<close>

theorem canonical_address_determined_by_walk:
  assumes "is_canonical (virt_raw v)" "is_canonical (virt_raw w)"
    and "top_index v = top_index w" "upper_index v = upper_index w"
    and "middle_index v = middle_index w" "leaf_index v = leaf_index w"
    and "page_offset v = page_offset w"
  shows "v = w"
proof -
  have "virt_raw v = virt_raw w"
    by (rule canonical_eqI [OF assms(1,2)]) (rule same_indices_same_bits [OF assms(3-7)])
  then show ?thesis by (rule virt_addr.expand)
qed

theorem canonical_address_determined_by_walk_witness:
  "is_canonical (virt_raw (VirtAddr 0xFFFF800000201007)) \<and>
   VirtAddr 0xFFFF800000201007 = VirtAddr (DIRECT_MAP_BASE + 0x201007)"
proof -
  have c: "is_canonical (virt_raw (VirtAddr 0xFFFF800000201007))"
    by (simp add: is_canonical_iff)
  have c': "is_canonical (virt_raw (VirtAddr (DIRECT_MAP_BASE + 0x201007)))"
    by (simp add: is_canonical_iff DIRECT_MAP_BASE_def)
  from c c' show ?thesis
    using canonical_address_determined_by_walk [OF c c'] by (simp add: DIRECT_MAP_BASE_def)
qed

subsection \<open>The direct map\<close>

lemma direct_map_new_Some:
  "direct_map_new s base len = Ok (Some m) \<Longrightarrow>
     m = \<lparr>dm_base = base, dm_length = len\<rparr> \<and> unat (virt_raw base) + unat len < u64_limit"
  by (auto simp: direct_map_new_def virt_checked_add_def checked_add_def
      split: if_splits option.splits)

text \<open>Through a window that \<open>DirectMap::new\<close> accepted, translating a covered physical address
  to a virtual one and back is the identity.\<close>

theorem direct_map_round_trip:
  assumes "direct_map_new s base len = Ok (Some m)" "covers m p" "is_valid_phys (phys_raw p)"
  shows "virt_to_phys m (phys_to_virt m p) = Some p"
proof -
  from direct_map_new_Some [OF assms(1)]
  have m: "m = \<lparr>dm_base = base, dm_length = len\<rparr>"
    and lim: "unat (virt_raw base) + unat len < u64_limit" by auto
  have p: "unat (phys_raw p) < unat len"
    using assms(2) m by (simp add: covers_def word_less_nat_alt)
  then have u: "unat (virt_raw base + phys_raw p) = unat (virt_raw base) + unat (phys_raw p)"
    using lim by (intro unat_add_no_overflow) simp
  have "\<not> virt_raw base + phys_raw p < virt_raw base"
    by (simp add: word_less_nat_alt u)
  then show ?thesis
    using p assms(3) m
    by (auto simp: virt_to_phys_def phys_to_virt_def Let_def phys_new_def word_le_nat_alt
        intro: phys_addr.expand)
qed

theorem direct_map_round_trip_witness:
  "\<exists>m. direct_map_new empty_slot (VirtAddr DIRECT_MAP_BASE) 0x40000000 = (Ok (Some m) :: (unit, _) outcome) \<and>
     virt_to_phys m (phys_to_virt m (PhysAddr 0x200000)) = Some (PhysAddr 0x200000)"
proof -
  let ?m = "\<lparr>dm_base = VirtAddr DIRECT_MAP_BASE, dm_length = 0x40000000\<rparr>"
  have n: "direct_map_new empty_slot (VirtAddr DIRECT_MAP_BASE) 0x40000000 = (Ok (Some ?m) :: (unit, _) outcome)"
    by (simp add: direct_map_new_def empty_slot_def virt_checked_add_def checked_add_def
        DIRECT_MAP_BASE_def virt_new_def is_canonical_iff)
  have "covers ?m (PhysAddr 0x200000)" "is_valid_phys (phys_raw (PhysAddr 0x200000))"
    by (simp_all add: covers_def is_valid_phys_iff)
  from direct_map_round_trip [OF n this] n show ?thesis by blast
qed

text \<open>The documentation of \<open>phys_to_virt\<close> says that even an uncovered physical address gives a
  canonical virtual address. An identity window accepted by \<open>DirectMap::new\<close> gives a non-canonical
  one for the valid physical address \<open>2 ^ 47\<close>.\<close>

theorem phys_to_virt_outside_window_not_canonical:
  "\<exists>m p. direct_map_identity empty_slot IDENTITY_MAX_LENGTH = (Ok (Some m) :: (unit, _) outcome) \<and>
     is_valid_phys (phys_raw p) \<and> \<not> covers m p \<and> \<not> is_canonical (virt_raw (phys_to_virt m p))"
proof -
  let ?m = "\<lparr>dm_base = VirtAddr 0, dm_length = IDENTITY_MAX_LENGTH\<rparr>"
  let ?p = "PhysAddr 0x800000000000"
  have "direct_map_identity empty_slot IDENTITY_MAX_LENGTH = (Ok (Some ?m) :: (unit, _) outcome)"
    by (simp add: direct_map_identity_def direct_map_new_def empty_slot_def virt_checked_add_def
        checked_add_def IDENTITY_MAX_LENGTH_def virt_new_def is_canonical_iff)
  moreover have "is_valid_phys (phys_raw ?p)" "\<not> covers ?m ?p"
    by (simp_all add: is_valid_phys_iff covers_def IDENTITY_MAX_LENGTH_def)
  moreover have "\<not> is_canonical (virt_raw (phys_to_virt ?m ?p))"
    by (simp add: phys_to_virt_def is_canonical_iff)
  ultimately show ?thesis by blast
qed

text \<open>A second \<open>init_direct_map\<close> reports \<open>AlreadyInitialised\<close>, and the registered window is the
  rejected one all the same: the two stores happen before the check.\<close>

theorem init_direct_map_rejects_but_overwrites:
  assumes "init_direct_map s a = (s1, Inr ())" "init_direct_map s1 b = (s2, r)"
    and "is_canonical (virt_raw (dm_base b))"
  shows "r = Inl AlreadyInitialised \<and>
     current_direct_map s2 = (Ok \<lparr>dm_base = dm_base b, dm_length = dm_length b\<rparr> :: (unit, _) outcome)"
  using assms by (auto simp: init_direct_map_def current_direct_map_def Let_def split: if_splits)

theorem init_direct_map_rejects_but_overwrites_witness:
  "snd (init_direct_map (fst (init_direct_map empty_slot \<lparr>dm_base = VirtAddr 0, dm_length = 4096\<rparr>))
      \<lparr>dm_base = VirtAddr 8192, dm_length = 1\<rparr>) = Inl AlreadyInitialised \<and>
   current_direct_map (fst (init_direct_map (fst (init_direct_map empty_slot
      \<lparr>dm_base = VirtAddr 0, dm_length = 4096\<rparr>)) \<lparr>dm_base = VirtAddr 8192, dm_length = 1\<rparr>))
     = (Ok \<lparr>dm_base = VirtAddr 8192, dm_length = 1\<rparr> :: (unit, _) outcome)"
proof -
  let ?a = "\<lparr>dm_base = VirtAddr 0, dm_length = 4096\<rparr>"
  let ?b = "\<lparr>dm_base = VirtAddr 8192, dm_length = 1\<rparr>"
  let ?i = "init_direct_map empty_slot ?a"
  have 1: "init_direct_map empty_slot ?a = (fst ?i, Inr ())"
    by (simp add: init_direct_map_def empty_slot_def Let_def)
  have 2: "init_direct_map (fst ?i) ?b = (fst (init_direct_map (fst ?i) ?b), snd (init_direct_map (fst ?i) ?b))"
    by simp
  have 3: "is_canonical (virt_raw (dm_base ?b))"
    by (simp add: is_canonical_iff)
  from init_direct_map_rejects_but_overwrites [OF 1 2 3] show ?thesis by simp
qed

end
