(* ===== verification/Memory_Map.thy ===== *)
theory Memory_Map
  imports Prelude
begin

text \<open>
  The UEFI memory map (\<open>kernel/src/memory_map.rs\<close>): the policy of each memory type, the parser of
  the raw descriptor bytes, and the lookup of the descriptor that holds a physical address. Both
  the frame allocator and the page-table plan decide through \<open>classify\<close>.
\<close>

definition RESERVED :: u32 where "RESERVED = 0"
definition LOADER_CODE :: u32 where "LOADER_CODE = 1"
definition LOADER_DATA :: u32 where "LOADER_DATA = 2"
definition BOOT_SERVICES_CODE :: u32 where "BOOT_SERVICES_CODE = 3"
definition BOOT_SERVICES_DATA :: u32 where "BOOT_SERVICES_DATA = 4"
definition RUNTIME_SERVICES_CODE :: u32 where "RUNTIME_SERVICES_CODE = 5"
definition RUNTIME_SERVICES_DATA :: u32 where "RUNTIME_SERVICES_DATA = 6"
definition CONVENTIONAL :: u32 where "CONVENTIONAL = 7"
definition UNUSABLE :: u32 where "UNUSABLE = 8"
definition ACPI_RECLAIM :: u32 where "ACPI_RECLAIM = 9"
definition ACPI_NVS :: u32 where "ACPI_NVS = 10"
definition MMIO :: u32 where "MMIO = 11"
definition MMIO_PORT_SPACE :: u32 where "MMIO_PORT_SPACE = 12"
definition PAL_CODE :: u32 where "PAL_CODE = 13"
definition PERSISTENT :: u32 where "PERSISTENT = 14"
definition UNACCEPTED :: u32 where "UNACCEPTED = 15"
definition VENDOR_RESERVED_START :: u32 where "VENDOR_RESERVED_START = 0x70000000"

lemmas memory_type_defs = RESERVED_def LOADER_CODE_def LOADER_DATA_def BOOT_SERVICES_CODE_def
  BOOT_SERVICES_DATA_def RUNTIME_SERVICES_CODE_def RUNTIME_SERVICES_DATA_def CONVENTIONAL_def
  UNUSABLE_def ACPI_RECLAIM_def ACPI_NVS_def MMIO_def MMIO_PORT_SPACE_def PAL_CODE_def
  PERSISTENT_def UNACCEPTED_def VENDOR_RESERVED_START_def

datatype region_policy = Free | ReservedButMapped bool | Unmapped

definition classify :: "u32 \<Rightarrow> region_policy" where
  "classify ty =
     (if ty = CONVENTIONAL then Free
      else if ty \<in> {LOADER_CODE, LOADER_DATA, BOOT_SERVICES_CODE, BOOT_SERVICES_DATA,
                    RUNTIME_SERVICES_CODE, RUNTIME_SERVICES_DATA, ACPI_RECLAIM, ACPI_NVS}
      then ReservedButMapped True
      else if ty = MMIO \<or> ty = MMIO_PORT_SPACE then ReservedButMapped False
      else Unmapped)"

record memory_map_entry =
  memory_type :: u32
  phys_start :: u64
  page_count :: u64

definition OFFSET_TYPE :: nat where "OFFSET_TYPE = 0"
definition OFFSET_PHYS_START :: nat where "OFFSET_PHYS_START = 8"
definition OFFSET_PAGE_COUNT :: nat where "OFFSET_PAGE_COUNT = 24"
definition MIN_DESCRIPTOR_SIZE :: nat where "MIN_DESCRIPTOR_SIZE = OFFSET_PAGE_COUNT + 8"
definition UEFI_PAGE_SIZE :: u64 where "UEFI_PAGE_SIZE = 4096"

lemmas descriptor_offsets = OFFSET_TYPE_def OFFSET_PHYS_START_def OFFSET_PAGE_COUNT_def
  MIN_DESCRIPTOR_SIZE_def

text \<open>\<open>chunks_exact\<close>: the complete chunks, the shorter rest left out.\<close>

function chunks_exact :: "nat \<Rightarrow> 'a list \<Rightarrow> 'a list list" where
  "chunks_exact n xs = (if n = 0 \<or> length xs < n then [] else take n xs # chunks_exact n (drop n xs))"
  by pat_completeness auto
termination
  by (relation "measure (\<lambda>(n, xs). length xs)") auto

declare chunks_exact.simps [simp del]

definition entry_of_chunk :: "u8 list \<Rightarrow> memory_map_entry" where
  "entry_of_chunk chunk =
     \<lparr>memory_type = word_of_nat (le_nat (subslice OFFSET_TYPE 4 chunk)),
      phys_start = word_of_nat (le_nat (subslice OFFSET_PHYS_START 8 chunk)),
      page_count = word_of_nat (le_nat (subslice OFFSET_PAGE_COUNT 8 chunk))\<rparr>"

definition parse_entries :: "u8 list \<Rightarrow> u64 \<Rightarrow> string + memory_map_entry list" where
  "parse_entries raw descriptor_size =
     (let stride = unat descriptor_size in
      if stride < MIN_DESCRIPTOR_SIZE
      then Inl ''descriptor_size is smaller than the fields we need to read''
      else Inr (map entry_of_chunk (chunks_exact stride raw)))"

definition entry_contains :: "u64 \<Rightarrow> memory_map_entry \<Rightarrow> bool" where
  "entry_contains phys e =
     (case checked_mul (page_count e) UEFI_PAGE_SIZE of
        None \<Rightarrow> False
      | Some bytes \<Rightarrow>
          (case checked_add (phys_start e) bytes of
             None \<Rightarrow> False
           | Some stop \<Rightarrow> phys_start e \<le> phys \<and> phys < stop))"

definition find_entry :: "u8 list \<Rightarrow> u64 \<Rightarrow> u64 \<Rightarrow> string + memory_map_entry option" where
  "find_entry raw descriptor_size phys =
     (case parse_entries raw descriptor_size of
        Inl e \<Rightarrow> Inl e
      | Inr entries \<Rightarrow> Inr (find (entry_contains phys) entries))"

subsection \<open>Parsing\<close>

lemma chunks_exact_length: "chunk \<in> set (chunks_exact n xs) \<Longrightarrow> length chunk = n"
proof (induction n xs rule: chunks_exact.induct)
  case (1 n xs)
  then show ?case by (subst (asm) (2) chunks_exact.simps) (auto split: if_splits)
qed

lemma chunks_exact_count: "0 < n \<Longrightarrow> length (chunks_exact n xs) = length xs div n"
proof (induction n xs rule: chunks_exact.induct)
  case (1 n xs)
  show ?case
  proof (cases "length xs < n")
    case True
    then show ?thesis by (subst chunks_exact.simps) simp
  next
    case False
    with 1 have "length (chunks_exact n (drop n xs)) = (length xs - n) div n" by simp
    moreover have "length xs div n = Suc ((length xs - n) div n)"
      using False 1(2) by (simp add: le_div_geq)
    ultimately show ?thesis
      using False 1(2) by (subst chunks_exact.simps) simp
  qed
qed

lemma chunks_exact_nth:
  "i < length (chunks_exact n xs) \<Longrightarrow> chunks_exact n xs ! i = subslice (i * n) n xs"
proof (induction n xs arbitrary: i rule: chunks_exact.induct)
  case (1 n xs)
  show ?case
  proof (cases "n = 0 \<or> length xs < n")
    case True
    with "1.prems" show ?thesis by (subst (asm) chunks_exact.simps) simp
  next
    case False
    note unf = chunks_exact.simps [of n xs]
    show ?thesis
    proof (cases i)
      case 0
      then show ?thesis using False by (simp add: unf subslice_def)
    next
      case (Suc j)
      with "1.prems" False have j: "j < length (chunks_exact n (drop n xs))" by (simp add: unf)
      from "1.IH" [OF False this] show ?thesis
        using False Suc by (simp add: unf subslice_def add.commute)
    qed
  qed
qed

text \<open>The parser uses the firmware's descriptor size as its stride: of a buffer it accepts it
  returns one entry per complete descriptor, and entry \<open>i\<close> is read from the bytes at
  \<open>i * descriptor_size\<close>; a stride too small for the fields is an error.\<close>

theorem parse_entries_stride:
  "(case parse_entries raw descriptor_size of
      Inl e \<Rightarrow> unat descriptor_size < 32
    | Inr entries \<Rightarrow>
        32 \<le> unat descriptor_size \<and> length entries = length raw div unat descriptor_size \<and>
        (\<forall>i < length entries.
           entries ! i = entry_of_chunk (subslice (i * unat descriptor_size) (unat descriptor_size) raw)))"
  by (auto simp: parse_entries_def Let_def descriptor_offsets chunks_exact_count chunks_exact_nth)

theorem parse_entries_stride_witness:
  "\<exists>entries. parse_entries (replicate 81 1) 40 = Inr entries \<and> length entries = 2 \<and>
     entries ! 1 = entry_of_chunk (subslice 40 40 (replicate 81 1))"
  using parse_entries_stride [where raw = "replicate 81 1" and descriptor_size = 40]
  by (auto simp: parse_entries_def Let_def descriptor_offsets)

end
