(* ===== verification/Frame_Allocator.thy ===== *)
theory Frame_Allocator
  imports Addr Memory_Map
begin

text \<open>
  The physical frame allocator (\<open>kernel/src/frame_allocator.rs\<close>): the sorted list of free frame
  ranges, its insertion with merging, the three ways to allocate, the construction from the UEFI
  memory map, and the slot through which the one allocator of the kernel is lent out.

  The array \<open>ranges\<close> with its \<open>range_count\<close> is the list of its live entries; the loops that shift
  entries by one place are list insertion and removal. The capacity \<open>CAP\<close> is an argument. Frame
  numbers are naturals; an addition that overflows \<open>u64\<close> is \<open>Panic\<close>. Of the stored ranges the
  invariant keeps the end below \<open>2 ^ 64\<close>, so that \<open>end_frame\<close> itself never overflows.
\<close>

subsection \<open>Data\<close>

definition FRAME_SIZE :: nat where "FRAME_SIZE = 4096"
definition DEFAULT_CAPACITY :: nat where "DEFAULT_CAPACITY = 256"

record frame_range =
  start_frame :: nat
  frame_count :: nat

definition end_frame :: "frame_range \<Rightarrow> nat" where
  "end_frame r = start_frame r + frame_count r"

datatype frame_allocator_error = CapacityExceeded

record frame_allocator =
  fa_ranges :: "frame_range list"

definition frame_allocator_new :: frame_allocator where
  "frame_allocator_new = \<lparr>fa_ranges = []\<rparr>"

definition free_frame_count :: "frame_allocator \<Rightarrow> nat" where
  "free_frame_count fa = sum_list (map frame_count (fa_ranges fa))"

definition free_range_count :: "frame_allocator \<Rightarrow> nat" where
  "free_range_count fa = length (fa_ranges fa)"

definition free_ranges :: "frame_allocator \<Rightarrow> (nat \<times> nat) list" where
  "free_ranges fa = map (\<lambda>r. (start_frame r, frame_count r)) (fa_ranges fa)"

definition largest_contiguous_free_frames :: "frame_allocator \<Rightarrow> nat" where
  "largest_contiguous_free_frames fa = fold max (map snd (free_ranges fa)) 0"

subsection \<open>Inserting a free range\<close>

definition try_merge_forward :: "frame_range list \<Rightarrow> nat \<Rightarrow> frame_range list" where
  "try_merge_forward rs idx =
     (if idx + 1 < length rs \<and> start_frame (rs ! (idx + 1)) \<le> end_frame (rs ! idx)
      then let merged_end = max (end_frame (rs ! idx)) (end_frame (rs ! (idx + 1)));
               merged = (rs ! idx)\<lparr>frame_count := merged_end - start_frame (rs ! idx)\<rparr>
           in take idx rs @ merged # drop (idx + 2) rs
      else rs)"

definition insert_position :: "nat \<Rightarrow> frame_range list \<Rightarrow> nat" where
  "insert_position start rs =
     (case find_index (\<lambda>r. start < start_frame r) rs of Some i \<Rightarrow> i | None \<Rightarrow> length rs)"

definition insert_free_range ::
  "nat \<Rightarrow> frame_allocator \<Rightarrow> nat \<Rightarrow> nat \<Rightarrow> (frame_allocator_error, frame_allocator) outcome" where
  "insert_free_range cap fa start count =
     (if count = 0 then Ok fa
      else if u64_limit \<le> start + count then Panic
      else
        let new_end = start + count;
            rs = fa_ranges fa;
            insert_at = insert_position start rs
        in if 0 < insert_at \<and> start \<le> end_frame (rs ! (insert_at - 1)) then
             let prev = rs ! (insert_at - 1);
                 merged_end = max (end_frame prev) new_end;
                 prev' = prev\<lparr>frame_count := merged_end - start_frame prev\<rparr>
             in Ok (fa\<lparr>fa_ranges := try_merge_forward (rs[insert_at - 1 := prev']) (insert_at - 1)\<rparr>)
           else if insert_at < length rs \<and> start_frame (rs ! insert_at) \<le> new_end then
             let nxt = rs ! insert_at;
                 merged_start = min start (start_frame nxt);
                 merged_end = max new_end (end_frame nxt)
             in Ok (fa\<lparr>fa_ranges := rs[insert_at := \<lparr>start_frame = merged_start,
                                                    frame_count = merged_end - merged_start\<rparr>]\<rparr>)
           else if cap \<le> length rs then Err CapacityExceeded
           else Ok (fa\<lparr>fa_ranges := take insert_at rs @
                       \<lparr>start_frame = start, frame_count = count\<rparr> # drop insert_at rs\<rparr>))"

subsection \<open>Allocating and giving back\<close>

definition allocate_frame :: "frame_allocator \<Rightarrow> frame_allocator \<times> phys_addr option" where
  "allocate_frame fa =
     (case fa_ranges fa of
        [] \<Rightarrow> (fa, None)
      | r # rs \<Rightarrow>
          let frame = start_frame r;
              r' = r\<lparr>start_frame := frame + 1, frame_count := frame_count r - 1\<rparr>
          in (fa\<lparr>fa_ranges := (if frame_count r' = 0 then rs else r' # rs)\<rparr>, from_frame_number frame))"

definition deallocate_frame ::
  "nat \<Rightarrow> frame_allocator \<Rightarrow> phys_addr \<Rightarrow> (frame_allocator_error, frame_allocator) outcome" where
  "deallocate_frame cap fa addr = insert_free_range cap fa (frame_number addr) 1"

text \<open>The loop of \<open>allocate_contiguous_aligned\<close>: \<open>before\<close> holds the ranges already passed over. It
  yields the new list and the first frame of the block, or nothing when no range fits or the split
  would need one range more than the capacity.\<close>

definition split_range :: "frame_range \<Rightarrow> nat \<Rightarrow> nat \<Rightarrow> frame_range list" where
  "split_range r aligned count =
     (let leading = aligned - start_frame r;
          trailing = end_frame r - (aligned + count)
      in if leading = 0 \<and> trailing = 0 then []
         else if leading = 0 then [r\<lparr>start_frame := aligned + count, frame_count := trailing\<rparr>]
         else if trailing = 0 then [r\<lparr>frame_count := leading\<rparr>]
         else [r\<lparr>frame_count := leading\<rparr>,
               \<lparr>start_frame = aligned + count, frame_count = trailing\<rparr>])"

fun aligned_loop ::
  "nat \<Rightarrow> nat \<Rightarrow> nat \<Rightarrow> frame_range list \<Rightarrow> frame_range list \<Rightarrow>
   (frame_allocator_error, (frame_range list \<times> nat) option) outcome" where
  "aligned_loop cap count align before [] = Ok None"
| "aligned_loop cap count align before (r # rs) =
     (let aligned = next_multiple_of (start_frame r) align in
      if u64_limit \<le> aligned then Panic
      else if end_frame r < aligned + count then aligned_loop cap count align (before @ [r]) rs
      else let parts = split_range r aligned count in
           if length parts = 2 \<and> length (before @ r # rs) = cap then Ok None
           else Ok (Some (before @ parts @ rs, aligned)))"

definition allocate_contiguous_aligned ::
  "nat \<Rightarrow> frame_allocator \<Rightarrow> nat \<Rightarrow> u64 \<Rightarrow>
   (frame_allocator_error, frame_allocator \<times> phys_addr option) outcome" where
  "allocate_contiguous_aligned cap fa count align_frames =
     (if count = 0 \<or> align_frames = 0 \<or> \<not> is_power_of_two align_frames then Ok (fa, None)
      else bind_outcome (aligned_loop cap count (unat align_frames) [] (fa_ranges fa))
             (\<lambda>found. case found of
                 None \<Rightarrow> Ok (fa, None)
               | Some (rs, aligned) \<Rightarrow> Ok (fa\<lparr>fa_ranges := rs\<rparr>, from_frame_number aligned)))"

fun contiguous_loop :: "nat \<Rightarrow> frame_range list \<Rightarrow> (frame_range list \<times> nat) option" where
  "contiguous_loop count [] = None"
| "contiguous_loop count (r # rs) =
     (if count \<le> frame_count r
      then Some (if frame_count r = count then rs
                 else r\<lparr>start_frame := start_frame r + count,
                        frame_count := frame_count r - count\<rparr> # rs, start_frame r)
      else map_option (\<lambda>(rest, start). (r # rest, start)) (contiguous_loop count rs))"

definition allocate_contiguous ::
  "frame_allocator \<Rightarrow> nat \<Rightarrow> frame_allocator \<times> phys_addr option" where
  "allocate_contiguous fa count =
     (if count = 0 then (fa, None)
      else case contiguous_loop count (fa_ranges fa) of
             None \<Rightarrow> (fa, None)
           | Some (rs, start) \<Rightarrow> (fa\<lparr>fa_ranges := rs\<rparr>, from_frame_number start))"

subsection \<open>Building the allocator from the memory map\<close>

record exclusion_breakdown =
  reserved_pages :: nat
  loader_code_pages :: nat
  loader_data_pages :: nat
  boot_services_code_pages :: nat
  boot_services_data_pages :: nat
  runtime_services_code_pages :: nat
  runtime_services_data_pages :: nat
  unusable_pages :: nat
  acpi_reclaim_pages :: nat
  acpi_nvs_pages :: nat
  mmio_pages :: nat
  mmio_port_space_pages :: nat
  pal_code_pages :: nat
  persistent_pages :: nat
  unaccepted_pages :: nat
  vendor_reserved_pages :: nat
  null_page_excluded_pages :: nat
  unknown_type_pages :: nat

definition no_exclusions :: exclusion_breakdown where
  "no_exclusions =
     \<lparr>reserved_pages = 0, loader_code_pages = 0, loader_data_pages = 0,
      boot_services_code_pages = 0, boot_services_data_pages = 0,
      runtime_services_code_pages = 0, runtime_services_data_pages = 0, unusable_pages = 0,
      acpi_reclaim_pages = 0, acpi_nvs_pages = 0, mmio_pages = 0, mmio_port_space_pages = 0,
      pal_code_pages = 0, persistent_pages = 0, unaccepted_pages = 0, vendor_reserved_pages = 0,
      null_page_excluded_pages = 0, unknown_type_pages = 0\<rparr>"

text \<open>The sum of all fields; \<open>total_pages\<close> panics when it does not fit a \<open>u64\<close>.\<close>

definition pages_sum :: "exclusion_breakdown \<Rightarrow> nat" where
  "pages_sum b =
     reserved_pages b + loader_code_pages b + loader_data_pages b + boot_services_code_pages b +
     boot_services_data_pages b + runtime_services_code_pages b + runtime_services_data_pages b +
     unusable_pages b + acpi_reclaim_pages b + acpi_nvs_pages b + mmio_pages b +
     mmio_port_space_pages b + pal_code_pages b + persistent_pages b + unaccepted_pages b +
     vendor_reserved_pages b + null_page_excluded_pages b + unknown_type_pages b"

definition total_pages :: "exclusion_breakdown \<Rightarrow> ('e, nat) outcome" where
  "total_pages b = (if pages_sum b < u64_limit then Ok (pages_sum b) else Panic)"

text \<open>One counter of the breakdown after \<open>+= pages\<close>: the panic of the overflow is decided on the
  counter's new value.\<close>

definition bumped :: "(exclusion_breakdown \<Rightarrow> nat) \<Rightarrow> exclusion_breakdown \<Rightarrow> ('e, exclusion_breakdown) outcome" where
  "bumped field b = (if field b < u64_limit then Ok b else Panic)"

definition exclusions_add :: "exclusion_breakdown \<Rightarrow> u32 \<Rightarrow> nat \<Rightarrow> ('e, exclusion_breakdown) outcome" where
  "exclusions_add b ty pages =
     (if pages = 0 then Ok b
      else if ty = RESERVED then bumped reserved_pages (b\<lparr>reserved_pages := reserved_pages b + pages\<rparr>)
      else if ty = LOADER_CODE then bumped loader_code_pages (b\<lparr>loader_code_pages := loader_code_pages b + pages\<rparr>)
      else if ty = LOADER_DATA then bumped loader_data_pages (b\<lparr>loader_data_pages := loader_data_pages b + pages\<rparr>)
      else if ty = BOOT_SERVICES_CODE
        then bumped boot_services_code_pages (b\<lparr>boot_services_code_pages := boot_services_code_pages b + pages\<rparr>)
      else if ty = BOOT_SERVICES_DATA
        then bumped boot_services_data_pages (b\<lparr>boot_services_data_pages := boot_services_data_pages b + pages\<rparr>)
      else if ty = RUNTIME_SERVICES_CODE
        then bumped runtime_services_code_pages (b\<lparr>runtime_services_code_pages := runtime_services_code_pages b + pages\<rparr>)
      else if ty = RUNTIME_SERVICES_DATA
        then bumped runtime_services_data_pages (b\<lparr>runtime_services_data_pages := runtime_services_data_pages b + pages\<rparr>)
      else if ty = UNUSABLE then bumped unusable_pages (b\<lparr>unusable_pages := unusable_pages b + pages\<rparr>)
      else if ty = ACPI_RECLAIM then bumped acpi_reclaim_pages (b\<lparr>acpi_reclaim_pages := acpi_reclaim_pages b + pages\<rparr>)
      else if ty = ACPI_NVS then bumped acpi_nvs_pages (b\<lparr>acpi_nvs_pages := acpi_nvs_pages b + pages\<rparr>)
      else if ty = MMIO then bumped mmio_pages (b\<lparr>mmio_pages := mmio_pages b + pages\<rparr>)
      else if ty = MMIO_PORT_SPACE
        then bumped mmio_port_space_pages (b\<lparr>mmio_port_space_pages := mmio_port_space_pages b + pages\<rparr>)
      else if ty = PAL_CODE then bumped pal_code_pages (b\<lparr>pal_code_pages := pal_code_pages b + pages\<rparr>)
      else if ty = PERSISTENT then bumped persistent_pages (b\<lparr>persistent_pages := persistent_pages b + pages\<rparr>)
      else if ty = UNACCEPTED then bumped unaccepted_pages (b\<lparr>unaccepted_pages := unaccepted_pages b + pages\<rparr>)
      else if VENDOR_RESERVED_START \<le> ty
        then bumped vendor_reserved_pages (b\<lparr>vendor_reserved_pages := vendor_reserved_pages b + pages\<rparr>)
      else bumped unknown_type_pages (b\<lparr>unknown_type_pages := unknown_type_pages b + pages\<rparr>))"

record frame_allocator_stats =
  stats_free_frame_count :: nat
  stats_exclusions :: exclusion_breakdown

definition free_mib :: "frame_allocator_stats \<Rightarrow> ('e, nat) outcome" where
  "free_mib s =
     (if stats_free_frame_count s * FRAME_SIZE < u64_limit
      then Ok (stats_free_frame_count s * FRAME_SIZE div (1024 * 1024)) else Panic)"

definition excluded_mib :: "frame_allocator_stats \<Rightarrow> ('e, nat) outcome" where
  "excluded_mib s =
     bind_outcome (total_pages (stats_exclusions s))
       (\<lambda>pages. if pages * FRAME_SIZE < u64_limit then Ok (pages * FRAME_SIZE div (1024 * 1024)) else Panic)"

definition build_error :: string where
  "build_error = ''frame allocator free-range capacity exceeded while building from the UEFI memory map''"

definition map_err :: "'f \<Rightarrow> ('e, 'a) outcome \<Rightarrow> ('f, 'a) outcome" where
  "map_err f m = (case m of Ok a \<Rightarrow> Ok a | Err _ \<Rightarrow> Err f | Panic \<Rightarrow> Panic)"

definition build_entry ::
  "frame_allocator \<times> exclusion_breakdown \<Rightarrow> memory_map_entry \<Rightarrow>
   (string, frame_allocator \<times> exclusion_breakdown) outcome" where
  "build_entry = (\<lambda>(allocator, exclusions) entry.
     if page_count entry = 0 then Ok (allocator, exclusions)
     else if classify (memory_type entry) \<noteq> Free then
       bind_outcome (exclusions_add exclusions (memory_type entry) (unat (page_count entry)))
         (\<lambda>exclusions'. Ok (allocator, exclusions'))
     else
       let first = unat (phys_start entry) div FRAME_SIZE;
           pages = unat (page_count entry);
           start = (if first = 0 then 1 else first);
           count = (if first = 0 then pages - 1 else pages)
       in bind_outcome
            (if first = 0
             then bumped null_page_excluded_pages
                    (exclusions\<lparr>null_page_excluded_pages := null_page_excluded_pages exclusions + 1\<rparr>)
             else Ok exclusions)
            (\<lambda>exclusions'.
               if count = 0 then Ok (allocator, exclusions')
               else bind_outcome
                      (map_err build_error (insert_free_range DEFAULT_CAPACITY allocator start count))
                      (\<lambda>allocator'. Ok (allocator', exclusions'))))"

fun build_loop ::
  "frame_allocator \<times> exclusion_breakdown \<Rightarrow> memory_map_entry list \<Rightarrow>
   (string, frame_allocator \<times> exclusion_breakdown) outcome" where
  "build_loop st [] = Ok st"
| "build_loop st (e # es) = bind_outcome (build_entry st e) (\<lambda>st'. build_loop st' es)"

definition build :: "u8 list \<Rightarrow> u64 \<Rightarrow> (string, frame_allocator \<times> frame_allocator_stats) outcome" where
  "build raw descriptor_size =
     (case parse_entries raw descriptor_size of
        Inl e \<Rightarrow> Err e
      | Inr entries \<Rightarrow>
          bind_outcome (build_loop (frame_allocator_new, no_exclusions) entries)
            (\<lambda>(allocator, exclusions).
               Ok (allocator, \<lparr>stats_free_frame_count = free_frame_count allocator,
                               stats_exclusions = exclusions\<rparr>)))"

subsection \<open>Lending the one allocator out\<close>

text \<open>\<open>take\<close> hands out a reference to the storage; \<open>None\<close> is a failed \<open>take\<close>. The counters wrap around, as
  \<open>fetch_add\<close> does.\<close>

record lending =
  lend_storage :: frame_allocator
  lend_present :: bool
  lend_on_loan :: bool
  lend_taken :: u64
  lend_returned :: u64

definition lending_init :: lending where
  "lending_init = \<lparr>lend_storage = frame_allocator_new, lend_present = False, lend_on_loan = False,
                   lend_taken = 0, lend_returned = 0\<rparr>"

definition deposit :: "lending \<Rightarrow> frame_allocator \<Rightarrow> lending" where
  "deposit l allocator = l\<lparr>lend_storage := allocator, lend_present := True\<rparr>"

definition take_allocator :: "lending \<Rightarrow> lending \<times> frame_allocator option" where
  "take_allocator l =
     (if \<not> lend_present l then (l, None)
      else if lend_on_loan l then (l, None)
      else (l\<lparr>lend_on_loan := True, lend_taken := lend_taken l + 1\<rparr>, Some (lend_storage l)))"

text \<open>The borrower has changed the storage through its reference: \<open>give_back\<close> gets the state it
  left there.\<close>

definition give_back :: "lending \<Rightarrow> frame_allocator \<Rightarrow> lending" where
  "give_back l allocator =
     l\<lparr>lend_storage := allocator, lend_returned := lend_returned l + 1, lend_on_loan := False\<rparr>"

definition lending_counts :: "lending \<Rightarrow> u64 \<times> u64 \<times> bool" where
  "lending_counts l = (lend_taken l, lend_returned l, \<not> lend_on_loan l)"

subsection \<open>The invariant and the set of free frames\<close>

text \<open>Sorted, no empty range, no two ranges adjacent, every end a \<open>u64\<close>; \<open>lo\<close> bounds the first
  start from below.\<close>

fun ranges_ok :: "nat \<Rightarrow> frame_range list \<Rightarrow> bool" where
  "ranges_ok lo [] = True"
| "ranges_ok lo (r # rs) \<longleftrightarrow>
     lo \<le> start_frame r \<and> 0 < frame_count r \<and> end_frame r < u64_limit \<and> ranges_ok (end_frame r + 1) rs"

definition fa_invar :: "nat \<Rightarrow> frame_allocator \<Rightarrow> bool" where
  "fa_invar cap fa \<longleftrightarrow> ranges_ok 0 (fa_ranges fa) \<and> length (fa_ranges fa) \<le> cap"

definition range_frames :: "frame_range \<Rightarrow> nat set" where
  "range_frames r = {start_frame r ..< end_frame r}"

definition frames_of :: "frame_range list \<Rightarrow> nat set" where
  "frames_of rs = (\<Union>r \<in> set rs. range_frames r)"

definition free_frames :: "frame_allocator \<Rightarrow> nat set" where
  "free_frames fa = frames_of (fa_ranges fa)"

fun upper :: "nat \<Rightarrow> frame_range list \<Rightarrow> nat" where
  "upper lo [] = lo"
| "upper lo (r # rs) = upper (end_frame r + 1) rs"

lemma frames_of_simps [simp]:
  "frames_of [] = {}"
  "frames_of (r # rs) = range_frames r \<union> frames_of rs"
  "frames_of (xs @ ys) = frames_of xs \<union> frames_of ys"
  by (auto simp: frames_of_def)

lemma ranges_ok_append: "ranges_ok lo (xs @ ys) \<longleftrightarrow> ranges_ok lo xs \<and> ranges_ok (upper lo xs) ys"
  by (induction xs arbitrary: lo) auto

lemma upper_snoc [simp]: "upper lo (xs @ [r]) = end_frame r + 1"
  by (induction xs arbitrary: lo) auto

lemma ranges_ok_weaken: "ranges_ok lo rs \<Longrightarrow> lo' \<le> lo \<Longrightarrow> ranges_ok lo' rs"
  by (cases rs) auto

lemma ranges_ok_frames: "ranges_ok lo rs \<Longrightarrow> f \<in> frames_of rs \<Longrightarrow> lo \<le> f \<and> f < u64_limit"
  by (induction rs arbitrary: lo) (fastforce simp: range_frames_def end_frame_def)+

lemma finite_frames_of [simp]: "finite (frames_of rs)"
  by (simp add: frames_of_def range_frames_def)

text \<open>The list is determined by the set: this is what makes a round trip restore the very state.\<close>

lemma frames_nonempty: "ranges_ok lo (r # rs) \<Longrightarrow> start_frame r \<in> frames_of (r # rs)"
  by (simp add: range_frames_def end_frame_def)

lemma frames_above_head:
  assumes "ranges_ok lo (r # rs)"
  shows "f \<in> frames_of (r # rs) \<Longrightarrow> start_frame r \<le> f"
    and "end_frame r \<notin> frames_of (r # rs)"
    and "f \<in> frames_of rs \<longleftrightarrow> f \<in> frames_of (r # rs) \<and> end_frame r < f"
  using assms ranges_ok_frames [of "end_frame r + 1" rs]
  by (fastforce simp: range_frames_def end_frame_def)+

lemma same_start:
  assumes "ranges_ok lo (r # rs)" "ranges_ok lo' (q # qs)" "frames_of (r # rs) = frames_of (q # qs)"
  shows "start_frame r = start_frame q"
  using assms frames_nonempty frames_above_head(1) by (metis le_antisym)

lemma head_end_le:
  assumes "ranges_ok lo (r # rs)" "ranges_ok lo' (q # qs)" "frames_of (r # rs) = frames_of (q # qs)"
  shows "end_frame q \<le> end_frame r"
proof (rule ccontr)
  assume "\<not> end_frame q \<le> end_frame r"
  then have "end_frame r \<in> range_frames q"
    using assms same_start [OF assms] by (simp add: range_frames_def end_frame_def)
  then have "end_frame r \<in> frames_of (r # rs)" using assms(3) by simp
  then show False using frames_above_head(2) [OF assms(1)] by simp
qed

lemma ranges_unique:
  "ranges_ok lo rs \<Longrightarrow> ranges_ok lo' qs \<Longrightarrow> frames_of rs = frames_of qs \<Longrightarrow> rs = qs"
proof (induction rs arbitrary: qs lo lo')
  case Nil
  then show ?case by (cases qs) (auto simp: range_frames_def end_frame_def)
next
  case (Cons r rs)
  show ?case
  proof (cases qs)
    case Nil
    with Cons.prems show ?thesis by (auto simp: range_frames_def end_frame_def)
  next
    case (Cons q qs')
    note prems = Cons.prems [unfolded Cons]
    have st: "start_frame r = start_frame q" by (rule same_start [OF prems])
    have en: "end_frame r = end_frame q"
      using head_end_le [OF prems] head_end_le [OF prems(2,1) prems(3) [symmetric]] by simp
    have "frames_of rs = frames_of qs'"
      using frames_above_head(3) [OF prems(1)] frames_above_head(3) [OF prems(2)] prems(3) en by auto
    then have "rs = qs'" using Cons.IH prems(1,2) by auto
    moreover have "r = q" using st en by (simp add: end_frame_def)
    ultimately show ?thesis by (simp add: Cons)
  qed
qed

lemma fa_unique:
  assumes "fa_invar cap fa" "fa_invar cap' fb" "free_frames fa = free_frames fb"
  shows "fa = fb"
  using assms ranges_unique [of 0 "fa_ranges fa" 0 "fa_ranges fb"]
  by (simp add: fa_invar_def free_frames_def)

lemma free_frame_count_card:
  assumes "fa_invar cap fa"
  shows "free_frame_count fa = card (free_frames fa)"
proof -
  have "ranges_ok lo rs \<Longrightarrow> sum_list (map frame_count rs) = card (frames_of rs)" for lo rs
  proof (induction rs arbitrary: lo)
    case Nil
    show ?case by simp
  next
    case (Cons r rs)
    have "end_frame r < f" if "f \<in> frames_of rs" for f
      using frames_above_head(3) [OF Cons.prems] that by blast
    then have "range_frames r \<inter> frames_of rs = {}" by (fastforce simp: range_frames_def)
    then have "card (frames_of (r # rs)) = card (range_frames r) + card (frames_of rs)"
      by (simp add: card_Un_disjoint range_frames_def)
    with Cons show ?case by (auto simp: range_frames_def end_frame_def)
  qed
  from this [of 0 "fa_ranges fa"] assms show ?thesis
    by (simp add: fa_invar_def free_frames_def free_frame_count_def)
qed

subsection \<open>Insertion\<close>

lemma insert_position_split:
  assumes "insert_position start rs = n"
  shows "n \<le> length rs" and "i < n \<Longrightarrow> start_frame (rs ! i) \<le> start"
    and "n < length rs \<Longrightarrow> start < start_frame (rs ! n)"
  using assms find_index_Some [of "\<lambda>r. start < start_frame r" rs]
  by (auto simp: insert_position_def find_index_None split: option.splits)
     (force simp: not_less)+

lemma range_frames_new [simp]:
  "range_frames \<lparr>start_frame = s, frame_count = c\<rparr> = {s ..< s + c}"
  by (simp add: range_frames_def end_frame_def)

text \<open>Insertion at a split of the list. \<open>xs\<close> holds the ranges that start at or below the new one,
  \<open>ys\<close> those above it; the caller's contract is that the new frames are not free.\<close>

lemma frames_bounds:
  assumes "ranges_ok lo (xs @ ys)" "{start ..< start + count} \<inter> frames_of (xs @ ys) = {}" "0 < count"
  shows "xs = xs' @ [p] \<Longrightarrow> start_frame p \<le> start \<Longrightarrow> end_frame p \<le> start"
    and "ys = q # ys' \<Longrightarrow> start < start_frame q \<Longrightarrow> start + count \<le> start_frame q"
proof -
  assume x: "xs = xs' @ [p]" "start_frame p \<le> start"
  show "end_frame p \<le> start"
  proof (rule ccontr)
    assume "\<not> end_frame p \<le> start"
    then have "start \<in> range_frames p" using x by (simp add: range_frames_def)
    moreover have "start \<in> {start ..< start + count}" using assms(3) by simp
    ultimately show False using assms(2) unfolding x(1) frames_of_simps by blast
  qed
next
  assume y: "ys = q # ys'" "start < start_frame q"
  show "start + count \<le> start_frame q"
  proof (rule ccontr)
    assume "\<not> start + count \<le> start_frame q"
    then have "start_frame q \<in> {start ..< start + count}" using y by simp
    moreover have "start_frame q \<in> frames_of ys"
      using assms(1) y by (auto simp: ranges_ok_append range_frames_def end_frame_def)
    ultimately show False using assms(2) by auto
  qed
qed

lemma insert_merge_prev:
  assumes ok: "ranges_ok lo (xs @ p # ys)" and lt: "start + count < u64_limit"
    and adj: "end_frame p = start" and "0 < count"
    and above: "ys \<noteq> [] \<Longrightarrow> start + count \<le> start_frame (hd ys)"
    and eq: "rs = try_merge_forward (xs @ (p\<lparr>frame_count := start + count - start_frame p\<rparr>) # ys) (length xs)"
  shows "ranges_ok lo rs" and "frames_of rs = frames_of (xs @ p # ys) \<union> {start ..< start + count}"
    and "length rs \<le> length (xs @ p # ys)"
proof -
  have le: "start_frame p \<le> start" using adj by (simp add: end_frame_def)
  show "ranges_ok lo rs" "frames_of rs = frames_of (xs @ p # ys) \<union> {start ..< start + count}"
    "length rs \<le> length (xs @ p # ys)"
    using assms le by (cases ys;
      force simp: try_merge_forward_def ranges_ok_append end_frame_def range_frames_def nth_append Let_def max_def)+
qed

lemma insert_merge_next:
  assumes ok: "ranges_ok lo (xs @ q # ys)" and "start < start_frame q" "start + count = start_frame q"
    and "\<And>p xs'. xs = xs' @ [p] \<Longrightarrow> end_frame p < start" "lo \<le> start"
    and eq: "rs = xs @ \<lparr>start_frame = start, frame_count = end_frame q - start\<rparr> # ys"
  shows "ranges_ok lo rs" and "frames_of rs = frames_of (xs @ q # ys) \<union> {start ..< start + count}"
  using assms by (cases xs rule: rev_cases;
    force simp: ranges_ok_append end_frame_def range_frames_def)+

lemma insert_fresh:
  assumes ok: "ranges_ok lo (xs @ ys)" and "start + count < u64_limit" "0 < count" "lo \<le> start"
    and "\<And>p xs'. xs = xs' @ [p] \<Longrightarrow> end_frame p < start"
    and "\<And>q ys'. ys = q # ys' \<Longrightarrow> start + count < start_frame q"
    and eq: "rs = xs @ \<lparr>start_frame = start, frame_count = count\<rparr> # ys"
  shows "ranges_ok lo rs" and "frames_of rs = frames_of (xs @ ys) \<union> {start ..< start + count}"
  using assms by (cases xs rule: rev_cases; cases ys;
    force simp: ranges_ok_append end_frame_def range_frames_def)+

lemma not_adjacent:
  assumes ok: "ranges_ok lo (xs @ ys)"
    and below: "\<And>p xs'. xs = xs' @ [p] \<Longrightarrow> end_frame p < start"
    and above: "\<And>q ys'. ys = q # ys' \<Longrightarrow> start + count < start_frame q"
  shows "f \<in> frames_of (xs @ ys) \<Longrightarrow> f + 1 < start \<or> start + count < f"
proof -
  assume "f \<in> frames_of (xs @ ys)"
  then consider "f \<in> frames_of xs" | "f \<in> frames_of ys" by auto
  then show ?thesis
  proof cases
    case 1
    then obtain xs' p where x: "xs = xs' @ [p]" by (cases xs rule: rev_cases) auto
    have "ranges_ok lo' (as @ [p]) \<Longrightarrow> f \<in> frames_of (as @ [p]) \<Longrightarrow> f < end_frame p" for lo' as
    proof (induction as arbitrary: lo')
      case Nil
      then show ?case by (simp add: range_frames_def)
    next
      case (Cons a as)
      then have "ranges_ok (end_frame a + 1) (as @ [p])" by simp
      moreover from this have "start_frame p \<in> frames_of (as @ [p])"
        by (auto simp: ranges_ok_append range_frames_def end_frame_def)
      ultimately have "end_frame a + 1 \<le> start_frame p" using ranges_ok_frames by blast
      then show ?case using Cons by (auto simp: range_frames_def end_frame_def)
    qed
    then show ?thesis using 1 x ok below [OF x] by (fastforce simp: ranges_ok_append)
  next
    case 2
    then obtain q ys' where y: "ys = q # ys'" by (cases ys) auto
    have "ranges_ok (upper lo xs) (q # ys')" using ok y by (simp add: ranges_ok_append)
    from frames_above_head(1) [OF this] 2 y above [OF y] show ?thesis by fastforce
  qed
qed

lemma insert_split:
  assumes "fa_invar cap fa" "{start ..< start + count} \<inter> free_frames fa = {}" "0 < count"
  obtains xs ys where "fa_ranges fa = xs @ ys" "length xs = insert_position start (fa_ranges fa)"
    "ranges_ok 0 (xs @ ys)" "free_frames fa = frames_of (xs @ ys)" "length (xs @ ys) \<le> cap"
    "\<And>p xs'. xs = xs' @ [p] \<Longrightarrow> end_frame p \<le> start"
    "\<And>q ys'. ys = q # ys' \<Longrightarrow> start < start_frame q \<and> start + count \<le> start_frame q"
proof -
  define n where "n = insert_position start (fa_ranges fa)"
  define xs where "xs = take n (fa_ranges fa)"
  define ys where "ys = drop n (fa_ranges fa)"
  note pos = insert_position_split [OF n_def [symmetric]]
  have sp: "fa_ranges fa = xs @ ys" and lx: "length xs = n" using pos(1) by (simp_all add: xs_def ys_def)
  have ok: "ranges_ok 0 (xs @ ys)" and len: "length (xs @ ys) \<le> cap"
    using assms(1) sp by (simp_all add: fa_invar_def)
  have dis: "{start ..< start + count} \<inter> frames_of (xs @ ys) = {}"
    using assms(2) sp by (simp add: free_frames_def)
  note fb = frames_bounds [OF ok dis assms(3)]
  have low: "end_frame p \<le> start" if "xs = xs' @ [p]" for p xs'
    using fb(1) [OF that] pos(2) [of "length xs'"] that lx sp by (simp add: nth_append)
  have high: "start < start_frame q \<and> start + count \<le> start_frame q" if "ys = q # ys'" for q ys'
    using fb(2) [OF that] pos(3) that lx sp by (simp add: nth_append)
  show thesis
    using that [OF sp lx [unfolded n_def] ok _ len low high] sp by (simp add: free_frames_def)
qed

text \<open>What \<open>insert_free_range\<close> is for: the free set gains exactly the new frames, and it fails
  only for a range that touches no other when the array is full.\<close>

lemma insert_free_range_spec:
  assumes inv: "fa_invar cap fa" and lt: "start + count < u64_limit"
    and fresh: "{start ..< start + count} \<inter> free_frames fa = {}"
  shows "case insert_free_range cap fa start count of
           Ok fa' \<Rightarrow> fa_invar cap fa' \<and> free_frames fa' = free_frames fa \<union> {start ..< start + count}
         | Err e \<Rightarrow> length (fa_ranges fa) = cap \<and> (\<forall>f \<in> free_frames fa. f + 1 < start \<or> start + count < f)
         | Panic \<Rightarrow> False"
proof (cases "count = 0")
  case True
  with inv show ?thesis by (simp add: insert_free_range_def)
next
  case False
  then have c: "0 < count" by simp
  obtain xs ys where sp: "fa_ranges fa = xs @ ys"
    and lx: "length xs = insert_position start (fa_ranges fa)"
    and ok: "ranges_ok 0 (xs @ ys)" and free: "free_frames fa = frames_of (xs @ ys)"
    and len: "length (xs @ ys) \<le> cap"
    and low: "\<And>p xs'. xs = xs' @ [p] \<Longrightarrow> end_frame p \<le> start"
    and high: "\<And>q ys'. ys = q # ys' \<Longrightarrow> start < start_frame q \<and> start + count \<le> start_frame q"
    using insert_split [OF inv fresh c] by metis
  have high2: "ys \<noteq> [] \<Longrightarrow> start + count \<le> start_frame (hd ys)" using high by (cases ys) auto
  note pos = lx [symmetric, unfolded sp]
  note unf = insert_free_range_def [of cap fa start count, unfolded Let_def sp pos]
  show ?thesis
  proof (cases "xs \<noteq> [] \<and> end_frame (last xs) = start")
    case True
    then obtain xs' p where x: "xs = xs' @ [p]" by (cases xs rule: rev_cases) auto
    with True have adj: "end_frame p = start" by simp
    let ?p = "p\<lparr>frame_count := start + count - start_frame p\<rparr>"
    have "(xs @ ys)[length xs - 1 := ?p] = xs' @ ?p # ys" using x by (simp add: list_update_append)
    then have ins: "insert_free_range cap fa start count =
        Ok (fa\<lparr>fa_ranges := try_merge_forward (xs' @ ?p # ys) (length xs')\<rparr>)"
      using lt c x adj by (simp add: unf nth_append)
    have ok': "ranges_ok 0 (xs' @ p # ys)" using ok x by simp
    note m = insert_merge_prev [OF ok' lt adj c high2 refl]
    then show ?thesis using ins free x len by (simp add: fa_invar_def free_frames_def)
  next
    case np: False
    have sep: "end_frame p < start" if "xs = xs' @ [p]" for p xs' using low [OF that] np that by auto
    then have nprev: "\<not> (0 < length xs \<and> start \<le> end_frame ((xs @ ys) ! (length xs - 1)))"
      by (cases xs rule: rev_cases) (auto simp: nth_append)
    show ?thesis
    proof (cases "\<exists>q ys'. ys = q # ys' \<and> start + count = start_frame q")
      case True
      then obtain q ys' where y: "ys = q # ys'" "start + count = start_frame q" by blast
      let ?q = "\<lparr>start_frame = start, frame_count = end_frame q - start\<rparr>"
      have "start_frame q \<le> end_frame q" by (simp add: end_frame_def)
      then have ins: "insert_free_range cap fa start count = Ok (fa\<lparr>fa_ranges := xs @ ?q # ys'\<rparr>)"
        using lt c y high [OF y(1)] unfolding unf if_not_P [OF nprev]
        by (simp add: list_update_append)
      have ok': "ranges_ok 0 (xs @ q # ys')" using ok y by simp
      note m = insert_merge_next [OF ok' high [OF y(1), THEN conjunct1] y(2) sep le0 refl]
      then show ?thesis using ins free y len by (simp add: fa_invar_def free_frames_def)
    next
      case nn: False
      have above: "start + count < start_frame q" if "ys = q # ys'" for q ys'
        using high [OF that] nn that by auto
      then have nnext: "\<not> (length xs < length (xs @ ys) \<and> start_frame ((xs @ ys) ! length xs) \<le> start + count)"
        by (cases ys) (auto simp: nth_append)
      have ins: "insert_free_range cap fa start count =
          (if cap \<le> length (xs @ ys) then Err CapacityExceeded
           else Ok (fa\<lparr>fa_ranges := xs @ \<lparr>start_frame = start, frame_count = count\<rparr> # ys\<rparr>))"
        using lt c unfolding unf if_not_P [OF nprev] if_not_P [OF nnext] by simp
      note m = insert_fresh [OF ok lt c le0 sep above refl]
      show ?thesis
        using m ins free len sp not_adjacent [OF ok sep above] by (simp add: fa_invar_def free_frames_def)
    qed
  qed
qed

subsection \<open>Allocation\<close>

lemma allocate_frame_spec:
  assumes inv: "fa_invar cap fa" and ne: "free_frames fa \<noteq> {}"
  obtains fa' where "allocate_frame fa = (fa', from_frame_number (Min (free_frames fa)))"
    "fa_invar cap fa'" "free_frames fa' = free_frames fa - {Min (free_frames fa)}"
proof -
  obtain r rs where rs: "fa_ranges fa = r # rs" using ne by (cases "fa_ranges fa") (auto simp: free_frames_def)
  have ok: "ranges_ok 0 (r # rs)" using inv rs by (simp add: fa_invar_def)
  have min: "Min (free_frames fa) = start_frame r"
    using frames_nonempty [OF ok] frames_above_head(1) [OF ok] rs
    by (intro Min_eqI) (auto simp: free_frames_def simp del: frames_of_simps)
  have out: "start_frame r \<notin> frames_of rs" using frames_above_head(3) [OF ok, of "start_frame r"]
    by (auto simp: end_frame_def)
  let ?r = "r\<lparr>start_frame := start_frame r + 1, frame_count := frame_count r - 1\<rparr>"
  let ?rs = "if frame_count r = 1 then rs else ?r # rs"
  have "ranges_ok 0 ?rs" using ok by (auto simp: end_frame_def intro: ranges_ok_weaken)
  moreover have "frames_of ?rs = frames_of (r # rs) - {start_frame r}"
    using ok out by (auto simp: range_frames_def end_frame_def)
  moreover have "allocate_frame fa = (fa\<lparr>fa_ranges := ?rs\<rparr>, from_frame_number (start_frame r))"
    using ok by (auto simp: allocate_frame_def rs Let_def)
  ultimately show thesis
    using that [of "fa\<lparr>fa_ranges := ?rs\<rparr>"] inv rs min by (auto simp: fa_invar_def free_frames_def)
qed

lemma allocate_frame_empty: "free_frames fa = {} \<Longrightarrow> fa_invar cap fa \<Longrightarrow> allocate_frame fa = (fa, None)"
  by (cases "fa_ranges fa") (auto simp: allocate_frame_def free_frames_def fa_invar_def range_frames_def end_frame_def)

text \<open>A block of free frames lies in one range, since no two ranges are adjacent.\<close>

lemma block_in_one_range:
  "ranges_ok lo rs \<Longrightarrow> {t ..< t + c} \<subseteq> frames_of rs \<Longrightarrow> 0 < c \<Longrightarrow>
   \<exists>r \<in> set rs. start_frame r \<le> t \<and> t + c \<le> end_frame r"
proof (induction rs arbitrary: lo)
  case Nil
  then show ?case by auto
next
  case (Cons r rs)
  note head = frames_above_head [OF Cons.prems(1)]
  have "t \<in> {t ..< t + c}" using Cons.prems(3) by simp
  then have t: "t \<in> frames_of (r # rs)" using Cons.prems(2) by blast
  show ?case
  proof (cases "t < end_frame r")
    case True
    have "t + c \<le> end_frame r"
    proof (rule ccontr)
      assume "\<not> t + c \<le> end_frame r"
      then have "end_frame r \<in> {t ..< t + c}" using True by simp
      then show False using Cons.prems(2) head(2) by blast
    qed
    then show ?thesis using head(1) [OF t] by auto
  next
    case False
    have "f \<in> frames_of rs" if "f \<in> {t ..< t + c}" for f
    proof -
      have "f \<in> frames_of (r # rs)" using Cons.prems(2) that by blast
      moreover have "end_frame r < f" using False that head(2) calculation by (cases "f = end_frame r") auto
      ultimately show ?thesis using head(3) by blast
    qed
    then have "{t ..< t + c} \<subseteq> frames_of rs" by blast
    then show ?thesis using Cons.IH [of "end_frame r + 1"] Cons.prems by auto
  qed
qed

definition fits :: "nat \<Rightarrow> nat \<Rightarrow> frame_range \<Rightarrow> bool" where
  "fits count align r \<longleftrightarrow> next_multiple_of (start_frame r) align + count \<le> end_frame r"

lemma aligned_loop_Some:
  assumes "aligned_loop cap count align before rs = Ok (Some (rs', s))"
  shows "\<exists>xs r ys. rs = xs @ r # ys \<and> (\<forall>x \<in> set xs. \<not> fits count align x) \<and> fits count align r \<and>
    s = next_multiple_of (start_frame r) align \<and> rs' = before @ xs @ split_range r s count @ ys \<and>
    \<not> (length (split_range r s count) = 2 \<and> length (before @ rs) = cap)"
  using assms
proof (induction cap count align before rs rule: aligned_loop.induct)
  case (2 cap count align before r rs)
  let ?a = "next_multiple_of (start_frame r) align"
  show ?case
  proof (cases "fits count align r")
    case True
    show ?thesis
      apply (rule exI [of _ "[]"], rule exI [of _ r], rule exI [of _ rs])
      using True "2.prems" by (auto simp: fits_def Let_def split: if_splits)
  next
    case False
    with "2.prems" have "\<not> u64_limit \<le> ?a" "end_frame r < ?a + count"
      and "aligned_loop cap count align (before @ [r]) rs = Ok (Some (rs', s))"
      by (auto simp: fits_def Let_def split: if_splits)
    from "2.IH" [OF refl this] obtain xs q ys where IH:
      "rs = xs @ q # ys \<and> (\<forall>x \<in> set xs. \<not> fits count align x) \<and> fits count align q \<and>
       s = next_multiple_of (start_frame q) align \<and> rs' = (before @ [r]) @ xs @ split_range q s count @ ys \<and>
       \<not> (length (split_range q s count) = 2 \<and> length ((before @ [r]) @ rs) = cap)" by blast
    show ?thesis
      apply (rule exI [of _ "r # xs"], rule exI [of _ q], rule exI [of _ ys])
      using False IH by auto
  qed
qed simp

lemma aligned_loop_other:
  "case aligned_loop cap count align before rs of
     Ok None \<Rightarrow> length (before @ rs) = cap \<or> (\<forall>r \<in> set rs. \<not> fits count align r)
   | Ok (Some _) \<Rightarrow> True
   | Err _ \<Rightarrow> False
   | Panic \<Rightarrow> (\<exists>r \<in> set rs. u64_limit \<le> next_multiple_of (start_frame r) align)"
proof (induction cap count align before rs rule: aligned_loop.induct)
  case (2 cap count align before r rs)
  then show ?case
    by (auto simp: Let_def fits_def not_le split: outcome.splits option.splits)
qed simp

lemma split_range_ok:
  assumes "ranges_ok lo (xs @ r # ys)" "start_frame r \<le> s" "s + count \<le> end_frame r" "0 < count"
  shows "ranges_ok lo (xs @ split_range r s count @ ys)"
  using assms
  by (auto simp: ranges_ok_append split_range_def Let_def end_frame_def intro: ranges_ok_weaken)

lemma frames_split_range:
  assumes "start_frame r \<le> s" "s + count \<le> end_frame r"
  shows "frames_of (split_range r s count) = range_frames r - {s ..< s + count}"
  using assms by (auto simp: split_range_def Let_def range_frames_def end_frame_def)

lemma frames_disjoint:
  assumes "ranges_ok lo (xs @ r # ys)"
  shows "frames_of xs \<inter> range_frames r = {}" "frames_of ys \<inter> range_frames r = {}"
proof -
  have ok: "ranges_ok (upper lo xs) (r # ys)" using assms by (simp add: ranges_ok_append)
  have "end_frame r < f" if "f \<in> frames_of ys" for f
    using frames_above_head(3) [OF ok] that by blast
  then show "frames_of ys \<inter> range_frames r = {}" by (fastforce simp: range_frames_def)
  have "ranges_ok lo' (as @ r # ys) \<Longrightarrow> frames_of as \<inter> range_frames r = {}" for as lo'
  proof (induction as arbitrary: lo')
    case (Cons a as)
    then have "end_frame a + 1 \<le> f" if "f \<in> range_frames r" for f
      using ranges_ok_frames [of "end_frame a + 1" "as @ r # ys"] that by auto
    then show ?case using Cons by (fastforce simp: range_frames_def)
  qed simp
  then show "frames_of xs \<inter> range_frames r = {}" using assms by blast
qed

text \<open>The allocator's block allocation: aligned, taken from the free set exactly, and the lowest
  block that fits.\<close>

lemma aligned_block_spec:
  assumes ok: "ranges_ok 0 rs" and c: "0 < count" and al: "0 < align"
    and res: "aligned_loop cap count align [] rs = Ok (Some (rs', s))"
  shows "ranges_ok 0 rs'" "frames_of rs' = frames_of rs - {s ..< s + count}"
    "{s ..< s + count} \<subseteq> frames_of rs" "s mod align = 0"
    "length rs \<le> cap \<Longrightarrow> length rs' \<le> cap"
    "\<And>t. t mod align = 0 \<Longrightarrow> {t ..< t + count} \<subseteq> frames_of rs \<Longrightarrow> s \<le> t"
proof -
  from aligned_loop_Some [OF res] obtain xs r ys where
    rs: "rs = xs @ r # ys" and nofit: "\<forall>x \<in> set xs. \<not> fits count align x" and fit: "fits count align r"
    and s: "s = next_multiple_of (start_frame r) align" and rs': "rs' = xs @ split_range r s count @ ys"
    and room: "\<not> (length (split_range r s count) = 2 \<and> length rs = cap)" by auto
  have le: "start_frame r \<le> s" "s + count \<le> end_frame r" "s mod align = 0"
    using next_multiple_of_props [OF al] fit s by (auto simp: fits_def)
  show "s mod align = 0" by (rule le(3))
  show "ranges_ok 0 rs'" using split_range_ok [of 0 xs r ys s count] ok rs le c by (simp add: rs')
  show "{s ..< s + count} \<subseteq> frames_of rs" using le by (auto simp: rs range_frames_def)
  show "frames_of rs' = frames_of rs - {s ..< s + count}"
    using frames_disjoint [of 0 xs r ys] ok le
    by (fastforce simp: rs rs' frames_split_range [OF le(1,2)] range_frames_def)
  show "length rs' \<le> cap" if "length rs \<le> cap"
    using that room by (auto simp: rs rs' split_range_def Let_def split: if_splits)
  show "s \<le> t" if t: "t mod align = 0" "{t ..< t + count} \<subseteq> frames_of rs" for t
  proof -
    obtain q where q: "q \<in> set rs" "start_frame q \<le> t" "t + count \<le> end_frame q"
      using block_in_one_range [OF ok t(2) c] by blast
    have "fits count align q"
      using next_multiple_of_least [OF al q(2) t(1)] q(3) by (simp add: fits_def)
    then consider "q = r" | "q \<in> set ys" using q(1) nofit rs by auto
    then show ?thesis
    proof cases
      case 1
      then show ?thesis using next_multiple_of_least [OF al q(2) t(1)] s by simp
    next
      case 2
      have "ranges_ok (end_frame r + 1) ys" using ok rs by (simp add: ranges_ok_append)
      then have "t \<in> frames_of ys \<Longrightarrow> end_frame r + 1 \<le> t" using ranges_ok_frames by blast
      moreover have "t \<in> frames_of ys" using 2 q c by (auto simp: frames_of_def range_frames_def)
      ultimately show ?thesis using le(2) by linarith
    qed
  qed
qed

lemma contiguous_loop_aligned:
  assumes "ranges_ok lo rs" "0 < count"
  shows "aligned_loop cap count 1 before rs =
     Ok (map_option (\<lambda>(rest, s). (before @ rest, s)) (contiguous_loop count rs))"
  using assms
proof (induction rs arbitrary: before lo)
  case (Cons r rs)
  have "next_multiple_of (start_frame r) 1 = start_frame r" by (simp add: next_multiple_of_def)
  with Cons show ?case
    by (auto simp: Let_def end_frame_def split_range_def option.map_comp comp_def split_def)
qed simp

subsection \<open>The interface of a frame pool\<close>

text \<open>What the users of the allocator rely on, and what follows from it alone: \<open>pool_step\<close> is one
  call of a client that gives back only what it holds.\<close>

inductive pool_step ::
  "('s \<Rightarrow> 's \<times> phys_addr option) \<Rightarrow> ('s \<Rightarrow> phys_addr \<Rightarrow> ('e, 's) outcome) \<Rightarrow>
   's \<times> phys_addr set \<Rightarrow> 's \<times> phys_addr set \<Rightarrow> bool"
  for alloc :: "'s \<Rightarrow> 's \<times> phys_addr option" and dealloc :: "'s \<Rightarrow> phys_addr \<Rightarrow> ('e, 's) outcome" where
  handed_out: "alloc s = (s', Some p) \<Longrightarrow> pool_step alloc dealloc (s, held) (s', insert p held)"
| refused: "alloc s = (s', None) \<Longrightarrow> pool_step alloc dealloc (s, held) (s', held)"
| returned: "p \<in> held \<Longrightarrow> dealloc s p = Ok s' \<Longrightarrow> pool_step alloc dealloc (s, held) (s', held - {p})"

inductive_cases pool_stepE: "pool_step alloc dealloc (s, held) (s', held')"

locale frame_pool =
  fixes alloc :: "'s \<Rightarrow> 's \<times> phys_addr option"
    and dealloc :: "'s \<Rightarrow> phys_addr \<Rightarrow> ('e, 's) outcome"
    and free_set :: "'s \<Rightarrow> nat set"
    and invar :: "'s \<Rightarrow> bool"
  assumes alloc_Some: "invar s \<Longrightarrow> alloc s = (s', Some p) \<Longrightarrow>
      invar s' \<and> frame_number p \<in> free_set s \<and> free_set s' = free_set s - {frame_number p} \<and>
      from_frame_number (frame_number p) = Some p"
    and alloc_None: "invar s \<Longrightarrow> free_set s \<subseteq> {..< 2 ^ 40} \<Longrightarrow> alloc s = (s', None) \<Longrightarrow>
      s' = s \<and> free_set s = {}"
    and dealloc_Ok: "invar s \<Longrightarrow> frame_number p \<notin> free_set s \<Longrightarrow> dealloc s p = Ok s' \<Longrightarrow>
      invar s' \<and> free_set s' = insert (frame_number p) (free_set s)"
begin

definition partitioned :: "nat set \<Rightarrow> 's \<times> phys_addr set \<Rightarrow> bool" where
  "partitioned all = (\<lambda>(s, held). invar s \<and> free_set s \<inter> frame_number ` held = {} \<and>
     free_set s \<union> frame_number ` held = all \<and> inj_on frame_number held \<and>
     (\<forall>p \<in> held. from_frame_number (frame_number p) = Some p))"

lemma partitioned_step:
  assumes "all \<subseteq> {..< 2 ^ 40}" "partitioned all c" "pool_step alloc dealloc c d"
  shows "partitioned all d"
  using assms(3)
proof (cases rule: pool_step.cases)
  case (handed_out s s' p held)
  with assms(2) alloc_Some [of s s' p] show ?thesis
    by (fastforce simp: partitioned_def inj_on_insert)
next
  case (refused s s' held)
  then have "s' = s" using assms(1,2) alloc_None [of s s'] by (auto simp: partitioned_def)
  with refused assms(2) show ?thesis by simp
next
  case (returned p held s s')
  have i: "inj_on frame_number held" and n: "frame_number p \<notin> free_set s"
    using assms(2) returned by (auto simp: partitioned_def)
  have img: "frame_number ` (held - {p}) = frame_number ` held - {frame_number p}"
    using i returned(3) by (subst inj_on_image_set_diff [of _ held]) auto
  from returned assms(2) dealloc_Ok [OF _ n returned(4)] show ?thesis
    by (auto simp: partitioned_def img inj_on_diff)
qed

lemma run_partitioned:
  assumes "(pool_step alloc dealloc)\<^sup>*\<^sup>* c d" "all \<subseteq> {..< 2 ^ 40}" "partitioned all c"
  shows "partitioned all d"
  using assms(1,3) by (induction rule: rtranclp_induct) (auto intro: partitioned_step [OF assms(2)])

end

lemma from_frame_number_inverse:
  "from_frame_number f = Some p \<Longrightarrow> from_frame_number (frame_number p) = Some p"
  using frame_number_from by simp

lemma frame_number_bound: "frame_number p + 1 < u64_limit"
  using unat_u64_less [of "phys_raw p"] by (simp add: frame_number_def)

lemma deallocate_frame_spec:
  assumes "fa_invar cap fa" "frame_number p \<notin> free_frames fa"
  shows "case deallocate_frame cap fa p of
           Ok fa' \<Rightarrow> fa_invar cap fa' \<and> free_frames fa' = insert (frame_number p) (free_frames fa)
         | Err e \<Rightarrow> length (fa_ranges fa) = cap
         | Panic \<Rightarrow> False"
proof -
  have "{frame_number p ..< frame_number p + 1} = {frame_number p}" by auto
  with insert_free_range_spec [OF assms(1) frame_number_bound, of p] assms(2)
  show ?thesis by (auto simp: deallocate_frame_def split: outcome.splits)
qed

lemma try_merge_forward_length: "length (try_merge_forward rs i) \<le> length rs"
  by (auto simp: try_merge_forward_def Let_def)

lemma insert_free_range_ranges:
  assumes "insert_free_range cap fa start count = Ok fa'"
  shows "length (fa_ranges fa') \<le> length (fa_ranges fa) + 1"
proof -
  have "length (try_merge_forward (rs[i := r]) j) \<le> length rs + 1" for rs i r j
    using try_merge_forward_length [of "rs[i := r]" j] by simp
  with assms show ?thesis
    by (auto simp: insert_free_range_def Let_def simp del: One_nat_def split: if_splits)
qed

lemma deallocate_frame_ranges:
  "deallocate_frame cap fa p = Ok fa' \<Longrightarrow> length (fa_ranges fa') \<le> length (fa_ranges fa) + 1"
  unfolding deallocate_frame_def by (rule insert_free_range_ranges)

interpretation fa: frame_pool allocate_frame "deallocate_frame cap" free_frames "fa_invar cap" for cap
proof unfold_locales
  fix s s' p
  assume inv: "fa_invar cap s" and al: "allocate_frame s = (s', Some p)"
  then have ne: "free_frames s \<noteq> {}" using allocate_frame_empty [of s cap] by auto
  have m: "Min (free_frames s) \<in> free_frames s" using ne by (simp add: free_frames_def)
  obtain t where "allocate_frame s = (t, from_frame_number (Min (free_frames s)))" "fa_invar cap t"
    "free_frames t = free_frames s - {Min (free_frames s)}" by (rule allocate_frame_spec [OF inv ne])
  then show "fa_invar cap s' \<and> frame_number p \<in> free_frames s \<and>
      free_frames s' = free_frames s - {frame_number p} \<and> from_frame_number (frame_number p) = Some p"
    using al m frame_number_from by auto
next
  fix s s'
  assume inv: "fa_invar cap s" and small: "free_frames s \<subseteq> {..< 2 ^ 40}"
    and al: "allocate_frame s = (s', None)"
  have "free_frames s = {}"
  proof (rule ccontr)
    assume ne: "free_frames s \<noteq> {}"
    then have "Min (free_frames s) \<in> free_frames s" by (simp add: free_frames_def)
    then have "Min (free_frames s) < 2 ^ 40" using small by blast
    then have "from_frame_number (Min (free_frames s)) \<noteq> None"
      using from_frame_number_Some by fastforce
    moreover have "snd (allocate_frame s) = from_frame_number (Min (free_frames s))"
      by (rule allocate_frame_spec [OF inv ne]) simp
    ultimately show False using al by simp
  qed
  then show "s' = s \<and> free_frames s = {}" using allocate_frame_empty [OF _ inv] al by simp
next
  fix s p s'
  assume "fa_invar cap s" "frame_number p \<notin> free_frames s" "deallocate_frame cap s p = Ok s'"
  then show "fa_invar cap s' \<and> free_frames s' = insert (frame_number p) (free_frames s)"
    using deallocate_frame_spec [of cap s p] by simp
qed

subsection \<open>Properties of the allocator\<close>

definition sample_allocator :: frame_allocator where
  "sample_allocator = \<lparr>fa_ranges = [\<lparr>start_frame = 3, frame_count = 1997\<rparr>]\<rparr>"

lemma sample_allocator_facts:
  "fa_invar 8 sample_allocator" "free_frames sample_allocator = {3 ..< 2000}"
  by (auto simp: sample_allocator_def fa_invar_def end_frame_def free_frames_def range_frames_def)

text \<open>C5: inserting a range of frames that are not free keeps the range list sorted, merged and
  within capacity, adds exactly these frames to the free set, never panics, and fails only when
  the array is full and the range touches no free range.\<close>

theorem insert_free_range_adds_exactly:
  assumes "fa_invar cap fa" "start + count < u64_limit" "{start ..< start + count} \<inter> free_frames fa = {}"
  shows "case insert_free_range cap fa start count of
           Ok fa' \<Rightarrow> fa_invar cap fa' \<and> free_frames fa' = free_frames fa \<union> {start ..< start + count}
         | Err e \<Rightarrow> length (fa_ranges fa) = cap \<and> (\<forall>f \<in> free_frames fa. f + 1 < start \<or> start + count < f)
         | Panic \<Rightarrow> False"
  using assms by (rule insert_free_range_spec)

theorem insert_free_range_adds_exactly_witness:
  "fa_invar 8 sample_allocator \<and>
   (\<exists>fa'. insert_free_range 8 sample_allocator 2000 48 = Ok fa' \<and> fa_invar 8 fa' \<and>
          free_frames fa' = {3 ..< 2000} \<union> {2000 ..< 2048})"
  using insert_free_range_adds_exactly [of 8 sample_allocator 2000 48]
  by (auto simp: sample_allocator_facts split: outcome.splits)

text \<open>C7: an aligned block is the lowest run of \<open>count\<close> free frames that starts at a multiple of the
  alignment, and exactly it leaves the free set; the allocator refuses only for a zero count, an
  alignment that is not a power of two, a full array, an address beyond the physical range or when
  there is no such run, and panics only where rounding up overflows.\<close>

theorem allocate_contiguous_aligned_lowest_fit:
  assumes inv: "fa_invar cap fa" and c: "0 < count" and pw: "is_power_of_two align"
  shows "case allocate_contiguous_aligned cap fa count align of
           Ok (fa', Some p) \<Rightarrow>
             fa_invar cap fa' \<and> frame_number p mod unat align = 0 \<and>
             {frame_number p ..< frame_number p + count} \<subseteq> free_frames fa \<and>
             free_frames fa' = free_frames fa - {frame_number p ..< frame_number p + count} \<and>
             (\<forall>t. t mod unat align = 0 \<and> {t ..< t + count} \<subseteq> free_frames fa \<longrightarrow> frame_number p \<le> t)
         | Ok (fa', None) \<Rightarrow>
             length (fa_ranges fa) = cap \<or>
             (\<forall>t < 2 ^ 40. t mod unat align = 0 \<longrightarrow> \<not> {t ..< t + count} \<subseteq> free_frames fa)
         | Err e \<Rightarrow> False
         | Panic \<Rightarrow> (\<exists>r \<in> set (fa_ranges fa). u64_limit \<le> next_multiple_of (start_frame r) (unat align))"
proof -
  let ?rs = "fa_ranges fa" and ?al = "unat align"
  have ok: "ranges_ok 0 ?rs" using inv by (simp add: fa_invar_def)
  have al: "0 < ?al" using pw by (simp add: is_power_of_two_def word_eq_0_unat)
  have unf: "allocate_contiguous_aligned cap fa count align =
      bind_outcome (aligned_loop cap count ?al [] ?rs)
        (\<lambda>found. case found of None \<Rightarrow> Ok (fa, None)
           | Some (rs, aligned) \<Rightarrow> Ok (fa\<lparr>fa_ranges := rs\<rparr>, from_frame_number aligned))"
    using c pw by (simp add: allocate_contiguous_aligned_def is_power_of_two_def)
  note other = aligned_loop_other [where cap = cap and count = count and align = ?al and before = "[]" and rs = ?rs]
  show ?thesis
  proof (cases "aligned_loop cap count ?al [] ?rs")
    case (Ok found)
    show ?thesis
    proof (cases found)
      case None
      have nofit: "\<not> {t ..< t + count} \<subseteq> free_frames fa"
        if "\<forall>r \<in> set ?rs. \<not> fits count ?al r" "t mod ?al = 0" for t
        using block_in_one_range [OF ok _ c, of t] that next_multiple_of_least [OF al _ that(2)]
        by (fastforce simp: free_frames_def fits_def)
      then show ?thesis using Ok None other by (auto simp: unf)
    next
      case (Some res)
      then obtain rs' s where res: "aligned_loop cap count ?al [] ?rs = Ok (Some (rs', s))"
        using Ok by (cases res) auto
      note spec = aligned_block_spec [OF ok c al res]
      show ?thesis
      proof (cases "from_frame_number s")
        case None
        then have big: "2 ^ 40 \<le> s" using from_frame_number_Some [of s] by fastforce
        have "\<not> {t ..< t + count} \<subseteq> free_frames fa" if "t < 2 ^ 40" "t mod ?al = 0" for t
        proof
          assume "{t ..< t + count} \<subseteq> free_frames fa"
          then have "s \<le> t" using spec(6) that(2) by (simp add: free_frames_def)
          then show False using big that(1) by simp
        qed
        then show ?thesis using res None by (simp add: unf)
      next
        case (Some p)
        have "length rs' \<le> cap" using spec(5) inv by (simp add: fa_invar_def)
        then show ?thesis
          using res Some spec by (auto simp: unf free_frames_def fa_invar_def frame_number_from [OF Some])
      qed
    qed
  next
    case (Err e)
    then show ?thesis using other by simp
  next
    case Panic
    then show ?thesis using other by (simp add: unf)
  qed
qed

theorem allocate_contiguous_aligned_lowest_fit_witness:
  "is_power_of_two (512 :: u64) \<and>
   (\<exists>fa' p. allocate_contiguous_aligned 8 sample_allocator 512 512 = Ok (fa', Some p) \<and>
      frame_number p = 512 \<and> free_frames fa' = {3 ..< 2000} - {512 ..< 1024})"
proof -
  have pw: "is_power_of_two (512 :: u64)" by (simp add: is_power_of_two_def)
  have "allocate_contiguous_aligned 8 sample_allocator 512 512 =
      Ok (\<lparr>fa_ranges = [\<lparr>start_frame = 3, frame_count = 509\<rparr>, \<lparr>start_frame = 1024, frame_count = 976\<rparr>]\<rparr>,
          from_frame_number 512)"
    by (simp add: allocate_contiguous_aligned_def is_power_of_two_def sample_allocator_def
        next_multiple_of_def end_frame_def split_range_def)
  moreover obtain p where "from_frame_number 512 = Some p" using from_frame_number_Some by fastforce
  ultimately show ?thesis
    using allocate_contiguous_aligned_lowest_fit [OF sample_allocator_facts(1), of 512 512] pw
      frame_number_from [of 512 p]
    by (simp add: sample_allocator_facts)
qed

text \<open>Allocating the lowest frame and giving it back restores the very same allocator, whatever
  its capacity: giving back cannot fail, and the range list is a canonical form of the free set.\<close>

theorem allocate_deallocate_round_trip:
  assumes inv: "fa_invar cap fa" and al: "allocate_frame fa = (fa', Some p)"
  shows "frame_number p = Min (free_frames fa) \<and> deallocate_frame cap fa' p = Ok fa"
proof -
  have ne: "free_frames fa \<noteq> {}" using allocate_frame_empty [OF _ inv] al by auto
  obtain fb where fb: "allocate_frame fa = (fb, from_frame_number (Min (free_frames fa)))"
    "fa_invar cap fb" "free_frames fb = free_frames fa - {Min (free_frames fa)}"
    by (rule allocate_frame_spec [OF inv ne])
  have p: "frame_number p = Min (free_frames fa)" and fb': "fb = fa'"
    using fb(1) al frame_number_from by auto
  have m: "Min (free_frames fa) \<in> free_frames fa" using ne by (simp add: free_frames_def)
  have full: "length (fa_ranges fa') \<noteq> cap \<or> (\<exists>f \<in> free_frames fa'. f = frame_number p + 1)"
  proof (cases "fa_ranges fa")
    case Nil
    then show ?thesis using ne by (simp add: free_frames_def)
  next
    case (Cons r rs)
    have al': "fa_ranges fa' = (if frame_count r - 1 = 0 then rs
        else r\<lparr>start_frame := start_frame r + 1, frame_count := frame_count r - 1\<rparr> # rs)"
      "from_frame_number (start_frame r) = Some p"
      using al Cons by (auto simp: allocate_frame_def Let_def split: if_splits)
    show ?thesis
    proof (cases "frame_count r - 1 = 0")
      case True
      then show ?thesis using al'(1) inv Cons by (simp add: fa_invar_def)
    next
      case False
      then have "frame_number p + 1 \<in> free_frames fa'"
        using al'(1) frame_number_from [OF al'(2)] by (simp add: free_frames_def range_frames_def end_frame_def)
      then show ?thesis by blast
    qed
  qed
  have dis: "{frame_number p ..< frame_number p + 1} \<inter> free_frames fa' = {}" using fb(3) fb' p by auto
  note ins = insert_free_range_spec [OF fb(2) [unfolded fb'] frame_number_bound dis]
  obtain fc where fc: "deallocate_frame cap fa' p = Ok fc" "fa_invar cap fc"
    "free_frames fc = free_frames fa' \<union> {frame_number p ..< frame_number p + 1}"
    using ins full by (cases "insert_free_range cap fa' (frame_number p) 1")
      (auto simp: deallocate_frame_def)
  have "free_frames fc = free_frames fa" using fc(3) fb(3) fb' p m by auto
  then show ?thesis using fa_unique [OF fc(2) inv] fc(1) p by simp
qed

theorem allocate_deallocate_round_trip_witness:
  "\<exists>fa' p. allocate_frame sample_allocator = (fa', Some p) \<and> deallocate_frame 8 fa' p = Ok sample_allocator"
proof -
  obtain p where "from_frame_number 3 = Some p" using from_frame_number_Some by fastforce
  then obtain fa' where "allocate_frame sample_allocator = (fa', Some p)"
    by (simp add: allocate_frame_def sample_allocator_def)
  then show ?thesis using allocate_deallocate_round_trip [OF sample_allocator_facts(1)] by blast
qed

text \<open>C6: in every run of a client that gives back only frames it holds, the held frames and the free
  frames partition the frames the allocator started with: no frame is handed out twice, none gets
  lost, and no two held addresses name one frame (physical memory of up to \<open>2 ^ 52\<close> bytes).\<close>

theorem frames_partitioned_in_every_run:
  assumes "fa_invar cap fa" "free_frames fa \<subseteq> {..< 2 ^ 40}"
    and "(pool_step allocate_frame (deallocate_frame cap))\<^sup>*\<^sup>* (fa, {}) (fa', held)"
  shows "fa_invar cap fa' \<and> free_frames fa' \<inter> frame_number ` held = {} \<and>
    free_frames fa' \<union> frame_number ` held = free_frames fa \<and> inj_on frame_number held"
  using fa.run_partitioned [OF assms(3,2)] assms(1) by (simp add: fa.partitioned_def)

theorem frames_partitioned_in_every_run_witness:
  "\<exists>fa' p. (pool_step allocate_frame (deallocate_frame 8))\<^sup>*\<^sup>* (sample_allocator, {}) (fa', {p}) \<and>
     frame_number p \<notin> free_frames fa'"
proof -
  obtain p where "from_frame_number 3 = Some p" using from_frame_number_Some by fastforce
  then obtain fa' where "allocate_frame sample_allocator = (fa', Some p)"
    by (simp add: allocate_frame_def sample_allocator_def)
  then have run: "(pool_step allocate_frame (deallocate_frame 8))\<^sup>*\<^sup>* (sample_allocator, {}) (fa', {p})"
    by (intro r_into_rtranclp handed_out)
  have "free_frames sample_allocator \<subseteq> {..< 2 ^ 40}" by (auto simp: sample_allocator_facts)
  from frames_partitioned_in_every_run [OF sample_allocator_facts(1) this run] run
  show ?thesis by (auto simp del: power_numeral)
qed

subsection \<open>Lending\<close>

text \<open>Any number of parties call \<open>take\<close> and \<open>give_back\<close>; \<open>give_back\<close> consumes the reference, so only a
  borrower can call it. The second component counts the references in use.\<close>

inductive lending_step :: "lending \<times> nat \<Rightarrow> lending \<times> nat \<Rightarrow> bool" where
  taken: "take_allocator l = (l', Some fa) \<Longrightarrow> lending_step (l, n) (l', n + 1)"
| busy: "take_allocator l = (l', None) \<Longrightarrow> lending_step (l, n) (l', n)"
| given: "0 < n \<Longrightarrow> lending_step (l, n) (give_back l fa, n - 1)"

inductive_cases lending_stepE: "lending_step (l, n) (l', n')"

definition lending_invar :: "lending \<times> nat \<Rightarrow> bool" where
  "lending_invar = (\<lambda>(l, n). lend_present l \<and> n = of_bool (lend_on_loan l) \<and>
     lend_taken l = lend_returned l + word_of_nat n)"

lemma lending_invar_step: "lending_step c d \<Longrightarrow> lending_invar c \<Longrightarrow> lending_invar d"
  by (induction rule: lending_step.induct)
     (auto simp: lending_invar_def take_allocator_def give_back_def split: if_splits)

text \<open>After the deposit at boot there is at most one reference to the allocator at any time,
  however the calls of \<open>take\<close> and \<open>give_back\<close> interleave, and the two counters, which wrap around at
  \<open>2 ^ 64\<close>, differ by exactly the loans outstanding; the allocator can be taken exactly when nobody holds it.\<close>

theorem allocator_lent_to_one_at_a_time:
  assumes "lending_step\<^sup>*\<^sup>* (deposit lending_init fa, 0) (l, n)"
  shows "n \<le> 1 \<and> lend_taken l = lend_returned l + word_of_nat n \<and>
    (snd (take_allocator l) \<noteq> None \<longleftrightarrow> n = 0)"
proof -
  have "lending_invar c" if "lending_step\<^sup>*\<^sup>* (deposit lending_init fa, 0) c" for c
    using that
  proof (induction rule: rtranclp_induct)
    case base
    show ?case by (simp add: lending_invar_def deposit_def lending_init_def)
  qed (rule lending_invar_step)
  from this [OF assms] show ?thesis by (auto simp: lending_invar_def take_allocator_def)
qed

theorem allocator_lent_to_one_at_a_time_witness:
  "\<exists>l. lending_step\<^sup>*\<^sup>* (deposit lending_init sample_allocator, 0) (l, 1) \<and> snd (take_allocator l) = None"
proof -
  let ?l = "fst (take_allocator (deposit lending_init sample_allocator))"
  have "lending_step (deposit lending_init sample_allocator, 0) (?l, 0 + 1)"
    by (rule taken [of _ _ sample_allocator]) (simp add: take_allocator_def deposit_def lending_init_def)
  then have "lending_step\<^sup>*\<^sup>* (deposit lending_init sample_allocator, 0) (?l, 1)" by simp
  from allocator_lent_to_one_at_a_time [OF this] this show ?thesis by auto
qed

subsection \<open>What the constructed allocator holds\<close>

definition entry_frames :: "memory_map_entry \<Rightarrow> nat set" where
  "entry_frames e = {unat (phys_start e) div FRAME_SIZE ..< unat (phys_start e) div FRAME_SIZE + unat (page_count e)}"

definition conventional_frames :: "memory_map_entry list \<Rightarrow> nat set" where
  "conventional_frames entries =
     (\<Union>e \<in> {e \<in> set entries. memory_type e = CONVENTIONAL}. entry_frames e) - {0}"

fun entries_disjoint :: "memory_map_entry list \<Rightarrow> bool" where
  "entries_disjoint [] = True"
| "entries_disjoint (e # es) \<longleftrightarrow>
     (\<forall>x \<in> set es. entry_frames e \<inter> entry_frames x = {}) \<and> entries_disjoint es"

lemma classify_Free: "classify ty = Free \<longleftrightarrow> ty = CONVENTIONAL"
  by (auto simp: classify_def)

lemma build_entry_spec:
  assumes inv: "fa_invar DEFAULT_CAPACITY fa" and fresh: "(entry_frames e - {0}) \<inter> free_frames fa = {}"
    and res: "build_entry (fa, ex) e = Ok (fa', ex')"
  shows "fa_invar DEFAULT_CAPACITY fa' \<and>
    free_frames fa' = free_frames fa \<union> (if memory_type e = CONVENTIONAL then entry_frames e - {0} else {})"
proof (cases "page_count e = 0 \<or> memory_type e \<noteq> CONVENTIONAL")
  case True
  then show ?thesis
    using assms by (auto simp: build_entry_def classify_Free entry_frames_def split: if_splits)
next
  case False
  define first where "first = unat (phys_start e) div FRAME_SIZE"
  define start where "start = (if first = 0 then 1 else first)"
  define count where "count = (if first = 0 then unat (page_count e) - 1 else unat (page_count e))"
  have pos: "0 < unat (page_count e)" using False by (simp add: word_eq_0_unat)
  have frames: "entry_frames e - {0} = {start ..< start + count}"
    using pos by (auto simp: entry_frames_def start_def count_def first_def [symmetric])
  from res False have "count = 0 \<and> fa' = fa \<or>
      insert_free_range DEFAULT_CAPACITY fa start count = Ok fa'"
    by (auto simp: build_entry_def classify_Free Let_def start_def count_def map_err_def
        first_def [symmetric] split: outcome.splits if_splits)
  then show ?thesis
  proof
    assume "count = 0 \<and> fa' = fa"
    then show ?thesis using inv frames by auto
  next
    assume ins: "insert_free_range DEFAULT_CAPACITY fa start count = Ok fa'"
    show ?thesis
    proof (cases "count = 0")
      case True
      then show ?thesis using ins inv frames by (auto simp: insert_free_range_def)
    next
      case c: False
      then have "start + count < u64_limit" using ins by (auto simp: insert_free_range_def not_le split: if_splits)
      from insert_free_range_spec [OF inv this] fresh frames ins False show ?thesis by simp
    qed
  qed
qed

lemma build_loop_spec:
  assumes "build_loop (fa, ex) es = Ok (fa', ex')" "fa_invar DEFAULT_CAPACITY fa" "entries_disjoint es"
    "\<And>e. e \<in> set es \<Longrightarrow> (entry_frames e - {0}) \<inter> free_frames fa = {}"
  shows "fa_invar DEFAULT_CAPACITY fa' \<and> free_frames fa' = free_frames fa \<union> conventional_frames es"
  using assms
proof (induction es arbitrary: fa ex)
  case Nil
  then show ?case by (simp add: conventional_frames_def)
next
  case (Cons e es)
  then obtain fb exb where step: "build_entry (fa, ex) e = Ok (fb, exb)"
    and rest: "build_loop (fb, exb) es = Ok (fa', ex')" by auto
  have b: "fa_invar DEFAULT_CAPACITY fb"
    "free_frames fb = free_frames fa \<union> (if memory_type e = CONVENTIONAL then entry_frames e - {0} else {})"
    using build_entry_spec [OF Cons.prems(2) _ step] Cons.prems(4) by auto
  have "(entry_frames x - {0}) \<inter> free_frames fb = {}" if "x \<in> set es" for x
  proof -
    have "entry_frames e \<inter> entry_frames x = {}" using Cons.prems(3) that by simp
    moreover have "(entry_frames x - {0}) \<inter> free_frames fa = {}" using Cons.prems(4) [of x] that by simp
    ultimately show ?thesis using b(2) by (auto split: if_splits)
  qed
  from Cons.IH [OF rest b(1) _ this] Cons.prems(3) b(2) show ?case
    by (auto simp: conventional_frames_def split: if_splits)
qed

lemma build_spec:
  assumes "build raw dsize = Ok (fa, stats)" "parse_entries raw dsize = Inr entries" "entries_disjoint entries"
  shows "fa_invar DEFAULT_CAPACITY fa \<and> free_frames fa = conventional_frames entries \<and>
    stats_free_frame_count stats = card (conventional_frames entries)"
proof -
  obtain ex where loop: "build_loop (frame_allocator_new, no_exclusions) entries = Ok (fa, ex)"
    and st: "stats_free_frame_count stats = free_frame_count fa"
    using assms(1,2) by (auto simp: build_def)
  have "fa_invar DEFAULT_CAPACITY fa \<and> free_frames fa = free_frames frame_allocator_new \<union> conventional_frames entries"
    by (rule build_loop_spec [OF loop _ assms(3)])
       (auto simp: fa_invar_def frame_allocator_new_def free_frames_def)
  then show ?thesis using free_frame_count_card st
    by (auto simp: frame_allocator_new_def free_frames_def)
qed

end
