(* ===== verification/Page_Plan.thy ===== *)
theory Page_Plan
  imports Addr Memory_Map
begin

text \<open>
  The page-table plan (\<open>kernel/src/paging/plan.rs\<close>): the attributed ranges collected from the memory
  map and the extra ranges, sorted and merged; the queries over them; and their resolution into
  4 KiB and 2 MiB pages.

  The array of ranges is the list of its live entries. \<open>sort_unstable_by_key\<close> leaves the order of
  equal keys open; the model takes the stable order. The visitor of \<open>resolve_pages\<close> is the list of
  the pages it is called with.
\<close>

definition PLAN_FRAME_SIZE :: u64 where "PLAN_FRAME_SIZE = 4096"
definition PAGE_SIZE_2M :: u64 where "PAGE_SIZE_2M = 0x200000"

record attributed_range =
  ar_start :: phys_addr
  ar_end :: phys_addr
  ar_cacheable :: bool

record page_mapping =
  pm_phys_addr :: phys_addr
  pm_huge :: bool
  pm_cacheable :: bool

definition plan_entry ::
  "nat \<Rightarrow> attributed_range list \<Rightarrow> memory_map_entry \<Rightarrow> (string, attributed_range list) outcome" where
  "plan_entry cap ranges entry =
     (if page_count entry = 0 then Ok ranges
      else case (case classify (memory_type entry) of
                   Free \<Rightarrow> Some True
                 | ReservedButMapped cacheable \<Rightarrow> Some cacheable
                 | Unmapped \<Rightarrow> None) of
             None \<Rightarrow> Ok ranges
           | Some cacheable \<Rightarrow>
               let stop = unat (phys_start entry) + unat (page_count entry) * 4096 in
               if u64_limit \<le> stop then Panic
               else
                 let start = (if phys_start entry = 0 then PLAN_FRAME_SIZE else phys_start entry) in
                 if stop \<le> unat start then Ok ranges
                 else case (phys_new start, phys_new (word_of_nat stop)) of
                        (Some s, Some e) \<Rightarrow>
                          if cap \<le> length ranges
                          then Err ''mapped-range capacity exceeded while building the paging plan''
                          else Ok (ranges @ [\<lparr>ar_start = s, ar_end = e, ar_cacheable = cacheable\<rparr>])
                      | _ \<Rightarrow> Err ''a memory map entry does not fit in a physical address'')"

definition plan_extra ::
  "nat \<Rightarrow> attributed_range list \<Rightarrow> u64 \<times> u64 \<times> bool \<Rightarrow> (string, attributed_range list) outcome" where
  "plan_extra cap ranges = (\<lambda>(start, stop, cacheable).
     if stop \<le> start then Ok ranges
     else case (phys_new start, phys_new stop) of
            (Some s, Some e) \<Rightarrow>
              if cap \<le> length ranges
              then Err ''mapped-range capacity exceeded while adding extra ranges''
              else Ok (ranges @ [\<lparr>ar_start = s, ar_end = e, ar_cacheable = cacheable\<rparr>])
          | _ \<Rightarrow> Err ''an extra range does not fit in a physical address'')"

fun plan_loop :: "('s \<Rightarrow> 'a \<Rightarrow> ('e, 's) outcome) \<Rightarrow> 's \<Rightarrow> 'a list \<Rightarrow> ('e, 's) outcome" where
  "plan_loop f s [] = Ok s"
| "plan_loop f s (x # xs) = bind_outcome (f s x) (\<lambda>s'. plan_loop f s' xs)"

fun merge_loop :: "attributed_range list \<Rightarrow> attributed_range list \<Rightarrow> attributed_range list" where
  "merge_loop merged [] = merged"
| "merge_loop merged (r # rs) =
     (if merged \<noteq> [] \<and> ar_cacheable (last merged) = ar_cacheable r \<and> ar_start r \<le> ar_end (last merged)
      then merge_loop (butlast merged @ [(last merged)\<lparr>ar_end := max (ar_end (last merged)) (ar_end r)\<rparr>]) rs
      else merge_loop (merged @ [r]) rs)"

definition mapped_ranges_build ::
  "nat \<Rightarrow> u8 list \<Rightarrow> u64 \<Rightarrow> (u64 \<times> u64 \<times> bool) list \<Rightarrow> (string, attributed_range list) outcome" where
  "mapped_ranges_build cap raw descriptor_size extra =
     (case parse_entries raw descriptor_size of
        Inl e \<Rightarrow> Err e
      | Inr entries \<Rightarrow>
          bind_outcome (plan_loop (plan_entry cap) [] entries)
            (\<lambda>ranges. bind_outcome (plan_loop (plan_extra cap) ranges extra)
               (\<lambda>ranges'. Ok (merge_loop [] (sort_key ar_start ranges')))))"

definition ar_contains :: "phys_addr \<Rightarrow> attributed_range \<Rightarrow> bool" where
  "ar_contains addr r \<longleftrightarrow> ar_start r \<le> addr \<and> addr < ar_end r"

definition mapped_contains :: "attributed_range list \<Rightarrow> phys_addr \<Rightarrow> bool" where
  "mapped_contains ranges addr = list_ex (ar_contains addr) ranges"

abbreviation pa :: "phys_addr \<Rightarrow> nat" where
  "pa p \<equiv> unat (phys_raw p)"

lemma phys_le_iff: "(a::phys_addr) \<le> b \<longleftrightarrow> pa a \<le> pa b"
  by (simp add: less_eq_phys_addr_def word_le_nat_alt)

lemma phys_less_iff: "(a::phys_addr) < b \<longleftrightarrow> pa a < pa b"
  by (simp add: less_phys_addr_def word_less_nat_alt)

lemma phys_eq_iff: "(a::phys_addr) = b \<longleftrightarrow> pa a = pa b"
  by (metis phys_addr.expand unsigned_word_eqI)

function contains_range_loop :: "attributed_range list \<Rightarrow> phys_addr \<Rightarrow> phys_addr \<Rightarrow> bool" where
  "contains_range_loop ranges cursor stop =
     (case find (ar_contains cursor) ranges of
        None \<Rightarrow> False
      | Some r \<Rightarrow> if stop \<le> ar_end r then True else contains_range_loop ranges (ar_end r) stop)"
  by pat_completeness auto
termination
proof (relation "measure (\<lambda>(_, cursor, stop). pa stop - pa cursor)")
  fix ranges cursor stop r
  assume f: "find (ar_contains cursor) ranges = Some r" and n: "\<not> stop \<le> ar_end r"
  from f have "ar_contains cursor r" by (auto simp: find_Some_iff)
  then show "((ranges, ar_end r, stop), ranges, cursor, stop) \<in> measure (\<lambda>(_, cursor, stop). pa stop - pa cursor)"
    using n by (auto simp: ar_contains_def phys_le_iff phys_less_iff)
qed simp

declare contains_range_loop.simps [simp del]

definition contains_range :: "attributed_range list \<Rightarrow> phys_addr \<Rightarrow> phys_addr \<Rightarrow> bool" where
  "contains_range ranges start stop = (stop \<le> start \<or> contains_range_loop ranges start stop)"

text \<open>The two page loops differ in the page size and the flag; both stop when the next address
  leaves the physical range.\<close>

lemma phys_checked_add_Some:
  "phys_checked_add p n = Some q \<Longrightarrow> pa q = pa p + unat n"
  by (auto simp: phys_checked_add_def phys_new_Some dest: checked_add_Some split: option.splits)

function emit_pages :: "u64 \<Rightarrow> bool \<Rightarrow> bool \<Rightarrow> phys_addr \<Rightarrow> phys_addr \<Rightarrow> page_mapping list" where
  "emit_pages page_size huge cacheable addr stop =
     (if page_size = 0 \<or> stop \<le> addr then []
      else \<lparr>pm_phys_addr = addr, pm_huge = huge, pm_cacheable = cacheable\<rparr> #
           (case phys_checked_add addr page_size of
              None \<Rightarrow> []
            | Some nxt \<Rightarrow> emit_pages page_size huge cacheable nxt stop))"
  by pat_completeness auto
termination
proof (relation "measure (\<lambda>(_, _, _, addr, stop). pa stop - pa addr)")
  fix page_size huge cacheable addr stop nxt
  assume n: "\<not> (page_size = 0 \<or> stop \<le> addr)" and s: "phys_checked_add addr page_size = Some nxt"
  then show "((page_size, huge, cacheable, nxt, stop), page_size, huge, cacheable, addr, stop)
      \<in> measure (\<lambda>(_, _, _, addr, stop). pa stop - pa addr)"
    using phys_checked_add_Some [OF s] by (auto simp: phys_le_iff word_eq_0_unat)
qed simp

declare emit_pages.simps [simp del]

definition emit_4k :: "phys_addr \<Rightarrow> phys_addr \<Rightarrow> bool \<Rightarrow> page_mapping list" where
  "emit_4k start stop cacheable = emit_pages PLAN_FRAME_SIZE False cacheable start stop"

definition resolve_range :: "attributed_range \<Rightarrow> page_mapping list" where
  "resolve_range r =
     (case (phys_align_up (ar_start r) PAGE_SIZE_2M, phys_align_down (ar_end r) PAGE_SIZE_2M) of
        (Some core_start, Some core_end) \<Rightarrow>
          if core_start < core_end
          then emit_4k (ar_start r) core_start (ar_cacheable r) @
               emit_pages PAGE_SIZE_2M True (ar_cacheable r) core_start core_end @
               emit_4k core_end (ar_end r) (ar_cacheable r)
          else emit_4k (ar_start r) (ar_end r) (ar_cacheable r)
      | _ \<Rightarrow> emit_4k (ar_start r) (ar_end r) (ar_cacheable r))"

definition resolve_pages :: "attributed_range list \<Rightarrow> page_mapping list" where
  "resolve_pages ranges = concat (map resolve_range ranges)"

subsection \<open>Merging keeps what is covered, attribute by attribute\<close>

definition covered :: "bool \<Rightarrow> attributed_range list \<Rightarrow> phys_addr \<Rightarrow> bool" where
  "covered c rs a \<longleftrightarrow> (\<exists>r \<in> set rs. ar_cacheable r = c \<and> ar_contains a r)"

lemma covered_simps [simp]:
  "covered c [] a = False"
  "covered c (r # rs) a \<longleftrightarrow> ar_cacheable r = c \<and> ar_contains a r \<or> covered c rs a"
  "covered c (xs @ ys) a \<longleftrightarrow> covered c xs a \<or> covered c ys a"
  by (auto simp: covered_def)

lemma merge_loop_covered:
  assumes "sorted (map ar_start rs)" "\<And>m r. m \<in> set merged \<Longrightarrow> r \<in> set rs \<Longrightarrow> ar_start m \<le> ar_start r"
  shows "covered c (merge_loop merged rs) a \<longleftrightarrow> covered c (merged @ rs) a"
  using assms
proof (induction merged rs rule: merge_loop.induct)
  case (2 merged r rs)
  show ?case
  proof (cases "merged \<noteq> [] \<and> ar_cacheable (last merged) = ar_cacheable r \<and> ar_start r \<le> ar_end (last merged)")
    case True
    then obtain ms l where ms: "merged = ms @ [l]" by (cases merged rule: rev_cases) auto
    let ?l = "l\<lparr>ar_end := max (ar_end l) (ar_end r)\<rparr>"
    have "ar_start l \<le> ar_start r" using "2.prems"(2) ms by simp
    then have one: "ar_contains a ?l \<longleftrightarrow> ar_contains a l \<or> ar_contains a r"
      using True ms by (auto simp: ar_contains_def max_def)
    have "ar_start m \<le> ar_start q" if "m \<in> set (ms @ [?l])" "q \<in> set rs" for m q
      using that "2.prems"(2) [of m q] "2.prems"(2) [of l q] ms by auto
    then have IH: "covered c (merge_loop (ms @ [?l]) rs) a \<longleftrightarrow> covered c ((ms @ [?l]) @ rs) a"
      using "2.IH"(1) [OF True] "2.prems"(1) ms by simp
    show ?thesis using IH one True ms by auto
  next
    case False
    have "ar_start m \<le> ar_start q" if "m \<in> set (merged @ [r])" "q \<in> set rs" for m q
      using that "2.prems" by auto
    with "2.IH"(2) [OF False] "2.prems"(1) False show ?thesis by auto
  qed
qed simp

lemma merge_sorted_covered: "covered c (merge_loop [] (sort_key ar_start rs)) a \<longleftrightarrow> covered c rs a"
  using merge_loop_covered [of "sort_key ar_start rs" "[]" c a] by (simp add: covered_def)

lemma mapped_contains_covered: "mapped_contains rs a \<longleftrightarrow> covered True rs a \<or> covered False rs a"
  by (auto simp: mapped_contains_def covered_def list_ex_iff)

subsection \<open>The range query\<close>

lemma contains_range_loop_iff:
  "cursor < stop \<Longrightarrow>
   contains_range_loop ranges cursor stop \<longleftrightarrow> (\<forall>a. cursor \<le> a \<and> a < stop \<longrightarrow> mapped_contains ranges a)"
proof (induction ranges cursor stop rule: contains_range_loop.induct)
  case (1 ranges cursor stop)
  note unf = contains_range_loop.simps [of ranges cursor stop]
  show ?case
  proof (cases "find (ar_contains cursor) ranges")
    case None
    then have "\<not> mapped_contains ranges cursor"
      by (auto simp: find_None_iff mapped_contains_def list_ex_iff)
    then show ?thesis using None "1.prems" by (auto simp: unf)
  next
    case (Some r)
    then have r: "r \<in> set ranges" "ar_contains cursor r"
      by (auto simp: find_Some_iff in_set_conv_nth)
    have here: "mapped_contains ranges a" if "cursor \<le> a" "a < ar_end r" for a
      using r that by (auto simp: mapped_contains_def list_ex_iff ar_contains_def intro!: bexI [of _ r])
    show ?thesis
    proof (cases "stop \<le> ar_end r")
      case True
      then show ?thesis using Some here by (auto simp: unf)
    next
      case False
      then have "contains_range_loop ranges (ar_end r) stop \<longleftrightarrow>
          (\<forall>a. ar_end r \<le> a \<and> a < stop \<longrightarrow> mapped_contains ranges a)"
        using "1.IH" [OF Some] by simp
      moreover have "cursor < ar_end r" using r(2) by (simp add: ar_contains_def)
      ultimately show ?thesis
        using Some False here
        by (simp add: unf) (metis linorder_not_le order.strict_implies_order order_trans)
    qed
  qed
qed

lemma contains_range_iff:
  "contains_range ranges start stop \<longleftrightarrow> (\<forall>a. start \<le> a \<and> a < stop \<longrightarrow> mapped_contains ranges a)"
  using contains_range_loop_iff [of start stop ranges]
  by (cases "start < stop") (auto simp: contains_range_def not_less)

text \<open>The loop that walks from range to range says yes exactly when every address of the
  interval lies in some mapped range, and it always ends.\<close>

theorem contains_range_iff_every_address:
  "contains_range ranges start stop \<longleftrightarrow>
   {a. start \<le> a \<and> a < stop} \<subseteq> {a. mapped_contains ranges a}"
  by (auto simp: contains_range_iff)

subsection \<open>Resolution into pages\<close>

definition page_bytes :: "page_mapping \<Rightarrow> nat" where
  "page_bytes p = (if pm_huge p then 0x200000 else 4096)"

text \<open>The pages lie one after the other from \<open>lo\<close> to \<open>hi\<close>, without gap or overlap.\<close>

fun tiles :: "nat \<Rightarrow> page_mapping list \<Rightarrow> nat \<Rightarrow> bool" where
  "tiles lo [] hi \<longleftrightarrow> lo = hi"
| "tiles lo (p # ps) hi \<longleftrightarrow> pa (pm_phys_addr p) = lo \<and> tiles (lo + page_bytes p) ps hi"

lemma tiles_append: "tiles lo ps mid \<Longrightarrow> tiles mid qs hi \<Longrightarrow> tiles lo (ps @ qs) hi"
  by (induction ps arbitrary: lo) auto

lemma emit_pages_tiles:
  assumes "unat psize = (if huge then 0x200000 else 4096)"
    "(pa stop - pa addr) mod unat psize = 0" "addr \<le> stop" "pa stop < 2 ^ 52"
  shows "tiles (pa addr) (emit_pages psize huge cacheable addr stop) (pa stop)"
  using assms(2,3)
proof (induction "pa stop - pa addr" arbitrary: addr rule: less_induct)
  case less
  have pos: "0 < unat psize" using assms(1) by simp
  note unf = emit_pages.simps [of psize huge cacheable addr stop]
  show ?case
  proof (cases "stop \<le> addr")
    case True
    then have "addr = stop" using less.prems(2) by simp
    then show ?thesis by (simp add: emit_pages.simps [of psize huge cacheable stop stop])
  next
    case False
    then have "0 < pa stop - pa addr" by (simp add: phys_le_iff)
    then have room: "unat psize \<le> pa stop - pa addr"
      using less.prems(1) mod_less [of "pa stop - pa addr" "unat psize"] by linarith
    then have lt: "pa addr + unat psize < 2 ^ 52"
      using assms(4) \<open>0 < pa stop - pa addr\<close> by linarith
    then have nx: "phys_checked_add addr psize = Some (PhysAddr (phys_raw addr + psize))"
      by (simp add: phys_checked_add_def checked_add_def phys_new_Some unat_add_no_overflow)
    let ?n = "PhysAddr (phys_raw addr + psize)"
    have pn: "pa ?n = pa addr + unat psize" by (rule phys_checked_add_Some [OF nx])
    have "(pa stop - pa ?n) mod unat psize = 0"
      using less.prems(1) le_mod_geq [OF room] pn by simp
    moreover have "?n \<le> stop" using room pn False by (simp add: phys_le_iff)
    moreover have "pa stop - pa ?n < pa stop - pa addr" using pn pos room by simp
    ultimately have "tiles (pa ?n) (emit_pages psize huge cacheable ?n stop) (pa stop)"
      by (intro less.hyps)
    then show ?thesis using False nx pn pos assms(1)
      unfolding unf by (simp add: page_bytes_def word_eq_0_unat)
  qed
qed

lemma emit_pages_attributes:
  "p \<in> set (emit_pages psize huge cacheable addr stop) \<Longrightarrow>
   pm_cacheable p = cacheable \<and> pm_huge p = huge \<and> (unat psize dvd pa addr \<longrightarrow> unat psize dvd pa (pm_phys_addr p))"
proof (induction psize huge cacheable addr stop rule: emit_pages.induct)
  case (1 psize huge cacheable addr stop)
  note unf = emit_pages.simps [of psize huge cacheable addr stop]
  show ?case
  proof (cases "phys_checked_add addr psize")
    case None
    then show ?thesis using "1.prems" by (auto simp: unf split: if_splits)
  next
    case (Some nxt)
    then show ?thesis
      using 1 phys_checked_add_Some [OF Some] by (auto simp: unf split: if_splits)
  qed
qed

lemma mask_2M: "PAGE_SIZE_2M - 1 = mask 21"
  by (simp add: PAGE_SIZE_2M_def mask_eq_decr_exp)

lemma unat_2M [simp]: "unat PAGE_SIZE_2M = 0x200000"
  by (simp add: PAGE_SIZE_2M_def)

lemma align_up_2M:
  assumes "phys_align_up p PAGE_SIZE_2M = Some q"
  shows "pa q = (pa p + 0x1FFFFF) div 0x200000 * 0x200000" "pa q < 2 ^ 52"
proof -
  obtain raw where raw: "checked_add (phys_raw p) (PAGE_SIZE_2M - 1) = Some raw"
    and q: "phys_new (raw AND NOT (mask 21)) = Some q"
    using assms by (auto simp: phys_align_up_def mask_2M split: option.splits)
  have "unat (PAGE_SIZE_2M - 1) = 0x1FFFFF" by (simp add: PAGE_SIZE_2M_def)
  with checked_add_Some [OF raw] have "unat raw = pa p + 0x1FFFFF" by simp
  with q show "pa q = (pa p + 0x1FFFFF) div 0x200000 * 0x200000" "pa q < 2 ^ 52"
    by (auto simp: phys_new_Some unat_and_not_mask)
qed

lemma align_down_2M:
  "phys_align_down p PAGE_SIZE_2M = Some q \<Longrightarrow> pa q = pa p div 0x200000 * 0x200000"
  by (auto simp: phys_align_down_def mask_2M phys_new_Some unat_and_not_mask)

lemma emit_4k_tiles:
  assumes "4096 dvd pa addr" "4096 dvd pa stop" "addr \<le> stop" "pa stop < 2 ^ 52"
  shows "tiles (pa addr) (emit_4k addr stop cacheable) (pa stop)"
proof -
  have "4096 dvd pa stop - pa addr" using assms(1,2) by (rule dvd_diff_nat [rotated])
  then show ?thesis
    using assms(3,4) unfolding emit_4k_def PLAN_FRAME_SIZE_def
    by (intro emit_pages_tiles) (auto simp: mod_eq_0_iff_dvd)
qed

lemma resolve_range_cases:
  obtains (flat) "resolve_range r = emit_4k (ar_start r) (ar_end r) (ar_cacheable r)"
  | (core) core_start core_end where
      "phys_align_up (ar_start r) PAGE_SIZE_2M = Some core_start"
      "phys_align_down (ar_end r) PAGE_SIZE_2M = Some core_end" "core_start < core_end"
      "resolve_range r = emit_4k (ar_start r) core_start (ar_cacheable r) @
         emit_pages PAGE_SIZE_2M True (ar_cacheable r) core_start core_end @
         emit_4k core_end (ar_end r) (ar_cacheable r)"
  by (fastforce simp: resolve_range_def split: option.splits if_splits)

lemma resolve_range_tiles:
  assumes al: "4096 dvd pa (ar_start r)" "4096 dvd pa (ar_end r)" and le: "ar_start r \<le> ar_end r"
    and valid: "pa (ar_end r) < 2 ^ 52"
  shows "tiles (pa (ar_start r)) (resolve_range r) (pa (ar_end r))"
proof (cases r rule: resolve_range_cases)
  case flat
  then show ?thesis using emit_4k_tiles [OF al le valid] by simp
next
  case (core cs ce)
  note up = align_up_2M [OF core(1)] and down = align_down_2M [OF core(2)]
  have d: "0x200000 dvd pa cs" "0x200000 dvd pa ce" using up down by simp_all
  then have d': "4096 dvd pa cs" "4096 dvd pa ce" by (auto intro: dvd_trans [of "4096" "0x200000"])
  have bounds: "ar_start r \<le> cs" "cs \<le> ce" "ce \<le> ar_end r"
    using up(1) down core(3) by (auto simp: phys_le_iff phys_less_iff)
  then have small: "pa ce < 2 ^ 52" using valid by (simp add: phys_le_iff)
  have "(pa ce - pa cs) mod unat PAGE_SIZE_2M = 0" using d by (simp add: mod_eq_0_iff_dvd dvd_diff_nat)
  then have "tiles (pa cs) (emit_pages PAGE_SIZE_2M True (ar_cacheable r) cs ce) (pa ce)"
    using bounds small by (intro emit_pages_tiles) simp_all
  then show ?thesis
    using emit_4k_tiles [OF al(1) d'(1) bounds(1) up(2)] emit_4k_tiles [OF d'(2) al(2) bounds(3) valid]
    by (auto simp: core(4) intro!: tiles_append)
qed

lemma resolve_range_attributes:
  assumes "p \<in> set (resolve_range r)"
  shows "pm_cacheable p = ar_cacheable r \<and> (pm_huge p \<longrightarrow> 0x200000 dvd pa (pm_phys_addr p))"
proof (cases r rule: resolve_range_cases)
  case flat
  then show ?thesis using assms emit_pages_attributes by (fastforce simp: emit_4k_def)
next
  case (core cs ce)
  have "0x200000 dvd pa cs" using align_up_2M(1) [OF core(1)] by simp
  then have mid: "p \<in> set (emit_pages PAGE_SIZE_2M True (ar_cacheable r) cs ce) \<Longrightarrow>
      pm_cacheable p = ar_cacheable r \<and> 0x200000 dvd pa (pm_phys_addr p)"
    using emit_pages_attributes [of p PAGE_SIZE_2M True "ar_cacheable r" cs ce] by simp
  have ends: "p \<in> set (emit_4k a b (ar_cacheable r)) \<Longrightarrow> pm_cacheable p = ar_cacheable r \<and> \<not> pm_huge p" for a b
    using emit_pages_attributes [of p PLAN_FRAME_SIZE False "ar_cacheable r" a b] by (simp add: emit_4k_def)
  from assms show ?thesis using mid ends by (auto simp: core(4))
qed

text \<open>C40: a page-aligned range is tiled by the pages it resolves to, from its first to its last byte
  with no gap and no overlap; every page keeps the range's cache attribute, and every 2 MiB page
  starts at a 2 MiB boundary.\<close>

theorem resolve_range_tiles_exactly:
  assumes "4096 dvd pa (ar_start r)" "4096 dvd pa (ar_end r)" "ar_start r \<le> ar_end r" "pa (ar_end r) < 2 ^ 52"
  shows "tiles (pa (ar_start r)) (resolve_range r) (pa (ar_end r)) \<and>
    (\<forall>p \<in> set (resolve_range r).
       pm_cacheable p = ar_cacheable r \<and> (pm_huge p \<longrightarrow> 0x200000 dvd pa (pm_phys_addr p)))"
  using resolve_range_tiles [OF assms] resolve_range_attributes by blast

theorem resolve_range_tiles_exactly_witness:
  "tiles 0x1FF000
     (resolve_range \<lparr>ar_start = PhysAddr 0x1FF000, ar_end = PhysAddr 0x401000, ar_cacheable = True\<rparr>) 0x401000"
  using resolve_range_tiles_exactly
    [of "\<lparr>ar_start = PhysAddr 0x1FF000, ar_end = PhysAddr 0x401000, ar_cacheable = True\<rparr>"]
  by (simp add: phys_le_iff)

subsection \<open>What the plan covers\<close>

definition grows :: "('r list \<Rightarrow> 'a \<Rightarrow> ('e, 'r list) outcome) \<Rightarrow> bool" where
  "grows f \<longleftrightarrow> (\<forall>s x s'. f s x = Ok s' \<longrightarrow> set s \<subseteq> set s')"

lemma plan_loop_mono: "grows f \<Longrightarrow> plan_loop f s xs = Ok s' \<Longrightarrow> set s \<subseteq> set s'"
  by (induction xs arbitrary: s) (fastforce simp: grows_def)+

lemma plan_loop_member:
  "grows f \<Longrightarrow> plan_loop f s xs = Ok s' \<Longrightarrow> x \<in> set xs \<Longrightarrow> \<exists>t t'. f t x = Ok t' \<and> set t' \<subseteq> set s'"
proof (induction xs arbitrary: s)
  case (Cons y ys)
  then obtain t where t: "f s y = Ok t" "plan_loop f t ys = Ok s'" by auto
  with Cons plan_loop_mono [OF Cons.prems(1) t(2)] show ?case by auto
qed simp

lemma plan_entry_mono: "grows (plan_entry cap)"
  by (auto simp: grows_def plan_entry_def Let_def split: if_splits option.splits)

lemma plan_extra_mono: "grows (plan_extra cap)"
  by (auto simp: grows_def plan_extra_def split: prod.splits if_splits option.splits)

lemma plan_entry_covers:
  assumes "plan_entry cap s e = Ok s'" "memory_type e = CONVENTIONAL" "page_count e \<noteq> 0"
    and "unat (phys_start e) \<le> pa a" "pa a < unat (phys_start e) + unat (page_count e) * 4096" "4096 \<le> pa a"
  shows "covered True s' a"
proof -
  define stop where "stop = unat (phys_start e) + unat (page_count e) * 4096"
  define start where "start = (if phys_start e = 0 then PLAN_FRAME_SIZE else phys_start e)"
  have "unat start \<le> pa a" using assms(4,6) by (simp add: start_def PLAN_FRAME_SIZE_def)
  moreover have "pa a < stop" using assms(5) by (simp add: stop_def)
  ultimately have lt: "\<not> stop \<le> unat start" by simp
  have cl: "classify (memory_type e) = Free" using assms(2) by (simp add: classify_def)
  from assms(1,3) cl lt obtain x y where n: "stop < u64_limit" "phys_new start = Some x"
    "phys_new (word_of_nat stop) = Some y"
    and s': "s' = s @ [\<lparr>ar_start = x, ar_end = y, ar_cacheable = True\<rparr>]"
    by (auto simp: plan_entry_def Let_def stop_def [symmetric] start_def [symmetric] not_le
        split: if_splits option.splits)
  have "pa x = unat start" "pa y = stop"
    using n unat_word_of_nat [where 'a = 64, of stop] by (auto simp: phys_new_Some)
  then show ?thesis
    using \<open>unat start \<le> pa a\<close> \<open>pa a < stop\<close>
    by (simp add: s' ar_contains_def phys_le_iff phys_less_iff)
qed

lemma plan_covers_conventional:
  assumes "mapped_ranges_build cap raw dsize extra = Ok ranges" "parse_entries raw dsize = Inr entries"
    and "e \<in> set entries" "memory_type e = CONVENTIONAL"
    and "unat (phys_start e) \<le> pa a" "pa a < unat (phys_start e) + unat (page_count e) * 4096" "4096 \<le> pa a"
  shows "covered True ranges a"
proof -
  from assms(1,2) obtain rs rs' where rs: "plan_loop (plan_entry cap) [] entries = Ok rs"
    "plan_loop (plan_extra cap) rs extra = Ok rs'" "ranges = merge_loop [] (sort_key ar_start rs')"
    by (auto simp: mapped_ranges_build_def)
  obtain t t' where t: "plan_entry cap t e = Ok t'" "set t' \<subseteq> set rs"
    using plan_loop_member [OF plan_entry_mono rs(1) assms(3)] by blast
  have "page_count e \<noteq> 0" using assms(5,6) by auto
  from plan_entry_covers [OF t(1) assms(4) this assms(5-7)]
  have "covered True rs' a"
    using t(2) plan_loop_mono [OF plan_extra_mono rs(2)] by (auto simp: covered_def)
  then show ?thesis by (simp add: rs(3) merge_sorted_covered)
qed

end
