(* ===== verification/Page_Entry.thy ===== *)
theory Page_Entry
  imports Addr
begin

unbundle bit_operations_syntax

text \<open>
  Page permissions and page-table entries: what a mapping may allow (\<open>kernel/src/paging/permissions.rs\<close>),
  how the kernel image is cut into sections by permission (\<open>kernel/src/paging/image.rs\<close>), and the bits of
  an entry (\<open>kernel/src/arch/x86_64/paging/entry.rs\<close>), with the entries that replace a large page when
  it is split.
\<close>

subsection \<open>Permissions\<close>

datatype cache = Cached | Uncached

record page_permissions =
  perm_write :: bool
  perm_execute :: bool
  perm_user :: bool
  perm_cache :: cache
  perm_shared :: bool

definition boot_table_unrestricted :: page_permissions where
  "boot_table_unrestricted = \<lparr>perm_write = True, perm_execute = True, perm_user = False, perm_cache = Cached, perm_shared = False\<rparr>"

definition kernel_code :: page_permissions where
  "kernel_code = \<lparr>perm_write = False, perm_execute = True, perm_user = False, perm_cache = Cached, perm_shared = False\<rparr>"

definition kernel_data :: page_permissions where
  "kernel_data = \<lparr>perm_write = True, perm_execute = False, perm_user = False, perm_cache = Cached, perm_shared = False\<rparr>"

definition kernel_read_only :: page_permissions where
  "kernel_read_only = \<lparr>perm_write = False, perm_execute = False, perm_user = False, perm_cache = Cached, perm_shared = False\<rparr>"

definition kernel_device :: page_permissions where
  "kernel_device = \<lparr>perm_write = True, perm_execute = False, perm_user = False, perm_cache = Uncached, perm_shared = False\<rparr>"

definition user_program :: "bool \<Rightarrow> bool \<Rightarrow> page_permissions" where
  "user_program writable executable =
     \<lparr>perm_write = writable, perm_execute = executable, perm_user = True, perm_cache = Cached, perm_shared = False\<rparr>"

definition user_data :: page_permissions where
  "user_data = \<lparr>perm_write = True, perm_execute = False, perm_user = True, perm_cache = Cached, perm_shared = False\<rparr>"

definition user_shared :: "bool \<Rightarrow> page_permissions" where
  "user_shared writable =
     \<lparr>perm_write = writable, perm_execute = False, perm_user = True, perm_cache = Cached, perm_shared = True\<rparr>"

definition writable_and_executable :: "page_permissions \<Rightarrow> bool" where
  "writable_and_executable p \<longleftrightarrow> perm_write p \<and> perm_execute p"

subsection \<open>The sections of the kernel image\<close>

record image_bounds =
  ib_start :: nat
  ib_read_only_start :: nat
  ib_data_start :: nat
  ib_end :: nat

record image_section =
  sec_start :: nat
  sec_end :: nat
  sec_permissions :: page_permissions

datatype image_layout_error = NotPageAligned | OutOfOrder

definition section_len :: "image_section \<Rightarrow> nat" where
  "section_len s = sec_end s - sec_start s"

definition section_pages :: "image_section \<Rightarrow> nat" where
  "section_pages s = section_len s div 4096"

text \<open>\<open>next_multiple_of\<close> panics where the multiple does not fit.\<close>

definition next_page :: "nat \<Rightarrow> nat" where
  "next_page a = (a + 4095) div 4096 * 4096"

definition image_sections :: "image_bounds \<Rightarrow> (image_layout_error, image_section list) outcome" where
  "image_sections b =
     (if ib_start b mod 4096 \<noteq> 0 \<or> ib_read_only_start b mod 4096 \<noteq> 0 \<or> ib_data_start b mod 4096 \<noteq> 0
      then Err NotPageAligned
      else let last = next_page (ib_end b) in
        if u64_limit \<le> last then Panic
        else if \<not> (ib_start b < ib_read_only_start b \<and> ib_read_only_start b < ib_data_start b \<and> ib_data_start b < last)
        then Err OutOfOrder
        else Ok [\<lparr>sec_start = ib_start b, sec_end = ib_read_only_start b, sec_permissions = kernel_code\<rparr>,
                 \<lparr>sec_start = ib_read_only_start b, sec_end = ib_data_start b, sec_permissions = kernel_read_only\<rparr>,
                 \<lparr>sec_start = ib_data_start b, sec_end = last, sec_permissions = kernel_data\<rparr>])"

subsection \<open>Entries\<close>

definition PTE_PRESENT :: u64 where "PTE_PRESENT = 0x1"
definition PTE_WRITABLE :: u64 where "PTE_WRITABLE = 0x2"
definition PTE_USER :: u64 where "PTE_USER = 0x4"
definition PTE_PWT :: u64 where "PTE_PWT = 0x8"
definition PTE_PCD :: u64 where "PTE_PCD = 0x10"
definition PTE_ACCESSED :: u64 where "PTE_ACCESSED = 0x20"
definition PTE_DIRTY :: u64 where "PTE_DIRTY = 0x40"
definition PDE_PAGE_SIZE :: u64 where "PDE_PAGE_SIZE = 0x80"
definition PTE_PAT :: u64 where "PTE_PAT = 0x80"
definition PDE_HUGE_PAT :: u64 where "PDE_HUGE_PAT = 0x1000"
definition PTE_GLOBAL :: u64 where "PTE_GLOBAL = 0x100"
definition PTE_SHARED :: u64 where "PTE_SHARED = 0x200"
definition PTE_NO_EXECUTE :: u64 where "PTE_NO_EXECUTE = 0x8000000000000000"
definition ADDR_MASK_4K :: u64 where "ADDR_MASK_4K = 0x000FFFFFFFFFF000"
definition ADDR_MASK_2M :: u64 where "ADDR_MASK_2M = 0x000FFFFFFFE00000"
definition PDE_HUGE_BELOW_ADDRESS :: u64 where "PDE_HUGE_BELOW_ADDRESS = ADDR_MASK_4K AND NOT ADDR_MASK_2M"
definition ADDR_MASK_TABLE :: u64 where "ADDR_MASK_TABLE = ADDR_MASK_4K"
definition PAGE_SIZE_4K :: u64 where "PAGE_SIZE_4K = 4096"
definition PAGE_SIZE_2M :: u64 where "PAGE_SIZE_2M = 0x200000"
definition ENTRIES_PER_TABLE :: nat where "ENTRIES_PER_TABLE = 512"

definition is_present :: "u64 \<Rightarrow> bool" where
  "is_present e \<longleftrightarrow> e AND PTE_PRESENT \<noteq> 0"

definition is_shared :: "u64 \<Rightarrow> bool" where
  "is_shared e \<longleftrightarrow> e AND PTE_SHARED \<noteq> 0"

definition is_huge :: "u64 \<Rightarrow> bool" where
  "is_huge e \<longleftrightarrow> e AND PDE_PAGE_SIZE \<noteq> 0"

definition table_address :: "u64 \<Rightarrow> phys_addr" where
  "table_address e = PhysAddr (e AND ADDR_MASK_TABLE)"

definition page_address_4k :: "u64 \<Rightarrow> phys_addr" where
  "page_address_4k e = PhysAddr (e AND ADDR_MASK_4K)"

definition page_address_2m :: "u64 \<Rightarrow> phys_addr" where
  "page_address_2m e = PhysAddr (e AND ADDR_MASK_2M)"

datatype leaf_size = SmallLeaf | LargeLeaf

definition flag_if :: "bool \<Rightarrow> u64 \<Rightarrow> u64 \<Rightarrow> u64" where
  "flag_if b f flags = (if b then flags OR f else flags)"

definition leaf_flags :: "page_permissions \<Rightarrow> leaf_size \<Rightarrow> u64" where
  "leaf_flags p sz =
     flag_if (\<not> perm_execute p) PTE_NO_EXECUTE
    (flag_if (sz = LargeLeaf) PDE_PAGE_SIZE
    (flag_if (perm_shared p) PTE_SHARED
    (flag_if (perm_cache p = Uncached) PTE_PCD
    (flag_if (perm_user p) PTE_USER
    (flag_if (perm_write p) PTE_WRITABLE PTE_PRESENT)))))"

definition table_flags_for :: "bool \<Rightarrow> u64" where
  "table_flags_for user = flag_if user PTE_USER (PTE_PRESENT OR PTE_WRITABLE)"

definition table_flags :: "page_permissions \<Rightarrow> u64" where
  "table_flags p = table_flags_for (perm_user p)"

definition leaf_entry :: "phys_addr \<Rightarrow> page_permissions \<Rightarrow> leaf_size \<Rightarrow> u64" where
  "leaf_entry frame p sz =
     (case sz of SmallLeaf \<Rightarrow> phys_raw frame AND ADDR_MASK_4K | LargeLeaf \<Rightarrow> phys_raw frame AND ADDR_MASK_2M) OR leaf_flags p sz"

definition table_entry :: "phys_addr \<Rightarrow> page_permissions \<Rightarrow> u64" where
  "table_entry t p = (phys_raw t AND ADDR_MASK_TABLE) OR table_flags p"

text \<open>The sum stays in range: the base ends in 21 zero bits and the offset has 21.\<close>

definition split_child_entry :: "u64 \<Rightarrow> nat \<Rightarrow> u64" where
  "split_child_entry e i =
     (let addr = phys_raw (page_address_2m e) + word_of_nat i * PAGE_SIZE_4K;
          flags = e AND NOT (PDE_PAGE_SIZE OR PDE_HUGE_PAT OR PTE_ACCESSED OR PTE_DIRTY OR ADDR_MASK_2M)
                    AND NOT PDE_HUGE_BELOW_ADDRESS
      in addr OR (if e AND PDE_HUGE_PAT \<noteq> 0 then flags OR PTE_PAT else flags))"

definition table_entry_for_split :: "u64 \<Rightarrow> phys_addr \<Rightarrow> u64" where
  "table_entry_for_split e t = (phys_raw t AND ADDR_MASK_TABLE) OR table_flags_for (e AND PTE_USER \<noteq> 0)"

definition split_children :: "u64 \<Rightarrow> u64 list" where
  "split_children e = map (split_child_entry e) [0 ..< ENTRIES_PER_TABLE]"


subsection \<open>Entries bit by bit\<close>

lemma flag_bits:
  "PTE_PRESENT = 2 ^ 0" "PTE_WRITABLE = 2 ^ 1" "PTE_USER = 2 ^ 2" "PTE_PCD = 2 ^ 4" "PTE_ACCESSED = 2 ^ 5" "PTE_DIRTY = 2 ^ 6"
  "PDE_PAGE_SIZE = 2 ^ 7" "PTE_PAT = 2 ^ 7" "PTE_GLOBAL = 2 ^ 8" "PTE_SHARED = 2 ^ 9" "PDE_HUGE_PAT = 2 ^ 12" "PTE_NO_EXECUTE = 2 ^ 63"
  by (simp_all add: PTE_PRESENT_def PTE_WRITABLE_def PTE_USER_def PTE_PCD_def PTE_ACCESSED_def PTE_DIRTY_def PDE_PAGE_SIZE_def
      PTE_PAT_def PTE_GLOBAL_def PTE_SHARED_def PDE_HUGE_PAT_def PTE_NO_EXECUTE_def)

lemma flag_set: "(e :: u64) AND 2 ^ k \<noteq> 0 \<longleftrightarrow> bit e k"
  by (metis and_exp_eq_0_iff_not_bit)

lemma bit_flag: "bit (2 ^ k :: u64) n \<longleftrightarrow> n = k \<and> k < 64"
  by (auto simp: bit_exp_iff)

lemma mask_bits:
  "bit ADDR_MASK_4K n \<longleftrightarrow> 12 \<le> n \<and> n < 52" "bit ADDR_MASK_TABLE n \<longleftrightarrow> 12 \<le> n \<and> n < 52" "bit ADDR_MASK_2M n \<longleftrightarrow> 21 \<le> n \<and> n < 52"
proof -
  have m: "ADDR_MASK_4K = push_bit 12 (mask 40)" "ADDR_MASK_2M = push_bit 21 (mask 31)"
    by (simp_all add: ADDR_MASK_4K_def ADDR_MASK_2M_def mask_eq_exp_minus_1 push_bit_eq_mult)
  show "bit ADDR_MASK_4K n \<longleftrightarrow> 12 \<le> n \<and> n < 52" "bit ADDR_MASK_TABLE n \<longleftrightarrow> 12 \<le> n \<and> n < 52" "bit ADDR_MASK_2M n \<longleftrightarrow> 21 \<le> n \<and> n < 52"
    unfolding ADDR_MASK_TABLE_def m by (auto simp: bit_push_bit_iff bit_mask_iff)
qed

lemmas entry_bits = bit_and_iff bit_or_iff bit_not_iff bit_flag mask_bits flag_set flag_bits

lemma entry_tests:
  "is_present e \<longleftrightarrow> bit e 0" "is_huge e \<longleftrightarrow> bit e 7" "is_shared e \<longleftrightarrow> bit e 9" "e AND PTE_USER \<noteq> 0 \<longleftrightarrow> bit e 2"
  "e AND PTE_WRITABLE \<noteq> 0 \<longleftrightarrow> bit e 1" "e AND PTE_NO_EXECUTE \<noteq> 0 \<longleftrightarrow> bit e 63" "e AND PTE_GLOBAL \<noteq> 0 \<longleftrightarrow> bit e 8"
  unfolding is_present_def is_huge_def is_shared_def flag_bits flag_set by simp_all

lemma bit_flag_if: "bit (flag_if b f x) n \<longleftrightarrow> bit x n \<or> b \<and> bit f n"
  by (auto simp: flag_if_def bit_or_iff)

lemma leaf_flags_bits:
  "bit (leaf_flags p sz) n \<longleftrightarrow> n = 0 \<or> n = 1 \<and> perm_write p \<or> n = 2 \<and> perm_user p \<or> n = 4 \<and> perm_cache p = Uncached \<or>
     n = 7 \<and> sz = LargeLeaf \<or> n = 9 \<and> perm_shared p \<or> n = 63 \<and> \<not> perm_execute p"
  unfolding leaf_flags_def bit_flag_if flag_bits bit_flag by auto

lemma table_flags_bits: "bit (table_flags p) n \<longleftrightarrow> n = 0 \<or> n = 1 \<or> n = 2 \<and> perm_user p"
  unfolding table_flags_def table_flags_for_def bit_flag_if bit_or_iff flag_bits bit_flag by auto

text \<open>An address that came from a frame number passes the mask unchanged.\<close>

definition page_aligned :: "phys_addr \<Rightarrow> bool" where
  "page_aligned p \<longleftrightarrow> phys_raw p AND ADDR_MASK_4K = phys_raw p"

lemma page_aligned_bits: "page_aligned p \<longleftrightarrow> (\<forall>n. bit (phys_raw p) n \<longrightarrow> 12 \<le> n \<and> n < 52)"
proof
  assume "page_aligned p"
  then have "bit (phys_raw p AND ADDR_MASK_4K) n = bit (phys_raw p) n" for n by (simp add: page_aligned_def)
  then show "\<forall>n. bit (phys_raw p) n \<longrightarrow> 12 \<le> n \<and> n < 52" unfolding bit_and_iff mask_bits by blast
next
  assume b: "\<forall>n. bit (phys_raw p) n \<longrightarrow> 12 \<le> n \<and> n < 52"
  show "page_aligned p" unfolding page_aligned_def by (rule bit_word_eqI) (use b in \<open>auto simp: bit_and_iff mask_bits\<close>)
qed

lemma table_entry_facts:
  assumes "page_aligned t"
  shows "table_address (table_entry t p) = t" "is_present (table_entry t p)" "\<not> is_huge (table_entry t p)"
    "bit (table_entry t p) 2 \<longleftrightarrow> perm_user p" "bit (table_entry t p) 1" "\<not> bit (table_entry t p) 63"
proof -
  have b: "bit (table_entry t p) n \<longleftrightarrow> bit (phys_raw t) n \<or> n = 0 \<or> n = 1 \<or> n = 2 \<and> perm_user p" for n
    using assms unfolding table_entry_def bit_or_iff bit_and_iff mask_bits table_flags_bits page_aligned_bits by auto
  have low: "\<not> bit (phys_raw t) n" if "n < 12 \<or> 52 \<le> n" for n using assms that by (auto simp: page_aligned_bits)
  have "table_entry t p AND ADDR_MASK_TABLE = phys_raw t"
    by (rule bit_word_eqI) (use assms in \<open>auto simp: bit_and_iff b mask_bits page_aligned_bits\<close>)
  then show "table_address (table_entry t p) = t" by (simp add: table_address_def)
  show "is_present (table_entry t p)" "\<not> is_huge (table_entry t p)" "bit (table_entry t p) 2 \<longleftrightarrow> perm_user p" "bit (table_entry t p) 1" "\<not> bit (table_entry t p) 63"
    using low by (simp_all add: entry_tests b)
qed

lemma leaf_entry_facts:
  assumes "page_aligned t"
  shows "page_address_4k (leaf_entry t p SmallLeaf) = t" "is_present (leaf_entry t p SmallLeaf)"
    "bit (leaf_entry t p SmallLeaf) 1 \<longleftrightarrow> perm_write p" "bit (leaf_entry t p SmallLeaf) 2 \<longleftrightarrow> perm_user p"
    "is_shared (leaf_entry t p SmallLeaf) \<longleftrightarrow> perm_shared p" "bit (leaf_entry t p SmallLeaf) 63 \<longleftrightarrow> \<not> perm_execute p"
proof -
  have b: "bit (leaf_entry t p SmallLeaf) n \<longleftrightarrow> bit (phys_raw t) n \<or> bit (leaf_flags p SmallLeaf) n" for n
    using assms unfolding leaf_entry_def bit_or_iff page_aligned_bits by (auto simp: bit_and_iff mask_bits)
  have low: "\<not> bit (phys_raw t) n" if "n < 12 \<or> n = 63" for n using assms that by (auto simp: page_aligned_bits)
  have "leaf_entry t p SmallLeaf AND ADDR_MASK_4K = phys_raw t"
    by (rule bit_word_eqI) (use assms in \<open>auto simp: bit_and_iff b mask_bits leaf_flags_bits page_aligned_bits\<close>)
  then show "page_address_4k (leaf_entry t p SmallLeaf) = t" by (simp add: page_address_4k_def)
  show "is_present (leaf_entry t p SmallLeaf)" "bit (leaf_entry t p SmallLeaf) 1 \<longleftrightarrow> perm_write p" "bit (leaf_entry t p SmallLeaf) 2 \<longleftrightarrow> perm_user p"
    "is_shared (leaf_entry t p SmallLeaf) \<longleftrightarrow> perm_shared p" "bit (leaf_entry t p SmallLeaf) 63 \<longleftrightarrow> \<not> perm_execute p"
    using low by (simp_all add: entry_tests b leaf_flags_bits)
qed

lemma not_present_0 [simp]: "\<not> is_present 0"
  by (simp add: is_present_def)

lemma page_aligned_from_frame:
  assumes "from_frame_number f = Some t"
  shows "page_aligned t"
proof -
  have f: "f < 2 ^ 40" "t = PhysAddr (word_of_nat (f * 4096))" using assms by (auto simp: from_frame_number_Some)
  have "(word_of_nat (f * 4096) :: u64) = push_bit 12 (word_of_nat f)" by (simp add: push_bit_eq_mult)
  moreover have "bit (word_of_nat f :: u64) n \<Longrightarrow> n < 40" for n
  proof -
    assume "bit (word_of_nat f :: u64) n"
    then have "bit f n" by (simp add: bit_of_nat_iff)
    then have "2 ^ n \<le> f" by (metis bit_iff_odd div_less even_zero not_le)
    then have "(2 :: nat) ^ n < 2 ^ 40" using f(1) by linarith
    then show "n < 40" using nat_power_less_imp_less [of 2 n 40] by simp
  qed
  ultimately show ?thesis unfolding page_aligned_bits f(2) by (fastforce simp: bit_push_bit_iff)
qed

lemma page_aligned_table_address [simp]: "page_aligned (table_address e)" "page_aligned (page_address_4k e)"
  by (auto simp: page_aligned_bits table_address_def page_address_4k_def bit_and_iff mask_bits)

end
