(* ===== verification/Page_Table.thy ===== *)
theory Page_Table
  imports Page_Entry Frame_Allocator
begin

unbundle bit_operations_syntax

text \<open>
  Page tables: building them (\<open>kernel/src/arch/x86_64/paging/table.rs\<close>), changing the active ones
  (\<open>active.rs\<close>), the address space of a process (\<open>address_space.rs\<close>), the independent walks that check them
  (\<open>verify.rs\<close>) and the check of a user's pointers (\<open>kernel/src/syscall.rs\<close>).

  An entry is read and written at \<open>table + 8 * index\<close> through the direct map. Tables are whole frames and
  indices are below 512, so a table and an index name one word and the memory that holds the tables is a
  function of the two. Flushing the TLB changes no table: which cores may still hold a stale translation is
  the matter of \<open>Quarantine\<close>. Whether the boot has finished is an argument of the calls that ask for it.
\<close>

subsection \<open>Tables in memory\<close>

type_synonym table_mem = "phys_addr \<Rightarrow> nat \<Rightarrow> u64"

record paging =
  pg_mem :: table_mem
  pg_frames :: frame_allocator

definition write_entry :: "phys_addr \<Rightarrow> nat \<Rightarrow> u64 \<Rightarrow> paging \<Rightarrow> paging" where
  "write_entry t i v w = w\<lparr>pg_mem := (pg_mem w)(t := (pg_mem w t)(i := v))\<rparr>"

definition zero_table :: "phys_addr \<Rightarrow> paging \<Rightarrow> paging" where
  "zero_table t w = w\<lparr>pg_mem := (pg_mem w)(t := (\<lambda>_. 0))\<rparr>"

text \<open>\<open>allocate_frame\<close> on the allocator that the caller holds.\<close>

definition take_frame :: "paging \<Rightarrow> paging \<times> phys_addr option" where
  "take_frame w = (case allocate_frame (pg_frames w) of (fa, r) \<Rightarrow> (w\<lparr>pg_frames := fa\<rparr>, r))"

text \<open>\<open>let _ = deallocate_frame(...)\<close>: a refusal is ignored.\<close>

definition put_frame :: "phys_addr \<Rightarrow> paging \<Rightarrow> paging option" where
  "put_frame p w =
     (case deallocate_frame DEFAULT_CAPACITY (pg_frames w) p of
        Ok fa \<Rightarrow> Some (w\<lparr>pg_frames := fa\<rparr>) | Err _ \<Rightarrow> Some w | Panic \<Rightarrow> None)"

subsection \<open>Building tables\<close>

datatype page_table_error = TableOutOfFrames | UnexpectedHugePageEntry | MisalignedRange | FrameBeyondReach u64 u64

record builder =
  bl_root :: phys_addr
  bl_frames_used :: nat
  bl_reach :: "u64 option"

definition alloc_zeroed_table :: "u64 option \<Rightarrow> paging \<Rightarrow> (page_table_error, phys_addr) outcome \<times> paging" where
  "alloc_zeroed_table reach w =
     (case take_frame w of
        (w1, None) \<Rightarrow> (Err TableOutOfFrames, w1)
      | (w1, Some p) \<Rightarrow>
          (case reach of
             None \<Rightarrow> (Ok p, zero_table p w1)
           | Some r \<Rightarrow>
               if u64_limit \<le> unat (phys_raw p) + 4096 then (Panic, w1)
               else if unat r < unat (phys_raw p) + 4096 then (Err (FrameBeyondReach (phys_raw p) r), w1)
               else (Ok p, zero_table p w1)))"

definition builder_with_reach :: "u64 option \<Rightarrow> paging \<Rightarrow> (page_table_error, builder) outcome \<times> paging" where
  "builder_with_reach reach w =
     (case alloc_zeroed_table reach w of
        (Ok p, w1) \<Rightarrow> (Ok \<lparr>bl_root = p, bl_frames_used = 1, bl_reach = reach\<rparr>, w1)
      | (Err e, w1) \<Rightarrow> (Err e, w1) | (Panic, w1) \<Rightarrow> (Panic, w1))"

definition builder_ensure_child ::
  "phys_addr \<Rightarrow> nat \<Rightarrow> builder \<times> paging \<Rightarrow> (page_table_error, phys_addr) outcome \<times> builder \<times> paging" where
  "builder_ensure_child t i = (\<lambda>(b, w).
     let existing = pg_mem w t i in
     if is_present existing then
       (if is_huge existing then (Err UnexpectedHugePageEntry, b, w) else (Ok (table_address existing), b, w))
     else case alloc_zeroed_table (bl_reach b) w of
         (Ok child, w1) \<Rightarrow>
           (Ok child, b\<lparr>bl_frames_used := bl_frames_used b + 1\<rparr>, write_entry t i (table_entry child kernel_data) w1)
       | (Err e, w1) \<Rightarrow> (Err e, b, w1) | (Panic, w1) \<Rightarrow> (Panic, b, w1))"

text \<open>Sequencing of the steps that can end early, with the state they leave.\<close>

definition bind_pg :: "(('e, 'a) outcome \<times> 's) \<Rightarrow> ('a \<Rightarrow> 's \<Rightarrow> ('e, 'b) outcome \<times> 's) \<Rightarrow> ('e, 'b) outcome \<times> 's" where
  "bind_pg m f = (case m of (Ok a, s) \<Rightarrow> f a s | (Err e, s) \<Rightarrow> (Err e, s) | (Panic, s) \<Rightarrow> (Panic, s))"

definition map_one ::
  "virt_addr \<Rightarrow> phys_addr \<Rightarrow> bool \<Rightarrow> page_permissions \<Rightarrow> builder \<times> paging \<Rightarrow> (page_table_error, unit) outcome \<times> builder \<times> paging" where
  "map_one v p huge perms = (\<lambda>(b, w).
     bind_pg (builder_ensure_child (bl_root b) (top_index v) (b, w)) (\<lambda>pdpt s.
     bind_pg (builder_ensure_child pdpt (upper_index v) s) (\<lambda>pd (b2, w2).
       if huge then (Ok (), b2, write_entry pd (middle_index v) (leaf_entry p perms LargeLeaf) w2)
       else bind_pg (builder_ensure_child pd (middle_index v) (b2, w2)) (\<lambda>pt (b3, w3).
         (Ok (), b3, write_entry pt (leaf_index v) (leaf_entry p perms SmallLeaf) w3)))))"

text \<open>The loop of \<open>map_range\<close> from \<open>offset\<close> on. The step is never zero, so it ends.\<close>

definition map_range_turn ::
  "virt_addr \<Rightarrow> phys_addr \<Rightarrow> nat \<Rightarrow> page_permissions \<Rightarrow> nat \<Rightarrow> builder \<times> paging \<Rightarrow> (page_table_error, nat) outcome \<times> builder \<times> paging" where
  "map_range_turn v p len perms offset s =
     (case virt_checked_add v (word_of_nat offset) of
        None \<Rightarrow> (Err MisalignedRange, s)
      | Some v1 \<Rightarrow>
          (case phys_checked_add p (word_of_nat offset) of
             None \<Rightarrow> (Err MisalignedRange, s)
           | Some p1 \<Rightarrow>
               let huge = 0x200000 \<le> len - offset \<and> virt_is_aligned v1 PAGE_SIZE_2M \<and> phys_is_aligned p1 PAGE_SIZE_2M in
               bind_pg (map_one v1 p1 huge perms s) (\<lambda>_ s1. (Ok (offset + (if huge then 0x200000 else 4096)), s1))))"

lemma map_range_turn_grows: "map_range_turn v p len perms offset s = (Ok n, s1) \<Longrightarrow> offset < n"
  by (auto simp: map_range_turn_def bind_pg_def Let_def split: option.splits prod.splits outcome.splits)

function map_range_loop ::
  "virt_addr \<Rightarrow> phys_addr \<Rightarrow> nat \<Rightarrow> page_permissions \<Rightarrow> nat \<Rightarrow> builder \<times> paging \<Rightarrow> (page_table_error, unit) outcome \<times> builder \<times> paging" where
  "map_range_loop v p len perms offset s =
     (if len \<le> offset then (Ok (), s)
      else case map_range_turn v p len perms offset s of
        (Ok n, s1) \<Rightarrow> map_range_loop v p len perms n s1
      | (Err e, s1) \<Rightarrow> (Err e, s1) | (Panic, s1) \<Rightarrow> (Panic, s1))"
  by pat_completeness auto
termination
  by (relation "measure (\<lambda>(v, p, len, perms, offset, s). len - offset)") (auto dest!: map_range_turn_grows [OF sym] intro: diff_less_mono2)

declare map_range_loop.simps [simp del]

definition map_range ::
  "virt_addr \<Rightarrow> phys_addr \<Rightarrow> nat \<Rightarrow> page_permissions \<Rightarrow> builder \<times> paging \<Rightarrow> (page_table_error, unit) outcome \<times> builder \<times> paging" where
  "map_range v p len perms s =
     (if len mod 4096 \<noteq> 0 then (Err MisalignedRange, s) else map_range_loop v p len perms 0 s)"

text \<open>\<open>map_page\<close>: the virtual address is the physical one, which must be canonical.\<close>

definition builder_map_page ::
  "phys_addr \<Rightarrow> bool \<Rightarrow> page_permissions \<Rightarrow> builder \<times> paging \<Rightarrow> (page_table_error, unit) outcome \<times> builder \<times> paging" where
  "builder_map_page p huge perms s =
     (case virt_new (phys_raw p) of None \<Rightarrow> (Panic, s) | Some v \<Rightarrow> map_one v p huge perms s)"

definition clear_pml4_entry :: "phys_addr \<Rightarrow> nat \<Rightarrow> paging \<Rightarrow> paging" where
  "clear_pml4_entry root i w = write_entry root i 0 w"

definition restore_pml4_entry :: "phys_addr \<Rightarrow> nat \<Rightarrow> u64 \<Rightarrow> paging \<Rightarrow> paging" where
  "restore_pml4_entry root i saved w = write_entry root i saved w"

subsection \<open>Walking the tables\<close>

datatype page_size = Size4KiB | Size2MiB

record translation =
  tr_phys :: phys_addr
  tr_page_size :: page_size
  tr_entry :: u64

datatype translate_error = UnsupportedGiantPage

definition translated :: "phys_addr \<Rightarrow> u64 \<Rightarrow> page_size \<Rightarrow> u64 \<Rightarrow> ('e, translation option) outcome" where
  "translated base offset sz e =
     (case phys_checked_add base offset of
        None \<Rightarrow> Panic | Some p \<Rightarrow> Ok (Some \<lparr>tr_phys = p, tr_page_size = sz, tr_entry = e\<rparr>))"

definition translate :: "table_mem \<Rightarrow> phys_addr \<Rightarrow> virt_addr \<Rightarrow> (translate_error, translation option) outcome" where
  "translate m root v =
     (let pml4e = m root (top_index v) in
      if \<not> is_present pml4e then Ok None
      else let pdpte = m (table_address pml4e) (upper_index v) in
        if \<not> is_present pdpte then Ok None
        else if is_huge pdpte then Err UnsupportedGiantPage
        else let pde = m (table_address pdpte) (middle_index v) in
          if \<not> is_present pde then Ok None
          else if is_huge pde then translated (page_address_2m pde) (virt_raw v AND (PAGE_SIZE_2M - 1)) Size2MiB pde
          else let pte = m (table_address pde) (leaf_index v) in
            if \<not> is_present pte then Ok None
            else translated (page_address_4k pte) (page_offset v) Size4KiB pte)"

text \<open>The second walk (\<open>verify.rs\<close>), written on its own with its own constants.\<close>

record resolved =
  rs_phys :: phys_addr
  rs_huge :: bool
  rs_entry :: u64

datatype walk_error = WalkNotPresent | WalkGiantPage

definition resolved_at :: "u64 \<Rightarrow> bool \<Rightarrow> u64 \<Rightarrow> ('e, resolved) outcome" where
  "resolved_at raw huge e =
     (case phys_new raw of None \<Rightarrow> Panic | Some p \<Rightarrow> Ok \<lparr>rs_phys = p, rs_huge = huge, rs_entry = e\<rparr>)"

definition walk_page_table :: "table_mem \<Rightarrow> phys_addr \<Rightarrow> virt_addr \<Rightarrow> (walk_error, resolved) outcome" where
  "walk_page_table m root v =
     (let pml4e = m root (top_index v) in
      if pml4e AND 0x1 = 0 then Err WalkNotPresent
      else let pdpte = m (PhysAddr (pml4e AND 0x000FFFFFFFFFF000)) (upper_index v) in
        if pdpte AND 0x1 = 0 then Err WalkNotPresent
        else if pdpte AND 0x80 \<noteq> 0 then Err WalkGiantPage
        else let pde = m (PhysAddr (pdpte AND 0x000FFFFFFFFFF000)) (middle_index v) in
          if pde AND 0x1 = 0 then Err WalkNotPresent
          else if pde AND 0x80 \<noteq> 0 then resolved_at ((pde AND 0x000FFFFFFFE00000) + (virt_raw v AND 0x1FFFFF)) True pde
          else let pte = m (PhysAddr (pde AND 0x000FFFFFFFFFF000)) (leaf_index v) in
            if pte AND 0x1 = 0 then Err WalkNotPresent
            else resolved_at ((pte AND 0x000FFFFFFFFFF000) + (virt_raw v AND 0xFFF)) False pte)"

definition leaf_writable :: "resolved \<Rightarrow> bool" where
  "leaf_writable r \<longleftrightarrow> rs_entry r AND 0x2 \<noteq> 0"

definition leaf_executable :: "resolved \<Rightarrow> bool" where
  "leaf_executable r \<longleftrightarrow> rs_entry r AND 0x8000000000000000 = 0"

definition leaf_user_accessible :: "resolved \<Rightarrow> bool" where
  "leaf_user_accessible r \<longleftrightarrow> rs_entry r AND 0x4 \<noteq> 0"

datatype user_access = ReadAccess | WriteAccess
datatype user_access_error = UserNotPresent | SupervisorOnly | ReadOnlyPage | UserGiantPage | UserHugePage

definition level_allows :: "u64 \<Rightarrow> user_access \<Rightarrow> user_access_error + unit" where
  "level_allows e access =
     (if e AND 0x1 = 0 then Inl UserNotPresent
      else if e AND 0x4 = 0 then Inl SupervisorOnly
      else if access = WriteAccess \<and> e AND 0x2 = 0 then Inl ReadOnlyPage
      else Inr ())"

definition walk_page_table_user_accessible :: "table_mem \<Rightarrow> phys_addr \<Rightarrow> virt_addr \<Rightarrow> user_access \<Rightarrow> user_access_error + unit" where
  "walk_page_table_user_accessible m root v access =
     (let pml4e = m root (top_index v) in
      case level_allows pml4e access of Inl e \<Rightarrow> Inl e | Inr _ \<Rightarrow>
      let pdpte = m (PhysAddr (pml4e AND 0x000FFFFFFFFFF000)) (upper_index v) in
      case level_allows pdpte access of Inl e \<Rightarrow> Inl e | Inr _ \<Rightarrow>
      if pdpte AND 0x80 \<noteq> 0 then Inl UserGiantPage
      else let pde = m (PhysAddr (pdpte AND 0x000FFFFFFFFFF000)) (middle_index v) in
      case level_allows pde access of Inl e \<Rightarrow> Inl e | Inr _ \<Rightarrow>
      if pde AND 0x80 \<noteq> 0 then Inl UserHugePage
      else level_allows (m (PhysAddr (pde AND 0x000FFFFFFFFFF000)) (leaf_index v)) access)"

text \<open>The pages of a range that a user names, from \<open>page\<close> to the one of the last byte.\<close>

definition user_page_ok :: "table_mem \<Rightarrow> phys_addr \<Rightarrow> user_access \<Rightarrow> nat \<Rightarrow> bool" where
  "user_page_ok m root access page =
     (case virt_new (word_of_nat page) of
        None \<Rightarrow> False | Some v \<Rightarrow> (case walk_page_table_user_accessible m root v access of Inl _ \<Rightarrow> False | Inr _ \<Rightarrow> True))"

function user_pages_loop :: "table_mem \<Rightarrow> phys_addr \<Rightarrow> user_access \<Rightarrow> nat \<Rightarrow> nat \<Rightarrow> (unit, unit) outcome" where
  "user_pages_loop m root access page last_page =
     (if last_page < page then Ok ()
      else if \<not> user_page_ok m root access page then Err ()
      else if u64_limit \<le> page + 4096 then Panic
      else user_pages_loop m root access (page + 4096) last_page)"
  by pat_completeness auto
termination by (relation "measure (\<lambda>(m, root, access, page, last_page). Suc last_page - page)") auto

declare user_pages_loop.simps [simp del]

definition validated_range :: "table_mem \<Rightarrow> phys_addr \<Rightarrow> nat \<times> nat \<Rightarrow> nat \<Rightarrow> nat \<Rightarrow> user_access \<Rightarrow> (unit, unit) outcome" where
  "validated_range m root window buf len access =
     (if len = 0 then Ok ()
      else if u64_limit \<le> buf + len then Err ()
      else if buf < fst window \<or> snd window < buf + len then Err ()
      else user_pages_loop m root access (buf div 4096 * 4096) ((buf + len - 1) div 4096 * 4096))"

definition validate_user_range :: "table_mem \<Rightarrow> phys_addr \<Rightarrow> nat \<times> nat \<Rightarrow> nat \<Rightarrow> nat \<Rightarrow> (unit, unit) outcome" where
  "validate_user_range m root window buf len = validated_range m root window buf len ReadAccess"

definition validate_user_range_for_write :: "table_mem \<Rightarrow> phys_addr \<Rightarrow> nat \<times> nat \<Rightarrow> nat \<Rightarrow> nat \<Rightarrow> (unit, unit) outcome" where
  "validate_user_range_for_write m root window buf len = validated_range m root window buf len WriteAccess"

text \<open>The audit of the user bit over everything reachable, as a sum over the entries that are present.\<close>

record audit =
  user_entries :: nat
  user_violations :: nat
  kernel_entries :: nat
  kernel_violations :: nat

definition account :: "bool \<Rightarrow> u64 \<Rightarrow> audit \<Rightarrow> audit" where
  "account in_user e a =
     (if in_user then a\<lparr>user_entries := user_entries a + 1, user_violations := user_violations a + (if e AND 0x4 = 0 then 1 else 0)\<rparr>
      else a\<lparr>kernel_entries := kernel_entries a + 1, kernel_violations := kernel_violations a + (if e AND 0x4 \<noteq> 0 then 1 else 0)\<rparr>)"

definition each_entry :: "table_mem \<Rightarrow> phys_addr \<Rightarrow> (nat \<Rightarrow> u64 \<Rightarrow> audit \<Rightarrow> audit) \<Rightarrow> audit \<Rightarrow> audit" where
  "each_entry m t f a = fold (\<lambda>i a. let e = m t i in if e AND 0x1 = 0 then a else f i e a) [0 ..< 512] a"

definition audit_user_supervisor :: "table_mem \<Rightarrow> phys_addr \<Rightarrow> nat \<Rightarrow> audit" where
  "audit_user_supervisor m root user_index =
     each_entry m root (\<lambda>i pml4e a.
       let u = (i = user_index) in
       each_entry m (PhysAddr (pml4e AND 0x000FFFFFFFFFF000)) (\<lambda>_ pdpte a.
         let a = account u pdpte a in
         if pdpte AND 0x80 \<noteq> 0 then a
         else each_entry m (PhysAddr (pdpte AND 0x000FFFFFFFFFF000)) (\<lambda>_ pde a.
           let a = account u pde a in
           if pde AND 0x80 \<noteq> 0 then a
           else each_entry m (PhysAddr (pde AND 0x000FFFFFFFFFF000)) (\<lambda>_ pte a. account u pte a) a) a) (account u pml4e a))
       \<lparr>user_entries = 0, user_violations = 0, kernel_entries = 0, kernel_violations = 0\<rparr>"

subsection \<open>Changing the active tables\<close>

datatype map_update_error =
  NotMapped | NotSplittable | AlreadySmall | GlobalPagePresent | UpdateOutOfFrames | AlreadyMapped | WritableAndExecutable | KernelMappingFrozen

definition PML4_ENTRY_COUNT :: nat where "PML4_ENTRY_COUNT = 512"
definition KERNEL_PML4_FIRST_INDEX :: nat where "KERNEL_PML4_FIRST_INDEX = 256"

definition is_shared_kernel_index :: "nat \<Rightarrow> bool" where
  "is_shared_kernel_index i \<longleftrightarrow> KERNEL_PML4_FIRST_INDEX \<le> i \<and> i < PML4_ENTRY_COUNT"

definition kernel_top_write_is_refused :: "nat \<Rightarrow> bool \<Rightarrow> bool" where
  "kernel_top_write_is_refused i frozen \<longleftrightarrow> frozen \<and> is_shared_kernel_index i"

definition kernel_mapping_write_is_refused :: "nat \<Rightarrow> bool \<Rightarrow> bool \<Rightarrow> bool" where
  "kernel_mapping_write_is_refused i finished allowed_probe \<longleftrightarrow> finished \<and> is_shared_kernel_index i \<and> \<not> allowed_probe"

definition locate_pd :: "table_mem \<Rightarrow> phys_addr \<Rightarrow> virt_addr \<Rightarrow> (map_update_error, phys_addr \<times> nat) outcome" where
  "locate_pd m root v =
     (let pml4e = m root (top_index v) in
      if \<not> is_present pml4e then Err NotMapped
      else let pdpte = m (table_address pml4e) (upper_index v) in
        if \<not> is_present pdpte then Err NotMapped
        else if is_huge pdpte then Err NotSplittable
        else Ok (table_address pdpte, middle_index v))"

record split_outcome =
  so_huge_entry :: u64
  so_table :: phys_addr
  so_base :: virt_addr

definition fill_table :: "phys_addr \<Rightarrow> u64 list \<Rightarrow> paging \<Rightarrow> paging" where
  "fill_table t es w = fold (\<lambda>(i, e). write_entry t i e) (enumerate 0 es) w"

definition split_huge_page :: "bool \<Rightarrow> phys_addr \<Rightarrow> virt_addr \<Rightarrow> paging \<Rightarrow> (map_update_error, split_outcome) outcome \<times> paging" where
  "split_huge_page finished root v w =
     (if kernel_mapping_write_is_refused (top_index v) finished False then (Err KernelMappingFrozen, w)
      else case locate_pd (pg_mem w) root v of
        Err e \<Rightarrow> (Err e, w) | Panic \<Rightarrow> (Panic, w)
      | Ok (pd, i) \<Rightarrow>
          let pde = pg_mem w pd i in
          if \<not> is_present pde then (Err NotMapped, w)
          else if \<not> is_huge pde then (Err AlreadySmall, w)
          else if pde AND PTE_GLOBAL \<noteq> 0 then (Err GlobalPagePresent, w)
          else (case take_frame w of
                  (w1, None) \<Rightarrow> (Err UpdateOutOfFrames, w1)
                | (w1, Some t) \<Rightarrow>
                    let w2 = write_entry pd i (table_entry_for_split pde t) (fill_table t (split_children pde) (zero_table t w1)) in
                    (case virt_new (virt_raw v AND NOT (PAGE_SIZE_2M - 1)) of
                       None \<Rightarrow> (Panic, w2)
                     | Some base \<Rightarrow> (Ok \<lparr>so_huge_entry = pde, so_table = t, so_base = base\<rparr>, w2))))"

record unmapped_page =
  up_frame :: phys_addr
  up_entry :: u64

definition unmap_4kib :: "bool \<Rightarrow> phys_addr \<Rightarrow> virt_addr \<Rightarrow> paging \<Rightarrow> (map_update_error, unmapped_page) outcome \<times> paging" where
  "unmap_4kib finished root v w =
     (if kernel_mapping_write_is_refused (top_index v) finished False then (Err KernelMappingFrozen, w)
      else case locate_pd (pg_mem w) root v of
        Err e \<Rightarrow> (Err e, w) | Panic \<Rightarrow> (Panic, w)
      | Ok (pd, i) \<Rightarrow>
          let pde = pg_mem w pd i in
          if \<not> is_present pde then (Err NotMapped, w)
          else if is_huge pde then (Err AlreadySmall, w)
          else let pt = table_address pde; pte = pg_mem w pt (leaf_index v) in
            if \<not> is_present pte then (Err NotMapped, w)
            else (Ok \<lparr>up_frame = page_address_4k pte, up_entry = pte\<rparr>, write_entry pt (leaf_index v) 0 w))"

definition ensure_child ::
  "bool \<Rightarrow> phys_addr \<Rightarrow> page_permissions \<Rightarrow> phys_addr \<Rightarrow> nat \<Rightarrow> paging \<Rightarrow> (map_update_error, phys_addr) outcome \<times> paging" where
  "ensure_child finished root perms t i w =
     (let existing = pg_mem w t i in
      if is_present existing then (if is_huge existing then (Err NotSplittable, w) else (Ok (table_address existing), w))
      else if t = root \<and> kernel_top_write_is_refused i finished then (Panic, w)
      else case take_frame w of
        (w1, None) \<Rightarrow> (Err UpdateOutOfFrames, w1)
      | (w1, Some child) \<Rightarrow> (Ok child, write_entry t i (table_entry child perms) (zero_table child w1)))"

definition map_4kib ::
  "bool \<Rightarrow> phys_addr \<Rightarrow> virt_addr \<Rightarrow> phys_addr \<Rightarrow> page_permissions \<Rightarrow> paging \<Rightarrow> (map_update_error, unit) outcome \<times> paging" where
  "map_4kib finished root v p perms w =
     (if kernel_mapping_write_is_refused (top_index v) finished False then (Err KernelMappingFrozen, w)
      else if perm_user perms \<and> writable_and_executable perms then (Err WritableAndExecutable, w)
      else
        bind_pg (ensure_child finished root perms root (top_index v) w) (\<lambda>pdpt w1.
        bind_pg (ensure_child finished root perms pdpt (upper_index v) w1) (\<lambda>pd w2.
        bind_pg (ensure_child finished root perms pd (middle_index v) w2) (\<lambda>pt w3.
          if is_present (pg_mem w3 pt (leaf_index v)) then (Err AlreadyMapped, w3)
          else (Ok (), write_entry pt (leaf_index v) (leaf_entry p perms SmallLeaf) w3)))))"

subsection \<open>The address space of a process\<close>

datatype address_space_error =
  SpaceOutOfFrames | Unreachable | NotPrivate | UnexpectedHugePage | SpaceAlreadyMapped | KernelTopChanged | NotForUser | SpaceWritableAndExecutable

record address_space =
  as_pml4 :: phys_addr
  as_user_index :: nat
  as_frames_taken :: nat

definition le_bytes_u64 :: "u64 \<Rightarrow> u64 list" where
  "le_bytes_u64 x = map (\<lambda>k. take_bit 8 (drop_bit (8 * k) x)) [0 ..< 8]"

definition kernel_top_digest :: "(nat \<times> u64) list \<Rightarrow> u64" where
  "kernel_top_digest es =
     fold (\<lambda>(i, value) hash.
         fold (\<lambda>byte hash. (hash XOR byte) * 0x00000100000001b3)
           (le_bytes_u64 (word_of_nat i) @ le_bytes_u64 (value AND NOT (PTE_ACCESSED OR PTE_DIRTY))) hash)
       es 0xcbf29ce484222325 OR 1"

definition kernel_top :: "table_mem \<Rightarrow> phys_addr \<Rightarrow> (nat \<times> u64) list" where
  "kernel_top m root = map (\<lambda>i. (i, m root i)) [KERNEL_PML4_FIRST_INDEX ..< PML4_ENTRY_COUNT]"

text \<open>\<open>freeze_kernel_top\<close>: the digest that is kept, with the number of entries present.\<close>

definition freeze_kernel_top :: "direct_map \<Rightarrow> table_mem \<Rightarrow> phys_addr \<Rightarrow> (u64 \<times> nat) option" where
  "freeze_kernel_top dm m root =
     (if \<not> covers dm root then None
      else Some (kernel_top_digest (kernel_top m root), length (filter (\<lambda>(i, e). is_present e) (kernel_top m root))))"

definition discard :: "phys_addr \<Rightarrow> 'e \<Rightarrow> paging \<Rightarrow> ('e, 'a) outcome \<times> paging" where
  "discard p e w = (case put_frame p w of Some w1 \<Rightarrow> (Err e, w1) | None \<Rightarrow> (Panic, w))"

definition copy_kernel_top :: "phys_addr \<Rightarrow> phys_addr \<Rightarrow> paging \<Rightarrow> paging" where
  "copy_kernel_top new current w =
     fold (\<lambda>i w. write_entry new i (if is_shared_kernel_index i then pg_mem w current i else 0) w) [0 ..< PML4_ENTRY_COUNT] w"

text \<open>\<open>frozen\<close> is the kept digest, 0 before the end of the boot.\<close>

definition address_space_new ::
  "u64 \<Rightarrow> direct_map \<Rightarrow> phys_addr \<Rightarrow> nat \<Rightarrow> paging \<Rightarrow> (address_space_error, address_space) outcome \<times> paging" where
  "address_space_new frozen dm current user_index w =
     (if is_shared_kernel_index user_index then (Err NotPrivate, w)
      else case take_frame w of
        (w1, None) \<Rightarrow> (Err SpaceOutOfFrames, w1)
      | (w1, Some pml4) \<Rightarrow>
          if \<not> covers dm pml4 \<or> \<not> covers dm current then discard pml4 Unreachable w1
          else let w2 = copy_kernel_top pml4 current w1 in
            if frozen \<noteq> 0 \<and> kernel_top_digest (kernel_top (pg_mem w2) pml4) \<noteq> frozen then discard pml4 KernelTopChanged w2
            else (Ok \<lparr>as_pml4 = pml4, as_user_index = user_index, as_frames_taken = 1\<rparr>, w2))"

text \<open>The descent of \<open>map_user_4kib\<close> through the three upper levels.\<close>

fun user_descend ::
  "direct_map \<Rightarrow> page_permissions \<Rightarrow> nat list \<Rightarrow> phys_addr \<Rightarrow> address_space \<times> paging \<Rightarrow>
     (address_space_error, phys_addr) outcome \<times> address_space \<times> paging" where
  "user_descend dm perms [] t s = (Ok t, s)"
| "user_descend dm perms (i # is) t (a, w) =
     (let existing = pg_mem w t i in
      if is_present existing then
        (if is_huge existing then (Err UnexpectedHugePage, a, w)
         else user_descend dm perms is (table_address existing) (a, w))
      else case take_frame w of
        (w1, None) \<Rightarrow> (Err SpaceOutOfFrames, a, w1)
      | (w1, Some fresh) \<Rightarrow>
          if \<not> covers dm fresh then (case discard fresh Unreachable w1 of (r, w2) \<Rightarrow> (r, a, w2))
          else user_descend dm perms is fresh
                 (a\<lparr>as_frames_taken := as_frames_taken a + 1\<rparr>, write_entry t i (table_entry fresh perms) (zero_table fresh w1)))"

definition map_user_4kib ::
  "direct_map \<Rightarrow> virt_addr \<Rightarrow> phys_addr \<Rightarrow> page_permissions \<Rightarrow> address_space \<times> paging \<Rightarrow>
     (address_space_error, unit) outcome \<times> address_space \<times> paging" where
  "map_user_4kib dm v frame perms = (\<lambda>(a, w).
     if top_index v \<noteq> as_user_index a then (Err NotPrivate, a, w)
     else if \<not> perm_user perms then (Err NotForUser, a, w)
     else if writable_and_executable perms then (Err SpaceWritableAndExecutable, a, w)
     else if \<not> covers dm frame then (Err Unreachable, a, w)
     else bind_pg (user_descend dm perms [top_index v, upper_index v, middle_index v] (as_pml4 a) (a, w)) (\<lambda>pt (a1, w1).
       if is_present (pg_mem w1 pt (leaf_index v)) then (Err SpaceAlreadyMapped, a1, w1)
       else (Ok (), a1\<lparr>as_frames_taken := as_frames_taken a1 + 1\<rparr>,
             write_entry pt (leaf_index v) (leaf_entry frame perms SmallLeaf) w1)))"

text \<open>\<open>detach\<close>: the frames in the order in which they are collected; what the caller's array of \<open>capacity\<close>
  slots cannot take is counted as leaked.\<close>

definition pt_frames :: "table_mem \<Rightarrow> phys_addr \<Rightarrow> phys_addr list" where
  "pt_frames m pt =
     map (\<lambda>i. page_address_4k (m pt i)) (filter (\<lambda>i. is_present (m pt i) \<and> \<not> is_shared (m pt i)) [0 ..< ENTRIES_PER_TABLE])"

definition pd_frames :: "table_mem \<Rightarrow> phys_addr \<Rightarrow> phys_addr list" where
  "pd_frames m pd =
     concat (map (\<lambda>i. let pt = table_address (m pd i) in pt_frames m pt @ [pt])
       (filter (\<lambda>i. is_present (m pd i) \<and> \<not> is_huge (m pd i)) [0 ..< ENTRIES_PER_TABLE]))"

definition pdpt_frames :: "table_mem \<Rightarrow> phys_addr \<Rightarrow> phys_addr list" where
  "pdpt_frames m pdpt =
     concat (map (\<lambda>i. let pd = table_address (m pdpt i) in pd_frames m pd @ [pd])
       (filter (\<lambda>i. is_present (m pdpt i) \<and> \<not> is_huge (m pdpt i)) [0 ..< ENTRIES_PER_TABLE]))"

fun detach_loop :: "phys_addr \<Rightarrow> nat list \<Rightarrow> paging \<Rightarrow> phys_addr list \<times> paging" where
  "detach_loop pml4 [] w = ([], w)"
| "detach_loop pml4 (i # is) w =
     (let e = pg_mem w pml4 i in
      if \<not> is_present e then detach_loop pml4 is w
      else case detach_loop pml4 is (write_entry pml4 i 0 w) of
        (fs, w1) \<Rightarrow> (pdpt_frames (pg_mem w) (table_address e) @ [table_address e] @ fs, w1))"

definition detach :: "address_space \<Rightarrow> nat \<Rightarrow> paging \<Rightarrow> (phys_addr list \<times> nat) \<times> paging" where
  "detach a capacity w =
     (case detach_loop (as_pml4 a) [0 ..< KERNEL_PML4_FIRST_INDEX] w of
        (fs, w1) \<Rightarrow> let all = fs @ [as_pml4 a] in ((take capacity all, length all - capacity), w1))"

end
