(* ===== verification/Page_Walk.thy ===== *)
theory Page_Walk
  imports Page_Table
begin

unbundle bit_operations_syntax

text \<open>
  The walks over the page tables agree with each other, never panic, and what the check of a user's
  pointers accepts is memory that the user's own accesses could reach.
\<close>

subsection \<open>Addresses as bases and offsets\<close>

lemma word_bits_bound:
  fixes x :: u64
  assumes "\<And>n. bit x n \<Longrightarrow> n < k"
  shows "unat x < 2 ^ k"
proof -
  have "take_bit k x = x" by (rule bit_word_eqI) (use assms in \<open>auto simp: bit_take_bit_iff\<close>)
  then have "unat x = unat x mod 2 ^ k" by (metis take_bit_eq_mask unat_and_mask)
  then show ?thesis by (metis mod_less_divisor zero_less_numeral zero_less_power)
qed

lemma disjoint_plus:
  fixes a b :: u64
  assumes "\<And>n. \<not> (bit a n \<and> bit b n)"
  shows "a + b = a OR b" "unat (a + b) = unat a + unat b"
proof -
  show p: "a + b = a OR b" using assms by (intro disjunctive_add) blast
  have "unat (a OR b) = (unat a OR unat b)" by (simp add: unsigned_or_eq)
  also have "\<dots> = unat a + unat b" by (rule disjunctive_add [symmetric]) (use assms in \<open>auto simp: bit_unsigned_iff\<close>)
  finally show "unat (a + b) = unat a + unat b" using p by simp
qed

lemma offset_bits: "bit (page_offset v) n \<longleftrightarrow> bit (virt_raw v) n \<and> n < 12"
  "bit (virt_raw v AND (PAGE_SIZE_2M - 1)) n \<longleftrightarrow> bit (virt_raw v) n \<and> n < 21"
proof -
  have m: "PAGE_SIZE_2M - 1 = mask 21" by (simp add: PAGE_SIZE_2M_def mask_eq_exp_minus_1)
  show "bit (page_offset v) n \<longleftrightarrow> bit (virt_raw v) n \<and> n < 12" unfolding page_offset_def index_mask(2)
    by (auto simp: bit_and_iff bit_mask_iff dest: bit_imp_le_length)
  show "bit (virt_raw v AND (PAGE_SIZE_2M - 1)) n \<longleftrightarrow> bit (virt_raw v) n \<and> n < 21" unfolding m
    by (auto simp: bit_and_iff bit_mask_iff dest: bit_imp_le_length)
qed

lemma checked_add_disjoint:
  assumes "\<And>n. bit (phys_raw b) n \<Longrightarrow> n < 52" "\<And>n. bit off n \<Longrightarrow> n < 52" "\<And>n. \<not> (bit (phys_raw b) n \<and> bit off n)"
  shows "phys_checked_add b off = Some (PhysAddr (phys_raw b + off))" "phys_new (phys_raw b + off) = Some (PhysAddr (phys_raw b + off))"
proof -
  have "bit (phys_raw b + off) n \<Longrightarrow> n < 52" for n
    using assms unfolding disjoint_plus(1) [OF assms(3)] by (auto simp: bit_or_iff)
  then have l: "unat (phys_raw b + off) < 2 ^ 52" by (rule word_bits_bound)
  then show n: "phys_new (phys_raw b + off) = Some (PhysAddr (phys_raw b + off))" by (simp add: phys_new_Some)
  have "unat (phys_raw b) + unat off < u64_limit" using l disjoint_plus(2) [OF assms(3)] by simp
  then show "phys_checked_add b off = Some (PhysAddr (phys_raw b + off))" using n
    by (simp add: phys_checked_add_def checked_add_def)
qed

lemma page_address_bits:
  "bit (phys_raw (page_address_4k e)) n \<longleftrightarrow> bit e n \<and> 12 \<le> n \<and> n < 52" "bit (phys_raw (page_address_2m e)) n \<longleftrightarrow> bit e n \<and> 21 \<le> n \<and> n < 52"
  by (simp_all add: page_address_4k_def page_address_2m_def bit_and_iff mask_bits)

text \<open>Neither way to add an offset to the base of a page can leave the physical address space.\<close>

lemma translated_small:
  "translated (page_address_4k e) (page_offset v) sz f = Ok (Some \<lparr>tr_phys = PhysAddr (phys_raw (page_address_4k e) + page_offset v), tr_page_size = sz, tr_entry = f\<rparr>)"
  "phys_new (phys_raw (page_address_4k e) + page_offset v) = Some (PhysAddr (phys_raw (page_address_4k e) + page_offset v))"
  using checked_add_disjoint [of "page_address_4k e" "page_offset v"] by (auto simp: translated_def page_address_bits offset_bits)

lemma translated_large:
  "translated (page_address_2m e) (virt_raw v AND (PAGE_SIZE_2M - 1)) sz f =
     Ok (Some \<lparr>tr_phys = PhysAddr (phys_raw (page_address_2m e) + (virt_raw v AND (PAGE_SIZE_2M - 1))), tr_page_size = sz, tr_entry = f\<rparr>)"
  "phys_new (phys_raw (page_address_2m e) + (virt_raw v AND (PAGE_SIZE_2M - 1))) =
     Some (PhysAddr (phys_raw (page_address_2m e) + (virt_raw v AND (PAGE_SIZE_2M - 1))))"
  using checked_add_disjoint [of "page_address_2m e" "virt_raw v AND (PAGE_SIZE_2M - 1)"]
  by (auto simp: translated_def page_address_bits offset_bits)

subsection \<open>The two walks agree\<close>

lemma walk_constants:
  "e AND 0x1 = 0 \<longleftrightarrow> \<not> is_present e" "e AND 0x80 \<noteq> 0 \<longleftrightarrow> is_huge e" "PhysAddr (e AND 0x000FFFFFFFFFF000) = table_address e"
  "e AND 0x000FFFFFFFE00000 = phys_raw (page_address_2m e)" "e AND 0x000FFFFFFFFFF000 = phys_raw (page_address_4k e)"
  "virt_raw v AND 0x1FFFFF = virt_raw v AND (PAGE_SIZE_2M - 1)" "virt_raw v AND 0xFFF = page_offset v"
  by (simp_all add: is_present_def is_huge_def PTE_PRESENT_def PDE_PAGE_SIZE_def table_address_def page_address_2m_def page_address_4k_def
      ADDR_MASK_TABLE_def ADDR_MASK_4K_def ADDR_MASK_2M_def PAGE_SIZE_2M_def page_offset_def)

lemma page_address_is_table_address: "page_address_4k e = table_address e"
  by (simp add: page_address_4k_def table_address_def ADDR_MASK_TABLE_def)

fun as_resolved :: "(translate_error, translation option) outcome \<Rightarrow> (walk_error, resolved) outcome" where
  "as_resolved (Ok None) = Err WalkNotPresent"
| "as_resolved (Ok (Some t)) = Ok \<lparr>rs_phys = tr_phys t, rs_huge = (tr_page_size t = Size2MiB), rs_entry = tr_entry t\<rparr>"
| "as_resolved (Err UnsupportedGiantPage) = Err WalkGiantPage"
| "as_resolved Panic = Panic"

text \<open>C16: the walk of the active tables and the independent walk that checks them give the same answer for
  every address and every contents of memory, and neither panics.\<close>

theorem independent_walks_agree:
  "walk_page_table m root v = as_resolved (translate m root v) \<and> translate m root v \<noteq> Panic"
  unfolding walk_page_table_def translate_def walk_constants Let_def
  by (simp add: translated_small [unfolded page_address_is_table_address] translated_large resolved_at_def page_address_is_table_address)

subsection \<open>User pointers\<close>

text \<open>What the processor does with an address, after its manual and not after the code: from the root down one table for
  every nine bits of the address, through entries whose lowest bit is set, to a table of the last level or to an entry
  above it whose bit 7 says that it maps a large page. The walk gives the entries it uses. An access is allowed when
  every one of them allows it; execution is forbidden when one of them forbids it.\<close>

definition cpu_index :: "nat \<Rightarrow> virt_addr \<Rightarrow> nat" where
  "cpu_index level v = unat (virt_raw v) div 2 ^ (3 + 9 * level) mod 512"

definition cpu_table :: "u64 \<Rightarrow> phys_addr" where
  "cpu_table e = PhysAddr (push_bit 12 (take_bit 40 (drop_bit 12 e)))"

fun cpu_walk :: "table_mem \<Rightarrow> nat \<Rightarrow> phys_addr \<Rightarrow> virt_addr \<Rightarrow> u64 list option" where
  "cpu_walk m 0 t v = None"
| "cpu_walk m (Suc level) t v =
     (let e = m t (cpu_index (Suc level) v) in
      if \<not> bit e 0 then None
      else if level = 0 \<or> level < 3 \<and> bit e 7 then Some [e]
      else map_option (Cons e) (cpu_walk m level (cpu_table e) v))"

definition cpu_rights :: "table_mem \<Rightarrow> phys_addr \<Rightarrow> virt_addr \<Rightarrow> (bool \<times> bool \<times> bool) option" where
  "cpu_rights m root v = map_option (\<lambda>es. (list_all (\<lambda>e. bit e 1) es, list_all (\<lambda>e. bit e 2) es, list_all (\<lambda>e. \<not> bit e 63) es)) (cpu_walk m 4 root v)"

text \<open>The address lies on a page of 4 KiB that a user program may read, or write.\<close>

definition user_may :: "table_mem \<Rightarrow> phys_addr \<Rightarrow> user_access \<Rightarrow> virt_addr \<Rightarrow> bool" where
  "user_may m root access v \<longleftrightarrow>
     (case cpu_walk m 4 root v of
        None \<Rightarrow> False
      | Some es \<Rightarrow> length es = 4 \<and> list_all (\<lambda>e. bit e 2 \<and> (access = WriteAccess \<longrightarrow> bit e 1)) es)"

lemma cpu_index_eq:
  "cpu_index 4 v = top_index v" "cpu_index 3 v = upper_index v" "cpu_index 2 v = middle_index v" "cpu_index (Suc 0) v = leaf_index v"
proof -
  have "unat (drop_bit s x AND 0x1FF) = unat x div 2 ^ s mod 512" for s and x :: u64
    unfolding index_mask unat_and_mask unat_drop_bit_eq by (simp add: drop_bit_eq_div)
  then show "cpu_index 4 v = top_index v" "cpu_index 3 v = upper_index v" "cpu_index 2 v = middle_index v" "cpu_index (Suc 0) v = leaf_index v"
    by (simp_all add: cpu_index_def top_index_def upper_index_def middle_index_def leaf_index_def)
qed

lemma cpu_table_eq: "cpu_table e = table_address e"
proof -
  have "push_bit 12 (take_bit 40 (drop_bit 12 e)) = e AND ADDR_MASK_4K"
    by (rule bit_word_eqI) (auto simp: bit_push_bit_iff bit_take_bit_iff bit_drop_bit_eq bit_and_iff mask_bits)
  then show ?thesis by (simp add: cpu_table_def table_address_def ADDR_MASK_TABLE_def)
qed

text \<open>The entries of the walk, spelled out.\<close>

lemma cpu_walk_levels:
  "cpu_walk m 4 root v =
     (let e1 = m root (top_index v); e2 = m (table_address e1) (upper_index v); e3 = m (table_address e2) (middle_index v);
          e4 = m (table_address e3) (leaf_index v)
      in if \<not> is_present e1 \<or> \<not> is_present e2 then None else if is_huge e2 then Some [e1, e2]
         else if \<not> is_present e3 then None else if is_huge e3 then Some [e1, e2, e3]
         else if \<not> is_present e4 then None else Some [e1, e2, e3, e4])"
proof -
  have n: "(4::nat) = Suc 3" "(3::nat) = Suc 2" "(2::nat) = Suc (Suc 0)" by simp_all
  have w: "cpu_walk m 4 root v = (let e = m root (cpu_index 4 v) in if \<not> bit e 0 then None else map_option (Cons e) (cpu_walk m 3 (cpu_table e) v))"
    "cpu_walk m 3 t v = (let e = m t (cpu_index 3 v) in if \<not> bit e 0 then None else if bit e 7 then Some [e] else map_option (Cons e) (cpu_walk m 2 (cpu_table e) v))"
    "cpu_walk m 2 t v = (let e = m t (cpu_index 2 v) in if \<not> bit e 0 then None else if bit e 7 then Some [e] else map_option (Cons e) (cpu_walk m (Suc 0) (cpu_table e) v))"
    "cpu_walk m (Suc 0) t v = (let e = m t (cpu_index (Suc 0) v) in if \<not> bit e 0 then None else Some [e])" for t
    using cpu_walk.simps(2) [of m 3 root v] cpu_walk.simps(2) [of m 2 t v] cpu_walk.simps(2) [of m "Suc 0" t v] by (simp_all add: Let_def flip: n)
  show ?thesis unfolding w cpu_index_eq cpu_table_eq Let_def by (simp add: entry_tests)
qed

lemma level_allows_iff:
  "level_allows e access = Inr () \<longleftrightarrow> is_present e \<and> bit e 2 \<and> (access = WriteAccess \<longrightarrow> bit e 1)"
proof -
  have "e AND 0x4 = 0 \<longleftrightarrow> \<not> bit e 2" "e AND 0x2 = 0 \<longleftrightarrow> \<not> bit e 1"
    using entry_tests(4,5) [of e] by (auto simp: PTE_USER_def PTE_WRITABLE_def)
  then show ?thesis unfolding level_allows_def walk_constants by auto
qed

lemma user_may_iff:
  "user_may m root access v \<longleftrightarrow>
     (let e1 = m root (top_index v); e2 = m (table_address e1) (upper_index v); e3 = m (table_address e2) (middle_index v);
          e4 = m (table_address e3) (leaf_index v)
      in (\<forall>e \<in> {e1, e2, e3, e4}. level_allows e access = Inr ()) \<and> \<not> is_huge e2 \<and> \<not> is_huge e3)"
  unfolding user_may_def cpu_walk_levels Let_def by (auto simp: level_allows_iff)

lemma user_may_walk: "user_may m root access v \<longleftrightarrow> walk_page_table_user_accessible m root v access = Inr ()"
proof -
  have s: "(case x of Inl e \<Rightarrow> Inl e | Inr u \<Rightarrow> f) = Inr () \<longleftrightarrow> x = Inr () \<and> f = Inr ()" for x :: "user_access_error + unit" and f
    by (cases x) auto
  show ?thesis
    unfolding user_may_iff walk_page_table_user_accessible_def walk_constants(1-3) Let_def s by (auto simp: s split: if_splits)
qed

lemma user_may_translates:
  assumes "user_may m root access v"
  shows "\<exists>t. translate m root v = Ok (Some t) \<and> tr_page_size t = Size4KiB \<and> level_allows (tr_entry t) access = Inr ()"
  using assms unfolding user_may_iff Let_def
  by (auto simp: translate_def Let_def level_allows_iff translated_small(1))

lemma user_may_same_page:
  assumes "virt_raw v AND NOT 0xFFF = virt_raw u AND NOT 0xFFF"
  shows "user_may m root access v = user_may m root access u"
proof -
  have b: "bit (virt_raw v) n = bit (virt_raw u) n" if "12 \<le> n" for n
  proof -
    have "bit (virt_raw v AND NOT (mask 12)) n = bit (virt_raw u AND NOT (mask 12)) n" using assms by (simp add: index_mask)
    then show ?thesis using that by (cases "n < 64") (auto simp: bit_and_iff bit_not_iff bit_mask_iff dest: bit_imp_le_length)
  qed
  have i: "drop_bit s (virt_raw v) = drop_bit s (virt_raw u)" if "12 \<le> s" for s
    by (rule bit_word_eqI) (use b that in \<open>auto simp: bit_drop_bit_eq\<close>)
  show ?thesis unfolding user_may_iff top_index_def upper_index_def middle_index_def leaf_index_def
    using i [of 39] i [of 30] i [of 21] i [of 12] by simp
qed

definition byte_ok :: "table_mem \<Rightarrow> phys_addr \<Rightarrow> user_access \<Rightarrow> nat \<Rightarrow> bool" where
  "byte_ok m root access a \<longleftrightarrow> (\<exists>v. virt_new (word_of_nat a) = Some v \<and> user_may m root access v)"

lemma user_page_ok_iff: "user_page_ok m root access page \<longleftrightarrow> byte_ok m root access page"
  by (auto simp: user_page_ok_def byte_ok_def user_may_walk split: option.splits sum.splits)

lemma page_base_word:
  assumes "a < u64_limit"
  shows "(word_of_nat (a div 4096 * 4096) :: u64) = word_of_nat a AND NOT 0xFFF"
proof (rule bit_word_eqI)
  fix n assume n: "n < LENGTH(64)"
  have "a div 4096 * 4096 = push_bit 12 (drop_bit 12 a)" by (simp add: push_bit_eq_mult drop_bit_eq_div)
  then have "bit (word_of_nat (a div 4096 * 4096) :: u64) n \<longleftrightarrow> 12 \<le> n \<and> bit a n"
    using n by (auto simp: bit_of_nat_iff bit_push_bit_iff bit_drop_bit_eq)
  then show "bit (word_of_nat (a div 4096 * 4096) :: u64) n = bit (word_of_nat a AND NOT 0xFFF :: u64) n"
    using n by (auto simp: index_mask bit_and_iff bit_not_iff bit_mask_iff bit_of_nat_iff)
qed

lemma canonical_same_page: "is_canonical (x AND NOT 0xFFF) = is_canonical x"
proof -
  have "bit (x AND NOT 0xFFF) n = bit x n" if "12 \<le> n" "n < 64" for n
    using that by (simp add: index_mask bit_and_iff bit_not_iff bit_mask_iff)
  moreover have "is_canonical y \<longleftrightarrow> (\<forall>n. 47 \<le> n \<and> n < 64 \<longrightarrow> bit y n = bit y 47)" for y
    unfolding is_canonical_bits by (metis le_cases min.absorb1 min.absorb2)
  ultimately show ?thesis by simp
qed

lemma byte_ok_page:
  assumes "a < u64_limit"
  shows "byte_ok m root access (a div 4096 * 4096) = byte_ok m root access a"
proof -
  let ?x = "word_of_nat a :: u64"
  have "user_may m root access (VirtAddr (?x AND NOT 0xFFF)) = user_may m root access (VirtAddr ?x)"
    by (rule user_may_same_page) (simp add: and.assoc)
  then show ?thesis unfolding byte_ok_def page_base_word [OF assms] virt_new_def canonical_same_page by (simp split: if_splits)
qed

lemma user_pages_loop_iff:
  "last_page + 4096 < u64_limit \<Longrightarrow> user_pages_loop m root access page last_page =
     (if \<forall>k. page + 4096 * k \<le> last_page \<longrightarrow> byte_ok m root access (page + 4096 * k) then Ok () else Err ())"
proof (induction m root access page last_page rule: user_pages_loop.induct)
  case (1 m root access page last_page)
  have step: "(\<forall>k. page + 4096 * k \<le> last_page \<longrightarrow> byte_ok m root access (page + 4096 * k)) \<longleftrightarrow>
      byte_ok m root access page \<and> (\<forall>k. page + 4096 + 4096 * k \<le> last_page \<longrightarrow> byte_ok m root access (page + 4096 + 4096 * k))"
    if "page \<le> last_page"
  proof
    assume a: "\<forall>k. page + 4096 * k \<le> last_page \<longrightarrow> byte_ok m root access (page + 4096 * k)"
    show "byte_ok m root access page \<and> (\<forall>k. page + 4096 + 4096 * k \<le> last_page \<longrightarrow> byte_ok m root access (page + 4096 + 4096 * k))"
      using a [rule_format, of 0] a [rule_format, of "Suc k" for k] that by (auto simp: algebra_simps)
  next
    assume a: "byte_ok m root access page \<and> (\<forall>k. page + 4096 + 4096 * k \<le> last_page \<longrightarrow> byte_ok m root access (page + 4096 + 4096 * k))"
    show "\<forall>k. page + 4096 * k \<le> last_page \<longrightarrow> byte_ok m root access (page + 4096 * k)"
    proof (intro allI impI)
      fix k assume "page + 4096 * k \<le> last_page"
      then show "byte_ok m root access (page + 4096 * k)" using a by (cases k) (auto simp: algebra_simps)
    qed
  qed
  show ?case
  proof (cases "page \<le> last_page \<and> byte_ok m root access page")
    case True
    then show ?thesis using 1 step by (subst user_pages_loop.simps) (auto simp: user_page_ok_iff)
  next
    case False
    then show ?thesis using step by (subst user_pages_loop.simps) (auto simp: user_page_ok_iff)
  qed
qed

lemma pages_of_bytes:
  fixes buf len :: nat
  assumes "0 < len"
  shows "(\<forall>k. buf div 4096 * 4096 + 4096 * k \<le> (buf + len - 1) div 4096 * 4096 \<longrightarrow> P (buf div 4096 * 4096 + 4096 * k)) \<longleftrightarrow>
    (\<forall>a. buf \<le> a \<and> a < buf + len \<longrightarrow> P (a div 4096 * 4096))"
proof
  assume p: "\<forall>k. buf div 4096 * 4096 + 4096 * k \<le> (buf + len - 1) div 4096 * 4096 \<longrightarrow> P (buf div 4096 * 4096 + 4096 * k)"
  show "\<forall>a. buf \<le> a \<and> a < buf + len \<longrightarrow> P (a div 4096 * 4096)"
  proof (intro allI impI)
    fix a assume a: "buf \<le> a \<and> a < buf + len"
    define k where "k = a div 4096 - buf div 4096"
    have "buf div 4096 \<le> a div 4096" "a div 4096 \<le> (buf + len - 1) div 4096" using a by (auto intro: div_le_mono)
    then have "buf div 4096 * 4096 + 4096 * k = a div 4096 * 4096" "a div 4096 * 4096 \<le> (buf + len - 1) div 4096 * 4096"
      by (auto simp: k_def algebra_simps)
    then show "P (a div 4096 * 4096)" using p [rule_format, of k] by simp
  qed
next
  assume b: "\<forall>a. buf \<le> a \<and> a < buf + len \<longrightarrow> P (a div 4096 * 4096)"
  show "\<forall>k. buf div 4096 * 4096 + 4096 * k \<le> (buf + len - 1) div 4096 * 4096 \<longrightarrow> P (buf div 4096 * 4096 + 4096 * k)"
  proof (intro allI impI)
    fix k assume k: "buf div 4096 * 4096 + 4096 * k \<le> (buf + len - 1) div 4096 * 4096"
    define a where "a = max buf ((buf div 4096 + k) * 4096)"
    have "(buf div 4096 + k) * 4096 \<le> buf + len - 1" using k div_times_less_eq_dividend [of "buf + len - 1" 4096] by (simp add: algebra_simps)
    then have "buf \<le> a" "a < buf + len" using assms by (auto simp: a_def)
    moreover have "a div 4096 = buf div 4096 + k"
    proof (cases "k = 0")
      case True
      then show ?thesis by (simp add: a_def max_def)
    next
      case False
      have "buf < (buf div 4096 + 1) * 4096" by (metis dividend_less_div_times less_numeral_extra(3) mult.commute Suc_eq_plus1 mult_Suc_right add.commute zero_less_numeral)
      also have "\<dots> \<le> (buf div 4096 + k) * 4096" using False by simp
      finally show ?thesis by (simp add: a_def max_def)
    qed
    ultimately show "P (buf div 4096 * 4096 + 4096 * k)" using b [rule_format, of a] by (simp add: algebra_simps)
  qed
qed

text \<open>C15: with a window that ends below the last page of the address space, the check of a user's range
  never panics and accepts exactly the empty ranges and the ranges inside the window whose bytes each lie on a 4 KiB
  page that the processor lets a user program read, and write where the kernel will write. A range that
  touches a larger page is refused, whatever its rights.\<close>

theorem user_range_check_is_exact:
  assumes "snd window + 4096 < u64_limit"
  shows "validated_range m root window buf len access =
    (if len = 0 \<or> fst window \<le> buf \<and> buf + len \<le> snd window \<and>
        (\<forall>a. buf \<le> a \<and> a < buf + len \<longrightarrow> (\<exists>v. virt_new (word_of_nat a) = Some v \<and> user_may m root access v))
     then Ok () else Err ())"
proof (cases "len = 0 \<or> \<not> (fst window \<le> buf \<and> buf + len \<le> snd window)")
  case True
  then show ?thesis using assms by (auto simp: validated_range_def)
next
  case False
  then have l: "0 < len" "fst window \<le> buf" "buf + len \<le> snd window" by auto
  have last: "(buf + len - 1) div 4096 * 4096 + 4096 < u64_limit"
    using l assms div_times_less_eq_dividend [of "buf + len - 1" 4096] by linarith
  have "byte_ok m root access (a div 4096 * 4096) = byte_ok m root access a" if "a < buf + len" for a
    by (rule byte_ok_page) (use that l assms in linarith)
  then have "(\<forall>a. buf \<le> a \<and> a < buf + len \<longrightarrow> byte_ok m root access (a div 4096 * 4096)) \<longleftrightarrow>
      (\<forall>a. buf \<le> a \<and> a < buf + len \<longrightarrow> byte_ok m root access a)" by auto
  then show ?thesis
    using l assms unfolding validated_range_def user_pages_loop_iff [OF last] pages_of_bytes [OF l(1)]
    by (simp add: byte_ok_def)
qed

definition sample_user_tables :: table_mem where
  "sample_user_tables t i =
     (if t = PhysAddr 0x1000 \<and> i = 0 then 0x2007 else if t = PhysAddr 0x2000 \<and> i = 0 then 0x3007
      else if t = PhysAddr 0x3000 \<and> i = 2 then 0x4007 else if t = PhysAddr 0x4000 \<and> i = 0 then 0x5007 else 0)"

theorem user_range_check_is_exact_witness:
  "snd (0x400000 :: nat, 0x500000) + 4096 < u64_limit \<and>
   validated_range sample_user_tables (PhysAddr 0x1000) (0x400000, 0x500000) 0x400010 32 WriteAccess = Ok () \<and>
   validated_range sample_user_tables (PhysAddr 0x1000) (0x400000, 0x500000) 0x400FF0 32 WriteAccess = Err () \<and>
   (\<exists>v. virt_new (word_of_nat 0x400018) = Some v \<and> user_may sample_user_tables (PhysAddr 0x1000) WriteAccess v)"
proof -
  have h: "snd (0x400000 :: nat, 0x500000) + 4096 < u64_limit" by simp
  have e: "user_page_ok sample_user_tables (PhysAddr 0x1000) WriteAccess 0x400000" "\<not> user_page_ok sample_user_tables (PhysAddr 0x1000) WriteAccess 0x401000"
    by (simp_all add: user_page_ok_def virt_new_def is_canonical_iff walk_page_table_user_accessible_def sample_user_tables_def level_allows_def
        top_index_def upper_index_def middle_index_def leaf_index_def Let_def)
  have ok: "validated_range sample_user_tables (PhysAddr 0x1000) (0x400000, 0x500000) 0x400010 32 WriteAccess = Ok ()"
    and no: "validated_range sample_user_tables (PhysAddr 0x1000) (0x400000, 0x500000) 0x400FF0 32 WriteAccess = Err ()"
    by (simp_all add: validated_range_def user_pages_loop.simps e)
  have "\<forall>a. 0x400010 \<le> a \<and> a < 0x400010 + 32 \<longrightarrow> (\<exists>v. virt_new (word_of_nat a) = Some v \<and> user_may sample_user_tables (PhysAddr 0x1000) WriteAccess v)"
    using ok user_range_check_is_exact [OF h, where m = sample_user_tables and root = "PhysAddr 0x1000" and buf = "0x400010" and len = "32" and access = WriteAccess]
    by (auto split: if_splits)
  from this [rule_format, of "0x400018"] show ?thesis using h ok no by simp
qed

end
