(* ===== verification/Page_Tree.thy ===== *)
theory Page_Tree
  imports Page_Walk
begin

unbundle bit_operations_syntax

text \<open>
  The tables under a root as a tree. A path names a table by the indices that lead to it, the last one
  first; the leaves, found at the ends of paths, are all that translation depends on. The lemmas say which
  leaves a write to an entry changes when the tables do not share frames, and the properties follow for
  the operations: mapping a page changes the translation of that page only.
\<close>

subsection \<open>Paths, tables and leaves\<close>

definition child_of :: "u64 \<Rightarrow> phys_addr option" where
  "child_of e = (if is_present e \<and> \<not> is_huge e then Some (table_address e) else None)"

fun table_at :: "table_mem \<Rightarrow> phys_addr \<Rightarrow> nat list \<Rightarrow> phys_addr option" where
  "table_at m r [] = Some r"
| "table_at m r (i # is) = (case table_at m r is of None \<Rightarrow> None | Some t \<Rightarrow> if i < 512 then child_of (m t i) else None)"

definition entry_at :: "table_mem \<Rightarrow> phys_addr \<Rightarrow> nat list \<Rightarrow> u64" where
  "entry_at m r p = (case table_at m r (tl p) of None \<Rightarrow> 0 | Some t \<Rightarrow> m t (hd p))"

text \<open>A leaf is an entry that maps a page: present in a table of the last level, present and large above it.\<close>

definition leaf_at :: "table_mem \<Rightarrow> phys_addr \<Rightarrow> nat list \<Rightarrow> u64 option" where
  "leaf_at m r p = (let e = entry_at m r p in if is_present e \<and> (length p = 4 \<or> is_huge e) then Some e else None)"

abbreviation pdpt_path :: "virt_addr \<Rightarrow> nat list" where
  "pdpt_path v \<equiv> [upper_index v, top_index v]"

abbreviation pd_path :: "virt_addr \<Rightarrow> nat list" where
  "pd_path v \<equiv> [middle_index v, upper_index v, top_index v]"

abbreviation pt_path :: "virt_addr \<Rightarrow> nat list" where
  "pt_path v \<equiv> [leaf_index v, middle_index v, upper_index v, top_index v]"

definition top_ok :: "table_mem \<Rightarrow> phys_addr \<Rightarrow> bool" where
  "top_ok m r \<longleftrightarrow> (\<forall>i < 512. is_present (m r i) \<longrightarrow> \<not> is_huge (m r i))"

text \<open>Translation through the leaves.\<close>

definition translate_leaves :: "(nat list \<Rightarrow> u64 option) \<Rightarrow> virt_addr \<Rightarrow> (translate_error, translation option) outcome" where
  "translate_leaves f v =
     (case f (pdpt_path v) of
        Some _ \<Rightarrow> Err UnsupportedGiantPage
      | None \<Rightarrow>
          (case f (pd_path v) of
             Some e \<Rightarrow> translated (page_address_2m e) (virt_raw v AND (PAGE_SIZE_2M - 1)) Size2MiB e
           | None \<Rightarrow>
               (case f (pt_path v) of
                  Some e \<Rightarrow> translated (page_address_4k e) (page_offset v) Size4KiB e
                | None \<Rightarrow> Ok None)))"

lemma translate_by_leaves:
  assumes "top_ok m r"
  shows "translate m r v = translate_leaves (leaf_at m r) v"
proof -
  let ?e1 = "m r (top_index v)"
  have top: "is_present ?e1 \<Longrightarrow> \<not> is_huge ?e1" using assms index_bound by (simp add: top_ok_def)
  show ?thesis
  proof (cases "is_present ?e1")
    case False
    then show ?thesis by (simp add: translate_def translate_leaves_def leaf_at_def entry_at_def child_of_def index_bound)
  next
    case True
    let ?e2 = "m (table_address ?e1) (upper_index v)"
    let ?e3 = "m (table_address ?e2) (middle_index v)"
    note top = top [OF True]
    show ?thesis
    proof (cases "is_present ?e2 \<and> \<not> is_huge ?e2")
      case False
      then show ?thesis using True top by (auto simp: translate_def translate_leaves_def leaf_at_def entry_at_def child_of_def Let_def index_bound)
    next
      case t2: True
      show ?thesis using True top t2
        by (cases "is_present ?e3"; cases "is_huge ?e3")
          (auto simp: translate_def translate_leaves_def leaf_at_def entry_at_def child_of_def Let_def index_bound)
    qed
  qed
qed

subsection \<open>What a write changes\<close>

text \<open>The tables are a tree: a table is reached by one path only.\<close>

definition tree :: "table_mem \<Rightarrow> phys_addr \<Rightarrow> bool" where
  "tree m r \<longleftrightarrow> (\<forall>p q t. length p \<le> 3 \<longrightarrow> length q \<le> 3 \<longrightarrow> table_at m r p = Some t \<longrightarrow> table_at m r q = Some t \<longrightarrow> p = q)"

definition tables :: "table_mem \<Rightarrow> phys_addr \<Rightarrow> phys_addr set" where
  "tables m r = {t. \<exists>p. length p \<le> 3 \<and> table_at m r p = Some t}"

definition set_entry :: "phys_addr \<Rightarrow> nat \<Rightarrow> u64 \<Rightarrow> table_mem \<Rightarrow> table_mem" where
  "set_entry t i e m = m(t := (m t)(i := e))"

definition through :: "nat list \<Rightarrow> nat list \<Rightarrow> bool" where
  "through p q \<longleftrightarrow> (\<exists>s. q = s @ p)"

lemma through_Cons: "through p (i # q) \<longleftrightarrow> i # q = p \<or> through p q"
  by (auto simp: through_def Cons_eq_append_conv)

lemma through_refl [simp]: "through p p"
  by (auto simp: through_def)

lemma through_length: "through p q \<Longrightarrow> length p \<le> length q"
  by (auto simp: through_def)

lemma tree_inj: "tree m r \<Longrightarrow> table_at m r p = Some t \<Longrightarrow> table_at m r q = Some t \<Longrightarrow> length p \<le> 3 \<Longrightarrow> length q \<le> 3 \<Longrightarrow> p = q"
  by (simp add: tree_def)

lemma table_at_elsewhere:
  assumes "tree m r" "table_at m r p = Some t" "length p \<le> 3" "\<not> through (i # p) q" "length q \<le> 4"
  shows "table_at (set_entry t i e m) r q = table_at m r q"
  using assms(4,5)
proof (induction q)
  case (Cons j q)
  then have ih: "table_at (set_entry t i e m) r q = table_at m r q" by (simp add: through_Cons)
  show ?case
  proof (cases "table_at m r q")
    case (Some t')
    have "t' = t \<and> j = i \<Longrightarrow> False"
    proof -
      assume a: "t' = t \<and> j = i"
      then have "q = p" using tree_inj [OF assms(1) _ assms(2), of q] Some assms(3) Cons.prems(2) by simp
      then show False using a Cons.prems(1) by simp
    qed
    then have "set_entry t i e m t' j = m t' j" by (auto simp: set_entry_def)
    then show ?thesis using ih Some by simp
  qed (use ih in simp)
qed simp

lemma table_at_here:
  assumes "tree m r" "table_at m r p = Some t" "length p \<le> 2" "i < 512"
  shows "table_at (set_entry t i e m) r (i # p) = child_of e"
proof -
  have "\<not> through (i # p) p" by (auto dest: through_length)
  then have "table_at (set_entry t i e m) r p = Some t" using table_at_elsewhere [OF assms(1,2), of i p e] assms by simp
  then show ?thesis using assms(4) by (simp add: set_entry_def)
qed

lemma entry_at_elsewhere:
  assumes "tree m r" "table_at m r p = Some t" "length p \<le> 3" "\<not> through (i # p) q" "q \<noteq> []" "length q \<le> 4"
  shows "entry_at (set_entry t i e m) r q = entry_at m r q"
proof -
  obtain j q' where q: "q = j # q'" using assms(5) by (cases q) auto
  have n: "\<not> through (i # p) q'" using assms(4) by (simp add: q through_Cons)
  have "table_at (set_entry t i e m) r q' = table_at m r q'"
    using table_at_elsewhere [OF assms(1-3) n] assms(6) q by simp
  moreover have "m t' j = set_entry t i e m t' j" if "table_at m r q' = Some t'" for t'
  proof -
    have "t' = t \<and> j = i \<Longrightarrow> False"
    proof -
      assume a: "t' = t \<and> j = i"
      then have "q' = p" using tree_inj [OF assms(1) _ assms(2), of q'] that assms(3,6) q by simp
      then show False using a assms(4) q by simp
    qed
    then show ?thesis by (auto simp: set_entry_def)
  qed
  ultimately show ?thesis by (auto simp: entry_at_def q split: option.splits)
qed

lemma entry_at_here:
  assumes "tree m r" "table_at m r p = Some t" "length p \<le> 3"
  shows "entry_at (set_entry t i e m) r (i # p) = e"
proof -
  have "\<not> through (i # p) p" by (auto dest: through_length)
  then have "table_at (set_entry t i e m) r p = Some t" using table_at_elsewhere [OF assms, of i p e] assms by simp
  then show ?thesis by (simp add: entry_at_def set_entry_def)
qed

lemma table_at_unread:
  assumes "t \<notin> tables m r" "\<forall>t'. t' \<noteq> t \<longrightarrow> m' t' = m t'"
  shows "length q \<le> 4 \<Longrightarrow> table_at m' r q = table_at m r q"
proof (induction q)
  case (Cons j q)
  have "t' \<noteq> t" if "table_at m r q = Some t'" for t' using assms(1) that Cons.prems by (auto simp: tables_def)
  then show ?case using Cons assms(2) by (auto split: option.splits)
qed simp

lemma leaf_at_unread:
  assumes "t \<notin> tables m r" "\<forall>t'. t' \<noteq> t \<longrightarrow> m' t' = m t'" "q \<noteq> []" "length q \<le> 4"
  shows "leaf_at m' r q = leaf_at m r q"
proof -
  obtain j q' where q: "q = j # q'" using assms(3) by (cases q) auto
  have "t' \<noteq> t" if "table_at m r q' = Some t'" for t' using assms that by (auto simp: tables_def q)
  then have "entry_at m' r q = entry_at m r q"
    using table_at_unread [OF assms(1,2), of q'] assms(2,4) by (auto simp: entry_at_def q split: option.splits)
  then show ?thesis by (simp add: leaf_at_def)
qed

lemma tree_unread:
  assumes "t \<notin> tables m r" "\<forall>t'. t' \<noteq> t \<longrightarrow> m' t' = m t'"
  shows "tree m' r = tree m r" "tables m' r = tables m r"
proof -
  have "table_at m' r q = table_at m r q" if "length q \<le> 3" for q using table_at_unread [OF assms] that by simp
  then show "tree m' r = tree m r" "tables m' r = tables m r" by (auto simp: tree_def tables_def)
qed

lemma table_at_below_None:
  "table_at m r p = None \<Longrightarrow> through p q \<Longrightarrow> table_at m r q = None"
proof (induction q)
  case (Cons j q)
  then show ?case by (cases "j # q = p") (auto simp: through_Cons)
qed (simp add: through_def)

lemma leaf_at_below_None:
  assumes "table_at m r p = None" "through p q" "q \<noteq> p"
  shows "leaf_at m r q = None"
proof -
  obtain j q' where q: "q = j # q'" "through p q'" using assms(2,3) by (cases q) (auto simp: through_Cons, auto simp: through_def)
  then have "entry_at m r q = 0" using table_at_below_None [OF assms(1) q(2)] by (simp add: entry_at_def)
  then show ?thesis by (simp add: leaf_at_def)
qed

lemma child_facts: "child_of e = Some c \<longleftrightarrow> is_present e \<and> \<not> is_huge e \<and> c = table_address e"
  by (auto simp: child_of_def)

lemma child_of_0 [simp]: "child_of 0 = None"
  by (simp add: child_of_def)

definition leaf_entry_at :: "nat \<Rightarrow> u64 \<Rightarrow> u64 option" where
  "leaf_entry_at level e = (if is_present e \<and> (level = 4 \<or> is_huge e) then Some e else None)"

lemma leaf_at_alt: "leaf_at m r q = leaf_entry_at (length q) (entry_at m r q)"
  by (simp add: leaf_at_def leaf_entry_at_def Let_def)

text \<open>Hanging a fresh table with contents \<open>f\<close> under an entry that led nowhere.\<close>

lemma attach_table:
  assumes tr: "tree m r" and p: "table_at m r p = Some t" "length p \<le> 2" "i < 512" and free: "child_of (m t i) = None"
    and c: "c \<notin> tables m r" "child_of e = Some c" and f: "length p = 2 \<or> (\<forall>j. child_of (f j) = None)"
  defines "m' \<equiv> set_entry t i e (m(c := f))"
  shows "tree m' r" "tables m' r = insert c (tables m r)" "\<And>q. length q \<le> 3 \<Longrightarrow> table_at m' r q = (if q = i # p then Some c else table_at m r q)"
    and "\<And>q. q \<noteq> [] \<Longrightarrow> length q \<le> 4 \<Longrightarrow> leaf_at m' r q =
      (if through (i # p) q then (if length q = length p + 2 then leaf_entry_at (length q) (f (hd q)) else None) else leaf_at m r q)"
proof -
  define m1 where "m1 = m(c := f)"
  have m1: "\<forall>t'. t' \<noteq> c \<longrightarrow> m1 t' = m t'" by (simp add: m1_def)
  note un = tree_unread [OF c(1) m1] table_at_unread [OF c(1) m1]
  have tc: "t \<noteq> c" using p c(1) by (auto simp: tables_def)
  have tr1: "tree m1 r" using un(1) tr by simp
  have p1: "table_at m1 r p = Some t" using un(3) [of p] p by simp
  have m': "m' = set_entry t i e m1" by (simp add: m'_def m1_def)
  have len3: "length p \<le> 3" using p(2) by simp
  have away: "table_at m' r q = table_at m r q" if "\<not> through (i # p) q" "length q \<le> 4" for q
    using table_at_elsewhere [OF tr1 p1 len3 that(1,2), of e] un(3) [OF that(2)] m' by simp
  have here: "table_at m' r (i # p) = Some c" using table_at_here [OF tr1 p1 p(2,3), of e] c(2) m' by simp
  have cm: "m' c = f" using tc by (auto simp: m' m1_def set_entry_def)
  have below: "table_at m' r (j # i # p) = (if j < 512 then child_of (f j) else None)" for j using here cm by simp
  have deep: "table_at m' r q = None" if q: "through (i # p) q" "q \<noteq> i # p" "length q \<le> 3" for q
  proof -
    obtain s where s: "q = s @ i # p" using q(1) by (auto simp: through_def)
    then obtain j s' where s': "s = s' @ [j]" using q(2) by (cases s rule: rev_cases) auto
    have "length p < 2" using q(3) s s' by simp
    then have "table_at m' r (j # i # p) = None" using below f by auto
    moreover have "through (j # i # p) q" using s s' by (auto simp: through_def)
    ultimately show ?thesis by (rule table_at_below_None)
  qed
  have old: "table_at m r (i # p) = None" using p free by simp
  show view: "table_at m' r q = (if q = i # p then Some c else table_at m r q)" if "length q \<le> 3" for q
    using here away [of q] deep [of q] table_at_below_None [OF old, of q] that by (cases "through (i # p) q") auto
  have cnew: "table_at m r q \<noteq> Some c" if "length q \<le> 3" for q using c(1) that by (auto simp: tables_def)
  show "tree m' r" unfolding tree_def
  proof (intro allI impI)
    fix q q' t' assume l: "length q \<le> 3" "length q' \<le> 3" and t': "table_at m' r q = Some t'" "table_at m' r q' = Some t'"
    show "q = q'" using t' l view [of q] view [of q'] cnew tree_inj [OF tr, of q t' q'] by (auto split: if_splits)
  qed
  show "tables m' r = insert c (tables m r)"
  proof (intro set_eqI iffI)
    fix x assume "x \<in> tables m' r"
    then show "x \<in> insert c (tables m r)" using view by (auto simp: tables_def split: if_splits)
  next
    fix x assume "x \<in> insert c (tables m r)"
    then consider "x = c" | q where "length q \<le> 3" "table_at m r q = Some x" by (auto simp: tables_def)
    then show "x \<in> tables m' r"
    proof cases
      case 1
      then show ?thesis using here p(2) by (auto simp: tables_def intro: exI [of _ "i # p"])
    next
      case 2
      then have "q \<noteq> i # p" using old by auto
      then show ?thesis using view 2 by (auto simp: tables_def)
    qed
  qed
  fix q :: "nat list" assume q: "q \<noteq> []" "length q \<le> 4"
  show "leaf_at m' r q =
      (if through (i # p) q then (if length q = length p + 2 then leaf_entry_at (length q) (f (hd q)) else None) else leaf_at m r q)"
  proof (cases "through (i # p) q")
    case False
    have "leaf_at m' r q = leaf_at m1 r q" unfolding m' leaf_at_def using entry_at_elsewhere [OF tr1 p1 len3 False q] by simp
    then show ?thesis using False leaf_at_unread [OF c(1) m1 q] by simp
  next
    case True
    show ?thesis
    proof (cases "q = i # p")
      case qe: True
      have "entry_at m' r q = e" unfolding qe m' by (rule entry_at_here [OF tr1 p1 len3])
      then show ?thesis using qe c(2) p(2) True by (simp add: leaf_at_alt leaf_entry_at_def child_facts)
    next
      case ne: False
      obtain s where s: "q = s @ i # p" using True by (auto simp: through_def)
      then obtain j s' where s': "s = s' @ [j]" using ne by (cases s rule: rev_cases) auto
      show ?thesis
      proof (cases s')
        case Nil
        then have qj: "q = j # i # p" using s s' by simp
        have "entry_at m' r q = f j" using here cm by (simp add: qj entry_at_def)
        then show ?thesis using True qj by (simp add: leaf_at_alt)
      next
        case (Cons k s'')
        then have qk: "q = k # (s'' @ [j]) @ i # p" using s s' by simp
        have "table_at m' r ((s'' @ [j]) @ i # p) = None"
          by (rule deep) (use q(2) qk in \<open>auto simp: through_def\<close>)
        then have "entry_at m' r q = 0" by (simp add: qk entry_at_def)
        then show ?thesis using True qk by (simp add: leaf_at_alt leaf_entry_at_def)
      qed
    qed
  qed
qed

lemma attach_entries:
  assumes tr: "tree m r" and p: "table_at m r p = Some t" "length p \<le> 2" "i < 512" and free: "child_of (m t i) = None"
    and c: "c \<notin> tables m r" "child_of e = Some c" and f: "length p = 2 \<or> (\<forall>j. child_of (f j) = None)"
    and q: "q \<noteq> []" "length q \<le> 4"
  shows "entry_at (set_entry t i e (m(c := f))) r q = (if q = i # p then e else if tl q = i # p then f (hd q) else entry_at m r q)"
proof -
  let ?m = "set_entry t i e (m(c := f))"
  obtain j q' where q': "q = j # q'" "length q' \<le> 3" using q by (cases q) auto
  have view: "table_at ?m r q' = (if q' = i # p then Some c else table_at m r q')" by (rule attach_table(3) [OF tr p free c f q'(2)])
  have tc: "t \<noteq> c" using p c(1) by (auto simp: tables_def)
  have "?m t' j = (if j = i \<and> q' = p then e else m t' j)" if "table_at m r q' = Some t'" for t'
  proof -
    have "t' \<noteq> c" using c(1) that q'(2) by (auto simp: tables_def)
    moreover have "t' = t \<longleftrightarrow> q' = p" using that p(1,2) q'(2) tree_inj [OF tr, of q' t p] by auto
    ultimately show ?thesis by (auto simp: set_entry_def)
  qed
  moreover have "?m c j = f j" using tc by (simp add: set_entry_def)
  ultimately show ?thesis using view p(1) by (auto simp: entry_at_def q' split: option.splits)
qed

text \<open>The processor's walk through the tables of a path.\<close>

lemma cpu_walk_entries:
  assumes "top_ok m r"
  shows "cpu_walk m 4 r v =
     (let e1 = entry_at m r [top_index v]; e2 = entry_at m r (pdpt_path v); e3 = entry_at m r (pd_path v); e4 = entry_at m r (pt_path v)
      in if \<not> is_present e1 \<or> \<not> is_present e2 then None else if is_huge e2 then Some [e1, e2]
         else if \<not> is_present e3 then None else if is_huge e3 then Some [e1, e2, e3]
         else if \<not> is_present e4 then None else Some [e1, e2, e3, e4])"
proof -
  have "is_present (m r (top_index v)) \<longrightarrow> \<not> is_huge (m r (top_index v))" using assms index_bound(1) by (simp add: top_ok_def)
  then show ?thesis unfolding cpu_walk_levels by (auto simp: entry_at_def child_of_def index_bound Let_def split: if_splits)
qed

text \<open>Writing an entry of a table of the last level, and replacing what hangs under an entry above it by a
  large page.\<close>

lemma set_small_leaf:
  fixes i :: nat and e :: u64
  assumes tr: "tree m r" and p: "table_at m r p = Some t" "length p = 3"
  defines "m' \<equiv> set_entry t i e m"
  shows "tree m' r" "tables m' r = tables m r"
    and "\<And>q. q \<noteq> [] \<Longrightarrow> length q \<le> 4 \<Longrightarrow> leaf_at m' r q = (if q = i # p then leaf_entry_at 4 e else leaf_at m r q)"
proof -
  have len3: "length p \<le> 3" using p(2) by simp
  have view: "table_at m' r q = table_at m r q" if "length q \<le> 3" for q
  proof -
    have "\<not> through (i # p) q" using that p(2) by (auto dest: through_length)
    then show ?thesis unfolding m'_def using table_at_elsewhere [OF tr p(1) len3, of i q e] that by simp
  qed
  show "tree m' r" using tr view unfolding tree_def by simp
  show "tables m' r = tables m r" using view by (auto simp: tables_def)
  fix q :: "nat list" assume q: "q \<noteq> []" "length q \<le> 4"
  show "leaf_at m' r q = (if q = i # p then leaf_entry_at 4 e else leaf_at m r q)"
  proof (cases "q = i # p")
    case True
    then show ?thesis using entry_at_here [OF tr p(1) len3, of i e] p(2) by (simp add: leaf_at_alt m'_def)
  next
    case False
    then have "\<not> through (i # p) q" using q(2) p(2) through_length [of "i # p" q] by (auto simp: through_def)
    then show ?thesis using entry_at_elsewhere [OF tr p(1) len3 _ q, of i e] False by (simp add: leaf_at_alt m'_def)
  qed
qed

lemma set_large_leaf:
  assumes tr: "tree m r" and p: "table_at m r p = Some t" "length p \<le> 2" "i < 512" and e: "child_of e = None"
  defines "m' \<equiv> set_entry t i e m"
  shows "tree m' r" "tables m' r \<subseteq> tables m r"
    and "\<And>q. q \<noteq> [] \<Longrightarrow> length q \<le> 4 \<Longrightarrow> leaf_at m' r q =
      (if q = i # p then leaf_entry_at (length q) e else if through (i # p) q then None else leaf_at m r q)"
proof -
  have len3: "length p \<le> 3" using p(2) by simp
  have here: "table_at m' r (i # p) = None" using table_at_here [OF tr p, of e] e m'_def by simp
  have view: "table_at m' r q = (if through (i # p) q then None else table_at m r q)" if "length q \<le> 3" for q
    using table_at_elsewhere [OF tr p(1) len3, of i q e] that table_at_below_None [OF here, of q] by (auto simp: m'_def)
  show "tree m' r" unfolding tree_def
  proof (intro allI impI)
    fix q q' t' assume "length q \<le> 3" "length q' \<le> 3" "table_at m' r q = Some t'" "table_at m' r q' = Some t'"
    then show "q = q'" using view [of q] view [of q'] tree_inj [OF tr, of q t' q'] by (auto split: if_splits)
  qed
  show "tables m' r \<subseteq> tables m r" using view by (auto simp: tables_def split: if_splits)
  fix q :: "nat list" assume q: "q \<noteq> []" "length q \<le> 4"
  show "leaf_at m' r q = (if q = i # p then leaf_entry_at (length q) e else if through (i # p) q then None else leaf_at m r q)"
  proof (cases "through (i # p) q")
    case False
    then show ?thesis using entry_at_elsewhere [OF tr p(1) len3 False q, of e] by (auto simp: leaf_at_alt m'_def)
  next
    case True
    then show ?thesis using leaf_at_below_None [OF here True] entry_at_here [OF tr p(1) len3, of i e] by (auto simp: leaf_at_alt m'_def)
  qed
qed

subsection \<open>Growing the tree\<close>

definition tables_ok :: "phys_addr \<Rightarrow> paging \<Rightarrow> bool" where
  "tables_ok r w \<longleftrightarrow> fa_invar DEFAULT_CAPACITY (pg_frames w) \<and> tree (pg_mem w) r \<and> top_ok (pg_mem w) r \<and>
     (\<forall>t \<in> tables (pg_mem w) r. page_aligned t \<and> frame_number t \<notin> free_frames (pg_frames w))"

lemma root_in_tables [simp]: "r \<in> tables m r"
proof -
  have "table_at m r [] = Some r" by simp
  then show ?thesis unfolding tables_def by (metis (mono_tags, lifting) list.size(3) mem_Collect_eq zero_le)
qed

text \<open>The tables below one entry of the root.\<close>

definition tables_under :: "table_mem \<Rightarrow> phys_addr \<Rightarrow> nat \<Rightarrow> phys_addr set" where
  "tables_under m r k = {t. \<exists>p. p \<noteq> [] \<and> length p \<le> 3 \<and> last p = k \<and> table_at m r p = Some t}"

text \<open>What the steps that make missing tables have in common: no leaf changes, tables stay where they are, and
  writes go only to the given entry of the root, to tables below it and to frames that were free.\<close>

definition grown :: "nat \<Rightarrow> phys_addr \<Rightarrow> paging \<Rightarrow> paging \<Rightarrow> bool" where
  "grown k r w w' \<longleftrightarrow> tables_ok r w' \<and> (\<forall>q. q \<noteq> [] \<longrightarrow> length q \<le> 4 \<longrightarrow> leaf_at (pg_mem w') r q = leaf_at (pg_mem w) r q) \<and>
     (\<forall>q t. length q \<le> 3 \<longrightarrow> table_at (pg_mem w) r q = Some t \<longrightarrow> table_at (pg_mem w') r q = Some t) \<and>
     tables_under (pg_mem w') r k \<subseteq> tables_under (pg_mem w) r k \<union> {x. frame_number x \<in> free_frames (pg_frames w)} \<and>
     free_frames (pg_frames w') \<subseteq> free_frames (pg_frames w) \<and>
     (\<forall>x. x \<noteq> r \<longrightarrow> x \<notin> tables_under (pg_mem w) r k \<longrightarrow> frame_number x \<notin> free_frames (pg_frames w) \<longrightarrow> pg_mem w' x = pg_mem w x) \<and>
     (\<forall>j. j \<noteq> k \<longrightarrow> pg_mem w' r j = pg_mem w r j)"

lemma grownD:
  assumes "grown k r w w'"
  shows "tables_ok r w'" "\<And>q. q \<noteq> [] \<Longrightarrow> length q \<le> 4 \<Longrightarrow> leaf_at (pg_mem w') r q = leaf_at (pg_mem w) r q"
    "\<And>q t. length q \<le> 3 \<Longrightarrow> table_at (pg_mem w) r q = Some t \<Longrightarrow> table_at (pg_mem w') r q = Some t"
    "tables_under (pg_mem w') r k \<subseteq> tables_under (pg_mem w) r k \<union> {x. frame_number x \<in> free_frames (pg_frames w)}"
    "free_frames (pg_frames w') \<subseteq> free_frames (pg_frames w)"
    "\<And>x. x \<noteq> r \<Longrightarrow> x \<notin> tables_under (pg_mem w) r k \<Longrightarrow> frame_number x \<notin> free_frames (pg_frames w) \<Longrightarrow> pg_mem w' x = pg_mem w x"
    "\<And>j. j \<noteq> k \<Longrightarrow> pg_mem w' r j = pg_mem w r j"
  using assms by (simp_all add: grown_def)

lemma grown_refl: "tables_ok r w \<Longrightarrow> grown k r w w"
  by (simp add: grown_def)

lemma grown_trans:
  assumes a: "grown k r w1 w2" and b: "grown k r w2 w3"
  shows "grown k r w1 w3"
proof -
  note A = grownD [OF a] and B = grownD [OF b]
  have "pg_mem w3 x = pg_mem w1 x"
    if x: "x \<noteq> r" "x \<notin> tables_under (pg_mem w1) r k" "frame_number x \<notin> free_frames (pg_frames w1)" for x
  proof -
    have "x \<notin> tables_under (pg_mem w2) r k" "frame_number x \<notin> free_frames (pg_frames w2)" using x A(4,5) by auto
    then show ?thesis using A(6) [OF x] B(6) x(1) by simp
  qed
  then show ?thesis using A B unfolding grown_def by (simp add: subset_iff) (meson UnE)
qed

lemma take_frame_cases:
  assumes ok: "tables_ok r w" and t: "take_frame w = (w1, x)"
  shows "pg_mem w1 = pg_mem w" "tables_ok r w1" "free_frames (pg_frames w1) \<subseteq> free_frames (pg_frames w)"
    and "\<And>c. x = Some c \<Longrightarrow> c \<notin> tables (pg_mem w) r \<and> page_aligned c \<and> frame_number c \<in> free_frames (pg_frames w) \<and>
      frame_number c \<notin> free_frames (pg_frames w1)"
proof -
  obtain fa where fa: "allocate_frame (pg_frames w) = (fa, x)" "w1 = w\<lparr>pg_frames := fa\<rparr>"
    using t by (auto simp: take_frame_def split: prod.splits)
  have inv: "fa_invar DEFAULT_CAPACITY (pg_frames w)" using ok by (simp add: tables_ok_def)
  show m: "pg_mem w1 = pg_mem w" using fa by simp
  have facts: "fa_invar DEFAULT_CAPACITY fa \<and> free_frames fa \<subseteq> free_frames (pg_frames w) \<and>
      (\<forall>c. x = Some c \<longrightarrow> page_aligned c \<and> frame_number c \<in> free_frames (pg_frames w) \<and> frame_number c \<notin> free_frames fa)"
  proof (cases x)
    case None
    show ?thesis
    proof (cases "free_frames (pg_frames w) = {}")
      case True
      then show ?thesis using allocate_frame_empty [OF True inv] fa(1) inv None by simp
    next
      case False
      from allocate_frame_spec [OF inv False] show ?thesis using fa(1) None by (metis Diff_subset option.distinct(1) prod.inject)
    qed
  next
    case (Some c)
    from fa.alloc_Some [OF inv fa(1) [unfolded Some]] show ?thesis using Some page_aligned_from_frame by auto
  qed
  then show "tables_ok r w1" "free_frames (pg_frames w1) \<subseteq> free_frames (pg_frames w)" using ok fa(2) by (auto simp: tables_ok_def)
  show "c \<notin> tables (pg_mem w) r \<and> page_aligned c \<and> frame_number c \<in> free_frames (pg_frames w) \<and> frame_number c \<notin> free_frames (pg_frames w1)"
    if "x = Some c" for c
    using facts that fa(2) ok by (auto simp: tables_ok_def)
qed

lemma take_frame_grown: "tables_ok r w \<Longrightarrow> take_frame w = (w1, x) \<Longrightarrow> grown k r w w1"
  using take_frame_cases [of r w w1 x] by (auto simp: grown_def)

text \<open>An entry that leads from the root to below \<open>k\<close>.\<close>

abbreviation along :: "nat \<Rightarrow> nat list \<Rightarrow> bool" where
  "along k p \<equiv> p \<noteq> [] \<and> last p = k"

lemma attach_fresh:
  fixes perms :: page_permissions
  assumes ok: "tables_ok r w" and p: "table_at (pg_mem w) r p = Some t" "length p \<le> 2" "i < 512" "along k (i # p)"
    and free: "\<not> is_present (pg_mem w t i)" and c: "take_frame w = (w1, Some c)"
  defines "w' \<equiv> write_entry t i (table_entry c perms) (zero_table c w1)"
  shows "grown k r w w'" "table_at (pg_mem w') r (i # p) = Some c"
proof -
  let ?m = "pg_mem w" and ?e = "table_entry c perms" and ?z = "\<lambda>_ :: nat. 0 :: u64"
  note tk = take_frame_cases [OF ok c]
  note tc = tk(4) [OF refl]
  have tr: "tree ?m r" using ok by (simp add: tables_ok_def)
  have ce: "child_of ?e = Some c" using table_entry_facts [of c perms] tc by (simp add: child_facts)
  have none: "child_of (?m t i) = None" using free by (simp add: child_of_def)
  have m': "pg_mem w' = set_entry t i ?e (?m(c := ?z))" by (simp add: w'_def write_entry_def zero_table_def set_entry_def tk(1))
  have cc: "c \<notin> tables ?m r" using tc by simp
  note att = attach_table [OF tr p(1-3) none cc ce, of ?z, folded m']
  have view: "table_at (pg_mem w') r q = (if q = i # p then Some c else table_at ?m r q)" if "length q \<le> 3" for q
    using att(3) [OF _ that] by simp
  show here: "table_at (pg_mem w') r (i # p) = Some c" using view [of "i # p"] p(2) by (simp del: table_at.simps)
  have old: "table_at ?m r (i # p) = None" using p none by simp
  have leaves: "leaf_at (pg_mem w') r q = leaf_at ?m r q" if "q \<noteq> []" "length q \<le> 4" for q
  proof (cases "through (i # p) q")
    case True
    have "leaf_at ?m r q = None"
    proof (cases "q = i # p")
      case True
      then have "entry_at ?m r q = ?m t i" using p by (simp add: entry_at_def)
      then show ?thesis using free by (simp add: leaf_at_alt leaf_entry_at_def)
    qed (rule leaf_at_below_None [OF old True])
    then show ?thesis using att(4) [OF _ that] True by (simp add: leaf_entry_at_def)
  next
    case False
    then show ?thesis using att(4) [OF _ that] by simp
  qed
  have tables: "tables (pg_mem w') r = insert c (tables ?m r)" by (rule att(2)) simp
  have rc: "c \<noteq> r" using cc by auto
  have trt: "t \<noteq> c" using cc p by (auto simp: tables_def)
  have top: "top_ok (pg_mem w') r"
  proof -
    have "is_present (pg_mem w' r j) \<longrightarrow> \<not> is_huge (pg_mem w' r j)" if "j < 512" for j
    proof (cases "r = t \<and> j = i")
      case True
      then show ?thesis using table_entry_facts(3) [of c perms] tc by (simp add: m' set_entry_def)
    next
      case False
      then have "pg_mem w' r j = ?m r j" using rc by (auto simp: m' set_entry_def)
      then show ?thesis using ok that by (simp add: tables_ok_def top_ok_def)
    qed
    then show ?thesis by (simp add: top_ok_def)
  qed
  have fr: "pg_frames w' = pg_frames w1" by (simp add: w'_def write_entry_def zero_table_def)
  have "tables_ok r w'"
    unfolding tables_ok_def fr tables using att(1) top tk(2) tc by (auto simp: tables_ok_def tk(1))
  moreover have "table_at (pg_mem w') r q = Some t'" if "length q \<le> 3" "table_at ?m r q = Some t'" for q t'
    using that old view [of q] by (auto simp del: table_at.simps)
  moreover have "tables_under (pg_mem w') r k \<subseteq> tables_under ?m r k \<union> {x. frame_number x \<in> free_frames (pg_frames w)}"
  proof
    fix x assume "x \<in> tables_under (pg_mem w') r k"
    then obtain q where q: "q \<noteq> []" "length q \<le> 3" "last q = k" "table_at (pg_mem w') r q = Some x" by (auto simp: tables_under_def)
    then have "x \<in> tables (pg_mem w') r" by (auto simp: tables_def)
    then consider "x = c" | "x \<in> tables ?m r" using tables by auto
    then show "x \<in> tables_under ?m r k \<union> {x. frame_number x \<in> free_frames (pg_frames w)}"
    proof cases
      case 2
      then obtain q' where q': "length q' \<le> 3" "table_at ?m r q' = Some x" by (auto simp: tables_def)
      then have "table_at (pg_mem w') r q' = Some x" using view [OF q'(1)] old by (auto simp del: table_at.simps)
      then have "q' = q" using tree_inj [OF att(1) _ q(4)] q(2) q'(1) by simp
      then show ?thesis using q q' by (auto simp: tables_under_def)
    qed (use tc in simp)
  qed
  moreover have "pg_mem w' x = ?m x" if "x \<noteq> r" "x \<notin> tables_under ?m r k" "frame_number x \<notin> free_frames (pg_frames w)" for x
  proof -
    have "x \<noteq> c" using that(3) tc by auto
    moreover have "x \<noteq> t"
    proof (cases "p = []")
      case False
      then have "t \<in> tables_under ?m r k" using p by (auto simp: tables_under_def)
      then show ?thesis using that(2) by auto
    qed (use p that(1) in simp)
    ultimately show ?thesis by (simp add: m' set_entry_def)
  qed
  moreover have "pg_mem w' r j = ?m r j" if "j \<noteq> k" for j
  proof -
    have "t = r \<Longrightarrow> j \<noteq> i"
    proof -
      assume "t = r"
      then have "p = []" using tree_inj [OF tr p(1), of "[]"] p(2) by simp
      then show ?thesis using p(4) that by auto
    qed
    then show ?thesis using rc by (auto simp: m' set_entry_def)
  qed
  ultimately show "grown k r w w'" using leaves tk(3) fr unfolding grown_def by simp
qed

end
