(* ===== verification/Page_Map.thy ===== *)
theory Page_Map
  imports Page_Tree
begin

unbundle bit_operations_syntax

text \<open>
  Changing the active tables (\<open>kernel/src/arch/x86_64/paging/active.rs\<close>): mapping a page, removing it and splitting
  a large page, shown against what the tables translate.
\<close>

subsection \<open>Mapping and unmapping a page\<close>

definition same_page :: "virt_addr \<Rightarrow> virt_addr \<Rightarrow> bool" where
  "same_page u v \<longleftrightarrow> virt_raw u AND NOT 0xFFF = virt_raw v AND NOT 0xFFF"

lemma same_page_path:
  assumes "is_canonical (virt_raw u)" "is_canonical (virt_raw v)"
  shows "pt_path u = pt_path v \<longleftrightarrow> same_page u v"
proof
  assume "same_page u v"
  then have b: "drop_bit 12 (virt_raw u AND NOT (mask 12)) = drop_bit 12 (virt_raw v AND NOT (mask 12))" by (simp add: same_page_def index_mask)
  have d: "drop_bit 12 (x AND NOT (mask 12)) = drop_bit 12 x" for x :: u64
    by (rule bit_word_eqI) (auto simp: bit_drop_bit_eq bit_and_iff bit_not_iff bit_mask_iff dest: bit_imp_le_length)
  have s: "drop_bit s x = drop_bit (s - 12) (drop_bit 12 x)" if "12 \<le> s" for s and x :: u64 using that by simp
  have "drop_bit s (virt_raw u) = drop_bit s (virt_raw v)" if "12 \<le> s" for s using b d s [OF that] by metis
  then show "pt_path u = pt_path v" by (simp add: top_index_def upper_index_def middle_index_def leaf_index_def)
next
  assume p: "pt_path u = pt_path v"
  have lo: "page_offset (VirtAddr (x AND NOT 0xFFF)) = 0" for x by (simp add: page_offset_def and.assoc)
  have b: "bit (x AND NOT 0xFFF) n \<longleftrightarrow> bit x n \<and> 12 \<le> n" for x :: u64 and n
    by (auto simp: index_mask bit_and_iff bit_not_iff bit_mask_iff dest: bit_imp_le_length)
  have d: "drop_bit s (x AND NOT 0xFFF) = drop_bit s x" if "12 \<le> s" for s and x :: u64
    by (rule bit_word_eqI) (use that in \<open>simp only: bit_drop_bit_eq b o_def, simp\<close>)
  let ?u = "VirtAddr (virt_raw u AND NOT 0xFFF)" and ?v = "VirtAddr (virt_raw v AND NOT 0xFFF)"
  have idx: "top_index (VirtAddr (x AND NOT 0xFFF)) = top_index (VirtAddr x)" "upper_index (VirtAddr (x AND NOT 0xFFF)) = upper_index (VirtAddr x)"
    "middle_index (VirtAddr (x AND NOT 0xFFF)) = middle_index (VirtAddr x)" "leaf_index (VirtAddr (x AND NOT 0xFFF)) = leaf_index (VirtAddr x)" for x
    unfolding top_index_def upper_index_def middle_index_def leaf_index_def by (simp_all only: d virt_addr.sel)
  have "virt_raw ?u = virt_raw ?v"
  proof (rule canonical_eqI)
    show "is_canonical (virt_raw ?u)" "is_canonical (virt_raw ?v)" using assms unfolding virt_addr.sel canonical_same_page .
    show "bit (virt_raw ?u) n = bit (virt_raw ?v) n" if "n < 48" for n
      by (rule same_indices_same_bits [OF _ _ _ _ _ that]) (use p in \<open>simp_all only: idx lo virt_addr.collapse list.inject\<close>)
  qed
  then show "same_page u v" by (simp only: same_page_def virt_addr.sel)
qed

lemma ensure_child_grown:
  assumes ok: "tables_ok r w" and p: "table_at (pg_mem w) r p = Some t" "length p \<le> 2" "i < 512" "along k (i # p)"
    and e: "ensure_child fin r perms t i w = (res, w')"
  shows "grown k r w w'" "res = Ok c \<Longrightarrow> table_at (pg_mem w') r (i # p) = Some c" "res = Panic \<Longrightarrow> p = [] \<and> kernel_top_write_is_refused i fin"
proof -
  let ?e = "pg_mem w t i"
  have "grown k r w w' \<and> (\<forall>c. res = Ok c \<longrightarrow> table_at (pg_mem w') r (i # p) = Some c) \<and> (res = Panic \<longrightarrow> p = [] \<and> kernel_top_write_is_refused i fin)"
  proof (cases "is_present ?e")
    case True
    then show ?thesis using e p ok by (auto simp: ensure_child_def Let_def grown_refl child_of_def split: if_splits)
  next
    case False
    show ?thesis
    proof (cases "t = r \<and> kernel_top_write_is_refused i fin")
      case True
      then have "p = []" using tree_inj [of "pg_mem w" r p r "[]"] p ok by (simp add: tables_ok_def)
      then show ?thesis using True False e ok by (auto simp: ensure_child_def grown_refl)
    next
      case nr: False
      obtain w1 x where tk: "take_frame w = (w1, x)" by (cases "take_frame w")
      show ?thesis
      proof (cases x)
        case None
        then show ?thesis using e False nr tk take_frame_grown [OF ok tk] by (auto simp: ensure_child_def)
      next
        case (Some c)
        note att = attach_fresh [OF ok p False tk [unfolded Some], of perms]
        show ?thesis using e False nr tk Some att by (auto simp: ensure_child_def simp del: table_at.simps)
      qed
    qed
  qed
  then show "grown k r w w'" "res = Ok c \<Longrightarrow> table_at (pg_mem w') r (i # p) = Some c" "res = Panic \<Longrightarrow> p = [] \<and> kernel_top_write_is_refused i fin"
    by auto
qed

lemma leaf_at_table: "table_at m r (i # p) = Some c \<Longrightarrow> length p < 3 \<Longrightarrow> leaf_at m r (i # p) = None"
  by (auto simp: leaf_at_alt leaf_entry_at_def entry_at_def child_facts split: option.splits if_splits)

lemma top_ok_away: "top_ok m r \<Longrightarrow> t \<noteq> r \<Longrightarrow> top_ok (set_entry t i e m) r"
  by (simp add: top_ok_def set_entry_def)

lemma tables_ok_set_leaf:
  assumes ok: "tables_ok r w" and p: "table_at (pg_mem w) r p = Some t" "length p = 3"
  shows "tables_ok r (write_entry t i e w)"
    "\<And>q. q \<noteq> [] \<Longrightarrow> length q \<le> 4 \<Longrightarrow> leaf_at (pg_mem (write_entry t i e w)) r q = (if q = i # p then leaf_entry_at 4 e else leaf_at (pg_mem w) r q)"
proof -
  have tr: "tree (pg_mem w) r" using ok by (simp add: tables_ok_def)
  have tn: "t \<noteq> r" using tree_inj [OF tr p(1), of "[]"] p(2) by auto
  have m: "pg_mem (write_entry t i e w) = set_entry t i e (pg_mem w)" "pg_frames (write_entry t i e w) = pg_frames w"
    by (simp_all add: write_entry_def set_entry_def)
  note sl = set_small_leaf [OF tr p, where i = i and e = e]
  show "tables_ok r (write_entry t i e w)" using ok sl(1,2) top_ok_away [OF _ tn] by (simp add: tables_ok_def m)
  show "leaf_at (pg_mem (write_entry t i e w)) r q = (if q = i # p then leaf_entry_at 4 e else leaf_at (pg_mem w) r q)"
    if "q \<noteq> []" "length q \<le> 4" for q using sl(3) [OF that] by (simp add: m)
qed

text \<open>The descent of \<open>map_4kib\<close>: every outcome leaves the leaves as they were.\<close>

lemma map_4kib_descent:
  assumes ok: "tables_ok r w" and nr: "\<not> kernel_top_write_is_refused (top_index v) fin"
    and d: "bind_pg (ensure_child fin r perms r (top_index v) w) (\<lambda>pdpt w1.
      bind_pg (ensure_child fin r perms pdpt (upper_index v) w1) (\<lambda>pd w2. ensure_child fin r perms pd (middle_index v) w2)) = (res, w')"
  shows "grown (top_index v) r w w'" "res \<noteq> Panic" "res = Ok pt \<Longrightarrow> table_at (pg_mem w') r (pd_path v) = Some pt"
proof -
  have "grown (top_index v) r w w' \<and> res \<noteq> Panic \<and> (\<forall>pt. res = Ok pt \<longrightarrow> table_at (pg_mem w') r (pd_path v) = Some pt)"
  proof -
    obtain x1 w1 where e1: "ensure_child fin r perms r (top_index v) w = (x1, w1)" by (cases "ensure_child fin r perms r (top_index v) w")
    have r0: "table_at (pg_mem w) r [] = Some r" by simp
    note c1 = ensure_child_grown [OF ok r0 _ index_bound(1) _ e1, of "top_index v"]
    have g1: "grown (top_index v) r w w1" using c1(1) by simp
    show ?thesis
    proof (cases x1)
      case (Ok pdpt)
      have t1: "table_at (pg_mem w1) r [top_index v] = Some pdpt" using c1(2) Ok by simp
      obtain x2 w2 where e2: "ensure_child fin r perms pdpt (upper_index v) w1 = (x2, w2)" by (cases "ensure_child fin r perms pdpt (upper_index v) w1")
      note c2 = ensure_child_grown [OF grownD(1) [OF g1] t1 _ index_bound(2) _ e2, of "top_index v"]
      have g2: "grown (top_index v) r w1 w2" using c2(1) by simp
      show ?thesis
      proof (cases x2)
        case ok2: (Ok pd)
        have t2: "table_at (pg_mem w2) r [upper_index v, top_index v] = Some pd" using c2(2) ok2 by simp
        have e3: "ensure_child fin r perms pd (middle_index v) w2 = (res, w')" using d e1 e2 Ok ok2 by (simp add: bind_pg_def)
        note c3 = ensure_child_grown [OF grownD(1) [OF g2] t2 _ index_bound(3) _ e3, of "top_index v"]
        have "grown (top_index v) r w2 w'" using c3(1) by simp
        then show ?thesis using grown_trans [OF g1 grown_trans [OF g2]] c3(2,3) by auto
      qed (use d e1 e2 Ok c2(3) grown_trans [OF g1 g2] in \<open>auto simp: bind_pg_def\<close>)
    qed (use d e1 c1(3) g1 nr in \<open>auto simp: bind_pg_def\<close>)
  qed
  then show "grown (top_index v) r w w'" "res \<noteq> Panic" "res = Ok pt \<Longrightarrow> table_at (pg_mem w') r (pd_path v) = Some pt" by auto
qed

lemma bind_pg_assoc: "bind_pg (bind_pg m f) g = bind_pg m (\<lambda>a s. bind_pg (f a s) g)"
  by (auto simp: bind_pg_def split: prod.splits outcome.splits)

definition small_page :: "phys_addr \<Rightarrow> u64 \<Rightarrow> virt_addr \<Rightarrow> translation" where
  "small_page p e u = \<lparr>tr_phys = PhysAddr (phys_raw p + page_offset u), tr_page_size = Size4KiB, tr_entry = e\<rparr>"

lemma map_4kib_effect:
  assumes ok: "tables_ok r w" and v: "is_canonical (virt_raw v)" and p: "page_aligned p" and m: "map_4kib fin r v p perms w = (res, w')"
  shows "tables_ok r w'" "res \<noteq> Panic"
    "res \<noteq> Ok () \<Longrightarrow> grown (top_index v) r w w'"
    "res = Ok () \<Longrightarrow> leaf_at (pg_mem w) r (pt_path v) = None"
    "res = Ok () \<Longrightarrow> \<exists>pt. table_at (pg_mem w') r (pd_path v) = Some pt \<and> pg_mem w' pt (leaf_index v) = leaf_entry p perms SmallLeaf"
    "\<And>q. q \<noteq> [] \<Longrightarrow> length q \<le> 4 \<Longrightarrow> leaf_at (pg_mem w') r q =
      (if res = Ok () \<and> q = pt_path v then Some (leaf_entry p perms SmallLeaf) else leaf_at (pg_mem w) r q)"
proof -
  let ?e = "leaf_entry p perms SmallLeaf"
  have "tables_ok r w' \<and> res \<noteq> Panic \<and> (res \<noteq> Ok () \<longrightarrow> grown (top_index v) r w w') \<and>
    (res = Ok () \<longrightarrow> leaf_at (pg_mem w) r (pt_path v) = None \<and>
       (\<exists>pt. table_at (pg_mem w') r (pd_path v) = Some pt \<and> pg_mem w' pt (leaf_index v) = ?e)) \<and>
    (\<forall>q. q \<noteq> [] \<longrightarrow> length q \<le> 4 \<longrightarrow> leaf_at (pg_mem w') r q = (if res = Ok () \<and> q = pt_path v then Some ?e else leaf_at (pg_mem w) r q))"
  proof (cases "kernel_mapping_write_is_refused (top_index v) fin False \<or> perm_user perms \<and> writable_and_executable perms")
    case True
    then have "res \<noteq> Ok () \<and> res \<noteq> Panic \<and> w' = w" using m by (auto simp: map_4kib_def split: if_splits)
    then show ?thesis using ok by (auto simp: grown_refl)
  next
    case False
    then have nr: "\<not> kernel_top_write_is_refused (top_index v) fin" by (auto simp: kernel_top_write_is_refused_def kernel_mapping_write_is_refused_def)
    obtain x w1 where d: "bind_pg (ensure_child fin r perms r (top_index v) w) (\<lambda>pdpt w1.
      bind_pg (ensure_child fin r perms pdpt (upper_index v) w1) (\<lambda>pd w2. ensure_child fin r perms pd (middle_index v) w2)) = (x, w1)"
      by fastforce
    note g = map_4kib_descent [OF ok nr d]
    have m1: "(res, w') = bind_pg (x, w1) (\<lambda>pt w3. if is_present (pg_mem w3 pt (leaf_index v)) then (Err AlreadyMapped, w3)
          else (Ok (), write_entry pt (leaf_index v) ?e w3))"
      using m False d [symmetric] unfolding map_4kib_def by (auto simp: bind_pg_assoc split: if_splits)
    note G = grownD [OF g(1)]
    show ?thesis
    proof (cases "\<exists>pt. x = Ok pt \<and> \<not> is_present (pg_mem w1 pt (leaf_index v))")
      case False
      then have "res \<noteq> Ok () \<and> res \<noteq> Panic \<and> w' = w1" using m1 g(2) by (cases x) (auto simp: bind_pg_def split: if_splits)
      then show ?thesis using g(1) G by auto
    next
      case True
      then obtain pt where pt: "x = Ok pt" "\<not> is_present (pg_mem w1 pt (leaf_index v))" by blast
      have t: "table_at (pg_mem w1) r (pd_path v) = Some pt" using g(3) pt(1) by simp
      have w': "res = Ok ()" "w' = write_entry pt (leaf_index v) ?e w1" using m1 pt by (simp_all add: bind_pg_def)
      have len: "length (pd_path v) = 3" by simp
      note sl = tables_ok_set_leaf [OF G(1) t len, where i = "leaf_index v" and e = ?e, folded w'(2)]
      have old: "leaf_at (pg_mem w1) r (pt_path v) = None" using t pt(2) by (simp add: leaf_at_def entry_at_def del: table_at.simps)
      have le: "leaf_entry_at 4 ?e = Some ?e" using leaf_entry_facts(2) [OF p] by (simp add: leaf_entry_at_def)
      have t': "table_at (pg_mem w') r (pd_path v) = Some pt"
      proof -
        have tr: "tree (pg_mem w1) r" using G(1) by (simp add: tables_ok_def)
        have mm: "pg_mem w' = set_entry pt (leaf_index v) ?e (pg_mem w1)" by (simp add: w' write_entry_def set_entry_def)
        have "\<not> through (pt_path v) (pd_path v)" by (auto dest: through_length)
        then show ?thesis unfolding mm using table_at_elsewhere [OF tr t, of "leaf_index v" "pd_path v" ?e] t by (simp del: table_at.simps)
      qed
      have e': "pg_mem w' pt (leaf_index v) = ?e" by (simp add: w' write_entry_def)
      show ?thesis using w'(1) sl(1) sl(2) G(2) old le t' e' by auto
    qed
  qed
  then show "tables_ok r w'" "res \<noteq> Panic" "res \<noteq> Ok () \<Longrightarrow> grown (top_index v) r w w'" "res = Ok () \<Longrightarrow> leaf_at (pg_mem w) r (pt_path v) = None"
    "res = Ok () \<Longrightarrow> \<exists>pt. table_at (pg_mem w') r (pd_path v) = Some pt \<and> pg_mem w' pt (leaf_index v) = ?e"
    "\<And>q. q \<noteq> [] \<Longrightarrow> length q \<le> 4 \<Longrightarrow> leaf_at (pg_mem w') r q = (if res = Ok () \<and> q = pt_path v then Some ?e else leaf_at (pg_mem w) r q)"
    by auto
qed


lemma translate_one_page:
  assumes top: "top_ok m r" "top_ok m' r" and t: "table_at m r (pd_path v) = Some pt \<or> table_at m' r (pd_path v) = Some pt"
    and f: "\<And>q. q \<noteq> [] \<Longrightarrow> length q \<le> 4 \<Longrightarrow> leaf_at m' r q = (if q = pt_path v then l else leaf_at m r q)"
    and c: "is_canonical (virt_raw u)" "is_canonical (virt_raw v)"
  shows "translate m' r u = (if same_page u v then (case l of None \<Rightarrow> Ok None | Some e \<Rightarrow> Ok (Some (small_page (page_address_4k e) e u)))
    else translate m r u)"
proof -
  have above: "leaf_at mm r (pd_path v) = None \<and> leaf_at mm r (pdpt_path v) = None" if "table_at mm r (pd_path v) = Some pt" for mm
    using that leaf_at_table [of mm r "middle_index v" "[upper_index v, top_index v]"] leaf_at_table [of mm r "upper_index v" "[top_index v]"]
    by (auto split: option.splits simp del: table_at.simps simp: table_at.simps(2) [of mm r "middle_index v"])
  have "leaf_at m r (pd_path v) = None \<and> leaf_at m r (pdpt_path v) = None" using t above [of m] above [of m'] f [of "pd_path v"] f [of "pdpt_path v"] by auto
  then show ?thesis
    unfolding translate_by_leaves [OF top(1)] translate_by_leaves [OF top(2)] translate_leaves_def same_page_path [OF c, symmetric]
    using f by (auto simp: translated_small(1) small_page_def split: option.splits)
qed

lemma tables_ok_top: "tables_ok r w \<Longrightarrow> top_ok (pg_mem w) r"
  by (simp add: tables_ok_def)

lemma grown_translate: "grown k r w w' \<Longrightarrow> tables_ok r w \<Longrightarrow> translate (pg_mem w') r u = translate (pg_mem w) r u"
  using grownD(1,2) [of k r w w'] by (simp add: translate_by_leaves tables_ok_top translate_leaves_def cong: option.case_cong)

lemma map_4kib_translate:
  assumes ok: "tables_ok r w" and v: "is_canonical (virt_raw v)" and p: "page_aligned p" and m: "map_4kib fin r v p perms w = (res, w')"
    and u: "is_canonical (virt_raw u)"
  shows "translate (pg_mem w') r u =
    (if res = Ok () \<and> same_page u v then Ok (Some (small_page p (leaf_entry p perms SmallLeaf) u)) else translate (pg_mem w) r u)"
proof (cases "res = Ok ()")
  case True
  note eff = map_4kib_effect [OF ok v p m]
  obtain pt where "table_at (pg_mem w') r (pd_path v) = Some pt" using eff(5) True by blast
  then show ?thesis
    using translate_one_page [OF tables_ok_top [OF ok] tables_ok_top [OF eff(1)], of v pt "Some (leaf_entry p perms SmallLeaf)", OF _ _ u v] eff(6) True
      leaf_entry_facts(1) [OF p] by simp
next
  case False
  then show ?thesis using map_4kib_effect(3) [OF ok v p m] grown_translate ok by simp
qed

lemma map_4kib_was_unmapped:
  assumes ok: "tables_ok r w" and v: "is_canonical (virt_raw v)" and p: "page_aligned p" and m: "map_4kib fin r v p perms w = (Ok (), w')"
    and u: "is_canonical (virt_raw u)" "same_page u v"
  shows "translate (pg_mem w) r u = Ok None"
proof -
  note eff = map_4kib_effect [OF ok v p m]
  obtain pt where "table_at (pg_mem w') r (pd_path v) = Some pt" using eff(5) by blast
  then show ?thesis
    using translate_one_page [OF tables_ok_top [OF eff(1)] tables_ok_top [OF ok], of v pt None, OF _ _ u(1) v] eff(4,6) u(2) by simp
qed

lemma unmap_4kib_effect:
  assumes ok: "tables_ok r w" and v: "is_canonical (virt_raw v)" and m: "unmap_4kib fin r v w = (res, w')"
  shows "tables_ok r w'" "res \<noteq> Panic" "\<And>e. res = Err e \<Longrightarrow> w' = w" "pg_frames w' = pg_frames w"
    and "\<And>x. res = Ok x \<Longrightarrow> leaf_at (pg_mem w) r (pt_path v) = Some (up_entry x) \<and> up_frame x = page_address_4k (up_entry x) \<and>
      (\<exists>pt. table_at (pg_mem w) r (pd_path v) = Some pt)"
    and "\<And>x q. res = Ok x \<Longrightarrow> q \<noteq> [] \<Longrightarrow> length q \<le> 4 \<Longrightarrow> leaf_at (pg_mem w') r q = (if q = pt_path v then None else leaf_at (pg_mem w) r q)"
proof -
  let ?m = "pg_mem w"
  let ?e1 = "?m r (top_index v)" let ?e2 = "?m (table_address ?e1) (upper_index v)" let ?e3 = "?m (table_address ?e2) (middle_index v)"
  let ?pt = "table_address ?e3" let ?e4 = "?m ?pt (leaf_index v)"
  let ?walk = "is_present ?e1 \<and> is_present ?e2 \<and> \<not> is_huge ?e2 \<and> is_present ?e3 \<and> \<not> is_huge ?e3 \<and> is_present ?e4"
  have "tables_ok r w' \<and> res \<noteq> Panic \<and> (\<forall>e. res = Err e \<longrightarrow> w' = w) \<and> pg_frames w' = pg_frames w \<and>
    (\<forall>x. res = Ok x \<longrightarrow> leaf_at ?m r (pt_path v) = Some (up_entry x) \<and> up_frame x = page_address_4k (up_entry x) \<and>
      (\<exists>pt. table_at ?m r (pd_path v) = Some pt) \<and>
      (\<forall>q. q \<noteq> [] \<longrightarrow> length q \<le> 4 \<longrightarrow> leaf_at (pg_mem w') r q = (if q = pt_path v then None else leaf_at ?m r q)))"
  proof (cases "kernel_mapping_write_is_refused (top_index v) fin False \<or> \<not> ?walk")
    case True
    then have "w' = w \<and> (\<exists>e. res = Err e)" using m by (auto simp: unmap_4kib_def locate_pd_def Let_def split: if_splits)
    then show ?thesis using ok by auto
  next
    case False
    then have res: "res = Ok \<lparr>up_frame = page_address_4k ?e4, up_entry = ?e4\<rparr>" "w' = write_entry ?pt (leaf_index v) 0 w"
      using m by (auto simp: unmap_4kib_def locate_pd_def Let_def)
    have "\<not> is_huge ?e1" using False tables_ok_top [OF ok] index_bound(1) [of v] by (auto simp: top_ok_def)
    then have t: "table_at ?m r (pd_path v) = Some ?pt" using False by (simp add: child_of_def index_bound)
    have len: "length (pd_path v) = 3" by simp
    note sl = tables_ok_set_leaf [OF ok t len, where i = "leaf_index v" and e = 0, folded res(2)]
    have "leaf_at ?m r (pt_path v) = Some ?e4" using t False by (simp add: leaf_at_def entry_at_def del: table_at.simps)
    then show ?thesis using res(1) sl(1,2) t by (auto simp: leaf_entry_at_def res(2) write_entry_def)
  qed
  then show "tables_ok r w'" "res \<noteq> Panic" "\<And>e. res = Err e \<Longrightarrow> w' = w" "pg_frames w' = pg_frames w"
    and "\<And>x. res = Ok x \<Longrightarrow> leaf_at ?m r (pt_path v) = Some (up_entry x) \<and> up_frame x = page_address_4k (up_entry x) \<and>
      (\<exists>pt. table_at ?m r (pd_path v) = Some pt)"
    and "\<And>x q. res = Ok x \<Longrightarrow> q \<noteq> [] \<Longrightarrow> length q \<le> 4 \<Longrightarrow> leaf_at (pg_mem w') r q = (if q = pt_path v then None else leaf_at ?m r q)"
    by auto
qed

lemma unmap_4kib_translate:
  assumes ok: "tables_ok r w" and v: "is_canonical (virt_raw v)" and m: "unmap_4kib fin r v w = (res, w')" and u: "is_canonical (virt_raw u)"
  shows "translate (pg_mem w') r u = (if (\<exists>x. res = Ok x) \<and> same_page u v then Ok None else translate (pg_mem w) r u)"
    and "res = Ok x \<Longrightarrow> translate (pg_mem w) r v = Ok (Some (small_page (up_frame x) (up_entry x) v))"
proof -
  note eff = unmap_4kib_effect [OF ok v m]
  show "translate (pg_mem w') r u = (if (\<exists>x. res = Ok x) \<and> same_page u v then Ok None else translate (pg_mem w) r u)"
  proof (cases res)
    case (Ok x)
    obtain pt where "table_at (pg_mem w) r (pd_path v) = Some pt" using eff(5) Ok by blast
    then show ?thesis using translate_one_page [OF tables_ok_top [OF ok] tables_ok_top [OF eff(1)], of v pt None, OF _ _ u v] eff(6) Ok by simp
  qed (use eff(2,3) in auto)
  show "translate (pg_mem w) r v = Ok (Some (small_page (up_frame x) (up_entry x) v))" if "res = Ok x"
  proof -
    obtain pt where t: "table_at (pg_mem w) r (pd_path v) = Some pt" and l: "leaf_at (pg_mem w) r (pt_path v) = Some (up_entry x)" "up_frame x = page_address_4k (up_entry x)"
      using eff(5) \<open>res = Ok x\<close> by blast
    have top: "top_ok (pg_mem w) r" by (rule tables_ok_top [OF ok])
    show ?thesis using translate_one_page [OF top top, of v pt "leaf_at (pg_mem w) r (pt_path v)", OF _ _ v v] t l by (simp add: same_page_def)
  qed
qed


subsection \<open>Properties of mapping and removing\<close>

definition sample_paging :: paging where
  "sample_paging = \<lparr>pg_mem = (\<lambda>_ _. 0), pg_frames = sample_allocator\<rparr>"

lemma zero_tables:
  "table_at (\<lambda>_ _. 0) r p = (if p = [] then Some r else None)" "tables (\<lambda>_ _. 0) r = {r}"
proof -
  show t: "table_at (\<lambda>_ _. 0) r p = (if p = [] then Some r else None)" for p by (cases p) (auto split: option.splits)
  show "tables (\<lambda>_ _. 0) r = {r}" by (auto simp: tables_def t split: if_splits)
qed

lemma sample_paging_ok: "tables_ok (PhysAddr 0x1000) sample_paging"
  by (auto simp: tables_ok_def sample_paging_def tree_def zero_tables top_ok_def fa_invar_def sample_allocator_def end_frame_def DEFAULT_CAPACITY_def
      page_aligned_def ADDR_MASK_4K_def frame_number_def free_frames_def range_frames_def split: if_splits)

lemmas eval_entry = is_present_def is_huge_def is_shared_def table_address_def page_address_4k_def PTE_PRESENT_def PDE_PAGE_SIZE_def PTE_SHARED_def ADDR_MASK_TABLE_def
  ADDR_MASK_4K_def ADDR_MASK_2M_def table_entry_def table_flags_def table_flags_for_def flag_if_def leaf_entry_def leaf_flags_def
  PTE_WRITABLE_def PTE_USER_def PTE_PCD_def PTE_NO_EXECUTE_def PTE_GLOBAL_def

lemmas eval_tables = take_frame_def allocate_frame_def sample_allocator_def from_frame_number_def write_entry_def zero_table_def top_index_def upper_index_def middle_index_def
  leaf_index_def phys_new_def is_valid_phys_def PHYS_ADDR_BITS_def



lemma sample_map_succeeds:
  "fst (map_4kib False (PhysAddr 0x1000) (VirtAddr 0x400000) (PhysAddr 0x2000) kernel_data sample_paging) = Ok ()"
  by (simp add: map_4kib_def ensure_child_def bind_pg_def sample_paging_def eval_tables eval_entry kernel_data_def
      kernel_mapping_write_is_refused_def kernel_top_write_is_refused_def)

lemma sample_page_facts: "page_aligned (PhysAddr 0x2000)" "is_canonical (virt_raw (VirtAddr 0x400000))" "is_canonical (virt_raw (VirtAddr 0x400123))"
  by (simp_all add: page_aligned_def ADDR_MASK_4K_def is_canonical_iff)

text \<open>C12: Mapping a page in tables that are a tree of frames of their own never panics, keeps them so, and if it
  succeeds changes the translation of the addresses of that page and no other: they translate to the given
  frame with the given permissions, and translated to nothing before. If it fails no translation changes.\<close>

theorem map_4kib_maps_exactly_one_page:
  assumes "tables_ok r w" "is_canonical (virt_raw v)" "page_aligned p" "map_4kib finished r v p perms w = (res, w')"
  shows "tables_ok r w' \<and> res \<noteq> Panic \<and>
    (\<forall>u. is_canonical (virt_raw u) \<longrightarrow>
       (if res = Ok () \<and> same_page u v
        then translate (pg_mem w) r u = Ok None \<and> translate (pg_mem w') r u = Ok (Some (small_page p (leaf_entry p perms SmallLeaf) u))
        else translate (pg_mem w') r u = translate (pg_mem w) r u))"
  using map_4kib_effect(1,2) [OF assms] map_4kib_translate [OF assms] map_4kib_was_unmapped [OF assms(1-3)] assms(4) by auto

theorem map_4kib_maps_exactly_one_page_witness:
  "\<exists>w'. map_4kib False (PhysAddr 0x1000) (VirtAddr 0x400000) (PhysAddr 0x2000) kernel_data sample_paging = (Ok (), w') \<and>
     tr_phys (small_page (PhysAddr 0x2000) 0 (VirtAddr 0x400123)) = PhysAddr 0x2123 \<and>
     translate (pg_mem w') (PhysAddr 0x1000) (VirtAddr 0x400123) =
       Ok (Some (small_page (PhysAddr 0x2000) (leaf_entry (PhysAddr 0x2000) kernel_data SmallLeaf) (VirtAddr 0x400123)))"
proof -
  obtain res w' where m: "map_4kib False (PhysAddr 0x1000) (VirtAddr 0x400000) (PhysAddr 0x2000) kernel_data sample_paging = (res, w')" by fastforce
  then have r: "res = Ok ()" using sample_map_succeeds by simp
  have "same_page (VirtAddr 0x400123) (VirtAddr 0x400000)" by (simp add: same_page_def)
  then show ?thesis
    using map_4kib_maps_exactly_one_page [OF sample_paging_ok sample_page_facts(2,1) m] m r sample_page_facts(3)
    by (simp add: small_page_def page_offset_def)
qed

text \<open>C13: A page that has just been mapped can be removed again: the call gives back the frame that was mapped, and
  every address translates as it did before the page was mapped.\<close>

theorem map_unmap_round_trip:
  assumes "tables_ok r w" "is_canonical (virt_raw v)" "page_aligned p" "map_4kib finished r v p perms w = (Ok (), w1)"
  shows "\<exists>x w2. unmap_4kib finished r v w1 = (Ok x, w2) \<and> up_frame x = p \<and> tables_ok r w2 \<and>
    (\<forall>u. is_canonical (virt_raw u) \<longrightarrow> translate (pg_mem w2) r u = translate (pg_mem w) r u)"
proof -
  note eff = map_4kib_effect [OF assms]
  have old: "translate (pg_mem w) r u = Ok None" if "is_canonical (virt_raw u)" "same_page u v" for u
    by (rule map_4kib_was_unmapped [OF assms that])
  obtain pt where pt: "table_at (pg_mem w1) r (pd_path v) = Some pt" "pg_mem w1 pt (leaf_index v) = leaf_entry p perms SmallLeaf"
    using eff(5) by blast
  have nr: "\<not> kernel_mapping_write_is_refused (top_index v) finished False" using assms(4) by (auto simp: map_4kib_def split: if_splits)
  obtain x w2 where u: "unmap_4kib finished r v w1 = (x, w2)" by fastforce
  have "x = Ok \<lparr>up_frame = page_address_4k (leaf_entry p perms SmallLeaf), up_entry = leaf_entry p perms SmallLeaf\<rparr>"
    using u pt nr leaf_entry_facts(2) [OF assms(3)]
    by (auto simp: unmap_4kib_def locate_pd_def Let_def child_of_def split: option.splits if_splits)
  then show ?thesis
    using u leaf_entry_facts(1) [OF assms(3)] unmap_4kib_effect(1) [OF eff(1) assms(2) u] unmap_4kib_translate(1) [OF eff(1) assms(2) u]
      map_4kib_translate [OF assms] old by auto
qed

theorem map_unmap_round_trip_witness:
  "\<exists>w1 x w2. map_4kib False (PhysAddr 0x1000) (VirtAddr 0x400000) (PhysAddr 0x2000) kernel_data sample_paging = (Ok (), w1) \<and>
     unmap_4kib False (PhysAddr 0x1000) (VirtAddr 0x400000) w1 = (Ok x, w2) \<and> up_frame x = PhysAddr 0x2000"
proof -
  obtain res w1 where m: "map_4kib False (PhysAddr 0x1000) (VirtAddr 0x400000) (PhysAddr 0x2000) kernel_data sample_paging = (res, w1)" by fastforce
  then have "map_4kib False (PhysAddr 0x1000) (VirtAddr 0x400000) (PhysAddr 0x2000) kernel_data sample_paging = (Ok (), w1)" using sample_map_succeeds by simp
  then show ?thesis using map_unmap_round_trip [OF sample_paging_ok sample_page_facts(2,1)] by blast
qed

subsection \<open>Splitting a large page\<close>

lemma small_nat_bits:
  assumes "i < 512"
  shows "bit (word_of_nat i * PAGE_SIZE_4K :: u64) n \<longleftrightarrow> 12 \<le> n \<and> n < 21 \<and> bit i (n - 12)"
proof -
  have w: "(word_of_nat i * PAGE_SIZE_4K :: u64) = push_bit 12 (word_of_nat i)" by (simp add: push_bit_eq_mult PAGE_SIZE_4K_def)
  have "i = take_bit 9 i" using assms by (simp add: take_bit_nat_eq_self)
  then have "bit i k \<Longrightarrow> k < 9" for k by (metis bit_take_bit_iff)
  then show ?thesis unfolding w by (auto simp: bit_push_bit_iff bit_of_nat_iff) fastforce
qed

lemma split_child_bits:
  assumes "i < 512"
  shows "bit (split_child_entry e i) n \<longleftrightarrow>
    (n < 5 \<or> 8 \<le> n \<and> n < 12 \<or> 21 \<le> n) \<and> bit e n \<or> n = 7 \<and> bit e 12 \<or> 12 \<le> n \<and> n < 21 \<and> bit i (n - 12)"
proof -
  have add: "phys_raw (page_address_2m e) + word_of_nat i * PAGE_SIZE_4K = phys_raw (page_address_2m e) OR word_of_nat i * PAGE_SIZE_4K"
    by (rule disjoint_plus(1)) (auto simp: page_address_bits small_nat_bits [OF assms])
  have pat: "e AND PDE_HUGE_PAT \<noteq> 0 \<longleftrightarrow> bit e 12" unfolding flag_bits flag_set ..
  have below: "bit PDE_HUGE_BELOW_ADDRESS n \<longleftrightarrow> 12 \<le> n \<and> n < 21"
    unfolding PDE_HUGE_BELOW_ADDRESS_def by (auto simp: bit_and_iff bit_not_iff mask_bits dest: bit_imp_le_length)
  have low: "bit e n \<Longrightarrow> n < 64" by (drule bit_imp_le_length) simp
  define F where "F = e AND NOT (PDE_PAGE_SIZE OR PDE_HUGE_PAT OR PTE_ACCESSED OR PTE_DIRTY OR ADDR_MASK_2M) AND NOT PDE_HUGE_BELOW_ADDRESS"
  have fl: "bit F n \<longleftrightarrow> bit e n \<and> (n < 5 \<or> 8 \<le> n \<and> n < 12 \<or> 52 \<le> n)"
    unfolding F_def flag_bits bit_and_iff bit_or_iff bit_not_iff bit_flag mask_bits below using low by auto
  have pb: "bit PTE_PAT n \<longleftrightarrow> n = 7" unfolding flag_bits bit_flag by auto
  have s: "bit (split_child_entry e i) n \<longleftrightarrow> bit e n \<and> 21 \<le> n \<and> n < 52 \<or> 12 \<le> n \<and> n < 21 \<and> bit i (n - 12) \<or>
      bit e n \<and> (n < 5 \<or> 8 \<le> n \<and> n < 12 \<or> 52 \<le> n) \<or> bit e 12 \<and> n = 7"
    unfolding split_child_entry_def Let_def add pat F_def [symmetric]
    by (simp add: bit_or_iff fl pb page_address_bits small_nat_bits [OF assms])
  consider "n < 12" | "12 \<le> n" "n < 21" | "21 \<le> n" "n < 52" | "52 \<le> n" by linarith
  then show ?thesis unfolding s by cases auto
qed

lemma leaf_index_bits: "bit (leaf_index u) k \<longleftrightarrow> k < 9 \<and> bit (virt_raw u) (k + 12)"
  unfolding leaf_index_def index_mask by (auto simp: bit_unsigned_iff bit_and_iff bit_mask_iff bit_drop_bit_eq add.commute dest: bit_imp_le_length)

lemma split_child_address:
  "phys_raw (page_address_4k (split_child_entry e (leaf_index u))) + page_offset u = phys_raw (page_address_2m e) + (virt_raw u AND (PAGE_SIZE_2M - 1))"
proof -
  note b = split_child_bits [OF index_bound(4) [of u], of e]
  have l: "phys_raw (page_address_4k (split_child_entry e (leaf_index u))) + page_offset u = phys_raw (page_address_4k (split_child_entry e (leaf_index u))) OR page_offset u"
    by (rule disjoint_plus(1)) (auto simp: page_address_bits offset_bits)
  have r: "phys_raw (page_address_2m e) + (virt_raw u AND (PAGE_SIZE_2M - 1)) = phys_raw (page_address_2m e) OR (virt_raw u AND (PAGE_SIZE_2M - 1))"
    by (rule disjoint_plus(1)) (auto simp: page_address_bits offset_bits)
  show ?thesis unfolding l r
    by (rule bit_word_eqI) (auto simp: bit_or_iff page_address_bits offset_bits b leaf_index_bits)
qed

text \<open>What an entry that maps a page says of it besides the address: present, writable, for the user, the
  caching bits, global, and no execution. The bit of the page attribute table is elsewhere for a large page.\<close>

definition page_attributes :: "translation \<Rightarrow> bool list" where
  "page_attributes t = (let e = tr_entry t in
     [bit e 0, bit e 1, bit e 2, bit e 3, bit e 4, (case tr_page_size t of Size4KiB \<Rightarrow> bit e 7 | Size2MiB \<Rightarrow> bit e 12), bit e 8, bit e 9, bit e 63])"

definition same_mapping :: "(translate_error, translation option) outcome \<Rightarrow> (translate_error, translation option) outcome \<Rightarrow> bool" where
  "same_mapping x y \<longleftrightarrow>
     (case (x, y) of (Ok (Some a), Ok (Some b)) \<Rightarrow> tr_phys a = tr_phys b \<and> page_attributes a = page_attributes b | _ \<Rightarrow> x = y)"

lemma same_mapping_refl [simp]: "same_mapping x x"
  by (auto simp: same_mapping_def split: outcome.splits option.splits)

lemma fill_table_mem:
  "pg_mem (fill_table t es w) = (pg_mem w)(t := (\<lambda>i. if i < length es then es ! i else pg_mem w t i))" "pg_frames (fill_table t es w) = pg_frames w"
proof -
  have "pg_mem (fold (\<lambda>(i, e). write_entry t i e) (enumerate n es) w) = (pg_mem w)(t := (\<lambda>i. if n \<le> i \<and> i < n + length es then es ! (i - n) else pg_mem w t i)) \<and>
    pg_frames (fold (\<lambda>(i, e). write_entry t i e) (enumerate n es) w) = pg_frames w" for n
  proof (induction es arbitrary: n w)
    case (Cons e es)
    have "(\<lambda>i. if Suc n \<le> i \<and> i < Suc n + length es then es ! (i - Suc n) else pg_mem (write_entry t n e w) t i) =
      (\<lambda>i. if n \<le> i \<and> i < n + length (e # es) then (e # es) ! (i - n) else pg_mem w t i)"
      by (auto simp: fun_eq_iff write_entry_def nth_Cons')
    then show ?case using Cons [of "Suc n" "write_entry t n e w"] by (simp add: write_entry_def fun_upd_def fun_eq_iff)
  qed (auto simp: fun_eq_iff)
  from this [of 0] show "pg_mem (fill_table t es w) = (pg_mem w)(t := (\<lambda>i. if i < length es then es ! i else pg_mem w t i))" "pg_frames (fill_table t es w) = pg_frames w"
    by (simp_all add: fill_table_def fun_upd_def cong: if_cong)
qed

lemma canonical_same_large_page: "is_canonical (x AND NOT (PAGE_SIZE_2M - 1)) = is_canonical x"
proof -
  have m: "PAGE_SIZE_2M - 1 = mask 21" by (simp add: PAGE_SIZE_2M_def mask_eq_exp_minus_1)
  have "bit (x AND NOT (mask 21)) n = bit x n" if "21 \<le> n" "n < 64" for n :: nat
    using that by (simp add: bit_and_iff bit_not_iff bit_mask_iff)
  moreover have "is_canonical y \<longleftrightarrow> (\<forall>n. 47 \<le> n \<and> n < 64 \<longrightarrow> bit y n = bit y 47)" for y
    unfolding is_canonical_bits by (metis le_cases min.absorb1 min.absorb2)
  ultimately show ?thesis unfolding m by simp
qed

lemma split_table_entry_facts:
  assumes "page_aligned t"
  shows "child_of (table_entry_for_split e t) = Some t" "bit (table_entry_for_split e t) 1" "bit (table_entry_for_split e t) 2 = bit e 2"
    "\<not> bit (table_entry_for_split e t) 63"
proof -
  have "table_entry_for_split e t = table_entry t (if bit e 2 then kernel_data\<lparr>perm_user := True\<rparr> else kernel_data\<lparr>perm_user := False\<rparr>)"
    by (simp add: table_entry_for_split_def table_entry_def table_flags_def entry_tests)
  then show "child_of (table_entry_for_split e t) = Some t" "bit (table_entry_for_split e t) 1" "bit (table_entry_for_split e t) 2 = bit e 2"
    "\<not> bit (table_entry_for_split e t) 63"
    using table_entry_facts [OF assms] by (simp_all add: child_facts)
qed


lemma split_huge_page_effect:
  assumes ok: "tables_ok r w" and v: "is_canonical (virt_raw v)" and m: "split_huge_page fin r v w = (res, w')"
  shows "tables_ok r w'" "res \<noteq> Panic"
    and "\<And>x q. res = Ok x \<Longrightarrow> q \<noteq> [] \<Longrightarrow> length q \<le> 4 \<Longrightarrow> leaf_at (pg_mem w') r q =
      (if q = pd_path v then None else if \<exists>j. q = j # pd_path v then (if hd q < 512 then Some (split_child_entry (so_huge_entry x) (hd q)) else None)
       else leaf_at (pg_mem w) r q)"
    and "\<And>x. res = Ok x \<Longrightarrow> leaf_at (pg_mem w) r (pd_path v) = Some (so_huge_entry x) \<and> leaf_at (pg_mem w) r (pdpt_path v) = None"
    and "\<And>e. res = Err e \<Longrightarrow> pg_mem w' = pg_mem w"
    and "\<And>x. res = Ok x \<Longrightarrow> \<exists>t. page_aligned t \<and> (\<forall>q. q \<noteq> [] \<longrightarrow> length q \<le> 4 \<longrightarrow> entry_at (pg_mem w') r q =
      (if q = pd_path v then table_entry_for_split (so_huge_entry x) t
       else if tl q = pd_path v then (if hd q < 512 then split_child_entry (so_huge_entry x) (hd q) else 0) else entry_at (pg_mem w) r q))"
proof -
  let ?m = "pg_mem w"
  let ?e1 = "?m r (top_index v)" let ?e2 = "?m (table_address ?e1) (upper_index v)" let ?pd = "table_address ?e2" let ?e3 = "?m ?pd (middle_index v)"
  let ?walk = "is_present ?e1 \<and> is_present ?e2 \<and> \<not> is_huge ?e2 \<and> is_present ?e3 \<and> is_huge ?e3 \<and> \<not> bit ?e3 8"
  let ?new = "\<lambda>q. if q = pd_path v then None else if \<exists>j. q = j # pd_path v then (if hd q < 512 then Some (split_child_entry ?e3 (hd q)) else None)
       else leaf_at ?m r q"
  let ?entries = "\<lambda>t q. if q = pd_path v then table_entry_for_split ?e3 t
       else if tl q = pd_path v then (if hd q < 512 then split_child_entry ?e3 (hd q) else 0) else entry_at ?m r q"
  have "tables_ok r w' \<and> res \<noteq> Panic \<and> (\<forall>e. res = Err e \<longrightarrow> pg_mem w' = ?m) \<and>
    (\<forall>x. res = Ok x \<longrightarrow> so_huge_entry x = ?e3 \<and> leaf_at ?m r (pd_path v) = Some ?e3 \<and> leaf_at ?m r (pdpt_path v) = None \<and>
      (\<exists>t. page_aligned t \<and> (\<forall>q. q \<noteq> [] \<longrightarrow> length q \<le> 4 \<longrightarrow> entry_at (pg_mem w') r q = ?entries t q)) \<and>
      (\<forall>q. q \<noteq> [] \<longrightarrow> length q \<le> 4 \<longrightarrow> leaf_at (pg_mem w') r q = ?new q))"
  proof (cases "kernel_mapping_write_is_refused (top_index v) fin False \<or> \<not> ?walk")
    case True
    then have "w' = w \<and> (\<exists>e. res = Err e)" using m by (auto simp: split_huge_page_def locate_pd_def Let_def entry_tests split: if_splits)
    then show ?thesis using ok by auto
  next
    case walk: False
    obtain w1 y where tk: "take_frame w = (w1, y)" by (cases "take_frame w")
    have base: "virt_new (virt_raw v AND NOT (PAGE_SIZE_2M - 1)) \<noteq> None" using v canonical_same_large_page by (simp add: virt_new_def)
    show ?thesis
    proof (cases y)
      case None
      then have "w' = w1 \<and> (\<exists>e. res = Err e)" using m walk tk by (auto simp: split_huge_page_def locate_pd_def Let_def entry_tests split: if_splits)
      then show ?thesis using take_frame_cases [OF ok tk] by auto
    next
      case (Some t)
      let ?f = "\<lambda>i. if i < 512 then split_child_entry ?e3 i else 0" and ?e = "table_entry_for_split ?e3 t"
      note tk' = take_frame_cases [OF ok tk]
      note tc = tk'(4) [OF Some]
      have w': "w' = write_entry ?pd (middle_index v) ?e (fill_table t (split_children ?e3) (zero_table t w1))" "\<exists>x. res = Ok x \<and> so_huge_entry x = ?e3"
        using m walk tk Some base tk'(1) by (auto simp: split_huge_page_def locate_pd_def Let_def entry_tests split: if_splits option.splits)
      have m': "pg_mem w' = set_entry ?pd (middle_index v) ?e (?m(t := ?f))"
        by (simp add: w' write_entry_def set_entry_def fill_table_mem zero_table_def tk'(1) split_children_def ENTRIES_PER_TABLE_def fun_upd_def fun_eq_iff)
      have fr: "pg_frames w' = pg_frames w1" by (simp add: w' write_entry_def fill_table_mem zero_table_def)
      have tr: "tree ?m r" "top_ok ?m r" using ok by (simp_all add: tables_ok_def)
      have nh: "\<not> is_huge ?e1" using walk tr(2) index_bound(1) [of v] by (auto simp: top_ok_def)
      have p: "table_at ?m r (pdpt_path v) = Some ?pd" using walk nh by (simp add: child_of_def index_bound)
      have none: "child_of ?e3 = None" using walk by (simp add: child_of_def)
      have al: "page_aligned t" "t \<notin> tables ?m r" using tc by simp_all
      note ce = split_table_entry_facts(1) [OF al(1), of ?e3]
      have len: "length (pdpt_path v) \<le> 2" by simp
      note att = attach_table [OF tr(1) p len index_bound(3) none al(2) ce, of ?f, folded m']
      have ent: "entry_at (pg_mem w') r q = ?entries t q" if "q \<noteq> []" "length q \<le> 4" for q
        unfolding m' by (subst attach_entries [OF tr(1) p len index_bound(3) none al(2) ce _ that]) auto
      have pdr: "?pd \<noteq> r" using tree_inj [OF tr(1) p, of "[]"] by auto
      have tr': "t \<noteq> r" using al(2) by auto
      have top: "top_ok (pg_mem w') r" using tr(2) pdr tr' by (simp add: top_ok_def m' set_entry_def)
      have ok': "tables_ok r w'"
        unfolding tables_ok_def fr using att(1,2) top tk'(2) tc by (auto simp: tables_ok_def tk'(1))
      have q: "leaf_at (pg_mem w') r q = ?new q" if q: "q \<noteq> []" "length q \<le> 4" for q
      proof (cases "through (pd_path v) q")
        case True
        then obtain s where s: "q = s @ pd_path v" by (auto simp: through_def)
        then consider "q = pd_path v" | j where "q = j # pd_path v" using q(2) by (cases s) auto
        then show ?thesis
        proof cases
          case 1
          then show ?thesis using att(4) [OF _ q] by simp
        next
          case 2
          have "is_present (split_child_entry ?e3 j)" if "j < 512" using split_child_bits [OF that, of ?e3 0] walk by (simp add: entry_tests)
          then show ?thesis using att(4) [OF _ q] 2 by (auto simp: leaf_entry_at_def through_Cons)
        qed
      next
        case False
        then show ?thesis using att(4) [OF _ q] by (auto simp: through_Cons)
      qed
      have "leaf_at ?m r (pd_path v) = Some ?e3" using p walk by (simp add: leaf_at_def entry_at_def del: table_at.simps)
      moreover have "leaf_at ?m r (pdpt_path v) = None" using p leaf_at_table [of ?m r "upper_index v" "[top_index v]"] by (simp del: table_at.simps)
      moreover have "\<exists>t. page_aligned t \<and> (\<forall>q. q \<noteq> [] \<longrightarrow> length q \<le> 4 \<longrightarrow> entry_at (pg_mem w') r q = ?entries t q)" using al(1) ent by blast
      ultimately show ?thesis using ok' w'(2) q by auto
    qed
  qed
  then show "tables_ok r w'" "res \<noteq> Panic"
    and "\<And>x q. res = Ok x \<Longrightarrow> q \<noteq> [] \<Longrightarrow> length q \<le> 4 \<Longrightarrow> leaf_at (pg_mem w') r q =
      (if q = pd_path v then None else if \<exists>j. q = j # pd_path v then (if hd q < 512 then Some (split_child_entry (so_huge_entry x) (hd q)) else None)
       else leaf_at ?m r q)"
    and "\<And>x. res = Ok x \<Longrightarrow> leaf_at ?m r (pd_path v) = Some (so_huge_entry x) \<and> leaf_at ?m r (pdpt_path v) = None"
    and "\<And>e. res = Err e \<Longrightarrow> pg_mem w' = ?m"
    and "\<And>x. res = Ok x \<Longrightarrow> \<exists>t. page_aligned t \<and> (\<forall>q. q \<noteq> [] \<longrightarrow> length q \<le> 4 \<longrightarrow> entry_at (pg_mem w') r q =
      (if q = pd_path v then table_entry_for_split (so_huge_entry x) t
       else if tl q = pd_path v then (if hd q < 512 then split_child_entry (so_huge_entry x) (hd q) else 0) else entry_at ?m r q))" by auto
qed

text \<open>The access rights of every address, over all the levels of the tables: the entry that now leads to the table
  must not take away what the large page allowed.\<close>

lemma split_keeps_rights:
  assumes ok: "tables_ok r w" and v: "is_canonical (virt_raw v)" and m: "split_huge_page fin r v w = (Ok x, w')"
  shows "cpu_rights (pg_mem w') r u = cpu_rights (pg_mem w) r u"
proof -
  let ?e = "so_huge_entry x"
  note eff = split_huge_page_effect [OF ok v m]
  obtain t where t: "page_aligned t" and ent: "\<And>q. q \<noteq> [] \<Longrightarrow> length q \<le> 4 \<Longrightarrow> entry_at (pg_mem w') r q =
      (if q = pd_path v then table_entry_for_split ?e t
       else if tl q = pd_path v then (if hd q < 512 then split_child_entry ?e (hd q) else 0) else entry_at (pg_mem w) r q)" using eff(6) by blast
  note walks = cpu_walk_entries [OF tables_ok_top [OF ok]] cpu_walk_entries [OF tables_ok_top [OF eff(1)]]
  have old: "entry_at (pg_mem w) r (pd_path v) = ?e" "is_present ?e" "is_huge ?e"
    using eff(4) by (auto simp: leaf_at_def Let_def split: if_splits)
  have new: "is_present (table_entry_for_split ?e t)" "\<not> is_huge (table_entry_for_split ?e t)" using split_table_entry_facts(1) [OF t, of ?e] by (simp_all add: child_facts)
  have child: "is_present (split_child_entry ?e (leaf_index u))" using old(2) split_child_bits [OF index_bound(4) [of u], of ?e] by (simp add: entry_tests)
  show ?thesis
  proof (cases "pd_path u = pd_path v")
    case True
    then have "entry_at (pg_mem w') r (pd_path u) = table_entry_for_split ?e t" "entry_at (pg_mem w') r (pt_path u) = split_child_entry ?e (leaf_index u)"
      "entry_at (pg_mem w) r (pd_path u) = ?e" "entry_at (pg_mem w') r (pdpt_path u) = entry_at (pg_mem w) r (pdpt_path u)"
      "entry_at (pg_mem w') r [top_index u] = entry_at (pg_mem w) r [top_index u]" using ent old(1) by (simp_all add: index_bound)
    then show ?thesis using old(2,3) new child split_table_entry_facts(2-4) [OF t, of ?e] split_child_bits [OF index_bound(4) [of u], of ?e]
      unfolding cpu_rights_def walks Let_def by simp
  next
    case False
    then have "entry_at (pg_mem w') r q = entry_at (pg_mem w) r q" if "q \<in> {[top_index u], pdpt_path u, pd_path u, pt_path u}" for q using that ent by auto
    then show ?thesis unfolding cpu_rights_def walks Let_def by simp
  qed
qed

text \<open>Tables with one large page.\<close>

definition sample_large :: paging where
  "sample_large = \<lparr>pg_mem = (\<lambda>t i. if i \<noteq> 0 then 0 else if t = PhysAddr 0x1000 then 0x2003 else if t = PhysAddr 0x2000 then 3 else if t = PhysAddr 0 then 0x200083 else 0),
     pg_frames = sample_allocator\<rparr>"

lemma sample_large_tables:
  assumes "length p \<le> 3"
  shows "table_at (pg_mem sample_large) (PhysAddr 0x1000) p =
    (if p = [] then Some (PhysAddr 0x1000) else if p = [0] then Some (PhysAddr 0x2000) else if p = [0, 0] then Some (PhysAddr 0) else None)"
proof -
  consider "p = []" | i where "p = [i]" | i j where "p = [i, j]" | i j k where "p = [i, j, k]"
    using assms by (cases p; cases "tl p"; cases "tl (tl p)"; cases "tl (tl (tl p))") auto
  then show ?thesis by cases (auto simp: sample_large_def child_of_def eval_entry)
qed

lemma sample_large_ok: "tables_ok (PhysAddr 0x1000) sample_large"
proof -
  have "tree (pg_mem sample_large) (PhysAddr 0x1000)" unfolding tree_def using sample_large_tables by (auto split: if_splits)
  moreover have "tables (pg_mem sample_large) (PhysAddr 0x1000) \<subseteq> {PhysAddr 0x1000, PhysAddr 0x2000, PhysAddr 0}"
    unfolding tables_def using sample_large_tables by (auto split: if_splits)
  moreover have "top_ok (pg_mem sample_large) (PhysAddr 0x1000)" by (simp add: top_ok_def sample_large_def eval_entry)
  ultimately show ?thesis using sample_paging_ok
    by (auto simp: tables_ok_def sample_paging_def sample_large_def sample_allocator_facts page_aligned_def ADDR_MASK_4K_def frame_number_def)
qed

lemma sample_split_succeeds:
  "\<exists>x w'. split_huge_page False (PhysAddr 0x1000) (VirtAddr 0x1000) sample_large = (Ok x, w')"
  by (simp add: split_huge_page_def locate_pd_def kernel_mapping_write_is_refused_def sample_large_def eval_tables eval_entry Let_def
      virt_new_def is_canonical_iff PAGE_SIZE_2M_def)

text \<open>C14: Splitting a large page into small ones never panics and keeps the translation of every address: the same physical
  address with the same attributes in the entry that maps it, and the same rights to write, to use from a user
  program and to execute when the entries of all levels are taken together, although a table has taken the place of
  the entry.\<close>

theorem split_keeps_every_translation:
  assumes "tables_ok r w" "is_canonical (virt_raw v)" "split_huge_page finished r v w = (res, w')"
  shows "tables_ok r w' \<and> res \<noteq> Panic \<and>
    (\<forall>u. same_mapping (translate (pg_mem w) r u) (translate (pg_mem w') r u) \<and> cpu_rights (pg_mem w') r u = cpu_rights (pg_mem w) r u)"
proof -
  note eff = split_huge_page_effect [OF assms]
  have "same_mapping (translate (pg_mem w) r u) (translate (pg_mem w') r u)" for u
  proof (cases res)
    case (Ok x)
    let ?e = "so_huge_entry x"
    note leaves = eff(3) [OF Ok] and old = eff(4) [OF Ok]
    note tops = translate_by_leaves [OF tables_ok_top [OF assms(1)]] translate_by_leaves [OF tables_ok_top [OF eff(1)]]
    show ?thesis
    proof (cases "pd_path u = pd_path v")
      case True
      then have "pdpt_path u = pdpt_path v" by simp
      then show ?thesis using True old leaves split_child_address [of ?e u] split_child_bits [OF index_bound(4) [of u], of ?e]
        by (simp add: tops translate_leaves_def translated_small(1) translated_large(1) same_mapping_def page_attributes_def Let_def index_bound)
    next
      case False
      then have "leaf_at (pg_mem w') r (pdpt_path u) = leaf_at (pg_mem w) r (pdpt_path u)" "leaf_at (pg_mem w') r (pd_path u) = leaf_at (pg_mem w) r (pd_path u)"
        "leaf_at (pg_mem w') r (pt_path u) = leaf_at (pg_mem w) r (pt_path u)" using leaves [of "pdpt_path u"] leaves [of "pd_path u"] leaves [of "pt_path u"] by auto
      then show ?thesis unfolding tops translate_leaves_def by (simp cong: option.case_cong)
    qed
  qed (use eff(2,5) in simp_all)
  moreover have "cpu_rights (pg_mem w') r u = cpu_rights (pg_mem w) r u" for u
  proof (cases res)
    case (Ok x)
    then show ?thesis using split_keeps_rights [OF assms(1,2)] assms(3) by simp
  qed (use eff(2,5) in simp_all)
  ultimately show ?thesis using eff(1,2) by simp
qed

theorem split_keeps_every_translation_witness:
  "\<exists>x w' a b. split_huge_page False (PhysAddr 0x1000) (VirtAddr 0x1000) sample_large = (Ok x, w') \<and>
     translate (pg_mem sample_large) (PhysAddr 0x1000) (VirtAddr 0x1234) = Ok (Some a) \<and> tr_phys a = PhysAddr 0x201234 \<and>
     translate (pg_mem w') (PhysAddr 0x1000) (VirtAddr 0x1234) = Ok (Some b) \<and> tr_phys b = PhysAddr 0x201234 \<and> page_attributes b = page_attributes a \<and>
     cpu_rights (pg_mem w') (PhysAddr 0x1000) (VirtAddr 0x1234) = Some (True, False, True)"
proof -
  obtain x w' where m: "split_huge_page False (PhysAddr 0x1000) (VirtAddr 0x1000) sample_large = (Ok x, w')" using sample_split_succeeds by blast
  have c: "is_canonical (virt_raw (VirtAddr 0x1000))" by (simp add: is_canonical_iff)
  have a: "translate (pg_mem sample_large) (PhysAddr 0x1000) (VirtAddr 0x1234) =
    Ok (Some \<lparr>tr_phys = PhysAddr 0x201234, tr_page_size = Size2MiB, tr_entry = 0x200083\<rparr>)" (is "_ = Ok (Some ?a)")
    by (simp add: translate_def sample_large_def eval_tables eval_entry page_address_2m_def PAGE_SIZE_2M_def translated_def phys_checked_add_def checked_add_def Let_def)
  have "cpu_rights (pg_mem sample_large) (PhysAddr 0x1000) (VirtAddr 0x1234) = Some (True, False, True)"
    by (simp add: cpu_rights_def cpu_walk_levels sample_large_def eval_tables eval_entry)
  moreover have "cpu_rights (pg_mem w') (PhysAddr 0x1000) (VirtAddr 0x1234) = cpu_rights (pg_mem sample_large) (PhysAddr 0x1000) (VirtAddr 0x1234)"
    using split_keeps_every_translation [OF sample_large_ok c m] by blast
  moreover have "same_mapping (translate (pg_mem sample_large) (PhysAddr 0x1000) (VirtAddr 0x1234)) (translate (pg_mem w') (PhysAddr 0x1000) (VirtAddr 0x1234))"
    using split_keeps_every_translation [OF sample_large_ok c m] by blast
  ultimately show ?thesis using m a unfolding same_mapping_def by (fastforce split: outcome.splits option.splits)
qed

end
