(* ===== verification/Page_Build.thy ===== *)
theory Page_Build
  imports Page_Map Page_Plan
begin

unbundle bit_operations_syntax

text \<open>
  Building the kernel's tables from the plan (\<open>build_and_switch_direct_map\<close> of \<open>kernel/src/main.rs\<close> up to the switch, with
  \<open>arch/x86_64/paging/table.rs\<close>): what a page and a range that the builder maps translate to, then a list of parts mapped
  one after the other (the last one wins), and so the identity, the window of the direct map and the image together.
\<close>

abbreviation va :: "virt_addr \<Rightarrow> nat" where
  "va v \<equiv> unat (virt_raw v)"

definition leaf_span :: "bool \<Rightarrow> nat" where
  "leaf_span huge = (if huge then 0x200000 else 4096)"

lemma through_Nil: "through p [] \<longleftrightarrow> p = []"
  by (simp add: through_def)

lemma builder_child_grown:
  assumes ok: "tables_ok r w" and p: "table_at (pg_mem w) r p = Some t" "length p \<le> 2" "i < 512" "along k (i # p)"
    and e: "builder_ensure_child t i (b, w) = (res, b', w')"
  shows "grown k r w w'" "res \<noteq> Panic" "bl_root b' = bl_root b" "res = Ok c \<Longrightarrow> table_at (pg_mem w') r (i # p) = Some c"
proof -
  let ?e = "pg_mem w t i"
  have "grown k r w w' \<and> res \<noteq> Panic \<and> bl_root b' = bl_root b \<and> (\<forall>c. res = Ok c \<longrightarrow> table_at (pg_mem w') r (i # p) = Some c)"
  proof (cases "is_present ?e")
    case True
    then show ?thesis using e p ok by (auto simp: builder_ensure_child_def Let_def grown_refl child_of_def split: if_splits)
  next
    case False
    obtain w1 x where tk: "take_frame w = (w1, x)" by (cases "take_frame w")
    note g = take_frame_grown [OF ok tk, of k]
    show ?thesis
    proof (cases x)
      case None
      then have "res = Err TableOutOfFrames" "w' = w1" "b' = b" using e False tk by (auto simp: builder_ensure_child_def alloc_zeroed_table_def)
      then show ?thesis using g by simp
    next
      case (Some c)
      note att = attach_fresh [OF ok p False tk [unfolded Some], of kernel_data]
      have "page_aligned c" using take_frame_cases(4) [OF ok tk Some] by simp
      then have "pa c < 2 ^ 52" by (intro word_bits_bound) (auto simp: page_aligned_bits)
      then have "\<not> u64_limit \<le> pa c + 4096" by simp
      then consider reach where "res = Err (FrameBeyondReach (phys_raw c) reach)" "w' = w1" "b' = b"
        | "res = Ok c" "b' = b\<lparr>bl_frames_used := bl_frames_used b + 1\<rparr>" "w' = write_entry t i (table_entry c kernel_data) (zero_table c w1)"
        using e False tk Some by (auto simp: builder_ensure_child_def alloc_zeroed_table_def split: option.splits if_splits)
      then show ?thesis using g att by cases (auto simp del: table_at.simps)
    qed
  qed
  then show "grown k r w w'" "res \<noteq> Panic" "bl_root b' = bl_root b" "res = Ok c \<Longrightarrow> table_at (pg_mem w') r (i # p) = Some c" by auto
qed

lemma large_entry_facts:
  assumes "page_aligned p" "0x200000 dvd pa p"
  shows "page_address_2m (leaf_entry p perms LargeLeaf) = p" "is_present (leaf_entry p perms LargeLeaf)" "is_huge (leaf_entry p perms LargeLeaf)"
    "bit (leaf_entry p perms LargeLeaf) 1 \<longleftrightarrow> perm_write perms" "bit (leaf_entry p perms LargeLeaf) 2 \<longleftrightarrow> perm_user perms"
    "bit (leaf_entry p perms LargeLeaf) 63 \<longleftrightarrow> \<not> perm_execute perms" "bit (leaf_entry p perms LargeLeaf) 4 \<longleftrightarrow> perm_cache perms = Uncached"
proof -
  have al: "21 \<le> n \<and> n < 52" if "bit (phys_raw p) n" for n
  proof -
    have "n < 52" using assms(1) that by (simp add: page_aligned_bits)
    moreover have "21 \<le> n"
    proof (rule ccontr)
      assume "\<not> 21 \<le> n"
      moreover have "take_bit 21 (pa p) = 0" using assms(2) by (simp add: take_bit_eq_mod)
      then have "\<not> bit (take_bit 21 (pa p)) n" by simp
      ultimately show False using that by (simp add: bit_take_bit_iff bit_unsigned_iff)
    qed
    ultimately show ?thesis by simp
  qed
  have b: "bit (leaf_entry p perms LargeLeaf) n \<longleftrightarrow> bit (phys_raw p) n \<or> bit (leaf_flags perms LargeLeaf) n" for n
    using al unfolding leaf_entry_def bit_or_iff by (auto simp: bit_and_iff mask_bits)
  have "leaf_entry p perms LargeLeaf AND ADDR_MASK_2M = phys_raw p"
    by (rule bit_word_eqI) (use al in \<open>auto simp: bit_and_iff b mask_bits leaf_flags_bits\<close>)
  then show "page_address_2m (leaf_entry p perms LargeLeaf) = p" by (simp add: page_address_2m_def)
  have low: "\<not> bit (phys_raw p) n" if "n < 21 \<or> n = 63" for n using al [of n] that by auto
  show "is_present (leaf_entry p perms LargeLeaf)" "is_huge (leaf_entry p perms LargeLeaf)"
    "bit (leaf_entry p perms LargeLeaf) 1 \<longleftrightarrow> perm_write perms" "bit (leaf_entry p perms LargeLeaf) 2 \<longleftrightarrow> perm_user perms"
    "bit (leaf_entry p perms LargeLeaf) 63 \<longleftrightarrow> \<not> perm_execute perms" "bit (leaf_entry p perms LargeLeaf) 4 \<longleftrightarrow> perm_cache perms = Uncached"
    using low by (simp_all add: entry_tests b leaf_flags_bits)
qed

lemma small_entry_cache:
  assumes "page_aligned p"
  shows "bit (leaf_entry p perms SmallLeaf) 4 \<longleftrightarrow> perm_cache perms = Uncached"
  using assms by (auto simp: leaf_entry_def bit_or_iff bit_and_iff mask_bits leaf_flags_bits page_aligned_bits)

text \<open>Two addresses on one page, by their numbers.\<close>

lemma high_bits_div:
  fixes x y :: u64
  shows "unat x div 2 ^ s = unat y div 2 ^ s \<longleftrightarrow> (\<forall>n. s \<le> n \<longrightarrow> bit x n = bit y n)"
proof -
  have "unat x div 2 ^ s = unat y div 2 ^ s \<longleftrightarrow> drop_bit s (unat x) = drop_bit s (unat y)" by (simp add: drop_bit_eq_div)
  also have "\<dots> \<longleftrightarrow> (\<forall>n. bit x (s + n) = bit y (s + n))" by (simp add: bit_eq_iff bit_drop_bit_eq bit_unsigned_iff)
  also have "\<dots> \<longleftrightarrow> (\<forall>n. s \<le> n \<longrightarrow> bit x n = bit y n)" by (metis le_add1 le_add_diff_inverse)
  finally show ?thesis .
qed

lemma same_page_div: "same_page u v \<longleftrightarrow> va u div 4096 = va v div 4096"
proof -
  have b: "bit (x AND NOT 0xFFF) n \<longleftrightarrow> bit x n \<and> 12 \<le> n" for x :: u64 and n
    by (auto simp: index_mask bit_and_iff bit_not_iff bit_mask_iff dest: bit_imp_le_length)
  have "same_page u v \<longleftrightarrow> (\<forall>n. 12 \<le> n \<longrightarrow> bit (virt_raw u) n = bit (virt_raw v) n)" unfolding same_page_def bit_eq_iff b using bit_imp_possible_bit by blast
  then show ?thesis using high_bits_div [of "virt_raw u" 12 "virt_raw v"] by simp
qed

lemma large_page_div:
  assumes "is_canonical (virt_raw u)" "is_canonical (virt_raw v)"
  shows "pd_path u = pd_path v \<longleftrightarrow> va u div 0x200000 = va v div 0x200000"
proof -
  have hb: "va u div 0x200000 = va v div 0x200000 \<longleftrightarrow> (\<forall>n. 21 \<le> n \<longrightarrow> bit (virt_raw u) n = bit (virt_raw v) n)"
    using high_bits_div [of "virt_raw u" 21 "virt_raw v"] by simp
  show ?thesis unfolding hb
proof
  assume a: "\<forall>n. 21 \<le> n \<longrightarrow> bit (virt_raw u) n = bit (virt_raw v) n"
  have "drop_bit s (virt_raw u) = drop_bit s (virt_raw v)" if "21 \<le> s" for s
    by (rule bit_word_eqI) (use a that in \<open>simp add: bit_drop_bit_eq\<close>)
  then show "pd_path u = pd_path v" by (simp add: top_index_def upper_index_def middle_index_def)
next
  assume p: "pd_path u = pd_path v"
  have "bit (virt_raw u) n = bit (virt_raw v) n" if n: "21 \<le> n" "n < 48" for n
  proof -
    note idx = index_bits [of 39 "virt_raw u" "virt_raw v" "n - 39"] index_bits [of 30 "virt_raw u" "virt_raw v" "n - 30"]
      index_bits [of 21 "virt_raw u" "virt_raw v" "n - 21"]
    consider "n < 30" | "30 \<le> n" "n < 39" | "39 \<le> n" using n by linarith
    then show ?thesis using idx p n by cases (auto simp: top_index_def upper_index_def middle_index_def)
  qed
  moreover have "bit x n = bit x 47" if "is_canonical x" "47 \<le> n" "n < 64" for x n
    using that unfolding is_canonical_bits by (metis min.absorb2)
  ultimately show "\<forall>n. 21 \<le> n \<longrightarrow> bit (virt_raw u) n = bit (virt_raw v) n"
  proof (intro allI impI)
    fix n :: nat assume n: "21 \<le> n"
    consider "n < 48" | "48 \<le> n" "n < 64" | "64 \<le> n" by linarith
    then show "bit (virt_raw u) n = bit (virt_raw v) n"
    proof cases
      case 2
      then show ?thesis using \<open>\<And>x n. is_canonical x \<Longrightarrow> 47 \<le> n \<Longrightarrow> n < 64 \<Longrightarrow> bit x n = bit x 47\<close> [of _ n] assms
        \<open>\<And>n. 21 \<le> n \<Longrightarrow> n < 48 \<Longrightarrow> bit (virt_raw u) n = bit (virt_raw v) n\<close> [of 47] by simp
    qed (use n \<open>\<And>n. 21 \<le> n \<Longrightarrow> n < 48 \<Longrightarrow> bit (virt_raw u) n = bit (virt_raw v) n\<close> in \<open>auto dest: bit_imp_le_length\<close>)
  qed
qed
qed


subsection \<open>One page\<close>

lemma map_one_effect:
  assumes ok: "tables_ok (bl_root b) w" and p: "page_aligned p" "huge \<longrightarrow> 0x200000 dvd pa p" and m: "map_one v p huge perms (b, w) = (res, b', w')"
  defines "r \<equiv> bl_root b" and "e \<equiv> leaf_entry p perms (if huge then LargeLeaf else SmallLeaf)" and "here \<equiv> if huge then pd_path v else pt_path v"
  shows "tables_ok r w'" "res \<noteq> Panic" "bl_root b' = r"
    and "\<And>q. q \<noteq> [] \<Longrightarrow> length q \<le> 4 \<Longrightarrow> leaf_at (pg_mem w') r q =
      (if res \<noteq> Ok () then leaf_at (pg_mem w) r q else if q = here then Some e else if through here q then None else leaf_at (pg_mem w) r q)"
    and "res = Ok () \<Longrightarrow> (\<exists>t. table_at (pg_mem w') r (tl here) = Some t)"
proof -
  let ?k = "top_index v"
  let ?goal = "\<lambda>res b' w'. tables_ok r w' \<and> res \<noteq> Panic \<and> bl_root b' = r \<and>
    (\<forall>q. q \<noteq> [] \<longrightarrow> length q \<le> 4 \<longrightarrow> leaf_at (pg_mem w') r q =
      (if res \<noteq> Ok () then leaf_at (pg_mem w) r q else if q = here then Some e else if through here q then None else leaf_at (pg_mem w) r q)) \<and>
    (res = Ok () \<longrightarrow> (\<exists>t. table_at (pg_mem w') r (tl here) = Some t))"
  have err: "?goal (Err x) bb ww" if "grown ?k r w ww" "bl_root bb = r" for x :: page_table_error and bb ww
    using grownD(1,2) [OF that(1)] that(2) by simp
  have "?goal res b' w'"
  proof -
    obtain x1 b1 w1 where e1: "builder_ensure_child r (top_index v) (b, w) = (x1, b1, w1)" by (metis prod_cases3)
    have r0: "table_at (pg_mem w) r [] = Some r" by simp
    note c1 = builder_child_grown [OF ok [folded r_def] r0 _ index_bound(1) _ e1, of ?k]
    have g1: "grown ?k r w w1" "x1 \<noteq> Panic" "bl_root b1 = r" using c1(1-3) by (simp_all add: r_def)
    show ?thesis
    proof (cases x1)
      case (Ok pdpt)
      have t1: "table_at (pg_mem w1) r [top_index v] = Some pdpt" using c1(4) Ok by simp
      obtain x2 b2 w2 where e2: "builder_ensure_child pdpt (upper_index v) (b1, w1) = (x2, b2, w2)" by (metis prod_cases3)
      note c2 = builder_child_grown [OF grownD(1) [OF g1(1)] t1 _ index_bound(2) _ e2, of ?k]
      have g2: "grown ?k r w w2" "x2 \<noteq> Panic" "bl_root b2 = r" using grown_trans [OF g1(1)] c2(1-3) g1(3) by simp_all
      show ?thesis
      proof (cases x2)
        case ok2: (Ok pd)
        have t2: "table_at (pg_mem w2) r (pdpt_path v) = Some pd" using c2(4) ok2 by simp
        note G2 = grownD [OF g2(1)]
        show ?thesis
        proof (cases huge)
          case True
          have w': "res = Ok ()" "b' = b2" "w' = write_entry pd (middle_index v) e w2"
            using m e1 e2 Ok ok2 True by (auto simp: map_one_def bind_pg_def r_def e_def)
          have tr: "tree (pg_mem w2) r" using G2(1) by (simp add: tables_ok_def)
          have len: "length (pdpt_path v) \<le> 2" by simp
          have ep: "is_present e" "is_huge e" using large_entry_facts(2,3) [OF p(1) p(2) [rule_format, OF True]] True by (simp_all add: e_def)
          then have ne: "child_of e = None" by (simp add: child_of_def)
          have mm: "pg_mem w' = set_entry pd (middle_index v) e (pg_mem w2)" "pg_frames w' = pg_frames w2" by (simp_all add: w' write_entry_def set_entry_def)
          note sl = set_large_leaf [OF tr t2 len index_bound(3) [of v] ne, folded mm]
          have pr: "pd \<noteq> r" using tree_inj [OF tr t2, of "[]"] by auto
          have tok: "tables_ok r w'" using G2(1) sl(1,2) top_ok_away [OF _ pr] unfolding tables_ok_def mm(2) by (auto simp: mm(1))
          have "\<not> through (pd_path v) (pdpt_path v)" by (auto dest: through_length)
          then have "table_at (pg_mem w') r (pdpt_path v) = Some pd" using table_at_elsewhere [OF tr t2, of "middle_index v" "pdpt_path v" e] t2 mm(1) by (simp del: table_at.simps)
          moreover have "leaf_entry_at n e = Some e" for n using ep by (simp add: leaf_entry_at_def)
          ultimately show ?thesis using w'(1,2) tok g2(3) sl(3) G2(2) True by (auto simp: here_def simp del: table_at.simps)
        next
          case False
          obtain x3 b3 w3 where e3: "builder_ensure_child pd (middle_index v) (b2, w2) = (x3, b3, w3)" by (metis prod_cases3)
          note c3 = builder_child_grown [OF G2(1) t2 _ index_bound(3) _ e3, of ?k]
          have g3: "grown ?k r w w3" "x3 \<noteq> Panic" "bl_root b3 = r" using grown_trans [OF g2(1)] c3(1-3) g2(3) by simp_all
          show ?thesis
          proof (cases x3)
            case ok3: (Ok pt)
            have t3: "table_at (pg_mem w3) r (pd_path v) = Some pt" using c3(4) ok3 by simp
            have w': "res = Ok ()" "b' = b3" "w' = write_entry pt (leaf_index v) e w3"
              using m e1 e2 e3 Ok ok2 ok3 False by (auto simp: map_one_def bind_pg_def r_def e_def)
            have len: "length (pd_path v) = 3" by simp
            note G3 = grownD [OF g3(1)]
            note sl = tables_ok_set_leaf [OF G3(1) t3 len, where i = "leaf_index v" and e = e, folded w'(3)]
            have tr: "tree (pg_mem w3) r" using G3(1) by (simp add: tables_ok_def)
            have le: "leaf_entry_at 4 e = Some e" using leaf_entry_facts(2) [OF p(1)] False by (simp add: leaf_entry_at_def e_def)
            have "\<not> through (pt_path v) (pd_path v)" by (auto dest: through_length)
            then have t': "table_at (pg_mem w') r (pd_path v) = Some pt"
              using table_at_elsewhere [OF tr t3, of "leaf_index v" "pd_path v" e] t3 by (simp add: w'(3) write_entry_def set_entry_def del: table_at.simps)
            have "q = pt_path v" if "through (pt_path v) q" "length q \<le> 4" for q using that by (auto simp: through_def)
            then show ?thesis using w'(1,2) sl g3(3) G3(2) le t' False by (auto simp: here_def simp del: table_at.simps)
          next
            case (Err x)
            then have "res = Err x" "b' = b3" "w' = w3" using m e1 e2 e3 Ok ok2 False by (auto simp: map_one_def bind_pg_def r_def)
            then show ?thesis using err [OF g3(1,3), of x] by simp
          qed (use g3 in simp)
        qed
      next
        case (Err x)
            then have "res = Err x" "b' = b2" "w' = w2" using m e1 e2 Ok by (auto simp: map_one_def bind_pg_def r_def)
            then show ?thesis using err [OF g2(1,3), of x] by simp
      qed (use g2 in simp)
    next
      case (Err x)
            then have "res = Err x" "b' = b1" "w' = w1" using m e1 by (auto simp: map_one_def bind_pg_def r_def)
            then show ?thesis using err [OF g1(1,3), of x] by simp
    qed (use g1 in simp)
  qed
  then show "tables_ok r w'" "res \<noteq> Panic" "bl_root b' = r"
    and "\<And>q. q \<noteq> [] \<Longrightarrow> length q \<le> 4 \<Longrightarrow> leaf_at (pg_mem w') r q =
      (if res \<noteq> Ok () then leaf_at (pg_mem w) r q else if q = here then Some e else if through here q then None else leaf_at (pg_mem w) r q)"
    and "res = Ok () \<Longrightarrow> (\<exists>t. table_at (pg_mem w') r (tl here) = Some t)" by auto
qed


lemma block_offset:
  fixes u v :: u64
  assumes "2 ^ k dvd unat v" "unat v \<le> unat u" "unat u < unat v + 2 ^ k" "k < 64"
  shows "u AND mask k = u - v"
proof -
  have "unat (u - v) = unat u - unat v" using assms(2) by (simp add: unat_sub word_le_nat_alt)
  moreover have "unat (u AND mask k) = unat u mod 2 ^ k" by (simp add: unat_and_mask)
  moreover have "unat u mod 2 ^ k = unat u - unat v"
  proof -
    obtain c where c: "unat v = 2 ^ k * c" using assms(1) by auto
    then have "unat u = 2 ^ k * c + (unat u - unat v)" "unat u - unat v < 2 ^ k" using assms(2,3) by simp_all
    then show ?thesis by (metis mod_less mod_mult_self4)
  qed
  ultimately show ?thesis by (metis word_unat_eq_iff)
qed

lemma block_div:
  fixes x y :: nat
  assumes "k dvd y" "0 < k"
  shows "x div k = y div k \<longleftrightarrow> y \<le> x \<and> x < y + k"
proof -
  obtain c where c: "y = k * c" using assms(1) by auto
  show ?thesis using assms(2) unfolding c
    by (metis add.commute div_mult_self1_is_m dividend_less_div_times div_nat_eqI le_add1 less_mult_imp_div_less mult.commute mult_Suc_right nat_mult_le_cancel_disj times_div_less_eq_dividend)
qed


text \<open>What the address \<open>u\<close> translates to where \<open>v\<close> and the addresses after it are mapped to \<open>p\<close> and those after it.\<close>

definition maps_as :: "virt_addr \<Rightarrow> phys_addr \<Rightarrow> page_permissions \<Rightarrow> virt_addr \<Rightarrow> (translate_error, translation option) outcome \<Rightarrow> bool" where
  "maps_as v p perms u x \<longleftrightarrow>
     (\<exists>t. x = Ok (Some t) \<and> tr_phys t = PhysAddr (phys_raw p + (virt_raw u - virt_raw v)) \<and> bit (tr_entry t) 1 = perm_write perms \<and>
        bit (tr_entry t) 2 = perm_user perms \<and> bit (tr_entry t) 4 = (perm_cache perms = Uncached) \<and>
        bit (tr_entry t) 63 = (\<not> perm_execute perms))"

lemma map_one_translate:
  assumes ok: "tables_ok (bl_root b) w" and p: "page_aligned p" "huge \<longrightarrow> 0x200000 dvd pa p" and m: "map_one v p huge perms (b, w) = (res, b', w')"
    and v: "is_canonical (virt_raw v)" "leaf_span huge dvd va v" and u: "is_canonical (virt_raw u)"
  shows "if res = Ok () \<and> va v \<le> va u \<and> va u < va v + leaf_span huge then maps_as v p perms u (translate (pg_mem w') (bl_root b) u)
    else translate (pg_mem w') (bl_root b) u = translate (pg_mem w) (bl_root b) u"
proof -
  note eff = map_one_effect [OF ok p m]
  let ?r = "bl_root b"
  note tops = tables_ok_top [OF ok] tables_ok_top [OF eff(1)]
  show ?thesis
  proof (cases "res = Ok ()")
    case False
    then show ?thesis using eff(4) by (simp add: translate_by_leaves [OF tops(1)] translate_by_leaves [OF tops(2)] translate_leaves_def cong: option.case_cong)
  next
    case res: True
    show ?thesis
    proof (cases huge)
      case False
      let ?e = "leaf_entry p perms SmallLeaf"
      have "q = pt_path v" if "through (pt_path v) q" "length q \<le> 4" for q using that by (auto simp: through_def)
      then have l: "leaf_at (pg_mem w') ?r q = (if q = pt_path v then Some ?e else leaf_at (pg_mem w) ?r q)" if "q \<noteq> []" "length q \<le> 4" for q
        using eff(4) [OF that] res False that by auto
      obtain pt where "table_at (pg_mem w') ?r (pd_path v) = Some pt" using eff(5) [OF res] False by auto
      then have tr: "translate (pg_mem w') ?r u = (if same_page u v then Ok (Some (small_page p ?e u)) else translate (pg_mem w) ?r u)"
        using translate_one_page [OF tops, of v pt "Some ?e", OF _ l u v(1)] leaf_entry_facts(1) [OF p(1)] by simp
      have sp: "same_page u v \<longleftrightarrow> va v \<le> va u \<and> va u < va v + 4096" using block_div [of 4096 "va v" "va u"] v(2) False by (simp add: same_page_div leaf_span_def)
      moreover have "page_offset u = virt_raw u - virt_raw v" if "va v \<le> va u \<and> va u < va v + 4096"
        unfolding page_offset_def index_mask(2) by (rule block_offset) (use that v(2) False in \<open>simp_all add: leaf_span_def\<close>)
      ultimately show ?thesis using tr res False leaf_entry_facts(3,4,6) [OF p(1), of perms] small_entry_cache [OF p(1), of perms] by (simp add: leaf_span_def maps_as_def small_page_def)
    next
      case True
      let ?e = "leaf_entry p perms LargeLeaf"
      have l: "leaf_at (pg_mem w') ?r q = (if q = pd_path v then Some ?e else if through (pd_path v) q then None else leaf_at (pg_mem w) ?r q)" if "q \<noteq> []" "length q \<le> 4" for q
        using eff(4) [OF that] res True by simp
      obtain pd where pd: "table_at (pg_mem w') ?r (pdpt_path v) = Some pd" using eff(5) [OF res] True by auto
      have blk: "pd_path u = pd_path v \<longleftrightarrow> va v \<le> va u \<and> va u < va v + 0x200000"
        unfolding large_page_div [OF u v(1)] using block_div [of "0x200000" "va v" "va u"] v(2) True by (simp add: leaf_span_def)
      show ?thesis
      proof (cases "pd_path u = pd_path v")
        case same: True
        have up: "leaf_at (pg_mem w') ?r (pdpt_path u) = None" using pd leaf_at_table [of "pg_mem w'" ?r "upper_index v" "[top_index v]"] same by (simp del: table_at.simps)
        have here: "leaf_at (pg_mem w') ?r (pd_path u) = Some ?e" using l [of "pd_path u"] same by simp
        have "virt_raw u AND (Page_Entry.PAGE_SIZE_2M - 1) = virt_raw u - virt_raw v"
        proof -
          have "Page_Entry.PAGE_SIZE_2M - 1 = mask 21" by (simp add: Page_Entry.PAGE_SIZE_2M_def mask_eq_exp_minus_1)
          then show ?thesis using block_offset [of 21 "virt_raw v" "virt_raw u"] blk same v(2) True by (simp add: leaf_span_def)
        qed
        then have "(translated p (virt_raw u - virt_raw v) Size2MiB ?e :: (translate_error, translation option) outcome) =
            Ok (Some \<lparr>tr_phys = PhysAddr (phys_raw p + (virt_raw u - virt_raw v)), tr_page_size = Size2MiB, tr_entry = ?e\<rparr>)"
          "virt_raw u AND (Page_Entry.PAGE_SIZE_2M - 1) = virt_raw u - virt_raw v"
          using translated_large(1) [of ?e u Size2MiB ?e] large_entry_facts(1) [OF p(1) p(2) [rule_format, OF True], of perms] by simp_all
        then have "maps_as v p perms u (translate (pg_mem w') ?r u)"
          using up here large_entry_facts(1,4-7) [OF p(1) p(2) [rule_format, OF True], of perms]
          unfolding translate_by_leaves [OF tops(2)] translate_leaves_def by (simp add: maps_as_def)
        then show ?thesis using blk same True res by (simp add: leaf_span_def)
      next
        case diff: False
        have "leaf_at (pg_mem w') ?r q = leaf_at (pg_mem w) ?r q" if "q \<in> {pdpt_path u, pd_path u, pt_path u}" for q
          using that diff l [of q] by (auto simp: through_Cons through_Nil)
        then have "translate (pg_mem w') ?r u = translate (pg_mem w) ?r u"
          by (simp add: translate_by_leaves [OF tops(1)] translate_by_leaves [OF tops(2)] translate_leaves_def cong: option.case_cong)
        then show ?thesis using blk diff True by (auto simp: leaf_span_def)
      qed
    qed
  qed
qed


subsection \<open>A range\<close>

lemma virt_checked_add_va:
  assumes "virt_checked_add v (word_of_nat o') = Some v1" "o' < u64_limit"
  shows "va v1 = va v + o'" "is_canonical (virt_raw v1)" "virt_raw v1 = virt_raw v + word_of_nat o'"
  using assms by (auto simp: virt_checked_add_def checked_add_def virt_new_def unat_word_of_nat unat_add_no_overflow split: if_splits option.splits)

lemma phys_checked_add_pa:
  assumes "phys_checked_add p (word_of_nat o') = Some p1" "o' < u64_limit"
  shows "pa p1 = pa p + o'" "phys_raw p1 = phys_raw p + word_of_nat o'" "pa p1 < 2 ^ 52"
  using assms by (auto simp: phys_checked_add_def checked_add_def phys_new_Some unat_word_of_nat unat_add_no_overflow split: if_splits option.splits)

lemma page_aligned_dvd: "page_aligned p \<longleftrightarrow> 4096 dvd pa p \<and> pa p < 2 ^ 52"
proof
  assume a: "page_aligned p"
  then have "pa p < 2 ^ 52" by (intro word_bits_bound) (auto simp: page_aligned_bits)
  moreover have "take_bit 12 (pa p) = 0" using a by (auto simp: bit_eq_iff bit_take_bit_iff bit_unsigned_iff page_aligned_bits)
  ultimately show "4096 dvd pa p \<and> pa p < 2 ^ 52" by (simp add: take_bit_eq_mod mod_eq_0_iff_dvd)
next
  assume a: "4096 dvd pa p \<and> pa p < 2 ^ 52"
  then have t: "take_bit 12 (pa p) = 0" "take_bit 52 (pa p) = pa p" by (simp_all add: take_bit_eq_mod mod_eq_0_iff_dvd)
  have "\<not> bit (pa p) n" if "n < 12" for n using t(1) that by (metis bit_take_bit_iff bit_0_eq bot_apply bot_bool_def)
  moreover have "\<not> bit (pa p) n" if "52 \<le> n" for n using t(2) that by (metis bit_take_bit_iff not_le)
  moreover have "bit (pa p) n" if "bit (phys_raw p) n" for n using that by (simp add: bit_unsigned_iff bit_imp_possible_bit)
  ultimately show "page_aligned p" unfolding page_aligned_bits by (meson not_le)
qed

lemma aligned_dvd:
  fixes x :: u64
  assumes "k < 64"
  shows "x AND mask k = 0 \<longleftrightarrow> 2 ^ k dvd unat x"
proof -
  have "x AND mask k = 0 \<longleftrightarrow> unat (x AND mask k) = 0" by (simp add: unat_eq_0)
  then show ?thesis by (simp add: unat_and_mask mod_eq_0_iff_dvd)
qed

lemma aligned_2M: "virt_is_aligned v Page_Entry.PAGE_SIZE_2M \<longleftrightarrow> 0x200000 dvd va v" "phys_is_aligned p Page_Entry.PAGE_SIZE_2M \<longleftrightarrow> 0x200000 dvd pa p"
proof -
  have m: "Page_Entry.PAGE_SIZE_2M - 1 = mask 21" by (simp add: Page_Entry.PAGE_SIZE_2M_def mask_eq_exp_minus_1)
  show "virt_is_aligned v Page_Entry.PAGE_SIZE_2M \<longleftrightarrow> 0x200000 dvd va v" "phys_is_aligned p Page_Entry.PAGE_SIZE_2M \<longleftrightarrow> 0x200000 dvd pa p"
    using aligned_dvd [of 21 "virt_raw v"] aligned_dvd [of 21 "phys_raw p"] by (simp_all add: virt_is_aligned_def phys_is_aligned_def m)
qed

definition range_mapped :: "virt_addr \<Rightarrow> phys_addr \<Rightarrow> page_permissions \<Rightarrow> nat \<Rightarrow> nat \<Rightarrow> bool \<Rightarrow> phys_addr \<Rightarrow> table_mem \<Rightarrow> table_mem \<Rightarrow> bool" where
  "range_mapped v p perms lo hi done r m m' \<longleftrightarrow>
     (\<forall>u. is_canonical (virt_raw u) \<longrightarrow>
        (if lo \<le> va u \<and> va u < hi then done \<longrightarrow> maps_as v p perms u (translate m' r u) else translate m' r u = translate m r u))"

lemma map_range_turn_mapped:
  assumes ok: "tables_ok (bl_root b) w" and al: "4096 dvd va v" "4096 dvd pa p" "4096 dvd o'" "o' < len" "4096 dvd len" "len < u64_limit"
    and m: "map_range_turn v p len perms o' (b, w) = (res, b', w')"
  shows "tables_ok (bl_root b) w'" "res \<noteq> Panic" "bl_root b' = bl_root b"
    "\<And>n. res = Ok n \<Longrightarrow> o' < n \<and> n \<le> len \<and> 4096 dvd n \<and> range_mapped v p perms (va v + o') (va v + n) True (bl_root b) (pg_mem w) (pg_mem w')"
    "\<And>e u. res = Err e \<Longrightarrow> is_canonical (virt_raw u) \<Longrightarrow> translate (pg_mem w') (bl_root b) u = translate (pg_mem w) (bl_root b) u"
proof -
  have "tables_ok (bl_root b) w' \<and> res \<noteq> Panic \<and> bl_root b' = bl_root b \<and>
    (\<forall>n. res = Ok n \<longrightarrow> o' < n \<and> n \<le> len \<and> 4096 dvd n \<and> range_mapped v p perms (va v + o') (va v + n) True (bl_root b) (pg_mem w) (pg_mem w')) \<and>
    (\<forall>e u. res = Err e \<longrightarrow> is_canonical (virt_raw u) \<longrightarrow> translate (pg_mem w') (bl_root b) u = translate (pg_mem w) (bl_root b) u)"
  proof (cases "virt_checked_add v (word_of_nat o') = None \<or> phys_checked_add p (word_of_nat o') = None")
    case True
    then have "res = Err MisalignedRange \<and> b' = b \<and> w' = w" using m by (auto simp: map_range_turn_def split: option.splits)
    then show ?thesis using ok by simp
  next
    case False
    then obtain v1 p1 where v1: "virt_checked_add v (word_of_nat o') = Some v1" and p1: "phys_checked_add p (word_of_nat o') = Some p1" by auto
    have lt: "o' < u64_limit" using al by simp
    note V = virt_checked_add_va [OF v1 lt] and P = phys_checked_add_pa [OF p1 lt]
    define huge where "huge = (0x200000 \<le> len - o' \<and> virt_is_aligned v1 Page_Entry.PAGE_SIZE_2M \<and> phys_is_aligned p1 Page_Entry.PAGE_SIZE_2M)"
    obtain x b1 w1 where m1: "map_one v1 p1 huge perms (b, w) = (x, b1, w1)" by (metis prod_cases3)
    have pal: "page_aligned p1" using P al by (simp add: page_aligned_dvd)
    have ph: "huge \<longrightarrow> 0x200000 dvd pa p1" by (simp add: huge_def aligned_2M)
    have vs: "leaf_span huge dvd va v1" using V al by (simp add: leaf_span_def huge_def aligned_2M)
    note E = map_one_effect(1-3) [OF ok pal ph m1] and T = map_one_translate [OF ok pal ph m1 V(2) vs]
    have r: "(res, b', w') = (case x of Ok _ \<Rightarrow> (Ok (o' + leaf_span huge), b1, w1) | Err e \<Rightarrow> (Err e, b1, w1) | Panic \<Rightarrow> (Panic, b1, w1))"
      using m v1 p1 m1 by (auto simp: map_range_turn_def bind_pg_def Let_def huge_def leaf_span_def split: outcome.splits)
    have fit: "o' + leaf_span huge \<le> len"
    proof (cases huge)
      case True
      then show ?thesis using al(4) by (auto simp: leaf_span_def huge_def)
    next
      case False
      have "4096 dvd len - o'" using al by (simp add: dvd_diff_nat)
      then have "4096 \<le> len - o'" using al(4) by (intro dvd_imp_le) simp_all
      then show ?thesis using False al(4) by (simp add: leaf_span_def)
    qed
    have same: "maps_as v1 p1 perms u y \<longleftrightarrow> maps_as v p perms u y" for u y by (simp add: maps_as_def V(3) P(2) algebra_simps)
    have "4096 dvd leaf_span huge" "0 < leaf_span huge" by (auto simp: leaf_span_def)
    then show ?thesis
    proof (cases x)
      case (Ok y)
      then have "res = Ok (o' + leaf_span huge)" "b' = b1" "w' = w1" using r by simp_all
      moreover have "range_mapped v p perms (va v + o') (va v + (o' + leaf_span huge)) True (bl_root b) (pg_mem w) (pg_mem w1)"
        unfolding range_mapped_def
      proof (intro allI impI)
        fix u assume "is_canonical (virt_raw u)"
        from T [OF this] show "if va v + o' \<le> va u \<and> va u < va v + (o' + leaf_span huge) then True \<longrightarrow> maps_as v p perms u (translate (pg_mem w1) (bl_root b) u)
            else translate (pg_mem w1) (bl_root b) u = translate (pg_mem w) (bl_root b) u" using Ok V(1) same by (auto simp: add.assoc split: if_splits)
      qed
      ultimately show ?thesis using E fit al(3) \<open>4096 dvd leaf_span huge\<close> \<open>0 < leaf_span huge\<close> by simp
    next
      case (Err e)
      then have "res = Err e" "b' = b1" "w' = w1" using r by simp_all
      then show ?thesis using E T Err by simp
    qed (use E(2) in simp)
  qed
  then show "tables_ok (bl_root b) w'" "res \<noteq> Panic" "bl_root b' = bl_root b"
    "\<And>n. res = Ok n \<Longrightarrow> o' < n \<and> n \<le> len \<and> 4096 dvd n \<and> range_mapped v p perms (va v + o') (va v + n) True (bl_root b) (pg_mem w) (pg_mem w')"
    "\<And>e u. res = Err e \<Longrightarrow> is_canonical (virt_raw u) \<Longrightarrow> translate (pg_mem w') (bl_root b) u = translate (pg_mem w) (bl_root b) u" by auto
qed


lemma map_range_loop_mapped:
  assumes al: "4096 dvd va v" "4096 dvd pa p" "4096 dvd len" "len < u64_limit"
  shows "tables_ok (bl_root b) w \<Longrightarrow> 4096 dvd o' \<Longrightarrow> map_range_loop v p len perms o' (b, w) = (res, b', w') \<Longrightarrow>
    tables_ok (bl_root b) w' \<and> res \<noteq> Panic \<and> bl_root b' = bl_root b \<and>
    range_mapped v p perms (va v + o') (va v + len) (res = Ok ()) (bl_root b) (pg_mem w) (pg_mem w')"
proof (induction "len - o'" arbitrary: o' b w rule: less_induct)
  case less
  note unf = less.prems(3) [unfolded map_range_loop.simps [of v p len perms o']]
  show ?case
  proof (cases "len \<le> o'")
    case True
    then show ?thesis using unf less.prems(1) by (auto simp: range_mapped_def)
  next
    case False
    then have lt: "o' < len" by simp
    obtain x b1 w1 where t: "map_range_turn v p len perms o' (b, w) = (x, b1, w1)" by (metis prod_cases3)
    note T = map_range_turn_mapped [OF less.prems(1) al(1,2) less.prems(2) lt al(3,4) t]
    show ?thesis
    proof (cases x)
      case (Ok n)
      note N = T(4) [OF Ok]
      have rest: "map_range_loop v p len perms n (b1, w1) = (res, b', w')" using unf False t Ok by simp
      have ih: "tables_ok (bl_root b) w' \<and> res \<noteq> Panic \<and> bl_root b' = bl_root b \<and>
        range_mapped v p perms (va v + n) (va v + len) (res = Ok ()) (bl_root b) (pg_mem w1) (pg_mem w')"
      proof -
        have "len - n < len - o'" using N lt by linarith
        then show ?thesis using less.hyps [of n b1 w1] T(1,3) N rest by simp
      qed
      then have a: "range_mapped v p perms (va v + n) (va v + len) (res = Ok ()) (bl_root b) (pg_mem w1) (pg_mem w')" by simp
      have c: "range_mapped v p perms (va v + o') (va v + n) True (bl_root b) (pg_mem w) (pg_mem w1)" using N by simp
      have "range_mapped v p perms (va v + o') (va v + len) (res = Ok ()) (bl_root b) (pg_mem w) (pg_mem w')"
        unfolding range_mapped_def
      proof (intro allI impI)
        fix u assume u: "is_canonical (virt_raw u)"
        note A = a [unfolded range_mapped_def, rule_format, OF u] and C = c [unfolded range_mapped_def, rule_format, OF u]
        consider "va u < va v + o'" | "va v + o' \<le> va u" "va u < va v + n" | "va v + n \<le> va u" by linarith
        then show "if va v + o' \<le> va u \<and> va u < va v + len then res = Ok () \<longrightarrow> maps_as v p perms u (translate (pg_mem w') (bl_root b) u)
          else translate (pg_mem w') (bl_root b) u = translate (pg_mem w) (bl_root b) u"
          using A C N by cases (auto split: if_splits)
      qed
      then show ?thesis using ih by simp
    next
      case (Err e)
      then have "res = Err e" "b' = b1" "w' = w1" using unf False t by auto
      then show ?thesis using T Err by (auto simp: range_mapped_def)
    qed (use T(2) in simp)
  qed
qed

lemma map_range_mapped:
  assumes "4096 dvd va v" "4096 dvd pa p" "len < u64_limit" "tables_ok (bl_root b) w" "map_range v p len perms (b, w) = (res, b', w')"
  shows "tables_ok (bl_root b) w' \<and> res \<noteq> Panic \<and> bl_root b' = bl_root b \<and>
    range_mapped v p perms (va v) (va v + len) (res = Ok ()) (bl_root b) (pg_mem w) (pg_mem w')"
proof (cases "len mod 4096 = 0")
  case True
  then show ?thesis using map_range_loop_mapped [OF assms(1,2) _ assms(3,4), of 0] assms(5) by (auto simp: map_range_def mod_eq_0_iff_dvd)
next
  case False
  then have "res = Err MisalignedRange" "b' = b" "w' = w" using assms(5) by (auto simp: map_range_def)
  then show ?thesis using assms(4) by (auto simp: range_mapped_def)
qed

subsection \<open>Parts mapped one after the other\<close>

definition last_of :: "('x \<Rightarrow> bool) \<Rightarrow> 'x list \<Rightarrow> 'x option" where
  "last_of P xs = find P (rev xs)"

lemma last_of_simps [simp]:
  "last_of P [] = None"
  "last_of P (xs @ ys) = (case last_of P ys of Some y \<Rightarrow> Some y | None \<Rightarrow> last_of P xs)"
  "last_of P (x # xs) = (case last_of P xs of Some y \<Rightarrow> Some y | None \<Rightarrow> if P x then Some x else None)"
proof -
  have f: "find P (us @ vs) = (case find P us of Some y \<Rightarrow> Some y | None \<Rightarrow> find P vs)" for us vs by (induction us) auto
  show "last_of P [] = None" "last_of P (xs @ ys) = (case last_of P ys of Some y \<Rightarrow> Some y | None \<Rightarrow> last_of P xs)"
    "last_of P (x # xs) = (case last_of P xs of Some y \<Rightarrow> Some y | None \<Rightarrow> if P x then Some x else None)"
    by (simp_all add: last_of_def f split: option.split)
qed

lemma last_of_None: "last_of P xs = None \<longleftrightarrow> (\<forall>x \<in> set xs. \<not> P x)"
  by (auto simp: last_of_def find_None_iff)

lemma last_of_Some: "last_of P xs = Some x \<Longrightarrow> x \<in> set xs \<and> P x"
  by (induction xs) (auto split: option.splits if_splits)

text \<open>An address translates to the given one, with the given rights and caching.\<close>

definition mapped_at :: "table_mem \<Rightarrow> phys_addr \<Rightarrow> page_permissions \<Rightarrow> u64 \<Rightarrow> u64 \<Rightarrow> bool" where
  "mapped_at m r perms u a \<longleftrightarrow> (\<exists>t. translate m r (VirtAddr u) = Ok (Some t) \<and> tr_phys t = PhysAddr a \<and>
     bit (tr_entry t) 1 = perm_write perms \<and> bit (tr_entry t) 2 = perm_user perms \<and>
     bit (tr_entry t) 4 = (perm_cache perms = Uncached) \<and> bit (tr_entry t) 63 = (\<not> perm_execute perms))"

lemma maps_as_at: "maps_as v p perms (VirtAddr u) (translate m r (VirtAddr u)) \<longleftrightarrow> mapped_at m r perms u (phys_raw p + (u - virt_raw v))"
  by (simp add: maps_as_def mapped_at_def)

text \<open>From the tables \<open>m\<close> to the tables \<open>m'\<close>: an address that lies in some of the parts \<open>xs\<close> is mapped, with the
  permissions of the last of them, once all are mapped; every other address translates as before.\<close>

definition parts_mapped ::
  "('x \<Rightarrow> u64 \<Rightarrow> bool) \<Rightarrow> ('x \<Rightarrow> page_permissions) \<Rightarrow> (u64 \<Rightarrow> u64) \<Rightarrow> 'x list \<Rightarrow> bool \<Rightarrow> phys_addr \<Rightarrow> table_mem \<Rightarrow> table_mem \<Rightarrow> bool" where
  "parts_mapped inside perms target xs complete r m m' \<longleftrightarrow>
     (\<forall>u. is_canonical u \<longrightarrow>
        (case last_of (\<lambda>x. inside x u) xs of
           None \<Rightarrow> translate m' r (VirtAddr u) = translate m r (VirtAddr u)
         | Some x \<Rightarrow> complete \<longrightarrow> mapped_at m' r (perms x) u (target u)))"

lemma parts_mapped_Nil: "parts_mapped inside perms target [] complete r m m"
  by (simp add: parts_mapped_def)

lemma parts_mapped_Cons:
  assumes "parts_mapped inside perms target [x] True r m m1" "parts_mapped inside perms target xs complete r m1 m'"
  shows "parts_mapped inside perms target (x # xs) complete r m m'"
  using assms unfolding parts_mapped_def by (fastforce simp: mapped_at_def split: option.splits)

lemma parts_mapped_stop:
  "parts_mapped inside perms target [x] False r m m1 \<Longrightarrow> parts_mapped inside perms target (x # xs) False r m m1"
  unfolding parts_mapped_def by (auto split: option.splits)

text \<open>What mapping a list of parts leaves: the tables stay a tree, nothing panics, and the parts are mapped.\<close>

definition run_maps ::
  "('x \<Rightarrow> u64 \<Rightarrow> bool) \<Rightarrow> ('x \<Rightarrow> page_permissions) \<Rightarrow> (u64 \<Rightarrow> u64) \<Rightarrow> 'x list \<Rightarrow>
   builder \<times> paging \<Rightarrow> ('e, unit) outcome \<times> builder \<times> paging \<Rightarrow> bool" where
  "run_maps inside perms target xs s t \<longleftrightarrow>
     (case (s, t) of ((b, w), (res, b', w')) \<Rightarrow>
        tables_ok (bl_root b) w' \<and> res \<noteq> Panic \<and> bl_root b' = bl_root b \<and>
        parts_mapped inside perms target xs (res = Ok ()) (bl_root b) (pg_mem w) (pg_mem w'))"

lemma run_maps_Nil: "tables_ok (bl_root (fst s)) (snd s) \<Longrightarrow> run_maps inside perms target [] s (Ok (), s)"
  by (cases s) (simp add: run_maps_def parts_mapped_Nil)

lemma run_maps_Cons:
  assumes one: "run_maps inside perms target [x] s (f s)"
    and rest: "\<And>s1. tables_ok (bl_root (fst s1)) (snd s1) \<Longrightarrow> run_maps inside perms target xs s1 (g s1)"
  shows "run_maps inside perms target (x # xs) s (bind_pg (f s) (\<lambda>_ s1. g s1))"
proof -
  obtain b w where s: "s = (b, w)" by (cases s)
  obtain y b1 w1 where f: "f s = (y, b1, w1)" by (metis prod_cases3)
  have one: "tables_ok (bl_root b) w1" "y \<noteq> Panic" "bl_root b1 = bl_root b"
    "parts_mapped inside perms target [x] (y = Ok ()) (bl_root b) (pg_mem w) (pg_mem w1)"
    using one f by (simp_all add: s run_maps_def)
  show ?thesis
  proof (cases y)
    case (Ok a)
    obtain z b2 w2 where g: "g (b1, w1) = (z, b2, w2)" by (metis prod_cases3)
    have "run_maps inside perms target xs (b1, w1) (z, b2, w2)" using rest [of "(b1, w1)"] one g by simp
    then show ?thesis using one Ok f g by (auto simp: run_maps_def bind_pg_def s intro: parts_mapped_Cons)
  next
    case (Err e)
    then show ?thesis using one f by (auto simp: run_maps_def bind_pg_def s intro: parts_mapped_stop)
  qed (use one in simp)
qed

subsection \<open>The tables of the kernel\<close>

definition permissions_for :: "bool \<Rightarrow> page_permissions" where
  "permissions_for cacheable = (if cacheable then kernel_data else kernel_device)"

definition KERNEL_VIRT_BASE :: u64 where "KERNEL_VIRT_BASE = 0xFFFFFFFF80000000"

text \<open>\<open>kernel_virt_from_phys\<close>: both expectations are panics.\<close>

definition kernel_virt_from_phys :: "phys_addr \<Rightarrow> virt_addr option" where
  "kernel_virt_from_phys p =
     (case checked_add (phys_raw p) KERNEL_VIRT_BASE of None \<Rightarrow> None | Some raw \<Rightarrow> virt_new raw)"

text \<open>The three parts of \<open>build_and_switch_direct_map\<close> up to the switch. The visitor of \<open>resolve_pages\<close> does nothing more
  after the first error. Every error is reported and the machine halted, so that only success goes on.\<close>

datatype build_halt = BuildStart page_table_error | IdentityFailed page_table_error | WindowNotCanonical phys_addr
  | WindowFailed page_table_error | ImageLayout image_layout_error | ImageFailed page_table_error

fun identity_pages :: "page_mapping list \<Rightarrow> builder \<times> paging \<Rightarrow> (page_table_error, unit) outcome \<times> builder \<times> paging" where
  "identity_pages [] s = (Ok (), s)"
| "identity_pages (m # ms) s =
     bind_pg (builder_map_page (pm_phys_addr m) (pm_huge m) (permissions_for (pm_cacheable m)) s) (\<lambda>_ s1. identity_pages ms s1)"

definition halt_with :: "('e \<Rightarrow> build_halt) \<Rightarrow> ('e, 'a) outcome \<times> 's \<Rightarrow> (build_halt, 'a) outcome \<times> 's" where
  "halt_with f = (\<lambda>(x, s). (case x of Ok a \<Rightarrow> Ok a | Err e \<Rightarrow> Err (f e) | Panic \<Rightarrow> Panic, s))"

fun window_ranges :: "attributed_range list \<Rightarrow> builder \<times> paging \<Rightarrow> (build_halt, unit) outcome \<times> builder \<times> paging" where
  "window_ranges [] s = (Ok (), s)"
| "window_ranges (r # rs) s =
     (case virt_new (DIRECT_MAP_BASE + phys_raw (ar_start r)) of
        None \<Rightarrow> (Err (WindowNotCanonical (ar_start r)), s)
      | Some v \<Rightarrow>
          if pa (ar_end r) < pa (ar_start r) then (Panic, s)
          else bind_pg (halt_with WindowFailed
                 (map_range v (ar_start r) (pa (ar_end r) - pa (ar_start r)) (permissions_for (ar_cacheable r)) s))
                 (\<lambda>_ s1. window_ranges rs s1))"

text \<open>\<open>map_kernel_image\<close>, with the range of no pages that it maps first.\<close>

fun image_ranges :: "image_section list \<Rightarrow> builder \<times> paging \<Rightarrow> (build_halt, unit) outcome \<times> builder \<times> paging" where
  "image_ranges [] s = (Ok (), s)"
| "image_ranges (sec # secs) s =
     (case phys_new (word_of_nat (sec_start sec)) of
        None \<Rightarrow> (Panic, s)
      | Some start \<Rightarrow>
          (case kernel_virt_from_phys start of
             None \<Rightarrow> (Panic, s)
           | Some v \<Rightarrow>
               bind_pg (halt_with ImageFailed
                 (bind_pg (map_range v start 0 kernel_data s) (\<lambda>_ s1. map_range v start (section_len sec) (sec_permissions sec) s1)))
                 (\<lambda>_ s2. image_ranges secs s2)))"

definition build_parts :: "attributed_range list \<Rightarrow> image_bounds \<Rightarrow> builder \<times> paging \<Rightarrow> (build_halt, unit) outcome \<times> builder \<times> paging" where
  "build_parts ranges bounds s =
     bind_pg (halt_with IdentityFailed (identity_pages (resolve_pages ranges) s)) (\<lambda>_ s1.
     bind_pg (window_ranges ranges s1) (\<lambda>_ s2.
       case image_sections bounds of
         Ok secs \<Rightarrow> image_ranges secs s2 | Err e \<Rightarrow> (Err (ImageLayout e), s2) | Panic \<Rightarrow> (Panic, s2)))"

definition build_kernel_tables :: "attributed_range list \<Rightarrow> image_bounds \<Rightarrow> paging \<Rightarrow> (build_halt, builder) outcome \<times> paging" where
  "build_kernel_tables ranges bounds w =
     (case builder_with_reach None w of
        (Err e, w1) \<Rightarrow> (Err (BuildStart e), w1) | (Panic, w1) \<Rightarrow> (Panic, w1)
      | (Ok b, w1) \<Rightarrow>
          (case build_parts ranges bounds (b, w1) of
             (Ok _, b1, w2) \<Rightarrow> (Ok b1, w2) | (Err e, _, w2) \<Rightarrow> (Err e, w2) | (Panic, _, w2) \<Rightarrow> (Panic, w2)))"

lemma run_maps_halt: "run_maps inside perms target xs s (halt_with h y) \<longleftrightarrow> run_maps inside perms target xs s y"
  by (cases y; cases s; cases "fst y") (auto simp: run_maps_def halt_with_def)

text \<open>The parts: a page of the identity, a range in the window at \<open>DIRECT_MAP_BASE\<close>, a section of the image at
  \<open>KERNEL_VIRT_BASE\<close>.\<close>

definition WINDOW :: nat where "WINDOW = 0xFFFF800000000000"

definition IMAGE :: nat where "IMAGE = 0xFFFFFFFF80000000"

definition in_range :: "attributed_range \<Rightarrow> nat \<Rightarrow> bool" where
  "in_range g a \<longleftrightarrow> pa (ar_start g) \<le> a \<and> a < pa (ar_end g)"

definition in_page :: "page_mapping \<Rightarrow> u64 \<Rightarrow> bool" where
  "in_page m u \<longleftrightarrow> pa (pm_phys_addr m) \<le> unat u \<and> unat u < pa (pm_phys_addr m) + page_bytes m"

definition in_window :: "attributed_range \<Rightarrow> u64 \<Rightarrow> bool" where
  "in_window g u \<longleftrightarrow> WINDOW \<le> unat u \<and> in_range g (unat u - WINDOW)"

definition in_image :: "image_section \<Rightarrow> u64 \<Rightarrow> bool" where
  "in_image sec u \<longleftrightarrow> IMAGE \<le> unat u \<and> sec_start sec \<le> unat u - IMAGE \<and> unat u - IMAGE < sec_end sec"

definition page_ok :: "page_mapping \<Rightarrow> bool" where
  "page_ok m \<longleftrightarrow> 4096 dvd pa (pm_phys_addr m) \<and> (pm_huge m \<longrightarrow> 0x200000 dvd pa (pm_phys_addr m)) \<and> pa (pm_phys_addr m) < 2 ^ 47"

definition range_ok :: "attributed_range \<Rightarrow> bool" where
  "range_ok r \<longleftrightarrow> 4096 dvd pa (ar_start r) \<and> 4096 dvd pa (ar_end r) \<and> ar_start r \<le> ar_end r \<and> pa (ar_end r) \<le> 0x7FFF80000000"

definition section_ok :: "image_section \<Rightarrow> bool" where
  "section_ok sec \<longleftrightarrow> 4096 dvd sec_start sec \<and> sec_start sec < sec_end sec \<and> sec_end sec \<le> 0x80000000"

lemma identity_page_maps:
  assumes m: "page_ok m" and ok: "tables_ok (bl_root (fst s)) (snd s)"
  shows "run_maps in_page (\<lambda>m. permissions_for (pm_cacheable m)) (\<lambda>u. u) [m] s
    (builder_map_page (pm_phys_addr m) (pm_huge m) (permissions_for (pm_cacheable m)) s)"
proof -
  obtain b w where s: "s = (b, w)" by (cases s)
  let ?p = "pm_phys_addr m" and ?perms = "permissions_for (pm_cacheable m)"
  let ?v = "VirtAddr (phys_raw ?p)"
  have p: "4096 dvd pa ?p" "pm_huge m \<longrightarrow> 0x200000 dvd pa ?p" "pa ?p < 2 ^ 47" using m by (auto simp: page_ok_def)
  have c: "is_canonical (phys_raw ?p)" using p(3) by (simp add: is_canonical_iff)
  obtain x b1 w1 where m1: "map_one ?v ?p (pm_huge m) ?perms (b, w) = (x, b1, w1)" by (metis prod_cases3)
  have al: "page_aligned ?p" using p by (simp add: page_aligned_dvd)
  have vs: "leaf_span (pm_huge m) dvd va ?v" using p by (simp add: leaf_span_def)
  have cv: "is_canonical (virt_raw ?v)" using c by simp
  have okb: "tables_ok (bl_root b) w" using ok s by simp
  note E = map_one_effect(1-3) [OF okb al p(2) m1] and T = map_one_translate [OF okb al p(2) m1 cv vs]
  have pb: "page_bytes m = leaf_span (pm_huge m)" by (simp add: page_bytes_def leaf_span_def)
  have "if x = Ok () \<and> in_page m u then mapped_at (pg_mem w1) (bl_root b) ?perms u u
      else translate (pg_mem w1) (bl_root b) (VirtAddr u) = translate (pg_mem w) (bl_root b) (VirtAddr u)" if "is_canonical u" for u
    using T [of "VirtAddr u"] maps_as_at [of ?v ?p ?perms u "pg_mem w1" "bl_root b"] that by (auto simp: in_page_def pb split: if_splits)
  then have "parts_mapped in_page (\<lambda>m. permissions_for (pm_cacheable m)) (\<lambda>u. u) [m] (x = Ok ()) (bl_root b) (pg_mem w) (pg_mem w1)"
    unfolding parts_mapped_def by (auto split: if_splits)
  moreover have "builder_map_page ?p (pm_huge m) ?perms (b, w) = (x, b1, w1)" using c m1 by (simp add: builder_map_page_def virt_new_def)
  ultimately show ?thesis using E by (simp add: run_maps_def s)
qed

lemma identity_pages_map:
  assumes "\<forall>m \<in> set ms. page_ok m" "tables_ok (bl_root (fst s)) (snd s)"
  shows "run_maps in_page (\<lambda>m. permissions_for (pm_cacheable m)) (\<lambda>u. u) ms s (identity_pages ms s)"
  using assms
proof (induction ms arbitrary: s)
  case (Cons m ms)
  then show ?case unfolding identity_pages.simps by (intro run_maps_Cons identity_page_maps) simp_all
qed (simp add: run_maps_Nil)

text \<open>A range that \<open>map_range\<close> maps at a fixed distance.\<close>

lemma range_maps:
  assumes al: "4096 dvd va v" "4096 dvd pa p" "len < u64_limit" and ok: "tables_ok (bl_root (fst s)) (snd s)"
    and ins: "\<And>u. inside x u \<longleftrightarrow> va v \<le> unat u \<and> unat u < va v + len"
    and target: "\<And>u. target u = phys_raw p + (u - virt_raw v)"
  shows "run_maps inside perms target [x] s (map_range v p len (perms x) s)"
proof -
  obtain b w where s: "s = (b, w)" by (cases s)
  obtain y b1 w1 where m: "map_range v p len (perms x) (b, w) = (y, b1, w1)" by (metis prod_cases3)
  have okb: "tables_ok (bl_root b) w" using ok s by simp
  note R = map_range_mapped [OF al okb m]
  have "range_mapped v p (perms x) (va v) (va v + len) (y = Ok ()) (bl_root b) (pg_mem w) (pg_mem w1)" using R by simp
  then have "parts_mapped inside perms target [x] (y = Ok ()) (bl_root b) (pg_mem w) (pg_mem w1)"
    unfolding parts_mapped_def range_mapped_def target maps_as_at [symmetric] using ins by (auto split: if_splits)
  then show ?thesis using R m by (simp add: run_maps_def s)
qed

lemma window_ranges_map:
  assumes "\<forall>g \<in> set rs. range_ok g" "tables_ok (bl_root (fst s)) (snd s)"
  shows "run_maps in_window (\<lambda>g. permissions_for (ar_cacheable g)) (\<lambda>u. u - DIRECT_MAP_BASE) rs s (window_ranges rs s)"
  using assms
proof (induction rs arbitrary: s)
  case (Cons g rs)
  let ?p = "ar_start g" and ?len = "pa (ar_end g) - pa (ar_start g)"
  let ?v = "VirtAddr (DIRECT_MAP_BASE + phys_raw ?p)"
  have r: "4096 dvd pa ?p" "pa ?p \<le> pa (ar_end g)" "pa (ar_end g) \<le> 0x7FFF80000000" using Cons.prems by (auto simp: range_ok_def phys_le_iff)
  have v: "va ?v = WINDOW + pa ?p" using r by (simp add: unat_add_no_overflow DIRECT_MAP_BASE_def WINDOW_def)
  then have c: "is_canonical (DIRECT_MAP_BASE + phys_raw ?p)" using r by (simp add: is_canonical_iff WINDOW_def)
  have al: "4096 dvd va ?v" unfolding v using r(1) by (simp add: WINDOW_def)
  have one: "run_maps in_window (\<lambda>g. permissions_for (ar_cacheable g)) (\<lambda>u. u - DIRECT_MAP_BASE) [g] s
      (map_range ?v ?p ?len (permissions_for (ar_cacheable g)) s)"
    by (rule range_maps [OF al r(1)]) (use r v Cons.prems in \<open>auto simp: in_window_def in_range_def\<close>)
  have "window_ranges (g # rs) s = bind_pg (halt_with WindowFailed (map_range ?v ?p ?len (permissions_for (ar_cacheable g)) s)) (\<lambda>_ s1. window_ranges rs s1)"
    using c r by (simp add: virt_new_def)
  then show ?case using one Cons by (auto intro!: run_maps_Cons simp: run_maps_halt simp del: window_ranges.simps)
qed (simp add: run_maps_Nil)

lemma image_ranges_map:
  assumes "\<forall>sec \<in> set secs. section_ok sec" "tables_ok (bl_root (fst s)) (snd s)"
  shows "run_maps in_image sec_permissions (\<lambda>u. u - KERNEL_VIRT_BASE) secs s (image_ranges secs s)"
  using assms
proof (induction secs arbitrary: s)
  case (Cons sec secs)
  let ?s = "word_of_nat (sec_start sec) :: u64" and ?len = "section_len sec"
  let ?p = "PhysAddr ?s" and ?v = "VirtAddr (?s + KERNEL_VIRT_BASE)"
  have b: "4096 dvd sec_start sec" "sec_start sec < sec_end sec" "sec_end sec \<le> 0x80000000" using Cons.prems by (auto simp: section_ok_def)
  have us: "unat ?s = sec_start sec" using b by (simp add: unat_word_of_nat)
  have v: "va ?v = IMAGE + sec_start sec" using b by (simp add: unat_add_no_overflow us KERNEL_VIRT_BASE_def IMAGE_def)
  then have c: "is_canonical (?s + KERNEL_VIRT_BASE)" using b by (simp add: is_canonical_iff IMAGE_def)
  have pn: "phys_new ?s = Some ?p" "kernel_virt_from_phys ?p = Some ?v"
    using b c us by (simp_all add: phys_new_Some kernel_virt_from_phys_def checked_add_def virt_new_def KERNEL_VIRT_BASE_def)
  have al: "4096 dvd va ?v" "4096 dvd pa ?p" using b(1) unfolding v phys_addr.sel us by (simp_all add: IMAGE_def)
  have one: "run_maps in_image sec_permissions (\<lambda>u. u - KERNEL_VIRT_BASE) [sec] s (map_range ?v ?p ?len (sec_permissions sec) s)"
    by (rule range_maps [OF al]) (use b v Cons.prems in \<open>auto simp: in_image_def section_len_def\<close>)
  have "map_range ?v ?p 0 kernel_data s = (Ok (), s)" by (simp add: map_range_def map_range_loop.simps)
  then have "image_ranges (sec # secs) s = bind_pg (halt_with ImageFailed (map_range ?v ?p ?len (sec_permissions sec) s)) (\<lambda>_ s2. image_ranges secs s2)"
    using pn by (simp add: bind_pg_def)
  then show ?case using one Cons by (auto intro!: run_maps_Cons simp: run_maps_halt simp del: image_ranges.simps)
qed (simp add: run_maps_Nil)

lemma image_sections_ok:
  assumes "ib_end bounds \<le> 0x80000000"
  shows "image_sections bounds \<noteq> Panic"
    "image_sections bounds = Ok secs \<Longrightarrow> (\<forall>sec \<in> set secs. section_ok sec) \<and>
       (\<forall>sec \<in> set secs. \<not> perm_user (sec_permissions sec) \<and> \<not> (perm_write (sec_permissions sec) \<and> perm_execute (sec_permissions sec)))"
proof -
  have n: "next_page (ib_end bounds) \<le> 0x80000000"
  proof -
    have "(ib_end bounds + 4095) div 4096 \<le> 0x80000" using assms by linarith
    then show ?thesis by (simp add: next_page_def)
  qed
  show "image_sections bounds \<noteq> Panic" using n by (auto simp: image_sections_def Let_def)
  show "(\<forall>sec \<in> set secs. section_ok sec) \<and>
       (\<forall>sec \<in> set secs. \<not> perm_user (sec_permissions sec) \<and> \<not> (perm_write (sec_permissions sec) \<and> perm_execute (sec_permissions sec)))"
    if "image_sections bounds = Ok secs"
    using that n by (auto simp: image_sections_def Let_def section_ok_def kernel_code_def kernel_read_only_def kernel_data_def mod_eq_0_iff_dvd split: if_splits)
qed

text \<open>The empty root.\<close>

lemma builder_started:
  assumes inv: "fa_invar DEFAULT_CAPACITY (pg_frames w)" and s: "builder_with_reach None w = (res, w')"
  shows "res \<noteq> Panic" "res = Ok b \<Longrightarrow> tables_ok (bl_root b) w' \<and> translate (pg_mem w') (bl_root b) u = Ok None"
proof -
  obtain w1 x where t: "take_frame w = (w1, x)" by (cases "take_frame w")
  obtain fa where fa: "allocate_frame (pg_frames w) = (fa, x)" "w1 = w\<lparr>pg_frames := fa\<rparr>"
    using t by (auto simp: take_frame_def split: prod.splits)
  show "res \<noteq> Panic" using s t by (auto simp: builder_with_reach_def alloc_zeroed_table_def split: option.splits)
  assume res: "res = Ok b"
  then obtain c where c: "x = Some c" using s t by (cases x) (auto simp: builder_with_reach_def alloc_zeroed_table_def)
  then have b: "bl_root b = c" "w' = zero_table c w1" using s t res by (auto simp: builder_with_reach_def alloc_zeroed_table_def)
  have f: "fa_invar DEFAULT_CAPACITY fa" "page_aligned c" "frame_number c \<notin> free_frames fa"
    using fa.alloc_Some [OF inv fa(1) [unfolded c]] page_aligned_from_frame by auto
  have z: "pg_mem w' c = (\<lambda>_. 0)" "pg_frames w' = fa" by (auto simp: b(2) fa(2) zero_table_def)
  have no: "is_present 0 = False" by (simp add: is_present_def)
  have ta: "table_at (pg_mem w') c p = (if p = [] then Some c else None)" for p
    by (induction p) (auto simp: z(1) no child_of_def)
  have "tables (pg_mem w') c = {c}" by (auto simp: tables_def ta split: if_splits)
  then have "tables_ok c w'" using f z(2) by (auto simp: tables_ok_def tree_def ta top_ok_def z(1) no split: if_splits)
  moreover have lf: "leaf_at (pg_mem w') c q = None" for q by (simp add: leaf_at_def entry_at_def ta z(1) no)
  moreover have "translate (pg_mem w') c u = Ok None"
    using tables_ok_top [OF \<open>tables_ok c w'\<close>] by (simp add: translate_by_leaves translate_leaves_def lf)
  ultimately show "tables_ok (bl_root b) w' \<and> translate (pg_mem w') (bl_root b) u = Ok None" by (simp add: b(1))
qed

lemma tiles_in_pages:
  assumes "tiles lo ms hi"
  shows "(\<exists>m \<in> set ms. in_page m u) \<longleftrightarrow> lo \<le> unat u \<and> unat u < hi" "\<forall>m \<in> set ms. lo \<le> pa (pm_phys_addr m) \<and> pa (pm_phys_addr m) < hi"
    "4096 dvd lo \<Longrightarrow> \<forall>m \<in> set ms. 4096 dvd pa (pm_phys_addr m)"
proof -
  have pb: "0 < page_bytes m" "4096 dvd page_bytes m" for m by (auto simp: page_bytes_def)
  have le: "lo \<le> hi" if "tiles lo ms hi" for lo ms using that by (induction ms arbitrary: lo) (auto simp: page_bytes_def, force)
  show "(\<exists>m \<in> set ms. in_page m u) \<longleftrightarrow> lo \<le> unat u \<and> unat u < hi" using assms
  proof (induction ms arbitrary: lo)
    case (Cons m ms)
    then have t: "tiles (lo + page_bytes m) ms hi" "pa (pm_phys_addr m) = lo" by simp_all
    show ?case using le [OF t(1)] Cons.IH [OF t(1)] t(2) by (auto simp: in_page_def)
  qed auto
  show "\<forall>m \<in> set ms. lo \<le> pa (pm_phys_addr m) \<and> pa (pm_phys_addr m) < hi" using assms
  proof (induction ms arbitrary: lo)
    case (Cons m ms)
    then show ?case using le [of "lo + page_bytes m" ms] pb [of m] by fastforce
  qed simp
  show "\<forall>m \<in> set ms. 4096 dvd pa (pm_phys_addr m)" if "4096 dvd lo" using assms that
  proof (induction ms arbitrary: lo)
    case (Cons m ms)
    then show ?case using pb [of m] by auto
  qed simp
qed

text \<open>The pages of the plan: they are aligned, and the last page over an address has the attribute of the last range over it.\<close>

lemma plan_pages_ok:
  assumes "\<forall>g \<in> set rs. range_ok g"
  shows "\<forall>m \<in> set (resolve_pages rs). page_ok m"
proof
  fix m assume "m \<in> set (resolve_pages rs)"
  then obtain g where g: "g \<in> set rs" "m \<in> set (resolve_range g)" by (auto simp: resolve_pages_def)
  have "tiles (pa (ar_start g)) (resolve_range g) (pa (ar_end g))" "4096 dvd pa (ar_start g)" "pa (ar_end g) \<le> 0x7FFF80000000"
    using assms g(1) resolve_range_tiles [of g] by (auto simp: range_ok_def)
  then show "page_ok m" using tiles_in_pages(2,3) [of "pa (ar_start g)" "resolve_range g"] resolve_range_attributes [OF g(2)] g(2)
    unfolding page_ok_def by fastforce
qed

lemma plan_pages_last:
  assumes "\<forall>g \<in> set rs. range_ok g"
  shows "map_option pm_cacheable (last_of (\<lambda>m. in_page m u) (resolve_pages rs)) = map_option ar_cacheable (last_of (\<lambda>g. in_range g (unat u)) rs)"
  using assms
proof (induction rs)
  case (Cons g rs)
  have "tiles (pa (ar_start g)) (resolve_range g) (pa (ar_end g))" using Cons.prems resolve_range_tiles [of g] by (auto simp: range_ok_def)
  note t = tiles_in_pages(1) [OF this, of u]
  have "map_option pm_cacheable (last_of (\<lambda>m. in_page m u) (resolve_range g)) = (if in_range g (unat u) then Some (ar_cacheable g) else None)"
  proof (cases "in_range g (unat u)")
    case True
    then obtain m where m: "last_of (\<lambda>m. in_page m u) (resolve_range g) = Some m"
      using t last_of_None [of "\<lambda>m. in_page m u" "resolve_range g"] by (auto simp: in_range_def)
    then show ?thesis using True last_of_Some [OF m] resolve_range_attributes by simp
  next
    case False
    then show ?thesis using t last_of_None [of "\<lambda>m. in_page m u" "resolve_range g"] by (auto simp: in_range_def)
  qed
  moreover have "resolve_pages (g # rs) = resolve_range g @ resolve_pages rs" by (simp add: resolve_pages_def)
  ultimately show ?case using Cons by (auto split: option.splits)
qed (simp add: resolve_pages_def)

text \<open>What the tables of the kernel translate: the planned memory at its own address and in the window, the image, nothing else.\<close>

definition laid_out :: "attributed_range list \<Rightarrow> image_section list \<Rightarrow> table_mem \<Rightarrow> phys_addr \<Rightarrow> bool" where
  "laid_out ranges secs m r \<longleftrightarrow> (\<forall>u. is_canonical u \<longrightarrow>
     (case last_of (\<lambda>g. in_range g (unat u)) ranges of
        Some g \<Rightarrow> mapped_at m r (permissions_for (ar_cacheable g)) u u
      | None \<Rightarrow>
     (case last_of (\<lambda>g. in_window g u) ranges of
        Some g \<Rightarrow> mapped_at m r (permissions_for (ar_cacheable g)) u (u - DIRECT_MAP_BASE)
      | None \<Rightarrow>
     (case last_of (\<lambda>sec. in_image sec u) secs of
        Some sec \<Rightarrow> mapped_at m r (sec_permissions sec) u (u - KERNEL_VIRT_BASE)
      | None \<Rightarrow> translate m r (VirtAddr u) = Ok None))))"

lemma laid_out_parts:
  assumes rs: "\<forall>g \<in> set ranges. range_ok g" and z: "\<And>u. translate m0 r (VirtAddr u) = Ok None"
    and a: "parts_mapped in_page (\<lambda>m. permissions_for (pm_cacheable m)) (\<lambda>u. u) (resolve_pages ranges) True r m0 m1"
    and b: "parts_mapped in_window (\<lambda>g. permissions_for (ar_cacheable g)) (\<lambda>u. u - DIRECT_MAP_BASE) ranges True r m1 m2"
    and c: "parts_mapped in_image sec_permissions (\<lambda>u. u - KERNEL_VIRT_BASE) secs True r m2 m3"
  shows "laid_out ranges secs m3 r"
  unfolding laid_out_def
proof (intro allI impI)
  fix u :: u64 assume u: "is_canonical u"
  let ?A = "last_of (\<lambda>g. in_range g (unat u)) ranges" and ?B = "last_of (\<lambda>g. in_window g u) ranges" and ?C = "last_of (\<lambda>sec. in_image sec u) secs"
  have low: "k < 0x7FFF80000000" if "g \<in> set ranges" "in_range g k" for g k using that rs by (fastforce simp: in_range_def range_ok_def)
  have apart: "?A \<noteq> None \<Longrightarrow> ?B = None \<and> ?C = None" "?B \<noteq> None \<Longrightarrow> ?C = None"
    using low unfolding last_of_None by (fastforce simp: in_window_def in_image_def WINDOW_def IMAGE_def)+
  have A: "case ?A of None \<Rightarrow> translate m1 r (VirtAddr u) = translate m0 r (VirtAddr u)
      | Some g \<Rightarrow> mapped_at m1 r (permissions_for (ar_cacheable g)) u u"
    using a [unfolded parts_mapped_def, rule_format, OF u] plan_pages_last [OF rs, of u] by (auto split: option.splits)
  note B = b [unfolded parts_mapped_def, rule_format, OF u] and C = c [unfolded parts_mapped_def, rule_format, OF u]
  show "case ?A of Some g \<Rightarrow> mapped_at m3 r (permissions_for (ar_cacheable g)) u u
    | None \<Rightarrow> (case ?B of Some g \<Rightarrow> mapped_at m3 r (permissions_for (ar_cacheable g)) u (u - DIRECT_MAP_BASE)
    | None \<Rightarrow> (case ?C of Some sec \<Rightarrow> mapped_at m3 r (sec_permissions sec) u (u - KERNEL_VIRT_BASE)
    | None \<Rightarrow> translate m3 r (VirtAddr u) = Ok None))"
    using A B C apart z by (auto simp: mapped_at_def split: option.splits)
qed

lemma kernel_tables_parts:
  assumes ok: "tables_ok (bl_root b) w" and rs: "\<forall>g \<in> set ranges. range_ok g" and ib: "ib_end bounds \<le> 0x80000000"
    and z: "\<And>u. translate (pg_mem w) (bl_root b) u = Ok None"
    and run: "build_parts ranges bounds (b, w) = (res, b', w')"
  shows "tables_ok (bl_root b) w' \<and> res \<noteq> Panic \<and> bl_root b' = bl_root b \<and>
    (res = Ok () \<longrightarrow> (\<exists>secs. image_sections bounds = Ok secs \<and> laid_out ranges secs (pg_mem w') (bl_root b)))"
proof -
  obtain x1 b1 w1 where s1: "halt_with IdentityFailed (identity_pages (resolve_pages ranges) (b, w)) = (x1, b1, w1)" by (metis prod_cases3)
  have "run_maps in_page (\<lambda>m. permissions_for (pm_cacheable m)) (\<lambda>u. u) (resolve_pages ranges) (b, w)
      (halt_with IdentityFailed (identity_pages (resolve_pages ranges) (b, w)))"
    using identity_pages_map [OF plan_pages_ok [OF rs], of "(b, w)"] ok by (simp add: run_maps_halt)
  then have S1: "tables_ok (bl_root b) w1" "x1 \<noteq> Panic" "bl_root b1 = bl_root b"
    "parts_mapped in_page (\<lambda>m. permissions_for (pm_cacheable m)) (\<lambda>u. u) (resolve_pages ranges) (x1 = Ok ()) (bl_root b) (pg_mem w) (pg_mem w1)"
    by (simp_all add: s1 run_maps_def)
  obtain x2 b2 w2 where s2: "window_ranges ranges (b1, w1) = (x2, b2, w2)" by (metis prod_cases3)
  have S2: "tables_ok (bl_root b) w2" "x2 \<noteq> Panic" "bl_root b2 = bl_root b"
    "parts_mapped in_window (\<lambda>g. permissions_for (ar_cacheable g)) (\<lambda>u. u - DIRECT_MAP_BASE) ranges (x2 = Ok ()) (bl_root b) (pg_mem w1) (pg_mem w2)"
    using window_ranges_map [OF rs, of "(b1, w1)"] S1 by (simp_all add: s2 run_maps_def)
  note run = run [unfolded build_parts_def s1]
  show ?thesis
  proof (cases "x1 = Ok () \<and> x2 = Ok () \<and> (\<exists>secs. image_sections bounds = Ok secs)")
    case True
    then obtain secs where secs: "image_sections bounds = Ok secs" by blast
    have S3: "tables_ok (bl_root b) w'" "res \<noteq> Panic" "bl_root b' = bl_root b"
      "parts_mapped in_image sec_permissions (\<lambda>u. u - KERNEL_VIRT_BASE) secs (res = Ok ()) (bl_root b) (pg_mem w2) (pg_mem w')"
      using image_ranges_map [of secs "(b2, w2)"] image_sections_ok(2) [OF ib secs] S2 run True secs s2
      by (simp_all add: run_maps_def bind_pg_def)
    have "laid_out ranges secs (pg_mem w') (bl_root b)" if "res = Ok ()"
      by (rule laid_out_parts [OF rs z, of "pg_mem w1" "pg_mem w2"]) (use True S1 S2 S3 that in simp_all)
    then show ?thesis using S3 secs by blast
  next
    case False
    then show ?thesis using run s2 S1 S2 image_sections_ok(1) [OF ib]
      by (cases x1; cases x2; cases "image_sections bounds") (auto simp: bind_pg_def)
  qed
qed

lemma laid_out_protected:
  assumes lo: "laid_out ranges secs m r" and u: "is_canonical u" and t: "translate m r (VirtAddr u) = Ok (Some t)"
    and sec: "\<forall>sec \<in> set secs. \<not> perm_user (sec_permissions sec) \<and> \<not> (perm_write (sec_permissions sec) \<and> perm_execute (sec_permissions sec))"
  shows "\<not> bit (tr_entry t) 2 \<and> (bit (tr_entry t) 1 \<longrightarrow> bit (tr_entry t) 63)"
proof -
  have safe: "\<not> perm_user (permissions_for c) \<and> \<not> perm_execute (permissions_for c)" for c by (simp add: permissions_for_def kernel_data_def kernel_device_def)
  have key: "\<not> bit (tr_entry t) 2 \<and> (bit (tr_entry t) 1 \<longrightarrow> bit (tr_entry t) 63)"
    if "mapped_at m r perms u a" "\<not> perm_user perms \<and> \<not> (perm_write perms \<and> perm_execute perms)" for perms a
    using that t by (auto simp: mapped_at_def)
  note L = lo [unfolded laid_out_def, rule_format, OF u]
  consider c a where "mapped_at m r (permissions_for c) u a" | sec a where "sec \<in> set secs" "mapped_at m r (sec_permissions sec) u a"
  proof (cases "last_of (\<lambda>g. in_range g (unat u)) ranges = None \<and> last_of (\<lambda>g. in_window g u) ranges = None")
    case True
    then obtain s where s: "last_of (\<lambda>sec. in_image sec u) secs = Some s" using L t by (cases "last_of (\<lambda>sec. in_image sec u) secs") simp_all
    then show ?thesis using that(2) [of s] last_of_Some [OF s] L True by simp
  qed (use that(1) L in \<open>auto split: option.splits\<close>)
  then show ?thesis using key safe sec by cases blast+
qed

text \<open>C999: whatever the plan and the bounds of the image are, building the tables of the kernel does not panic. When it succeeds
  the tables are a tree of frames of their own and translate exactly this: every address of a planned range to itself, every
  address of the window at \<open>DIRECT_MAP_BASE\<close> over a planned range to the memory behind it, both writable, not
  executable, cached as the range says (the last one, should ranges overlap), and every address of the image at
  \<open>KERNEL_VIRT_BASE\<close> to its memory with the rights of its section. Nothing is open to the user, and nothing is both writable
  and executable. The ranges are page-aligned and below the end of the window's reach.\<close>

theorem kernel_tables_map_the_plan:
  assumes "fa_invar DEFAULT_CAPACITY (pg_frames w)" "\<forall>g \<in> set ranges. range_ok g" "ib_end bounds \<le> 0x80000000"
    "build_kernel_tables ranges bounds w = (res, w')"
  shows "res \<noteq> Panic \<and> (\<forall>b. res = Ok b \<longrightarrow> tables_ok (bl_root b) w' \<and>
    (\<exists>secs. image_sections bounds = Ok secs \<and> laid_out ranges secs (pg_mem w') (bl_root b)) \<and>
    (\<forall>u t. is_canonical u \<longrightarrow> translate (pg_mem w') (bl_root b) (VirtAddr u) = Ok (Some t) \<longrightarrow>
       \<not> bit (tr_entry t) 2 \<and> (bit (tr_entry t) 1 \<longrightarrow> bit (tr_entry t) 63)))"
proof -
  obtain x0 w0 where s0: "builder_with_reach None w = (x0, w0)" by (metis surj_pair)
  note S0 = builder_started [OF assms(1) s0]
  show ?thesis
  proof (cases x0)
    case (Ok b0)
    obtain x b1 w1 where run: "build_parts ranges bounds (b0, w0) = (x, b1, w1)" by (metis prod_cases3)
    have "tables_ok (bl_root b0) w0" "\<And>u. translate (pg_mem w0) (bl_root b0) u = Ok None" using S0(2) [OF Ok] by simp_all
    note parts = kernel_tables_parts [OF this(1) assms(2,3) this(2) run]
    have "(res, w') = (case x of Ok _ \<Rightarrow> (Ok b1, w1) | Err e \<Rightarrow> (Err e, w1) | Panic \<Rightarrow> (Panic, w1))"
      using assms(4) unfolding build_kernel_tables_def s0 Ok prod.case outcome.case run by (cases x) simp_all
    then have r: "res \<noteq> Panic" "\<And>b. res = Ok b \<Longrightarrow> x = Ok () \<and> b = b1 \<and> w' = w1" using parts by (cases x; simp)+
    have "\<not> bit (tr_entry t) 2 \<and> (bit (tr_entry t) 1 \<longrightarrow> bit (tr_entry t) 63)"
      if secs: "image_sections bounds = Ok secs" "laid_out ranges secs (pg_mem w1) (bl_root b1)"
        and u: "is_canonical u" "translate (pg_mem w1) (bl_root b1) (VirtAddr u) = Ok (Some t)" for secs u t
      by (rule laid_out_protected [OF secs(2) u]) (use image_sections_ok(2) [OF assms(3) secs(1)] in blast)
    then show ?thesis using r parts by metis
  next
    case (Err e)
    then show ?thesis using assms(4) s0 by (auto simp: build_kernel_tables_def)
  qed (use S0 in simp)
qed

definition sample_ranges :: "attributed_range list" where
  "sample_ranges = [\<lparr>ar_start = PhysAddr 0x5000, ar_end = PhysAddr 0x6000, ar_cacheable = True\<rparr>]"

definition sample_bounds :: image_bounds where
  "sample_bounds = \<lparr>ib_start = 0x100000, ib_read_only_start = 0x101000, ib_data_start = 0x102000, ib_end = 0x102010\<rparr>"

lemma sample_pages: "resolve_pages sample_ranges = [\<lparr>pm_phys_addr = PhysAddr 0x5000, pm_huge = False, pm_cacheable = True\<rparr>]"
  by (simp add: resolve_pages_def sample_ranges_def resolve_range_def emit_4k_def emit_pages.simps PLAN_FRAME_SIZE_def Page_Plan.PAGE_SIZE_2M_def
    phys_align_up_def phys_align_down_def phys_checked_add_def checked_add_def phys_new_def is_valid_phys_def PHYS_ADDR_BITS_def phys_le_iff phys_less_iff)

lemmas eval_build = map_one_def builder_ensure_child_def alloc_zeroed_table_def bind_pg_def eval_tables eval_entry

lemma sample_sections: "image_sections sample_bounds = Ok
  [\<lparr>sec_start = 0x100000, sec_end = 0x101000, sec_permissions = kernel_code\<rparr>, \<lparr>sec_start = 0x101000, sec_end = 0x102000, sec_permissions = kernel_read_only\<rparr>,
   \<lparr>sec_start = 0x102000, sec_end = 0x103000, sec_permissions = kernel_data\<rparr>]"
  by (simp add: image_sections_def sample_bounds_def next_page_def)

lemmas eval_ranges = map_range_def map_range_loop.simps map_range_turn_def virt_checked_add_def phys_checked_add_def checked_add_def virt_new_def is_canonical_iff
  halt_with_def permissions_for_def kernel_data_def kernel_code_def kernel_read_only_def section_len_def kernel_virt_from_phys_def KERNEL_VIRT_BASE_def DIRECT_MAP_BASE_def

lemma sample_build_ok: "\<exists>b w'. build_kernel_tables sample_ranges sample_bounds sample_paging = (Ok b, w')"
proof -
  have start: "builder_with_reach None sample_paging = (Ok \<lparr>bl_root = PhysAddr 0x3000, bl_frames_used = 1, bl_reach = None\<rparr>,
      \<lparr>pg_mem = (\<lambda>_ _. 0)(PhysAddr 0x3000 := \<lambda>_. 0), pg_frames = \<lparr>fa_ranges = [\<lparr>start_frame = 4, frame_count = 1996\<rparr>]\<rparr>\<rparr>)"
    by (simp add: builder_with_reach_def alloc_zeroed_table_def sample_paging_def eval_tables)
  show ?thesis unfolding build_kernel_tables_def build_parts_def start sample_pages sample_sections
    by (simp add: sample_ranges_def builder_map_page_def eval_ranges eval_build)
qed

theorem kernel_tables_map_the_plan_witness:
  "\<exists>b w'. build_kernel_tables sample_ranges sample_bounds sample_paging = (Ok b, w') \<and>
     mapped_at (pg_mem w') (bl_root b) kernel_data 0x5678 0x5678 \<and> mapped_at (pg_mem w') (bl_root b) kernel_data 0xFFFF800000005678 0x5678 \<and>
     mapped_at (pg_mem w') (bl_root b) kernel_code 0xFFFFFFFF80100010 0x100010 \<and>
     translate (pg_mem w') (bl_root b) (VirtAddr 0x6000) = Ok None"
proof -
  obtain b w' where b: "build_kernel_tables sample_ranges sample_bounds sample_paging = (Ok b, w')" using sample_build_ok by blast
  have inv: "fa_invar DEFAULT_CAPACITY (pg_frames sample_paging)" using sample_paging_ok by (simp add: tables_ok_def)
  have rs: "\<forall>g \<in> set sample_ranges. range_ok g" "ib_end sample_bounds \<le> 0x80000000"
    by (simp_all add: sample_ranges_def sample_bounds_def range_ok_def phys_le_iff)
  obtain secs where s: "image_sections sample_bounds = Ok secs" "laid_out sample_ranges secs (pg_mem w') (bl_root b)"
    using kernel_tables_map_the_plan [OF inv rs b] by blast
  note L = s(2) [unfolded laid_out_def, rule_format]
  show ?thesis
    using b s(1) L [of "0x5678"] L [of "0xFFFF800000005678"] L [of "0xFFFFFFFF80100010"] L [of "0x6000"]
    by (auto simp: is_canonical_iff sample_ranges_def WINDOW_def IMAGE_def sample_sections in_range_def in_window_def in_image_def
        DIRECT_MAP_BASE_def KERNEL_VIRT_BASE_def permissions_for_def)
qed

end
