(* ===== verification/Ring.thy ===== *)
theory Ring
  imports Prelude
begin

text \<open>
  The two byte rings of the kernel: \<open>kernel/src/ring.rs\<close>, the core that pipes and stream sockets
  share, and the scancode ring of \<open>kernel/src/keyboard/buffer.rs\<close> between the keyboard interrupt and
  the main loop. Both refine a bounded first-in first-out queue of bytes, stated as a locale: what
  comes out is what went in, in order, with nothing lost, repeated or made up.
\<close>

subsection \<open>The interface\<close>

text \<open>Bulk operations. \<open>put\<close> returns how many bytes it accepted, \<open>get\<close> the bytes it moved out.\<close>

locale byte_queue =
  fixes invar :: "'s \<Rightarrow> bool"
    and contents :: "'s \<Rightarrow> u8 list"
    and capacity :: nat
    and put :: "'s \<Rightarrow> u8 list \<Rightarrow> 's \<times> nat"
    and get :: "'s \<Rightarrow> nat \<Rightarrow> 's \<times> u8 list"
  assumes bounded: "invar s \<Longrightarrow> length (contents s) \<le> capacity"
    and put_law: "invar s \<Longrightarrow> put s src = (s', n) \<Longrightarrow>
      invar s' \<and> n = min (length src) (capacity - length (contents s)) \<and>
      contents s' = contents s @ take n src"
    and get_law: "invar s \<Longrightarrow> get s k = (s', bs) \<Longrightarrow>
      invar s' \<and> bs = take k (contents s) \<and> contents s' = drop k (contents s)"

text \<open>One byte at a time, as the interrupt handler pushes and the main loop pops.\<close>

locale byte_fifo =
  fixes invar :: "'s \<Rightarrow> bool"
    and contents :: "'s \<Rightarrow> u8 list"
    and capacity :: nat
    and push :: "'s \<Rightarrow> u8 \<Rightarrow> 's \<times> bool"
    and pop :: "'s \<Rightarrow> 's \<times> u8 option"
  assumes push_law: "invar s \<Longrightarrow> push s b = (s', ok) \<Longrightarrow>
      invar s' \<and> (ok \<longleftrightarrow> length (contents s) < capacity) \<and>
      contents s' = contents s @ (if ok then [b] else [])"
    and pop_law: "invar s \<Longrightarrow> pop s = (s', r) \<Longrightarrow>
      invar s' \<and> (case r of None \<Rightarrow> contents s = [] \<and> contents s' = []
                          | Some b \<Rightarrow> contents s = b # contents s')"

sublocale byte_queue \<subseteq> fifo: byte_fifo invar contents capacity
  "\<lambda>s b. (fst (put s [b]), snd (put s [b]) = 1)"
  "\<lambda>s. (fst (get s 1), (case snd (get s 1) of [] \<Rightarrow> None | b # _ \<Rightarrow> Some b))"
proof unfold_locales
  fix s b s' ok
  assume inv: "invar s" and p: "(fst (put s [b]), snd (put s [b]) = 1) = (s', ok)"
  show "invar s' \<and> (ok \<longleftrightarrow> length (contents s) < capacity) \<and> contents s' = contents s @ (if ok then [b] else [])"
    using put_law [OF inv, of "[b]" "fst (put s [b])" "snd (put s [b])"] bounded [OF inv] p
    by (auto simp: min_def split: if_splits)
next
  fix s s' r
  assume inv: "invar s" and p: "(fst (get s 1), (case snd (get s 1) of [] \<Rightarrow> None | b # _ \<Rightarrow> Some b)) = (s', r)"
  show "invar s' \<and> (case r of None \<Rightarrow> contents s = [] \<and> contents s' = [] | Some b \<Rightarrow> contents s = b # contents s')"
    using get_law [OF inv, of 1 "fst (get s 1)" "snd (get s 1)"] p
    by (cases "contents s") auto
qed

text \<open>A run of pushes and pops; it yields the accepted bytes and the bytes that came out.\<close>

datatype byte_op = Push u8 | Pop

fun fifo_run ::
  "('s \<Rightarrow> u8 \<Rightarrow> 's \<times> bool) \<Rightarrow> ('s \<Rightarrow> 's \<times> u8 option) \<Rightarrow> 's \<Rightarrow> byte_op list \<Rightarrow> 's \<times> u8 list \<times> u8 list" where
  "fifo_run push pop s [] = (s, [], [])"
| "fifo_run push pop s (Push b # ops) =
     (let (s1, ok) = push s b; (s2, acc, out) = fifo_run push pop s1 ops
      in (s2, (if ok then b # acc else acc), out))"
| "fifo_run push pop s (Pop # ops) =
     (let (s1, r) = pop s; (s2, acc, out) = fifo_run push pop s1 ops
      in (s2, acc, (case r of None \<Rightarrow> out | Some b \<Rightarrow> b # out)))"

context byte_fifo
begin

lemma run_is_fifo:
  "invar s \<Longrightarrow> fifo_run push pop s ops = (s', acc, out) \<Longrightarrow> invar s' \<and> contents s @ acc = out @ contents s'"
proof (induction ops arbitrary: s s' acc out)
  case (Cons op ops)
  show ?case
  proof (cases op)
    case (Push b)
    obtain s1 ok where p: "push s b = (s1, ok)" by fastforce
    obtain s2 acc2 out2 where r: "fifo_run push pop s1 ops = (s2, acc2, out2)" by (cases "fifo_run push pop s1 ops") auto
    show ?thesis
      using push_law [OF Cons.prems(1) p] Cons.IH [OF _ r] Cons.prems(2) Push p r by (auto split: if_splits)
  next
    case Pop
    obtain s1 x where p: "pop s = (s1, x)" by fastforce
    obtain s2 acc2 out2 where r: "fifo_run push pop s1 ops = (s2, acc2, out2)" by (cases "fifo_run push pop s1 ops") auto
    show ?thesis
      using pop_law [OF Cons.prems(1) p] Cons.IH [OF _ r] Cons.prems(2) Pop p r
      by (cases x) auto
  qed
qed simp

end

subsection \<open>The ring of pipes and sockets\<close>

record byte_ring =
  ring_buf :: "u8 list"
  ring_head :: nat
  ring_len :: nat

definition ring_empty :: "nat \<Rightarrow> byte_ring" where
  "ring_empty n = \<lparr>ring_buf = replicate n 0, ring_head = 0, ring_len = 0\<rparr>"

definition ring_is_empty :: "byte_ring \<Rightarrow> bool" where
  "ring_is_empty r \<longleftrightarrow> ring_len r = 0"

definition ring_room :: "byte_ring \<Rightarrow> nat" where
  "ring_room r = length (ring_buf r) - ring_len r"

text \<open>The loop of \<open>take\<close> moves the head; the length is lowered once after it.\<close>

fun take_loop :: "nat \<Rightarrow> byte_ring \<Rightarrow> byte_ring \<times> u8 list" where
  "take_loop 0 r = (r, [])"
| "take_loop (Suc k) r =
     (let b = ring_buf r ! ring_head r;
          (r', bs) = take_loop k (r\<lparr>ring_head := (ring_head r + 1) mod length (ring_buf r)\<rparr>)
      in (r', b # bs))"

definition ring_take :: "byte_ring \<Rightarrow> nat \<Rightarrow> byte_ring \<times> u8 list" where
  "ring_take r dst_len =
     (let n = min dst_len (ring_len r); (r', bs) = take_loop n r
      in (r'\<lparr>ring_len := ring_len r' - n\<rparr>, bs))"

fun put_loop :: "u8 list \<Rightarrow> byte_ring \<Rightarrow> byte_ring" where
  "put_loop [] r = r"
| "put_loop (b # bs) r =
     (let at = (ring_head r + ring_len r) mod length (ring_buf r)
      in put_loop bs (r\<lparr>ring_buf := (ring_buf r)[at := b], ring_len := ring_len r + 1\<rparr>))"

definition ring_put :: "byte_ring \<Rightarrow> u8 list \<Rightarrow> byte_ring \<times> nat" where
  "ring_put r src = (let n = min (length src) (ring_room r) in (put_loop (take n src) r, n))"

definition ring_invar :: "nat \<Rightarrow> byte_ring \<Rightarrow> bool" where
  "ring_invar n r \<longleftrightarrow> 0 < n \<and> length (ring_buf r) = n \<and> ring_head r < n \<and> ring_len r \<le> n"

definition ring_contents :: "byte_ring \<Rightarrow> u8 list" where
  "ring_contents r = map (\<lambda>i. ring_buf r ! ((ring_head r + i) mod length (ring_buf r))) [0 ..< ring_len r]"

lemma length_ring_contents [simp]: "length (ring_contents r) = ring_len r"
  by (simp add: ring_contents_def)

lemma ring_empty_facts [simp]:
  "0 < n \<Longrightarrow> ring_invar n (ring_empty n)" "ring_contents (ring_empty n) = []"
  by (simp_all add: ring_invar_def ring_empty_def ring_contents_def)

lemma ring_contents_step:
  assumes "0 < ring_len r" "ring_invar n r"
  shows "ring_contents r = ring_buf r ! ring_head r #
    ring_contents (r\<lparr>ring_head := (ring_head r + 1) mod n, ring_len := ring_len r - 1\<rparr>)"
proof -
  obtain m where m: "ring_len r = Suc m" using assms(1) gr0_implies_Suc by blast
  have "[0 ..< Suc m] = 0 # map Suc [0 ..< m]" by (simp add: upt_conv_Cons map_Suc_upt)
  then show ?thesis
    using assms(2) m by (auto simp: ring_contents_def ring_invar_def mod_simps comp_def)
qed

lemma take_loop_spec:
  assumes "ring_invar n r" "k \<le> ring_len r" "take_loop k r = (r', bs)"
  shows "ring_invar n r' \<and> ring_len r' = ring_len r \<and> ring_buf r' = ring_buf r \<and>
    bs = take k (ring_contents r) \<and>
    ring_contents (r'\<lparr>ring_len := ring_len r - k\<rparr>) = drop k (ring_contents r)"
  using assms
proof (induction k arbitrary: r r' bs)
  case 0
  then show ?case by simp
next
  case (Suc k)
  let ?r = "r\<lparr>ring_head := (ring_head r + 1) mod length (ring_buf r)\<rparr>"
  let ?m = "?r\<lparr>ring_len := ring_len r - 1\<rparr>"
  have n: "length (ring_buf r) = n" "0 < n" using Suc.prems(1) by (simp_all add: ring_invar_def)
  obtain q cs where q: "take_loop k ?r = (q, cs)" by fastforce
  have inv: "ring_invar n ?r" using Suc.prems(1) by (simp add: ring_invar_def)
  have IH: "ring_invar n q \<and> ring_len q = ring_len r \<and> ring_buf q = ring_buf r \<and>
      cs = take k (ring_contents ?r) \<and>
      ring_contents (q\<lparr>ring_len := ring_len r - k\<rparr>) = drop k (ring_contents ?r)"
    using Suc.IH [OF inv _ q] Suc.prems(2) by simp
  have step: "ring_contents r = ring_buf r ! ring_head r # ring_contents ?m"
    using ring_contents_step [of r n] Suc.prems n by simp
  have low: "take j (ring_contents ?r) = take j (ring_contents ?m)" if "j \<le> ring_len r - 1" for j
    using that by (intro nth_equalityI) (auto simp: ring_contents_def)
  have res: "r' = q" "bs = ring_buf r ! ring_head r # cs" using Suc.prems(3) q by (auto simp: Let_def)
  have bs: "bs = take (Suc k) (ring_contents r)"
    using IH low [of k] Suc.prems(2) res step by simp
  have "ring_contents (q\<lparr>ring_len := ring_len r - Suc k\<rparr>) =
      take (ring_len r - Suc k) (ring_contents (q\<lparr>ring_len := ring_len r - k\<rparr>))"
    by (simp add: ring_contents_def take_map)
  also have "\<dots> = drop k (take (ring_len r - 1) (ring_contents ?r))"
    using IH Suc.prems(2) by (simp add: drop_take)
  also have "\<dots> = drop (Suc k) (ring_contents r)"
    using low [of "ring_len r - 1"] step by simp
  finally show ?case using IH bs res by simp
qed

lemma put_byte_spec:
  fixes b :: u8
  assumes "ring_invar n r" "ring_len r < n"
  defines "r' \<equiv> r\<lparr>ring_buf := (ring_buf r)[(ring_head r + ring_len r) mod length (ring_buf r) := b],
                  ring_len := ring_len r + 1\<rparr>"
  shows "ring_invar n r' \<and> ring_contents r' = ring_contents r @ [b]"
proof -
  have n: "length (ring_buf r) = n" "0 < n" "ring_head r < n" using assms(1) by (simp_all add: ring_invar_def)
  have "(ring_head r + ring_len r) mod n \<noteq> (ring_head r + i) mod n" if "i < ring_len r" for i
  proof
    assume "(ring_head r + ring_len r) mod n = (ring_head r + i) mod n"
    then have "n dvd (ring_head r + ring_len r) - (ring_head r + i)"
      by (metis mod_eq_dvd_iff_nat add_le_cancel_left less_imp_le that)
    then have "n dvd ring_len r - i" by simp
    then show False using that assms(2) by (auto dest: dvd_imp_le)
  qed
  then have "map (\<lambda>i. (ring_buf r)[(ring_head r + ring_len r) mod n := b] ! ((ring_head r + i) mod n))
      [0 ..< ring_len r] = ring_contents r"
    using n by (intro nth_equalityI) (auto simp: ring_contents_def nth_list_update_neq)
  then show ?thesis
    using assms(1,2) n by (simp add: r'_def ring_invar_def ring_contents_def)
qed

lemma put_loop_spec:
  assumes "ring_invar n r" "ring_len r + length bs \<le> n"
  shows "ring_invar n (put_loop bs r) \<and> ring_contents (put_loop bs r) = ring_contents r @ bs"
  using assms
proof (induction bs arbitrary: r)
  case (Cons b bs)
  let ?r = "r\<lparr>ring_buf := (ring_buf r)[(ring_head r + ring_len r) mod length (ring_buf r) := b],
              ring_len := ring_len r + 1\<rparr>"
  have "ring_invar n ?r" "ring_contents ?r = ring_contents r @ [b]"
    using put_byte_spec [of n r b] Cons.prems by simp_all
  then show ?case using Cons.IH [of ?r] Cons.prems(2) by (simp add: Let_def)
qed simp

interpretation ring: byte_queue "ring_invar n" ring_contents n ring_put ring_take for n
proof unfold_locales
  fix s assume "ring_invar n s"
  then show "length (ring_contents s) \<le> n" by (simp add: ring_invar_def)
next
  fix s src s' m
  assume "ring_invar n s" "ring_put s src = (s', m)"
  then show "ring_invar n s' \<and> m = min (length src) (n - length (ring_contents s)) \<and>
      ring_contents s' = ring_contents s @ take m src"
    using put_loop_spec [of n s "take m src"]
    by (auto simp: ring_put_def ring_room_def Let_def ring_invar_def)
next
  fix s k s' bs
  assume inv: "ring_invar n s" and g: "ring_take s k = (s', bs)"
  let ?n = "min k (ring_len s)"
  obtain r' where l: "take_loop ?n s = (r', bs)" "s' = r'\<lparr>ring_len := ring_len r' - ?n\<rparr>"
    using g by (auto simp: ring_take_def Let_def split: prod.splits)
  have "take ?n (ring_contents s) = take k (ring_contents s)" "drop ?n (ring_contents s) = drop k (ring_contents s)"
    by (auto simp: min_def)
  then show "ring_invar n s' \<and> bs = take k (ring_contents s) \<and> ring_contents s' = drop k (ring_contents s)"
    using take_loop_spec [OF inv _ l(1)] l(2) by (auto simp: ring_invar_def)
qed

lemma ring_invar_put: "ring_invar n r \<Longrightarrow> ring_invar n (fst (ring_put r src))"
  using ring.put_law by (metis prod.collapse)

lemma ring_invar_take: "ring_invar n r \<Longrightarrow> ring_invar n (fst (ring_take r k))"
  using ring.get_law by (metis prod.collapse)

subsection \<open>The scancode ring\<close>

definition CAPACITY :: nat where "CAPACITY = 128"

record scancode_ring =
  sc_storage :: "u8 list"
  sc_head :: nat
  sc_tail :: nat
  sc_len :: nat

definition scancode_new :: scancode_ring where
  "scancode_new = \<lparr>sc_storage = replicate CAPACITY 0, sc_head = 0, sc_tail = 0, sc_len = 0\<rparr>"

definition sc_is_empty :: "scancode_ring \<Rightarrow> bool" where
  "sc_is_empty r \<longleftrightarrow> sc_len r = 0"

definition sc_is_full :: "scancode_ring \<Rightarrow> bool" where
  "sc_is_full r \<longleftrightarrow> sc_len r = CAPACITY"

definition scancode_push :: "scancode_ring \<Rightarrow> u8 \<Rightarrow> scancode_ring \<times> bool" where
  "scancode_push r code =
     (if sc_is_full r then (r, False)
      else (r\<lparr>sc_storage := (sc_storage r)[sc_head r := code],
              sc_head := (sc_head r + 1) mod CAPACITY, sc_len := sc_len r + 1\<rparr>, True))"

definition scancode_pop :: "scancode_ring \<Rightarrow> scancode_ring \<times> u8 option" where
  "scancode_pop r =
     (if sc_is_empty r then (r, None)
      else (r\<lparr>sc_tail := (sc_tail r + 1) mod CAPACITY, sc_len := sc_len r - 1\<rparr>,
            Some (sc_storage r ! sc_tail r)))"

text \<open>The ring behind its lock with the two counters of the handler.\<close>

record scancode_state =
  scancodes :: scancode_ring
  overflow_count :: nat
  received_count :: nat

definition record_scancode :: "scancode_state \<Rightarrow> u8 \<Rightarrow> scancode_state" where
  "record_scancode s code =
     (let s1 = s\<lparr>received_count := received_count s + 1\<rparr>;
          (r, ok) = scancode_push (scancodes s1) code;
          s2 = s1\<lparr>scancodes := r\<rparr>
      in if \<not> ok then s2\<lparr>overflow_count := overflow_count s2 + 1\<rparr> else s2)"

definition sc_invar :: "scancode_ring \<Rightarrow> bool" where
  "sc_invar r \<longleftrightarrow> length (sc_storage r) = CAPACITY \<and> sc_tail r < CAPACITY \<and> sc_len r \<le> CAPACITY \<and>
     sc_head r = (sc_tail r + sc_len r) mod CAPACITY"

text \<open>The scancode ring seen as a byte ring: the read position is the head.\<close>

definition sc_ring :: "scancode_ring \<Rightarrow> byte_ring" where
  "sc_ring r = \<lparr>ring_buf = sc_storage r, ring_head = sc_tail r, ring_len = sc_len r\<rparr>"

definition sc_contents :: "scancode_ring \<Rightarrow> u8 list" where
  "sc_contents r = ring_contents (sc_ring r)"

lemma sc_ring_invar: "sc_invar r \<Longrightarrow> ring_invar CAPACITY (sc_ring r)"
  by (simp add: sc_invar_def ring_invar_def sc_ring_def CAPACITY_def)

interpretation sc: byte_fifo sc_invar sc_contents CAPACITY scancode_push scancode_pop
proof unfold_locales
  fix s b s' ok
  assume inv: "sc_invar s" and p: "scancode_push s b = (s', ok)"
  show "sc_invar s' \<and> (ok \<longleftrightarrow> length (sc_contents s) < CAPACITY) \<and> sc_contents s' = sc_contents s @ (if ok then [b] else [])"
  proof (cases "sc_is_full s")
    case True
    then show ?thesis using inv p by (simp add: scancode_push_def sc_contents_def sc_ring_def sc_is_full_def)
  next
    case False
    then have "sc_len s < CAPACITY" using inv by (simp add: sc_invar_def sc_is_full_def)
    then show ?thesis
      using put_byte_spec [OF sc_ring_invar [OF inv], of b] inv p False
      by (auto simp: scancode_push_def sc_contents_def sc_ring_def sc_invar_def mod_simps add.assoc)
  qed
next
  fix s s' r
  assume inv: "sc_invar s" and p: "scancode_pop s = (s', r)"
  show "sc_invar s' \<and> (case r of None \<Rightarrow> sc_contents s = [] \<and> sc_contents s' = [] | Some b \<Rightarrow> sc_contents s = b # sc_contents s')"
  proof (cases "sc_is_empty s")
    case True
    then show ?thesis using inv p
      by (auto simp: scancode_pop_def sc_contents_def sc_ring_def sc_is_empty_def ring_contents_def)
  next
    case False
    then have "0 < sc_len s" by (simp add: sc_is_empty_def)
    moreover have "sc_tail s + sc_len s = sc_tail s + 1 + (sc_len s - 1)" using calculation by simp
    then have "(sc_tail s + sc_len s) mod CAPACITY = ((sc_tail s + 1) mod CAPACITY + (sc_len s - 1)) mod CAPACITY"
      by (metis mod_add_left_eq)
    ultimately show ?thesis
      using ring_contents_step [of "sc_ring s" CAPACITY] sc_ring_invar [OF inv] inv p False
      by (auto simp: scancode_pop_def sc_contents_def sc_ring_def sc_invar_def)
  qed
qed

text \<open>C39: between the interrupt handler and the main loop, in every interleaving of pushes and pops
  starting from any reachable ring, the codes popped followed by the codes still held are the codes
  held at the start followed by the accepted ones, in order: an overflow drops only the newest code.\<close>

theorem scancode_ring_is_fifo:
  assumes "sc_invar r" "fifo_run scancode_push scancode_pop r ops = (r', accepted, popped)"
  shows "sc_invar r' \<and> sc_contents r @ accepted = popped @ sc_contents r'"
  using assms by (rule sc.run_is_fifo)

lemma scancode_new_facts: "sc_invar scancode_new" "sc_contents scancode_new = []"
  by (simp_all add: sc_invar_def scancode_new_def CAPACITY_def sc_contents_def sc_ring_def ring_contents_def)

theorem scancode_ring_is_fifo_witness:
  "case fifo_run scancode_push scancode_pop scancode_new [Push 1, Push 2, Pop] of
     (r', accepted, popped) \<Rightarrow> accepted = [1, 2] \<and> popped = [1] \<and> sc_contents r' = [2]"
proof -
  obtain r' accepted popped where run:
    "fifo_run scancode_push scancode_pop scancode_new [Push 1, Push 2, Pop] = (r', accepted, popped)"
    by (cases "fifo_run scancode_push scancode_pop scancode_new [Push 1, Push 2, Pop]") auto
  moreover have "snd (fifo_run scancode_push scancode_pop scancode_new [Push 1, Push 2, Pop]) = ([1, 2], [1])"
    by code_simp
  ultimately show ?thesis
    using scancode_ring_is_fifo [OF scancode_new_facts(1) run] by (simp add: scancode_new_facts)
qed

end
