(* ===== verification/Task.thy ===== *)
theory Task
  imports Prelude
begin

text \<open>
  Task states, waiting and waking, and the choice of the next task (\<open>kernel/src/task.rs\<close>,
  \<open>kernel/src/task/scheduler.rs\<close>). The scheduler's array of states is a list of length
  \<open>TASK_COUNT\<close>; a task index beyond it is out of range in the source as well. A wait set is the
  list of its live reasons (the prefix of the array that \<open>len\<close> marks). Context switching itself
  (stacks, registers, page-table root) is machine code and not modelled.
\<close>

subsection \<open>Data\<close>

definition WORKER_COUNT :: nat where "WORKER_COUNT = 2"
definition TASK_COUNT :: nat where "TASK_COUNT = WORKER_COUNT + 4"
definition MAIN_TASK :: nat where "MAIN_TASK = 0"
definition AP_IDLE_TASK :: nat where "AP_IDLE_TASK = WORKER_COUNT + 1"
definition RING3_TASK :: nat where "RING3_TASK = WORKER_COUNT + 2"
definition BSP_IDLE_TASK :: nat where "BSP_IDLE_TASK = TASK_COUNT - 1"
definition MAX_CPUS :: nat where "MAX_CPUS = 2"
definition BOOTSTRAP_PROCESSOR_SLOT :: nat where "BOOTSTRAP_PROCESSOR_SLOT = 0"
definition MAX_WAIT_REASONS :: nat where "MAX_WAIT_REASONS = 4"

lemmas task_constants = WORKER_COUNT_def TASK_COUNT_def MAIN_TASK_def AP_IDLE_TASK_def RING3_TASK_def
  BSP_IDLE_TASK_def MAX_CPUS_def BOOTSTRAP_PROCESSOR_SLOT_def

datatype side = Client | Server

fun peer :: "side \<Rightarrow> side" where
  "peer Client = Server"
| "peer Server = Client"

lemma peer_peer [simp]: "peer (peer s) = s"
  by (cases s) auto

lemma peer_neq [simp]: "peer s \<noteq> s" "s \<noteq> peer s"
  by (cases s; simp)+

datatype wait =
    Keyboard
  | Child nat
  | PipeReadable nat
  | PipeWritable nat
  | Timer nat
  | SocketAcceptable nat
  | SocketReadable nat side
  | SocketWritable nat side

type_synonym wait_set = "wait list"

definition wait_set_single :: "wait \<Rightarrow> wait_set" where
  "wait_set_single on = [on]"

definition wait_set_empty :: wait_set where
  "wait_set_empty = []"

definition wait_set_contains :: "wait_set \<Rightarrow> wait \<Rightarrow> bool" where
  "wait_set_contains ws on = List.member ws on"

definition wait_set_push :: "wait_set \<Rightarrow> wait \<Rightarrow> wait_set \<times> bool" where
  "wait_set_push ws on =
     (if wait_set_contains ws on then (ws, True)
      else if length ws = MAX_WAIT_REASONS then (ws, False)
      else (ws @ [on], True))"

fun timer_deadline :: "wait_set \<Rightarrow> nat option" where
  "timer_deadline [] = None"
| "timer_deadline (Timer deadline # ws) = Some deadline"
| "timer_deadline (_ # ws) = timer_deadline ws"

datatype task_state = Uninitialized | Ready | Blocked | Waiting wait_set | Finished

definition is_runnable :: "task_state \<Rightarrow> bool" where
  "is_runnable st \<longleftrightarrow> st = Ready"

definition waits_on :: "task_state \<Rightarrow> wait \<Rightarrow> bool" where
  "waits_on st on = (case st of Waiting ws \<Rightarrow> wait_set_contains ws on | _ \<Rightarrow> False)"

text \<open>The states and the counters that waiting and waking keep.\<close>

record task_table =
  tt_states :: "task_state list"
  tt_wakes_issued :: nat
  tt_woken_for_another_reason :: nat
  tt_timer_wakes :: nat
  tt_timer_woke_before_deadline :: nat
  tt_max_wait_set_len :: nat
  tt_waiting_together :: nat

subsection \<open>Waiting and waking\<close>

definition is_waiting :: "task_state \<Rightarrow> bool" where
  "is_waiting st = (case st of Waiting _ \<Rightarrow> True | _ \<Rightarrow> False)"

definition set_current_waiting_set :: "nat option \<Rightarrow> wait_set \<Rightarrow> task_table \<Rightarrow> task_table" where
  "set_current_waiting_set current ws t =
     (case current of
        None \<Rightarrow> t
      | Some index \<Rightarrow>
          let t1 = t\<lparr>tt_max_wait_set_len := max (tt_max_wait_set_len t) (length ws)\<rparr>;
              another = list_ex (\<lambda>other. other \<noteq> index \<and> is_waiting (tt_states t1 ! other)) [0 ..< TASK_COUNT];
              t2 = (if another then t1\<lparr>tt_waiting_together := tt_waiting_together t1 + 1\<rparr> else t1)
          in t2\<lparr>tt_states := (tt_states t2)[index := Waiting ws]\<rparr>)"

definition set_current_waiting :: "nat option \<Rightarrow> wait \<Rightarrow> task_table \<Rightarrow> task_table" where
  "set_current_waiting current on = set_current_waiting_set current (wait_set_single on)"

text \<open>One pass of the loop over the task indices: the state of task \<open>index\<close> is read, and written
  when it waits on the signal.\<close>

fun wake_loop :: "wait \<Rightarrow> nat list \<Rightarrow> task_table \<Rightarrow> task_table \<times> nat" where
  "wake_loop on [] t = (t, 0)"
| "wake_loop on (index # rest) t =
     (if waits_on (tt_states t ! index) on
      then let t1 = (if \<not> waits_on (tt_states t ! index) on
                     then t\<lparr>tt_woken_for_another_reason := tt_woken_for_another_reason t + 1\<rparr> else t);
               (t2, n) = wake_loop on rest (t1\<lparr>tt_states := (tt_states t1)[index := Ready]\<rparr>)
           in (t2, n + 1)
      else wake_loop on rest t)"

definition wake_tasks_waiting_on :: "wait \<Rightarrow> task_table \<Rightarrow> task_table \<times> nat" where
  "wake_tasks_waiting_on on t =
     (let (t', woken) = wake_loop on [0 ..< TASK_COUNT] t
      in if 0 < woken then (t'\<lparr>tt_wakes_issued := tt_wakes_issued t' + woken\<rparr>, woken) else (t', woken))"

definition someone_waits_on :: "wait \<Rightarrow> task_table \<Rightarrow> bool" where
  "someone_waits_on on t = list_ex (\<lambda>index. waits_on (tt_states t ! index) on) [0 ..< TASK_COUNT]"

fun timer_loop :: "nat \<Rightarrow> nat list \<Rightarrow> task_table \<Rightarrow> task_table \<times> nat" where
  "timer_loop now [] t = (t, 0)"
| "timer_loop now (index # rest) t =
     (case (case tt_states t ! index of Waiting ws \<Rightarrow> timer_deadline ws | _ \<Rightarrow> None) of
        None \<Rightarrow> timer_loop now rest t
      | Some deadline \<Rightarrow>
          if deadline \<le> now
          then let t1 = (if now < deadline
                         then t\<lparr>tt_timer_woke_before_deadline := tt_timer_woke_before_deadline t + 1\<rparr> else t);
                   (t2, n) = timer_loop now rest (t1\<lparr>tt_states := (tt_states t1)[index := Ready]\<rparr>)
               in (t2, n + 1)
          else timer_loop now rest t)"

definition wake_expired_timers :: "nat \<Rightarrow> task_table \<Rightarrow> task_table \<times> nat" where
  "wake_expired_timers now t =
     (let (t', woken) = timer_loop now [0 ..< TASK_COUNT] t
      in if 0 < woken then (t'\<lparr>tt_timer_wakes := tt_timer_wakes t' + woken\<rparr>, woken) else (t', woken))"

subsection \<open>Choosing the next task\<close>

definition default_task_for :: "nat \<Rightarrow> nat" where
  "default_task_for cpu = (if cpu = BOOTSTRAP_PROCESSOR_SLOT then MAIN_TASK else AP_IDLE_TASK)"

definition idle_task_for :: "nat \<Rightarrow> nat" where
  "idle_task_for cpu = (if cpu = BOOTSTRAP_PROCESSOR_SLOT then BSP_IDLE_TASK else AP_IDLE_TASK)"

definition is_running_on_another_cpu :: "nat \<Rightarrow> nat \<Rightarrow> nat list \<Rightarrow> bool" where
  "is_running_on_another_cpu task cpu currents =
     list_ex (\<lambda>other. other \<noteq> cpu \<and> currents ! other = task) [0 ..< length currents]"

definition rotation_candidate :: "nat \<Rightarrow> nat \<Rightarrow> nat" where
  "rotation_candidate current offset =
     (if current = 0 then (offset - 1) mod WORKER_COUNT + 1
      else (current - 1 + offset) mod WORKER_COUNT + 1)"

definition eligible :: "task_state list \<Rightarrow> nat list \<Rightarrow> nat list \<Rightarrow> nat \<Rightarrow> nat \<Rightarrow> bool" where
  "eligible states owners currents cpu cand \<longleftrightarrow>
     owners ! cand = cpu \<and> \<not> is_running_on_another_cpu cand cpu currents \<and> is_runnable (states ! cand)"

definition pick_next :: "task_state list \<Rightarrow> nat list \<Rightarrow> nat list \<Rightarrow> nat \<Rightarrow> nat \<Rightarrow> nat" where
  "pick_next states owners currents cpu current =
     (case find (eligible states owners currents cpu)
             (map (rotation_candidate current) [1 ..< WORKER_COUNT + 1]) of
        Some cand \<Rightarrow> cand
      | None \<Rightarrow>
          if current \<noteq> RING3_TASK \<and> eligible states owners currents cpu RING3_TASK then RING3_TASK
          else if is_waiting (states ! default_task_for cpu) then idle_task_for cpu
          else default_task_for cpu)"

subsection \<open>What waking does\<close>

definition wake_state :: "wait \<Rightarrow> task_state \<Rightarrow> task_state" where
  "wake_state on st = (if waits_on st on then Ready else st)"

text \<open>The loop over distinct indices updates each of them by \<open>wake_state\<close> and counts the changes.\<close>

lemma wake_loop_spec:
  assumes "wake_loop on js t = (t', n)" "distinct js" "\<forall>j \<in> set js. j < length (tt_states t)"
  shows "t' = t\<lparr>tt_states := tt_states t'\<rparr> \<and> length (tt_states t') = length (tt_states t) \<and>
    (\<forall>i < length (tt_states t). tt_states t' ! i =
       (if i \<in> set js then wake_state on (tt_states t ! i) else tt_states t ! i)) \<and>
    n = length (filter (\<lambda>j. waits_on (tt_states t ! j) on) js)"
  using assms
proof (induction js arbitrary: t t' n)
  case (Cons j js)
  show ?case
  proof (cases "waits_on (tt_states t ! j) on")
    case True
    let ?t = "t\<lparr>tt_states := (tt_states t)[j := Ready]\<rparr>"
    obtain m where r: "wake_loop on js ?t = (t', m)" and n: "n = m + 1"
      using Cons.prems(1) True by (auto simp: Let_def split: prod.splits)
    have other: "(tt_states t)[j := Ready] ! k = tt_states t ! k" if "k \<in> set js" for k
      using that Cons.prems(2) by (intro nth_list_update_neq) auto
    then have flt: "filter (\<lambda>k. waits_on ((tt_states t)[j := Ready] ! k) on) js = filter (\<lambda>k. waits_on (tt_states t ! k) on) js"
      by (intro filter_cong) auto
    from Cons.IH [OF r] Cons.prems(2,3) n True flt show ?thesis
      by (auto simp: wake_state_def nth_list_update)
  next
    case False
    with Cons show ?thesis by (auto simp: wake_state_def)
  qed
qed simp

definition table_ok :: "task_table \<Rightarrow> bool" where
  "table_ok t \<longleftrightarrow> length (tt_states t) = TASK_COUNT"

lemma wake_spec:
  assumes ok: "table_ok t" and w: "wake_tasks_waiting_on on t = (t', n)"
  shows "table_ok t'" and "tt_states t' = map (wake_state on) (tt_states t)"
    and "n = length (filter (\<lambda>st. waits_on st on) (tt_states t))"
    and "tt_woken_for_another_reason t' = tt_woken_for_another_reason t"
    and "tt_wakes_issued t' = tt_wakes_issued t + n"
proof -
  obtain t1 where l: "wake_loop on [0 ..< TASK_COUNT] t = (t1, n)"
    and t': "t' = (if 0 < n then t1\<lparr>tt_wakes_issued := tt_wakes_issued t1 + n\<rparr> else t1)"
    using w by (auto simp: wake_tasks_waiting_on_def Let_def split: prod.splits if_splits)
  have spec: "t1 = t\<lparr>tt_states := tt_states t1\<rparr> \<and> length (tt_states t1) = length (tt_states t) \<and>
    (\<forall>i < length (tt_states t). tt_states t1 ! i =
       (if i \<in> set [0 ..< TASK_COUNT] then wake_state on (tt_states t ! i) else tt_states t ! i)) \<and>
    n = length (filter (\<lambda>j. waits_on (tt_states t ! j) on) [0 ..< TASK_COUNT])"
    using wake_loop_spec [OF l] ok by (simp add: table_ok_def)
  have len: "TASK_COUNT = length (tt_states t)" using ok by (simp add: table_ok_def)
  have st: "tt_states t1 = map (wake_state on) (tt_states t)"
    using spec len by (intro nth_equalityI) auto
  show "tt_states t' = map (wake_state on) (tt_states t)" using st t' by simp
  then show "table_ok t'" using ok by (simp add: table_ok_def)
  have "length (filter (\<lambda>st. waits_on st on) (map ((!) (tt_states t)) [0 ..< TASK_COUNT])) =
      length (filter (\<lambda>j. waits_on (tt_states t ! j) on) [0 ..< TASK_COUNT])"
    by (simp add: filter_map comp_def)
  then show "n = length (filter (\<lambda>st. waits_on st on) (tt_states t))"
    using spec by (simp add: len map_nth)
  have "tt_woken_for_another_reason t1 = tt_woken_for_another_reason t" "tt_wakes_issued t1 = tt_wakes_issued t"
    using spec by (metis task_table.select_convs task_table.surjective task_table.update_convs(1))+
  then show "tt_woken_for_another_reason t' = tt_woken_for_another_reason t"
    "tt_wakes_issued t' = tt_wakes_issued t + n" using t' by auto
qed

lemma someone_waits_on_iff:
  "table_ok t \<Longrightarrow> someone_waits_on on t \<longleftrightarrow> (\<exists>st \<in> set (tt_states t). waits_on st on)"
  by (fastforce simp: someone_waits_on_def table_ok_def list_ex_iff in_set_conv_nth)

text \<open>Waking leaves nobody waiting on the signal.\<close>

lemma nobody_waits_after_wake:
  assumes "table_ok t" "wake_tasks_waiting_on on t = (t', n)"
  shows "\<not> someone_waits_on on t'"
  using wake_spec [OF assms] by (auto simp: someone_waits_on_iff wake_state_def waits_on_def)

lemma table_ok_wake: "table_ok t \<Longrightarrow> table_ok (fst (wake_tasks_waiting_on on t))"
  using wake_spec(1) by (metis prod.collapse)

lemma table_ok_set_waiting [simp]: "table_ok (set_current_waiting (Some i) on t) = table_ok t"
  by (auto simp: set_current_waiting_def set_current_waiting_set_def table_ok_def Let_def)

lemma someone_waits_wake:
  assumes "table_ok t"
  shows "someone_waits_on on (fst (wake_tasks_waiting_on on' t)) \<longrightarrow> on \<noteq> on' \<and> someone_waits_on on t"
proof -
  obtain t' n where w: "wake_tasks_waiting_on on' t = (t', n)" by fastforce
  note spec = wake_spec [OF assms w]
  have "\<exists>st \<in> set (tt_states t). waits_on st on \<and> \<not> waits_on st on'" if "someone_waits_on on t'"
  proof -
    from that obtain st where st: "st \<in> set (tt_states t)" "waits_on (wake_state on' st) on"
      unfolding someone_waits_on_iff [OF spec(1)] spec(2) by auto
    moreover have "\<not> waits_on Ready on" by (simp add: waits_on_def)
    ultimately show ?thesis by (auto simp: wake_state_def split: if_splits)
  qed
  then show ?thesis using w by (auto simp: someone_waits_on_iff [OF assms])
qed

lemma someone_waits_waiting_set:
  assumes "table_ok t" "k < TASK_COUNT"
  shows "table_ok (set_current_waiting_set (Some k) ws t)"
    "someone_waits_on on (set_current_waiting_set (Some k) ws t) \<Longrightarrow> on \<in> set ws \<or> someone_waits_on on t"
proof -
  have s: "tt_states (set_current_waiting_set (Some k) ws t) = (tt_states t)[k := Waiting ws]"
    by (auto simp: set_current_waiting_set_def Let_def)
  then show ok: "table_ok (set_current_waiting_set (Some k) ws t)" using assms(1) by (simp add: table_ok_def)
  show "someone_waits_on on (set_current_waiting_set (Some k) ws t) \<Longrightarrow> on \<in> set ws \<or> someone_waits_on on t"
    using s assms ok set_update_subset_insert [of "tt_states t" k "Waiting ws"]
    by (fastforce simp: someone_waits_on_iff waits_on_def wait_set_contains_def)
qed

lemma someone_waits_set:
  assumes "table_ok t" "k < TASK_COUNT"
  shows "someone_waits_on on (set_current_waiting (Some k) on' t) \<longrightarrow> on = on' \<or> someone_waits_on on t"
  using someone_waits_waiting_set(2) [OF assms, of on "[on']"] by (auto simp: set_current_waiting_def wait_set_single_def)

definition expired :: "nat \<Rightarrow> task_state \<Rightarrow> bool" where
  "expired now st = (case st of Waiting ws \<Rightarrow> (case timer_deadline ws of Some d \<Rightarrow> d \<le> now | None \<Rightarrow> False)
                              | _ \<Rightarrow> False)"

lemma timer_loop_spec:
  assumes "timer_loop now js t = (t', n)" "distinct js" "\<forall>j \<in> set js. j < length (tt_states t)"
  shows "t' = t\<lparr>tt_states := tt_states t'\<rparr> \<and> length (tt_states t') = length (tt_states t) \<and>
    (\<forall>i < length (tt_states t). tt_states t' ! i =
       (if i \<in> set js \<and> expired now (tt_states t ! i) then Ready else tt_states t ! i))"
  using assms
proof (induction js arbitrary: t t' n)
  case (Cons j js)
  show ?case
  proof (cases "expired now (tt_states t ! j)")
    case True
    let ?t = "t\<lparr>tt_states := (tt_states t)[j := Ready]\<rparr>"
    obtain m where r: "timer_loop now js ?t = (t', m)"
      using Cons.prems(1) True
      by (auto simp: Let_def expired_def not_less split: prod.splits option.splits task_state.splits if_splits)
    from Cons.IH [OF r] Cons.prems(2,3) True show ?thesis by (auto simp: nth_list_update)
  next
    case False
    then have "timer_loop now js t = (t', n)"
      using Cons.prems(1) by (auto simp: expired_def split: option.splits task_state.splits if_splits)
    from Cons.IH [OF this] Cons.prems(2,3) False show ?thesis by auto
  qed
qed simp

text \<open>A signal makes ready exactly the tasks whose wait set contains it and leaves every other
  task as it was, so no wake-up is lost and nobody is woken for another reason: afterwards no task
  waits on the signal, and the counters agree with the number of tasks woken.\<close>

theorem wake_wakes_exactly_the_waiters:
  assumes "table_ok t" "wake_tasks_waiting_on on t = (t', n)"
  shows "table_ok t' \<and>
    (\<forall>i < TASK_COUNT. tt_states t' ! i = (if waits_on (tt_states t ! i) on then Ready else tt_states t ! i)) \<and>
    \<not> someone_waits_on on t' \<and>
    n = length (filter (\<lambda>st. waits_on st on) (tt_states t)) \<and>
    tt_wakes_issued t' = tt_wakes_issued t + n \<and>
    tt_woken_for_another_reason t' = tt_woken_for_another_reason t"
  using wake_spec [OF assms] nobody_waits_after_wake [OF assms] assms(1)
  by (simp add: table_ok_def wake_state_def)

definition sample_table :: task_table where
  "sample_table = \<lparr>tt_states = [Waiting [Keyboard, Timer 7], Blocked, Finished, Ready, Waiting [PipeReadable 0], Ready],
     tt_wakes_issued = 0, tt_woken_for_another_reason = 0, tt_timer_wakes = 0,
     tt_timer_woke_before_deadline = 0, tt_max_wait_set_len = 0, tt_waiting_together = 0\<rparr>"

lemma sample_table_ok: "table_ok sample_table"
  by (simp add: table_ok_def sample_table_def task_constants)

theorem wake_wakes_exactly_the_waiters_witness:
  "\<exists>t' n. wake_tasks_waiting_on Keyboard sample_table = (t', n) \<and> n = 1 \<and> tt_states t' ! 0 = Ready \<and>
     tt_states t' ! 4 = Waiting [PipeReadable 0]"
proof -
  obtain t' n where w: "wake_tasks_waiting_on Keyboard sample_table = (t', n)" by fastforce
  from wake_wakes_exactly_the_waiters [OF sample_table_ok w] w show ?thesis
    by (auto simp: sample_table_def waits_on_def wait_set_contains_def task_constants)
qed

text \<open>At a tick the tasks whose timer deadline has passed become ready, and no task is touched
  before its deadline.\<close>

theorem timers_wake_at_their_deadline:
  assumes "table_ok t" "wake_expired_timers now t = (t', n)"
  shows "table_ok t' \<and>
    (\<forall>i < TASK_COUNT. tt_states t' ! i =
       (case tt_states t ! i of
          Waiting ws \<Rightarrow> (case timer_deadline ws of
                            Some d \<Rightarrow> if d \<le> now then Ready else Waiting ws
                          | None \<Rightarrow> Waiting ws)
        | st \<Rightarrow> st)) \<and>
    tt_timer_woke_before_deadline t' = tt_timer_woke_before_deadline t"
proof -
  obtain t1 where l: "timer_loop now [0 ..< TASK_COUNT] t = (t1, n)"
    and t': "t' = (if 0 < n then t1\<lparr>tt_timer_wakes := tt_timer_wakes t1 + n\<rparr> else t1)"
    using assms(2) by (auto simp: wake_expired_timers_def Let_def split: prod.splits if_splits)
  have spec: "t1 = t\<lparr>tt_states := tt_states t1\<rparr> \<and> length (tt_states t1) = length (tt_states t) \<and>
    (\<forall>i < length (tt_states t). tt_states t1 ! i =
       (if i \<in> set [0 ..< TASK_COUNT] \<and> expired now (tt_states t ! i) then Ready else tt_states t ! i))"
    using timer_loop_spec [OF l] assms(1) by (simp add: table_ok_def)
  have "tt_timer_woke_before_deadline t1 = tt_timer_woke_before_deadline t"
    using spec by (metis task_table.select_convs task_table.surjective task_table.update_convs(1))
  then show ?thesis
    using spec assms(1) t'
    by (auto simp: table_ok_def expired_def split: task_state.splits option.splits)
qed

theorem timers_wake_at_their_deadline_witness:
  "\<exists>t' n. wake_expired_timers 7 sample_table = (t', n) \<and> tt_states t' ! 0 = Ready \<and>
     tt_states t' ! 4 = Waiting [PipeReadable 0]"
proof -
  obtain t' n where w: "wake_expired_timers 7 sample_table = (t', n)" by fastforce
  from timers_wake_at_their_deadline [OF sample_table_ok w] w show ?thesis
    by (auto simp: sample_table_def task_constants)
qed

subsection \<open>What the scheduler chooses\<close>

lemma pick_next_cases:
  obtains (rotation) cand where "pick_next states owners currents cpu current = cand"
      "eligible states owners currents cpu cand" "cand \<in> {1 .. WORKER_COUNT}"
  | (ring3) "pick_next states owners currents cpu current = RING3_TASK"
      "eligible states owners currents cpu RING3_TASK" "current \<noteq> RING3_TASK"
  | (fallback) "pick_next states owners currents cpu current = default_task_for cpu"
      "\<not> is_waiting (states ! default_task_for cpu)"
  | (idle) "pick_next states owners currents cpu current = idle_task_for cpu"
      "is_waiting (states ! default_task_for cpu)"
proof (cases "find (eligible states owners currents cpu)
      (map (rotation_candidate current) [1 ..< WORKER_COUNT + 1])")
  case None
  then have p: "pick_next states owners currents cpu current =
      (if current \<noteq> RING3_TASK \<and> eligible states owners currents cpu RING3_TASK then RING3_TASK
       else if is_waiting (states ! default_task_for cpu) then idle_task_for cpu
       else default_task_for cpu)"
    unfolding pick_next_def by simp
  show ?thesis
  proof (cases "current \<noteq> RING3_TASK \<and> eligible states owners currents cpu RING3_TASK")
    case True
    then show ?thesis using ring3 p by simp
  next
    case False
    have "pick_next states owners currents cpu current =
        (if is_waiting (states ! default_task_for cpu) then idle_task_for cpu else default_task_for cpu)"
      unfolding p if_not_P [OF False] by (rule refl)
    then show ?thesis using fallback idle by (cases "is_waiting (states ! default_task_for cpu)") simp_all
  qed
next
  case (Some cand)
  then obtain offset where "cand = rotation_candidate current offset" "eligible states owners currents cpu cand"
    by (auto simp: find_Some_iff)
  moreover have "cand \<in> {1 .. WORKER_COUNT}"
    using calculation(1) by (auto simp: rotation_candidate_def WORKER_COUNT_def)
  ultimately show ?thesis using rotation [of cand] Some by (simp add: pick_next_def)
qed

text \<open>The owners as the kernel initialises them (\<open>EMPTY_TASK\<close> and the places of \<open>task.rs\<close> that fill a slot):
  the application processor owns its idle task, the bootstrap processor the rest.\<close>

definition production_owners :: "nat list" where
  "production_owners = (replicate TASK_COUNT BOOTSTRAP_PROCESSOR_SLOT)[AP_IDLE_TASK := 1]"

lemma production_owners_nth:
  "i < TASK_COUNT \<Longrightarrow> production_owners ! i = (if i = AP_IDLE_TASK then 1 else 0)"
  by (auto simp: production_owners_def task_constants nth_list_update)

lemma pick_next_owned:
  assumes "cpu < MAX_CPUS"
  shows "pick_next states production_owners currents cpu current < TASK_COUNT \<and>
    production_owners ! pick_next states production_owners currents cpu current = cpu"
proof -
  have f: "default_task_for cpu < TASK_COUNT" "production_owners ! default_task_for cpu = cpu"
    "idle_task_for cpu < TASK_COUNT" "production_owners ! idle_task_for cpu = cpu"
    using assms by (auto simp: default_task_for_def idle_task_for_def production_owners_nth task_constants)
  have w: "c \<in> {1 .. WORKER_COUNT} \<Longrightarrow> c < TASK_COUNT" "RING3_TASK < TASK_COUNT" for c
    by (auto simp: task_constants)
  show ?thesis
    by (rule pick_next_cases [of states production_owners currents cpu current])
       (use f w in \<open>auto simp: eligible_def\<close>)
qed

text \<open>One scheduling decision of a core: it picks from the states of that moment and becomes the
  runner of what it picked.\<close>

inductive sched_step :: "nat list \<Rightarrow> nat list \<Rightarrow> bool" where
  decide: "cpu < MAX_CPUS \<Longrightarrow> next = pick_next states production_owners currents cpu (currents ! cpu) \<Longrightarrow>
    sched_step currents (currents[cpu := next])"

definition cores_separate :: "nat list \<Rightarrow> bool" where
  "cores_separate currents \<longleftrightarrow> length currents = MAX_CPUS \<and>
     (\<forall>cpu < MAX_CPUS. currents ! cpu < TASK_COUNT \<and> production_owners ! (currents ! cpu) = cpu)"

lemma cores_separate_step: "sched_step c d \<Longrightarrow> cores_separate c \<Longrightarrow> cores_separate d"
  by (induction rule: sched_step.induct)
     (auto simp: cores_separate_def nth_list_update pick_next_owned)

lemma cores_separate_run: "sched_step\<^sup>*\<^sup>* c d \<Longrightarrow> cores_separate c \<Longrightarrow> cores_separate d"
  by (induction rule: rtranclp_induct) (auto intro: cores_separate_step)

text \<open>C37: starting from the two cores on their own default tasks, no sequence of scheduling decisions,
  whatever the task states are at each of them, ever lets the two cores run the same task.\<close>

theorem two_cores_never_run_one_task:
  assumes "sched_step\<^sup>*\<^sup>* [default_task_for 0, default_task_for 1] currents"
    and "a < MAX_CPUS" "b < MAX_CPUS" "a \<noteq> b"
  shows "currents ! a \<noteq> currents ! b"
proof -
  have "cores_separate [default_task_for 0, default_task_for 1]"
    by (auto simp: cores_separate_def default_task_for_def production_owners_nth task_constants less_Suc_eq numeral_2_eq_2)
  from cores_separate_run [OF assms(1) this] assms(2-4) show ?thesis
    by (metis cores_separate_def)
qed

theorem two_cores_never_run_one_task_witness:
  "\<exists>currents. sched_step\<^sup>*\<^sup>* [default_task_for 0, default_task_for 1] currents \<and>
     currents ! 0 = 1 \<and> currents ! 1 \<noteq> 1"
proof -
  let ?start = "[default_task_for 0, default_task_for 1]"
  let ?next = "pick_next (replicate 6 Ready) production_owners ?start 0 (?start ! 0)"
  have n: "?next = 1" by code_simp
  have "sched_step ?start (?start[0 := ?next])" by (rule decide) (simp_all add: MAX_CPUS_def)
  then have run: "sched_step\<^sup>*\<^sup>* ?start (?start[0 := ?next])" by (rule r_into_rtranclp)
  from two_cores_never_run_one_task [OF run, of 0 1] run n show ?thesis
    by (intro exI [of _ "?start[0 := ?next]"]) (auto simp: MAX_CPUS_def)
qed

lemma running_elsewhere_update [simp]:
  "is_running_on_another_cpu task cpu (currents[cpu := x]) = is_running_on_another_cpu task cpu currents"
  by (auto simp: is_running_on_another_cpu_def list_ex_iff)

lemma eligible_update [simp]:
  "eligible states owners (currents[cpu := x]) cpu cand = eligible states owners currents cpu cand"
  by (simp add: eligible_def)

lemma two_workers:
  "map (rotation_candidate current) [1 ..< WORKER_COUNT + 1] =
     (if current = 0 \<or> odd (current - 1) then [1, 2] else [2, 1])"
proof -
  have "[1 ..< WORKER_COUNT + 1] = [1, 2]" by (simp add: WORKER_COUNT_def upt_rec)
  then show ?thesis
    by (cases current) (auto simp: rotation_candidate_def WORKER_COUNT_def mod2_eq_if)
qed

lemma pick_next_worker:
  assumes "eligible states owners currents cpu w" "w = 1 \<or> w = 2"
  shows "pick_next states owners currents cpu current = w \<or>
    pick_next states owners currents cpu current = 3 - w \<and> eligible states owners currents cpu (3 - w)"
  using assms unfolding pick_next_def two_workers by (auto split: if_splits)

text \<open>C38: a worker that is ready, owned by the core and not running elsewhere is chosen at the next
  decision or at the one after it, whatever task the core runs now: the rotation starves nobody.\<close>

theorem ready_worker_runs_within_two_decisions:
  fixes states owners currents cpu current
  defines "next \<equiv> pick_next states owners currents cpu current"
  assumes "w = 1 \<or> w = 2" "eligible states owners currents cpu w"
  shows "next = w \<or> pick_next states owners (currents[cpu := next]) cpu next = w"
proof (cases "next = w")
  case False
  then have n: "next = 3 - w" using pick_next_worker [OF assms(3,2), of current] by (simp add: next_def)
  then show ?thesis using assms(2,3) unfolding pick_next_def two_workers by auto
qed simp

theorem ready_worker_runs_within_two_decisions_witness:
  "let states = [Blocked, Ready, Ready, Ready, Finished, Ready];
       next = pick_next states production_owners [1, 3] 0 1
   in next = 1 \<or> pick_next states production_owners ([1, 3][0 := next]) 0 next = 1"
proof -
  have "eligible [Blocked, Ready, Ready, Ready, Finished, Ready] production_owners [1, 3] 0 1" by code_simp
  from ready_worker_runs_within_two_decisions [OF _ this] show ?thesis by (simp add: Let_def)
qed

text \<open>The extra Ring 3 task gives up the processor to the idle task although it is runnable: when
  the main task waits and no worker is ready, the decision taken while Ring 3 runs is the idle task.\<close>

theorem runnable_ring3_task_yields_to_idle:
  assumes "eligible states production_owners currents 0 RING3_TASK" "is_waiting (states ! MAIN_TASK)"
    and "\<not> eligible states production_owners currents 0 1" "\<not> eligible states production_owners currents 0 2"
  shows "pick_next states production_owners currents 0 RING3_TASK = BSP_IDLE_TASK"
  using assms unfolding pick_next_def two_workers
  by (simp add: default_task_for_def idle_task_for_def BOOTSTRAP_PROCESSOR_SLOT_def)

theorem runnable_ring3_task_yields_to_idle_witness:
  "pick_next [Waiting [Keyboard], Finished, Finished, Ready, Ready, Ready] production_owners [4, 3] 0 RING3_TASK =
     BSP_IDLE_TASK"
  by (rule runnable_ring3_task_yields_to_idle) code_simp+

end
