(* ===== verification/Pipe.thy ===== *)
theory Pipe
  imports Ring Task
begin

text \<open>
  Pipes (\<open>kernel/src/pipe.rs\<close>) over the byte ring and the task table, with the two system-call loops
  that wait on them (\<open>read_from_pipe\<close> and \<open>write_to_pipe\<close> of \<open>kernel/src/syscall.rs\<close>), one attempt
  of the loop at a time. Every operation runs under the big kernel lock with interrupts off, so a
  step is one operation. Copying to and from user memory is left out; an attempt gets the bytes.
\<close>

subsection \<open>State\<close>

definition PIPE_RING :: nat where "PIPE_RING = 256"
definition MAX_PIPES :: nat where "MAX_PIPES = 1"

record pipe =
  pipe_ring :: byte_ring
  readers :: nat
  writers :: nat
  reserved_reader :: bool
  pipe_in_use :: bool

definition pipe_empty :: pipe where
  "pipe_empty = \<lparr>pipe_ring = ring_empty PIPE_RING, readers = 0, writers = 0, reserved_reader = False,
                 pipe_in_use = False\<rparr>"

definition release_if_unused :: "pipe \<Rightarrow> pipe" where
  "release_if_unused p = (if readers p = 0 \<and> writers p = 0 \<and> \<not> reserved_reader p then pipe_empty else p)"

text \<open>The pipes with their counters, and the task table that waking changes.\<close>

record pipe_world =
  pipes :: "pipe list"
  pipe_tasks :: task_table
  pipe_reader_waits :: nat
  pipe_writer_waits :: nat
  pipe_epipe_seen :: nat
  pipe_created :: nat
  pipe_reservations_dropped :: nat
  pipe_readers_woken_by_write :: nat

abbreviation set_pipe :: "nat \<Rightarrow> pipe \<Rightarrow> pipe_world \<Rightarrow> pipe_world" where
  "set_pipe i p w \<equiv> w\<lparr>pipes := (pipes w)[i := p]\<rparr>"

definition pipe_wake :: "wait \<Rightarrow> pipe_world \<Rightarrow> pipe_world" where
  "pipe_wake on w = w\<lparr>pipe_tasks := fst (wake_tasks_waiting_on on (pipe_tasks w))\<rparr>"

subsection \<open>Operations\<close>

definition pipe_create :: "bool \<Rightarrow> pipe_world \<Rightarrow> pipe_world \<times> nat option" where
  "pipe_create reserve_reader w =
     (case find_index (\<lambda>p. \<not> pipe_in_use p) (pipes w) of
        None \<Rightarrow> (w, None)
      | Some index \<Rightarrow>
          let p = pipe_empty\<lparr>pipe_in_use := True, writers := 1, reserved_reader := reserve_reader\<rparr>
          in ((set_pipe index p w)\<lparr>pipe_created := pipe_created w + 1\<rparr>, Some index))"

definition claim_reserved_reader :: "nat \<Rightarrow> pipe_world \<Rightarrow> pipe_world \<times> bool" where
  "claim_reserved_reader i w =
     (if length (pipes w) \<le> i then (w, False)
      else let p = pipes w ! i in
           if \<not> pipe_in_use p \<or> \<not> reserved_reader p then (w, False)
           else (set_pipe i (p\<lparr>reserved_reader := False, readers := min 255 (readers p + 1)\<rparr>) w, True))"

definition drop_reservation :: "nat \<Rightarrow> pipe_world \<Rightarrow> pipe_world \<times> bool" where
  "drop_reservation i w =
     (if length (pipes w) \<le> i then (w, False)
      else let p = pipes w ! i in
           if \<not> pipe_in_use p \<or> \<not> reserved_reader p then (w, False)
           else let w1 = set_pipe i (release_if_unused (p\<lparr>reserved_reader := False\<rparr>)) w;
                    w2 = w1\<lparr>pipe_reservations_dropped := pipe_reservations_dropped w1 + 1\<rparr>
                in (pipe_wake (PipeWritable i) w2, True))"

datatype pipe_read_outcome = RBytes "u8 list" | REof | REmpty

definition pipe_read_into :: "nat \<Rightarrow> nat \<Rightarrow> pipe_world \<Rightarrow> pipe_world \<times> pipe_read_outcome" where
  "pipe_read_into i dst_len w =
     (if length (pipes w) \<le> i then (w, REof)
      else let p = pipes w ! i in
           if ring_is_empty (pipe_ring p) then (w, if writers p = 0 then REof else REmpty)
           else let (r, bs) = ring_take (pipe_ring p) dst_len
                in (pipe_wake (PipeWritable i) (set_pipe i (p\<lparr>pipe_ring := r\<rparr>) w), RBytes bs))"

datatype pipe_write_outcome = WBytes nat | WFull | WNoReader

definition pipe_write_from :: "nat \<Rightarrow> u8 list \<Rightarrow> pipe_world \<Rightarrow> pipe_world \<times> pipe_write_outcome" where
  "pipe_write_from i src w =
     (if length (pipes w) \<le> i then (w, WNoReader)
      else let p = pipes w ! i in
           if readers p = 0 \<and> \<not> reserved_reader p
           then (w\<lparr>pipe_epipe_seen := pipe_epipe_seen w + 1\<rparr>, WNoReader)
           else let (r, put) = ring_put (pipe_ring p) src;
                    w1 = set_pipe i (p\<lparr>pipe_ring := r\<rparr>) w
                in if put = 0 then (w1, WFull)
                   else let (ts, woken) = wake_tasks_waiting_on (PipeReadable i) (pipe_tasks w1)
                        in (w1\<lparr>pipe_tasks := ts,
                               pipe_readers_woken_by_write := pipe_readers_woken_by_write w1 + woken\<rparr>,
                            WBytes put))"

definition close_read_end :: "nat \<Rightarrow> pipe_world \<Rightarrow> pipe_world" where
  "close_read_end i w =
     (if length (pipes w) \<le> i then w
      else let p = pipes w ! i in
           if \<not> pipe_in_use p \<or> readers p = 0 then w
           else let p1 = p\<lparr>readers := readers p - 1\<rparr>;
                    w1 = set_pipe i (release_if_unused p1) w
                in if readers p1 = 0 then pipe_wake (PipeWritable i) w1 else w1)"

definition close_write_end :: "nat \<Rightarrow> pipe_world \<Rightarrow> pipe_world" where
  "close_write_end i w =
     (if length (pipes w) \<le> i then w
      else let p = pipes w ! i in
           if \<not> pipe_in_use p \<or> writers p = 0 then w
           else let p1 = p\<lparr>writers := writers p - 1\<rparr>;
                    w1 = set_pipe i (release_if_unused p1) w
                in if writers p1 = 0 then pipe_wake (PipeReadable i) w1 else w1)"

text \<open>One attempt of the system-call loops. A call with count zero returns before the pipe is
  looked at; the count is cut to the ring's size. \<open>None\<close> means that the task now waits and will
  try again when it runs; otherwise the result is what the call returns.\<close>

definition read_from_pipe :: "nat \<Rightarrow> nat \<Rightarrow> nat \<Rightarrow> pipe_world \<Rightarrow> pipe_world \<times> u8 list option" where
  "read_from_pipe task i count w =
     (if count = 0 then (w, Some [])
      else case pipe_read_into i (min count PIPE_RING) w of
             (w1, RBytes bs) \<Rightarrow> (w1, Some bs)
           | (w1, REof) \<Rightarrow> (w1, Some [])
           | (w1, REmpty) \<Rightarrow>
               (w1\<lparr>pipe_reader_waits := pipe_reader_waits w1 + 1,
                   pipe_tasks := set_current_waiting (Some task) (PipeReadable i) (pipe_tasks w1)\<rparr>, None))"

definition EPIPE :: int where "EPIPE = 32"

definition write_to_pipe :: "nat \<Rightarrow> nat \<Rightarrow> u8 list \<Rightarrow> pipe_world \<Rightarrow> pipe_world \<times> int option" where
  "write_to_pipe task i data w =
     (if data = [] then (w, Some 0)
      else case pipe_write_from i (take PIPE_RING data) w of
             (w1, WBytes put) \<Rightarrow> (w1, Some (int put))
           | (w1, WNoReader) \<Rightarrow> (w1, Some (- EPIPE))
           | (w1, WFull) \<Rightarrow>
               (w1\<lparr>pipe_writer_waits := pipe_writer_waits w1 + 1,
                   pipe_tasks := set_current_waiting (Some task) (PipeWritable i) (pipe_tasks w1)\<rparr>, None))"

subsection \<open>The pipe as a byte stream\<close>

datatype pipe_op = PWrite "u8 list" | PRead nat

text \<open>A run of writes and reads on one pipe: the bytes accepted and the bytes delivered.\<close>

fun pipe_run :: "nat \<Rightarrow> pipe_world \<Rightarrow> pipe_op list \<Rightarrow> pipe_world \<times> u8 list \<times> u8 list" where
  "pipe_run i w [] = (w, [], [])"
| "pipe_run i w (PWrite src # ops) =
     (let (w1, r) = pipe_write_from i src w; (w2, acc, out) = pipe_run i w1 ops
      in (w2, (case r of WBytes n \<Rightarrow> take n src @ acc | _ \<Rightarrow> acc), out))"
| "pipe_run i w (PRead k # ops) =
     (let (w1, r) = pipe_read_into i k w; (w2, acc, out) = pipe_run i w1 ops
      in (w2, acc, (case r of RBytes bs \<Rightarrow> bs @ out | _ \<Rightarrow> out)))"

definition pipe_ok :: "pipe \<Rightarrow> bool" where
  "pipe_ok p \<longleftrightarrow> ring_invar PIPE_RING (pipe_ring p) \<and> (\<not> pipe_in_use p \<longrightarrow> p = pipe_empty)"

definition pipes_ok :: "pipe_world \<Rightarrow> bool" where
  "pipes_ok w \<longleftrightarrow> length (pipes w) = MAX_PIPES \<and> list_all pipe_ok (pipes w) \<and> table_ok (pipe_tasks w)"

abbreviation pipe_bytes :: "nat \<Rightarrow> pipe_world \<Rightarrow> u8 list" where
  "pipe_bytes i w \<equiv> ring_contents (pipe_ring (pipes w ! i))"

lemma pipe_wake_simps [simp]:
  "pipes (pipe_wake on w) = pipes w" "pipe_tasks (pipe_wake on w) = fst (wake_tasks_waiting_on on (pipe_tasks w))"
  by (simp_all add: pipe_wake_def)

lemma pipe_ok_empty [simp]: "pipe_ok pipe_empty"
  by (simp add: pipe_ok_def pipe_empty_def PIPE_RING_def)

lemma pipe_ok_release: "pipe_ok p \<Longrightarrow> pipe_ok (release_if_unused p)"
  by (simp add: release_if_unused_def)

lemma write_stream:
  assumes "pipes_ok w" "i < MAX_PIPES" "pipe_write_from i src w = (w', r)"
  shows "pipe_bytes i w' = pipe_bytes i w @ (case r of WBytes n \<Rightarrow> take n src | _ \<Rightarrow> [])"
proof -
  let ?p = "pipes w ! i"
  have ok: "ring_invar PIPE_RING (pipe_ring ?p)" and len: "i < length (pipes w)"
    using assms(1,2) by (simp_all add: pipes_ok_def pipe_ok_def list_all_length)
  obtain q n where put: "ring_put (pipe_ring ?p) src = (q, n)" by fastforce
  from ring.put_law [OF ok put] have "ring_contents q = ring_contents (pipe_ring ?p) @ take n src" by simp
  then show ?thesis
    using assms(3) put len
    by (auto simp: pipe_write_from_def Let_def split: if_splits prod.splits)
qed

lemma read_stream:
  assumes "pipes_ok w" "i < MAX_PIPES" "pipe_read_into i k w = (w', r)"
  shows "pipe_bytes i w = (case r of RBytes bs \<Rightarrow> bs | _ \<Rightarrow> []) @ pipe_bytes i w'"
proof -
  let ?p = "pipes w ! i"
  have ok: "ring_invar PIPE_RING (pipe_ring ?p)" and len: "i < length (pipes w)"
    using assms(1,2) by (simp_all add: pipes_ok_def pipe_ok_def list_all_length)
  obtain q bs where g: "ring_take (pipe_ring ?p) k = (q, bs)" by fastforce
  from ring.get_law [OF ok g] have "ring_contents (pipe_ring ?p) = bs @ ring_contents q" by simp
  then show ?thesis
    using assms(3) g len by (auto simp: pipe_read_into_def Let_def split: if_splits)
qed

lemma pipes_ok_update:
  assumes "pipes_ok w" "pipe_ok p" "pipes w' = (pipes w)[i := p]" "table_ok (pipe_tasks w')"
  shows "pipes_ok w'"
  using assms by (simp add: pipes_ok_def list_all_update)

lemma pipes_ok_write: "pipes_ok w \<Longrightarrow> pipe_write_from i src w = (w', r) \<Longrightarrow> pipes_ok w'"
proof -
  assume ok: "pipes_ok w" and w: "pipe_write_from i src w = (w', r)"
  show ?thesis
  proof (cases "i < length (pipes w)")
    case True
    then have p: "pipe_ok (pipes w ! i)" using ok by (simp add: pipes_ok_def list_all_length)
    show ?thesis
      using w True ok p ring_invar_put [of PIPE_RING "pipe_ring (pipes w ! i)" src]
        table_ok_wake [of "pipe_tasks w" "PipeReadable i"]
      by (auto simp: pipe_write_from_def Let_def pipe_ok_def pipes_ok_def pipe_empty_def
          intro!: list_all_update split: if_splits prod.splits)
  next
    case False
    then show ?thesis using ok w by (simp add: pipe_write_from_def)
  qed
qed

lemma pipes_ok_read: "pipes_ok w \<Longrightarrow> pipe_read_into i k w = (w', r) \<Longrightarrow> pipes_ok w'"
proof -
  assume ok: "pipes_ok w" and w: "pipe_read_into i k w = (w', r)"
  show ?thesis
  proof (cases "i < length (pipes w) \<and> \<not> ring_is_empty (pipe_ring (pipes w ! i))")
    case True
    then have p: "pipe_ok (pipes w ! i)" using ok by (simp add: pipes_ok_def list_all_length)
    have "pipe_in_use (pipes w ! i)"
      using p True by (auto simp: pipe_ok_def pipe_empty_def ring_is_empty_def ring_empty_def)
    then show ?thesis
      using w True ok p ring_invar_take [of PIPE_RING "pipe_ring (pipes w ! i)" k]
        table_ok_wake [of "pipe_tasks w" "PipeWritable i"]
      by (auto simp: pipe_read_into_def Let_def pipe_ok_def pipes_ok_def
          intro!: list_all_update split: prod.splits)
  next
    case False
    then show ?thesis using ok w by (auto simp: pipe_read_into_def Let_def split: if_splits)
  qed
qed

text \<open>C29: whatever writes and reads are made on a pipe, in any order and sizes, the bytes delivered
  followed by the bytes still in the ring are the bytes in the ring at the start followed by the
  bytes the writes accepted: nothing is lost, repeated, reordered or made up.\<close>

theorem pipe_delivers_what_was_written:
  assumes "pipes_ok w" "i < MAX_PIPES" "pipe_run i w ops = (w', accepted, delivered)"
  shows "pipes_ok w' \<and> pipe_bytes i w @ accepted = delivered @ pipe_bytes i w'"
  using assms(1,3)
proof (induction ops arbitrary: w w' accepted delivered)
  case (Cons op ops)
  show ?case
  proof (cases op)
    case (PWrite src)
    obtain w1 r where s: "pipe_write_from i src w = (w1, r)" by fastforce
    obtain w2 acc out where t: "pipe_run i w1 ops = (w2, acc, out)" by (cases "pipe_run i w1 ops") auto
    have "pipes_ok w2 \<and> pipe_bytes i w1 @ acc = out @ pipe_bytes i w2"
      by (rule Cons.IH [OF pipes_ok_write [OF Cons.prems(1) s] t])
    then show ?thesis
      using write_stream [OF Cons.prems(1) assms(2) s] Cons.prems(2) PWrite s t
      by (auto split: pipe_write_outcome.splits)
  next
    case (PRead k)
    obtain w1 r where s: "pipe_read_into i k w = (w1, r)" by fastforce
    obtain w2 acc out where t: "pipe_run i w1 ops = (w2, acc, out)" by (cases "pipe_run i w1 ops") auto
    have "pipes_ok w2 \<and> pipe_bytes i w1 @ acc = out @ pipe_bytes i w2"
      by (rule Cons.IH [OF pipes_ok_read [OF Cons.prems(1) s] t])
    then show ?thesis
      using read_stream [OF Cons.prems(1) assms(2) s] Cons.prems(2) PRead s t
      by (auto split: pipe_read_outcome.splits)
  qed
qed simp

definition pipe_world_init :: pipe_world where
  "pipe_world_init = \<lparr>pipes = [pipe_empty], pipe_tasks = sample_table\<lparr>tt_states := replicate 6 Ready\<rparr>,
     pipe_reader_waits = 0, pipe_writer_waits = 0, pipe_epipe_seen = 0, pipe_created = 0,
     pipe_reservations_dropped = 0, pipe_readers_woken_by_write = 0\<rparr>"

lemma pipes_ok_init: "pipes_ok pipe_world_init"
  by (simp add: pipes_ok_def pipe_world_init_def MAX_PIPES_def table_ok_def task_constants)

lemma pipes_ok_create: "pipes_ok w \<Longrightarrow> pipes_ok (fst (pipe_create b w))"
  by (auto simp: pipe_create_def Let_def pipes_ok_def pipe_ok_def pipe_empty_def PIPE_RING_def
      intro!: list_all_update split: option.splits)

theorem pipe_delivers_what_was_written_witness:
  "case pipe_run 0 (fst (pipe_create True pipe_world_init)) [PWrite [1, 2, 3], PRead 2] of
     (w', accepted, delivered) \<Rightarrow> accepted = [1, 2, 3] \<and> delivered = [1, 2] \<and> pipe_bytes 0 w' = [3]"
proof -
  let ?w = "fst (pipe_create True pipe_world_init)"
  obtain w' accepted delivered where run: "pipe_run 0 ?w [PWrite [1, 2, 3], PRead 2] = (w', accepted, delivered)"
    by (cases "pipe_run 0 ?w [PWrite [1, 2, 3], PRead 2]") auto
  moreover have "snd (pipe_run 0 ?w [PWrite [1, 2, 3], PRead 2]) = ([1, 2, 3], [1, 2])" by code_simp
  moreover have "pipe_bytes 0 ?w = []" by code_simp
  ultimately show ?thesis
    using pipe_delivers_what_was_written [OF pipes_ok_create [OF pipes_ok_init] _ run]
    by (simp add: MAX_PIPES_def del: pipe_run.simps)
qed

subsection \<open>Nobody waits without a reason\<close>

text \<open>A step of the system on the pipes: any operation by any task, or a wake-up for another
  reason. Any task may call; holding a descriptor is not tracked, so the runs of the program are
  among these.\<close>

inductive pipe_step :: "pipe_world \<Rightarrow> pipe_world \<Rightarrow> bool" where
  create_it: "pipe_step w (fst (pipe_create b w))"
| claim_it: "pipe_step w (fst (claim_reserved_reader i w))"
| drop_it: "pipe_step w (fst (drop_reservation i w))"
| read_at: "t < TASK_COUNT \<Longrightarrow> pipe_step w (fst (read_from_pipe t i count w))"
| write_at: "t < TASK_COUNT \<Longrightarrow> pipe_step w (fst (write_to_pipe t i data w))"
| close_read: "pipe_step w (close_read_end i w)"
| close_write: "pipe_step w (close_write_end i w)"
| other_wake: "pipe_step w (pipe_wake on w)"

definition reader_may_wait :: "pipe \<Rightarrow> bool" where
  "reader_may_wait p \<longleftrightarrow> ring_len (pipe_ring p) = 0 \<and> writers p \<noteq> 0"

definition writer_may_wait :: "pipe \<Rightarrow> bool" where
  "writer_may_wait p \<longleftrightarrow> ring_len (pipe_ring p) = PIPE_RING \<and> (readers p \<noteq> 0 \<or> reserved_reader p)"

definition waits_justified :: "pipe_world \<Rightarrow> bool" where
  "waits_justified w \<longleftrightarrow> (\<forall>i.
     (someone_waits_on (PipeReadable i) (pipe_tasks w) \<longrightarrow> i < MAX_PIPES \<and> reader_may_wait (pipes w ! i)) \<and>
     (someone_waits_on (PipeWritable i) (pipe_tasks w) \<longrightarrow> i < MAX_PIPES \<and> writer_may_wait (pipes w ! i)))"

definition pipe_invar :: "pipe_world \<Rightarrow> bool" where
  "pipe_invar w \<longleftrightarrow> pipes_ok w \<and> waits_justified w"

text \<open>The pattern of every operation: pipe \<open>i\<close> becomes \<open>p\<close>, and whoever could no longer be waiting
  on it has been woken.\<close>

lemma pipe_invar_update:
  assumes inv: "pipe_invar w" and p: "pipe_ok p" and upd: "pipes w' = (pipes w)[i := p]"
    and t: "table_ok (pipe_tasks w')"
    and fewer: "\<And>on. someone_waits_on on (pipe_tasks w') \<Longrightarrow> someone_waits_on on (pipe_tasks w)"
    and r: "someone_waits_on (PipeReadable i) (pipe_tasks w') \<Longrightarrow> reader_may_wait (pipes w ! i) \<Longrightarrow> reader_may_wait p"
    and wr: "someone_waits_on (PipeWritable i) (pipe_tasks w') \<Longrightarrow> writer_may_wait (pipes w ! i) \<Longrightarrow> writer_may_wait p"
  shows "pipe_invar w'"
proof -
  have ok: "pipes_ok w'" using pipes_ok_update [OF _ p upd t] inv by (simp add: pipe_invar_def)
  have len: "length (pipes w) = MAX_PIPES" using inv by (simp add: pipe_invar_def pipes_ok_def)
  have j: "waits_justified w" using inv by (simp add: pipe_invar_def)
  have "j < MAX_PIPES \<and> reader_may_wait (pipes w' ! j)" if "someone_waits_on (PipeReadable j) (pipe_tasks w')" for j
    using that r fewer [OF that] j len upd by (cases "j = i") (auto simp: waits_justified_def)
  moreover have "j < MAX_PIPES \<and> writer_may_wait (pipes w' ! j)" if "someone_waits_on (PipeWritable j) (pipe_tasks w')" for j
    using that wr fewer [OF that] j len upd by (cases "j = i") (auto simp: waits_justified_def)
  ultimately show ?thesis using ok by (simp add: pipe_invar_def waits_justified_def)
qed

lemma pipe_invar_nth: "pipe_invar w \<Longrightarrow> i < length (pipes w) \<Longrightarrow> pipe_ok (pipes w ! i)"
  by (simp add: pipe_invar_def pipes_ok_def list_all_length)

lemma pipe_invar_table: "pipe_invar w \<Longrightarrow> table_ok (pipe_tasks w)"
  by (simp add: pipe_invar_def pipes_ok_def)

lemma unused_nobody_waits: "\<not> pipe_in_use p \<Longrightarrow> pipe_ok p \<Longrightarrow> \<not> reader_may_wait p \<and> \<not> writer_may_wait p"
  by (auto simp: pipe_ok_def reader_may_wait_def writer_may_wait_def pipe_empty_def)

lemma pipe_invar_create: "pipe_invar w \<Longrightarrow> pipe_invar (fst (pipe_create b w))"
proof (cases "find_index (\<lambda>p. \<not> pipe_in_use p) (pipes w)")
  case (Some i)
  assume inv: "pipe_invar w"
  note fi = find_index_Some [OF Some]
  let ?p = "pipe_empty\<lparr>pipe_in_use := True, writers := 1, reserved_reader := b\<rparr>"
  have p: "pipe_ok ?p" by (simp add: pipe_ok_def pipe_empty_def PIPE_RING_def)
  have un: "\<not> reader_may_wait (pipes w ! i) \<and> \<not> writer_may_wait (pipes w ! i)"
    using unused_nobody_waits pipe_invar_nth [OF inv] fi by blast
  show ?thesis
    by (rule pipe_invar_update [OF inv p, where i = i])
       (use Some un pipe_invar_table [OF inv] in \<open>simp_all add: pipe_create_def Let_def\<close>)
qed (simp add: pipe_create_def)

lemma pipe_invar_claim: "pipe_invar w \<Longrightarrow> pipe_invar (fst (claim_reserved_reader i w))"
proof (cases "i < length (pipes w) \<and> pipe_in_use (pipes w ! i) \<and> reserved_reader (pipes w ! i)")
  case True
  assume inv: "pipe_invar w"
  let ?p = "pipes w ! i"
  have p: "pipe_ok (?p\<lparr>reserved_reader := False, readers := min 255 (readers ?p + 1)\<rparr>)"
    using pipe_invar_nth [OF inv] True by (simp add: pipe_ok_def)
  show ?thesis
    by (rule pipe_invar_update [OF inv p, where i = i])
       (use True pipe_invar_table [OF inv] in
         \<open>simp_all add: claim_reserved_reader_def Let_def reader_may_wait_def writer_may_wait_def\<close>)
qed (auto simp: claim_reserved_reader_def Let_def)

lemma pipe_invar_drop: "pipe_invar w \<Longrightarrow> pipe_invar (fst (drop_reservation i w))"
proof (cases "i < length (pipes w) \<and> pipe_in_use (pipes w ! i) \<and> reserved_reader (pipes w ! i)")
  case True
  assume inv: "pipe_invar w"
  let ?p = "(pipes w ! i)\<lparr>reserved_reader := False\<rparr>"
  have p: "pipe_ok (release_if_unused ?p)"
    using pipe_invar_nth [OF inv] True by (intro pipe_ok_release) (simp add: pipe_ok_def)
  note t = pipe_invar_table [OF inv] and sw = someone_waits_wake [OF pipe_invar_table [OF inv]]
  show ?thesis
    by (rule pipe_invar_update [OF inv p, where i = i])
       (use True table_ok_wake [OF t] sw in
         \<open>auto simp: drop_reservation_def Let_def reader_may_wait_def release_if_unused_def pipe_empty_def\<close>)
qed (auto simp: drop_reservation_def Let_def)

lemma pipe_invar_close_read: "pipe_invar w \<Longrightarrow> pipe_invar (close_read_end i w)"
proof (cases "i < length (pipes w) \<and> pipe_in_use (pipes w ! i) \<and> readers (pipes w ! i) \<noteq> 0")
  case True
  assume inv: "pipe_invar w"
  let ?p = "(pipes w ! i)\<lparr>readers := readers (pipes w ! i) - 1\<rparr>"
  have p: "pipe_ok (release_if_unused ?p)"
    using pipe_invar_nth [OF inv] True by (intro pipe_ok_release) (simp add: pipe_ok_def)
  note t = pipe_invar_table [OF inv] and sw = someone_waits_wake [OF pipe_invar_table [OF inv]]
  show ?thesis
    by (rule pipe_invar_update [OF inv p, where i = i])
       (use True table_ok_wake [OF t] t sw in
         \<open>auto simp: close_read_end_def Let_def reader_may_wait_def writer_may_wait_def
            release_if_unused_def pipe_empty_def split: if_splits\<close>)
qed (auto simp: close_read_end_def Let_def)

lemma pipe_invar_close_write: "pipe_invar w \<Longrightarrow> pipe_invar (close_write_end i w)"
proof (cases "i < length (pipes w) \<and> pipe_in_use (pipes w ! i) \<and> writers (pipes w ! i) \<noteq> 0")
  case True
  assume inv: "pipe_invar w"
  let ?p = "(pipes w ! i)\<lparr>writers := writers (pipes w ! i) - 1\<rparr>"
  have p: "pipe_ok (release_if_unused ?p)"
    using pipe_invar_nth [OF inv] True by (intro pipe_ok_release) (simp add: pipe_ok_def)
  note t = pipe_invar_table [OF inv] and sw = someone_waits_wake [OF pipe_invar_table [OF inv]]
  show ?thesis
    by (rule pipe_invar_update [OF inv p, where i = i])
       (use True table_ok_wake [OF t] t sw in
         \<open>auto simp: close_write_end_def Let_def reader_may_wait_def writer_may_wait_def
            release_if_unused_def pipe_empty_def split: if_splits\<close>)
qed (auto simp: close_write_end_def Let_def)

lemma pipe_invar_wait:
  assumes inv: "pipe_invar w" and k: "k < TASK_COUNT" and i: "i < MAX_PIPES"
    and on: "on = PipeReadable i \<and> reader_may_wait (pipes w ! i) \<or> on = PipeWritable i \<and> writer_may_wait (pipes w ! i)"
    and w': "pipes w' = pipes w" "pipe_tasks w' = set_current_waiting (Some k) on (pipe_tasks w)"
  shows "pipe_invar w'"
proof -
  have t: "table_ok (pipe_tasks w)" by (rule pipe_invar_table [OF inv])
  have sub: "x = on \<or> someone_waits_on x (pipe_tasks w)" if "someone_waits_on x (pipe_tasks w')" for x
    using someone_waits_set [OF t k, of x on] w'(2) that by simp
  have j: "waits_justified w" using inv by (simp add: pipe_invar_def)
  have "j < MAX_PIPES \<and> reader_may_wait (pipes w' ! j)" if "someone_waits_on (PipeReadable j) (pipe_tasks w')" for j
    using sub [OF that] j on i w'(1) by (auto simp: waits_justified_def)
  moreover have "j < MAX_PIPES \<and> writer_may_wait (pipes w' ! j)" if "someone_waits_on (PipeWritable j) (pipe_tasks w')" for j
    using sub [OF that] j on i w'(1) by (auto simp: waits_justified_def)
  moreover have "pipes_ok w'" using inv t w' by (simp add: pipe_invar_def pipes_ok_def)
  ultimately show ?thesis by (simp add: pipe_invar_def waits_justified_def)
qed

lemma pipe_invar_read:
  assumes inv: "pipe_invar w" and k: "k < TASK_COUNT"
  shows "pipe_invar (fst (read_from_pipe k i count w))"
proof (cases "count = 0 \<or> length (pipes w) \<le> i")
  case True
  then show ?thesis using inv by (auto simp: read_from_pipe_def pipe_read_into_def)
next
  case False
  let ?p = "pipes w ! i" and ?n = "min count PIPE_RING"
  have i: "i < MAX_PIPES" using False inv by (simp add: pipe_invar_def pipes_ok_def)
  show ?thesis
  proof (cases "ring_is_empty (pipe_ring ?p)")
    case True
    show ?thesis
    proof (cases "writers ?p = 0")
      case True
      then show ?thesis using \<open>ring_is_empty _\<close> False inv by (simp add: read_from_pipe_def pipe_read_into_def)
    next
      case w: False
      then have "reader_may_wait ?p" using True by (simp add: reader_may_wait_def ring_is_empty_def)
      then show ?thesis
        using True w False by (intro pipe_invar_wait [OF inv k i])
          (auto simp: read_from_pipe_def pipe_read_into_def)
    qed
  next
    case ne: False
    obtain r bs where g: "ring_take (pipe_ring ?p) ?n = (r, bs)" by fastforce
    have ok: "pipe_ok ?p" using pipe_invar_nth [OF inv] False by simp
    have use: "pipe_in_use ?p" using ok ne by (auto simp: pipe_ok_def pipe_empty_def ring_is_empty_def ring_empty_def)
    have p: "pipe_ok (?p\<lparr>pipe_ring := r\<rparr>)"
      using ok use ring_invar_take [of PIPE_RING "pipe_ring ?p" ?n] g by (simp add: pipe_ok_def)
    note t = pipe_invar_table [OF inv] and sw = someone_waits_wake [OF pipe_invar_table [OF inv]]
    show ?thesis
      by (rule pipe_invar_update [OF inv p, where i = i])
         (use False ne g table_ok_wake [OF t] sw in
           \<open>auto simp: read_from_pipe_def pipe_read_into_def reader_may_wait_def ring_is_empty_def\<close>)
  qed
qed

lemma pipe_invar_write:
  assumes inv: "pipe_invar w" and k: "k < TASK_COUNT"
  shows "pipe_invar (fst (write_to_pipe k i data w))"
proof (cases "data = [] \<or> length (pipes w) \<le> i \<or> (readers (pipes w ! i) = 0 \<and> \<not> reserved_reader (pipes w ! i))")
  case True
  then show ?thesis using inv
    by (auto simp: write_to_pipe_def pipe_write_from_def Let_def pipe_invar_def pipes_ok_def waits_justified_def)
next
  case False
  let ?p = "pipes w ! i" and ?src = "take PIPE_RING data"
  have i: "i < MAX_PIPES" using False inv by (simp add: pipe_invar_def pipes_ok_def)
  have ok: "pipe_ok ?p" using pipe_invar_nth [OF inv] False by simp
  then have use: "pipe_in_use ?p" using False by (auto simp: pipe_ok_def pipe_empty_def)
  have src: "?src \<noteq> []" using False by (simp add: PIPE_RING_def)
  obtain r n where put: "ring_put (pipe_ring ?p) ?src = (r, n)" by fastforce
  have n: "n = min (length ?src) (PIPE_RING - ring_len (pipe_ring ?p))"
    using ring.put_law [OF _ put, of PIPE_RING] ok by (simp add: pipe_ok_def)
  have le: "ring_len (pipe_ring ?p) \<le> PIPE_RING" using ok by (simp add: pipe_ok_def ring_invar_def)
  show ?thesis
  proof (cases "n = 0")
    case True
    then have "r = pipe_ring ?p" using put by (auto simp: ring_put_def Let_def)
    moreover have "writer_may_wait ?p"
      using True n src False le by (auto simp: writer_may_wait_def min_def split: if_splits)
    ultimately show ?thesis
      using True False put
      by (intro pipe_invar_wait [OF inv k i, where on = "PipeWritable i"]) (auto simp: write_to_pipe_def pipe_write_from_def Let_def)
  next
    case nz: False
    have p: "pipe_ok (?p\<lparr>pipe_ring := r\<rparr>)"
      using ok use ring_invar_put [of PIPE_RING "pipe_ring ?p" ?src] put by (simp add: pipe_ok_def)
    note t = pipe_invar_table [OF inv] and sw = someone_waits_wake [OF pipe_invar_table [OF inv]]
    obtain ts m where wk: "wake_tasks_waiting_on (PipeReadable i) (pipe_tasks w) = (ts, m)" by fastforce
    have res: "fst (write_to_pipe k i data w) =
        (set_pipe i (?p\<lparr>pipe_ring := r\<rparr>) w)\<lparr>pipe_tasks := ts,
           pipe_readers_woken_by_write := pipe_readers_woken_by_write w + m\<rparr>"
      using False nz put wk by (auto simp: write_to_pipe_def pipe_write_from_def Let_def)
    have full: "\<not> writer_may_wait ?p" using nz n by (auto simp: writer_may_wait_def)
    have ts: "table_ok ts" "\<And>on. someone_waits_on on ts \<Longrightarrow> on \<noteq> PipeReadable i \<and> someone_waits_on on (pipe_tasks w)"
      using table_ok_wake [OF t, of "PipeReadable i"] sw [of _ "PipeReadable i"] wk by auto
    show ?thesis
      by (rule pipe_invar_update [OF inv p, where i = i]) (use res ts full in auto)
  qed
qed

lemma pipe_invar_step: "pipe_step w w' \<Longrightarrow> pipe_invar w \<Longrightarrow> pipe_invar w'"
proof (induction rule: pipe_step.induct)
  case (other_wake w on)
  then show ?case
    using someone_waits_wake [OF pipe_invar_table [OF other_wake]] table_ok_wake
    unfolding pipe_invar_def waits_justified_def pipes_ok_def by (metis pipe_wake_simps)
qed (auto intro: pipe_invar_create pipe_invar_claim pipe_invar_drop pipe_invar_read pipe_invar_write
    pipe_invar_close_read pipe_invar_close_write)

text \<open>C28: in every state the pipe operations can reach, a task waits to read only while its pipe is
  empty and has a writer, and waits to write only while its pipe is full and a reader is there or
  reserved: no wake-up is ever lost, nobody sleeps on a pipe whose other end is gone, and a reader
  and a writer never wait for each other on the same pipe.\<close>

theorem no_lost_wakeup_on_pipes:
  assumes "pipe_step\<^sup>*\<^sup>* pipe_world_init w"
  shows "(someone_waits_on (PipeReadable i) (pipe_tasks w) \<longrightarrow>
            pipe_bytes i w = [] \<and> writers (pipes w ! i) \<noteq> 0) \<and>
         (someone_waits_on (PipeWritable i) (pipe_tasks w) \<longrightarrow>
            length (pipe_bytes i w) = PIPE_RING \<and>
            (readers (pipes w ! i) \<noteq> 0 \<or> reserved_reader (pipes w ! i))) \<and>
         \<not> (someone_waits_on (PipeReadable i) (pipe_tasks w) \<and> someone_waits_on (PipeWritable i) (pipe_tasks w))"
proof -
  have init: "pipe_invar pipe_world_init"
  proof -
    have "\<not> someone_waits_on on (pipe_tasks pipe_world_init)" for on
      by (auto simp: someone_waits_on_def pipe_world_init_def list_ex_iff waits_on_def task_constants)
    then show ?thesis by (simp add: pipe_invar_def pipes_ok_init waits_justified_def)
  qed
  have "pipe_invar w" using assms init
    by (induction rule: rtranclp_induct) (auto intro: pipe_invar_step)
  then have "waits_justified w" by (simp add: pipe_invar_def)
  then show ?thesis
    by (auto simp: waits_justified_def reader_may_wait_def writer_may_wait_def PIPE_RING_def
        simp flip: length_0_conv)
qed

theorem no_lost_wakeup_on_pipes_witness:
  "\<exists>w. pipe_step\<^sup>*\<^sup>* pipe_world_init w \<and> someone_waits_on (PipeReadable 0) (pipe_tasks w) \<and>
     writers (pipes w ! 0) \<noteq> 0"
proof -
  let ?w1 = "fst (pipe_create True pipe_world_init)"
  let ?w2 = "fst (read_from_pipe 4 0 10 ?w1)"
  have "pipe_step pipe_world_init ?w1" by (rule create_it)
  moreover have "pipe_step ?w1 ?w2" by (rule read_at) (simp add: task_constants)
  ultimately have run: "pipe_step\<^sup>*\<^sup>* pipe_world_init ?w2" by (meson r_into_rtranclp rtranclp_trans)
  have "someone_waits_on (PipeReadable 0) (pipe_tasks ?w2)" by code_simp
  with no_lost_wakeup_on_pipes [OF run, of 0] run show ?thesis by blast
qed

end
