(* ===== verification/Socket.thy ===== *)
theory Socket
  imports Ring Task
begin

text \<open>
  Stream sockets with names (\<open>kernel/src/socket.rs\<close>): listeners, connections with one byte ring per
  direction, one file descriptor in flight per direction, and the wake-ups of the task table; with
  the system-call loops that wait on a connection (\<open>kernel/src/syscall.rs\<close>), one attempt at a time.

  The two-element arrays indexed by \<open>side as usize\<close> are functions of \<open>side\<close>: \<open>rings c s\<close> holds the
  bytes that flow to side \<open>s\<close>.
\<close>

subsection \<open>State\<close>

definition SOCKET_RING :: nat where "SOCKET_RING = 1024"
definition MAX_LISTENERS :: nat where "MAX_LISTENERS = 1"
definition MAX_CONNECTIONS :: nat where "MAX_CONNECTIONS = 2"
definition NAME_MAX :: nat where "NAME_MAX = 31"

record listener =
  lis_in_use :: bool
  listening :: bool
  lis_name :: "u8 list"

definition listener_empty :: listener where
  "listener_empty = \<lparr>lis_in_use = False, listening = False, lis_name = []\<rparr>"

record connection =
  conn_in_use :: bool
  conn_listener :: nat
  accepted :: bool
  is_open :: "side \<Rightarrow> bool"
  rings :: "side \<Rightarrow> byte_ring"
  pending_fd :: "side \<Rightarrow> nat option"

definition connection_empty :: connection where
  "connection_empty = \<lparr>conn_in_use = False, conn_listener = 0, accepted = False,
     is_open = (\<lambda>_. False), rings = (\<lambda>_. ring_empty SOCKET_RING), pending_fd = (\<lambda>_. None)\<rparr>"

record socket_world =
  listeners :: "listener list"
  connections :: "connection list"
  sock_tasks :: task_table
  sk_bound :: nat
  sk_bind_refused :: nat
  sk_listeners_released :: nat
  sk_connections_created :: nat
  sk_connections_at_once_max :: nat
  sk_connections_released :: nat
  sk_connect_refused :: nat
  sk_connect_backlog_full :: nat
  sk_accept_waits :: nat
  sk_poll_waits :: nat
  sk_reader_waits :: nat
  sk_readers_woken_by_write :: nat
  sk_writer_waits :: nat
  sk_writers_woken_by_read :: nat
  sk_epipe_seen :: nat
  sk_eof_seen :: nat

abbreviation set_conn :: "nat \<Rightarrow> connection \<Rightarrow> socket_world \<Rightarrow> socket_world" where
  "set_conn i c w \<equiv> w\<lparr>connections := (connections w)[i := c]\<rparr>"

definition sock_wake :: "wait \<Rightarrow> socket_world \<Rightarrow> socket_world" where
  "sock_wake on w = w\<lparr>sock_tasks := fst (wake_tasks_waiting_on on (sock_tasks w))\<rparr>"

subsection \<open>Names\<close>

datatype bind_error = NameTaken | BindNoRoom

definition bind :: "u8 list \<Rightarrow> socket_world \<Rightarrow> socket_world \<times> (bind_error, nat) outcome" where
  "bind name w =
     (if name = [] \<or> NAME_MAX < length name then (w, Panic)
      else if list_ex (\<lambda>l. lis_in_use l \<and> lis_name l = name) (listeners w)
      then (w\<lparr>sk_bind_refused := sk_bind_refused w + 1\<rparr>, Err NameTaken)
      else case find_index (\<lambda>l. \<not> lis_in_use l) (listeners w) of
             None \<Rightarrow> (w, Err BindNoRoom)
           | Some index \<Rightarrow>
               (w\<lparr>listeners := (listeners w)[index := listener_empty\<lparr>lis_in_use := True, lis_name := name\<rparr>],
                  sk_bound := sk_bound w + 1\<rparr>, Ok index))"

definition listen :: "nat \<Rightarrow> socket_world \<Rightarrow> socket_world \<times> bool" where
  "listen l w =
     (if length (listeners w) \<le> l then (w, False)
      else if \<not> lis_in_use (listeners w ! l) then (w, False)
      else (w\<lparr>listeners := (listeners w)[l := (listeners w ! l)\<lparr>listening := True\<rparr>]\<rparr>, True))"

datatype connect_error = NoListener | ConnectNoRoom

definition connect :: "u8 list \<Rightarrow> socket_world \<Rightarrow> socket_world \<times> (connect_error + nat)" where
  "connect name w =
     (case find_index (\<lambda>l. lis_in_use l \<and> listening l \<and> lis_name l = name) (listeners w) of
        None \<Rightarrow> (w\<lparr>sk_connect_refused := sk_connect_refused w + 1\<rparr>, Inl NoListener)
      | Some l \<Rightarrow>
          (case find_index (\<lambda>c. \<not> conn_in_use c) (connections w) of
             None \<Rightarrow> (w\<lparr>sk_connect_backlog_full := sk_connect_backlog_full w + 1\<rparr>, Inl ConnectNoRoom)
           | Some index \<Rightarrow>
               let c = connection_empty\<lparr>conn_in_use := True, conn_listener := l, is_open := (\<lambda>_. True)\<rparr>;
                   w1 = (set_conn index c w)\<lparr>sk_connections_created := sk_connections_created w + 1\<rparr>;
                   at_once = length (filter conn_in_use (connections w1));
                   w2 = w1\<lparr>sk_connections_at_once_max := max (sk_connections_at_once_max w1) at_once\<rparr>
               in (sock_wake (SocketAcceptable l) w2, Inr index)))"

datatype accept_outcome = Connection nat | AcceptEmpty | AcceptNoListener

definition is_listening :: "nat \<Rightarrow> socket_world \<Rightarrow> bool" where
  "is_listening l w \<longleftrightarrow> l < length (listeners w) \<and> lis_in_use (listeners w ! l) \<and> listening (listeners w ! l)"

definition is_pending :: "nat \<Rightarrow> connection \<Rightarrow> bool" where
  "is_pending l c \<longleftrightarrow> conn_in_use c \<and> conn_listener c = l \<and> \<not> accepted c"

definition accept :: "nat \<Rightarrow> socket_world \<Rightarrow> socket_world \<times> accept_outcome" where
  "accept l w =
     (if \<not> is_listening l w then (w, AcceptNoListener)
      else case find_index (is_pending l) (connections w) of
             None \<Rightarrow> (w, AcceptEmpty)
           | Some index \<Rightarrow> (set_conn index ((connections w ! index)\<lparr>accepted := True\<rparr>) w, Connection index))"

definition acceptable :: "nat \<Rightarrow> socket_world \<Rightarrow> bool" where
  "acceptable l w \<longleftrightarrow> is_listening l w \<and> list_ex (is_pending l) (connections w)"

subsection \<open>The stream\<close>

definition readable :: "nat \<Rightarrow> side \<Rightarrow> socket_world \<Rightarrow> bool" where
  "readable conn s w =
     (if length (connections w) \<le> conn then False
      else let c = connections w ! conn in
           conn_in_use c \<and> (\<not> ring_is_empty (rings c s) \<or> \<not> is_open c (peer s)))"

definition readable_or_gone :: "nat \<Rightarrow> side \<Rightarrow> socket_world \<Rightarrow> bool" where
  "readable_or_gone conn s w =
     (if length (connections w) \<le> conn then True
      else let c = connections w ! conn in
           \<not> conn_in_use c \<or> \<not> ring_is_empty (rings c s) \<or> \<not> is_open c (peer s))"

datatype sock_read_outcome = SRBytes "u8 list" | SREof | SREmpty | SRNoConnection

definition sock_read_into :: "nat \<Rightarrow> side \<Rightarrow> nat \<Rightarrow> socket_world \<Rightarrow> socket_world \<times> sock_read_outcome" where
  "sock_read_into conn s dst_len w =
     (if length (connections w) \<le> conn then (w, SRNoConnection)
      else let c = connections w ! conn in
           if \<not> conn_in_use c then (w, SRNoConnection)
           else if ring_is_empty (rings c s) then
             (if is_open c (peer s) then (w, SREmpty)
              else (w\<lparr>sk_eof_seen := sk_eof_seen w + 1\<rparr>, SREof))
           else let (r, bs) = ring_take (rings c s) dst_len;
                    w1 = set_conn conn (c\<lparr>rings := (rings c)(s := r)\<rparr>) w;
                    (ts, woken) = wake_tasks_waiting_on (SocketWritable conn (peer s)) (sock_tasks w1)
                in (w1\<lparr>sock_tasks := ts, sk_writers_woken_by_read := sk_writers_woken_by_read w1 + woken\<rparr>, SRBytes bs))"

datatype sock_write_outcome = SWBytes nat | SWFull | SWPeerClosed | SWNoConnection

definition sock_write_from :: "nat \<Rightarrow> side \<Rightarrow> u8 list \<Rightarrow> socket_world \<Rightarrow> socket_world \<times> sock_write_outcome" where
  "sock_write_from conn s src w =
     (if length (connections w) \<le> conn then (w, SWNoConnection)
      else let c = connections w ! conn in
           if \<not> conn_in_use c then (w, SWNoConnection)
           else if \<not> is_open c (peer s) then (w\<lparr>sk_epipe_seen := sk_epipe_seen w + 1\<rparr>, SWPeerClosed)
           else let (r, put) = ring_put (rings c (peer s)) src;
                    w1 = set_conn conn (c\<lparr>rings := (rings c)(peer s := r)\<rparr>) w
                in if put = 0 then (w1, SWFull)
                   else let (ts, woken) = wake_tasks_waiting_on (SocketReadable conn (peer s)) (sock_tasks w1)
                        in (w1\<lparr>sock_tasks := ts, sk_readers_woken_by_write := sk_readers_woken_by_write w1 + woken\<rparr>,
                            SWBytes put))"

definition close_end :: "nat \<Rightarrow> side \<Rightarrow> socket_world \<Rightarrow> socket_world" where
  "close_end conn s w =
     (if length (connections w) \<le> conn then w
      else let c = connections w ! conn in
           if \<not> conn_in_use c \<or> \<not> is_open c s then w
           else let c1 = c\<lparr>is_open := (is_open c)(s := False)\<rparr>;
                    w1 = (if \<not> is_open c1 Client \<and> \<not> is_open c1 Server
                          then (set_conn conn connection_empty w)\<lparr>sk_connections_released := sk_connections_released w + 1\<rparr>
                          else set_conn conn c1 w)
                in sock_wake (SocketWritable conn (peer s)) (sock_wake (SocketReadable conn (peer s)) w1))"

definition close_listener :: "nat \<Rightarrow> socket_world \<Rightarrow> socket_world" where
  "close_listener l w =
     (if length (listeners w) \<le> l then w
      else if \<not> lis_in_use (listeners w ! l) then w
      else let w1 = w\<lparr>listeners := (listeners w)[l := listener_empty],
                      sk_listeners_released := sk_listeners_released w + 1\<rparr>;
               pending = filter (\<lambda>i. is_pending l (connections w1 ! i)) [0 ..< length (connections w1)]
           in fold (\<lambda>i. close_end i Server) pending w1)"

definition queue_fd :: "nat \<Rightarrow> side \<Rightarrow> nat \<Rightarrow> socket_world \<Rightarrow> socket_world \<times> bool" where
  "queue_fd conn s shm w =
     (if length (connections w) \<le> conn then (w, False)
      else let c = connections w ! conn in
           if \<not> conn_in_use c \<or> pending_fd c (peer s) \<noteq> None then (w, False)
           else (sock_wake (SocketReadable conn (peer s))
                   (set_conn conn (c\<lparr>pending_fd := (pending_fd c)(peer s := Some shm)\<rparr>) w), True))"

definition take_fd :: "nat \<Rightarrow> side \<Rightarrow> socket_world \<Rightarrow> socket_world \<times> nat option" where
  "take_fd conn s w =
     (if length (connections w) \<le> conn then (w, None)
      else let c = connections w ! conn in
           if \<not> conn_in_use c then (w, None)
           else (set_conn conn (c\<lparr>pending_fd := (pending_fd c)(s := None)\<rparr>) w, pending_fd c s))"

subsection \<open>The waiting system calls\<close>

definition ENOTCONN :: int where "ENOTCONN = 107"
definition EPIPE_SOCK :: int where "EPIPE_SOCK = 32"

definition read_from_socket :: "nat \<Rightarrow> nat \<Rightarrow> side \<Rightarrow> nat \<Rightarrow> socket_world \<Rightarrow> socket_world \<times> (int + u8 list) option" where
  "read_from_socket task conn s count w =
     (if count = 0 then (w, Some (Inr []))
      else case sock_read_into conn s (min count SOCKET_RING) w of
             (w1, SRBytes bs) \<Rightarrow> (w1, Some (Inr bs))
           | (w1, SREof) \<Rightarrow> (w1, Some (Inr []))
           | (w1, SRNoConnection) \<Rightarrow> (w1, Some (Inl (- ENOTCONN)))
           | (w1, SREmpty) \<Rightarrow>
               (w1\<lparr>sk_reader_waits := sk_reader_waits w1 + 1,
                   sock_tasks := set_current_waiting (Some task) (SocketReadable conn s) (sock_tasks w1)\<rparr>, None))"

definition wait_until_readable :: "nat \<Rightarrow> nat \<Rightarrow> side \<Rightarrow> socket_world \<Rightarrow> socket_world" where
  "wait_until_readable task conn s w =
     (if readable_or_gone conn s w then w
      else w\<lparr>sk_reader_waits := sk_reader_waits w + 1,
             sock_tasks := set_current_waiting (Some task) (SocketReadable conn s) (sock_tasks w)\<rparr>)"

definition write_to_socket :: "nat \<Rightarrow> nat \<Rightarrow> side \<Rightarrow> u8 list \<Rightarrow> socket_world \<Rightarrow> socket_world \<times> int option" where
  "write_to_socket task conn s data w =
     (if data = [] then (w, Some 0)
      else case sock_write_from conn s (take SOCKET_RING data) w of
             (w1, SWBytes put) \<Rightarrow> (w1, Some (int put))
           | (w1, SWPeerClosed) \<Rightarrow> (w1, Some (- EPIPE_SOCK))
           | (w1, SWNoConnection) \<Rightarrow> (w1, Some (- ENOTCONN))
           | (w1, SWFull) \<Rightarrow>
               (w1\<lparr>sk_writer_waits := sk_writer_waits w1 + 1,
                   sock_tasks := set_current_waiting (Some task) (SocketWritable conn s) (sock_tasks w1)\<rparr>, None))"

definition sys_accept_attempt :: "nat \<Rightarrow> nat \<Rightarrow> socket_world \<Rightarrow> socket_world \<times> accept_outcome option" where
  "sys_accept_attempt task l w =
     (case accept l w of
        (w1, AcceptEmpty) \<Rightarrow>
          (w1\<lparr>sk_accept_waits := sk_accept_waits w1 + 1,
              sock_tasks := set_current_waiting (Some task) (SocketAcceptable l) (sock_tasks w1)\<rparr>, None)
      | (w1, r) \<Rightarrow> (w1, Some r))"

text \<open>One turn of the loop of \<open>poll_from_ring3\<close>: the reasons of the descriptors are looked at without
  taking anything; with none ready the task waits on all of them. \<open>input\<close> says whether raw input
  events are queued, \<open>may_wait\<close> whether a foreground is installed and no script drives the input.\<close>

definition poll_is_ready :: "bool \<Rightarrow> wait \<Rightarrow> socket_world \<Rightarrow> bool" where
  "poll_is_ready input reason w =
     (case reason of
        Keyboard \<Rightarrow> input
      | SocketReadable conn s \<Rightarrow> readable conn s w
      | SocketAcceptable l \<Rightarrow> acceptable l w
      | _ \<Rightarrow> False)"

fun push_reasons :: "wait list \<Rightarrow> wait_set \<Rightarrow> wait_set option" where
  "push_reasons [] ws = Some ws"
| "push_reasons (r # rs) ws = (let (ws1, pushed) = wait_set_push ws r in if pushed then push_reasons rs ws1 else None)"

datatype poll_outcome = PollReady "bool list" | PollTimedOut | PollAgain | PollInvalid | PollWaits

definition poll_attempt ::
  "nat \<Rightarrow> bool \<Rightarrow> bool \<Rightarrow> wait list \<Rightarrow> int \<Rightarrow> socket_world \<Rightarrow> socket_world \<times> poll_outcome" where
  "poll_attempt task input may_wait reasons timeout w =
     (let revents = map (\<lambda>r. poll_is_ready input r w) reasons in
      if list_ex (\<lambda>b. b) revents then (w, PollReady revents)
      else if timeout = 0 then (w, PollTimedOut)
      else if \<not> may_wait then (w, PollAgain)
      else case push_reasons reasons wait_set_empty of
             None \<Rightarrow> (w, PollInvalid)
           | Some ws \<Rightarrow>
               (w\<lparr>sk_poll_waits := sk_poll_waits w + 1,
                  sock_tasks := set_current_waiting_set (Some task) ws (sock_tasks w)\<rparr>, PollWaits))"

text \<open>The reasons that \<open>poll_reason_of\<close> can return.\<close>

definition poll_reason :: "wait \<Rightarrow> bool" where
  "poll_reason reason \<longleftrightarrow>
     (case reason of Keyboard \<Rightarrow> True | SocketReadable conn s \<Rightarrow> True | SocketAcceptable l \<Rightarrow> True | _ \<Rightarrow> False)"

lemma push_reasons_set: "push_reasons rs ws = Some ws' \<Longrightarrow> set ws' = set ws \<union> set rs"
  by (induction rs arbitrary: ws)
     (auto simp: wait_set_push_def wait_set_contains_def split: if_splits)

subsection \<open>The invariant\<close>

definition conn_ok :: "connection \<Rightarrow> bool" where
  "conn_ok c \<longleftrightarrow> ring_invar SOCKET_RING (rings c Client) \<and> ring_invar SOCKET_RING (rings c Server) \<and>
     (if conn_in_use c then is_open c Client \<or> is_open c Server else c = connection_empty)"

definition sockets_ok :: "socket_world \<Rightarrow> bool" where
  "sockets_ok w \<longleftrightarrow> length (listeners w) = MAX_LISTENERS \<and> length (connections w) = MAX_CONNECTIONS \<and>
     list_all conn_ok (connections w) \<and> table_ok (sock_tasks w)"

definition may_read :: "connection \<Rightarrow> side \<Rightarrow> bool" where
  "may_read c s \<longleftrightarrow> (conn_in_use c \<longrightarrow> ring_len (rings c s) = 0 \<and> is_open c (peer s))"

definition may_write :: "connection \<Rightarrow> side \<Rightarrow> bool" where
  "may_write c s \<longleftrightarrow> conn_in_use c \<and> ring_len (rings c (peer s)) = SOCKET_RING \<and> is_open c (peer s)"

definition sock_justified :: "socket_world \<Rightarrow> bool" where
  "sock_justified w \<longleftrightarrow>
     (\<forall>i s. someone_waits_on (SocketReadable i s) (sock_tasks w) \<longrightarrow>
        i < length (connections w) \<longrightarrow> may_read (connections w ! i) s) \<and>
     (\<forall>i s. someone_waits_on (SocketWritable i s) (sock_tasks w) \<longrightarrow>
        i < length (connections w) \<and> may_write (connections w ! i) s) \<and>
     (\<forall>l. someone_waits_on (SocketAcceptable l) (sock_tasks w) \<longrightarrow>
        is_listening l w \<longrightarrow> \<not> list_ex (is_pending l) (connections w))"

definition sock_invar :: "socket_world \<Rightarrow> bool" where
  "sock_invar w \<longleftrightarrow> sockets_ok w \<and> sock_justified w"

lemma conn_ok_ring: "conn_ok c \<Longrightarrow> ring_invar SOCKET_RING (rings c s)"
  by (cases s) (auto simp: conn_ok_def)

lemma conn_ok_empty [simp]: "conn_ok connection_empty"
  by (simp add: conn_ok_def connection_empty_def SOCKET_RING_def)

lemma sock_invar_conn: "sock_invar w \<Longrightarrow> i < length (connections w) \<Longrightarrow> conn_ok (connections w ! i)"
  by (simp add: sock_invar_def sockets_ok_def list_all_length)

lemma sock_invar_table: "sock_invar w \<Longrightarrow> table_ok (sock_tasks w)"
  by (simp add: sock_invar_def sockets_ok_def)

lemma sock_wake_simps [simp]:
  "connections (sock_wake on w) = connections w" "listeners (sock_wake on w) = listeners w"
  "sock_tasks (sock_wake on w) = fst (wake_tasks_waiting_on on (sock_tasks w))"
  by (simp_all add: sock_wake_def)

text \<open>The pattern of the operations on one connection.\<close>

lemma sock_invar_update:
  assumes inv: "sock_invar w" and c: "conn_ok c" and upd: "connections w' = (connections w)[i := c]"
    and lis: "listeners w' = listeners w" and t: "table_ok (sock_tasks w')"
    and fewer: "\<And>on. someone_waits_on on (sock_tasks w') \<Longrightarrow> someone_waits_on on (sock_tasks w)"
    and r: "\<And>s. someone_waits_on (SocketReadable i s) (sock_tasks w') \<Longrightarrow> i < length (connections w) \<Longrightarrow>
      may_read (connections w ! i) s \<Longrightarrow> may_read c s"
    and wr: "\<And>s. someone_waits_on (SocketWritable i s) (sock_tasks w') \<Longrightarrow> may_write (connections w ! i) s \<Longrightarrow> may_write c s"
    and ac: "\<And>l. someone_waits_on (SocketAcceptable l) (sock_tasks w') \<Longrightarrow> is_pending l c \<Longrightarrow>
      i < length (connections w) \<Longrightarrow> is_pending l (connections w ! i)"
  shows "sock_invar w'"
proof -
  have ok: "sockets_ok w'" using inv c upd lis t by (simp add: sock_invar_def sockets_ok_def list_all_update)
  have j: "sock_justified w" using inv by (simp add: sock_invar_def)
  have "may_read (connections w' ! j) s"
    if "someone_waits_on (SocketReadable j s) (sock_tasks w')" "j < length (connections w')" for j s
    using that r [of s] fewer [OF that(1)] j upd by (cases "j = i") (auto simp: sock_justified_def)
  moreover have "j < length (connections w') \<and> may_write (connections w' ! j) s"
    if "someone_waits_on (SocketWritable j s) (sock_tasks w')" for j s
    using that wr [of s] fewer [OF that] j upd by (cases "j = i") (auto simp: sock_justified_def)
  moreover have "\<not> list_ex (is_pending l) (connections w')"
    if waits: "someone_waits_on (SocketAcceptable l) (sock_tasks w')" and "is_listening l w'" for l
  proof -
    have old: "\<not> list_ex (is_pending l) (connections w)"
      using fewer [OF waits] j that(2) lis by (simp add: sock_justified_def is_listening_def)
    have "\<not> is_pending l c" if "i < length (connections w)"
      using ac [OF waits] old that by (auto simp: list_ex_length)
    then have "\<not> is_pending l ((connections w)[i := c] ! n)" if "n < length (connections w)" for n
      using old that by (cases "n = i") (auto simp: list_ex_length)
    then show ?thesis using upd by (auto simp: list_ex_length)
  qed
  ultimately show ?thesis using ok by (simp add: sock_invar_def sock_justified_def)
qed

lemma sock_invar_read:
  assumes inv: "sock_invar w"
  shows "sock_invar (fst (sock_read_into i s k w))"
proof (cases "i < length (connections w) \<and> conn_in_use (connections w ! i) \<and> \<not> ring_is_empty (rings (connections w ! i) s)")
  case False
  then show ?thesis using inv
    by (auto simp: sock_read_into_def Let_def sock_invar_def sockets_ok_def sock_justified_def is_listening_def)
next
  case True
  let ?c = "connections w ! i"
  obtain r bs where g: "ring_take (rings ?c s) k = (r, bs)" by fastforce
  obtain ts m where wk: "wake_tasks_waiting_on (SocketWritable i (peer s)) (sock_tasks w) = (ts, m)" by fastforce
  have ok: "conn_ok ?c" using sock_invar_conn [OF inv] True by simp
  have c: "conn_ok (?c\<lparr>rings := (rings ?c)(s := r)\<rparr>)"
    using ok True ring.get_law [OF conn_ok_ring [OF ok] g] by (cases s) (auto simp: conn_ok_def)
  have t: "table_ok ts" "\<And>on. someone_waits_on on ts \<Longrightarrow> on \<noteq> SocketWritable i (peer s) \<and> someone_waits_on on (sock_tasks w)"
    using table_ok_wake [OF sock_invar_table [OF inv]] someone_waits_wake [OF sock_invar_table [OF inv]] wk
    by (metis fst_conv)+
  have res: "fst (sock_read_into i s k w) =
      (set_conn i (?c\<lparr>rings := (rings ?c)(s := r)\<rparr>) w)\<lparr>sock_tasks := ts,
         sk_writers_woken_by_read := sk_writers_woken_by_read w + m\<rparr>"
    using True g wk by (simp add: sock_read_into_def Let_def)
  have other: "q = peer s" if "peer q = s" for q using that by (cases q; cases s) auto
  show ?thesis
    by (rule sock_invar_update [OF inv c, where i = i])
       (use res t True other in \<open>auto simp: may_read_def may_write_def is_pending_def ring_is_empty_def split: if_splits\<close>)
qed

lemma sock_invar_write:
  assumes inv: "sock_invar w" and put: "snd (sock_write_from i s src w) \<noteq> SWFull"
  shows "sock_invar (fst (sock_write_from i s src w))"
proof (cases "i < length (connections w) \<and> conn_in_use (connections w ! i) \<and> is_open (connections w ! i) (peer s)")
  case False
  then show ?thesis using inv
    by (auto simp: sock_write_from_def Let_def sock_invar_def sockets_ok_def sock_justified_def is_listening_def)
next
  case True
  let ?c = "connections w ! i"
  obtain r n where g: "ring_put (rings ?c (peer s)) src = (r, n)" by fastforce
  obtain ts m where wk: "wake_tasks_waiting_on (SocketReadable i (peer s)) (sock_tasks w) = (ts, m)" by fastforce
  have ok: "conn_ok ?c" using sock_invar_conn [OF inv] True by simp
  note law = ring.put_law [OF conn_ok_ring [OF ok] g]
  have n: "n \<noteq> 0"
  proof
    assume "n = 0"
    then show False using put True g by (simp add: sock_write_from_def Let_def)
  qed
  have c: "conn_ok (?c\<lparr>rings := (rings ?c)(peer s := r)\<rparr>)"
    using ok True law by (cases s) (auto simp: conn_ok_def)
  have t: "table_ok ts" "\<And>on. someone_waits_on on ts \<Longrightarrow> on \<noteq> SocketReadable i (peer s) \<and> someone_waits_on on (sock_tasks w)"
    using table_ok_wake [OF sock_invar_table [OF inv]] someone_waits_wake [OF sock_invar_table [OF inv]] wk
    by (metis fst_conv)+
  have res: "fst (sock_write_from i s src w) =
      (set_conn i (?c\<lparr>rings := (rings ?c)(peer s := r)\<rparr>) w)\<lparr>sock_tasks := ts,
         sk_readers_woken_by_write := sk_readers_woken_by_write w + m\<rparr>"
    using True g wk n by (simp add: sock_write_from_def Let_def)
  have full: "ring_len (rings ?c (peer s)) \<noteq> SOCKET_RING" using law n by auto
  have other: "q = s" if "peer q = peer s" for q using that by (cases q; cases s) auto
  show ?thesis
    by (rule sock_invar_update [OF inv c, where i = i])
       (use res t True full other in \<open>auto simp: may_read_def may_write_def is_pending_def split: if_splits\<close>)
qed

text \<open>A task starts to wait: the new wait is justified by the state it leaves alone.\<close>

definition wait_justified :: "socket_world \<Rightarrow> wait \<Rightarrow> bool" where
  "wait_justified w on =
     (case on of
        SocketReadable i s \<Rightarrow> \<not> readable i s w
      | SocketWritable i s \<Rightarrow> i < length (connections w) \<and> may_write (connections w ! i) s
      | SocketAcceptable l \<Rightarrow> \<not> acceptable l w
      | _ \<Rightarrow> True)"

lemma not_readable: "\<not> readable i s w \<longleftrightarrow> (i < length (connections w) \<longrightarrow> may_read (connections w ! i) s)"
  by (auto simp: readable_def may_read_def ring_is_empty_def Let_def)

lemma sock_invar_wait:
  assumes inv: "sock_invar w" and k: "k < TASK_COUNT" and on: "\<And>on. on \<in> set ws \<Longrightarrow> wait_justified w on"
    and w': "connections w' = connections w" "listeners w' = listeners w"
      "sock_tasks w' = set_current_waiting_set (Some k) ws (sock_tasks w)"
  shows "sock_invar w'"
proof -
  have t: "table_ok (sock_tasks w)" by (rule sock_invar_table [OF inv])
  have j: "sock_justified w" using inv by (simp add: sock_invar_def)
  have just: "wait_justified w x" if "someone_waits_on x (sock_tasks w')" for x
  proof -
    have "x \<in> set ws \<or> someone_waits_on x (sock_tasks w)"
      using someone_waits_waiting_set(2) [OF t k, of x ws] w'(3) that by simp
    moreover have "wait_justified w x" if "someone_waits_on x (sock_tasks w)"
      using j that by (cases x) (auto simp: wait_justified_def sock_justified_def not_readable acceptable_def)
    ultimately show ?thesis using on by blast
  qed
  have "sockets_ok w'" using inv someone_waits_waiting_set(1) [OF t k] w' by (simp add: sock_invar_def sockets_ok_def)
  moreover have "sock_justified w'"
    using just w'(1,2) unfolding sock_justified_def
    by (fastforce simp: wait_justified_def not_readable acceptable_def is_listening_def)
  ultimately show ?thesis by (simp add: sock_invar_def)
qed

lemmas waiting_single = set_current_waiting_def wait_set_single_def

lemma sock_invar_read_call:
  assumes inv: "sock_invar w" and k: "k < TASK_COUNT"
  shows "sock_invar (fst (read_from_socket k i s count w))"
proof (cases "count \<noteq> 0 \<and> snd (sock_read_into i s (min count SOCKET_RING) w) = SREmpty")
  case True
  let ?n = "min count SOCKET_RING"
  have e: "sock_read_into i s ?n w = (w, SREmpty)" and m: "i < length (connections w)" "may_read (connections w ! i) s"
    using True
    by (auto simp: sock_read_into_def Let_def may_read_def ring_is_empty_def
        split: if_splits prod.splits)
  then show ?thesis using True
    by (intro sock_invar_wait [OF inv k, where ws = "[SocketReadable i s]"])
       (auto simp: read_from_socket_def waiting_single wait_justified_def not_readable)
next
  case False
  have "sock_invar (fst (sock_read_into i s (min count SOCKET_RING) w))" by (rule sock_invar_read [OF inv])
  then show ?thesis using False inv
    by (auto simp: read_from_socket_def split: prod.splits sock_read_outcome.splits)
qed

lemma sock_invar_wait_readable:
  assumes "sock_invar w" "k < TASK_COUNT"
  shows "sock_invar (wait_until_readable k i s w)"
proof (cases "readable_or_gone i s w")
  case False
  then have "\<not> readable i s w" by (auto simp: readable_or_gone_def readable_def Let_def split: if_splits)
  with False show ?thesis
    by (intro sock_invar_wait [OF assms, where ws = "[SocketReadable i s]"])
       (auto simp: wait_until_readable_def waiting_single wait_justified_def)
qed (simp add: wait_until_readable_def assms(1))

lemma sock_invar_poll:
  assumes "sock_invar w" "k < TASK_COUNT" and reasons: "list_all poll_reason reasons"
  shows "sock_invar (fst (poll_attempt k input may_wait reasons timeout w))"
proof (cases "snd (poll_attempt k input may_wait reasons timeout w) = PollWaits")
  case True
  then obtain ws where ws: "push_reasons reasons wait_set_empty = Some ws"
    and idle: "\<not> list_ex (\<lambda>b. b) (map (\<lambda>r. poll_is_ready input r w) reasons)"
    and res: "fst (poll_attempt k input may_wait reasons timeout w) =
      w\<lparr>sk_poll_waits := sk_poll_waits w + 1, sock_tasks := set_current_waiting_set (Some k) ws (sock_tasks w)\<rparr>"
    by (auto simp: poll_attempt_def Let_def split: if_splits option.splits)
  have "wait_justified w on" if "on \<in> set ws" for on
  proof -
    have "on \<in> set reasons" using push_reasons_set [OF ws] that by (simp add: wait_set_empty_def)
    then have "\<not> poll_is_ready input on w" "poll_reason on"
      using idle reasons by (auto simp: list_ex_iff list_all_iff)
    then show ?thesis by (cases on) (auto simp: poll_is_ready_def poll_reason_def wait_justified_def)
  qed
  then show ?thesis using res by (intro sock_invar_wait [OF assms(1,2)]) auto
next
  case False
  then show ?thesis using assms(1) by (auto simp: poll_attempt_def Let_def split: if_splits option.splits)
qed

lemma write_full:
  assumes inv: "sock_invar w" and full: "snd (sock_write_from i s src w) = SWFull" and ne: "src \<noteq> []"
  shows "connections (fst (sock_write_from i s src w)) = connections w"
    and "fst (sock_write_from i s src w) = set_conn i (connections w ! i) w"
    and "i < length (connections w)" "may_write (connections w ! i) s"
proof -
  let ?c = "connections w ! i"
  obtain r n where g: "ring_put (rings ?c (peer s)) src = (r, n)" by fastforce
  have c: "i < length (connections w)" "conn_in_use ?c" "is_open ?c (peer s)" "n = 0"
    using full g by (auto simp: sock_write_from_def Let_def split: if_splits prod.splits)
  have ok: "conn_ok ?c" using sock_invar_conn [OF inv c(1)] .
  note law = ring.put_law [OF conn_ok_ring [OF ok] g]
  have r: "r = rings ?c (peer s)" using g c(4) by (auto simp: ring_put_def Let_def)
  show f: "fst (sock_write_from i s src w) = set_conn i ?c w"
    using c g r by (simp add: sock_write_from_def Let_def)
  show "connections (fst (sock_write_from i s src w)) = connections w" using f by simp
  show "i < length (connections w)" by (rule c(1))
  have "ring_len (rings ?c (peer s)) \<le> SOCKET_RING" using conn_ok_ring [OF ok] by (simp add: ring_invar_def)
  then show "may_write ?c s"
    using law c ne by (auto simp: may_write_def min_def split: if_splits)
qed

lemma sock_invar_write_call:
  assumes inv: "sock_invar w" and k: "k < TASK_COUNT"
  shows "sock_invar (fst (write_to_socket k i s data w))"
proof (cases "data \<noteq> [] \<and> snd (sock_write_from i s (take SOCKET_RING data) w) = SWFull")
  case True
  let ?src = "take SOCKET_RING data"
  have ne: "?src \<noteq> []" using True by (simp add: SOCKET_RING_def)
  note wf = write_full [OF inv conjunct2 [OF True] ne]
  obtain w1 where w1: "sock_write_from i s ?src w = (w1, SWFull)" using True by (metis prod.collapse)
  show ?thesis using True w1 wf
    by (intro sock_invar_wait [OF inv k, where ws = "[SocketWritable i s]"])
       (auto simp: write_to_socket_def waiting_single wait_justified_def)
next
  case False
  show ?thesis
  proof (cases "data = []")
    case True
    then show ?thesis using inv by (simp add: write_to_socket_def)
  next
    case ne: False
    then have "sock_invar (fst (sock_write_from i s (take SOCKET_RING data) w))"
      using sock_invar_write [OF inv] False by blast
    then show ?thesis using False ne
      by (auto simp: write_to_socket_def split: prod.splits sock_write_outcome.splits)
  qed
qed

lemma sock_invar_close_end:
  assumes inv: "sock_invar w"
  shows "sock_invar (close_end i s w)"
proof (cases "i < length (connections w) \<and> conn_in_use (connections w ! i) \<and> is_open (connections w ! i) s")
  case False
  then show ?thesis using inv by (auto simp: close_end_def Let_def)
next
  case True
  let ?c = "connections w ! i"
  define c1 where "c1 = ?c\<lparr>is_open := (is_open ?c)(s := False)\<rparr>"
  define c2 where "c2 = (if \<not> is_open c1 Client \<and> \<not> is_open c1 Server then connection_empty else c1)"
  have ok: "conn_ok ?c" using sock_invar_conn [OF inv] True by simp
  have "conn_ok c1" if "is_open c1 Client \<or> is_open c1 Server"
    using that ok True by (auto simp: c1_def conn_ok_def)
  then have c: "conn_ok c2" by (auto simp: c2_def)
  let ?t1 = "fst (wake_tasks_waiting_on (SocketReadable i (peer s)) (sock_tasks w))"
  let ?t2 = "fst (wake_tasks_waiting_on (SocketWritable i (peer s)) ?t1)"
  have t1: "table_ok ?t1" and t2: "table_ok ?t2"
    using table_ok_wake [OF table_ok_wake [OF sock_invar_table [OF inv]]] table_ok_wake [OF sock_invar_table [OF inv]] by auto
  have sub: "on \<noteq> SocketReadable i (peer s) \<and> on \<noteq> SocketWritable i (peer s) \<and> someone_waits_on on (sock_tasks w)"
    if "someone_waits_on on ?t2" for on
    using that someone_waits_wake [OF t1] someone_waits_wake [OF sock_invar_table [OF inv]] by blast
  have only: "q = s" if "someone_waits_on (SocketReadable i q) ?t2 \<or> someone_waits_on (SocketWritable i q) ?t2" for q
    using that sub by (cases q; cases s) auto
  have r: "may_read c2 s" if "may_read ?c s"
    using that True by (cases s) (auto simp: c2_def c1_def may_read_def connection_empty_def)
  have wr: "may_write c2 s" if "may_write ?c s"
    using that by (cases s) (auto simp: c2_def c1_def may_write_def)
  have pend: "is_pending l c2 \<Longrightarrow> is_pending l ?c" for l
    by (auto simp: c2_def c1_def is_pending_def connection_empty_def split: if_splits)
  have res: "connections (close_end i s w) = (connections w)[i := c2]" "listeners (close_end i s w) = listeners w"
    "sock_tasks (close_end i s w) = ?t2"
    using True by (auto simp: close_end_def Let_def c2_def c1_def)
  show ?thesis
  proof (rule sock_invar_update [OF inv c res(1,2)])
    show "table_ok (sock_tasks (close_end i s w))" using t2 res(3) by simp
    show "someone_waits_on on (sock_tasks w)" if "someone_waits_on on (sock_tasks (close_end i s w))" for on
      using sub that res(3) by simp
    show "may_read c2 q" if "someone_waits_on (SocketReadable i q) (sock_tasks (close_end i s w))" "may_read ?c q" for q
      using only [of q] r that res(3) by simp
    show "may_write c2 q" if "someone_waits_on (SocketWritable i q) (sock_tasks (close_end i s w))" "may_write ?c q" for q
      using only [of q] wr that res(3) by simp
  qed (rule pend)
qed

lemma sock_invar_close_ends: "sock_invar w \<Longrightarrow> sock_invar (fold (\<lambda>i. close_end i s) js w)"
  by (induction js arbitrary: w) (simp_all add: sock_invar_close_end)

lemma sock_invar_listeners:
  assumes "sock_invar w" "connections w' = connections w" "sock_tasks w' = sock_tasks w"
    and "length (listeners w') = length (listeners w)"
    and "\<And>l. someone_waits_on (SocketAcceptable l) (sock_tasks w) \<Longrightarrow> is_listening l w' \<Longrightarrow> is_listening l w"
  shows "sock_invar w'"
  using assms by (auto simp: sock_invar_def sockets_ok_def sock_justified_def)

lemma sock_invar_close_listener:
  assumes inv: "sock_invar w"
  shows "sock_invar (close_listener l w)"
proof (cases "l < length (listeners w) \<and> lis_in_use (listeners w ! l)")
  case True
  let ?w = "w\<lparr>listeners := (listeners w)[l := listener_empty], sk_listeners_released := sk_listeners_released w + 1\<rparr>"
  have "is_listening k w" if "is_listening k ?w" for k
    using that by (cases "k = l") (auto simp: is_listening_def listener_empty_def)
  then have "sock_invar ?w" by (intro sock_invar_listeners [OF inv]) auto
  then show ?thesis using True by (auto simp: close_listener_def Let_def intro!: sock_invar_close_ends)
qed (use inv in \<open>auto simp: close_listener_def\<close>)

lemma sock_invar_bind: "sock_invar w \<Longrightarrow> sock_invar (fst (bind name w))"
  unfolding bind_def
  by (auto split: option.splits intro!: sock_invar_listeners [of w] dest!: find_index_Some
      simp: is_listening_def nth_list_update listener_empty_def split: if_splits)

lemma sock_invar_listen:
  "sock_invar w \<Longrightarrow> \<not> someone_waits_on (SocketAcceptable l) (sock_tasks w) \<Longrightarrow> sock_invar (fst (listen l w))"
  unfolding listen_def
  by (auto intro!: sock_invar_listeners [of w] simp: is_listening_def nth_list_update split: if_splits)

lemma sock_invar_connect: "sock_invar w \<Longrightarrow> sock_invar (fst (connect name w))"
proof -
  assume inv: "sock_invar w"
  let ?L = "find_index (\<lambda>l. lis_in_use l \<and> listening l \<and> lis_name l = name) (listeners w)"
  let ?C = "find_index (\<lambda>c. \<not> conn_in_use c) (connections w)"
  show ?thesis
  proof (cases "?L = None \<or> ?C = None")
    case True
    then show ?thesis using inv
      by (auto simp: connect_def sock_invar_def sockets_ok_def sock_justified_def is_listening_def split: option.splits)
  next
    case False
    then obtain l i where l: "?L = Some l" and i: "?C = Some i" by auto
    let ?c = "connection_empty\<lparr>conn_in_use := True, conn_listener := l, is_open := (\<lambda>_. True)\<rparr>"
    have c: "conn_ok ?c" by (simp add: conn_ok_def connection_empty_def SOCKET_RING_def)
    have un: "\<not> conn_in_use (connections w ! i)" using find_index_Some [OF i] by simp
    have empty: "may_read ?c s" for s by (simp add: may_read_def connection_empty_def ring_empty_def)
    let ?t = "fst (wake_tasks_waiting_on (SocketAcceptable l) (sock_tasks w))"
    have t: "table_ok ?t" "\<And>on. someone_waits_on on ?t \<Longrightarrow> on \<noteq> SocketAcceptable l \<and> someone_waits_on on (sock_tasks w)"
      using table_ok_wake [OF sock_invar_table [OF inv]] someone_waits_wake [OF sock_invar_table [OF inv]] by auto
    show ?thesis
      by (rule sock_invar_update [OF inv c, where i = i])
         (use l i t un empty in \<open>auto simp: connect_def Let_def may_write_def is_pending_def\<close>)
  qed
qed

lemma sock_invar_accept: "sock_invar w \<Longrightarrow> k < TASK_COUNT \<Longrightarrow> sock_invar (fst (sys_accept_attempt k l w))"
proof -
  assume inv: "sock_invar w" and k: "k < TASK_COUNT"
  show ?thesis
  proof (cases "is_listening l w")
    case False
    then show ?thesis using inv by (simp add: sys_accept_attempt_def accept_def)
  next
    case True
    show ?thesis
    proof (cases "find_index (is_pending l) (connections w)")
      case None
      then have "\<not> list_ex (is_pending l) (connections w)" by (auto simp: find_index_None list_ex_iff)
      with True None show ?thesis
        by (intro sock_invar_wait [OF inv k, where ws = "[SocketAcceptable l]"])
           (auto simp: sys_accept_attempt_def accept_def waiting_single wait_justified_def acceptable_def)
    next
      case (Some i)
      then have i: "i < length (connections w)" "is_pending l (connections w ! i)" using find_index_Some by blast+
      have c: "conn_ok ((connections w ! i)\<lparr>accepted := True\<rparr>)"
        using sock_invar_conn [OF inv i(1)] i(2) by (auto simp: conn_ok_def is_pending_def)
      show ?thesis
        by (rule sock_invar_update [OF inv c, where i = i])
           (use True Some sock_invar_table [OF inv] in
             \<open>auto simp: sys_accept_attempt_def accept_def may_read_def may_write_def is_pending_def\<close>)
    qed
  qed
qed

lemma sock_invar_fd:
  "sock_invar w \<Longrightarrow> sock_invar (fst (queue_fd i s shm w))" "sock_invar w \<Longrightarrow> sock_invar (fst (take_fd i s w))"
proof -
  assume inv: "sock_invar w"
  let ?c = "connections w ! i"
  have c: "conn_ok (?c\<lparr>pending_fd := f\<rparr>)" if "i < length (connections w)" "conn_in_use ?c" for f
    using sock_invar_conn [OF inv that(1)] that(2) by (simp add: conn_ok_def)
  have t: "table_ok (fst (wake_tasks_waiting_on on (sock_tasks w)))"
    "\<And>x. someone_waits_on x (fst (wake_tasks_waiting_on on (sock_tasks w))) \<Longrightarrow> someone_waits_on x (sock_tasks w)" for on
    using table_ok_wake [OF sock_invar_table [OF inv]] someone_waits_wake [OF sock_invar_table [OF inv]] by auto
  show "sock_invar (fst (queue_fd i s shm w))"
  proof (cases "i < length (connections w) \<and> conn_in_use ?c \<and> pending_fd ?c (peer s) = None")
    case True
    then show ?thesis
      by (intro sock_invar_update [OF inv, where i = i and c = "?c\<lparr>pending_fd := (pending_fd ?c)(peer s := Some shm)\<rparr>"] c)
         (use t in \<open>auto simp: queue_fd_def Let_def may_read_def may_write_def is_pending_def\<close>)
  qed (use inv in \<open>auto simp: queue_fd_def Let_def\<close>)
  show "sock_invar (fst (take_fd i s w))"
  proof (cases "i < length (connections w) \<and> conn_in_use ?c")
    case True
    then show ?thesis
      by (intro sock_invar_update [OF inv, where i = i and c = "?c\<lparr>pending_fd := (pending_fd ?c)(s := None)\<rparr>"] c)
         (use sock_invar_table [OF inv] in \<open>auto simp: take_fd_def Let_def may_read_def may_write_def is_pending_def\<close>)
  qed (use inv in \<open>auto simp: take_fd_def Let_def\<close>)
qed

subsection \<open>Steps of the system on the sockets\<close>

text \<open>Any task may make any call on any index, whether or not the index still names a live listener
  or connection, and may poll any set of descriptors. One restriction remains: \<open>listen\<close> is called
  when no task waits to accept on that listener. A listener has exactly one descriptor, so the only
  task that could wait on it is the one that makes the call.\<close>

inductive sock_step :: "socket_world \<Rightarrow> socket_world \<Rightarrow> bool" where
  st_bind: "sock_step w (fst (bind name w))"
| st_listen: "\<not> someone_waits_on (SocketAcceptable l) (sock_tasks w) \<Longrightarrow> sock_step w (fst (listen l w))"
| st_connect: "sock_step w (fst (connect name w))"
| st_accept: "k < TASK_COUNT \<Longrightarrow> sock_step w (fst (sys_accept_attempt k l w))"
| st_read: "k < TASK_COUNT \<Longrightarrow> sock_step w (fst (read_from_socket k i s count w))"
| st_recv_wait: "k < TASK_COUNT \<Longrightarrow> sock_step w (wait_until_readable k i s w)"
| st_write: "k < TASK_COUNT \<Longrightarrow> sock_step w (fst (write_to_socket k i s data w))"
| st_poll: "k < TASK_COUNT \<Longrightarrow> list_all poll_reason reasons \<Longrightarrow>
    sock_step w (fst (poll_attempt k input may_wait reasons timeout w))"
| st_queue_fd: "sock_step w (fst (queue_fd i s shm w))"
| st_take_fd: "sock_step w (fst (take_fd i s w))"
| st_close: "sock_step w (close_end i s w)"
| st_close_listener: "sock_step w (close_listener l w)"
| st_wake: "sock_step w (sock_wake on w)"

lemma sock_invar_step: "sock_step w w' \<Longrightarrow> sock_invar w \<Longrightarrow> sock_invar w'"
proof (induction rule: sock_step.induct)
  case (st_wake w on)
  note t = sock_invar_table [OF st_wake]
  have "someone_waits_on x (sock_tasks (sock_wake on w)) \<Longrightarrow> someone_waits_on x (sock_tasks w)" for x
    using someone_waits_wake [OF t] by simp
  then show ?case
    using st_wake table_ok_wake [OF t, of on]
    unfolding sock_invar_def sockets_ok_def sock_justified_def is_listening_def sock_wake_simps by blast
qed (auto intro: sock_invar_bind sock_invar_listen sock_invar_connect sock_invar_accept sock_invar_read_call
    sock_invar_wait_readable sock_invar_poll sock_invar_write_call sock_invar_fd sock_invar_close_end sock_invar_close_listener)

definition socket_world_init :: socket_world where
  "socket_world_init = \<lparr>listeners = [listener_empty], connections = [connection_empty, connection_empty],
     sock_tasks = sample_table\<lparr>tt_states := replicate 6 Ready\<rparr>,
     sk_bound = 0, sk_bind_refused = 0, sk_listeners_released = 0, sk_connections_created = 0,
     sk_connections_at_once_max = 0, sk_connections_released = 0, sk_connect_refused = 0,
     sk_connect_backlog_full = 0, sk_accept_waits = 0, sk_poll_waits = 0, sk_reader_waits = 0, sk_readers_woken_by_write = 0,
     sk_writer_waits = 0, sk_writers_woken_by_read = 0, sk_epipe_seen = 0, sk_eof_seen = 0\<rparr>"

lemma nobody_waits_init: "\<not> someone_waits_on on (sock_tasks socket_world_init)"
  by (auto simp: someone_waits_on_def socket_world_init_def list_ex_iff waits_on_def task_constants)

lemma sock_tasks_bind [simp]: "sock_tasks (fst (bind name w)) = sock_tasks w"
  by (simp add: bind_def split: option.splits)

lemma sock_invar_init: "sock_invar socket_world_init"
proof -
  show ?thesis using nobody_waits_init
    by (simp add: sock_invar_def sock_justified_def sockets_ok_def socket_world_init_def MAX_LISTENERS_def
        MAX_CONNECTIONS_def table_ok_def task_constants)
qed

lemma sock_invar_reachable: "sock_step\<^sup>*\<^sup>* socket_world_init w \<Longrightarrow> sock_invar w"
  by (induction rule: rtranclp_induct) (auto intro: sock_invar_init sock_invar_step)

text \<open>C30: in every reachable state, however the socket calls and \<open>poll\<close> are interleaved and even with
  descriptors whose listener or connection is gone, a task waits on a connection for input only while
  \<open>poll\<close> and \<open>read\<close> would find nothing there (no byte has arrived and the peer is open, or the
  connection no longer exists), waits to write only while the peer is open and its ring is full, and
  waits on a listener only while it has no connection to accept: no wake-up is lost. (\<open>listen\<close> comes
  from the one holder of the listener, who does not wait at that moment.)\<close>

theorem no_lost_wakeup_on_sockets:
  assumes "sock_step\<^sup>*\<^sup>* socket_world_init w"
  shows "(someone_waits_on (SocketReadable i s) (sock_tasks w) \<longrightarrow>
       \<not> readable i s w \<and> (\<forall>k. snd (sock_read_into i s k w) \<in> {SREmpty, SRNoConnection})) \<and>
    (someone_waits_on (SocketWritable i s) (sock_tasks w) \<longrightarrow>
       i < length (connections w) \<and> conn_in_use (connections w ! i) \<and>
       ring_room (rings (connections w ! i) (peer s)) = 0 \<and> is_open (connections w ! i) (peer s)) \<and>
    (someone_waits_on (SocketAcceptable l) (sock_tasks w) \<longrightarrow>
       \<not> acceptable l w \<and> snd (accept l w) \<in> {AcceptEmpty, AcceptNoListener})"
proof -
  have inv: "sock_invar w" by (rule sock_invar_reachable [OF assms])
  then have j: "sock_justified w" by (simp add: sock_invar_def)
  have len: "length (ring_buf (rings (connections w ! i) (peer s))) = SOCKET_RING" if "i < length (connections w)"
    using conn_ok_ring [OF sock_invar_conn [OF inv that]] by (simp add: ring_invar_def)
  have rd: "snd (sock_read_into i s k w) \<in> {SREmpty, SRNoConnection}" if "\<not> readable i s w" for k
    using that by (auto simp: readable_def sock_read_into_def Let_def split: if_splits)
  have ac: "snd (accept l w) \<in> {AcceptEmpty, AcceptNoListener}" if "\<not> acceptable l w"
    using that find_index_Some [of "is_pending l" "connections w"]
    by (auto simp: acceptable_def accept_def list_ex_length split: option.splits)
  have "\<not> readable i s w" if "someone_waits_on (SocketReadable i s) (sock_tasks w)"
    using j that unfolding sock_justified_def not_readable by blast
  moreover have "i < length (connections w) \<and> may_write (connections w ! i) s"
    if "someone_waits_on (SocketWritable i s) (sock_tasks w)" using j that unfolding sock_justified_def by blast
  moreover have "\<not> acceptable l w" if "someone_waits_on (SocketAcceptable l) (sock_tasks w)"
    using j that unfolding sock_justified_def acceptable_def by blast
  ultimately show ?thesis using rd ac len by (auto simp: may_write_def ring_room_def)
qed

theorem no_lost_wakeup_on_sockets_witness:
  "\<exists>w. sock_step\<^sup>*\<^sup>* socket_world_init w \<and> someone_waits_on (SocketAcceptable 0) (sock_tasks w) \<and> \<not> acceptable 0 w \<and>
     someone_waits_on (SocketReadable 0 Client) (sock_tasks w) \<and> \<not> readable 0 Client w"
proof -
  let ?w1 = "fst (bind [97] socket_world_init)"
  let ?w2 = "fst (listen 0 ?w1)"
  let ?w3 = "fst (sys_accept_attempt 0 0 ?w2)"
  let ?w4 = "fst (poll_attempt 1 False True [Keyboard, SocketReadable 0 Client] (- 1) ?w3)"
  have "sock_step socket_world_init ?w1" by (rule st_bind)
  moreover have "sock_step ?w1 ?w2" by (rule st_listen) (simp add: nobody_waits_init)
  moreover have "sock_step ?w2 ?w3" by (rule st_accept) (simp add: task_constants)
  moreover have "sock_step ?w3 ?w4" by (rule st_poll) (simp_all add: task_constants poll_reason_def)
  ultimately have run: "sock_step\<^sup>*\<^sup>* socket_world_init ?w4" by (meson r_into_rtranclp rtranclp_trans)
  have "someone_waits_on (SocketAcceptable 0) (sock_tasks ?w4)" by code_simp
  moreover have "someone_waits_on (SocketReadable 0 Client) (sock_tasks ?w4)" by code_simp
  ultimately show ?thesis using no_lost_wakeup_on_sockets [OF run] run by blast
qed

text \<open>C31: each direction of a connection is a byte stream: a write appends what it accepted to the
  bytes in flight to the peer and touches nothing else; a read takes its bytes from the front of
  those in flight to it and touches nothing else.\<close>

theorem socket_directions_are_streams:
  assumes "sock_invar w" "i < length (connections w)"
  shows "(\<forall>src w' r. sock_write_from i s src w = (w', r) \<longrightarrow>
      ring_contents (rings (connections w' ! i) (peer s)) =
        ring_contents (rings (connections w ! i) (peer s)) @ (case r of SWBytes n \<Rightarrow> take n src | _ \<Rightarrow> []) \<and>
      rings (connections w' ! i) s = rings (connections w ! i) s) \<and>
    (\<forall>k w' r. sock_read_into i s k w = (w', r) \<longrightarrow>
      ring_contents (rings (connections w ! i) s) =
        (case r of SRBytes bs \<Rightarrow> bs | _ \<Rightarrow> []) @ ring_contents (rings (connections w' ! i) s) \<and>
      rings (connections w' ! i) (peer s) = rings (connections w ! i) (peer s))"
proof -
  let ?c = "connections w ! i"
  have ok: "conn_ok ?c" by (rule sock_invar_conn [OF assms])
  show ?thesis
  proof (intro conjI allI impI)
    fix src w' r
    assume wr: "sock_write_from i s src w = (w', r)"
    obtain q n where g: "ring_put (rings ?c (peer s)) src = (q, n)" by fastforce
    have law: "ring_contents q = ring_contents (rings ?c (peer s)) @ take n src"
      using ring.put_law [OF conn_ok_ring [OF ok] g] by simp
    show "ring_contents (rings (connections w' ! i) (peer s)) =
        ring_contents (rings ?c (peer s)) @ (case r of SWBytes n \<Rightarrow> take n src | _ \<Rightarrow> [])"
      using wr g law assms(2) by (auto simp: sock_write_from_def Let_def split: if_splits prod.splits)
    show "rings (connections w' ! i) s = rings ?c s"
      using wr g assms(2) by (auto simp: sock_write_from_def Let_def split: if_splits prod.splits)
  next
    fix k w' r
    assume rd: "sock_read_into i s k w = (w', r)"
    obtain q bs where g: "ring_take (rings ?c s) k = (q, bs)" by fastforce
    have law: "ring_contents (rings ?c s) = bs @ ring_contents q"
      using ring.get_law [OF conn_ok_ring [OF ok] g] by simp
    show "ring_contents (rings ?c s) =
        (case r of SRBytes bs \<Rightarrow> bs | _ \<Rightarrow> []) @ ring_contents (rings (connections w' ! i) s)"
      using rd g law assms(2) by (auto simp: sock_read_into_def Let_def split: if_splits prod.splits)
    show "rings (connections w' ! i) (peer s) = rings ?c (peer s)"
      using rd g assms(2) by (auto simp: sock_read_into_def Let_def split: if_splits prod.splits)
  qed
qed

definition connected_world :: socket_world where
  "connected_world = fst (connect [97] (fst (listen 0 (fst (bind [97] socket_world_init)))))"

lemma sock_invar_connected: "sock_invar connected_world"
  unfolding connected_world_def by (intro sock_invar_connect sock_invar_listen sock_invar_bind sock_invar_init)
    (simp add: nobody_waits_init)

theorem socket_directions_are_streams_witness:
  "ring_contents (rings (connections (fst (sock_write_from 0 Client [7, 8] connected_world)) ! 0) Server) = [7, 8]"
proof -
  have len: "0 < length (connections connected_world)" by code_simp
  have s: "snd (sock_write_from 0 Client [7, 8] connected_world) = SWBytes 2" by code_simp
  have e: "ring_contents (rings (connections connected_world ! 0) Server) = []" by code_simp
  obtain w' r where "sock_write_from 0 Client [7, 8] connected_world = (w', r)" by fastforce
  with socket_directions_are_streams [OF sock_invar_connected len, of Client] s e show ?thesis by auto
qed

text \<open>A listener's slot that is bound again accepts a connection that belonged to the previous
  listener and whose server end is already closed: closing a listener closes the server end of the
  connections pending on it but leaves them pending.\<close>

theorem accept_returns_connection_of_closed_listener:
  "let w1 = close_listener 0 connected_world;
       w2 = fst (listen 0 (fst (bind [98] w1)));
       (w3, r) = accept 0 w2
   in r = Connection 0 \<and> \<not> is_open (connections w3 ! 0) Server \<and> is_open (connections w3 ! 0) Client"
  by code_simp

end
