(* ===== verification/Shm.thy ===== *)
theory Shm
  imports Frame_Allocator Socket "HOL-Library.Multiset"
begin

text \<open>
  Shared memory objects (\<open>kernel/src/shm.rs\<close>): frames taken from the lent frame allocator, a count
  of the descriptors that refer to the object, and the return of the frames with the last of them;
  with the part of \<open>sendmsg\<close> that passes such a descriptor over a socket
  (\<open>kernel/src/syscall.rs\<close>).

  The world holds the object table, the lending slot of the allocator and the physical memory that
  \<open>set_size\<close> clears through the direct map (a function of the physical address). An operation
  yields \<open>None\<close> where the allocator would panic; \<open>shm_invar\<close> excludes that.
\<close>

subsection \<open>State\<close>

definition PAGE_SIZE :: nat where "PAGE_SIZE = 4096"
definition MAX_SHM :: nat where "MAX_SHM = 2"
definition MAX_SHM_PAGES :: nat where "MAX_SHM_PAGES = 8"

record shm =
  shm_in_use :: bool
  shm_frames :: "phys_addr list"
  shm_pages :: nat
  shm_len :: nat
  shm_refs :: nat

definition shm_empty :: shm where
  "shm_empty = \<lparr>shm_in_use = False, shm_frames = replicate MAX_SHM_PAGES (PhysAddr 0),
                shm_pages = 0, shm_len = 0, shm_refs = 0\<rparr>"

record shm_world =
  shms :: "shm list"
  shm_lending :: lending
  phys_mem :: "nat \<Rightarrow> u8"
  shm_created :: u64
  shm_released :: u64
  shm_mapped_pages :: u64
  fds_sent :: u64
  fds_received :: u64
  shared_frames_held :: u64

abbreviation set_shm :: "nat \<Rightarrow> shm \<Rightarrow> shm_world \<Rightarrow> shm_world" where
  "set_shm i s w \<equiv> w\<lparr>shms := (shms w)[i := s]\<rparr>"

definition note_fd_sent :: "shm_world \<Rightarrow> shm_world" where
  "note_fd_sent w = w\<lparr>fds_sent := fds_sent w + 1\<rparr>"

definition note_fd_received :: "shm_world \<Rightarrow> shm_world" where
  "note_fd_received w = w\<lparr>fds_received := fds_received w + 1\<rparr>"

definition note_mapped_page :: "shm_world \<Rightarrow> shm_world" where
  "note_mapped_page w = w\<lparr>shm_mapped_pages := shm_mapped_pages w + 1\<rparr>"

subsection \<open>Operations\<close>

definition shm_create :: "shm_world \<Rightarrow> shm_world \<times> nat option" where
  "shm_create w =
     (case find_index (\<lambda>s. \<not> shm_in_use s) (shms w) of
        None \<Rightarrow> (w, None)
      | Some index \<Rightarrow>
          ((set_shm index (shm_empty\<lparr>shm_in_use := True, shm_refs := 1\<rparr>) w)
             \<lparr>shm_created := shm_created w + 1\<rparr>, Some index))"

datatype truncate_outcome = Pages nat | TooLarge | AlreadySet | NoRoom | NoShm

definition pages_for :: "nat \<Rightarrow> nat" where
  "pages_for sz = div_ceil sz PAGE_SIZE"

definition zero_frame :: "phys_addr \<Rightarrow> (nat \<Rightarrow> u8) \<Rightarrow> nat \<Rightarrow> u8" where
  "zero_frame p mem = (\<lambda>a. if unat (phys_raw p) \<le> a \<and> a < unat (phys_raw p) + PAGE_SIZE then 0 else mem a)"

text \<open>The loop that takes the frames: the frames taken so far, the allocator, the memory.\<close>

fun take_frames_loop ::
  "nat \<Rightarrow> frame_allocator \<Rightarrow> (nat \<Rightarrow> u8) \<Rightarrow> phys_addr list \<Rightarrow> frame_allocator \<times> (nat \<Rightarrow> u8) \<times> phys_addr list" where
  "take_frames_loop 0 fa mem taken = (fa, mem, taken)"
| "take_frames_loop (Suc missing) fa mem taken =
     (case allocate_frame fa of
        (fa', None) \<Rightarrow> (fa', mem, taken)
      | (fa', Some frame) \<Rightarrow> take_frames_loop missing fa' (zero_frame frame mem) (taken @ [frame]))"

text \<open>\<open>for frame in frames { let _ = allocator.deallocate_frame(*frame); }\<close>: an error is dropped.\<close>

fun give_loop :: "frame_allocator \<Rightarrow> phys_addr list \<Rightarrow> frame_allocator option" where
  "give_loop fa [] = Some fa"
| "give_loop fa (p # ps) =
     (case deallocate_frame DEFAULT_CAPACITY fa p of
        Ok fa' \<Rightarrow> give_loop fa' ps
      | Err _ \<Rightarrow> give_loop fa ps
      | Panic \<Rightarrow> None)"

definition shm_set_size :: "nat \<Rightarrow> nat \<Rightarrow> shm_world \<Rightarrow> (shm_world \<times> truncate_outcome) option" where
  "shm_set_size index sz w =
     (if MAX_SHM \<le> index \<or> \<not> shm_in_use (shms w ! index) then Some (w, NoShm)
      else if shm_pages (shms w ! index) \<noteq> 0 then Some (w, AlreadySet)
      else let want = pages_for sz in
           if MAX_SHM_PAGES < want then Some (w, TooLarge)
           else case take_allocator (shm_lending w) of
                  (l, None) \<Rightarrow> Some (w\<lparr>shm_lending := l\<rparr>, NoRoom)
                | (l, Some fa) \<Rightarrow>
                    (case take_frames_loop want fa (phys_mem w) [] of
                       (fa1, mem, taken) \<Rightarrow>
                         if length taken < want then
                           map_option (\<lambda>fa2. (w\<lparr>shm_lending := give_back l fa2, phys_mem := mem\<rparr>, NoRoom))
                             (give_loop fa1 taken)
                         else
                           let s = shms w ! index in
                           Some ((set_shm index (s\<lparr>shm_frames := taken @ drop want (shm_frames s),
                                                    shm_pages := want, shm_len := sz\<rparr>) w)
                                   \<lparr>shm_lending := give_back l fa1, phys_mem := mem,
                                    shared_frames_held := shared_frames_held w + of_nat want\<rparr>, Pages want)))"

definition shm_frames_of :: "nat \<Rightarrow> shm_world \<Rightarrow> (phys_addr list \<times> nat) option" where
  "shm_frames_of index w =
     (if MAX_SHM \<le> index \<or> \<not> shm_in_use (shms w ! index) \<or> shm_pages (shms w ! index) = 0 then None
      else let s = shms w ! index in Some (take (shm_pages s) (shm_frames s), shm_len s))"

definition shm_attach :: "nat \<Rightarrow> shm_world \<Rightarrow> shm_world \<times> bool" where
  "shm_attach index w =
     (if MAX_SHM \<le> index \<or> \<not> shm_in_use (shms w ! index) then (w, False)
      else let s = shms w ! index in
           (set_shm index (s\<lparr>shm_refs := min (shm_refs s + 1) (2 ^ 32 - 1)\<rparr>) w, True))"

definition shm_detach :: "nat \<Rightarrow> shm_world \<Rightarrow> shm_world option" where
  "shm_detach index w =
     (if MAX_SHM \<le> index \<or> \<not> shm_in_use (shms w ! index) then Some w
      else let s = (shms w ! index)\<lparr>shm_refs := shm_refs (shms w ! index) - 1\<rparr> in
           if shm_refs s \<noteq> 0 then Some (set_shm index s w)
           else let w1 = set_shm index shm_empty w;
                    done_with = (\<lambda>w. w\<lparr>shm_released := shm_released w + 1\<rparr>)
                in if shm_pages s = 0 then Some (done_with w1)
                   else let held = shared_frames_held w1 - of_nat (shm_pages s) in
                        case take_allocator (shm_lending w1) of
                          (l, None) \<Rightarrow> Some (done_with (w1\<lparr>shm_lending := l, shared_frames_held := held\<rparr>))
                        | (l, Some fa) \<Rightarrow>
                            map_option (\<lambda>fa1. done_with (w1\<lparr>shm_lending := give_back l fa1, shared_frames_held := held\<rparr>))
                              (give_loop fa (take (shm_pages s) (shm_frames s))))"

text \<open>The descriptor half of \<open>sendmsg\<close>: queue it at the peer, then count the reference in flight.\<close>

definition sendmsg_fd :: "nat \<Rightarrow> side \<Rightarrow> nat \<Rightarrow> socket_world \<times> shm_world \<Rightarrow> (socket_world \<times> shm_world) \<times> bool" where
  "sendmsg_fd conn s shm = (\<lambda>(sw, mw).
     case queue_fd conn s shm sw of
       (sw1, False) \<Rightarrow> ((sw1, mw), False)
     | (sw1, True) \<Rightarrow> ((sw1, note_fd_sent (fst (shm_attach shm mw))), True))"

subsection \<open>The two loops\<close>

lemma take_frames_loop_spec:
  assumes "fa_invar cap fa" "take_frames_loop n fa mem taken = (fa', mem', out)"
  shows "\<exists>ps. out = taken @ ps \<and> length ps \<le> n \<and> fa_invar cap fa' \<and> distinct (map frame_number ps) \<and>
           frame_number ` set ps \<subseteq> free_frames fa \<and>
           free_frames fa' \<subseteq> free_frames fa - frame_number ` set ps \<and>
           (free_frames fa \<subseteq> {..< 2 ^ 40} \<longrightarrow>
              free_frames fa' = free_frames fa - frame_number ` set ps \<and> (length ps < n \<longrightarrow> free_frames fa' = {}))"
  using assms
proof (induction n fa mem taken rule: take_frames_loop.induct)
  case (1 fa mem taken)
  then show ?case by simp
next
  case (2 n fa mem taken)
  obtain fa1 r where al: "allocate_frame fa = (fa1, r)" by (cases "allocate_frame fa")
  show ?case
  proof (cases r)
    case None
    have inv: "fa_invar cap fa1 \<and> free_frames fa1 \<subseteq> free_frames fa"
    proof (cases "free_frames fa = {}")
      case True
      with allocate_frame_empty [OF True "2.prems"(1)] al "2.prems"(1) show ?thesis by simp
    next
      case False
      show ?thesis by (rule allocate_frame_spec [OF "2.prems"(1) False]) (use al in auto)
    qed
    have "free_frames fa \<subseteq> {..< 2 ^ 40} \<longrightarrow> fa1 = fa \<and> free_frames fa = {}"
      using fa.alloc_None [OF "2.prems"(1)] al None by simp
    with inv "2.prems" al None show ?thesis by auto
  next
    case (Some p)
    have s: "fa_invar cap fa1" "frame_number p \<in> free_frames fa" "free_frames fa1 = free_frames fa - {frame_number p}"
      using fa.alloc_Some [OF "2.prems"(1), of fa1 p] al Some by auto
    from "2.prems"(2) al Some have "take_frames_loop n fa1 (zero_frame p mem) (taken @ [p]) = (fa', mem', out)" by simp
    from "2.IH" [OF al [symmetric] Some s(1) this] obtain ps where
      ps: "out = (taken @ [p]) @ ps" "length ps \<le> n" "fa_invar cap fa'" "distinct (map frame_number ps)"
        "frame_number ` set ps \<subseteq> free_frames fa1" "free_frames fa' \<subseteq> free_frames fa1 - frame_number ` set ps"
        "free_frames fa1 \<subseteq> {..< 2 ^ 40} \<longrightarrow>
           free_frames fa' = free_frames fa1 - frame_number ` set ps \<and> (length ps < n \<longrightarrow> free_frames fa' = {})"
      by blast
    show ?thesis
      by (rule exI [of _ "p # ps"]) (use ps s in auto)
  qed
qed

definition frame_is_zero :: "(nat \<Rightarrow> u8) \<Rightarrow> phys_addr \<Rightarrow> bool" where
  "frame_is_zero mem p \<longleftrightarrow> (\<forall>i \<in> {..< PAGE_SIZE}. mem (unat (phys_raw p) + i) = 0)"

lemma zero_frame_zeroes: "frame_is_zero (zero_frame p mem) p"
  by (auto simp: frame_is_zero_def zero_frame_def)

lemma zero_frame_keeps: "frame_is_zero mem q \<Longrightarrow> frame_is_zero (zero_frame p mem) q"
  by (auto simp: frame_is_zero_def zero_frame_def)

lemma take_frames_loop_zeroed:
  "take_frames_loop n fa mem taken = (fa', mem', out) \<Longrightarrow> \<forall>p \<in> set taken. frame_is_zero mem p \<Longrightarrow>
   \<forall>p \<in> set out. frame_is_zero mem' p"
  by (induction n fa mem taken rule: take_frames_loop.induct)
    (auto split: prod.splits option.splits simp: zero_frame_zeroes zero_frame_keeps)

lemma give_loop_spec:
  assumes "fa_invar DEFAULT_CAPACITY fa" "distinct (map frame_number ps)" "frame_number ` set ps \<inter> free_frames fa = {}"
  shows "\<exists>fa'. give_loop fa ps = Some fa' \<and> fa_invar DEFAULT_CAPACITY fa' \<and>
           free_frames fa' \<subseteq> free_frames fa \<union> frame_number ` set ps \<and>
           (length (fa_ranges fa) + length ps \<le> DEFAULT_CAPACITY \<longrightarrow>
              free_frames fa' = free_frames fa \<union> frame_number ` set ps)"
  using assms
proof (induction fa ps rule: give_loop.induct)
  case (1 fa)
  then show ?case by simp
next
  case (2 fa p ps)
  have d: "case deallocate_frame DEFAULT_CAPACITY fa p of
           Ok fa' \<Rightarrow> fa_invar DEFAULT_CAPACITY fa' \<and> free_frames fa' = insert (frame_number p) (free_frames fa)
         | Err e \<Rightarrow> length (fa_ranges fa) = DEFAULT_CAPACITY
         | Panic \<Rightarrow> False"
    using "2.prems" by (intro deallocate_frame_spec) auto
  show ?case
  proof (cases "deallocate_frame DEFAULT_CAPACITY fa p")
    case (Ok fa1)
    have len: "length (fa_ranges fa1) \<le> length (fa_ranges fa) + 1"
      using Ok by (rule deallocate_frame_ranges)
    have "frame_number ` set ps \<inter> free_frames fa1 = {}" using d Ok "2.prems" by auto
    moreover have "fa_invar DEFAULT_CAPACITY fa1" "free_frames fa1 = insert (frame_number p) (free_frames fa)"
      using d Ok by simp_all
    moreover have "distinct (map frame_number ps)" using "2.prems" by simp
    ultimately obtain fa' where fa': "give_loop fa1 ps = Some fa'" "fa_invar DEFAULT_CAPACITY fa'"
      "free_frames fa' \<subseteq> insert (frame_number p) (free_frames fa) \<union> frame_number ` set ps"
      "length (fa_ranges fa1) + length ps \<le> DEFAULT_CAPACITY \<Longrightarrow>
         free_frames fa' = insert (frame_number p) (free_frames fa) \<union> frame_number ` set ps"
      using "2.IH"(1) [OF Ok] by auto
    show ?thesis by (rule exI [of _ fa']) (use fa' len Ok in auto)
  next
    case (Err e)
    obtain fa' where fa': "give_loop fa ps = Some fa'" "fa_invar DEFAULT_CAPACITY fa'"
      "free_frames fa' \<subseteq> free_frames fa \<union> frame_number ` set ps"
      using "2.IH"(2) [OF Err] "2.prems" by auto
    show ?thesis by (rule exI [of _ fa']) (use fa' Err d in auto)
  next
    case Panic
    with d show ?thesis by simp
  qed
qed

subsection \<open>Ownership of frames\<close>

text \<open>\<open>held\<close> is the set of frames that other parts of the kernel have taken from the allocator.\<close>

definition pool_ok :: "frame_allocator \<Rightarrow> phys_addr list \<Rightarrow> phys_addr set \<Rightarrow> bool" where
  "pool_ok fa shared held \<longleftrightarrow> fa_invar DEFAULT_CAPACITY fa \<and> distinct (map frame_number shared) \<and>
     inj_on frame_number held \<and> free_frames fa \<inter> frame_number ` set shared = {} \<and>
     free_frames fa \<inter> frame_number ` held = {} \<and> frame_number ` set shared \<inter> frame_number ` held = {}"

definition shared_pages :: "shm \<Rightarrow> phys_addr list" where
  "shared_pages s = take (shm_pages s) (shm_frames s)"

definition shared_list :: "shm_world \<Rightarrow> phys_addr list" where
  "shared_list w = concat (map shared_pages (shms w))"

definition shm_slot_ok :: "shm \<Rightarrow> bool" where
  "shm_slot_ok s \<longleftrightarrow> length (shm_frames s) = MAX_SHM_PAGES \<and> shm_pages s \<le> MAX_SHM_PAGES \<and>
     (if shm_in_use s then 0 < shm_refs s else s = shm_empty)"

definition shm_invar :: "shm_world \<times> phys_addr set \<Rightarrow> bool" where
  "shm_invar = (\<lambda>(w, held). length (shms w) = MAX_SHM \<and> list_all shm_slot_ok (shms w) \<and>
     pool_ok (lend_storage (shm_lending w)) (shared_list w) held \<and>
     shared_frames_held w = of_nat (length (shared_list w)))"

lemma shared_pages_empty [simp]: "shared_pages shm_empty = []"
  by (simp add: shared_pages_def shm_empty_def)

lemma shm_pages_empty [simp]: "shm_pages shm_empty = 0"
  by (simp add: shm_empty_def)

lemma shared_pages_simps [simp]:
  "shared_pages (s\<lparr>shm_refs := r\<rparr>) = shared_pages s" "shm_pages s = 0 \<Longrightarrow> shared_pages s = []"
  by (simp_all add: shared_pages_def)

lemma shm_slot_ok_empty [simp]: "shm_slot_ok shm_empty"
  by (simp add: shm_slot_ok_def shm_empty_def)

lemma length_shared_pages [simp]: "shm_slot_ok s \<Longrightarrow> length (shared_pages s) = shm_pages s"
  by (auto simp: shm_slot_ok_def shared_pages_def)

text \<open>The table around one slot.\<close>

lemma shared_list_update:
  assumes "index < length (shms w)" "shms w' = (shms w)[index := s]"
  shows "\<exists>xs ys. shared_list w = xs @ shared_pages (shms w ! index) @ ys \<and> shared_list w' = xs @ shared_pages s @ ys"
proof -
  have "shms w = take index (shms w) @ shms w ! index # drop (index + 1) (shms w)"
    using assms(1) by (simp add: id_take_nth_drop)
  moreover have "shms w' = take index (shms w) @ s # drop (index + 1) (shms w)"
    using assms by (simp add: upd_conv_take_nth_drop)
  ultimately have "shared_list w = concat (map shared_pages (take index (shms w))) @ shared_pages (shms w ! index) @
      concat (map shared_pages (drop (index + 1) (shms w)))"
    "shared_list w' = concat (map shared_pages (take index (shms w))) @ shared_pages s @
      concat (map shared_pages (drop (index + 1) (shms w)))"
    unfolding shared_list_def by (metis concat.simps(2) concat_append list.simps(9) map_append)+
  then show ?thesis by blast
qed

lemma pool_ok_mset: "pool_ok fa xs held \<Longrightarrow> mset xs = mset ys \<Longrightarrow> pool_ok fa ys held"
  unfolding pool_ok_def by (metis mset_eq_imp_distinct_iff mset_map set_mset_mset)

lemma append_sets:
  fixes F :: "'a set"
  shows "P \<inter> S = {} \<and> F \<inter> (P \<union> S) = {} \<and> F \<inter> H = {} \<and> (P \<union> S) \<inter> H = {} \<longleftrightarrow>
         F \<inter> S = {} \<and> F \<inter> H = {} \<and> S \<inter> H = {} \<and> P \<inter> (F \<union> S \<union> H) = {}"
  by blast

lemma pool_ok_append:
  "pool_ok fa (ps @ shared) held \<longleftrightarrow> pool_ok fa shared held \<and> distinct (map frame_number ps) \<and>
     frame_number ` set ps \<inter> (free_frames fa \<union> frame_number ` set shared \<union> frame_number ` held) = {}"
  unfolding pool_ok_def map_append distinct_append set_append image_Un set_map
  using append_sets [of "frame_number ` set ps" "frame_number ` set shared" "free_frames fa" "frame_number ` held"]
  by argo

lemma taken_sets:
  fixes F :: "'a set"
  assumes "F' \<subseteq> F - P" "P \<subseteq> F" "F \<inter> S = {}" "F \<inter> H = {}"
  shows "F' \<inter> S = {}" "F' \<inter> H = {}" "P \<inter> (F' \<union> S \<union> H) = {}"
  using assms by blast+

lemma given_sets:
  fixes F :: "'a set"
  assumes "F' \<subseteq> F \<union> P" "P \<inter> (F \<union> S \<union> H) = {}" "F \<inter> S = {}" "F \<inter> H = {}"
  shows "F' \<inter> S = {}" "F' \<inter> H = {}" "P \<inter> F = {}"
  using assms by blast+

lemma handed_sets:
  fixes F :: "'a set"
  assumes "x \<in> F" "F \<inter> S = {}" "F \<inter> H = {}"
  shows "x \<notin> H" "x \<notin> S" "(F - {x}) \<inter> S = {}" "(F - {x}) \<inter> insert x H = {}"
  using assms by blast+

lemma returned_sets:
  fixes F :: "'a set"
  assumes "x \<in> H" "F \<inter> S = {}" "F \<inter> H = {}" "S \<inter> H = {}"
  shows "x \<notin> F" "insert x F \<inter> S = {}" "insert x F \<inter> (H - {x}) = {}" "S \<inter> (H - {x}) = {}"
  using assms by blast+

lemma pool_ok_take:
  assumes "pool_ok fa shared held" "take_frames_loop n fa mem [] = (fa', mem', ps)"
  shows "pool_ok fa' (ps @ shared) held" "length ps \<le> n"
proof -
  have "fa_invar DEFAULT_CAPACITY fa" using assms(1) by (simp add: pool_ok_def)
  from take_frames_loop_spec [OF this assms(2)] have t: "length ps \<le> n" "fa_invar DEFAULT_CAPACITY fa'"
    "distinct (map frame_number ps)" "frame_number ` set ps \<subseteq> free_frames fa"
    "free_frames fa' \<subseteq> free_frames fa - frame_number ` set ps" by auto
  then show "length ps \<le> n" by simp
  have f: "free_frames fa \<inter> frame_number ` set shared = {}" "free_frames fa \<inter> frame_number ` held = {}"
    using assms(1) by (simp_all add: pool_ok_def)
  show "pool_ok fa' (ps @ shared) held"
    using t(2,3) assms(1) taken_sets [OF t(5,4) f] unfolding pool_ok_append unfolding pool_ok_def by argo
qed

lemma pool_ok_drop: "pool_ok fa (ps @ shared) held \<Longrightarrow> pool_ok fa shared held"
  by (simp add: pool_ok_append)

lemma pool_ok_parts:
  assumes "pool_ok fa (ps @ shared) held"
  shows "fa_invar DEFAULT_CAPACITY fa" "distinct (map frame_number ps)" "frame_number ` set ps \<inter> free_frames fa = {}"
proof -
  have ok: "pool_ok fa shared held" "distinct (map frame_number ps)"
    and d: "frame_number ` set ps \<inter> (free_frames fa \<union> frame_number ` set shared \<union> frame_number ` held) = {}"
    using assms unfolding pool_ok_append by simp_all
  then show "fa_invar DEFAULT_CAPACITY fa" "distinct (map frame_number ps)" by (simp_all add: pool_ok_def)
  have "free_frames fa \<inter> frame_number ` set shared = {}" "free_frames fa \<inter> frame_number ` held = {}"
    using ok(1) by (simp_all add: pool_ok_def)
  from given_sets(3) [OF subset_refl d this] show "frame_number ` set ps \<inter> free_frames fa = {}" .
qed

lemma pool_ok_give:
  assumes "pool_ok fa (ps @ shared) held"
  obtains fa' where "give_loop fa ps = Some fa'" "pool_ok fa' shared held"
proof -
  have ok: "pool_ok fa shared held" "distinct (map frame_number ps)"
    and d: "frame_number ` set ps \<inter> (free_frames fa \<union> frame_number ` set shared \<union> frame_number ` held) = {}"
    using assms unfolding pool_ok_append by simp_all
  have f: "fa_invar DEFAULT_CAPACITY fa" "free_frames fa \<inter> frame_number ` set shared = {}"
    "free_frames fa \<inter> frame_number ` held = {}" using ok(1) by (simp_all add: pool_ok_def)
  from give_loop_spec [OF pool_ok_parts [OF assms]] obtain fa' where
    g: "give_loop fa ps = Some fa'" "fa_invar DEFAULT_CAPACITY fa'"
      "free_frames fa' \<subseteq> free_frames fa \<union> frame_number ` set ps" by blast
  have "pool_ok fa' shared held"
    using ok(1) g(2) given_sets [OF g(3) d f(2,3)] unfolding pool_ok_def by argo
  with g(1) show thesis by (rule that)
qed

lemma pool_ok_outside:
  assumes "pool_ok fa shared held" "pool_step allocate_frame (deallocate_frame DEFAULT_CAPACITY) (fa, held) (fa', held')"
  shows "pool_ok fa' shared held'"
  using assms(2)
proof (cases rule: pool_step.cases)
  case (handed_out p)
  have inv: "fa_invar DEFAULT_CAPACITY fa" using assms(1) by (simp add: pool_ok_def)
  have p: "fa_invar DEFAULT_CAPACITY fa'" "frame_number p \<in> free_frames fa"
    "free_frames fa' = free_frames fa - {frame_number p}"
    using fa.alloc_Some [OF inv handed_out(2)] by auto
  have f: "free_frames fa \<inter> frame_number ` set shared = {}" "free_frames fa \<inter> frame_number ` held = {}"
    using assms(1) by (simp_all add: pool_ok_def)
  from handed_sets [OF p(2) f] have new: "frame_number p \<notin> frame_number ` held"
    "frame_number p \<notin> frame_number ` set shared" "free_frames fa' \<inter> frame_number ` set shared = {}"
    "free_frames fa' \<inter> insert (frame_number p) (frame_number ` held) = {}" unfolding p(3) by simp_all
  have "frame_number p \<notin> frame_number ` (held - {p})" using new(1) by (meson Diff_subset image_mono subsetD)
  then have "inj_on frame_number (insert p held)"
    using assms(1) unfolding pool_ok_def inj_on_insert by simp
  with new p(1) assms(1) show ?thesis unfolding handed_out(1) pool_ok_def image_insert by simp
next
  case refused
  have inv: "fa_invar DEFAULT_CAPACITY fa" using assms(1) by (simp add: pool_ok_def)
  have "take_frames_loop (Suc 0) fa (\<lambda>_. 0) [] = (fa', \<lambda>_. 0, [])" using refused by simp
  from pool_ok_take(1) [OF assms(1) this] show ?thesis unfolding refused by simp
next
  case (returned p)
  have f: "free_frames fa \<inter> frame_number ` set shared = {}" "free_frames fa \<inter> frame_number ` held = {}"
    "frame_number ` set shared \<inter> frame_number ` held = {}"
    and inv: "fa_invar DEFAULT_CAPACITY fa" "inj_on frame_number held"
    using assms(1) by (simp_all add: pool_ok_def)
  have "frame_number p \<in> frame_number ` held" using returned(2) by simp
  from returned_sets [OF this f] have n: "frame_number p \<notin> free_frames fa"
    "insert (frame_number p) (free_frames fa) \<inter> frame_number ` set shared = {}"
    "insert (frame_number p) (free_frames fa) \<inter> (frame_number ` held - {frame_number p}) = {}"
    "frame_number ` set shared \<inter> (frame_number ` held - {frame_number p}) = {}" by simp_all
  have img: "frame_number ` held' = frame_number ` held - {frame_number p}"
    unfolding returned(1) using inj_on_image_set_diff [OF inv(2), of held "{p}"] returned(2) by simp
  have "fa_invar DEFAULT_CAPACITY fa'" "free_frames fa' = insert (frame_number p) (free_frames fa)"
    using fa.dealloc_Ok [OF inv(1) n(1) returned(3)] by simp_all
  moreover have "inj_on frame_number held'" unfolding returned(1) using inv(2) by (rule inj_on_diff)
  ultimately show ?thesis using assms(1) n unfolding pool_ok_def img by simp
qed

subsection \<open>Every run keeps the frames apart\<close>

text \<open>One step: an operation on the objects, or what the rest of the kernel does with the allocator
  it has borrowed.\<close>

inductive shm_step :: "shm_world \<times> phys_addr set \<Rightarrow> shm_world \<times> phys_addr set \<Rightarrow> bool" where
  created: "shm_create w = (w', r) \<Longrightarrow> shm_step (w, held) (w', held)"
| sized: "shm_set_size index sz w = Some (w', r) \<Longrightarrow> shm_step (w, held) (w', held)"
| attached: "shm_attach index w = (w', r) \<Longrightarrow> shm_step (w, held) (w', held)"
| detached: "shm_detach index w = Some w' \<Longrightarrow> shm_step (w, held) (w', held)"
| borrowed: "take_allocator (shm_lending w) = (l, r) \<Longrightarrow> shm_step (w, held) (w\<lparr>shm_lending := l\<rparr>, held)"
| used: "lend_on_loan (shm_lending w) \<Longrightarrow>
    pool_step allocate_frame (deallocate_frame DEFAULT_CAPACITY) (lend_storage (shm_lending w), held) (fa, held') \<Longrightarrow>
    shm_step (w, held) (w\<lparr>shm_lending := (shm_lending w)\<lparr>lend_storage := fa\<rparr>\<rparr>, held')"
| brought_back: "lend_on_loan (shm_lending w) \<Longrightarrow>
    shm_step (w, held) (w\<lparr>shm_lending := give_back (shm_lending w) (lend_storage (shm_lending w))\<rparr>, held)"

lemma give_back_storage [simp]: "lend_storage (give_back l fa) = fa"
  by (simp add: give_back_def)

lemma take_storage:
  assumes "take_allocator l = (l', r)"
  shows "lend_storage l' = lend_storage l" "r = Some fa \<Longrightarrow> fa = lend_storage l"
  using assms by (auto simp: take_allocator_def split: if_splits)

text \<open>The pattern of the operations on one object: the slot and the allocator change together.\<close>

lemma shm_invar_update:
  assumes inv: "shm_invar (w, held)" and i: "index < MAX_SHM"
    and upd: "shms w' = (shms w)[index := s]" and s: "shm_slot_ok s"
    and pool: "\<And>rest. pool_ok (lend_storage (shm_lending w)) (shared_pages (shms w ! index) @ rest) held \<Longrightarrow>
      pool_ok (lend_storage (shm_lending w')) (shared_pages s @ rest) held"
    and count: "shared_frames_held w' = shared_frames_held w - of_nat (shm_pages (shms w ! index)) + of_nat (shm_pages s)"
  shows "shm_invar (w', held)"
proof -
  have len: "index < length (shms w)" and ok: "shm_slot_ok (shms w ! index)"
    using inv i by (auto simp: shm_invar_def list_all_nth)
  obtain xs ys where l: "shared_list w = xs @ shared_pages (shms w ! index) @ ys" "shared_list w' = xs @ shared_pages s @ ys"
    using shared_list_update [OF len upd] by blast
  have "pool_ok (lend_storage (shm_lending w)) (shared_pages (shms w ! index) @ xs @ ys) held"
    by (rule pool_ok_mset [of _ "shared_list w"]) (use inv l(1) in \<open>auto simp: shm_invar_def\<close>)
  from pool_ok_mset [OF pool [OF this], of "shared_list w'"]
  have "pool_ok (lend_storage (shm_lending w')) (shared_list w') held" using l(2) by simp
  moreover have "shared_frames_held w' = of_nat (length (shared_list w'))"
    using inv count ok s l by (simp add: shm_invar_def)
  moreover have "list_all shm_slot_ok (shms w')" "length (shms w') = MAX_SHM"
    using inv upd s by (auto simp: shm_invar_def list_all_update)
  ultimately show ?thesis by (simp add: shm_invar_def)
qed

lemma shm_invar_slot:
  "shm_invar (w, held) \<Longrightarrow> index < MAX_SHM \<Longrightarrow> shm_slot_ok (shms w ! index)"
  by (auto simp: shm_invar_def list_all_nth)

lemma shm_invar_around:
  assumes "shm_invar (w, held)" "index < MAX_SHM"
  shows "\<exists>rest. pool_ok (lend_storage (shm_lending w)) (shared_pages (shms w ! index) @ rest) held"
proof -
  have "index < length (shms w)" using assms by (simp add: shm_invar_def)
  from shared_list_update [OF this, of w "shms w ! index"] obtain xs ys where
    "shared_list w = xs @ shared_pages (shms w ! index) @ ys" by auto
  with assms(1) have "pool_ok (lend_storage (shm_lending w)) (xs @ shared_pages (shms w ! index) @ ys) held"
    by (simp add: shm_invar_def)
  from pool_ok_mset [OF this, of "shared_pages (shms w ! index) @ xs @ ys"] show ?thesis by auto
qed

lemma shm_invar_lending:
  assumes "shm_invar (w, held)" "shms w' = shms w" "shared_frames_held w' = shared_frames_held w"
    "pool_ok (lend_storage (shm_lending w')) (shared_list w) held'"
  shows "shm_invar (w', held')"
  using assms by (simp add: shm_invar_def shared_list_def)

lemma shm_invar_create:
  assumes inv: "shm_invar (w, held)" and c: "shm_create w = (w', r)"
  shows "shm_invar (w', held)"
proof (cases "find_index (\<lambda>s. \<not> shm_in_use s) (shms w)")
  case None
  with c inv show ?thesis by (simp add: shm_create_def)
next
  case (Some i)
  from find_index_Some [OF this] inv have i: "i < MAX_SHM" "\<not> shm_in_use (shms w ! i)" by (auto simp: shm_invar_def)
  have "shms w ! i = shm_empty" using shm_invar_slot [OF inv i(1)] i(2) by (simp add: shm_slot_ok_def)
  then show ?thesis using c Some
    by (intro shm_invar_update [OF inv i(1), of w' "shm_empty\<lparr>shm_in_use := True, shm_refs := 1\<rparr>"])
      (auto simp: shm_create_def shm_slot_ok_def shared_pages_def shm_empty_def)
qed

lemma shm_invar_attach:
  assumes inv: "shm_invar (w, held)" and a: "shm_attach index w = (w', r)"
  shows "shm_invar (w', held)"
proof (cases "MAX_SHM \<le> index \<or> \<not> shm_in_use (shms w ! index)")
  case True
  with a inv show ?thesis by (auto simp: shm_attach_def)
next
  case False
  let ?s = "shms w ! index"
  have i: "index < MAX_SHM" using False by simp
  have "shm_slot_ok ?s" using shm_invar_slot [OF inv i] .
  then show ?thesis using a False
    by (intro shm_invar_update [OF inv i, of w' "?s\<lparr>shm_refs := min (shm_refs ?s + 1) (2 ^ 32 - 1)\<rparr>"])
      (auto simp: shm_attach_def shm_slot_ok_def Let_def)
qed

text \<open>The two operations that borrow the allocator never panic either.\<close>

lemma shm_invar_set_size:
  assumes inv: "shm_invar (w, held)"
  shows "\<exists>w' r. shm_set_size index sz w = Some (w', r) \<and> shm_invar (w', held)"
proof (cases "MAX_SHM \<le> index \<or> \<not> shm_in_use (shms w ! index) \<or> shm_pages (shms w ! index) \<noteq> 0 \<or>
    MAX_SHM_PAGES < pages_for sz")
  case True
  with inv show ?thesis by (auto simp: shm_set_size_def Let_def)
next
  case False
  then have i: "index < MAX_SHM" by simp
  let ?s = "shms w ! index"
  note slot = shm_invar_slot [OF inv i]
  have pool: "pool_ok (lend_storage (shm_lending w)) (shared_list w) held" using inv by (simp add: shm_invar_def)
  obtain l r where t: "take_allocator (shm_lending w) = (l, r)" by (cases "take_allocator (shm_lending w)")
  show ?thesis
  proof (cases r)
    case None
    then have "shm_set_size index sz w = Some (w\<lparr>shm_lending := l\<rparr>, NoRoom)"
      using False t by (simp add: shm_set_size_def Let_def)
    moreover have "shm_invar (w\<lparr>shm_lending := l\<rparr>, held)"
      using t pool by (intro shm_invar_lending [OF inv]) (auto simp: take_storage(1))
    ultimately show ?thesis by blast
  next
    case (Some fa)
    obtain fa1 mem taken where lp: "take_frames_loop (pages_for sz) fa (phys_mem w) [] = (fa1, mem, taken)"
      by (cases "take_frames_loop (pages_for sz) fa (phys_mem w) []")
    have fa: "fa = lend_storage (shm_lending w)" using take_storage(2) [OF t Some] .
    have tk: "pool_ok fa1 (taken @ shared_list w) held" "length taken \<le> pages_for sz"
      using pool_ok_take [OF pool, of "pages_for sz" "phys_mem w"] lp fa by auto
    show ?thesis
    proof (cases "length taken < pages_for sz")
      case True
      obtain fa2 where g: "give_loop fa1 taken = Some fa2" "pool_ok fa2 (shared_list w) held"
        by (rule pool_ok_give [OF tk(1)])
      let ?w = "w\<lparr>shm_lending := give_back l fa2, phys_mem := mem\<rparr>"
      have "shm_set_size index sz w = Some (?w, NoRoom)"
        using False t Some lp True g(1) by (simp add: shm_set_size_def Let_def)
      moreover have "shm_invar (?w, held)" using g(2) by (intro shm_invar_lending [OF inv]) auto
      ultimately show ?thesis by blast
    next
      case full: False
      then have len: "length taken = pages_for sz" using tk(2) by simp
      let ?s' = "?s\<lparr>shm_frames := taken @ drop (pages_for sz) (shm_frames ?s), shm_pages := pages_for sz, shm_len := sz\<rparr>"
      let ?w = "(set_shm index ?s' w)\<lparr>shm_lending := give_back l fa1, phys_mem := mem,
                  shared_frames_held := shared_frames_held w + of_nat (pages_for sz)\<rparr>"
      have "shm_set_size index sz w = Some (?w, Pages (pages_for sz))"
        using False t Some lp full by (simp add: shm_set_size_def Let_def)
      moreover have "shm_invar (?w, held)"
      proof (rule shm_invar_update [OF inv i, of _ ?s'])
        show "shm_slot_ok ?s'" using slot False len by (auto simp: shm_slot_ok_def)
        show "pool_ok (lend_storage (shm_lending ?w)) (shared_pages ?s' @ rest) held"
          if "pool_ok (lend_storage (shm_lending w)) (shared_pages ?s @ rest) held" for rest
        proof -
          have "shared_pages ?s = []" "shared_pages ?s' = taken" using False len by (simp_all add: shared_pages_def)
          with that show ?thesis using pool_ok_take(1) [of fa rest held "pages_for sz" "phys_mem w" fa1 mem taken] lp fa
            by simp
        qed
      qed (use False in simp_all)
      ultimately show ?thesis by blast
    qed
  qed
qed

lemma shm_invar_detach:
  assumes inv: "shm_invar (w, held)"
  shows "\<exists>w'. shm_detach index w = Some w' \<and> shm_invar (w', held)"
proof (cases "MAX_SHM \<le> index \<or> \<not> shm_in_use (shms w ! index)")
  case True
  with inv show ?thesis by (auto simp: shm_detach_def)
next
  case False
  then have i: "index < MAX_SHM" by simp
  let ?s = "shms w ! index"
  note slot = shm_invar_slot [OF inv i]
  let ?pool = "\<lambda>w'. \<forall>rest. pool_ok (lend_storage (shm_lending w)) (shared_pages ?s @ rest) held \<longrightarrow>
      pool_ok (lend_storage (shm_lending w')) rest held"
  have last: "shm_invar (w', held)"
    if "shms w' = (shms w)[index := shm_empty]" "shared_frames_held w' = shared_frames_held w - of_nat (shm_pages ?s)"
      "?pool w'" for w'
    using that by (intro shm_invar_update [OF inv i, of w' shm_empty]) auto
  consider (shared) "shm_refs ?s - 1 \<noteq> 0" | (bare) "shm_refs ?s - 1 = 0" "shm_pages ?s = 0"
    | (frames) "shm_refs ?s - 1 = 0" "shm_pages ?s \<noteq> 0" by blast
  then show ?thesis
  proof cases
    case shared
    then have "shm_detach index w = Some (set_shm index (?s\<lparr>shm_refs := shm_refs ?s - 1\<rparr>) w)"
      using False by (simp add: shm_detach_def)
    moreover have "shm_invar (set_shm index (?s\<lparr>shm_refs := shm_refs ?s - 1\<rparr>) w, held)"
      using slot shared False
      by (intro shm_invar_update [OF inv i, of _ "?s\<lparr>shm_refs := shm_refs ?s - 1\<rparr>"]) (auto simp: shm_slot_ok_def)
    ultimately show ?thesis by blast
  next
    case bare
    then have "shm_detach index w = Some ((set_shm index shm_empty w)\<lparr>shm_released := shm_released w + 1\<rparr>)"
      using False by (simp add: shm_detach_def Let_def)
    moreover have "shm_invar ((set_shm index shm_empty w)\<lparr>shm_released := shm_released w + 1\<rparr>, held)"
      using bare by (intro last) auto
    ultimately show ?thesis by blast
  next
    case frames
    obtain l r where t: "take_allocator (shm_lending w) = (l, r)" by (cases "take_allocator (shm_lending w)")
    let ?w = "\<lambda>l. (set_shm index shm_empty w)\<lparr>shm_lending := l,
        shared_frames_held := shared_frames_held w - of_nat (shm_pages ?s), shm_released := shm_released w + 1\<rparr>"
    show ?thesis
    proof (cases r)
      case None
      then have "shm_detach index w = Some (?w l)" using False t frames by (simp add: shm_detach_def Let_def)
      moreover have "shm_invar (?w l, held)" using t by (intro last) (auto simp: take_storage(1) intro: pool_ok_drop)
      ultimately show ?thesis by blast
    next
      case (Some fa)
      have fa: "fa = lend_storage (shm_lending w)" using take_storage(2) [OF t Some] .
      have given: "\<exists>fa'. give_loop fa (shared_pages ?s) = Some fa' \<and> pool_ok fa' rest held"
        if "pool_ok fa (shared_pages ?s @ rest) held" for rest
        using pool_ok_give [OF that] by blast
      obtain rest where "pool_ok fa (shared_pages ?s @ rest) held"
        using shm_invar_around [OF inv i] fa by blast
      then obtain fa1 where g: "give_loop fa (shared_pages ?s) = Some fa1" using given by blast
      then have "shm_detach index w = Some (?w (give_back l fa1))"
        using False t frames Some by (simp add: shm_detach_def Let_def shared_pages_def)
      moreover have "shm_invar (?w (give_back l fa1), held)"
        using given g fa by (intro last) auto
      ultimately show ?thesis by blast
    qed
  qed
qed

lemma shm_invar_step: "shm_step c d \<Longrightarrow> shm_invar c \<Longrightarrow> shm_invar d"
proof (induction rule: shm_step.induct)
  case (sized index sz w w' r held)
  with shm_invar_set_size [OF sized.prems, of index sz] show ?case by auto
next
  case (detached index w w' held)
  with shm_invar_detach [OF detached.prems, of index] show ?case by auto
next
  case (used w held fa held')
  then show ?case using pool_ok_outside [OF _ used.hyps(2)]
    by (intro shm_invar_lending [OF used.prems]) (auto simp: shm_invar_def)
next
  case (borrowed w l r held)
  then show ?case by (intro shm_invar_lending [OF borrowed.prems]) (auto simp: shm_invar_def take_storage(1))
next
  case (brought_back w held)
  then show ?case by (intro shm_invar_lending [OF brought_back.prems]) (auto simp: shm_invar_def)
qed (auto intro: shm_invar_create shm_invar_attach)

lemma shm_invar_run: "shm_step\<^sup>*\<^sup>* c d \<Longrightarrow> shm_invar c \<Longrightarrow> shm_invar d"
  by (induction rule: rtranclp_induct) (auto intro: shm_invar_step)

definition sample_shm_world :: shm_world where
  "sample_shm_world = \<lparr>shms = [shm_empty, shm_empty], shm_lending = deposit lending_init sample_allocator,
     phys_mem = (\<lambda>_. 0), shm_created = 0, shm_released = 0, shm_mapped_pages = 0, fds_sent = 0,
     fds_received = 0, shared_frames_held = 0\<rparr>"

lemma sample_shm_invar: "shm_invar (sample_shm_world, {})"
  using sample_allocator_facts
  by (auto simp: shm_invar_def sample_shm_world_def MAX_SHM_def shared_list_def pool_ok_def deposit_def
      lending_init_def fa_invar_def DEFAULT_CAPACITY_def)

subsection \<open>Properties\<close>

text \<open>C32: in every run of the operations and of what the rest of the kernel does with the allocator,
  no frame belongs to two shared memories, nor to one and to the free set or to another holder; the
  counter that \<open>spawn\<close> reads is the number of shared frames; and no operation panics.\<close>

theorem shared_frames_have_one_owner:
  assumes "shm_step\<^sup>*\<^sup>* (w, held) (w', held')" "shm_invar (w, held)"
  shows "distinct (map frame_number (shared_list w')) \<and>
    frame_number ` set (shared_list w') \<inter> free_frames (lend_storage (shm_lending w')) = {} \<and>
    frame_number ` set (shared_list w') \<inter> frame_number ` held' = {} \<and>
    shared_frames_held w' = of_nat (length (shared_list w')) \<and>
    shm_set_size index sz w' \<noteq> None \<and> shm_detach index w' \<noteq> None"
proof -
  note inv = shm_invar_run [OF assms]
  from shm_invar_set_size [OF inv, of index sz] shm_invar_detach [OF inv, of index] inv
  show ?thesis by (auto simp: shm_invar_def pool_ok_def)
qed

definition sized_sample :: shm_world where
  "sized_sample = fst (the (shm_set_size 0 5000 (fst (shm_create sample_shm_world))))"

lemma created_sample:
  "shm_create sample_shm_world = (sample_shm_world\<lparr>shms := [shm_empty\<lparr>shm_in_use := True, shm_refs := 1\<rparr>, shm_empty],
     shm_created := 1\<rparr>, Some 0)"
  by (simp add: shm_create_def sample_shm_world_def shm_empty_def)

lemma low_frames:
  "from_frame_number 3 = Some (PhysAddr 0x3000)" "from_frame_number 4 = Some (PhysAddr 0x4000)"
  by (simp_all add: from_frame_number_Some)

lemma sized_sample_eq:
  "shm_set_size 0 5000 (fst (shm_create sample_shm_world)) =
     Some (sample_shm_world\<lparr>shms := [\<lparr>shm_in_use = True,
         shm_frames = [PhysAddr 0x3000, PhysAddr 0x4000] @ replicate 6 (PhysAddr 0),
         shm_pages = 2, shm_len = 5000, shm_refs = 1\<rparr>, shm_empty],
       shm_lending := \<lparr>lend_storage = \<lparr>fa_ranges = [\<lparr>start_frame = 5, frame_count = 1995\<rparr>]\<rparr>,
         lend_present = True, lend_on_loan = False, lend_taken = 1, lend_returned = 1\<rparr>,
       phys_mem := zero_frame (PhysAddr 0x4000) (zero_frame (PhysAddr 0x3000) (\<lambda>_. 0)),
       shm_created := 1, shared_frames_held := 2\<rparr>, Pages 2)"
  unfolding created_sample
  by (simp add: shm_set_size_def sample_shm_world_def shm_empty_def pages_for_def div_ceil_def PAGE_SIZE_def
      MAX_SHM_def MAX_SHM_PAGES_def Let_def numeral_2_eq_2 take_allocator_def deposit_def lending_init_def
      allocate_frame_def sample_allocator_def low_frames give_back_def)

lemma sized_sample_run:
  "shm_set_size 0 5000 (fst (shm_create sample_shm_world)) = Some (sized_sample, Pages 2)"
  unfolding sized_sample_def using sized_sample_eq by simp

lemma sized_sample_facts:
  "shm_step\<^sup>*\<^sup>* (sample_shm_world, {}) (sized_sample, {})"
  "map frame_number (shared_list sized_sample) = [3, 4]"
  "shms sized_sample = [\<lparr>shm_in_use = True, shm_frames = [PhysAddr 0x3000, PhysAddr 0x4000] @ replicate 6 (PhysAddr 0),
     shm_pages = 2, shm_len = 5000, shm_refs = 1\<rparr>, shm_empty]"
  "lend_storage (shm_lending sized_sample) = \<lparr>fa_ranges = [\<lparr>start_frame = 5, frame_count = 1995\<rparr>]\<rparr>"
  "lend_present (shm_lending sized_sample)" "\<not> lend_on_loan (shm_lending sized_sample)"
proof -
  show "shm_step\<^sup>*\<^sup>* (sample_shm_world, {}) (sized_sample, {})"
    using shm_step.created [OF surjective_pairing] shm_step.sized [OF sized_sample_run]
    by (meson converse_rtranclp_into_rtranclp rtranclp.rtrancl_refl)
qed (simp_all add: sized_sample_def sized_sample_eq shared_list_def shared_pages_def frame_number_def shm_empty_def)

theorem shared_frames_have_one_owner_witness:
  "shm_invar (sample_shm_world, {}) \<and> shm_step\<^sup>*\<^sup>* (sample_shm_world, {}) (sized_sample, {}) \<and>
   frame_number ` set (shared_list sized_sample) = {3, 4} \<and> distinct (map frame_number (shared_list sized_sample))"
proof -
  have "frame_number ` set (shared_list sized_sample) = set (map frame_number (shared_list sized_sample))" by simp
  then have "frame_number ` set (shared_list sized_sample) = {3, 4}" unfolding sized_sample_facts(2) by simp
  then show ?thesis
    using shared_frames_have_one_owner [OF sized_sample_facts(1) sample_shm_invar] sample_shm_invar sized_sample_facts(1)
    by simp
qed

text \<open>\<open>set_size\<close> takes all the frames it needs or none: with \<open>Pages n\<close> exactly the \<open>n\<close> frames
  of the rounded-up size have left the free set, belong to the object and read as zero; with every
  other answer the object table and the free set are as before.\<close>

theorem set_size_takes_all_or_nothing:
  assumes inv: "shm_invar (w, held)" and small: "free_frames (lend_storage (shm_lending w)) \<subseteq> {..< 2 ^ 40}"
    and run: "shm_set_size index sz w = Some (w', r)"
  shows "case r of
      Pages n \<Rightarrow> n = pages_for sz \<and> length (shared_pages (shms w' ! index)) = n \<and>
        frame_number ` set (shared_pages (shms w' ! index)) \<subseteq> free_frames (lend_storage (shm_lending w)) \<and>
        free_frames (lend_storage (shm_lending w')) =
          free_frames (lend_storage (shm_lending w)) - frame_number ` set (shared_pages (shms w' ! index)) \<and>
        list_all (frame_is_zero (phys_mem w')) (shared_pages (shms w' ! index))
    | _ \<Rightarrow> shms w' = shms w \<and> free_frames (lend_storage (shm_lending w')) = free_frames (lend_storage (shm_lending w))"
proof (cases "MAX_SHM \<le> index \<or> \<not> shm_in_use (shms w ! index) \<or> shm_pages (shms w ! index) \<noteq> 0 \<or>
    MAX_SHM_PAGES < pages_for sz \<or> snd (take_allocator (shm_lending w)) = None")
  case True
  then have "(r = NoShm \<or> r = AlreadySet \<or> r = TooLarge \<or> r = NoRoom) \<and> shms w' = shms w \<and>
      lend_storage (shm_lending w') = lend_storage (shm_lending w)"
    using run by (auto simp: shm_set_size_def Let_def take_storage(1) split: if_splits prod.splits option.splits)
  then show ?thesis by auto
next
  case False
  then obtain l fa where t: "take_allocator (shm_lending w) = (l, Some fa)"
    by (cases "take_allocator (shm_lending w)") auto
  then have fa: "fa = lend_storage (shm_lending w)" using take_storage(2) by blast
  obtain fa1 mem taken where lp: "take_frames_loop (pages_for sz) fa (phys_mem w) [] = (fa1, mem, taken)"
    by (cases "take_frames_loop (pages_for sz) fa (phys_mem w) []")
  have fi: "fa_invar DEFAULT_CAPACITY fa" using inv fa by (simp add: shm_invar_def pool_ok_def)
  from take_frames_loop_spec [OF fi lp] small fa have tk: "length taken \<le> pages_for sz" "fa_invar DEFAULT_CAPACITY fa1"
    "distinct (map frame_number taken)" "frame_number ` set taken \<subseteq> free_frames fa"
    "free_frames fa1 = free_frames fa - frame_number ` set taken"
    "length taken < pages_for sz \<Longrightarrow> free_frames fa1 = {}" by auto
  show ?thesis
  proof (cases "length taken < pages_for sz")
    case True
    have "fa_ranges fa1 = []"
      using tk(2,6) True frames_nonempty [of 0 "hd (fa_ranges fa1)" "tl (fa_ranges fa1)"]
      by (cases "fa_ranges fa1") (auto simp: fa_invar_def free_frames_def simp del: frames_of_simps)
    moreover have "length taken \<le> DEFAULT_CAPACITY"
      using False True by (simp add: DEFAULT_CAPACITY_def MAX_SHM_PAGES_def)
    ultimately obtain fa2 where g: "give_loop fa1 taken = Some fa2" "free_frames fa2 = free_frames fa"
      using give_loop_spec [OF tk(2,3)] tk(4,5) by (auto simp: Un_absorb2)
    with run False t lp True have "w' = w\<lparr>shm_lending := give_back l fa2, phys_mem := mem\<rparr>" "r = NoRoom"
      by (auto simp: shm_set_size_def Let_def)
    then show ?thesis using g fa by simp
  next
    case full: False
    then have len: "length taken = pages_for sz" using tk(1) by simp
    let ?s = "shms w ! index"
    from run False t lp full have w': "r = Pages (pages_for sz)" "lend_storage (shm_lending w') = fa1" "phys_mem w' = mem"
      "shms w' = (shms w)[index := ?s\<lparr>shm_frames := taken @ drop (pages_for sz) (shm_frames ?s),
         shm_pages := pages_for sz, shm_len := sz\<rparr>]" by (auto simp: shm_set_size_def Let_def)
    then have "shared_pages (shms w' ! index) = taken"
      using False inv len by (simp add: shared_pages_def shm_invar_def)
    then show ?thesis using w' len tk fa take_frames_loop_zeroed [OF lp] by (simp add: list_all_iff)
  qed
qed

theorem set_size_takes_all_or_nothing_witness:
  "shm_set_size 0 5000 (fst (shm_create sample_shm_world)) = Some (sized_sample, Pages 2) \<and>
   free_frames (lend_storage (shm_lending sized_sample)) = {3 ..< 2000} - {3, 4}"
proof -
  let ?w = "fst (shm_create sample_shm_world)"
  note inv = shm_invar_create [OF sample_shm_invar surjective_pairing]
  have free: "free_frames (lend_storage (shm_lending ?w)) = {3 ..< 2000}"
    unfolding created_sample using sample_allocator_facts(2) by (simp add: sample_shm_world_def deposit_def)
  then have small: "free_frames (lend_storage (shm_lending ?w)) \<subseteq> {..< 2 ^ 40}" by auto
  have "map frame_number (shared_pages (shms sized_sample ! 0)) = [3, 4]"
    by (simp add: sized_sample_facts shared_pages_def frame_number_def)
  then have "frame_number ` set (shared_pages (shms sized_sample ! 0)) = {3, 4}"
    by (metis list.simps(15) empty_set set_map)
  with set_size_takes_all_or_nothing [OF inv small sized_sample_run] free sized_sample_run show ?thesis by simp
qed

text \<open>C33: closing the last descriptor frees the slot and takes its frames off the count of shared frames. It gives exactly
  these frames back when the allocator can be taken and has room for their ranges; when the allocator is on
  loan, or not yet there, it gives none of them back, so that they are lost.\<close>

theorem last_detach_returns_the_frames:
  assumes inv: "shm_invar (w, held)" and i: "index < MAX_SHM" "shm_in_use (shms w ! index)" "shm_refs (shms w ! index) = 1"
  defines "can_take \<equiv> lend_present (shm_lending w) \<and> \<not> lend_on_loan (shm_lending w)"
    and "room \<equiv> length (fa_ranges (lend_storage (shm_lending w))) + shm_pages (shms w ! index) \<le> DEFAULT_CAPACITY"
  shows "\<exists>w'. shm_detach index w = Some w' \<and> shms w' = (shms w)[index := shm_empty] \<and>
    shared_frames_held w' = shared_frames_held w - of_nat (shm_pages (shms w ! index)) \<and> shm_released w' = shm_released w + 1 \<and>
    lend_on_loan (shm_lending w') = lend_on_loan (shm_lending w) \<and>
    (can_take \<and> room \<longrightarrow> free_frames (lend_storage (shm_lending w')) =
       free_frames (lend_storage (shm_lending w)) \<union> frame_number ` set (shared_pages (shms w ! index))) \<and>
    (\<not> can_take \<longrightarrow> free_frames (lend_storage (shm_lending w')) = free_frames (lend_storage (shm_lending w)))"
proof (cases "shm_pages (shms w ! index) = 0 \<or> \<not> can_take")
  case True
  then show ?thesis using i by (auto simp: shm_detach_def Let_def shared_pages_def take_allocator_def can_take_def)
next
  case False
  then have free: "lend_present (shm_lending w)" "\<not> lend_on_loan (shm_lending w)" and some: "shm_pages (shms w ! index) \<noteq> 0"
    by (simp_all add: can_take_def)
  let ?s = "shms w ! index" and ?fa = "lend_storage (shm_lending w)"
  obtain rest where around: "pool_ok ?fa (shared_pages ?s @ rest) held" using shm_invar_around [OF inv i(1)] by blast
  have ok: "fa_invar DEFAULT_CAPACITY ?fa" "distinct (map frame_number (shared_pages ?s))"
    "frame_number ` set (shared_pages ?s) \<inter> free_frames ?fa = {}"
    using pool_ok_parts [OF around] by simp_all
  have len: "length (shared_pages ?s) = shm_pages ?s" using shm_invar_slot [OF inv i(1)] by simp
  obtain fa' where g: "give_loop ?fa (shared_pages ?s) = Some fa'" using pool_ok_give [OF around] by blast
  have all: "free_frames fa' = free_frames ?fa \<union> frame_number ` set (shared_pages ?s)" if room
    using give_loop_spec [OF ok] that g len by (auto simp: room_def)
  from g have "shm_detach index w = Some ((set_shm index shm_empty w)\<lparr>
      shm_lending := give_back ((shm_lending w)\<lparr>lend_on_loan := True, lend_taken := lend_taken (shm_lending w) + 1\<rparr>) fa',
      shared_frames_held := shared_frames_held w - of_nat (shm_pages ?s), shm_released := shm_released w + 1\<rparr>)"
    using i free some unfolding shared_pages_def by (simp add: shm_detach_def Let_def take_allocator_def)
  then show ?thesis using all False free by (simp add: give_back_def can_take_def)
qed

theorem last_detach_returns_the_frames_witness:
  "\<exists>w'. shm_detach 0 sized_sample = Some w' \<and> shms w' = [shm_empty, shm_empty] \<and>
     {3, 4} \<subseteq> free_frames (lend_storage (shm_lending w'))"
proof -
  note inv = shm_invar_run [OF sized_sample_facts(1) sample_shm_invar]
  have "map frame_number (shared_pages (shms sized_sample ! 0)) = [3, 4]"
    by (simp add: sized_sample_facts shared_pages_def frame_number_def)
  then have "frame_number ` set (shared_pages (shms sized_sample ! 0)) = {3, 4}"
    by (metis list.simps(15) empty_set set_map)
  then show ?thesis
    using last_detach_returns_the_frames [OF inv, of 0] sized_sample_facts(3-)
    by (fastforce simp: MAX_SHM_def DEFAULT_CAPACITY_def)
qed

text \<open>C34: a descriptor that is still in flight when both ends of its connection are closed is lost:
  \<open>sendmsg\<close> has counted a reference for it, the connection slot is cleared without giving the
  reference up, and after the sender has closed its own descriptor too the object stays in use with
  the count it had before, with no descriptor and no queued descriptor of that connection left.\<close>

theorem descriptor_in_flight_is_leaked:
  assumes i: "conn < length (connections sw)" "conn_in_use (connections sw ! conn)"
      "is_open (connections sw ! conn) Client" "is_open (connections sw ! conn) Server"
    and m: "index < MAX_SHM" "length (shms mw) = MAX_SHM" "shm_in_use (shms mw ! index)"
      "0 < shm_refs (shms mw ! index)" "shm_refs (shms mw ! index) < 2 ^ 32 - 1"
    and sent: "sendmsg_fd conn Client index (sw, mw) = ((sw1, mw1), True)"
  shows "connections (close_end conn Server (close_end conn Client sw1)) ! conn = connection_empty \<and>
    (\<exists>mw2. shm_detach index mw1 = Some mw2 \<and> shm_in_use (shms mw2 ! index) \<and>
       shm_refs (shms mw2 ! index) = shm_refs (shms mw ! index) \<and>
       shared_pages (shms mw2 ! index) = shared_pages (shms mw ! index))"
proof -
  let ?c = "connections sw ! conn"
  have c1: "connections sw1 = (connections sw)[conn := ?c\<lparr>pending_fd := (pending_fd ?c)(Server := Some index)\<rparr>]"
    using sent i by (auto simp: sendmsg_fd_def queue_fd_def Let_def split: if_splits)
  have "connections (close_end conn Server (close_end conn Client sw1)) ! conn = connection_empty"
    using i c1 by (simp add: close_end_def Let_def)
  moreover have "shms mw1 = (shms mw)[index := (shms mw ! index)\<lparr>shm_refs := shm_refs (shms mw ! index) + 1\<rparr>]"
    using sent i m by (auto simp: sendmsg_fd_def queue_fd_def Let_def shm_attach_def note_fd_sent_def split: if_splits)
  ultimately show ?thesis using m by (simp add: shm_detach_def Let_def)
qed

theorem descriptor_in_flight_is_leaked_witness:
  "\<exists>sw1 mw1 mw2. sendmsg_fd 0 Client 0 (set_conn 0 (connection_empty\<lparr>conn_in_use := True, is_open := (\<lambda>_. True)\<rparr>)
       socket_world_init, sized_sample) = ((sw1, mw1), True) \<and>
     connections (close_end 0 Server (close_end 0 Client sw1)) ! 0 = connection_empty \<and>
     shm_detach 0 mw1 = Some mw2 \<and> shm_in_use (shms mw2 ! 0) \<and> length (shared_pages (shms mw2 ! 0)) = 2"
proof -
  let ?sw = "set_conn 0 (connection_empty\<lparr>conn_in_use := True, is_open := (\<lambda>_. True)\<rparr>) socket_world_init"
  obtain sw1 mw1 r where s: "sendmsg_fd 0 Client 0 (?sw, sized_sample) = ((sw1, mw1), r)"
    by (metis surj_pair)
  have r: "r = True" using s
    by (auto simp: sendmsg_fd_def queue_fd_def Let_def socket_world_init_def connection_empty_def split: prod.splits)
  have conn: "0 < length (connections ?sw)" "connections ?sw ! 0 = connection_empty\<lparr>conn_in_use := True, is_open := (\<lambda>_. True)\<rparr>"
    by (simp_all add: socket_world_init_def)
  have m: "length (shms sized_sample) = MAX_SHM" "shm_in_use (shms sized_sample ! 0)" "shm_refs (shms sized_sample ! 0) = 1"
    "length (shared_pages (shms sized_sample ! 0)) = 2"
    by (simp_all add: sized_sample_facts MAX_SHM_def shared_pages_def)
  have "(0::nat) < MAX_SHM" by (simp add: MAX_SHM_def)
  from descriptor_in_flight_is_leaked [OF conn(1) _ _ _ this m(1,2), of sw1 mw1] conn(2) m s r
  obtain mw2 where mw2: "connections (close_end 0 Server (close_end 0 Client sw1)) ! 0 = connection_empty"
    "shm_detach 0 mw1 = Some mw2" "shm_in_use (shms mw2 ! 0)"
    "shared_pages (shms mw2 ! 0) = shared_pages (shms sized_sample ! 0)" by auto
  then show ?thesis using s r m(4) by metis
qed

end
