(* ===== verification/Quarantine.thy ===== *)
theory Quarantine
  imports Frame_Allocator
begin

text \<open>
  The big kernel lock with its generations of mappings (\<open>kernel/src/bkl.rs\<close>) and the quarantine of
  unmapped frames (\<open>kernel/src/quarantine.rs\<close>). A core that takes the lock flushes its TLB when the
  generation it has seen is not the current one; a frame goes back to the allocator only when every
  participating core has seen the generation in which the frame was unmapped.

  The generation and the count of flushes wrap around at \<open>2 ^ 64\<close>, as \<open>fetch_add\<close> on a \<open>u64\<close> does; the
  count of overflows, an observation, is a natural. A waiting core is one \<open>acquire_attempt\<close>
  per turn of the spin loop; a halt of the machine is an outcome of it.
\<close>

subsection \<open>Kernel slot_entries\<close>

datatype kernel_entry = Irq | Syscall | ApBringUp | SteadyLoop

fun entry_as_u64 :: "kernel_entry \<Rightarrow> nat" where
  "entry_as_u64 Irq = 0"
| "entry_as_u64 Syscall = 1"
| "entry_as_u64 ApBringUp = 2"
| "entry_as_u64 SteadyLoop = 3"

definition entry_from_u64 :: "nat \<Rightarrow> kernel_entry option" where
  "entry_from_u64 raw =
     (if raw = 0 then Some Irq else if raw = 1 then Some Syscall
      else if raw = 2 then Some ApBringUp else if raw = 3 then Some SteadyLoop else None)"

lemma entry_round_trip: "entry_from_u64 n = Some e \<longleftrightarrow> n = entry_as_u64 e"
  by (cases e) (auto simp: entry_from_u64_def)

subsection \<open>The lock\<close>

definition MAX_CPUS :: nat where "MAX_CPUS = 2"
definition WAIT_TIMEOUT_CYCLES :: u64 where "WAIT_TIMEOUT_CYCLES = 20000000000"

text \<open>\<open>holder_cpu = None\<close> is \<open>NO_HOLDER\<close>. The per-core slots are lists of length \<open>MAX_CPUS\<close>;
  \<open>ap_started\<close> is the counter of \<open>smp.rs\<close> that tells which cores take part.\<close>

record big_kernel_lock =
  bkl_held :: bool
  holder_cpu :: "nat option"
  holder_entry :: nat
  acquired_cycles :: u64
  tlb_generation :: nat
  seen_generation :: "nat list"
  generation_flushes :: "nat list"
  ap_started :: nat

definition note_mapping_changed :: "big_kernel_lock \<Rightarrow> big_kernel_lock" where
  "note_mapping_changed b = b\<lparr>tlb_generation := (tlb_generation b + 1) mod u64_limit\<rparr>"

definition seen_generation_for :: "nat \<Rightarrow> big_kernel_lock \<Rightarrow> nat" where
  "seen_generation_for cpu b =
     (if cpu < length (seen_generation b) then seen_generation b ! cpu else 0)"

definition generation_is_retired :: "big_kernel_lock \<Rightarrow> nat \<Rightarrow> bool" where
  "generation_is_retired b generation =
     (let participating = 1 + ap_started b
      in list_all (\<lambda>cpu. generation \<le> seen_generation_for cpu b) [0 ..< participating])"

text \<open>The second component tells whether CR3 was reloaded.\<close>

definition flush_if_generation_is_stale :: "nat \<Rightarrow> big_kernel_lock \<Rightarrow> big_kernel_lock \<times> bool" where
  "flush_if_generation_is_stale cpu b =
     (let current = tlb_generation b
      in if seen_generation b ! cpu = current then (b, False)
         else (b\<lparr>seen_generation := (seen_generation b)[cpu := current],
                 generation_flushes := (generation_flushes b)[cpu := (generation_flushes b ! cpu + 1) mod u64_limit]\<rparr>, True))"

datatype acquire_outcome = Acquired bool | Spinning | RecursiveHalt | TimeoutHalt

definition acquire_attempt ::
  "nat \<Rightarrow> kernel_entry \<Rightarrow> u64 \<Rightarrow> u64 \<Rightarrow> big_kernel_lock \<Rightarrow> big_kernel_lock \<times> acquire_outcome" where
  "acquire_attempt cpu entry started now b =
     (if bkl_held b then
        (if holder_cpu b = Some cpu then (b, RecursiveHalt)
         else if WAIT_TIMEOUT_CYCLES < now - started then (b, TimeoutHalt)
         else (b, Spinning))
      else
        let b1 = b\<lparr>bkl_held := True, holder_cpu := Some cpu, holder_entry := entry_as_u64 entry, acquired_cycles := now\<rparr>;
            (b2, flushed) = flush_if_generation_is_stale cpu b1
        in (b2, Acquired flushed))"

definition release_lock :: "big_kernel_lock \<Rightarrow> big_kernel_lock" where
  "release_lock b = b\<lparr>holder_cpu := None, bkl_held := False\<rparr>"

subsection \<open>The quarantine\<close>

definition QUARANTINE_CAPACITY :: nat where "QUARANTINE_CAPACITY = 256"

record held_frame =
  held_addr :: u64
  held_generation :: nat

record quarantine =
  q_held :: "held_frame option list"
  overflow_count :: nat

definition quarantine_new :: quarantine where
  "quarantine_new = \<lparr>q_held = replicate QUARANTINE_CAPACITY None, overflow_count = 0\<rparr>"

definition quarantine_push :: "phys_addr \<Rightarrow> nat \<Rightarrow> quarantine \<Rightarrow> quarantine \<times> bool" where
  "quarantine_push frame generation q =
     (let entry = \<lparr>held_addr = phys_raw frame, held_generation = generation\<rparr>
      in case find_index (\<lambda>slot. slot = None) (q_held q) of
           Some i \<Rightarrow> (q\<lparr>q_held := (q_held q)[i := Some entry]\<rparr>, True)
         | None \<Rightarrow> (q\<lparr>overflow_count := overflow_count q + 1\<rparr>, False))"

text \<open>The loop of \<open>release_retired\<close> over the slots; \<open>None\<close> where the allocator panics.\<close>

fun release_loop ::
  "(nat \<Rightarrow> bool) \<Rightarrow> frame_allocator \<Rightarrow> held_frame option list \<Rightarrow> (frame_allocator \<times> held_frame option list \<times> nat) option" where
  "release_loop retired fa [] = Some (fa, [], 0)"
| "release_loop retired fa (slot # slots) =
     (let keep = map_option (\<lambda>(fa', rest, n). (fa', slot # rest, n)) (release_loop retired fa slots)
      in case slot of
           None \<Rightarrow> keep
         | Some entry \<Rightarrow>
             if \<not> retired (held_generation entry) then keep
             else (case phys_new (held_addr entry) of
                     None \<Rightarrow> keep
                   | Some frame \<Rightarrow>
                       (case deallocate_frame DEFAULT_CAPACITY fa frame of
                          Ok fa1 \<Rightarrow> map_option (\<lambda>(fa', rest, n). (fa', None # rest, n + 1)) (release_loop retired fa1 slots)
                        | Err _ \<Rightarrow> keep
                        | Panic \<Rightarrow> None)))"

definition release_retired ::
  "(nat \<Rightarrow> bool) \<Rightarrow> frame_allocator \<Rightarrow> quarantine \<Rightarrow> (frame_allocator \<times> quarantine \<times> nat) option" where
  "release_retired retired fa q =
     map_option (\<lambda>(fa', slots, n). (fa', q\<lparr>q_held := slots\<rparr>, n)) (release_loop retired fa (q_held q))"

definition quarantine_reset :: "quarantine \<Rightarrow> quarantine" where
  "quarantine_reset q = q\<lparr>q_held := map (\<lambda>_. None) (q_held q), overflow_count := 0\<rparr>"

definition held_count :: "quarantine \<Rightarrow> nat" where
  "held_count q = length (filter (\<lambda>slot. slot \<noteq> None) (q_held q))"

text \<open>\<open>retire_address_space\<close> from the point where \<open>detach\<close> has unmapped the space: \<open>frames\<close> are the
  frames it collected and \<open>leaked\<close> the number of those that did not fit its buffer.\<close>

fun push_all :: "nat \<Rightarrow> phys_addr list \<Rightarrow> quarantine \<Rightarrow> nat \<times> nat \<Rightarrow> quarantine \<times> nat \<times> nat" where
  "push_all generation [] q counts = (q, counts)"
| "push_all generation (p # ps) q (held, leaked) =
     (case quarantine_push p generation q of
        (q1, True) \<Rightarrow> push_all generation ps q1 (held + 1, leaked)
      | (q1, False) \<Rightarrow> push_all generation ps q1 (held, leaked + 1))"

definition retire_detached ::
  "phys_addr list \<Rightarrow> nat \<Rightarrow> big_kernel_lock \<Rightarrow> quarantine \<Rightarrow> big_kernel_lock \<times> quarantine \<times> nat \<times> nat" where
  "retire_detached frames leaked b q =
     (let b1 = note_mapping_changed b;
          generation = tlb_generation b1
      in (b1, push_all generation frames q (0, leaked)))"

subsection \<open>What the quarantine holds\<close>

text \<open>The frame numbers in quarantine with the generation of each, in slot order.\<close>

fun slot_entries :: "held_frame option list \<Rightarrow> (nat \<times> nat) list" where
  "slot_entries [] = []"
| "slot_entries (None # slots) = slot_entries slots"
| "slot_entries (Some e # slots) = (unat (held_addr e) div 4096, held_generation e) # slot_entries slots"

definition slots_ok :: "held_frame option list \<Rightarrow> bool" where
  "slots_ok slots \<longleftrightarrow> distinct (map fst (slot_entries slots)) \<and> list_all (pred_option (\<lambda>e. is_valid_phys (held_addr e))) slots"

lemma entries_append [simp]: "slot_entries (xs @ ys) = slot_entries xs @ slot_entries ys"
  by (induction xs rule: slot_entries.induct) auto

lemma entries_none: "list_all (\<lambda>s. s = None) slots \<Longrightarrow> slot_entries slots = []"
  by (induction slots) auto

lemma push_entries:
  assumes "quarantine_push p g q = (q', True)"
  obtains xs ys where "slot_entries (q_held q) = xs @ ys" "slot_entries (q_held q') = xs @ (frame_number p, g) # ys"
    "length (q_held q') = length (q_held q)"
    "list_all P (q_held q) \<Longrightarrow> P (Some \<lparr>held_addr = phys_raw p, held_generation = g\<rparr>) \<Longrightarrow> list_all P (q_held q')"
proof -
  obtain i where i: "find_index (\<lambda>slot. slot = None) (q_held q) = Some i"
    "q_held q' = (q_held q)[i := Some \<lparr>held_addr = phys_raw p, held_generation = g\<rparr>]"
    using assms by (auto simp: quarantine_push_def Let_def split: option.splits)
  from find_index_Some [OF i(1)] have "i < length (q_held q)" "q_held q ! i = None" by auto
  then have s: "q_held q = take i (q_held q) @ None # drop (Suc i) (q_held q)"
    "q_held q' = take i (q_held q) @ Some \<lparr>held_addr = phys_raw p, held_generation = g\<rparr> # drop (Suc i) (q_held q)"
    using i(2) by (simp_all add: upd_conv_take_nth_drop) (metis id_take_nth_drop)
  show thesis
  proof (rule that [of "slot_entries (take i (q_held q))" "slot_entries (drop (Suc i) (q_held q))"])
    show "slot_entries (q_held q) = slot_entries (take i (q_held q)) @ slot_entries (drop (Suc i) (q_held q))"
      by (subst s(1)) simp
    show "slot_entries (q_held q') = slot_entries (take i (q_held q)) @ (frame_number p, g) # slot_entries (drop (Suc i) (q_held q))"
      by (subst s(2)) (simp add: frame_number_def)
    show "length (q_held q') = length (q_held q)" using i(2) by simp
    show "list_all P (q_held q')" if "list_all P (q_held q)" "P (Some \<lparr>held_addr = phys_raw p, held_generation = g\<rparr>)"
      unfolding i(2) using that by (rule list_all_update)
  qed
qed

lemma push_refused: "quarantine_push p g q = (q', False) \<Longrightarrow> q_held q' = q_held q"
  by (auto simp: quarantine_push_def Let_def split: option.splits)

text \<open>Pushing a batch: every frame is either in quarantine with its generation, or leaked.\<close>

lemma push_all_spec:
  assumes "slots_ok (q_held q)" "distinct (map frame_number frames)"
    "frame_number ` set frames \<inter> fst ` set (slot_entries (q_held q)) = {}"
    "\<forall>p \<in> set frames. is_valid_phys (phys_raw p)"
    "push_all g frames q (h, l) = (q', h', l')"
  shows "slots_ok (q_held q') \<and> length (q_held q') = length (q_held q) \<and>
    set (slot_entries (q_held q)) \<subseteq> set (slot_entries (q_held q')) \<and>
    set (slot_entries (q_held q')) \<subseteq> set (slot_entries (q_held q)) \<union> (\<lambda>p. (frame_number p, g)) ` set frames \<and>
    h' + l' = h + l + length frames"
  using assms
proof (induction g frames q "(h, l)" arbitrary: h l rule: push_all.induct)
  case (1 g q)
  then show ?case by simp
next
  case (2 g p ps q h l)
  obtain q1 r where push: "quarantine_push p g q = (q1, r)" by (cases "quarantine_push p g q")
  show ?case
  proof (cases r)
    case True
    obtain xs ys where q1: "slot_entries (q_held q) = xs @ ys" "slot_entries (q_held q1) = xs @ (frame_number p, g) # ys"
      "length (q_held q1) = length (q_held q)"
      "list_all (pred_option (\<lambda>e. is_valid_phys (held_addr e))) (q_held q1)"
      using push_entries [of p g q q1 "pred_option (\<lambda>e. is_valid_phys (held_addr e))"] push True 2(3,6)
      by (auto simp: slots_ok_def)
    have "slots_ok (q_held q1)" using 2(3,5) q1 by (auto simp: slots_ok_def)
    moreover have "frame_number ` set ps \<inter> fst ` set (slot_entries (q_held q1)) = {}"
      using 2(4,5) q1 by auto
    ultimately show ?thesis using 2(1) [of q1 r] push True 2(4,6,7) q1 by auto
  next
    case False
    then have "q_held q1 = q_held q" using push push_refused by simp
    then show ?thesis using 2(2) [of q1 r] push False 2(3-7) by auto
  qed
qed

text \<open>Releasing: exactly a set \<open>R\<close> of retired entries moves to the allocator; with room, all of
  them.\<close>

lemma release_loop_spec:
  assumes "fa_invar DEFAULT_CAPACITY fa" "slots_ok slots" "fst ` set (slot_entries slots) \<inter> free_frames fa = {}"
  shows "\<exists>fa' slots' n R. release_loop retired fa slots = Some (fa', slots', n) \<and> length slots' = length slots \<and>
    fa_invar DEFAULT_CAPACITY fa' \<and> R \<subseteq> set (slot_entries slots) \<and> slot_entries slots' = filter (\<lambda>x. x \<notin> R) (slot_entries slots) \<and>
    list_all (pred_option (\<lambda>e. is_valid_phys (held_addr e))) slots' \<and>
    free_frames fa' = free_frames fa \<union> fst ` R \<and> (\<forall>x \<in> R. retired (snd x)) \<and> n = card R \<and>
    (length (fa_ranges fa) + length (slot_entries slots) \<le> DEFAULT_CAPACITY \<longrightarrow> (\<forall>x \<in> set (slot_entries slots). retired (snd x) \<longrightarrow> x \<in> R))"
  using assms
proof (induction slots arbitrary: fa)
  case Nil
  then show ?case by (intro exI [of _ fa] exI [of _ "{}"]) simp
next
  case (Cons slot slots)
  have rest: "slots_ok slots" using Cons.prems(2) by (cases slot) (auto simp: slots_ok_def)
  have keep: ?case if stay: "release_loop retired fa (slot # slots) =
      map_option (\<lambda>(fa', rest, n). (fa', slot # rest, n)) (release_loop retired fa slots)"
    and full: "\<And>e. slot = Some e \<Longrightarrow> retired (held_generation e) \<Longrightarrow> length (fa_ranges fa) = DEFAULT_CAPACITY"
  proof -
    have "fst ` set (slot_entries slots) \<inter> free_frames fa = {}" using Cons.prems(3) by (cases slot) auto
    from Cons.IH [OF Cons.prems(1) rest this] obtain fa' slots' n R where
      r: "release_loop retired fa slots = Some (fa', slots', n)" "length slots' = length slots"
        "fa_invar DEFAULT_CAPACITY fa'" "R \<subseteq> set (slot_entries slots)" "slot_entries slots' = filter (\<lambda>x. x \<notin> R) (slot_entries slots)"
        "list_all (pred_option (\<lambda>e. is_valid_phys (held_addr e))) slots'"
        "free_frames fa' = free_frames fa \<union> fst ` R" "\<forall>x \<in> R. retired (snd x)" "n = card R"
        "length (fa_ranges fa) + length (slot_entries slots) \<le> DEFAULT_CAPACITY \<longrightarrow> (\<forall>x \<in> set (slot_entries slots). retired (snd x) \<longrightarrow> x \<in> R)"
      by blast
    have head: "(unat (held_addr e) div 4096, held_generation e) \<notin> R" if "slot = Some e" for e
      using that r(4) Cons.prems(2) by (force simp: slots_ok_def)
    show ?thesis
    proof (intro exI conjI)
      show "release_loop retired fa (slot # slots) = Some (fa', slot # slots', n)" using stay r(1) by simp
      show "slot_entries (slot # slots') = filter (\<lambda>x. x \<notin> R) (slot_entries (slot # slots))"
        using head r(5) by (cases slot) auto
      show "R \<subseteq> set (slot_entries (slot # slots))" using r(4) by (cases slot) auto
      show "list_all (pred_option (\<lambda>e. is_valid_phys (held_addr e))) (slot # slots')"
        using r(6) Cons.prems(2) by (simp add: slots_ok_def)
      show "length (fa_ranges fa) + length (slot_entries (slot # slots)) \<le> DEFAULT_CAPACITY \<longrightarrow>
          (\<forall>x \<in> set (slot_entries (slot # slots)). retired (snd x) \<longrightarrow> x \<in> R)"
        using r(10) full by (cases slot) auto
    qed (use r in auto)
  qed
  show ?case
  proof (cases slot)
    case None
    then show ?thesis by (intro keep) simp_all
  next
    case (Some e)
    show ?thesis
    proof (cases "retired (held_generation e)")
      case False
      then show ?thesis using Some by (intro keep) simp_all
    next
      case True
      have p: "phys_new (held_addr e) = Some (PhysAddr (held_addr e))"
        using Cons.prems(2) Some by (simp add: slots_ok_def phys_new_def)
      have fn: "frame_number (PhysAddr (held_addr e)) = unat (held_addr e) div 4096" by (simp add: frame_number_def)
      have "frame_number (PhysAddr (held_addr e)) \<notin> free_frames fa" using Cons.prems(3) Some fn by auto
      note d = deallocate_frame_spec [OF Cons.prems(1) this]
      show ?thesis
      proof (cases "deallocate_frame DEFAULT_CAPACITY fa (PhysAddr (held_addr e))")
        case (Ok fa1)
        have free1: "free_frames fa1 = insert (unat (held_addr e) div 4096) (free_frames fa)" and inv1: "fa_invar DEFAULT_CAPACITY fa1"
          using d Ok fn by simp_all
        have len: "length (fa_ranges fa1) \<le> length (fa_ranges fa) + 1" using Ok by (rule deallocate_frame_ranges)
        have fresh: "unat (held_addr e) div 4096 \<notin> fst ` set (slot_entries slots)"
          using Cons.prems(2) Some by (auto simp: slots_ok_def)
        then have "fst ` set (slot_entries slots) \<inter> free_frames fa1 = {}" using free1 Cons.prems(3) Some by auto
        from Cons.IH [OF inv1 rest this] obtain fa' slots' n R where
          r: "release_loop retired fa1 slots = Some (fa', slots', n)" "length slots' = length slots"
            "fa_invar DEFAULT_CAPACITY fa'" "R \<subseteq> set (slot_entries slots)" "slot_entries slots' = filter (\<lambda>x. x \<notin> R) (slot_entries slots)"
            "list_all (pred_option (\<lambda>e. is_valid_phys (held_addr e))) slots'"
            "free_frames fa' = free_frames fa1 \<union> fst ` R" "\<forall>x \<in> R. retired (snd x)" "n = card R"
            "length (fa_ranges fa1) + length (slot_entries slots) \<le> DEFAULT_CAPACITY \<longrightarrow> (\<forall>x \<in> set (slot_entries slots). retired (snd x) \<longrightarrow> x \<in> R)"
          by blast
        let ?x = "(unat (held_addr e) div 4096, held_generation e)"
        have x: "?x \<notin> set (slot_entries slots)" "?x \<notin> R" using fresh r(4) by (force, force)
        have fin: "finite R" using r(4) by (rule finite_subset) simp
        show ?thesis
        proof (intro exI conjI)
          show "release_loop retired fa (slot # slots) = Some (fa', None # slots', n + 1)"
            using Some True p Ok r(1) by simp
          show "slot_entries (None # slots') = filter (\<lambda>y. y \<notin> insert ?x R) (slot_entries (slot # slots))"
            using Some r(5) x(1) by (auto intro!: filter_cong)
          show "n + 1 = card (insert ?x R)" using r(9) x(2) fin by simp
          show "length (fa_ranges fa) + length (slot_entries (slot # slots)) \<le> DEFAULT_CAPACITY \<longrightarrow>
              (\<forall>y \<in> set (slot_entries (slot # slots)). retired (snd y) \<longrightarrow> y \<in> insert ?x R)"
            using r(10) len Some by auto
        qed (use r Some True free1 in auto)
      next
        case (Err err)
        with d have "length (fa_ranges fa) = DEFAULT_CAPACITY" by simp
        then show ?thesis using Some True p Err by (intro keep) simp_all
      next
        case Panic
        with d show ?thesis by simp
      qed
    qed
  qed
qed

subsection \<open>The machine around the quarantine\<close>

text \<open>What the code acts on: the page tables (\<open>mapped\<close>, the frames some address space maps as its own), the
  translations each core may have cached (\<open>tlb\<close>) and the frames leaked by an overflow (\<open>lost\<close>). A
  core may load a translation for a mapped frame at any time; only the holder of the lock changes
  mappings or drains the quarantine. \<open>retired\<close> unmaps the frames \<open>gone\<close>; \<open>detach\<close> has collected
  \<open>frames\<close> of them.

  Two calls give frames back past the quarantine: a \<open>brk\<close> that shrinks the heap (\<open>syscall.rs\<close>, \<open>shrunk\<close>), which
  invalidates the page on its own core only, and the last \<open>close\<close> of a shared memory object (\<open>shm.rs\<close>,
  \<open>closed_shared\<close>), which leaves the mappings of the object as they are. \<open>m_shared\<close> are the frames of the objects
  and \<open>m_outside\<close> all frames that ever were in an object or came back from \<open>brk\<close>: a core may have
  translations of them cached at any time.\<close>

record machine =
  m_bkl :: big_kernel_lock
  m_quarantine :: quarantine
  m_allocator :: frame_allocator
  m_mapped :: "nat set"
  m_tlb :: "nat \<Rightarrow> nat set"
  m_lost :: "nat set"
  m_shared :: "nat set"
  m_outside :: "nat set"

abbreviation quarantined :: "machine \<Rightarrow> (nat \<times> nat) list" where
  "quarantined m \<equiv> slot_entries (q_held (m_quarantine m))"

inductive machine_step :: "machine \<Rightarrow> machine \<Rightarrow> bool" where
  translated: "c < 1 + ap_started (m_bkl m) \<Longrightarrow> f \<in> m_mapped m \<union> m_outside m \<Longrightarrow>
    machine_step m (m\<lparr>m_tlb := (m_tlb m)(c := insert f (m_tlb m c))\<rparr>)"
| acquired: "c < 1 + ap_started (m_bkl m) \<Longrightarrow> acquire_attempt c entry started now (m_bkl m) = (b, Acquired flushed) \<Longrightarrow>
    machine_step m (m\<lparr>m_bkl := b, m_tlb := (if flushed then (m_tlb m)(c := {}) else m_tlb m)\<rparr>)"
| released: "bkl_held (m_bkl m) \<Longrightarrow> machine_step m (m\<lparr>m_bkl := release_lock (m_bkl m)\<rparr>)"
| mapped: "bkl_held (m_bkl m) \<Longrightarrow> allocate_frame (m_allocator m) = (fa, Some p) \<Longrightarrow>
    machine_step m (m\<lparr>m_allocator := fa, m_mapped := insert (frame_number p) (m_mapped m)\<rparr>)"
| retired: "bkl_held (m_bkl m) \<Longrightarrow> gone \<subseteq> m_mapped m \<Longrightarrow> frame_number ` set frames \<subseteq> gone \<Longrightarrow>
    distinct (map frame_number frames) \<Longrightarrow> \<forall>p \<in> set frames. is_valid_phys (phys_raw p) \<Longrightarrow>
    retire_detached frames overflow (m_bkl m) (m_quarantine m) = (b, q, counts) \<Longrightarrow>
    machine_step m (m\<lparr>m_bkl := b, m_quarantine := q, m_mapped := m_mapped m - gone,
      m_lost := m_lost m \<union> (gone - fst ` set (slot_entries (q_held q)))\<rparr>)"
| drained: "bkl_held (m_bkl m) \<Longrightarrow>
    release_retired (generation_is_retired (m_bkl m)) (m_allocator m) (m_quarantine m) = Some (fa, q, n) \<Longrightarrow>
    machine_step m (m\<lparr>m_allocator := fa, m_quarantine := q\<rparr>)"
| shrunk: "bkl_held (m_bkl m) \<Longrightarrow> c < 1 + ap_started (m_bkl m) \<Longrightarrow> frame_number p \<in> m_mapped m \<Longrightarrow>
    deallocate_frame DEFAULT_CAPACITY (m_allocator m) p = Ok fa \<Longrightarrow>
    machine_step m (m\<lparr>m_allocator := fa, m_mapped := m_mapped m - {frame_number p},
      m_tlb := (m_tlb m)(c := m_tlb m c - {frame_number p}), m_outside := insert (frame_number p) (m_outside m)\<rparr>)"
| made_shared: "bkl_held (m_bkl m) \<Longrightarrow> allocate_frame (m_allocator m) = (fa, Some p) \<Longrightarrow>
    machine_step m (m\<lparr>m_allocator := fa, m_shared := insert (frame_number p) (m_shared m), m_outside := insert (frame_number p) (m_outside m)\<rparr>)"
| closed_shared: "bkl_held (m_bkl m) \<Longrightarrow> frame_number p \<in> m_shared m \<Longrightarrow>
    deallocate_frame DEFAULT_CAPACITY (m_allocator m) p = Ok fa \<Longrightarrow>
    machine_step m (m\<lparr>m_allocator := fa, m_shared := m_shared m - {frame_number p}\<rparr>)"
| core_started: "1 + ap_started (m_bkl m) < MAX_CPUS \<Longrightarrow>
    machine_step m (m\<lparr>m_bkl := (m_bkl m)\<lparr>ap_started := ap_started (m_bkl m) + 1\<rparr>\<rparr>)"

definition lock_ok :: "big_kernel_lock \<Rightarrow> bool" where
  "lock_ok b \<longleftrightarrow> length (seen_generation b) = MAX_CPUS \<and> length (generation_flushes b) = MAX_CPUS \<and>
     1 + ap_started b \<le> MAX_CPUS \<and> list_all (\<lambda>g. g \<le> tlb_generation b) (seen_generation b)"

text \<open>A cached translation is of a mapped frame, of a lost one, of one that was used past the quarantine, or of one
  whose generation the core has not seen yet.\<close>

definition tlb_justified :: "machine \<Rightarrow> bool" where
  "tlb_justified m \<longleftrightarrow> (\<forall>c. \<forall>f \<in> m_tlb m c. c < 1 + ap_started (m_bkl m) \<and>
     (f \<in> m_mapped m \<or> f \<in> m_lost m \<or> f \<in> m_outside m \<or> (\<exists>g. (f, g) \<in> set (quarantined m) \<and> seen_generation_for c (m_bkl m) < g)))"

definition frames_apart :: "machine \<Rightarrow> bool" where
  "frames_apart m \<longleftrightarrow> free_frames (m_allocator m) \<inter> (m_mapped m \<union> m_lost m \<union> fst ` set (quarantined m)) = {} \<and>
     m_mapped m \<inter> (m_lost m \<union> fst ` set (quarantined m)) = {} \<and> m_lost m \<inter> fst ` set (quarantined m) = {}"

definition shared_apart :: "machine \<Rightarrow> bool" where
  "shared_apart m \<longleftrightarrow> m_shared m \<inter> (free_frames (m_allocator m) \<union> m_mapped m \<union> m_lost m \<union> fst ` set (quarantined m)) = {}"

definition machine_invar :: "machine \<Rightarrow> bool" where
  "machine_invar m \<longleftrightarrow> lock_ok (m_bkl m) \<and> fa_invar DEFAULT_CAPACITY (m_allocator m) \<and>
     slots_ok (q_held (m_quarantine m)) \<and> (\<forall>(f, g) \<in> set (quarantined m). g \<le> tlb_generation (m_bkl m)) \<and>
     frames_apart m \<and> shared_apart m \<and> tlb_justified m"

lemma seen_le: "lock_ok b \<Longrightarrow> seen_generation_for c b \<le> tlb_generation b"
  by (auto simp: lock_ok_def seen_generation_for_def list_all_length)

lemma release_lock_simps:
  "lock_ok (release_lock b) = lock_ok b" "seen_generation_for c (release_lock b) = seen_generation_for c b"
  "ap_started (release_lock b) = ap_started b" "tlb_generation (release_lock b) = tlb_generation b"
  by (simp_all add: release_lock_def lock_ok_def seen_generation_for_def)

lemma flush_spec:
  assumes "lock_ok b" "c < MAX_CPUS" "flush_if_generation_is_stale c b = (b', flushed)"
  shows "lock_ok b' \<and> tlb_generation b' = tlb_generation b \<and> ap_started b' = ap_started b \<and>
    seen_generation_for c b' = tlb_generation b \<and> (\<forall>d. d \<noteq> c \<longrightarrow> seen_generation_for d b' = seen_generation_for d b) \<and>
    (flushed \<longleftrightarrow> seen_generation_for c b \<noteq> tlb_generation b) \<and> (\<not> flushed \<longrightarrow> b' = b)"
  using assms
  by (auto simp: flush_if_generation_is_stale_def Let_def lock_ok_def seen_generation_for_def list_all_update
      split: if_splits)

lemma acquire_spec:
  assumes "lock_ok b" "c < MAX_CPUS" "acquire_attempt c entry started now b = (b', Acquired flushed)"
  shows "lock_ok b' \<and> tlb_generation b' = tlb_generation b \<and> ap_started b' = ap_started b \<and>
    seen_generation_for c b' = tlb_generation b \<and> (\<forall>d. d \<noteq> c \<longrightarrow> seen_generation_for d b' = seen_generation_for d b) \<and>
    (flushed \<longleftrightarrow> seen_generation_for c b \<noteq> tlb_generation b)"
proof -
  let ?b = "b\<lparr>bkl_held := True, holder_cpu := Some c, holder_entry := entry_as_u64 entry, acquired_cycles := now\<rparr>"
  have "lock_ok ?b" and seen: "seen_generation_for d ?b = seen_generation_for d b" for d
    using assms(1) by (simp_all add: lock_ok_def seen_generation_for_def)
  moreover have "flush_if_generation_is_stale c ?b = (b', flushed)"
    using assms(3) by (auto simp: acquire_attempt_def Let_def split: if_splits prod.splits)
  ultimately show ?thesis using flush_spec [of ?b c b' flushed] assms(2) by simp
qed

lemma retired_seen: "generation_is_retired b g \<Longrightarrow> c < 1 + ap_started b \<Longrightarrow> g \<le> seen_generation_for c b"
  by (auto simp: generation_is_retired_def list_all_iff simp del: upt_Suc)

lemma invar_acquired:
  assumes inv: "machine_invar m" and c: "c < 1 + ap_started (m_bkl m)"
    and a: "acquire_attempt c entry started now (m_bkl m) = (b, Acquired flushed)"
  shows "machine_invar (m\<lparr>m_bkl := b, m_tlb := (if flushed then (m_tlb m)(c := {}) else m_tlb m)\<rparr>)"
proof -
  have lock: "lock_ok (m_bkl m)" using inv by (simp add: machine_invar_def)
  then have "c < MAX_CPUS" using c by (simp add: lock_ok_def)
  note b = acquire_spec [OF lock this a]
  have stale: "\<not> seen_generation_for c (m_bkl m) < g"
    if "\<not> flushed" "(f, g) \<in> set (quarantined m)" for f g
    using that b inv by (auto simp: machine_invar_def)
  show ?thesis
    using inv b stale unfolding machine_invar_def frames_apart_def shared_apart_def tlb_justified_def
    by (cases flushed) (auto, metis+)
qed

lemma apart_after_retire:
  fixes F :: "'a set"
  assumes "F \<inter> (M \<union> L \<union> Q) = {} \<and> M \<inter> (L \<union> Q) = {} \<and> L \<inter> Q = {}" "G \<subseteq> M" "Q' \<subseteq> Q \<union> G" "Q \<subseteq> Q'"
  shows "F \<inter> (M - G \<union> (L \<union> (G - Q')) \<union> Q') = {} \<and> (M - G) \<inter> (L \<union> (G - Q') \<union> Q') = {} \<and> (L \<union> (G - Q')) \<inter> Q' = {}"
  using assms by blast

lemma apart_after_drain:
  fixes F :: "'a set"
  assumes "F \<inter> (M \<union> L \<union> Q) = {} \<and> M \<inter> (L \<union> Q) = {} \<and> L \<inter> Q = {}" "R \<subseteq> Q"
  shows "(F \<union> R) \<inter> (M \<union> L \<union> (Q - R)) = {} \<and> M \<inter> (L \<union> (Q - R)) = {} \<and> L \<inter> (Q - R) = {}"
  using assms by blast

text \<open>The frames of the shared objects stay apart as long as the others only move among themselves.\<close>

lemma shared_apart_mono:
  assumes "shared_apart m" "m_shared m' \<subseteq> m_shared m"
    "free_frames (m_allocator m') \<union> m_mapped m' \<union> m_lost m' \<union> fst ` set (quarantined m') \<subseteq>
     free_frames (m_allocator m) \<union> m_mapped m \<union> m_lost m \<union> fst ` set (quarantined m)"
  shows "shared_apart m'"
  using assms unfolding shared_apart_def by blast

lemma invar_retired:
  assumes inv: "machine_invar m" and room: "tlb_generation (m_bkl m) + 1 < u64_limit" and gone: "gone \<subseteq> m_mapped m" "frame_number ` set frames \<subseteq> gone"
    and fr: "distinct (map frame_number frames)" "\<forall>p \<in> set frames. is_valid_phys (phys_raw p)"
    and r: "retire_detached frames overflow (m_bkl m) (m_quarantine m) = (b, q, counts)"
  shows "machine_invar (m\<lparr>m_bkl := b, m_quarantine := q, m_mapped := m_mapped m - gone,
      m_lost := m_lost m \<union> (gone - fst ` set (slot_entries (q_held q)))\<rparr>)"
proof -
  let ?g = "tlb_generation (m_bkl m) + 1" and ?e = "slot_entries (q_held q)"
  have lock: "lock_ok (m_bkl m)" and apart: "frames_apart m" and slots: "slots_ok (q_held (m_quarantine m))"
    and old: "\<forall>(f, g) \<in> set (quarantined m). g \<le> tlb_generation (m_bkl m)" and tlb: "tlb_justified m"
    using inv by (simp_all add: machine_invar_def)
  have b: "b = note_mapping_changed (m_bkl m)" and p: "push_all ?g frames (m_quarantine m) (0, overflow) = (q, counts)"
    using r room by (simp_all add: retire_detached_def Let_def note_mapping_changed_def)
  have "frame_number ` set frames \<inter> fst ` set (quarantined m) = {}"
    using gone apart unfolding frames_apart_def by blast
  with push_all_spec [OF slots fr(1) _ fr(2)] p obtain h l where q: "slots_ok (q_held q)"
    "set (quarantined m) \<subseteq> set ?e" "set ?e \<subseteq> set (quarantined m) \<union> (\<lambda>p. (frame_number p, ?g)) ` set frames"
    by (cases counts) auto
  have lock': "lock_ok b" "tlb_generation b = ?g" "ap_started b = ap_started (m_bkl m)"
    and seen: "seen_generation_for c b = seen_generation_for c (m_bkl m)" for c
    using lock room unfolding b
    by (auto simp: note_mapping_changed_def lock_ok_def seen_generation_for_def list_all_iff le_SucI)
  have gens: "\<forall>(f, g) \<in> set ?e. g \<le> ?g" using q(3) old by fastforce
  have fsts: "fst ` set ?e \<subseteq> fst ` set (quarantined m) \<union> gone" using q(3) gone(2) by fastforce
  have fsts': "fst ` set (quarantined m) \<subseteq> fst ` set ?e" using q(2) by (rule image_mono)
  have just: "\<exists>g. (f, g) \<in> set ?e \<and> seen_generation_for c (m_bkl m) < g"
    if "f \<in> gone" "f \<in> fst ` set ?e" for f c
  proof -
    have "f \<notin> fst ` set (quarantined m)" using that(1) gone(1) apart by (auto simp: frames_apart_def)
    then have "(f, ?g) \<in> set ?e" using that(2) q(3) by force
    then show ?thesis using seen_le [OF lock, of c] by (intro exI [of _ ?g]) auto
  qed
  have "tlb_justified (m\<lparr>m_bkl := b, m_quarantine := q, m_mapped := m_mapped m - gone,
      m_lost := m_lost m \<union> (gone - fst ` set ?e)\<rparr>)"
    using tlb just q(2) unfolding tlb_justified_def by (simp add: seen lock'(3)) blast
  moreover have "frames_apart (m\<lparr>m_bkl := b, m_quarantine := q, m_mapped := m_mapped m - gone,
      m_lost := m_lost m \<union> (gone - fst ` set ?e)\<rparr>)"
    using apart_after_retire [OF apart [unfolded frames_apart_def] gone(1) fsts fsts']
    unfolding frames_apart_def by simp
  moreover have "shared_apart (m\<lparr>m_bkl := b, m_quarantine := q, m_mapped := m_mapped m - gone,
      m_lost := m_lost m \<union> (gone - fst ` set ?e)\<rparr>)"
    by (rule shared_apart_mono [of m]) (use inv gone(1) fsts in \<open>auto simp: machine_invar_def\<close>)
  ultimately show ?thesis using inv lock' q(1) gens by (simp add: machine_invar_def)
qed

lemma invar_drained:
  assumes inv: "machine_invar m"
    and r: "release_retired (generation_is_retired (m_bkl m)) (m_allocator m) (m_quarantine m) = Some (fa, q, n)"
  shows "machine_invar (m\<lparr>m_allocator := fa, m_quarantine := q\<rparr>)"
proof -
  let ?s = "q_held (m_quarantine m)"
  have fa: "fa_invar DEFAULT_CAPACITY (m_allocator m)" and slots: "slots_ok ?s" and apart: "frames_apart m"
    using inv by (simp_all add: machine_invar_def)
  have "fst ` set (slot_entries ?s) \<inter> free_frames (m_allocator m) = {}" using apart by (auto simp: frames_apart_def)
  from release_loop_spec [OF fa slots this, of "generation_is_retired (m_bkl m)"] obtain fa1 slots' n1 R where
    l1: "release_loop (generation_is_retired (m_bkl m)) (m_allocator m) ?s = Some (fa1, slots', n1)"
      "fa_invar DEFAULT_CAPACITY fa1" "R \<subseteq> set (slot_entries ?s)" "slot_entries slots' = filter (\<lambda>x. x \<notin> R) (slot_entries ?s)"
      "list_all (pred_option (\<lambda>e. is_valid_phys (held_addr e))) slots'"
      "free_frames fa1 = free_frames (m_allocator m) \<union> fst ` R" "\<forall>x \<in> R. generation_is_retired (m_bkl m) (snd x)"
    by blast
  have q: "q_held q = slots'" and "fa1 = fa" using r l1(1) by (auto simp: release_retired_def)
  note l = l1 [unfolded \<open>fa1 = fa\<close>]
  have "slots_ok slots'" using slots l(4,5) by (auto simp: slots_ok_def distinct_map_filter)
  moreover have "(f, g) \<notin> R" if "f \<in> m_tlb m c" "seen_generation_for c (m_bkl m) < g" for f g c
  proof
    assume "(f, g) \<in> R"
    moreover have "c < 1 + ap_started (m_bkl m)" using that(1) inv by (auto simp: machine_invar_def tlb_justified_def)
    ultimately show False using l(7) retired_seen [of "m_bkl m" g c] that(2) by auto
  qed
  then have "tlb_justified (m\<lparr>m_allocator := fa, m_quarantine := q\<rparr>)"
    using inv l(4) q unfolding machine_invar_def tlb_justified_def by simp blast
  moreover have "frames_apart (m\<lparr>m_allocator := fa, m_quarantine := q\<rparr>)"
  proof -
    have "inj_on fst (set (slot_entries ?s))" using slots by (simp add: slots_ok_def distinct_map)
    from inj_on_image_set_diff [OF this, of "set (slot_entries ?s)" R] l(3)
    have "fst ` (set (slot_entries ?s) - R) = fst ` set (slot_entries ?s) - fst ` R" by blast
    moreover have "set (slot_entries slots') = set (slot_entries ?s) - R" using l(4) by auto
    moreover have "fst ` R \<subseteq> fst ` set (slot_entries ?s)" using l(3) by (rule image_mono)
    ultimately show ?thesis using apart_after_drain [OF apart [unfolded frames_apart_def], of "fst ` R"]
      unfolding frames_apart_def by (simp add: q l(6))
  qed
  moreover have "shared_apart (m\<lparr>m_allocator := fa, m_quarantine := q\<rparr>)"
    by (rule shared_apart_mono [of m]) (use inv l(3,4,6) q in \<open>auto simp: machine_invar_def\<close>)
  ultimately show ?thesis using inv l(2,4) q by (auto simp: machine_invar_def)
qed

text \<open>A frame that the allocator hands out, to an address space or to a shared object, and one that it gets back directly.\<close>

lemma apart_moves:
  fixes F :: "'a set"
  assumes "F \<inter> (M \<union> L \<union> Q) = {} \<and> M \<inter> (L \<union> Q) = {} \<and> L \<inter> Q = {}" "S \<inter> (F \<union> M \<union> L \<union> Q) = {}"
  shows "x \<in> F \<Longrightarrow> (F - {x}) \<inter> (insert x M \<union> L \<union> Q) = {} \<and> insert x M \<inter> (L \<union> Q) = {} \<and> L \<inter> Q = {}"
    "x \<in> F \<Longrightarrow> S \<inter> (F - {x} \<union> insert x M \<union> L \<union> Q) = {}"
    "x \<in> F \<Longrightarrow> (F - {x}) \<inter> (M \<union> L \<union> Q) = {} \<and> M \<inter> (L \<union> Q) = {} \<and> L \<inter> Q = {}"
    "x \<in> F \<Longrightarrow> insert x S \<inter> (F - {x} \<union> M \<union> L \<union> Q) = {}"
    "x \<in> M \<Longrightarrow> insert x F \<inter> (M - {x} \<union> L \<union> Q) = {} \<and> (M - {x}) \<inter> (L \<union> Q) = {} \<and> L \<inter> Q = {}"
    "x \<in> M \<Longrightarrow> S \<inter> (insert x F \<union> (M - {x}) \<union> L \<union> Q) = {}"
    "x \<in> S \<Longrightarrow> insert x F \<inter> (M \<union> L \<union> Q) = {} \<and> M \<inter> (L \<union> Q) = {} \<and> L \<inter> Q = {}"
    "x \<in> S \<Longrightarrow> (S - {x}) \<inter> (insert x F \<union> M \<union> L \<union> Q) = {}"
    "x \<in> M \<Longrightarrow> x \<notin> F" "x \<in> S \<Longrightarrow> x \<notin> F"
  using assms by blast+

lemma invar_taken:
  assumes inv: "machine_invar m" and a: "allocate_frame (m_allocator m) = (fa, Some p)"
  shows "machine_invar (m\<lparr>m_allocator := fa, m_mapped := insert (frame_number p) (m_mapped m)\<rparr>)"
    "machine_invar (m\<lparr>m_allocator := fa, m_shared := insert (frame_number p) (m_shared m), m_outside := insert (frame_number p) (m_outside m)\<rparr>)"
proof -
  have "fa_invar DEFAULT_CAPACITY (m_allocator m)" using inv by (simp add: machine_invar_def)
  from fa.alloc_Some [OF this a] have f: "fa_invar DEFAULT_CAPACITY fa" "frame_number p \<in> free_frames (m_allocator m)"
    "free_frames fa = free_frames (m_allocator m) - {frame_number p}" by auto
  have apart: "frames_apart m" "shared_apart m" and tlb: "tlb_justified m" using inv by (simp_all add: machine_invar_def)
  note moves = apart_moves(1-4) [OF apart [unfolded frames_apart_def shared_apart_def] f(2)]
  have "tlb_justified (m\<lparr>m_allocator := fa, m_mapped := insert (frame_number p) (m_mapped m)\<rparr>)"
    "tlb_justified (m\<lparr>m_allocator := fa, m_shared := insert (frame_number p) (m_shared m), m_outside := insert (frame_number p) (m_outside m)\<rparr>)"
    using tlb unfolding tlb_justified_def by auto
  then show "machine_invar (m\<lparr>m_allocator := fa, m_mapped := insert (frame_number p) (m_mapped m)\<rparr>)"
    "machine_invar (m\<lparr>m_allocator := fa, m_shared := insert (frame_number p) (m_shared m), m_outside := insert (frame_number p) (m_outside m)\<rparr>)"
    using inv f(1) moves unfolding machine_invar_def frames_apart_def shared_apart_def f(3) [symmetric] by simp_all
qed

lemma invar_given:
  assumes inv: "machine_invar m" and d: "deallocate_frame DEFAULT_CAPACITY (m_allocator m) p = Ok fa"
  shows "frame_number p \<in> m_mapped m \<Longrightarrow> machine_invar (m\<lparr>m_allocator := fa, m_mapped := m_mapped m - {frame_number p},
      m_tlb := (m_tlb m)(c := m_tlb m c - {frame_number p}), m_outside := insert (frame_number p) (m_outside m)\<rparr>)"
    "frame_number p \<in> m_shared m \<Longrightarrow> machine_invar (m\<lparr>m_allocator := fa, m_shared := m_shared m - {frame_number p}\<rparr>)"
proof -
  have apart: "frames_apart m" "shared_apart m" and tlb: "tlb_justified m" and fi: "fa_invar DEFAULT_CAPACITY (m_allocator m)"
    using inv by (simp_all add: machine_invar_def)
  note moves = apart_moves(5-10) [OF apart [unfolded frames_apart_def shared_apart_def], of "frame_number p"]
  have f: "fa_invar DEFAULT_CAPACITY fa" "free_frames fa = insert (frame_number p) (free_frames (m_allocator m))"
    if "frame_number p \<in> m_mapped m \<or> frame_number p \<in> m_shared m"
  proof -
    have "frame_number p \<notin> free_frames (m_allocator m)" using that moves(5,6) by blast
    from fa.dealloc_Ok [OF fi this d]
    show "fa_invar DEFAULT_CAPACITY fa" "free_frames fa = insert (frame_number p) (free_frames (m_allocator m))" by simp_all
  qed
  have t: "tlb_justified (m\<lparr>m_allocator := fa, m_mapped := m_mapped m - {frame_number p},
      m_tlb := (m_tlb m)(c := m_tlb m c - {frame_number p}), m_outside := insert (frame_number p) (m_outside m)\<rparr>)"
    "tlb_justified (m\<lparr>m_allocator := fa, m_shared := m_shared m - {frame_number p}\<rparr>)" using tlb unfolding tlb_justified_def by auto
  show "machine_invar (m\<lparr>m_allocator := fa, m_mapped := m_mapped m - {frame_number p},
      m_tlb := (m_tlb m)(c := m_tlb m c - {frame_number p}), m_outside := insert (frame_number p) (m_outside m)\<rparr>)"
    if p: "frame_number p \<in> m_mapped m"
    using inv t(1) f moves(1,2) [OF p] p unfolding machine_invar_def frames_apart_def shared_apart_def by simp
  show "machine_invar (m\<lparr>m_allocator := fa, m_shared := m_shared m - {frame_number p}\<rparr>)" if p: "frame_number p \<in> m_shared m"
    using inv t(2) f moves(3,4) [OF p] p unfolding machine_invar_def frames_apart_def shared_apart_def by simp
qed

lemma machine_invar_step:
  "machine_step m m' \<Longrightarrow> machine_invar m \<Longrightarrow> tlb_generation (m_bkl m) + 1 < u64_limit \<Longrightarrow>
    machine_invar m' \<and> tlb_generation (m_bkl m') \<le> tlb_generation (m_bkl m) + 1"
proof (induction rule: machine_step.induct)
  case (core_started m)
  then show ?case
    by (auto simp: machine_invar_def lock_ok_def frames_apart_def shared_apart_def tlb_justified_def seen_generation_for_def) fastforce+
next
  case (released m)
  then show ?case
    by (simp add: machine_invar_def frames_apart_def shared_apart_def tlb_justified_def release_lock_simps)
next
  case (translated c m f)
  then show ?case by (auto simp: machine_invar_def frames_apart_def shared_apart_def tlb_justified_def)
next
  case (acquired c m entry started now b flushed)
  have "lock_ok (m_bkl m)" "c < MAX_CPUS" using acquired.prems(1) acquired.hyps(1) by (auto simp: machine_invar_def lock_ok_def)
  from acquire_spec [OF this acquired.hyps(2)] show ?case using invar_acquired [OF acquired.prems(1) acquired.hyps] by simp
next
  case (retired m gone frames overflow b q counts)
  have "tlb_generation b = tlb_generation (m_bkl m) + 1" using retired.hyps(6) retired.prems(2)
    by (auto simp: retire_detached_def Let_def note_mapping_changed_def)
  then show ?case using invar_retired [OF retired.prems retired.hyps(2-6)] by simp
qed (auto intro: invar_drained invar_taken invar_given)

lemma machine_invar_run:
  "(machine_step ^^ n) m m' \<Longrightarrow> machine_invar m \<Longrightarrow> tlb_generation (m_bkl m) + n < u64_limit \<Longrightarrow>
    machine_invar m' \<and> tlb_generation (m_bkl m') \<le> tlb_generation (m_bkl m) + n"
proof (induction n arbitrary: m')
  case (Suc n)
  then obtain m1 where m1: "(machine_step ^^ n) m m1" "machine_step m1 m'" by auto
  have ih: "machine_invar m1" "tlb_generation (m_bkl m1) \<le> tlb_generation (m_bkl m) + n" using Suc.IH [OF m1(1)] Suc.prems by auto
  then have "tlb_generation (m_bkl m1) + 1 < u64_limit" using Suc.prems(3) by linarith
  from machine_invar_step [OF m1(2) ih(1) this] show ?case using ih(2) by auto
qed auto

lemma held_count_entries: "held_count q = length (slot_entries (q_held q))"
proof -
  have "length (filter (\<lambda>slot. slot \<noteq> None) slots) = length (slot_entries slots)" for slots
    by (induction slots rule: slot_entries.induct) auto
  then show ?thesis by (simp add: held_count_def)
qed

subsection \<open>Properties\<close>

definition sample_lock :: big_kernel_lock where
  "sample_lock = \<lparr>bkl_held = True, holder_cpu = Some 0, holder_entry = 1, acquired_cycles = 0, tlb_generation = 0,
     seen_generation = [0, 0], generation_flushes = [0, 0], ap_started = 1\<rparr>"

definition sample_machine :: machine where
  "sample_machine = \<lparr>m_bkl = sample_lock, m_quarantine = quarantine_new, m_allocator = sample_allocator,
     m_mapped = {2001}, m_tlb = (\<lambda>c. if c = 1 then {2001} else {}), m_lost = {}, m_shared = {}, m_outside = {}\<rparr>"

lemma entries_new [simp]: "slot_entries (replicate n None) = []"
  by (induction n) auto

lemma sample_machine_invar: "machine_invar sample_machine"
  using sample_allocator_facts
  by (auto simp: machine_invar_def sample_machine_def sample_lock_def lock_ok_def MAX_CPUS_def quarantine_new_def
      slots_ok_def frames_apart_def shared_apart_def tlb_justified_def fa_invar_def DEFAULT_CAPACITY_def list_all_iff)

definition retired_sample :: machine where
  "retired_sample = (let (b, q, counts) = retire_detached [PhysAddr 0x7D1000] 0 sample_lock quarantine_new
     in sample_machine\<lparr>m_bkl := b, m_quarantine := q, m_mapped := {2001} - {2001},
          m_lost := {} \<union> ({2001} - fst ` set (slot_entries (q_held q)))\<rparr>)"

lemma retired_sample_facts:
  "(machine_step ^^ 1) sample_machine retired_sample"
  "quarantined retired_sample = [(2001, 1)]" "free_frames (m_allocator retired_sample) = {3 ..< 2000}"
  "fa_ranges (m_allocator retired_sample) = fa_ranges sample_allocator"
  "m_tlb retired_sample 1 = {2001}" "m_bkl retired_sample = sample_lock\<lparr>tlb_generation := 1\<rparr>"
proof -
  have cap: "QUARANTINE_CAPACITY = Suc 255" by (simp add: QUARANTINE_CAPACITY_def)
  have new: "quarantine_new = \<lparr>q_held = None # replicate 255 None, overflow_count = 0\<rparr>"
    unfolding quarantine_new_def cap replicate_Suc ..
  have r: "retire_detached [PhysAddr 0x7D1000] 0 sample_lock quarantine_new =
    (sample_lock\<lparr>tlb_generation := 1\<rparr>,
     \<lparr>q_held = Some \<lparr>held_addr = 0x7D1000, held_generation = 1\<rparr> # replicate 255 None, overflow_count = 0\<rparr>, 1, 0)"
    by (simp add: retire_detached_def note_mapping_changed_def sample_lock_def quarantine_push_def new Let_def)
  have fn: "frame_number (PhysAddr 0x7D1000) = 2001" by (simp add: frame_number_def)
  have "machine_step sample_machine retired_sample"
    using machine_step.retired [of sample_machine "{2001}" "[PhysAddr 0x7D1000]" 0] r fn
    by (simp add: retired_sample_def sample_machine_def sample_lock_def is_valid_phys_iff)
  then show "(machine_step ^^ 1) sample_machine retired_sample" by (simp add: eq_OO)
  show "quarantined retired_sample = [(2001, 1)]" "free_frames (m_allocator retired_sample) = {3 ..< 2000}"
    "fa_ranges (m_allocator retired_sample) = fa_ranges sample_allocator"
    "m_tlb retired_sample 1 = {2001}" "m_bkl retired_sample = sample_lock\<lparr>tlb_generation := 1\<rparr>"
    using sample_allocator_facts(2) by (simp_all add: retired_sample_def r sample_machine_def)
qed



text \<open>C10: once every participating core has taken the lock since the last change of the mappings,
  and the allocator's table of ranges has room for one more range for each frame held, draining empties the
  quarantine: every frame in it goes back to the allocator, none is lost. (Without the room a frame stays in quarantine.)\<close>

theorem quarantine_drains_once_every_core_entered:
  assumes inv: "machine_invar m"
    and seen: "\<forall>c \<in> {..< 1 + ap_started (m_bkl m)}. seen_generation_for c (m_bkl m) = tlb_generation (m_bkl m)"
    and room: "length (fa_ranges (m_allocator m)) + held_count (m_quarantine m) \<le> DEFAULT_CAPACITY"
  shows "\<exists>fa q. release_retired (generation_is_retired (m_bkl m)) (m_allocator m) (m_quarantine m) =
      Some (fa, q, held_count (m_quarantine m)) \<and> held_count q = 0 \<and>
      free_frames fa = free_frames (m_allocator m) \<union> fst ` set (quarantined m)"
proof -
  let ?s = "q_held (m_quarantine m)"
  have fa: "fa_invar DEFAULT_CAPACITY (m_allocator m)" and slots: "slots_ok ?s"
    and dj: "fst ` set (slot_entries ?s) \<inter> free_frames (m_allocator m) = {}"
    using inv unfolding machine_invar_def frames_apart_def by blast+
  have old: "generation_is_retired (m_bkl m) (snd x)" if "x \<in> set (slot_entries ?s)" for x
    using that inv seen by (auto simp: generation_is_retired_def list_all_iff machine_invar_def simp del: upt_Suc)
  from release_loop_spec [OF fa slots dj, of "generation_is_retired (m_bkl m)"] obtain fa' slots' n R where
    l: "release_loop (generation_is_retired (m_bkl m)) (m_allocator m) ?s = Some (fa', slots', n)"
      "R \<subseteq> set (slot_entries ?s)" "slot_entries slots' = filter (\<lambda>x. x \<notin> R) (slot_entries ?s)"
      "free_frames fa' = free_frames (m_allocator m) \<union> fst ` R" "n = card R"
      "length (fa_ranges (m_allocator m)) + length (slot_entries ?s) \<le> DEFAULT_CAPACITY \<longrightarrow>
         (\<forall>x \<in> set (slot_entries ?s). generation_is_retired (m_bkl m) (snd x) \<longrightarrow> x \<in> R)" by blast
  have R: "R = set (slot_entries ?s)" using l(2,6) old room by (auto simp: held_count_entries)
  have "distinct (slot_entries ?s)" using slots by (simp add: slots_ok_def distinct_map)
  then have "n = held_count (m_quarantine m)" using l(5) R by (simp add: held_count_entries distinct_card)
  moreover have "slot_entries slots' = []" using l(3) R by simp
  ultimately show ?thesis using l(1,4) R by (auto simp: release_retired_def held_count_entries)
qed

theorem quarantine_drains_once_every_core_entered_witness:
  "\<exists>m fa q. machine_invar m \<and> quarantined m = [(2001, 1)] \<and>
     release_retired (generation_is_retired (m_bkl m)) (m_allocator m) (m_quarantine m) = Some (fa, q, 1) \<and>
     2001 \<in> free_frames fa"
proof -
  let ?m = "retired_sample\<lparr>m_bkl := (m_bkl retired_sample)\<lparr>seen_generation := [1, 1]\<rparr>, m_tlb := (\<lambda>_. {})\<rparr>"
  have inv: "machine_invar ?m"
    using machine_invar_run [OF retired_sample_facts(1) sample_machine_invar] retired_sample_facts
    by (auto simp: sample_machine_def machine_invar_def lock_ok_def MAX_CPUS_def frames_apart_def shared_apart_def tlb_justified_def list_all_iff sample_lock_def)
  have held: "held_count (m_quarantine ?m) = 1" by (simp add: held_count_entries retired_sample_facts)
  have "\<forall>c \<in> {..< 1 + ap_started (m_bkl ?m)}. seen_generation_for c (m_bkl ?m) = tlb_generation (m_bkl ?m)"
    by (auto simp: retired_sample_facts sample_lock_def seen_generation_for_def less_Suc_eq)
  from quarantine_drains_once_every_core_entered [OF inv this] held obtain fa q where
    "release_retired (generation_is_retired (m_bkl ?m)) (m_allocator ?m) (m_quarantine ?m) = Some (fa, q, 1)"
    "free_frames fa = free_frames (m_allocator ?m) \<union> fst ` set (quarantined ?m)"
    by (auto simp: retired_sample_facts sample_allocator_def DEFAULT_CAPACITY_def)
  then show ?thesis using inv retired_sample_facts(2) by (intro exI [of _ ?m] exI [of _ fa] exI [of _ q]) simp
qed

end
