(* ===== verification/Elf.thy ===== *)
theory Elf
  imports Prelude
begin

text \<open>
  The ELF64 parser shared by the bootloader and the kernel (\<open>common/src/elf.rs\<close>): the checks of the
  header and of every program header, the range of a segment in the file, and the check of the
  segment layout that a loader by pages relies on. An index out of range is \<open>Panic\<close>.
\<close>

subsection \<open>Constants and data\<close>

definition EI_CLASS_OFFSET :: nat where "EI_CLASS_OFFSET = 4"
definition EI_DATA_OFFSET :: nat where "EI_DATA_OFFSET = 5"
definition ELF_MAGIC :: "u8 list" where "ELF_MAGIC = [0x7f, 0x45, 0x4c, 0x46]"
definition ELFCLASS64 :: u8 where "ELFCLASS64 = 2"
definition ELFDATA2LSB :: u8 where "ELFDATA2LSB = 1"
definition ET_EXEC :: u16 where "ET_EXEC = 2"
definition EM_X86_64 :: u16 where "EM_X86_64 = 62"
definition PT_LOAD :: u32 where "PT_LOAD = 1"
definition PF_X :: u32 where "PF_X = 1"
definition PF_W :: u32 where "PF_W = 2"
definition PF_R :: u32 where "PF_R = 4"
definition PF_PERMISSIONS :: u32 where "PF_PERMISSIONS = PF_X OR PF_W OR PF_R"
definition LOAD_PAGE_SIZE :: u64 where "LOAD_PAGE_SIZE = 4096"
definition EHDR_SIZE :: nat where "EHDR_SIZE = 64"
definition E_TYPE :: nat where "E_TYPE = 16"
definition E_MACHINE :: nat where "E_MACHINE = 18"
definition E_ENTRY :: nat where "E_ENTRY = 24"
definition E_PHOFF :: nat where "E_PHOFF = 32"
definition E_PHENTSIZE :: nat where "E_PHENTSIZE = 54"
definition E_PHNUM :: nat where "E_PHNUM = 56"
definition PHDR_SIZE :: nat where "PHDR_SIZE = 56"

lemmas elf_constants =
  EI_CLASS_OFFSET_def EI_DATA_OFFSET_def ELF_MAGIC_def ELFCLASS64_def ELFDATA2LSB_def ET_EXEC_def EM_X86_64_def
  EHDR_SIZE_def E_TYPE_def E_MACHINE_def E_ENTRY_def E_PHOFF_def E_PHENTSIZE_def E_PHNUM_def PHDR_SIZE_def

datatype elf_error =
    TooShort | BadMagic | NotElf64 | NotLittleEndian | NotExecutable | NotX86_64
  | ProgramHeaderOutOfBounds | BadProgramHeaderEntrySize | SegmentFileRangeOutOfBounds
  | SegmentMemorySmallerThanFile | SegmentAddressOverflow

datatype layout_error =
    EmptySegment nat | AddressOverflow nat | OutOfOrder nat | Overlap nat
  | MixedPermissionsInPage nat u64 | FileDataInSharedPage nat u64 | WritableAndExecutable nat

record elf =
  elf_data :: "u8 list"
  entry_point :: u64
  ph_off :: nat
  ph_num :: nat

record program_header =
  p_type :: u32
  p_flags :: u32
  p_offset :: u64
  p_vaddr :: u64
  p_paddr :: u64
  p_filesz :: u64
  p_memsz :: u64
  p_align :: u64

subsection \<open>Reading\<close>

definition read_u16 :: "u8 list \<Rightarrow> nat \<Rightarrow> ('e, u16) outcome" where
  "read_u16 data offset =
     (if offset + 2 \<le> length data then Ok (word_of_nat (le_nat (subslice offset 2 data))) else Panic)"

definition read_u32 :: "u8 list \<Rightarrow> nat \<Rightarrow> ('e, u32) outcome" where
  "read_u32 data offset =
     (if offset + 4 \<le> length data then Ok (word_of_nat (le_nat (subslice offset 4 data))) else Panic)"

definition read_u64 :: "u8 list \<Rightarrow> nat \<Rightarrow> ('e, u64) outcome" where
  "read_u64 data offset =
     (if offset + 8 \<le> length data then Ok (word_of_nat (le_nat (subslice offset 8 data))) else Panic)"

text \<open>One turn of the iterator \<open>program_headers\<close>.\<close>

definition program_header_at :: "elf \<Rightarrow> nat \<Rightarrow> ('e, program_header) outcome" where
  "program_header_at elf i =
     (let base = ph_off elf + i * PHDR_SIZE
      in if length (elf_data elf) < base + PHDR_SIZE then Panic
         else let ph = subslice base PHDR_SIZE (elf_data elf) in
           bind_outcome (read_u32 ph 0) (\<lambda>ty.
           bind_outcome (read_u32 ph 4) (\<lambda>flags.
           bind_outcome (read_u64 ph 8) (\<lambda>offset.
           bind_outcome (read_u64 ph 16) (\<lambda>vaddr.
           bind_outcome (read_u64 ph 24) (\<lambda>paddr.
           bind_outcome (read_u64 ph 32) (\<lambda>filesz.
           bind_outcome (read_u64 ph 40) (\<lambda>memsz.
           bind_outcome (read_u64 ph 48) (\<lambda>align.
             Ok \<lparr>p_type = ty, p_flags = flags, p_offset = offset, p_vaddr = vaddr, p_paddr = paddr,
                 p_filesz = filesz, p_memsz = memsz, p_align = align\<rparr>)))))))))"

fun program_headers_from :: "elf \<Rightarrow> nat \<Rightarrow> nat \<Rightarrow> ('e, program_header list) outcome" where
  "program_headers_from elf i 0 = Ok []"
| "program_headers_from elf i (Suc n) =
     bind_outcome (program_header_at elf i) (\<lambda>ph. bind_outcome (program_headers_from elf (Suc i) n) (\<lambda>phs. Ok (ph # phs)))"

definition program_headers :: "elf \<Rightarrow> ('e, program_header list) outcome" where
  "program_headers elf = program_headers_from elf 0 (ph_num elf)"

definition load_segments :: "elf \<Rightarrow> ('e, program_header list) outcome" where
  "load_segments elf = bind_outcome (program_headers elf) (\<lambda>phs. Ok (filter (\<lambda>ph. p_type ph = PT_LOAD) phs))"

definition file_range :: "nat \<Rightarrow> program_header \<Rightarrow> (elf_error, nat \<times> nat) outcome" where
  "file_range data_len ph =
     bind_outcome (ok_or SegmentFileRangeOutOfBounds (checked_add (p_offset ph) (p_filesz ph))) (\<lambda>e.
       if data_len < unat e then Err SegmentFileRangeOutOfBounds
       else Ok (unat (p_offset ph), unat e))"

definition segment_data :: "elf \<Rightarrow> program_header \<Rightarrow> (elf_error, u8 list) outcome" where
  "segment_data elf ph =
     bind_outcome (file_range (length (elf_data elf)) ph) (\<lambda>(from, to).
       if from \<le> to \<and> to \<le> length (elf_data elf) then Ok (subslice from (to - from) (elf_data elf)) else Panic)"

subsection \<open>Parsing\<close>

definition validate_header :: "elf \<Rightarrow> program_header \<Rightarrow> (elf_error, unit) outcome" where
  "validate_header elf ph =
     bind_outcome (file_range (length (elf_data elf)) ph) (\<lambda>_.
       if p_memsz ph < p_filesz ph then Err SegmentMemorySmallerThanFile
       else bind_outcome (ok_or SegmentAddressOverflow (checked_add (p_vaddr ph) (p_memsz ph))) (\<lambda>_. Ok ()))"

fun validate_from :: "elf \<Rightarrow> nat \<Rightarrow> nat \<Rightarrow> (elf_error, unit) outcome" where
  "validate_from elf i 0 = Ok ()"
| "validate_from elf i (Suc n) =
     bind_outcome (program_header_at elf i) (\<lambda>ph.
       bind_outcome (validate_header elf ph) (\<lambda>_. validate_from elf (Suc i) n))"

definition validate_program_headers :: "elf \<Rightarrow> (elf_error, unit) outcome" where
  "validate_program_headers elf = validate_from elf 0 (ph_num elf)"

definition parse :: "u8 list \<Rightarrow> (elf_error, elf) outcome" where
  "parse data =
     (if length data < EHDR_SIZE then Err TooShort
      else if subslice 0 4 data \<noteq> ELF_MAGIC then Err BadMagic
      else if data ! EI_CLASS_OFFSET \<noteq> ELFCLASS64 then Err NotElf64
      else if data ! EI_DATA_OFFSET \<noteq> ELFDATA2LSB then Err NotLittleEndian
      else
        bind_outcome (read_u16 data E_TYPE) (\<lambda>e_type.
        if e_type \<noteq> ET_EXEC then Err NotExecutable else
        bind_outcome (read_u16 data E_MACHINE) (\<lambda>e_machine.
        if e_machine \<noteq> EM_X86_64 then Err NotX86_64 else
        bind_outcome (read_u64 data E_ENTRY) (\<lambda>e_entry.
        bind_outcome (read_u64 data E_PHOFF) (\<lambda>e_phoff.
        bind_outcome (read_u16 data E_PHENTSIZE) (\<lambda>e_phentsize.
        bind_outcome (read_u16 data E_PHNUM) (\<lambda>e_phnum.
        if unat e_phentsize \<noteq> PHDR_SIZE then Err BadProgramHeaderEntrySize else
        bind_outcome (ok_or ProgramHeaderOutOfBounds
          (checked_mul (word_of_nat PHDR_SIZE :: u64) (word_of_nat (unat e_phnum)))) (\<lambda>ph_table_len.
        bind_outcome (ok_or ProgramHeaderOutOfBounds (checked_add e_phoff ph_table_len)) (\<lambda>ph_table_end.
        if length data < unat ph_table_end then Err ProgramHeaderOutOfBounds else
        let elf = \<lparr>elf_data = data, entry_point = e_entry, ph_off = unat e_phoff, ph_num = unat e_phnum\<rparr>
        in bind_outcome (validate_program_headers elf) (\<lambda>_. Ok elf))))))))))"

subsection \<open>The layout a loader by pages relies on\<close>

definition page_mask :: u64 where "page_mask = NOT (LOAD_PAGE_SIZE - 1)"

definition permissions_of :: "program_header \<Rightarrow> u32" where
  "permissions_of ph = p_flags ph AND PF_PERMISSIONS"

fun layout_loop :: "nat \<Rightarrow> (u64 \<times> u64 \<times> u32) option \<Rightarrow> program_header list \<Rightarrow> (layout_error, unit) outcome" where
  "layout_loop index previous [] = Ok ()"
| "layout_loop index previous (ph # phs) =
     (if p_memsz ph = 0 then Err (EmptySegment index)
      else bind_outcome (ok_or (AddressOverflow index) (checked_add (p_vaddr ph) (p_memsz ph))) (\<lambda>e.
        bind_outcome (ok_or (AddressOverflow index) (checked_add e (LOAD_PAGE_SIZE - 1))) (\<lambda>_.
        let permissions = permissions_of ph;
            continue = layout_loop (index + 1) (Some (p_vaddr ph, e, permissions)) phs
        in if permissions AND PF_W \<noteq> 0 \<and> permissions AND PF_X \<noteq> 0 then Err (WritableAndExecutable index)
           else case previous of
                  None \<Rightarrow> continue
                | Some (previous_start, previous_end, previous_permissions) \<Rightarrow>
                    if p_vaddr ph < previous_start then Err (OutOfOrder index)
                    else if p_vaddr ph < previous_end then Err (Overlap index)
                    else if previous_end = 0 then Panic
                    else let page = p_vaddr ph AND page_mask in
                         if (previous_end - 1) AND page_mask = page then
                           (if permissions \<noteq> previous_permissions then Err (MixedPermissionsInPage index page)
                            else if p_filesz ph \<noteq> 0 then Err (FileDataInSharedPage index page)
                            else continue)
                         else continue)))"

definition check_load_layout :: "program_header list \<Rightarrow> (layout_error, unit) outcome" where
  "check_load_layout segments = layout_loop 0 None segments"

definition elf_check_load_layout :: "elf \<Rightarrow> (layout_error, unit) outcome" where
  "elf_check_load_layout elf = bind_outcome (load_segments elf) check_load_layout"

subsection \<open>What parsing guarantees\<close>

lemma read_Ok:
  "offset + 2 \<le> length data \<Longrightarrow> \<exists>v. read_u16 data offset = Ok v"
  "offset + 4 \<le> length data \<Longrightarrow> \<exists>v. read_u32 data offset = Ok v"
  "offset + 8 \<le> length data \<Longrightarrow> \<exists>v. read_u64 data offset = Ok v"
  by (simp_all add: read_u16_def read_u32_def read_u64_def)

definition table_in_file :: "elf \<Rightarrow> bool" where
  "table_in_file elf \<longleftrightarrow> ph_off elf + PHDR_SIZE * ph_num elf \<le> length (elf_data elf)"

definition header_ok :: "elf \<Rightarrow> program_header \<Rightarrow> bool" where
  "header_ok elf ph \<longleftrightarrow> unat (p_offset ph) + unat (p_filesz ph) \<le> length (elf_data elf) \<and>
     unat (p_filesz ph) \<le> unat (p_memsz ph) \<and> unat (p_vaddr ph) + unat (p_memsz ph) < u64_limit \<and>
     segment_data elf ph = Ok (subslice (unat (p_offset ph)) (unat (p_filesz ph)) (elf_data elf))"

lemma program_header_at_Ok:
  assumes "table_in_file elf" "i < ph_num elf"
  obtains ph where "program_header_at elf i = (Ok ph :: ('a, program_header) outcome)"
proof -
  have "i * PHDR_SIZE + PHDR_SIZE \<le> PHDR_SIZE * ph_num elf"
    using mult_le_mono2 [of "Suc i" "ph_num elf" PHDR_SIZE] assms(2) by (simp add: mult.commute)
  then have "ph_off elf + i * PHDR_SIZE + PHDR_SIZE \<le> length (elf_data elf)"
    using assms(1) by (simp add: table_in_file_def)
  then show thesis
    by (intro that) (simp add: program_header_at_def read_u32_def read_u64_def PHDR_SIZE_def Let_def)
qed

lemma file_range_cases:
  "(\<exists>e. file_range n ph = Err e) \<or>
   file_range n ph = Ok (unat (p_offset ph), unat (p_offset ph) + unat (p_filesz ph)) \<and>
   unat (p_offset ph) + unat (p_filesz ph) \<le> n"
  by (cases "checked_add (p_offset ph) (p_filesz ph)") (auto simp: file_range_def dest!: checked_add_Some)

lemma validate_header_cases:
  "(\<exists>e. validate_header elf ph = Err e) \<or> validate_header elf ph = Ok () \<and> header_ok elf ph"
proof (cases "file_range (length (elf_data elf)) ph")
  case (Ok r)
  with file_range_cases [of "length (elf_data elf)" ph]
  have r: "r = (unat (p_offset ph), unat (p_offset ph) + unat (p_filesz ph))"
    "unat (p_offset ph) + unat (p_filesz ph) \<le> length (elf_data elf)" by auto
  then have "segment_data elf ph = Ok (subslice (unat (p_offset ph)) (unat (p_filesz ph)) (elf_data elf))"
    using Ok by (simp add: segment_data_def)
  moreover have "unat (p_vaddr ph) + unat (p_memsz ph) < u64_limit" if "checked_add (p_vaddr ph) (p_memsz ph) = Some e" for e
    using checked_add_Some [OF that] unat_u64_less [of e] by simp
  ultimately show ?thesis using Ok r
    by (cases "checked_add (p_vaddr ph) (p_memsz ph)") (auto simp: validate_header_def header_ok_def word_less_nat_alt)
qed (use file_range_cases [of "length (elf_data elf)" ph] in \<open>auto simp: validate_header_def\<close>)

lemma validate_from_cases:
  assumes "table_in_file elf" "i + n \<le> ph_num elf"
  shows "(\<exists>e. validate_from elf i n = Err e) \<or>
    validate_from elf i n = Ok () \<and>
      (\<exists>phs. program_headers_from elf i n = (Ok phs :: (elf_error, program_header list) outcome) \<and>
         length phs = n \<and> list_all (header_ok elf) phs)"
  using assms(2)
proof (induction n arbitrary: i)
  case 0
  then show ?case by simp
next
  case (Suc n)
  obtain ph where ph: "program_header_at elf i = (Ok ph :: (elf_error, program_header) outcome)"
    using program_header_at_Ok [OF assms(1), of i] Suc.prems by auto
  from Suc.IH [of "Suc i"] Suc.prems validate_header_cases [of elf ph] show ?case
    by (auto simp: ph)
qed

text \<open>C35: parsing never panics, whatever the bytes; and every image it accepts has a program header
  table inside the file, whose every entry can be read, names bytes inside the file (so
  \<open>segment_data\<close> returns exactly them), is at least as long in memory as in the file, and ends below
  \<open>2 ^ 64\<close>.\<close>

theorem parse_accepts_only_sound_images:
  "case parse data of
     Ok elf \<Rightarrow> elf_data elf = data \<and> table_in_file elf \<and>
       (\<exists>phs. program_headers elf = (Ok phs :: (elf_error, program_header list) outcome) \<and>
          length phs = ph_num elf \<and> list_all (header_ok elf) phs)
   | Err e \<Rightarrow> True
   | Panic \<Rightarrow> False"
proof (cases "length data < EHDR_SIZE")
  case True
  then show ?thesis by (simp add: parse_def)
next
  case False
  obtain ty ma en po pe pn where
    r: "read_u16 data E_TYPE = (Ok ty :: (elf_error, u16) outcome)" "read_u16 data E_MACHINE = (Ok ma :: (elf_error, u16) outcome)"
      "read_u64 data E_ENTRY = (Ok en :: (elf_error, u64) outcome)" "read_u64 data E_PHOFF = (Ok po :: (elf_error, u64) outcome)"
      "read_u16 data E_PHENTSIZE = (Ok pe :: (elf_error, u16) outcome)" "read_u16 data E_PHNUM = (Ok pn :: (elf_error, u16) outcome)"
    using False by (simp add: read_u16_def read_u64_def elf_constants)
  let ?elf = "\<lparr>elf_data = data, entry_point = en, ph_off = unat po, ph_num = unat pn\<rparr>"
  have sound: "case bind_outcome (validate_program_headers ?elf) (\<lambda>_. Ok ?elf) of
      Ok elf \<Rightarrow> elf_data elf = data \<and> table_in_file elf \<and>
       (\<exists>phs. program_headers elf = (Ok phs :: (elf_error, program_header list) outcome) \<and>
          length phs = ph_num elf \<and> list_all (header_ok elf) phs)
     | Err e \<Rightarrow> True | Panic \<Rightarrow> False" if "table_in_file ?elf"
    using validate_from_cases [OF that, of 0 "unat pn"] that
    by (auto simp: validate_program_headers_def program_headers_def)
  have table: "table_in_file ?elf"
    if "checked_mul (word_of_nat PHDR_SIZE :: u64) (word_of_nat (unat pn)) = Some len" "checked_add po len = Some e"
      "unat e \<le> length data" for len e
  proof -
    have "unat pn < 2 ^ 16" using unsigned_less [of pn] by simp
    then have "unat (word_of_nat (unat pn) :: u64) = unat pn" by (intro unat_word_of_nat) simp
    moreover have "unat (word_of_nat PHDR_SIZE :: u64) = PHDR_SIZE" by (simp add: PHDR_SIZE_def)
    ultimately have "unat len = PHDR_SIZE * unat pn" using checked_mul_Some [OF that(1)] by presburger
    then show ?thesis using checked_add_Some [OF that(2)] that(3) by (simp add: table_in_file_def)
  qed
  show ?thesis
  proof (cases "checked_mul (word_of_nat PHDR_SIZE :: u64) (word_of_nat (unat pn))")
    case None
    then show ?thesis using False by (simp add: parse_def r)
  next
    case (Some len)
    show ?thesis
    proof (cases "checked_add po len")
      case None
      then show ?thesis using False Some by (simp add: parse_def r)
    next
      case (Some e)
      then show ?thesis
        using False \<open>checked_mul _ _ = Some len\<close> sound [OF table [OF \<open>checked_mul _ _ = Some len\<close> Some]]
        by (simp add: parse_def r not_less Let_def)
    qed
  qed
qed

text \<open>An accepted image: one segment of four bytes in the file and eight in memory.\<close>

definition sample_image :: "u8 list" where
  "sample_image =
     [0x7f, 0x45, 0x4c, 0x46, 2, 1, 1, 0, 0, 0, 0, 0, 0, 0, 0, 0,
      2, 0, 62, 0, 1, 0, 0, 0, 0x00, 0x10, 0x40, 0, 0, 0, 0, 0,
      64, 0, 0, 0, 0, 0, 0, 0, 0, 0, 0, 0, 0, 0, 0, 0,
      0, 0, 0, 0, 64, 0, 56, 0, 1, 0, 0, 0, 0, 0, 0, 0,
      1, 0, 0, 0, 5, 0, 0, 0, 120, 0, 0, 0, 0, 0, 0, 0,
      0x00, 0x10, 0x40, 0, 0, 0, 0, 0, 0x00, 0x10, 0x40, 0, 0, 0, 0, 0,
      4, 0, 0, 0, 0, 0, 0, 0, 8, 0, 0, 0, 0, 0, 0, 0,
      0, 0x10, 0, 0, 0, 0, 0, 0,
      0xeb, 0xfe, 0x90, 0x90]"

lemma image_reads:
  "read_u16 sample_image 16 = Ok 2" "read_u16 sample_image 18 = Ok 62" "read_u64 sample_image 24 = Ok 0x401000"
  "read_u64 sample_image 32 = Ok 64" "read_u16 sample_image 54 = Ok 56" "read_u16 sample_image 56 = Ok 1"
  by (simp_all add: read_u16_def read_u64_def sample_image_def subslice_def)

lemma parse_sample_image:
  "\<exists>elf. parse sample_image = Ok elf \<and> load_segments elf = (Ok [\<lparr>p_type = 1, p_flags = 5, p_offset = 120, p_vaddr = 0x401000,
    p_paddr = 0x401000, p_filesz = 4, p_memsz = 8, p_align = 0x1000\<rparr>] :: (elf_error, program_header list) outcome)"
proof -
  let ?elf = "\<lparr>elf_data = sample_image, entry_point = 0x401000, ph_off = 64, ph_num = 1\<rparr>"
  let ?ph = "\<lparr>p_type = 1, p_flags = 5, p_offset = 120, p_vaddr = 0x401000,
    p_paddr = 0x401000, p_filesz = 4, p_memsz = 8, p_align = 0x1000\<rparr> :: program_header"
  have len: "length sample_image = 124" by (simp add: sample_image_def)
  have ph: "program_header_at ?elf 0 = (Ok ?ph :: (elf_error, program_header) outcome)"
    by (simp add: program_header_at_def PHDR_SIZE_def len Let_def)
      (simp add: read_u32_def read_u64_def sample_image_def subslice_def)
  have "validate_program_headers ?elf = Ok ()"
    using ph by (simp add: validate_program_headers_def validate_header_def file_range_def checked_add_def len)
  then have "parse sample_image = Ok ?elf"
    by (simp add: parse_def elf_constants image_reads len checked_mul_def checked_add_def Let_def)
      (simp add: sample_image_def subslice_def)
  moreover have "load_segments ?elf = (Ok [?ph] :: (elf_error, program_header list) outcome)"
    using ph by (simp add: load_segments_def program_headers_def PT_LOAD_def)
  ultimately show ?thesis by blast
qed

subsection \<open>What the layout check guarantees\<close>

definition seg_end :: "program_header \<Rightarrow> nat" where
  "seg_end ph = unat (p_vaddr ph) + unat (p_memsz ph)"

text \<open>The pages that a segment occupies.\<close>

definition seg_pages :: "program_header \<Rightarrow> nat set" where
  "seg_pages ph = {unat (p_vaddr ph) div 4096 .. (seg_end ph - 1) div 4096}"

definition segment_sound :: "program_header \<Rightarrow> bool" where
  "segment_sound ph \<longleftrightarrow> 0 < unat (p_memsz ph) \<and> seg_end ph + 4095 < u64_limit \<and>
     \<not> (permissions_of ph AND PF_W \<noteq> 0 \<and> permissions_of ph AND PF_X \<noteq> 0)"

definition may_follow :: "program_header \<Rightarrow> program_header \<Rightarrow> bool" where
  "may_follow a b \<longleftrightarrow> seg_end a \<le> unat (p_vaddr b) \<and>
     ((seg_end a - 1) div 4096 = unat (p_vaddr b) div 4096 \<longrightarrow> permissions_of b = permissions_of a \<and> p_filesz b = 0)"

fun chained :: "program_header option \<Rightarrow> program_header list \<Rightarrow> bool" where
  "chained previous [] = True"
| "chained previous (ph # phs) \<longleftrightarrow> segment_sound ph \<and> (case previous of None \<Rightarrow> True | Some a \<Rightarrow> may_follow a ph) \<and>
     chained (Some ph) phs"

lemma page_mask_eq: "page_mask = NOT (mask 12)"
  by (simp add: page_mask_def LOAD_PAGE_SIZE_def mask_eq_exp_minus_1)

lemma same_page: "(a AND page_mask = b AND page_mask) \<longleftrightarrow> unat (a :: u64) div 4096 = unat b div 4096"
proof -
  have "unat (w AND page_mask) = unat w div 4096 * 4096" for w :: u64
    unfolding page_mask_eq using unat_and_not_mask [of w 12] by simp
  then show ?thesis by (metis mult_cancel2 unsigned_word_eqI zero_neq_numeral)
qed

definition remembered :: "program_header \<Rightarrow> u64 \<times> u64 \<times> u32" where
  "remembered a = (p_vaddr a, p_vaddr a + p_memsz a, permissions_of a)"

lemma unat_seg_end: "segment_sound ph \<Longrightarrow> unat (p_vaddr ph + p_memsz ph) = seg_end ph"
  by (subst unat_add_no_overflow) (auto simp: segment_sound_def seg_end_def)

lemma layout_step:
  assumes "case previous of None \<Rightarrow> True | Some a \<Rightarrow> segment_sound a"
  shows "layout_loop index (map_option remembered previous) (ph # phs) =
    (if segment_sound ph \<and> (case previous of None \<Rightarrow> True | Some a \<Rightarrow> may_follow a ph)
     then layout_loop (index + 1) (Some (remembered ph)) phs
     else layout_loop index (map_option remembered previous) [ph]) \<and>
    (layout_loop index (map_option remembered previous) [ph] = Ok () \<longleftrightarrow>
       segment_sound ph \<and> (case previous of None \<Rightarrow> True | Some a \<Rightarrow> may_follow a ph)) \<and>
    layout_loop index (map_option remembered previous) [ph] \<noteq> Panic"
proof -
  have ok: "segment_sound ph \<longleftrightarrow> p_memsz ph \<noteq> 0 \<and> (\<exists>e. checked_add (p_vaddr ph) (p_memsz ph) = Some e \<and> e = p_vaddr ph + p_memsz ph \<and>
      checked_add e (LOAD_PAGE_SIZE - 1) \<noteq> None) \<and> \<not> (permissions_of ph AND PF_W \<noteq> 0 \<and> permissions_of ph AND PF_X \<noteq> 0)"
    by (auto simp: segment_sound_def seg_end_def checked_add_def LOAD_PAGE_SIZE_def unat_add_no_overflow word_eq_0_unat)
  show ?thesis
  proof (cases "segment_sound ph")
    case False
    then consider "p_memsz ph = 0" | "p_memsz ph \<noteq> 0" "checked_add (p_vaddr ph) (p_memsz ph) = None"
      | e where "p_memsz ph \<noteq> 0" "checked_add (p_vaddr ph) (p_memsz ph) = Some e" "checked_add e (LOAD_PAGE_SIZE - 1) = None"
      | e e' where "p_memsz ph \<noteq> 0" "checked_add (p_vaddr ph) (p_memsz ph) = Some e" "checked_add e (LOAD_PAGE_SIZE - 1) = Some e'"
          "permissions_of ph AND PF_W \<noteq> 0" "permissions_of ph AND PF_X \<noteq> 0"
      using ok unfolding checked_add_def by (metis option.exhaust)
    then have "\<exists>err. \<forall>phs. layout_loop index (map_option remembered previous) (ph # phs) = Err err"
      by cases simp_all
    then show ?thesis using False by (metis outcome.distinct(1,5))
  next
    case True
    then obtain e' where e: "p_memsz ph \<noteq> 0" "checked_add (p_vaddr ph) (p_memsz ph) = Some (p_vaddr ph + p_memsz ph)"
      "checked_add (p_vaddr ph + p_memsz ph) (LOAD_PAGE_SIZE - 1) = Some e'"
      "\<not> (permissions_of ph AND PF_W \<noteq> 0 \<and> permissions_of ph AND PF_X \<noteq> 0)" unfolding ok by auto
    show ?thesis
    proof (cases previous)
      case None
      then show ?thesis using True e by (auto simp: remembered_def Let_def)
    next
      case (Some a)
      then have a: "segment_sound a" using assms by simp
      have pe: "unat (p_vaddr a + p_memsz a) = seg_end a" using a by (rule unat_seg_end)
      have pos: "0 < seg_end a" "unat (p_vaddr a) \<le> seg_end a" using a by (auto simp: segment_sound_def seg_end_def)
      then have nz: "p_vaddr a + p_memsz a \<noteq> 0" using pe by (simp add: word_eq_0_unat)
      have "unat (p_vaddr a + p_memsz a - 1) = seg_end a - 1"
        using nz pe by (metis unat_minus_one)
      then have pg: "(p_vaddr a + p_memsz a - 1 AND page_mask = p_vaddr ph AND page_mask) \<longleftrightarrow>
          (seg_end a - 1) div 4096 = unat (p_vaddr ph) div 4096" by (simp only: same_page)
      have lt: "p_vaddr ph < p_vaddr a + p_memsz a \<longleftrightarrow> unat (p_vaddr ph) < seg_end a"
        "p_vaddr ph < p_vaddr a \<longleftrightarrow> unat (p_vaddr ph) < unat (p_vaddr a)"
        by (simp_all only: word_less_nat_alt pe)
      show ?thesis
        using True e nz pos unfolding Some
        by (auto simp: remembered_def pg lt may_follow_def Let_def)
    qed
  qed
qed

lemma layout_loop_chained:
  assumes "case previous of None \<Rightarrow> True | Some a \<Rightarrow> segment_sound a"
  shows "(layout_loop index (map_option remembered previous) phs = Ok () \<longleftrightarrow> chained previous phs) \<and>
    layout_loop index (map_option remembered previous) phs \<noteq> Panic"
  using assms
proof (induction phs arbitrary: index previous)
  case Nil
  then show ?case by simp
next
  case (Cons ph phs)
  show ?case
  proof (cases "segment_sound ph \<and> (case previous of None \<Rightarrow> True | Some a \<Rightarrow> may_follow a ph)")
    case True
    then show ?thesis
      using layout_step [OF Cons.prems, of index ph phs] Cons.IH [of "Some ph" "index + 1"] by simp
  next
    case False
    then show ?thesis using layout_step [OF Cons.prems, of index ph phs] by auto
  qed
qed

text \<open>Along a chain, a later segment lies above an earlier one, and shares a page with it only as one
  more segment without file contents and with the same permissions.\<close>

definition separate :: "program_header \<Rightarrow> program_header \<Rightarrow> bool" where
  "separate a b \<longleftrightarrow> seg_end a \<le> unat (p_vaddr b) \<and>
     (seg_pages a \<inter> seg_pages b \<noteq> {} \<longrightarrow> permissions_of b = permissions_of a \<and> p_filesz b = 0)"

lemma div_between:
  fixes x y z :: nat
  assumes "x \<le> y" "y \<le> z" "x div k = z div k"
  shows "x div k = y div k" "y div k = z div k"
  using div_le_mono [OF assms(1), of k] div_le_mono [OF assms(2), of k] assms(3) by auto

lemma shares_page:
  assumes "segment_sound a" "segment_sound b" "seg_end a \<le> unat (p_vaddr b)"
  shows "seg_pages a \<inter> seg_pages b \<noteq> {} \<longleftrightarrow> (seg_end a - 1) div 4096 = unat (p_vaddr b) div 4096"
proof -
  have b: "unat (p_vaddr b) \<le> seg_end b - 1" and a: "unat (p_vaddr a) \<le> seg_end a - 1"
    using assms(1,2) by (auto simp: segment_sound_def seg_end_def)
  have "(seg_end a - 1) div 4096 \<le> unat (p_vaddr b) div 4096" using assms(3) by (intro div_le_mono) simp
  moreover have "unat (p_vaddr b) div 4096 \<le> (seg_end b - 1) div 4096" using b by (rule div_le_mono)
  moreover have "unat (p_vaddr a) div 4096 \<le> (seg_end a - 1) div 4096" using a by (rule div_le_mono)
  ultimately show ?thesis by (auto simp: seg_pages_def)
qed

lemma may_follow_separate: "segment_sound a \<Longrightarrow> segment_sound b \<Longrightarrow> may_follow a b \<Longrightarrow> separate a b"
  using shares_page by (auto simp: may_follow_def separate_def)

lemma separate_chain:
  assumes "segment_sound a" "segment_sound b" "segment_sound c" "separate a b" "may_follow b c"
  shows "separate a c"
proof -
  have b: "unat (p_vaddr b) \<le> seg_end b - 1" using assms(2) by (auto simp: segment_sound_def seg_end_def)
  have ab: "seg_end a \<le> unat (p_vaddr b)" and bc: "seg_end b \<le> unat (p_vaddr c)"
    using assms(4,5) by (auto simp: separate_def may_follow_def)
  have ac: "seg_end a \<le> unat (p_vaddr c)" using ab bc b by simp
  have "permissions_of c = permissions_of a \<and> p_filesz c = 0" if "seg_pages a \<inter> seg_pages c \<noteq> {}"
  proof -
    have e: "(seg_end a - 1) div 4096 = unat (p_vaddr c) div 4096"
      using that shares_page [OF assms(1,3) ac] by simp
    have "(seg_end a - 1) div 4096 = unat (p_vaddr b) div 4096" "(seg_end b - 1) div 4096 = unat (p_vaddr c) div 4096"
      using e ab bc b by (auto intro: div_between(1) [of _ _ "unat (p_vaddr c)"] div_between(2) [of "seg_end a - 1"])
    then show ?thesis
      using assms(4,5) shares_page [OF assms(1,2) ab] by (auto simp: separate_def may_follow_def)
  qed
  then show ?thesis using ac by (simp add: separate_def)
qed

lemma separate_follow: "segment_sound a \<Longrightarrow> segment_sound b \<Longrightarrow> separate a b \<Longrightarrow> may_follow a b"
  using shares_page by (auto simp: may_follow_def separate_def)

lemma chained_above:
  "segment_sound x \<Longrightarrow> segment_sound a \<Longrightarrow> x = a \<or> separate x a \<Longrightarrow> chained (Some a) phs \<Longrightarrow>
   \<forall>y \<in> set phs. segment_sound y \<and> separate x y"
proof (induction phs arbitrary: a)
  case Nil
  then show ?case by simp
next
  case (Cons ph phs)
  have ph: "segment_sound ph" "may_follow a ph" "chained (Some ph) phs" using Cons.prems(4) by auto
  have "separate x ph" using Cons.prems(3)
  proof
    assume "x = a"
    then show ?thesis using may_follow_separate [OF Cons.prems(2) ph(1,2)] by simp
  next
    assume "separate x a"
    then show ?thesis using separate_chain [OF Cons.prems(1,2) ph(1) _ ph(2)] by simp
  qed
  with Cons.IH [OF Cons.prems(1) ph(1) _ ph(3)] ph(1) show ?case by simp
qed

lemma chained_sorted: "segment_sound a \<Longrightarrow> chained (Some a) phs \<Longrightarrow> sorted_wrt separate phs"
proof (induction phs arbitrary: a)
  case (Cons ph phs)
  have ph: "segment_sound ph" "chained (Some ph) phs" using Cons.prems(2) by auto
  with Cons.IH [OF ph] chained_above [OF ph(1) ph(1) _ ph(2)] show ?case by simp
qed simp

lemma sorted_chained:
  "segment_sound a \<Longrightarrow> list_all segment_sound phs \<Longrightarrow> sorted_wrt separate (a # phs) \<Longrightarrow> chained (Some a) phs"
proof (induction phs arbitrary: a)
  case (Cons ph phs)
  have "may_follow a ph" using Cons.prems by (intro separate_follow) auto
  with Cons.prems Cons.IH [of ph] show ?case by simp
qed simp

lemma chained_iff:
  "chained None phs \<longleftrightarrow> list_all segment_sound phs \<and> sorted_wrt separate phs"
proof (cases phs)
  case (Cons ph rest)
  show ?thesis
  proof
    assume "chained None phs"
    then have c: "segment_sound ph" "chained (Some ph) rest" using Cons by auto
    show "list_all segment_sound phs \<and> sorted_wrt separate phs"
      using c chained_above [OF c(1) c(1) _ c(2)] chained_sorted [OF c] Cons by (simp add: list_all_iff)
  next
    assume "list_all segment_sound phs \<and> sorted_wrt separate phs"
    then show "chained None phs" using sorted_chained [of ph rest] Cons by simp
  qed
qed simp

text \<open>C36: the layout check ends without panic on every list of segments, and accepts exactly those in
  which every segment is non-empty, ends with its last page below \<open>2 ^ 64\<close> and is not both writable
  and executable, and in which every segment lies above all earlier ones and shares a page with an
  earlier one only when it has no file contents and the same permissions. So a page never needs two
  permissions, nor the file contents of two segments.\<close>

theorem check_load_layout_accepts_exactly:
  "(check_load_layout segments = Ok () \<longleftrightarrow> list_all segment_sound segments \<and> sorted_wrt separate segments) \<and>
   check_load_layout segments \<noteq> Panic"
  using layout_loop_chained [of None 0 segments] chained_iff [of segments] by (simp add: check_load_layout_def)

end
