(* ===== verification/Heap.thy ===== *)
theory Heap
  imports Prelude
begin

text \<open>
  The kernel heap (\<open>kernel/src/heap/plan.rs\<close> and \<open>kernel/src/heap/allocator.rs\<close>): the placement of an
  allocation in a free block, and the first-fit allocator whose free list lives in the free blocks
  themselves.

  Memory is a function from the address of a machine word to its value, so that the nodes and the
  headers the code writes (\<open>repr(C)\<close>: one word per field) can overlap. Address 0 is the null
  pointer, the \<open>None\<close> of \<open>Option<NonNull<_>>\<close>. The walks over the list take fuel, since nothing
  but the invariant keeps the list in memory from being circular: one unit per node and one for the
  end is enough, as the refinement lemmas state.
\<close>

subsection \<open>Placement\<close>

record alloc_plan =
  header_addr :: nat
  user_addr :: nat
  block_start :: nat
  block_size :: nat
  trailing_split :: "(nat \<times> nat) option"

definition align_up :: "nat \<Rightarrow> nat \<Rightarrow> ('e, nat) outcome" where
  "align_up addr align =
     (if u64_limit \<le> addr + align then Panic
      else Ok (unat ((word_of_nat (addr + align - 1) :: u64) AND NOT (word_of_nat (align - 1)))))"

definition plan_allocation ::
  "nat \<Rightarrow> nat \<Rightarrow> nat \<Rightarrow> nat \<Rightarrow> nat \<Rightarrow> nat \<Rightarrow> nat \<Rightarrow> ('e, alloc_plan option) outcome" where
  "plan_allocation region_start region_end header_size header_align requested_size requested_align min_block_size =
     (let effective_align = max requested_align header_align in
      if u64_limit \<le> region_start + header_size then Ok None
      else bind_outcome (align_up (region_start + header_size) effective_align) (\<lambda>user.
        if user < header_size then Ok None
        else if user - header_size < region_start then Panic
        else if u64_limit \<le> user + requested_size then Ok None
        else bind_outcome (align_up (user + requested_size) header_align) (\<lambda>alloc_end.
          if region_end < alloc_end then Ok None
          else let leftover = region_end - alloc_end in
            if min_block_size \<le> leftover then
              Ok (Some \<lparr>header_addr = user - header_size, user_addr = user, block_start = region_start,
                        block_size = alloc_end - region_start, trailing_split = Some (alloc_end, leftover)\<rparr>)
            else
              Ok (Some \<lparr>header_addr = user - header_size, user_addr = user, block_start = region_start,
                        block_size = region_end - region_start, trailing_split = None\<rparr>))))"

definition merge_adjacent :: "nat \<Rightarrow> nat \<Rightarrow> nat \<Rightarrow> nat \<Rightarrow> ('e, (nat \<times> nat) option) outcome" where
  "merge_adjacent a_start a_size b_start b_size =
     (if u64_limit \<le> a_start + a_size then Panic
      else if a_start + a_size = b_start then
        (if u64_limit \<le> a_size + b_size then Panic else Ok (Some (a_start, a_size + b_size)))
      else if u64_limit \<le> b_start + b_size then Panic
      else if b_start + b_size = a_start then
        (if u64_limit \<le> a_size + b_size then Panic else Ok (Some (b_start, a_size + b_size)))
      else Ok None)"

subsection \<open>Nodes and headers in memory\<close>

record heap =
  free_list_head :: nat
  heap_mem :: "nat \<Rightarrow> nat"

datatype heap_stop = OutOfFuel

definition MIN_BLOCK_SIZE :: nat where "MIN_BLOCK_SIZE = 16"
definition HEADER_SIZE :: nat where "HEADER_SIZE = 32"
definition HEADER_ALIGN :: nat where "HEADER_ALIGN = 8"
definition HEADER_MAGIC :: nat where "HEADER_MAGIC = 0x5A65696B48454144"

lemmas heap_constants = MIN_BLOCK_SIZE_def HEADER_SIZE_def HEADER_ALIGN_def

definition node_size :: "heap \<Rightarrow> nat \<Rightarrow> nat" where
  "node_size h a = heap_mem h a"

definition node_next :: "heap \<Rightarrow> nat \<Rightarrow> nat" where
  "node_next h a = heap_mem h (a + 8)"

definition write_node :: "nat \<Rightarrow> nat \<Rightarrow> nat \<Rightarrow> heap \<Rightarrow> heap" where
  "write_node a sz nxt h = h\<lparr>heap_mem := (heap_mem h)(a := sz, a + 8 := nxt)\<rparr>"

definition set_next :: "nat \<Rightarrow> nat \<Rightarrow> heap \<Rightarrow> heap" where
  "set_next prev nxt h =
     (if prev = 0 then h\<lparr>free_list_head := nxt\<rparr>
      else h\<lparr>heap_mem := (heap_mem h)(prev + 8 := nxt)\<rparr>)"

definition write_header :: "nat \<Rightarrow> nat \<Rightarrow> nat \<Rightarrow> nat \<Rightarrow> heap \<Rightarrow> heap" where
  "write_header a start sz requested h =
     h\<lparr>heap_mem := (heap_mem h)(a := HEADER_MAGIC, a + 8 := start, a + 16 := sz, a + 24 := requested)\<rparr>"

subsection \<open>The allocator\<close>

definition heap_empty :: heap where
  "heap_empty = \<lparr>free_list_head = 0, heap_mem = (\<lambda>_. 0)\<rparr>"

definition heap_init :: "nat \<Rightarrow> nat \<Rightarrow> heap \<Rightarrow> heap" where
  "heap_init start sz h = (write_node start sz 0 h)\<lparr>free_list_head := start\<rparr>"

fun free_bytes_loop :: "nat \<Rightarrow> nat \<Rightarrow> nat \<Rightarrow> heap \<Rightarrow> (heap_stop, nat) outcome" where
  "free_bytes_loop 0 current acc h = Err OutOfFuel"
| "free_bytes_loop (Suc fuel) current acc h =
     (if current = 0 then Ok acc
      else if u64_limit \<le> acc + node_size h current then Panic
      else free_bytes_loop fuel (node_next h current) (acc + node_size h current) h)"

definition free_bytes :: "nat \<Rightarrow> heap \<Rightarrow> (heap_stop, nat) outcome" where
  "free_bytes fuel h = free_bytes_loop fuel (free_list_head h) 0 h"

fun free_block_count_loop :: "nat \<Rightarrow> nat \<Rightarrow> nat \<Rightarrow> heap \<Rightarrow> (heap_stop, nat) outcome" where
  "free_block_count_loop 0 current acc h = Err OutOfFuel"
| "free_block_count_loop (Suc fuel) current acc h =
     (if current = 0 then Ok acc else free_block_count_loop fuel (node_next h current) (acc + 1) h)"

definition free_block_count :: "nat \<Rightarrow> heap \<Rightarrow> (heap_stop, nat) outcome" where
  "free_block_count fuel h = free_block_count_loop fuel (free_list_head h) 0 h"

definition consume_node :: "nat \<Rightarrow> nat \<Rightarrow> alloc_plan \<Rightarrow> heap \<Rightarrow> heap" where
  "consume_node prev nxt plan h =
     (case trailing_split plan of
        Some (start, sz) \<Rightarrow> set_next prev start (write_node start sz nxt h)
      | None \<Rightarrow> set_next prev nxt h)"

fun alloc_loop :: "nat \<Rightarrow> nat \<Rightarrow> nat \<Rightarrow> nat \<Rightarrow> nat \<Rightarrow> heap \<Rightarrow> (heap_stop, heap \<times> nat) outcome" where
  "alloc_loop 0 requested_size requested_align prev current h = Err OutOfFuel"
| "alloc_loop (Suc fuel) requested_size requested_align prev current h =
     (if current = 0 then Ok (h, 0)
      else if u64_limit \<le> current + node_size h current then Panic
      else let region_end = current + node_size h current;
               nxt = node_next h current
           in bind_outcome (plan_allocation current region_end HEADER_SIZE HEADER_ALIGN
                              requested_size requested_align MIN_BLOCK_SIZE) (\<lambda>found.
              case found of
                Some plan \<Rightarrow>
                  Ok (write_header (header_addr plan) (block_start plan) (block_size plan) requested_size
                        (consume_node prev nxt plan h), user_addr plan)
              | None \<Rightarrow> alloc_loop fuel requested_size requested_align current nxt h))"

text \<open>The null pointer reports exhaustion.\<close>

definition heap_alloc :: "nat \<Rightarrow> nat \<Rightarrow> nat \<Rightarrow> heap \<Rightarrow> (heap_stop, heap \<times> nat) outcome" where
  "heap_alloc fuel requested_size requested_align h =
     (if requested_size = 0 then Panic
      else alloc_loop fuel requested_size requested_align 0 (free_list_head h) h)"

fun position_loop :: "nat \<Rightarrow> nat \<Rightarrow> nat \<Rightarrow> nat \<Rightarrow> heap \<Rightarrow> (heap_stop, nat \<times> nat) outcome" where
  "position_loop 0 start prev current h = Err OutOfFuel"
| "position_loop (Suc fuel) start prev current h =
     (if current = 0 \<or> start < current then Ok (prev, current)
      else position_loop fuel start current (node_next h current) h)"

definition merge_next :: "nat \<Rightarrow> nat \<Rightarrow> nat \<Rightarrow> heap \<Rightarrow> (heap_stop, nat \<times> nat \<times> nat) outcome" where
  "merge_next start sz nxt h =
     (if nxt = 0 then Ok (start, sz, 0)
      else bind_outcome (merge_adjacent start sz nxt (node_size h nxt)) (\<lambda>m.
        case m of Some (ms, msize) \<Rightarrow> Ok (ms, msize, node_next h nxt) | None \<Rightarrow> Ok (start, sz, nxt)))"

definition link_previous :: "nat \<Rightarrow> nat \<Rightarrow> nat \<Rightarrow> nat \<Rightarrow> heap \<Rightarrow> (heap_stop, heap) outcome" where
  "link_previous prev start sz nxt h =
     (if prev = 0 then Ok (h\<lparr>free_list_head := start\<rparr>)
      else bind_outcome (merge_adjacent prev (node_size h prev) start sz) (\<lambda>m.
        case m of
          Some (_, msize) \<Rightarrow> Ok (write_node prev msize nxt h)
        | None \<Rightarrow> Ok (set_next prev start h)))"

definition heap_dealloc :: "nat \<Rightarrow> nat \<Rightarrow> nat \<Rightarrow> heap \<Rightarrow> (heap_stop, heap) outcome" where
  "heap_dealloc fuel ptr layout_size h =
     (if ptr < HEADER_SIZE then Panic
      else let hd = ptr - HEADER_SIZE; mem = heap_mem h in
        if mem hd \<noteq> HEADER_MAGIC then Panic
        else if mem (hd + 24) \<noteq> layout_size then Panic
        else let start = mem (hd + 8); sz = mem (hd + 16) in
          bind_outcome (position_loop fuel start 0 (free_list_head h) h) (\<lambda>(prev, nxt).
          bind_outcome (merge_next start sz nxt h) (\<lambda>(merged_start, merged_size, merged_next).
          if merged_start = 0 then Panic
          else link_previous prev merged_start merged_size merged_next
                 (write_node merged_start merged_size merged_next h))))"

subsection \<open>What a placement guarantees\<close>

lemma align_up_eq:
  assumes "align = 2 ^ k" "addr + align < u64_limit"
  shows "align_up addr align = Ok (next_multiple_of addr align)"
proof -
  have pos: "0 < align" using assms(1) by simp
  have m: "(word_of_nat (align - 1) :: u64) = mask k"
    using assms(1) by (simp add: mask_eq_exp_minus_1 of_nat_diff)
  have "unat ((word_of_nat (addr + align - 1) :: u64) AND NOT (mask k)) =
      unat (word_of_nat (addr + align - 1) :: u64) div 2 ^ k * 2 ^ k" by (rule unat_and_not_mask)
  also have "unat (word_of_nat (addr + align - 1) :: u64) = addr + align - 1"
    using assms(2) by (intro unat_word_of_nat) simp
  also have "(addr + align - 1) div 2 ^ k * 2 ^ k = next_multiple_of addr align"
  proof (cases "addr mod align = 0")
    case True
    then obtain q where "addr = align * q" by (auto simp: mod_eq_0_iff_dvd)
    moreover have "(align * q + align - 1) div align = q"
      using pos by (intro div_nat_eqI) auto
    ultimately show ?thesis using True assms(1) by (simp add: next_multiple_of_def mult.commute)
  next
    case False
    let ?q = "addr div align" and ?r = "addr mod align"
    obtain q r where q: "?q = q" "?r = r" by simp
    have a: "addr = align * q + r" "r < align" "r \<noteq> 0"
      using mult_div_mod_eq [of align addr] mod_less_divisor [OF pos, of addr] False q by auto
    have "(addr + align - 1) div align = q + 1"
      unfolding a(1) using a(2,3) by (intro div_nat_eqI) (auto simp: algebra_simps)
    then have "(addr + align - 1) div align * align = addr + (align - ?r)"
      using a(1,2) q by (simp add: algebra_simps)
    then show ?thesis using False assms(1) by (simp add: next_multiple_of_def)
  qed
  finally show ?thesis using assms(2) m by (simp add: align_up_def)
qed

text \<open>A request the allocator can compute with: no sum of it reaches \<open>2 ^ 64\<close>.\<close>

definition request_ok :: "nat \<Rightarrow> nat \<Rightarrow> nat \<Rightarrow> bool" where
  "request_ok sz align limit \<longleftrightarrow> 0 < sz \<and> (\<exists>k. align = 2 ^ k) \<and> limit + sz + 2 * align + 64 < u64_limit"

definition plan_ok :: "nat \<Rightarrow> nat \<Rightarrow> nat \<Rightarrow> nat \<Rightarrow> alloc_plan \<Rightarrow> bool" where
  "plan_ok sz align rs re p \<longleftrightarrow> user_addr p mod align = 0 \<and> 8 dvd user_addr p \<and>
     rs \<le> header_addr p \<and> header_addr p + 32 = user_addr p \<and> block_start p = rs \<and>
     user_addr p + sz \<le> rs + block_size p \<and> 8 dvd block_size p \<and>
     (case trailing_split p of
        None \<Rightarrow> rs + block_size p = re
      | Some (st, n) \<Rightarrow> st = rs + block_size p \<and> st + n = re \<and> 16 \<le> n \<and> 8 dvd n)"

abbreviation place :: "nat \<Rightarrow> nat \<Rightarrow> nat \<Rightarrow> nat \<Rightarrow> (heap_stop, alloc_plan option) outcome" where
  "place sz align rs re \<equiv> plan_allocation rs re HEADER_SIZE HEADER_ALIGN sz align MIN_BLOCK_SIZE"

lemma power_dvd_max: "\<exists>k. align = 2 ^ k \<Longrightarrow> align dvd max align (8::nat) \<and> 8 dvd max align 8 \<and> (\<exists>k. max align 8 = 2 ^ k)"
proof -
  assume "\<exists>k. align = 2 ^ k"
  then obtain k where k: "align = 2 ^ k" by blast
  have 8: "(8::nat) = 2 ^ 3" by simp
  show ?thesis
  proof (cases "k \<le> 3")
    case True
    then have "align \<le> 8" unfolding k 8 by (intro power_increasing) auto
    then have "max align 8 = 2 ^ 3" by simp
    then show ?thesis unfolding k using True by (metis 8 dvd_refl le_imp_power_dvd)
  next
    case False
    then have "(8::nat) \<le> align" unfolding k 8 by (intro power_increasing) auto
    then have "max align 8 = align" by simp
    then show ?thesis unfolding k using False by (metis 8 dvd_refl le_imp_power_dvd nat_le_linear)
  qed
qed

lemma place_eq:
  assumes req: "request_ok sz align re" and r: "rs \<le> re"
  defines "u \<equiv> next_multiple_of (rs + 32) (max align 8)"
  defines "e \<equiv> next_multiple_of (u + sz) 8"
  shows "place sz align rs re = (if re < e then Ok None
      else if 16 \<le> re - e then Ok (Some \<lparr>header_addr = u - 32, user_addr = u, block_start = rs, block_size = e - rs,
              trailing_split = Some (e, re - e)\<rparr>)
      else Ok (Some \<lparr>header_addr = u - 32, user_addr = u, block_start = rs, block_size = re - rs, trailing_split = None\<rparr>))"
    "rs + 32 \<le> u" "align dvd u" "8 dvd u" "u < rs + 32 + max align 8" "u + sz \<le> e" "8 dvd e" "e < u + sz + 8"
proof -
  let ?ea = "max align 8"
  have lim: "re + sz + 2 * align + 64 < u64_limit" "0 < sz" using req by (auto simp: request_ok_def)
  obtain k where k: "?ea = 2 ^ k" and dv: "align dvd ?ea" "8 dvd ?ea"
    using power_dvd_max [of align] req by (auto simp: request_ok_def)
  have pos: "0 < ?ea" by simp
  note up = next_multiple_of_props [OF pos, of "rs + 32", folded u_def]
  have au: "align_up (rs + 32) ?ea = (Ok u :: (heap_stop, nat) outcome)"
    unfolding u_def using k lim r by (intro align_up_eq [of _ k]) auto
  note ep = next_multiple_of_props [of 8 "u + sz", folded e_def, simplified]
  have ae: "align_up (u + sz) 8 = (Ok e :: (heap_stop, nat) outcome)"
    unfolding e_def using lim r up by (intro align_up_eq [of _ 3]) auto
  have big: "rs + 32 < u64_limit" "u + sz < u64_limit" using lim r up(3) by auto
  show "place sz align rs re = (if re < e then Ok None
      else if 16 \<le> re - e then Ok (Some \<lparr>header_addr = u - 32, user_addr = u, block_start = rs, block_size = e - rs,
              trailing_split = Some (e, re - e)\<rparr>)
      else Ok (Some \<lparr>header_addr = u - 32, user_addr = u, block_start = rs, block_size = re - rs, trailing_split = None\<rparr>))"
    using au ae big up(1) by (auto simp: plan_allocation_def heap_constants Let_def)
  show "rs + 32 \<le> u" "align dvd u" "8 dvd u" "u < rs + 32 + max align 8" "u + sz \<le> e" "8 dvd e" "e < u + sz + 8"
    using up ep dv by (auto intro: dvd_trans simp: mod_eq_0_iff_dvd)
qed

lemma place_spec:
  assumes req: "request_ok sz align re" and al: "8 dvd rs" "8 dvd re" and r: "rs \<le> re"
  shows "(\<exists>p. place sz align rs re = Ok (Some p) \<and> plan_ok sz align rs re p) \<or>
         place sz align rs re = Ok None \<and> re < rs + sz + max align 8 + 40"
proof -
  define u where "u = next_multiple_of (rs + 32) (max align 8)"
  define e where "e = next_multiple_of (u + sz) 8"
  note eq = place_eq [OF req r, folded u_def, folded e_def]
  show ?thesis
  proof (cases "re < e")
    case True
    then show ?thesis using eq(1,5,8) by simp
  next
    case False
    have "plan_ok sz align rs re \<lparr>header_addr = u - 32, user_addr = u, block_start = rs, block_size = e - rs,
              trailing_split = Some (e, re - e)\<rparr>" if "16 \<le> re - e"
      using that eq(2-7) al False by (auto simp: plan_ok_def intro: dvd_diff_nat)
    moreover have "plan_ok sz align rs re \<lparr>header_addr = u - 32, user_addr = u, block_start = rs, block_size = re - rs, trailing_split = None\<rparr>"
      using eq(2-7) al False r by (auto simp: plan_ok_def intro: dvd_diff_nat)
    ultimately show ?thesis using eq(1) False by auto
  qed
qed

text \<open>Where a request fits, without reference to how a place is computed: the header lies in the block before the
  address, the address has the alignment of the request and of the header, and the bytes end within the block.\<close>

definition room :: "nat \<Rightarrow> nat \<Rightarrow> nat \<times> nat \<Rightarrow> nat \<Rightarrow> bool" where
  "room sz align = (\<lambda>(s, n) u. s + HEADER_SIZE \<le> u \<and> align dvd u \<and> HEADER_ALIGN dvd u \<and> u + sz \<le> s + n)"

text \<open>The lowest such address of the first block that has one.\<close>

fun first_fit :: "nat \<Rightarrow> nat \<Rightarrow> (nat \<times> nat) list \<Rightarrow> nat \<Rightarrow> bool" where
  "first_fit sz align [] p = False"
| "first_fit sz align (b # bs) p \<longleftrightarrow>
     (if \<exists>u. room sz align b u then room sz align b p \<and> (\<forall>u. room sz align b u \<longrightarrow> p \<le> u) else first_fit sz align bs p)"

lemma first_fit_room: "first_fit sz align bs p \<Longrightarrow> \<exists>b \<in> set bs. room sz align b p"
  by (induction bs) (auto split: if_splits)

lemma place_exact:
  assumes req: "request_ok sz align (s + n)" and al: "8 dvd s" "8 dvd n"
  shows "(\<exists>p. place sz align s (s + n) = Ok (Some p) \<and> room sz align (s, n) (user_addr p) \<and> (\<forall>v. room sz align (s, n) v \<longrightarrow> user_addr p \<le> v)) \<or>
         place sz align s (s + n) = Ok None \<and> (\<forall>v. \<not> room sz align (s, n) v)"
proof -
  define u where "u = next_multiple_of (s + 32) (max align 8)"
  define e where "e = next_multiple_of (u + sz) 8"
  note eq = place_eq [OF req le_add1, folded u_def, folded e_def]
  have least: "u \<le> v" if "room sz align (s, n) v" for v
    unfolding u_def using that by (intro next_multiple_of_least) (auto simp: room_def heap_constants max_def mod_eq_0_iff_dvd)
  have "e \<le> s + n" if "room sz align (s, n) v" for v
    unfolding e_def using that least [OF that] al by (intro next_multiple_of_least) (auto simp: room_def mod_eq_0_iff_dvd)
  then show ?thesis using eq(1-4,6) least by (cases "s + n < e") (auto simp: room_def heap_constants)
qed

subsection \<open>The free list in memory and as a list\<close>

text \<open>\<open>seg h a xs b\<close>: from node \<open>a\<close> the links run through the blocks \<open>xs\<close> (start, size) to \<open>b\<close>.
  \<open>blocks_ok lo xs\<close>: the blocks lie above \<open>lo\<close> in the order of addresses, no two adjacent, each
  large enough for a node and aligned to words.\<close>

fun seg :: "heap \<Rightarrow> nat \<Rightarrow> (nat \<times> nat) list \<Rightarrow> nat \<Rightarrow> bool" where
  "seg h a [] b \<longleftrightarrow> a = b"
| "seg h a ((s, n) # xs) b \<longleftrightarrow> a = s \<and> node_size h s = n \<and> seg h (node_next h s) xs b"

fun blocks_ok :: "nat \<Rightarrow> (nat \<times> nat) list \<Rightarrow> bool" where
  "blocks_ok lo [] = True"
| "blocks_ok lo ((s, n) # xs) \<longleftrightarrow> lo < s \<and> 16 \<le> n \<and> 8 dvd s \<and> 8 dvd n \<and> blocks_ok (s + n) xs"

fun blocks_end :: "nat \<Rightarrow> (nat \<times> nat) list \<Rightarrow> nat" where
  "blocks_end lo [] = lo"
| "blocks_end lo ((s, n) # xs) = blocks_end (s + n) xs"

definition bytes :: "(nat \<times> nat) list \<Rightarrow> nat set" where
  "bytes xs = (\<Union>(s, n) \<in> set xs. {s ..< s + n})"

definition first_of :: "(nat \<times> nat) list \<Rightarrow> nat" where
  "first_of xs = (case xs of [] \<Rightarrow> 0 | b # _ \<Rightarrow> fst b)"

definition last_of :: "(nat \<times> nat) list \<Rightarrow> nat" where
  "last_of xs = (if xs = [] then 0 else fst (last xs))"

definition heap_rep :: "heap \<Rightarrow> (nat \<times> nat) list \<Rightarrow> bool" where
  "heap_rep h xs \<longleftrightarrow> seg h (free_list_head h) xs 0 \<and> blocks_ok 0 xs \<and> blocks_end 0 xs < u64_limit"

lemma bytes_simps [simp]:
  "bytes [] = {}" "bytes ((s, n) # xs) = {s ..< s + n} \<union> bytes xs" "bytes (xs @ ys) = bytes xs \<union> bytes ys"
  by (auto simp: bytes_def)

lemma seg_append: "seg h a (xs @ ys) c \<longleftrightarrow> (\<exists>b. seg h a xs b \<and> seg h b ys c)"
  by (induction xs arbitrary: a) auto

lemma blocks_ok_append: "blocks_ok lo (xs @ ys) \<longleftrightarrow> blocks_ok lo xs \<and> blocks_ok (blocks_end lo xs) ys"
  by (induction lo xs rule: blocks_ok.induct) auto

lemma blocks_end_append [simp]: "blocks_end lo (xs @ ys) = blocks_end (blocks_end lo xs) ys"
  by (induction lo xs rule: blocks_end.induct) auto

lemma blocks_ok_weaken: "blocks_ok lo xs \<Longrightarrow> lo' \<le> lo \<Longrightarrow> blocks_ok lo' xs"
  by (cases xs) auto

lemma blocks_end_ge: "blocks_ok lo xs \<Longrightarrow> lo \<le> blocks_end lo xs"
  by (induction lo xs rule: blocks_ok.induct) auto

lemma bytes_bounds: "blocks_ok lo xs \<Longrightarrow> x \<in> bytes xs \<Longrightarrow> lo < x \<and> x < blocks_end lo xs"
proof (induction lo xs rule: blocks_ok.induct)
  case (2 lo s n xs)
  then show ?case using blocks_end_ge [of "s + n" xs] by auto
qed simp

lemma block_in: "blocks_ok lo xs \<Longrightarrow> (s, n) \<in> set xs \<Longrightarrow>
  lo < s \<and> s + n \<le> blocks_end lo xs \<and> 16 \<le> n \<and> 8 dvd s \<and> 8 dvd n \<and> s \<in> bytes xs \<and> s + 8 \<in> bytes xs"
proof (induction lo xs rule: blocks_ok.induct)
  case (2 lo s' n' xs)
  then show ?case using blocks_end_ge [of "s' + n'" xs] by auto
qed simp

lemma seg_first: "seg h a xs 0 \<Longrightarrow> a = first_of xs"
  by (cases xs) (auto simp: first_of_def)

text \<open>A list is untouched by writes outside its blocks.\<close>

lemma seg_frame:
  assumes "\<forall>x \<in> bytes xs. heap_mem h' x = heap_mem h x" "blocks_ok lo xs" "seg h a xs b"
  shows "seg h' a xs b"
  using assms
proof (induction xs arbitrary: a lo)
  case (Cons x xs)
  obtain s n where x: "x = (s, n)" by (cases x)
  have "s \<in> bytes (x # xs)" "s + 8 \<in> bytes (x # xs)" using Cons.prems(2) x by auto
  then have "heap_mem h' s = heap_mem h s" "heap_mem h' (s + 8) = heap_mem h (s + 8)" using Cons.prems(1) by blast+
  with Cons.prems Cons.IH [of "s + n" "node_next h s"] show ?case
    by (auto simp: x node_size_def node_next_def)
qed simp

text \<open>Redirecting the last link, or the head.\<close>

lemma set_next_mem:
  "heap_mem (set_next prev nxt h) = (if prev = 0 then heap_mem h else (heap_mem h)(prev + 8 := nxt))"
  "free_list_head (set_next prev nxt h) = (if prev = 0 then nxt else free_list_head h)"
  by (simp_all add: set_next_def)

lemma last_of_cases:
  assumes "blocks_ok lo pre"
  obtains "pre = []" "last_of pre = 0"
  | init s n where "pre = init @ [(s, n)]" "last_of pre = s" "s \<noteq> 0" "blocks_ok lo init" "blocks_end lo init < s"
      "16 \<le> n" "8 dvd s" "8 dvd n" "blocks_end lo pre = s + n"
proof (cases pre rule: rev_cases)
  case Nil
  then show ?thesis using that(1) by (simp add: last_of_def)
next
  case (snoc init x)
  obtain s n where x: "x = (s, n)" by (cases x)
  show ?thesis using assms snoc x that(2) [of init s n] by (auto simp: last_of_def blocks_ok_append)
qed

lemma seg_redirect:
  assumes seg: "seg h (free_list_head h) pre b" and ok: "blocks_ok lo pre"
  shows "seg (set_next (last_of pre) nxt h) (free_list_head (set_next (last_of pre) nxt h)) pre nxt"
  using ok
proof (cases rule: last_of_cases)
  case 1
  then show ?thesis by (simp add: set_next_mem)
next
  case (2 init s n)
  let ?h = "set_next s nxt h"
  have s: "seg h (free_list_head h) init s" "node_size h s = n" using seg 2(1) by (auto simp: seg_append)
  have "\<forall>x \<in> bytes init. heap_mem ?h x = heap_mem h x"
    using 2(5) by (force simp: set_next_mem dest: bytes_bounds [OF 2(4)])
  from seg_frame [OF this 2(4) s(1)] have "seg ?h (free_list_head h) init s" .
  moreover have "node_size ?h s = n" "node_next ?h s = nxt" "free_list_head ?h = free_list_head h"
    using s(2) 2(3) by (simp_all add: set_next_mem node_size_def node_next_def)
  ultimately show ?thesis using 2(1,2) by (auto simp: seg_append)
qed

lemma splice:
  assumes "seg h (free_list_head h) pre b" "blocks_ok lo pre" "blocks_ok (blocks_end lo pre) ys" "seg h a ys 0"
  shows "seg (set_next (last_of pre) a h) (free_list_head (set_next (last_of pre) a h)) (pre @ ys) 0"
    and "heap_mem (set_next (last_of pre) a h) x = heap_mem h x \<or> x \<in> bytes pre"
proof -
  let ?h = "set_next (last_of pre) a h"
  have cell: "heap_mem ?h x = heap_mem h x \<or> x \<in> bytes pre" for x
    using assms(2) by (cases rule: last_of_cases) (auto simp: set_next_mem)
  then show "heap_mem ?h x = heap_mem h x \<or> x \<in> bytes pre" .
  have "\<forall>x \<in> bytes ys. heap_mem ?h x = heap_mem h x"
    using cell bytes_bounds [OF assms(2)] bytes_bounds [OF assms(3)] by (meson less_asym)
  from seg_frame [OF this assms(3,4)] have "seg ?h a ys 0" .
  with seg_redirect [OF assms(1,2), of a] show "seg ?h (free_list_head ?h) (pre @ ys) 0"
    by (auto simp: seg_append)
qed

subsection \<open>Allocation refines first fit on the list\<close>

fun list_alloc :: "nat \<Rightarrow> nat \<Rightarrow> (nat \<times> nat) list \<Rightarrow> ((nat \<times> nat) list \<times> alloc_plan) option" where
  "list_alloc sz align [] = None"
| "list_alloc sz align ((s, n) # xs) =
     (case place sz align s (s + n) of
        Ok (Some p) \<Rightarrow> Some ((case trailing_split p of Some b \<Rightarrow> [b] | None \<Rightarrow> []) @ xs, p)
      | _ \<Rightarrow> map_option (\<lambda>(ys, p). ((s, n) # ys, p)) (list_alloc sz align xs))"

definition header_in :: "heap \<Rightarrow> nat \<Rightarrow> nat \<Rightarrow> nat \<Rightarrow> nat \<Rightarrow> bool" where
  "header_in h a start sz requested \<longleftrightarrow> heap_mem h a = HEADER_MAGIC \<and> heap_mem h (a + 8) = start \<and>
     heap_mem h (a + 16) = sz \<and> heap_mem h (a + 24) = requested"

lemma write_header_mem:
  "header_in (write_header a start sz req h) a start sz req"
  "x \<notin> {a ..< a + 32} \<Longrightarrow> heap_mem (write_header a start sz req h) x = heap_mem h x"
  "free_list_head (write_header a start sz req h) = free_list_head h"
  by (auto simp: write_header_def header_in_def)

lemma write_node_mem:
  "node_size (write_node a n nxt h) a = n" "node_next (write_node a n nxt h) a = nxt"
  "x \<noteq> a \<Longrightarrow> x \<noteq> a + 8 \<Longrightarrow> heap_mem (write_node a n nxt h) x = heap_mem h x"
  "free_list_head (write_node a n nxt h) = free_list_head h"
  by (auto simp: write_node_def node_size_def node_next_def)

lemma split_blocks:
  assumes "plan_ok sz align s (s + n) p" "blocks_ok (s + n) xs" "lo < s" "8 dvd s" "0 < sz" "8 dvd n"
  shows "blocks_ok lo ((case trailing_split p of Some b \<Rightarrow> [b] | None \<Rightarrow> []) @ xs)"
    "bytes (case trailing_split p of Some b \<Rightarrow> [b] | None \<Rightarrow> []) = {s + block_size p ..< s + n}"
    "s + block_size p \<le> s + n" "32 < block_size p"
proof -
  have "s + 32 \<le> user_addr p" "user_addr p + sz \<le> s + block_size p" using assms(1) by (auto simp: plan_ok_def)
  then show big: "32 < block_size p" using assms(5) by linarith
  show "blocks_ok lo ((case trailing_split p of Some b \<Rightarrow> [b] | None \<Rightarrow> []) @ xs)"
    "bytes (case trailing_split p of Some b \<Rightarrow> [b] | None \<Rightarrow> []) = {s + block_size p ..< s + n}"
    "s + block_size p \<le> s + n"
    using assms big by (auto simp: plan_ok_def split: option.splits intro: blocks_ok_weaken)
qed

lemma consume_node_refines:
  assumes seg: "seg h (free_list_head h) (pre @ (s, n) # xs) 0" and ok: "blocks_ok 0 (pre @ (s, n) # xs)"
    and p: "plan_ok sz align s (s + n) p" and sz: "0 < sz"
  shows "let ys = (case trailing_split p of Some b \<Rightarrow> [b] | None \<Rightarrow> []) @ xs;
             h' = consume_node (last_of pre) (node_next h s) p h
         in seg h' (free_list_head h') (pre @ ys) 0 \<and> (\<forall>x. x \<in> bytes (pre @ (s, n) # xs) \<or> heap_mem h' x = heap_mem h x)"
proof -
  have pre: "seg h (free_list_head h) pre s" "seg h (node_next h s) xs 0"
    and b: "blocks_ok 0 pre" "blocks_end 0 pre < s" "16 \<le> n" "8 dvd s" "8 dvd n" "blocks_ok (s + n) xs"
    using seg ok by (auto simp: seg_append blocks_ok_append)
  note sb = split_blocks [OF p b(6,2,4) sz b(5)]
  show ?thesis
  proof (cases "trailing_split p")
    case None
    from splice [OF pre(1) b(1) _ pre(2)] sb(1) None show ?thesis by (simp add: consume_node_def) blast
  next
    case (Some t)
    obtain st m where t: "t = (st, m)" by (cases t)
    have st: "st = s + block_size p" "st + m = s + n" "16 \<le> m" using p Some t by (auto simp: plan_ok_def)
    let ?h = "write_node st m (node_next h s) h"
    have out: "heap_mem ?h x = heap_mem h x \<or> x \<in> {s ..< s + n}" for x
      using st by (cases "x = st \<or> x = st + 8") (auto simp: write_node_mem)
    have p0: "seg ?h (free_list_head ?h) pre s"
    proof -
      have "\<forall>x \<in> bytes pre. heap_mem ?h x = heap_mem h x"
        using out bytes_bounds [OF b(1)] b(2) by fastforce
      from seg_frame [OF this b(1) pre(1)] show ?thesis by (simp add: write_node_mem)
    qed
    have "\<forall>x \<in> bytes xs. heap_mem ?h x = heap_mem h x"
      using out bytes_bounds [OF b(6)] by fastforce
    from seg_frame [OF this b(6) pre(2)] have "seg ?h st ((st, m) # xs) 0" by (simp add: write_node_mem)
    from splice [OF p0 b(1) _ this] sb(1) Some t have
      "seg (set_next (last_of pre) st ?h) (free_list_head (set_next (last_of pre) st ?h)) (pre @ (st, m) # xs) 0"
      "\<And>x. heap_mem (set_next (last_of pre) st ?h) x = heap_mem ?h x \<or> x \<in> bytes pre" by simp_all
    moreover have "consume_node (last_of pre) (node_next h s) p h = set_next (last_of pre) st ?h"
      using Some t by (simp add: consume_node_def)
    ultimately show ?thesis using out Some t by simp metis
  qed
qed

lemma alloc_loop_refines:
  assumes "seg h (free_list_head h) (pre @ rest) 0" "blocks_ok 0 (pre @ rest)" "blocks_end 0 (pre @ rest) \<le> limit"
    "request_ok sz align limit" "length rest < fuel"
  shows "case list_alloc sz align rest of
      None \<Rightarrow> alloc_loop fuel sz align (last_of pre) (first_of rest) h = Ok (h, 0)
    | Some (ys, p) \<Rightarrow> \<exists>h'. alloc_loop fuel sz align (last_of pre) (first_of rest) h = Ok (h', user_addr p) \<and>
        seg h' (free_list_head h') (pre @ ys) 0 \<and> header_in h' (header_addr p) (block_start p) (block_size p) sz \<and>
        (\<forall>x. x \<in> bytes (pre @ rest) \<or> heap_mem h' x = heap_mem h x)"
  using assms
proof (induction rest arbitrary: pre fuel)
  case Nil
  then show ?case by (cases fuel) (auto simp: first_of_def)
next
  case (Cons b rest)
  obtain s n where b: "b = (s, n)" by (cases b)
  obtain fuel' where fuel: "fuel = Suc fuel'" using Cons.prems(5) by (cases fuel) auto
  have blk: "blocks_end 0 pre < s" "8 dvd s" "8 dvd n" "0 < s" "blocks_ok (s + n) rest" "blocks_ok 0 pre"
    using Cons.prems(2) b by (auto simp: blocks_ok_append)
  have le: "s + n \<le> limit" using Cons.prems(3) blocks_end_ge [OF blk(5)] b by simp
  have req: "request_ok sz align (s + n)" "0 < sz" using Cons.prems(4) le by (auto simp: request_ok_def)
  have lim: "s + n < u64_limit" using req by (simp add: request_ok_def)
  have node: "node_size h s = n" "node_next h s = first_of rest"
    using Cons.prems(1) b by (auto simp: seg_append dest: seg_first)
  have step: "alloc_loop fuel sz align (last_of pre) (first_of (b # rest)) h =
      bind_outcome (place sz align s (s + n)) (\<lambda>found. case found of
        Some plan \<Rightarrow> Ok (write_header (header_addr plan) (block_start plan) (block_size plan) sz
                           (consume_node (last_of pre) (first_of rest) plan h), user_addr plan)
      | None \<Rightarrow> alloc_loop fuel' sz align s (first_of rest) h)"
    using blk lim by (simp add: fuel first_of_def b node Let_def)
  from place_spec [OF req(1) blk(2) _ le_add1] blk(2,3) consider
    (found) p where "place sz align s (s + n) = Ok (Some p)" "plan_ok sz align s (s + n) p"
    | (none) "place sz align s (s + n) = Ok None" by auto
  then show ?case
  proof cases
    case found
    let ?ys = "(case trailing_split p of Some b \<Rightarrow> [b] | None \<Rightarrow> []) @ rest"
    let ?h1 = "consume_node (last_of pre) (first_of rest) p h"
    let ?h2 = "write_header (header_addr p) (block_start p) (block_size p) sz ?h1"
    have c: "seg ?h1 (free_list_head ?h1) (pre @ ?ys) 0" "\<And>x. x \<in> bytes (pre @ b # rest) \<or> heap_mem ?h1 x = heap_mem h x"
      using consume_node_refines [OF Cons.prems(1,2) [unfolded b] found(2) req(2)] node b by (auto simp: Let_def)
    note sb = split_blocks [OF found(2) blk(5,1,2) req(2) blk(3)]
    have oky: "blocks_ok 0 (pre @ ?ys)" using blk(6) sb(1) by (simp add: blocks_ok_append)
    have hd: "s \<le> header_addr p" "header_addr p + 32 \<le> s + block_size p" "block_start p = s"
      using found(2) by (auto simp: plan_ok_def)
    have "\<forall>x \<in> bytes (pre @ ?ys). heap_mem ?h2 x = heap_mem ?h1 x"
    proof
      fix x assume "x \<in> bytes (pre @ ?ys)"
      then have "x < s \<or> s + block_size p \<le> x"
        using sb(2,3) bytes_bounds [OF blk(6), of x] bytes_bounds [OF blk(5), of x] blk(1) by auto
      then show "heap_mem ?h2 x = heap_mem ?h1 x" using hd by (intro write_header_mem) auto
    qed
    from seg_frame [OF this oky c(1)] have "seg ?h2 (free_list_head ?h2) (pre @ ?ys) 0" by (simp add: write_header_mem)
    moreover have "x \<in> bytes (pre @ b # rest) \<or> heap_mem ?h2 x = heap_mem h x" for x
      using c(2) [of x] write_header_mem(2) [of x "header_addr p"] hd sb(3) b by (cases "x \<in> {s ..< s + n}") auto
    ultimately show ?thesis using found(1) step write_header_mem(1) b by auto
  next
    case none
    have "last_of (pre @ [b]) = s" by (simp add: last_of_def b)
    with Cons.IH [of "pre @ [b]" fuel'] Cons.prems none step fuel show ?thesis
      by (auto simp: b split: option.splits)
  qed
qed

lemma list_alloc_Some:
  assumes "blocks_ok lo xs" "blocks_end lo xs \<le> limit" "request_ok sz align limit" "list_alloc sz align xs = Some (ys, p)"
  shows "\<exists>re. plan_ok sz align (block_start p) re p \<and> blocks_ok lo ys \<and> blocks_end lo ys \<le> blocks_end lo xs \<and>
    {block_start p ..< block_start p + block_size p} \<subseteq> bytes xs \<and>
    bytes ys = bytes xs - {block_start p ..< block_start p + block_size p} \<and> 8 dvd block_start p"
  using assms
proof (induction xs arbitrary: lo ys)
  case (Cons b xs)
  obtain s n where b: "b = (s, n)" by (cases b)
  have blk: "lo < s" "16 \<le> n" "8 dvd s" "8 dvd n" "blocks_ok (s + n) xs" using Cons.prems(1) b by auto
  have le: "s + n \<le> limit" using Cons.prems(2) blocks_end_ge [OF blk(5)] b by simp
  have req: "request_ok sz align (s + n)" "0 < sz" using Cons.prems(3) le by (auto simp: request_ok_def)
  from place_spec [OF req(1) blk(3) _ le_add1] blk(3,4) consider
    (found) q where "place sz align s (s + n) = Ok (Some q)" "plan_ok sz align s (s + n) q"
    | (none) "place sz align s (s + n) = Ok None" by auto
  then show ?case
  proof cases
    case found
    then have q: "p = q" "ys = (case trailing_split q of Some b \<Rightarrow> [b] | None \<Rightarrow> []) @ xs" using Cons.prems(4) b by auto
    have bs: "block_start q = s" using found(2) by (simp add: plan_ok_def)
    note sb = split_blocks [OF found(2) blk(5,1,3) req(2) blk(4)]
    have "blocks_end lo ys \<le> blocks_end lo (b # xs)"
    proof (cases "trailing_split q")
      case None
      have "blocks_end lo xs \<le> blocks_end (s + n) xs" using blk(1) by (cases xs) auto
      then show ?thesis using q(2) None b by simp
    next
      case (Some t)
      then show ?thesis using q(2) b found(2) by (auto simp: plan_ok_def add.assoc)
    qed
    moreover have "bytes ys = bytes (b # xs) - {s ..< s + block_size q}"
      using q(2) sb(2,3) bytes_bounds [OF blk(5)] b by (auto, fastforce)
    ultimately show ?thesis using found(2) q bs sb blk(3) b by (intro exI [of _ "s + n"]) auto
  next
    case none
    then obtain zs where zs: "list_alloc sz align xs = Some (zs, p)" "ys = b # zs"
      using Cons.prems(4) b by (auto split: option.splits)
    obtain re where r: "plan_ok sz align (block_start p) re p" "blocks_ok (s + n) zs" "blocks_end (s + n) zs \<le> blocks_end (s + n) xs"
      "{block_start p ..< block_start p + block_size p} \<subseteq> bytes xs"
      "bytes zs = bytes xs - {block_start p ..< block_start p + block_size p}" "8 dvd block_start p"
      using Cons.IH [OF blk(5) _ Cons.prems(3) zs(1)] Cons.prems(2) b by auto
    have "{s ..< s + n} \<inter> {block_start p ..< block_start p + block_size p} = {}"
      using r(4) bytes_bounds [OF blk(5)] by fastforce
    then show ?thesis using r zs(2) blk b by (intro exI [of _ re]) auto
  qed
qed simp

lemma list_alloc_None:
  assumes "blocks_ok lo xs" "blocks_end lo xs \<le> limit" "request_ok sz align limit" "list_alloc sz align xs = None"
  shows "\<forall>(s, n) \<in> set xs. n < sz + max align 8 + 40"
  using assms
proof (induction xs arbitrary: lo)
  case (Cons b xs)
  obtain s n where b: "b = (s, n)" by (cases b)
  have blk: "8 dvd s" "8 dvd n" "blocks_ok (s + n) xs" using Cons.prems(1) b by auto
  have le: "s + n \<le> limit" using Cons.prems(2) blocks_end_ge [OF blk(3)] b by simp
  have req: "request_ok sz align (s + n)" using Cons.prems(3) le by (auto simp: request_ok_def)
  have "place sz align s (s + n) = Ok None \<and> n < sz + max align 8 + 40" "list_alloc sz align xs = None"
    using place_spec [OF req blk(1) _ le_add1] blk(1,2) Cons.prems(4) b by (auto split: option.splits)
  then show ?case using Cons.IH [OF blk(3) _ Cons.prems(3)] Cons.prems(2) b by auto
qed simp

subsection \<open>Deallocation refines insertion with merging\<close>

definition below :: "nat \<Rightarrow> nat \<times> nat \<Rightarrow> bool" where
  "below start b \<longleftrightarrow> fst b \<le> start"

definition join_next :: "nat \<times> nat \<Rightarrow> (nat \<times> nat) list \<Rightarrow> (nat \<times> nat) list" where
  "join_next b post =
     (case post of
        (s, n) # post' \<Rightarrow> if fst b + snd b = s then (fst b, snd b + n) # post' else b # post
      | [] \<Rightarrow> [b])"

definition join_prev :: "(nat \<times> nat) list \<Rightarrow> (nat \<times> nat) list \<Rightarrow> (nat \<times> nat) list" where
  "join_prev pre rest =
     (if pre \<noteq> [] \<and> fst (last pre) + snd (last pre) = fst (hd rest)
      then butlast pre @ (fst (last pre), snd (last pre) + snd (hd rest)) # tl rest
      else pre @ rest)"

definition list_dealloc :: "nat \<Rightarrow> nat \<Rightarrow> (nat \<times> nat) list \<Rightarrow> (nat \<times> nat) list" where
  "list_dealloc start sz xs =
     join_prev (takeWhile (below start) xs) (join_next (start, sz) (dropWhile (below start) xs))"

lemma position_refines:
  assumes "seg h a rest 0" "a = first_of rest" "blocks_ok lo rest" "length rest < fuel"
  shows "position_loop fuel start (last_of pre) a h =
    Ok (last_of (pre @ takeWhile (below start) rest), first_of (dropWhile (below start) rest))"
  using assms
proof (induction rest arbitrary: pre fuel a lo)
  case Nil
  then show ?case by (cases fuel) (auto simp: first_of_def)
next
  case (Cons b rest)
  obtain s n where b: "b = (s, n)" by (cases b)
  obtain fuel' where fuel: "fuel = Suc fuel'" using Cons.prems(4) by (cases fuel) auto
  have a: "a = s" "s \<noteq> 0" "blocks_ok (s + n) rest" using Cons.prems b by (auto simp: first_of_def)
  have nx: "seg h (node_next h s) rest 0" using Cons.prems(1) b by simp
  have "last_of (pre @ [b]) = s" by (simp add: last_of_def b)
  with Cons.IH [OF nx seg_first [OF nx] a(3), of fuel' "pre @ [b]"] Cons.prems(4) fuel a
  show ?case by (auto simp: below_def b first_of_def)
qed

definition freeable :: "nat \<Rightarrow> nat \<Rightarrow> (nat \<times> nat) list \<Rightarrow> bool" where
  "freeable start sz xs \<longleftrightarrow> 0 < start \<and> 16 \<le> sz \<and> 8 dvd start \<and> 8 dvd sz \<and> start + sz < u64_limit \<and>
     {start ..< start + sz} \<inter> bytes xs = {}"

lemma dealloc_split:
  assumes ok: "blocks_ok 0 xs" and f: "freeable start sz xs"
  defines "pre \<equiv> takeWhile (below start) xs" and "post \<equiv> dropWhile (below start) xs"
  shows "xs = pre @ post" "blocks_ok 0 pre" "blocks_end 0 pre \<le> start" "blocks_ok start post"
    "post = [] \<or> start + sz \<le> first_of post"
proof -
  show xs: "xs = pre @ post" by (simp add: pre_def post_def)
  with ok show okp: "blocks_ok 0 pre" by (simp add: blocks_ok_append)
  have disj: "{start ..< start + sz} \<inter> bytes pre = {}" "{start ..< start + sz} \<inter> bytes post = {}" "0 < sz"
    using f xs by (auto simp: freeable_def)
  show "blocks_end 0 pre \<le> start" using okp
  proof (cases rule: last_of_cases)
    case (2 init s n)
    have "(s, n) \<in> set (takeWhile (below start) xs)" using 2(1) by (simp add: pre_def)
    then have "s \<le> start" by (auto simp: below_def dest: set_takeWhileD)
    moreover have "start \<in> {start ..< start + sz}" using disj(3) by simp
    then have "start \<notin> {s ..< s + n}" using disj(1) 2(1) by (auto simp: disjoint_iff)
    ultimately show ?thesis using 2(9) by auto
  qed simp
  have first: "start < s" if "post = (s, n) # rest" for s n rest
    using that dropWhile_eq_Cons_conv [of "below start" xs] by (simp add: post_def below_def)
  show "post = [] \<or> start + sz \<le> first_of post"
  proof (cases post)
    case (Cons b rest)
    obtain s n where b: "b = (s, n)" by (cases b)
    have "16 \<le> n" using ok xs Cons b by (simp add: blocks_ok_append)
    then have "s \<notin> {start ..< start + sz}" using disj(2) Cons b by auto
    then show ?thesis using first Cons b by (auto simp: first_of_def)
  qed simp
  show "blocks_ok start post"
    using ok xs first by (cases post) (auto simp: blocks_ok_append)
qed

text \<open>The block joined with its successor, and what the memory step computes for it.\<close>

lemma merge_next_refines:
  assumes "seg h (first_of post) post 0" "blocks_ok start post" "post = [] \<or> start + sz \<le> first_of post"
    "start + sz < u64_limit" "blocks_end start post < u64_limit" "0 < start" "16 \<le> sz" "8 dvd start" "8 dvd sz"
    "lo \<le> start"
  obtains m rest where "join_next (start, sz) post = (start, m) # rest" "merge_next start sz (first_of post) h = Ok (start, m, first_of rest)"
    "seg h (first_of rest) rest 0" "blocks_ok (start + m) rest" "bytes post \<union> {start ..< start + sz} = {start ..< start + m} \<union> bytes rest"
    "sz \<le> m" "8 dvd m" "blocks_end (start + m) rest = blocks_end (start + sz) post" "bytes rest \<subseteq> bytes post" "start + m < u64_limit"
proof (cases post)
  case Nil
  show ?thesis
    by (rule that [of sz "[]"]) (use Nil assms in \<open>auto simp: join_next_def merge_next_def first_of_def\<close>)
next
  case (Cons b rest)
  obtain s n where b: "b = (s, n)" by (cases b)
  have s: "start < s" "16 \<le> n" "blocks_ok (s + n) rest" "8 dvd n" "start + sz \<le> s" using assms(2,3,7) Cons b by (auto simp: first_of_def)
  have lim: "s + n < u64_limit" using blocks_end_ge [OF s(3)] assms(5) Cons b by simp
  have nd: "node_size h s = n" "seg h (node_next h s) rest 0" "node_next h s = first_of rest"
    using assms(1) Cons b by (auto simp: first_of_def dest: seg_first)
  show ?thesis
  proof (cases "start + sz = s")
    case True
    show ?thesis
      by (rule that [of "sz + n" rest])
        (use True assms s nd lim Cons b in \<open>auto simp: join_next_def merge_next_def merge_adjacent_def first_of_def add.assoc\<close>)
  next
    case False
    show ?thesis
      by (rule that [of sz post])
        (use False assms s nd lim Cons b in \<open>auto simp: join_next_def merge_next_def merge_adjacent_def first_of_def\<close>)
  qed
qed

lemma link_previous_refines:
  assumes seg: "seg h (free_list_head h) pre c" and pre: "blocks_ok 0 pre" "blocks_end 0 pre \<le> start"
    and node: "seg h start ((start, m) # rest) 0" and rest: "blocks_ok (start + m) rest"
    and m: "16 \<le> m" "8 dvd start" "8 dvd m" "0 < start" "start + m < u64_limit"
  shows "\<exists>h'. link_previous (last_of pre) start m (first_of rest) h = Ok h' \<and>
    seg h' (free_list_head h') (join_prev pre ((start, m) # rest)) 0 \<and>
    blocks_ok 0 (join_prev pre ((start, m) # rest)) \<and>
    blocks_end 0 (join_prev pre ((start, m) # rest)) = blocks_end (start + m) rest \<and>
    bytes (join_prev pre ((start, m) # rest)) = bytes pre \<union> {start ..< start + m} \<union> bytes rest \<and>
    (\<forall>x. x \<in> bytes pre \<or> heap_mem h' x = heap_mem h x)"
proof -
  have relink: ?thesis
    if join: "join_prev pre ((start, m) # rest) = pre @ (start, m) # rest" and low: "blocks_end 0 pre < start"
      and link: "link_previous (last_of pre) start m (first_of rest) h = Ok (set_next (last_of pre) start h)"
  proof -
    have ok: "blocks_ok (blocks_end 0 pre) ((start, m) # rest)" using low m rest by simp
    note sp = splice [OF seg pre(1) ok node]
    show ?thesis
      using sp ok pre(1) by (intro exI [of _ "set_next (last_of pre) start h"]) (auto simp: join link blocks_ok_append)
  qed
  show ?thesis using pre(1)
  proof (cases rule: last_of_cases)
    case 1
    then show ?thesis using m by (intro relink) (auto simp: join_prev_def link_previous_def set_next_def)
  next
    case (2 init s n)
    have sz: "node_size h s = n" "seg h (free_list_head h) init s" using seg 2(1) by (auto simp: seg_append)
    have lt: "s + n \<le> start" using pre(2) 2(9) by simp
    show ?thesis
    proof (cases "s + n = start")
      case False
      then show ?thesis using 2 lt m sz
        by (intro relink) (auto simp: join_prev_def link_previous_def merge_adjacent_def)
    next
      case True
      let ?h = "write_node s (n + m) (first_of rest) h"
      have out: "heap_mem ?h x = heap_mem h x \<or> x \<in> {s ..< s + n}" for x
        using 2(6) by (cases "x = s \<or> x = s + 8") (auto simp: write_node_mem)
      have "\<forall>x \<in> bytes init. heap_mem ?h x = heap_mem h x"
        using out bytes_bounds [OF 2(4)] 2(5) by fastforce
      from seg_frame [OF this 2(4) sz(2)] have i: "seg ?h (free_list_head ?h) init s" by (simp add: write_node_mem)
      have "\<forall>x \<in> bytes rest. heap_mem ?h x = heap_mem h x"
        using out bytes_bounds [OF rest] lt by fastforce
      moreover have "seg h (first_of rest) rest 0" using node seg_first [of h "node_next h start" rest] by simp
      ultimately have r: "seg ?h (first_of rest) rest 0" using seg_frame rest by blast
      have j: "join_prev pre ((start, m) # rest) = init @ (s, n + m) # rest"
        using 2(1) True by (simp add: join_prev_def)
      have "link_previous (last_of pre) start m (first_of rest) h = Ok ?h"
        using 2 True m sz by (auto simp: link_previous_def merge_adjacent_def)
      moreover have "seg ?h (free_list_head ?h) (init @ (s, n + m) # rest) 0"
        using i r by (auto simp: seg_append write_node_mem)
      moreover have "blocks_ok 0 (init @ (s, n + m) # rest)"
        using 2 m rest True by (auto simp: blocks_ok_append add.assoc [symmetric])
      moreover have "blocks_end 0 (init @ (s, n + m) # rest) = blocks_end (start + m) rest"
        using True by (simp add: add.assoc [symmetric])
      moreover have "bytes (init @ (s, n + m) # rest) = bytes pre \<union> {start ..< start + m} \<union> bytes rest"
        using 2(1) True by auto
      moreover have "\<forall>x. x \<in> bytes pre \<or> heap_mem ?h x = heap_mem h x" using out 2(1) by auto
      ultimately show ?thesis unfolding j by blast
    qed
  qed
qed

text \<open>Deallocation of a block whose header is intact.\<close>

lemma heap_dealloc_refines:
  assumes rep: "heap_rep h xs" and f: "freeable start sz xs" and hd: "header_in h (ptr - 32) start sz req" "32 \<le> ptr"
    and fuel: "length xs < fuel"
  shows "\<exists>h'. heap_dealloc fuel ptr req h = Ok h' \<and> heap_rep h' (list_dealloc start sz xs) \<and>
    bytes (list_dealloc start sz xs) = bytes xs \<union> {start ..< start + sz} \<and>
    (\<forall>x. x \<in> bytes xs \<union> {start ..< start + sz} \<or> heap_mem h' x = heap_mem h x)"
proof -
  have seg: "seg h (free_list_head h) xs 0" and ok: "blocks_ok 0 xs" and lim: "blocks_end 0 xs < u64_limit"
    using rep by (auto simp: heap_rep_def)
  define pre where "pre = takeWhile (below start) xs"
  define post where "post = dropWhile (below start) xs"
  note sp = dealloc_split [OF ok f, folded pre_def post_def]
  have fr: "0 < start" "16 \<le> sz" "8 dvd start" "8 dvd sz" "start + sz < u64_limit" using f by (auto simp: freeable_def)
  obtain c where c: "seg h (free_list_head h) pre c" "seg h c post 0" using seg sp(1) by (auto simp: seg_append)
  have cf: "c = first_of post" using c(2) by (rule seg_first)
  have pos: "position_loop fuel start 0 (free_list_head h) h = Ok (last_of pre, first_of post)"
    using position_refines [OF seg seg_first [OF seg] ok fuel, of start "[]"] by (simp add: last_of_def pre_def post_def)
  have ends: "blocks_end start post \<le> blocks_end 0 xs \<or> post = []" using sp(1) by (cases post) auto
  then have bp: "blocks_end start post < u64_limit" using lim fr by auto
  obtain m rest where j: "join_next (start, sz) post = (start, m) # rest" "merge_next start sz (first_of post) h = Ok (start, m, first_of rest)"
    "seg h (first_of rest) rest 0" "blocks_ok (start + m) rest" "bytes post \<union> {start ..< start + sz} = {start ..< start + m} \<union> bytes rest"
    "sz \<le> m" "8 dvd m" "blocks_end (start + m) rest = blocks_end (start + sz) post" "bytes rest \<subseteq> bytes post" "start + m < u64_limit"
    by (rule merge_next_refines [OF c(2) [unfolded cf] sp(4,5) fr(5) bp fr(1,2,3,4) order_refl])
  let ?h1 = "write_node start m (first_of rest) h"
  have out: "heap_mem ?h1 x = heap_mem h x \<or> x \<in> {start ..< start + sz}" for x
    using fr(2) by (cases "x = start \<or> x = start + 8") (auto simp: write_node_mem)
  have dj: "{start ..< start + sz} \<inter> bytes pre = {}" "{start ..< start + sz} \<inter> bytes rest = {}"
    using f sp(1) j(9) by (auto simp: freeable_def)
  have p1: "seg ?h1 (free_list_head ?h1) pre c"
    using seg_frame [OF _ sp(2) c(1), of ?h1] out dj(1) by (auto simp: write_node_mem disjoint_iff)
  have r1: "seg ?h1 start ((start, m) # rest) 0"
    using seg_frame [OF _ j(4,3), of ?h1] out dj(2) by (auto simp: write_node_mem disjoint_iff)
  have m16: "16 \<le> m" using fr(2) j(6) by simp
  from link_previous_refines [OF p1 sp(2,3) r1 j(4) m16 fr(3) j(7) fr(1) j(10)] obtain h' where
    h': "link_previous (last_of pre) start m (first_of rest) ?h1 = Ok h'"
      "seg h' (free_list_head h') (join_prev pre ((start, m) # rest)) 0" "blocks_ok 0 (join_prev pre ((start, m) # rest))"
      "blocks_end 0 (join_prev pre ((start, m) # rest)) = blocks_end (start + m) rest"
      "bytes (join_prev pre ((start, m) # rest)) = bytes pre \<union> {start ..< start + m} \<union> bytes rest"
      "\<forall>x. x \<in> bytes pre \<or> heap_mem h' x = heap_mem ?h1 x" by blast
  have ld: "list_dealloc start sz xs = join_prev pre ((start, m) # rest)"
    using j(1) by (simp add: list_dealloc_def pre_def post_def)
  have "heap_dealloc fuel ptr req h = Ok h'"
    using hd pos j(2) fr(1) h'(1) by (auto simp: heap_dealloc_def header_in_def HEADER_SIZE_def Let_def)
  moreover have "blocks_end (start + m) rest < u64_limit"
    using j(8) bp fr(5) by (cases post) auto
  moreover have "bytes (list_dealloc start sz xs) = bytes xs \<union> {start ..< start + sz}"
    using h'(5) j(5) sp(1) ld by auto
  moreover have "x \<in> bytes xs \<union> {start ..< start + sz} \<or> heap_mem h' x = heap_mem h x" for x
    using h'(6) out [of x] sp(1) by (metis UnCI bytes_simps(3))
  ultimately show ?thesis using h'(2-4) ld by (auto simp: heap_rep_def)
qed

subsection \<open>The whole heap: free and live blocks tile the arena\<close>

record live_block =
  lb_ptr :: nat
  lb_size :: nat
  lb_align :: nat
  lb_start :: nat
  lb_block :: nat

definition extent :: "live_block \<Rightarrow> nat set" where
  "extent b = {lb_start b ..< lb_start b + lb_block b}"

definition live_ok :: "heap \<Rightarrow> live_block \<Rightarrow> bool" where
  "live_ok h b \<longleftrightarrow> header_in h (lb_ptr b - 32) (lb_start b) (lb_block b) (lb_size b) \<and>
     lb_start b + 32 \<le> lb_ptr b \<and> lb_ptr b + lb_size b \<le> lb_start b + lb_block b \<and> 0 < lb_size b \<and>
     lb_ptr b mod lb_align b = 0 \<and> 0 < lb_start b \<and> 8 dvd lb_start b \<and> 8 dvd lb_block b"

definition heap_invar :: "nat \<Rightarrow> nat \<Rightarrow> (nat \<times> nat) list \<Rightarrow> heap \<times> live_block set \<Rightarrow> bool" where
  "heap_invar lo hi xs = (\<lambda>(h, live). heap_rep h xs \<and> lo < hi \<and> hi < u64_limit \<and>
     (\<forall>b \<in> live. live_ok h b \<and> extent b \<inter> bytes xs = {}) \<and>
     (\<forall>b \<in> live. \<forall>c \<in> live. b \<noteq> c \<longrightarrow> extent b \<inter> extent c = {}) \<and>
     bytes xs \<union> (\<Union>b \<in> live. extent b) = {lo ..< hi})"

text \<open>One step of the users of the heap: a request, a release of a live block with its size, a store
  into a live block. The fuel is the end of the arena, which bounds the number of blocks.\<close>

inductive heap_step :: "nat \<Rightarrow> heap \<times> live_block set \<Rightarrow> heap \<times> live_block set \<Rightarrow> bool" for hi where
  granted: "request_ok sz align hi \<Longrightarrow> heap_alloc hi sz align h = Ok (h', p) \<Longrightarrow> p \<noteq> 0 \<Longrightarrow>
    heap_step hi (h, live) (h', insert \<lparr>lb_ptr = p, lb_size = sz, lb_align = align,
      lb_start = heap_mem h' (p - 32 + 8), lb_block = heap_mem h' (p - 32 + 16)\<rparr> live)"
| exhausted: "request_ok sz align hi \<Longrightarrow> heap_alloc hi sz align h = Ok (h', 0) \<Longrightarrow> heap_step hi (h, live) (h', live)"
| released: "b \<in> live \<Longrightarrow> heap_dealloc hi (lb_ptr b) (lb_size b) h = Ok h' \<Longrightarrow> heap_step hi (h, live) (h', live - {b})"
| stored: "b \<in> live \<Longrightarrow> 8 dvd a \<Longrightarrow> lb_ptr b \<le> a \<Longrightarrow> a < lb_ptr b + lb_size b \<Longrightarrow>
    heap_step hi (h, live) (h\<lparr>heap_mem := (heap_mem h)(a := v)\<rparr>, live)"

lemma heap_invarI:
  assumes "heap_rep h xs" "lo < hi" "hi < u64_limit" "\<And>b. b \<in> live \<Longrightarrow> live_ok h b \<and> extent b \<inter> bytes xs = {}"
    "\<And>b c. b \<in> live \<Longrightarrow> c \<in> live \<Longrightarrow> b \<noteq> c \<Longrightarrow> extent b \<inter> extent c = {}"
    "bytes xs \<union> (\<Union>b \<in> live. extent b) = {lo ..< hi}"
  shows "heap_invar lo hi xs (h, live)"
  using assms by (simp add: heap_invar_def)

lemma blocks_length: "blocks_ok lo xs \<Longrightarrow> lo + length xs \<le> blocks_end lo xs"
  by (induction lo xs rule: blocks_ok.induct) auto

lemma blocks_end_bytes: "blocks_ok lo xs \<Longrightarrow> xs \<noteq> [] \<Longrightarrow> blocks_end lo xs - 1 \<in> bytes xs"
proof (induction lo xs rule: blocks_ok.induct)
  case (2 lo s n xs)
  then show ?case by (cases xs) auto
qed simp

lemma invar_parts:
  assumes "heap_invar lo hi xs (h, live)"
  shows "heap_rep h xs" "blocks_ok 0 xs" "blocks_end 0 xs \<le> hi" "length xs < hi" "hi < u64_limit"
proof -
  show r: "heap_rep h xs" "hi < u64_limit" using assms by (auto simp: heap_invar_def)
  then show ok: "blocks_ok 0 xs" by (simp add: heap_rep_def)
  show e: "blocks_end 0 xs \<le> hi"
  proof (cases "xs = []")
    case False
    from blocks_end_bytes [OF ok False] assms have "blocks_end 0 xs - 1 < hi" by (auto simp: heap_invar_def)
    then show ?thesis by simp
  qed simp
  show "length xs < hi"
  proof (cases xs)
    case Nil
    then show ?thesis using assms by (auto simp: heap_invar_def)
  next
    case (Cons b ys)
    obtain s n where "b = (s, n)" by (cases b)
    then have "length xs < blocks_end 0 xs" using blocks_length [of "s + n" ys] ok Cons by auto
    then show ?thesis using e by simp
  qed
qed

lemma live_ok_frame:
  assumes "live_ok h b" "\<And>x. x \<in> extent b \<Longrightarrow> x < lb_ptr b \<Longrightarrow> heap_mem h' x = heap_mem h x"
  shows "live_ok h' b"
proof -
  have "lb_ptr b - 32 + k \<in> extent b \<and> lb_ptr b - 32 + k < lb_ptr b" if "k < 32" for k
    using that assms(1) by (auto simp: live_ok_def extent_def)
  then have "heap_mem h' (lb_ptr b - 32 + k) = heap_mem h (lb_ptr b - 32 + k)" if "k < 32" for k
    using assms(2) that by blast
  from this [of 0] this [of 8] this [of 16] this [of 24] show ?thesis
    using assms(1) unfolding live_ok_def header_in_def by auto
qed

lemma heap_alloc_refines:
  assumes inv: "heap_invar lo hi xs (h, live)" and req: "request_ok sz align hi"
  shows "case list_alloc sz align xs of
      None \<Rightarrow> heap_alloc hi sz align h = Ok (h, 0)
    | Some (ys, p) \<Rightarrow> \<exists>h'. heap_alloc hi sz align h = Ok (h', user_addr p) \<and> heap_rep h' ys \<and>
        header_in h' (header_addr p) (block_start p) (block_size p) sz \<and>
        (\<forall>x. x \<in> bytes xs \<or> heap_mem h' x = heap_mem h x)"
proof -
  note parts = invar_parts [OF inv]
  have seg: "seg h (free_list_head h) xs 0" and sz: "0 < sz"
    using parts(1) req by (auto simp: heap_rep_def request_ok_def)
  have nil: "last_of [] = 0" "first_of xs = free_list_head h" by (simp_all add: last_of_def seg_first [OF seg])
  note loop = alloc_loop_refines [of h "[]" xs hi sz align hi, unfolded nil append_Nil, OF seg parts(2,3) req parts(4)]
  have "blocks_ok 0 ys \<and> blocks_end 0 ys < u64_limit" if "list_alloc sz align xs = Some (ys, p)" for ys p
    using list_alloc_Some [OF parts(2,3) req that] parts(3,5) by auto
  then show ?thesis using sz loop
    by (auto simp: heap_alloc_def heap_rep_def split: option.splits)
qed

text \<open>Every step keeps the tiling.\<close>

lemma invar_granted:
  assumes inv: "heap_invar lo hi xs (h, live)" and req: "request_ok sz align hi"
    and a: "heap_alloc hi sz align h = Ok (h', ptr)" "ptr \<noteq> 0"
  defines "b \<equiv> \<lparr>lb_ptr = ptr, lb_size = sz, lb_align = align,
      lb_start = heap_mem h' (ptr - 32 + 8), lb_block = heap_mem h' (ptr - 32 + 16)\<rparr>"
  shows "\<exists>ys. heap_invar lo hi ys (h', insert b live) \<and> bytes ys = bytes xs - extent b \<and> extent b \<subseteq> bytes xs"
proof -
  note parts = invar_parts [OF inv]
  from heap_alloc_refines [OF inv req] a obtain ys p where
    l: "list_alloc sz align xs = Some (ys, p)" and p: "ptr = user_addr p" and rep: "heap_rep h' ys"
    and hd: "header_in h' (header_addr p) (block_start p) (block_size p) sz"
    and mem: "\<forall>x. x \<in> bytes xs \<or> heap_mem h' x = heap_mem h x"
    by (cases "list_alloc sz align xs") auto
  from list_alloc_Some [OF parts(2,3) req l] obtain re where
    pl: "plan_ok sz align (block_start p) re p" "{block_start p ..< block_start p + block_size p} \<subseteq> bytes xs"
      "bytes ys = bytes xs - {block_start p ..< block_start p + block_size p}" "8 dvd block_start p" by blast
  have u: "block_start p \<le> header_addr p" "header_addr p + 32 = user_addr p" "user_addr p + sz \<le> block_start p + block_size p"
    "user_addr p mod align = 0" "8 dvd block_size p" using pl(1) by (auto simp: plan_ok_def)
  have sz: "0 < sz" using req by (simp add: request_ok_def)
  have ha: "ptr - 32 = header_addr p" using u(2) p by simp
  have b: "lb_start b = block_start p" "lb_block b = block_size p" "lb_ptr b = user_addr p" "lb_size b = sz" "lb_align b = align"
    using hd ha p by (simp_all add: b_def header_in_def)
  have ext: "extent b = {block_start p ..< block_start p + block_size p}" by (simp add: extent_def b)
  have "block_start p \<in> {block_start p ..< block_start p + block_size p}" using u sz by auto
  then have "0 < block_start p" using pl(2) bytes_bounds [OF parts(2)] by blast
  then have new: "live_ok h' b" using hd ha u sz pl(4) p by (simp add: live_ok_def b)
  have old: "live_ok h' c \<and> extent c \<inter> bytes ys = {} \<and> extent c \<inter> extent b = {}" if "c \<in> live" for c
  proof -
    have c: "live_ok h c" "extent c \<inter> bytes xs = {}" using inv that by (auto simp: heap_invar_def)
    then have "live_ok h' c" using mem by (intro live_ok_frame [OF c(1)]) (auto simp: disjoint_iff)
    then show ?thesis using c(2) pl(2,3) ext by auto
  qed
  have "heap_invar lo hi ys (h', insert b live)"
  proof (rule heap_invarI [OF rep])
    show "lo < hi" "hi < u64_limit" using inv by (auto simp: heap_invar_def)
    show "live_ok h' c \<and> extent c \<inter> bytes ys = {}" if "c \<in> insert b live" for c
      using that new old pl(3) ext by blast
    show "extent c \<inter> extent d = {}" if "c \<in> insert b live" "d \<in> insert b live" "c \<noteq> d" for c d
    proof -
      have "extent c \<inter> extent d = {}" if "c \<in> live" "d \<in> live"
        using that \<open>c \<noteq> d\<close> inv by (auto simp: heap_invar_def)
      with that old show ?thesis by (metis Int_commute insertE)
    qed
    have "bytes xs \<union> (\<Union>c \<in> live. extent c) = {lo ..< hi}" using inv by (simp add: heap_invar_def)
    then show "bytes ys \<union> (\<Union>c \<in> insert b live. extent c) = {lo ..< hi}" using pl(2,3) ext by auto
  qed
  then show ?thesis using pl(2,3) ext by blast
qed

lemma invar_released:
  assumes inv: "heap_invar lo hi xs (h, live)" and b: "b \<in> live"
  shows "\<exists>h' ys. heap_dealloc hi (lb_ptr b) (lb_size b) h = Ok h' \<and> heap_invar lo hi ys (h', live - {b}) \<and>
    bytes ys = bytes xs \<union> extent b"
proof -
  note parts = invar_parts [OF inv]
  have ok: "live_ok h b" "extent b \<inter> bytes xs = {}" "extent b \<subseteq> {lo ..< hi}" using inv b by (auto simp: heap_invar_def)
  have "lb_start b + lb_block b - 1 \<in> extent b" using ok(1) by (auto simp: live_ok_def extent_def)
  then have "lb_start b + lb_block b - 1 < hi" using ok(3) by (meson atLeastLessThan_iff subsetD)
  then have lim: "lb_start b + lb_block b < u64_limit" using parts(5) by linarith
  have f: "freeable (lb_start b) (lb_block b) xs"
    using ok(1,2) lim by (auto simp: freeable_def live_ok_def extent_def)
  have hd: "header_in h (lb_ptr b - 32) (lb_start b) (lb_block b) (lb_size b)" "32 \<le> lb_ptr b"
    using ok(1) by (auto simp: live_ok_def)
  from heap_dealloc_refines [OF parts(1) f hd parts(4)] obtain h' where
    h': "heap_dealloc hi (lb_ptr b) (lb_size b) h = Ok h'" "heap_rep h' (list_dealloc (lb_start b) (lb_block b) xs)"
      "bytes (list_dealloc (lb_start b) (lb_block b) xs) = bytes xs \<union> extent b"
      "\<forall>x. x \<in> bytes xs \<union> extent b \<or> heap_mem h' x = heap_mem h x" unfolding extent_def by blast
  have rest: "live_ok h' c \<and> extent c \<inter> (bytes xs \<union> extent b) = {}" if "c \<in> live - {b}" for c
  proof -
    have c: "live_ok h c" "extent c \<inter> (bytes xs \<union> extent b) = {}"
      using inv b that unfolding heap_invar_def by (auto simp: Int_Un_distrib)
    then have "live_ok h' c" using h'(4) by (intro live_ok_frame [OF c(1)]) (auto simp: disjoint_iff)
    with c(2) show ?thesis by blast
  qed
  have "bytes xs \<union> extent b \<union> (\<Union>c \<in> live - {b}. extent c) = {lo ..< hi}"
    using inv b unfolding heap_invar_def by auto
  then have "heap_invar lo hi (list_dealloc (lb_start b) (lb_block b) xs) (h', live - {b})"
    using inv h'(2,3) rest unfolding heap_invar_def by simp
  then show ?thesis using h'(1,3) by blast
qed

lemma invar_stored:
  assumes inv: "heap_invar lo hi xs (h, live)" and b: "b \<in> live" and a: "lb_ptr b \<le> a" "a < lb_ptr b + lb_size b"
  shows "heap_invar lo hi xs (h\<lparr>heap_mem := (heap_mem h)(a := v)\<rparr>, live)"
proof -
  let ?h = "h\<lparr>heap_mem := (heap_mem h)(a := v)\<rparr>"
  note parts = invar_parts [OF inv]
  have ok: "live_ok h b" "extent b \<inter> bytes xs = {}" using inv b by (auto simp: heap_invar_def)
  have "a \<in> extent b" using ok(1) a by (auto simp: live_ok_def extent_def)
  then have out: "a \<notin> bytes xs" using ok(2) by blast
  have "seg ?h (free_list_head h) xs 0"
    using seg_frame [of xs ?h h 0] parts(1,2) out by (auto simp: heap_rep_def)
  then have "heap_rep ?h xs" using parts(1) by (simp add: heap_rep_def)
  moreover have "live_ok ?h c" if c: "c \<in> live" for c
  proof (cases "c = b")
    case True
    have "live_ok ?h b" by (rule live_ok_frame [OF ok(1)]) (use a(1) in simp)
    then show ?thesis using True by simp
  next
    case False
    have "extent c \<inter> extent b = {}" "live_ok h c" using inv b c False by (simp_all add: heap_invar_def)
    then have "a \<notin> extent c" using \<open>a \<in> extent b\<close> by blast
    show ?thesis by (rule live_ok_frame [OF \<open>live_ok h c\<close>]) (use \<open>a \<notin> extent c\<close> in auto)
  qed
  ultimately show ?thesis using inv by (simp add: heap_invar_def)
qed

lemma heap_invar_step:
  assumes "heap_step hi c d" "heap_invar lo hi xs c"
  shows "\<exists>ys. heap_invar lo hi ys d"
  using assms
proof (induction rule: heap_step.induct)
  case (granted sz align h h' p live)
  then show ?case using invar_granted by blast
next
  case (exhausted sz align h h' live)
  have "h' = h"
  proof (cases "list_alloc sz align xs")
    case None
    then show ?thesis using heap_alloc_refines [OF exhausted.prems exhausted.hyps(1)] exhausted.hyps(2) by simp
  next
    case (Some r)
    obtain ys p where r: "r = (ys, p)" by (cases r)
    note parts = invar_parts [OF exhausted.prems]
    from list_alloc_Some [OF parts(2,3) exhausted.hyps(1)] Some r have "0 < user_addr p" by (auto simp: plan_ok_def)
    then show ?thesis using heap_alloc_refines [OF exhausted.prems exhausted.hyps(1)] exhausted.hyps(2) Some r by auto
  qed
  then show ?case using exhausted by blast
next
  case (released b live h h')
  then show ?case using invar_released [OF released.prems released.hyps(1)] by auto
next
  case (stored b live a h v)
  then show ?case using invar_stored by blast
qed

lemma heap_invar_run: "(heap_step hi)\<^sup>*\<^sup>* c d \<Longrightarrow> heap_invar lo hi xs c \<Longrightarrow> \<exists>ys. heap_invar lo hi ys d"
  by (induction rule: rtranclp_induct) (auto dest: heap_invar_step)

lemma heap_invar_init:
  assumes "0 < lo" "8 dvd lo" "8 dvd hi" "lo + 16 \<le> hi" "hi < u64_limit"
  shows "heap_invar lo hi [(lo, hi - lo)] (heap_init lo (hi - lo) h, {})"
  using assms
  by (auto simp: heap_invar_def heap_rep_def heap_init_def node_size_def node_next_def write_node_def intro: dvd_diff_nat)

text \<open>Two canonical lists with the same bytes are the same list.\<close>

lemma blocks_unique:
  assumes "blocks_ok lo xs" "blocks_ok lo ys" "bytes xs = bytes ys"
  shows "xs = ys"
  using assms
proof (induction xs arbitrary: lo ys)
  case Nil
  then show ?case by (cases ys) auto
next
  case (Cons b xs)
  obtain s n where b: "b = (s, n)" by (cases b)
  have x: "16 \<le> n" "blocks_ok (s + n) xs" using Cons.prems(1) b by auto
  obtain t m zs where y: "ys = (t, m) # zs" using Cons.prems(3) b x(1) by (cases ys) auto
  have z: "16 \<le> m" "blocks_ok (t + m) zs" using Cons.prems(2) y by auto
  note bx = bytes_bounds [OF x(2)] and bz = bytes_bounds [OF z(2)]
  have eq: "{s ..< s + n} \<union> bytes xs = {t ..< t + m} \<union> bytes zs" using Cons.prems(3) b y by simp
  have "s \<in> {t ..< t + m} \<union> bytes zs" "t \<in> {s ..< s + n} \<union> bytes xs" using eq x(1) z(1) by auto
  then have st: "s = t" using bx bz by fastforce
  have "s + n \<notin> {s ..< s + n} \<union> bytes xs" "t + m \<notin> {t ..< t + m} \<union> bytes zs" using bx bz by fastforce+
  then have "\<not> n < m" "\<not> m < n" using eq st by auto
  then have nm: "n = m" by simp
  have "bytes xs \<inter> {s ..< s + n} = {}" "bytes zs \<inter> {s ..< s + n} = {}" using bx bz st nm by fastforce+
  then have "bytes xs = bytes zs" using eq unfolding st nm by blast
  with Cons.IH [OF x(2)] z(2) st nm b y show ?case by simp
qed

subsection \<open>Properties\<close>

fun total_size :: "(nat \<times> nat) list \<Rightarrow> nat" where
  "total_size [] = 0"
| "total_size ((s, n) # xs) = n + total_size xs"

lemma total_size_bound: "blocks_ok lo xs \<Longrightarrow> lo + total_size xs \<le> blocks_end lo xs"
  by (induction lo xs rule: blocks_ok.induct) auto

lemma free_bytes_loop_eq:
  assumes "seg h a xs 0" "blocks_ok lo xs" "length xs < fuel" "acc + total_size xs < u64_limit"
  shows "free_bytes_loop fuel a acc h = Ok (acc + total_size xs)"
  using assms
proof (induction xs arbitrary: a lo fuel acc)
  case Nil
  then show ?case by (cases fuel) auto
next
  case (Cons b xs)
  obtain s n where b: "b = (s, n)" by (cases b)
  obtain f where f: "fuel = Suc f" using Cons.prems(3) by (cases fuel) auto
  from Cons.prems Cons.IH [of "node_next h s" "s + n" f "acc + n"] show ?case by (auto simp: b f add.assoc)
qed

lemma free_block_count_loop_eq:
  assumes "seg h a xs 0" "blocks_ok lo xs" "length xs < fuel"
  shows "free_block_count_loop fuel a acc h = Ok (acc + length xs)"
  using assms
proof (induction xs arbitrary: a lo fuel acc)
  case Nil
  then show ?case by (cases fuel) auto
next
  case (Cons b xs)
  obtain s n where b: "b = (s, n)" by (cases b)
  obtain f where f: "fuel = Suc f" using Cons.prems(3) by (cases fuel) auto
  from Cons.prems Cons.IH [of "node_next h s" "s + n" f "acc + 1"] show ?case by (auto simp: b f)
qed

definition sample_heap :: heap where
  "sample_heap = heap_init 0x1000 (0x2000 - 0x1000) heap_empty"

lemma sample_heap_facts:
  "heap_invar 0x1000 0x2000 [(0x1000, 0x1000)] (sample_heap, {})" "request_ok 100 16 0x2000"
proof -
  show "heap_invar 0x1000 0x2000 [(0x1000, 0x1000)] (sample_heap, {})"
    using heap_invar_init [of "0x1000" "0x2000" heap_empty] by (simp add: sample_heap_def)
  have "\<exists>k. (16::nat) = 2 ^ k" by (rule exI [of _ 4]) simp
  then show "request_ok 100 16 0x2000" by (simp add: request_ok_def)
qed

lemma sample_request: "\<exists>h' p. heap_alloc 0x2000 100 16 sample_heap = Ok (h', p) \<and> p \<noteq> 0"
proof (cases "list_alloc 100 16 [(0x1000, 0x1000)]")
  case None
  then show ?thesis
    using list_alloc_None [OF invar_parts(2,3) [OF sample_heap_facts(1)] sample_heap_facts(2)] by simp
next
  case (Some r)
  obtain ys p where r: "r = (ys, p)" by (cases r)
  from list_alloc_Some [OF invar_parts(2,3) [OF sample_heap_facts(1)] sample_heap_facts(2)] Some r
  have "0 < user_addr p" by (auto simp: plan_ok_def)
  then show ?thesis using heap_alloc_refines [OF sample_heap_facts] Some r by auto
qed

lemma extent_user: "live_ok h b \<Longrightarrow> {lb_ptr b ..< lb_ptr b + lb_size b} \<subseteq> extent b"
  by (auto simp: live_ok_def extent_def)

text \<open>C11: in every run of requests, releases and stores into live blocks, from a fresh arena, the
  regions handed out are aligned as requested, lie in the arena and do not overlap, and each of them
  can be released: the header is intact and the walk over the free list ends.\<close>

theorem live_regions_never_overlap:
  assumes "(heap_step hi)\<^sup>*\<^sup>* (heap_init lo (hi - lo) h0, {}) (h, live)"
    and "0 < lo" "8 dvd lo" "8 dvd hi" "lo + 16 \<le> hi" "hi < u64_limit" and b: "b \<in> live"
  shows "lb_ptr b mod lb_align b = 0 \<and> {lb_ptr b ..< lb_ptr b + lb_size b} \<subseteq> {lo ..< hi} \<and>
    (\<exists>h'. heap_dealloc hi (lb_ptr b) (lb_size b) h = Ok h') \<and>
    (\<forall>c \<in> live - {b}. {lb_ptr b ..< lb_ptr b + lb_size b} \<inter> {lb_ptr c ..< lb_ptr c + lb_size c} = {})"
proof -
  obtain ys where inv: "heap_invar lo hi ys (h, live)"
    using heap_invar_run [OF assms(1) heap_invar_init [OF assms(2-6)]] by blast
  have ok: "live_ok h c" if "c \<in> live" for c using inv that by (simp add: heap_invar_def)
  have "extent b \<inter> extent c = {}" if "c \<in> live - {b}" for c
  proof -
    have "c \<in> live" "b \<noteq> c" using that by auto
    then show ?thesis using inv b by (simp add: heap_invar_def)
  qed
  then have "\<forall>c \<in> live - {b}. {lb_ptr b ..< lb_ptr b + lb_size b} \<inter> {lb_ptr c ..< lb_ptr c + lb_size c} = {}"
    using extent_user [OF ok] b by blast
  moreover have "extent b \<subseteq> {lo ..< hi}" using inv b by (auto simp: heap_invar_def)
  then have "{lb_ptr b ..< lb_ptr b + lb_size b} \<subseteq> {lo ..< hi}" using extent_user [OF ok [OF b]] by blast
  moreover have "lb_ptr b mod lb_align b = 0" using ok [OF b] by (simp add: live_ok_def)
  ultimately show ?thesis using invar_released [OF inv b] by blast
qed

theorem live_regions_never_overlap_witness:
  "\<exists>h live b. (heap_step 0x2000)\<^sup>*\<^sup>* (heap_init 0x1000 (0x2000 - 0x1000) heap_empty, {}) (h, live) \<and> b \<in> live \<and>
     lb_size b = 100 \<and> lb_ptr b mod 16 = 0 \<and> (\<exists>h'. heap_dealloc 0x2000 (lb_ptr b) 100 h = Ok h')"
proof -
  obtain h' p where a: "heap_alloc 0x2000 100 16 sample_heap = Ok (h', p)" "p \<noteq> 0" using sample_request by blast
  let ?b = "\<lparr>lb_ptr = p, lb_size = 100, lb_align = 16,
      lb_start = heap_mem h' (p - 32 + 8), lb_block = heap_mem h' (p - 32 + 16)\<rparr>"
  have run: "(heap_step 0x2000)\<^sup>*\<^sup>* (heap_init 0x1000 (0x2000 - 0x1000) heap_empty, {}) (h', {?b})"
    using heap_step.granted [OF sample_heap_facts(2) a, of "{}"] unfolding sample_heap_def by blast
  from live_regions_never_overlap [OF run, of ?b] run show ?thesis
    by (intro exI [of _ h'] exI [of _ "{?b}"] exI [of _ ?b]) simp
qed

lemma list_alloc_first_fit:
  assumes "blocks_ok lo xs" "blocks_end lo xs \<le> limit" "request_ok sz align limit"
  shows "case list_alloc sz align xs of
      None \<Rightarrow> \<forall>b \<in> set xs. \<forall>u. \<not> room sz align b u
    | Some (ys, p) \<Rightarrow> first_fit sz align xs (user_addr p)"
  using assms
proof (induction xs arbitrary: lo)
  case (Cons b xs)
  obtain s n where b: "b = (s, n)" by (cases b)
  have blk: "8 dvd s" "8 dvd n" "blocks_ok (s + n) xs" "blocks_end (s + n) xs \<le> limit" using Cons.prems b by auto
  have "s + n \<le> limit" using blocks_end_ge [OF blk(3)] blk(4) by simp
  then have req: "request_ok sz align (s + n)" using Cons.prems(3) by (auto simp: request_ok_def)
  from place_exact [OF req blk(1,2)] Cons.IH [OF blk(3,4) Cons.prems(3)] show ?case
    by (cases "list_alloc sz align xs") (elim disjE exE conjE; force simp: b)+
qed simp

text \<open>C18: a request that can be computed with always returns. It returns null exactly when no free block has room for
  the bytes at an aligned address behind a header, and then changes nothing; otherwise it returns the lowest such
  address of the first free block that has one.\<close>

theorem heap_alloc_is_first_fit:
  assumes inv: "heap_invar lo hi xs (h, live)" and req: "request_ok sz align hi"
  shows "\<exists>h' p. heap_alloc hi sz align h = Ok (h', p) \<and>
    (if \<exists>b \<in> set xs. \<exists>u. room sz align b u then p \<noteq> 0 \<and> first_fit sz align xs p else p = 0 \<and> h' = h)"
proof -
  note ff = list_alloc_first_fit [OF invar_parts(2,3) [OF inv] req] and ref = heap_alloc_refines [OF inv req]
  show ?thesis
  proof (cases "list_alloc sz align xs")
    case None
    then show ?thesis using ff ref by auto
  next
    case (Some r)
    obtain ys p where r: "r = (ys, p)" by (cases r)
    have f: "first_fit sz align xs (user_addr p)" using ff Some r by simp
    then obtain b where b: "b \<in> set xs" "room sz align b (user_addr p)" using first_fit_room by blast
    then have "\<exists>b \<in> set xs. \<exists>u. room sz align b u" "user_addr p \<noteq> 0" by (auto simp: room_def heap_constants)
    then show ?thesis using ref Some r f by auto
  qed
qed

theorem heap_alloc_is_first_fit_witness:
  "(\<exists>h'. heap_alloc 0x2000 100 16 sample_heap = Ok (h', 0x1020)) \<and> (\<exists>h'. heap_alloc 0x2000 0xFE0 8 sample_heap = Ok (h', 0x1020)) \<and>
   heap_alloc 0x2000 0xFE1 8 sample_heap = Ok (sample_heap, 0)"
proof -
  have power: "\<exists>k. (8::nat) = 2 ^ k" by (rule exI [of _ 3]) simp
  have req: "request_ok 0xFE0 8 0x2000" "request_ok 0xFE1 8 0x2000" using power by (simp_all add: request_ok_def)
  have r: "room 100 16 (0x1000, 0x1000) 0x1020" "room 0xFE0 8 (0x1000, 0x1000) 0x1020" "\<not> room 0xFE1 8 (0x1000, 0x1000) u" for u
    by (auto simp: room_def heap_constants)
  have least: "p = 0x1020" if "first_fit sz align [(0x1000, 0x1000)] p" "room sz align (0x1000, 0x1000) 0x1020" for p sz align
  proof -
    have "room sz align (0x1000, 0x1000) p" "\<forall>u. room sz align (0x1000, 0x1000) u \<longrightarrow> p \<le> u" using that by (auto split: if_splits)
    then have "p \<le> 0x1020" "0x1020 \<le> p" using that(2) by (auto simp: room_def heap_constants)
    then show ?thesis by simp
  qed
  note F = heap_alloc_is_first_fit [OF sample_heap_facts(1)]
  have a: "\<exists>h'. heap_alloc 0x2000 100 16 sample_heap = Ok (h', 0x1020)" using F [OF sample_heap_facts(2)] r(1) least [OF _ r(1)] by (auto simp del: first_fit.simps split: if_splits)
  have b: "\<exists>h'. heap_alloc 0x2000 0xFE0 8 sample_heap = Ok (h', 0x1020)" using F [OF req(1)] r(2) least [OF _ r(2)] by (auto simp del: first_fit.simps split: if_splits)
  have "heap_alloc 0x2000 0xFE1 8 sample_heap = Ok (sample_heap, 0)" using F [OF req(2)] r(3) by auto
  with a b show ?thesis by simp
qed

text \<open>C17: releasing a block right after it was granted restores the free list exactly: the pieces
  that the request split off are merged again on both sides.\<close>

theorem alloc_dealloc_restores_free_list:
  assumes inv: "heap_invar lo hi xs (h, live)" and req: "request_ok sz align hi"
    and a: "heap_alloc hi sz align h = Ok (h', p)" "p \<noteq> 0"
  shows "\<exists>h''. heap_dealloc hi p sz h' = Ok h'' \<and> heap_rep h'' xs"
proof -
  let ?b = "\<lparr>lb_ptr = p, lb_size = sz, lb_align = align,
      lb_start = heap_mem h' (p - 32 + 8), lb_block = heap_mem h' (p - 32 + 16)\<rparr>"
  obtain ys where ys: "heap_invar lo hi ys (h', insert ?b live)" "bytes ys = bytes xs - extent ?b" "extent ?b \<subseteq> bytes xs"
    using invar_granted [OF inv req a] by blast
  obtain h'' zs where zs: "heap_dealloc hi p sz h' = Ok h''" "heap_invar lo hi zs (h'', insert ?b live - {?b})"
    "bytes zs = bytes ys \<union> extent ?b" using invar_released [OF ys(1), of ?b] by auto
  have "bytes zs = bytes xs" using zs(3) ys(2,3) by blast
  then have "zs = xs" using blocks_unique invar_parts(2) [OF zs(2)] invar_parts(2) [OF inv] by blast
  then show ?thesis using zs(1) invar_parts(1) [OF zs(2)] by blast
qed

theorem alloc_dealloc_restores_free_list_witness:
  "\<exists>h' p h''. heap_alloc 0x2000 100 16 sample_heap = Ok (h', p) \<and> heap_dealloc 0x2000 p 100 h' = Ok h'' \<and>
     heap_rep h'' [(0x1000, 0x1000)]"
proof -
  obtain h' p where a: "heap_alloc 0x2000 100 16 sample_heap = Ok (h', p)" "p \<noteq> 0" using sample_request by blast
  from alloc_dealloc_restores_free_list [OF sample_heap_facts a] a(1) show ?thesis by blast
qed

text \<open>A request near the address limit panics instead of being refused: rounding its end up to a
  word overflows before the comparison with the block, although the placement is documented to
  answer \<open>None\<close> when the request does not fit. The region lies in the upper half, as the heap does.\<close>

theorem plan_allocation_overflows_instead_of_refusing:
  "plan_allocation 0xFFFF800000001000 0xFFFF800000101000 HEADER_SIZE HEADER_ALIGN
     (u64_limit - 1 - 0xFFFF800000001020) 8 MIN_BLOCK_SIZE = (Panic :: (heap_stop, alloc_plan option) outcome)"
proof -
  have "align_up 0xFFFF800000001020 8 = (Ok 0xFFFF800000001020 :: (heap_stop, nat) outcome)"
    by (subst align_up_eq [of _ 3]) (simp_all add: next_multiple_of_def)
  moreover have "align_up (u64_limit - 1) 8 = (Panic :: (heap_stop, nat) outcome)" by (simp add: align_up_def)
  ultimately show ?thesis by (simp add: plan_allocation_def heap_constants Let_def)
qed

text \<open>C19: the walks over the free list end on every heap of a run and count exactly: the number of
  free blocks and the sum of their sizes, without overflow.\<close>

theorem free_list_walks_end:
  assumes inv: "heap_invar lo hi xs (h, live)"
  shows "free_bytes hi h = Ok (total_size xs) \<and> free_block_count hi h = Ok (length xs)"
proof -
  note parts = invar_parts [OF inv]
  have seg: "seg h (free_list_head h) xs 0" using parts(1) by (simp add: heap_rep_def)
  have "total_size xs < u64_limit" using total_size_bound [OF parts(2)] parts(3,5) by simp
  then show ?thesis
    using free_bytes_loop_eq [OF seg parts(2,4), of 0] free_block_count_loop_eq [OF seg parts(2,4), of 0]
    by (simp add: free_bytes_def free_block_count_def)
qed

theorem free_list_walks_end_witness:
  "free_bytes 0x2000 sample_heap = Ok 0x1000 \<and> free_block_count 0x2000 sample_heap = Ok 1"
  using free_list_walks_end [OF sample_heap_facts(1)] by simp

end
