(* ===== verification/Ext2.thy ===== *)
theory Ext2
  imports Prelude
begin

unbundle bit_operations_syntax

text \<open>
  The ext2 reader (\<open>common/src/ext2.rs\<close>, up to \<open>impl Ext2\<close>): acceptance of an img, blocks, group
  descriptors, inodes, the blocks of a file (direct, single indirect, holes), the directory iterator
  and path lookup. A \<open>u32\<close> or \<open>u16\<close> read from the image is a \<open>nat\<close>; a sum or product the code forms
  in \<open>u64\<close> from such values stays far below \<open>2 ^ 64\<close> and is written without a check, a \<open>u32\<close> sum has
  its overflow panic. An index out of range is \<open>Panic\<close>.
\<close>

subsection \<open>Constants and data\<close>

definition EXT2_MAGIC :: nat where "EXT2_MAGIC = 0xEF53"
definition SUPERBLOCK_OFFSET :: nat where "SUPERBLOCK_OFFSET = 1024"
definition SUPERBLOCK_MIN_LEN :: nat where "SUPERBLOCK_MIN_LEN = 104"
definition SUPERBLOCK_WANT_EXTRA_ISIZE :: nat where "SUPERBLOCK_WANT_EXTRA_ISIZE = 350"
definition GROUP_DESCRIPTOR_SIZE :: nat where "GROUP_DESCRIPTOR_SIZE = 32"
definition EXT2_DYNAMIC_REV :: nat where "EXT2_DYNAMIC_REV = 1"
definition INCOMPAT_FILETYPE :: u32 where "INCOMPAT_FILETYPE = 2"
definition INCOMPAT_SUPPORTED :: u32 where "INCOMPAT_SUPPORTED = INCOMPAT_FILETYPE"
definition INODE_CORE_LEN :: nat where "INODE_CORE_LEN = 128"
definition INODE_BLOCK_COUNT :: nat where "INODE_BLOCK_COUNT = 15"
definition DIRECT_BLOCK_COUNT :: nat where "DIRECT_BLOCK_COUNT = 12"
definition SINGLE_INDIRECT_SLOT :: nat where "SINGLE_INDIRECT_SLOT = 12"
definition DOUBLE_INDIRECT_SLOT :: nat where "DOUBLE_INDIRECT_SLOT = 13"
definition TRIPLE_INDIRECT_SLOT :: nat where "TRIPLE_INDIRECT_SLOT = 14"
definition INDIRECT_ENTRY_SIZE :: nat where "INDIRECT_ENTRY_SIZE = 4"
definition DIRENT_HEADER_LEN :: nat where "DIRENT_HEADER_LEN = 8"
definition DIRENT_ALIGNMENT :: nat where "DIRENT_ALIGNMENT = 4"
definition DIRENT_TYPE_REGULAR :: nat where "DIRENT_TYPE_REGULAR = 1"
definition DIRENT_TYPE_DIRECTORY :: nat where "DIRENT_TYPE_DIRECTORY = 2"
definition ROOT_INODE :: nat where "ROOT_INODE = 2"
definition PATH_SEPARATOR :: u8 where "PATH_SEPARATOR = 47"
definition MAX_PATH_COMPONENTS :: nat where "MAX_PATH_COMPONENTS = 64"
definition MODE_FORMAT_MASK :: nat where "MODE_FORMAT_MASK = 0xF000"
definition MODE_REGULAR :: nat where "MODE_REGULAR = 0x8000"
definition MODE_DIRECTORY :: nat where "MODE_DIRECTORY = 0x4000"
definition ZERO_BLOCK_LEN :: nat where "ZERO_BLOCK_LEN = 65536"

lemmas ext2_constants =
  EXT2_MAGIC_def SUPERBLOCK_OFFSET_def SUPERBLOCK_MIN_LEN_def SUPERBLOCK_WANT_EXTRA_ISIZE_def
  GROUP_DESCRIPTOR_SIZE_def EXT2_DYNAMIC_REV_def INODE_CORE_LEN_def INODE_BLOCK_COUNT_def
  DIRECT_BLOCK_COUNT_def SINGLE_INDIRECT_SLOT_def DOUBLE_INDIRECT_SLOT_def TRIPLE_INDIRECT_SLOT_def
  INDIRECT_ENTRY_SIZE_def DIRENT_HEADER_LEN_def DIRENT_ALIGNMENT_def ROOT_INODE_def
  MAX_PATH_COMPONENTS_def ZERO_BLOCK_LEN_def

abbreviation u32_limit :: nat where
  "u32_limit \<equiv> 2 ^ 32"

datatype ext2_error =
    Ext2TooShort | Ext2BadMagic | UnsupportedRevision nat | BadBlockSizeShift nat | BadInodeSize nat
  | ZeroPerGroup | UnsupportedIncompatFeatures u32 | ImageTooSmall nat nat | BlockOutOfRange nat
  | GroupDescriptorsOutOfRange | InodeOutOfRange nat | InodeTableOutOfRange nat nat
  | FileBlockOutOfRange nat | IndirectBlockUnsupported nat | SparseBlock nat | NotADirectory nat
  | DirEntryTruncated nat nat | DirEntryMisaligned nat | DirEntryRecordTooSmall nat nat
  | DirEntryRecordPastBlock nat nat | PathNotAbsolute | PathTooManyComponents nat | NotFound

record ext2 =
  fs_image :: "u8 list"
  fs_block_size :: nat
  fs_blocks_count :: nat
  fs_inodes_count :: nat
  fs_first_data_block :: nat
  fs_blocks_per_group :: nat
  fs_inodes_per_group :: nat
  fs_inode_size :: nat
  fs_first_inode :: nat
  fs_feature_compat :: nat
  fs_feature_incompat :: nat
  fs_feature_ro_compat :: nat
  fs_group_count :: nat
  fs_free_blocks_count :: nat
  fs_free_inodes_count :: nat
  fs_want_extra_isize :: nat

record block_group_descriptor =
  block_bitmap :: nat
  inode_bitmap :: nat
  inode_table :: nat
  bg_free_blocks_count :: nat
  bg_free_inodes_count :: nat
  bg_used_dirs_count :: nat

record inode =
  i_number :: nat
  i_mode :: nat
  i_size :: nat
  i_links_count :: nat
  i_blocks_512 :: nat
  i_block :: "nat list"

record dir_entry =
  d_inode :: nat
  d_file_type :: nat
  d_name :: "u8 list"
  d_next_offset :: nat

record dir_entries =
  de_fs :: ext2
  de_inode :: inode
  de_block_count :: nat
  de_block_index :: nat
  de_block :: "u8 list option"
  de_offset :: nat
  de_finished :: bool

definition mode_is_directory :: "nat \<Rightarrow> bool" where
  "mode_is_directory mode \<longleftrightarrow> mode AND MODE_FORMAT_MASK = MODE_DIRECTORY"

definition mode_is_regular :: "nat \<Rightarrow> bool" where
  "mode_is_regular mode \<longleftrightarrow> mode AND MODE_FORMAT_MASK = MODE_REGULAR"

definition is_directory :: "inode \<Rightarrow> bool" where
  "is_directory inode \<longleftrightarrow> mode_is_directory (i_mode inode)"

definition is_regular_file :: "inode \<Rightarrow> bool" where
  "is_regular_file inode \<longleftrightarrow> mode_is_regular (i_mode inode)"

definition uses_unsupported_indirection :: "inode \<Rightarrow> bool" where
  "uses_unsupported_indirection inode \<longleftrightarrow>
     i_block inode ! DOUBLE_INDIRECT_SLOT \<noteq> 0 \<or> i_block inode ! TRIPLE_INDIRECT_SLOT \<noteq> 0"

definition entry_is_directory :: "dir_entry \<Rightarrow> bool" where
  "entry_is_directory e \<longleftrightarrow> d_file_type e = DIRENT_TYPE_DIRECTORY"

definition entry_is_regular_file :: "dir_entry \<Rightarrow> bool" where
  "entry_is_regular_file e \<longleftrightarrow> d_file_type e = DIRENT_TYPE_REGULAR"

subsection \<open>Acceptance of an image\<close>

definition ext2_read_u16 :: "u8 list \<Rightarrow> nat \<Rightarrow> ('e, nat) outcome" where
  "ext2_read_u16 data offset = read_le 2 data offset"

definition ext2_read_u32 :: "u8 list \<Rightarrow> nat \<Rightarrow> ('e, nat) outcome" where
  "ext2_read_u32 data offset = read_le 4 data offset"

text \<open>The group descriptor table starts at the block after the superblock's; the sum is a \<open>u32\<close>.\<close>

definition group_table_start :: "nat \<Rightarrow> nat \<Rightarrow> ('e, nat) outcome" where
  "group_table_start first_data_block block_size =
     (if first_data_block + 1 < u32_limit then Ok ((first_data_block + 1) * block_size) else Panic)"

definition declared_extra_isize :: "u8 list \<Rightarrow> nat \<Rightarrow> ('e, nat) outcome" where
  "declared_extra_isize img inode_size =
     bind_outcome
       (if SUPERBLOCK_OFFSET + SUPERBLOCK_WANT_EXTRA_ISIZE + 2 \<le> length img
        then ext2_read_u16 img (SUPERBLOCK_OFFSET + SUPERBLOCK_WANT_EXTRA_ISIZE) else Ok 0)
       (\<lambda>declared. Ok (if declared \<noteq> 0 \<and> INODE_CORE_LEN + declared \<le> inode_size then declared else 0))"

definition ext2_parse :: "u8 list \<Rightarrow> (ext2_error, ext2) outcome" where
  "ext2_parse img =
     (if length img < SUPERBLOCK_OFFSET + SUPERBLOCK_MIN_LEN then Err Ext2TooShort
      else let sb = subslice SUPERBLOCK_OFFSET SUPERBLOCK_MIN_LEN img in
      bind_outcome (ext2_read_u16 sb 56) (\<lambda>magic.
      if magic \<noteq> EXT2_MAGIC then Err Ext2BadMagic else
      bind_outcome (ext2_read_u32 sb 76) (\<lambda>rev.
      if rev \<noteq> EXT2_DYNAMIC_REV then Err (UnsupportedRevision rev) else
      bind_outcome (ext2_read_u32 sb 24) (\<lambda>shift.
      if 6 < shift then Err (BadBlockSizeShift shift) else
      let block_size = 1024 * 2 ^ shift in
      bind_outcome (ext2_read_u16 sb 88) (\<lambda>inode_size.
      if inode_size < 128 \<or> \<not> is_power_of_two (word_of_nat inode_size :: u16) \<or> block_size < inode_size
      then Err (BadInodeSize inode_size) else
      bind_outcome (ext2_read_u32 sb 96) (\<lambda>feature_incompat.
      let unsupported = (word_of_nat feature_incompat :: u32) AND NOT INCOMPAT_SUPPORTED in
      if unsupported \<noteq> 0 then Err (UnsupportedIncompatFeatures unsupported) else
      bind_outcome (ext2_read_u32 sb 4) (\<lambda>blocks_count.
      bind_outcome (ext2_read_u32 sb 0) (\<lambda>inodes_count.
      bind_outcome (ext2_read_u32 sb 12) (\<lambda>free_blocks_count.
      bind_outcome (ext2_read_u32 sb 16) (\<lambda>free_inodes_count.
      bind_outcome (ext2_read_u32 sb 32) (\<lambda>blocks_per_group.
      bind_outcome (ext2_read_u32 sb 40) (\<lambda>inodes_per_group.
      if blocks_per_group = 0 \<or> inodes_per_group = 0 then Err ZeroPerGroup else
      bind_outcome (declared_extra_isize img inode_size) (\<lambda>want_extra_isize.
      if length img < blocks_count * block_size
      then Err (ImageTooSmall (blocks_count * block_size) (length img)) else
      bind_outcome (ext2_read_u32 sb 20) (\<lambda>first_data_block.
      if blocks_count \<le> first_data_block then Err (BlockOutOfRange first_data_block) else
      let group_count = div_ceil (blocks_count - first_data_block) blocks_per_group in
      bind_outcome (ext2_read_u32 sb 84) (\<lambda>first_inode.
      bind_outcome (ext2_read_u32 sb 92) (\<lambda>feature_compat.
      bind_outcome (ext2_read_u32 sb 100) (\<lambda>feature_ro_compat.
      bind_outcome (group_table_start first_data_block block_size) (\<lambda>table_start.
      let table_end = table_start + group_count * GROUP_DESCRIPTOR_SIZE in
      if u64_limit \<le> table_end then Err GroupDescriptorsOutOfRange
      else if length img < table_end then Err GroupDescriptorsOutOfRange
      else Ok \<lparr>fs_image = img, fs_block_size = block_size, fs_blocks_count = blocks_count,
            fs_inodes_count = inodes_count, fs_first_data_block = first_data_block,
            fs_blocks_per_group = blocks_per_group, fs_inodes_per_group = inodes_per_group,
            fs_inode_size = inode_size, fs_first_inode = first_inode, fs_feature_compat = feature_compat,
            fs_feature_incompat = feature_incompat, fs_feature_ro_compat = feature_ro_compat,
            fs_group_count = group_count, fs_free_blocks_count = free_blocks_count,
            fs_free_inodes_count = free_inodes_count, fs_want_extra_isize = want_extra_isize\<rparr>))))))))))))))))))"

subsection \<open>Blocks, group descriptors, inodes\<close>

definition block_bytes :: "ext2 \<Rightarrow> nat \<Rightarrow> (ext2_error, u8 list) outcome" where
  "block_bytes fs block =
     (if fs_blocks_count fs \<le> block then Err (BlockOutOfRange block)
      else let start = block * fs_block_size fs; fin = start + fs_block_size fs in
           if length (fs_image fs) < fin then Err (BlockOutOfRange block)
           else Ok (subslice start (fin - start) (fs_image fs)))"

fun check_blocks :: "ext2 \<Rightarrow> nat list \<Rightarrow> (ext2_error, unit) outcome" where
  "check_blocks fs [] = Ok ()"
| "check_blocks fs (b # bs) = (if fs_blocks_count fs \<le> b then Err (BlockOutOfRange b) else check_blocks fs bs)"

definition group_descriptor :: "ext2 \<Rightarrow> nat \<Rightarrow> (ext2_error, block_group_descriptor) outcome" where
  "group_descriptor fs grp =
     (if fs_group_count fs \<le> grp then Err GroupDescriptorsOutOfRange
      else bind_outcome (group_table_start (fs_first_data_block fs) (fs_block_size fs)) (\<lambda>table_start.
        let offset = table_start + grp * GROUP_DESCRIPTOR_SIZE; fin = offset + GROUP_DESCRIPTOR_SIZE in
        if length (fs_image fs) < fin then Err GroupDescriptorsOutOfRange
        else let raw = subslice offset (fin - offset) (fs_image fs) in
          bind_outcome (ext2_read_u32 raw 0) (\<lambda>bb.
          bind_outcome (ext2_read_u32 raw 4) (\<lambda>ib.
          bind_outcome (ext2_read_u32 raw 8) (\<lambda>it.
          bind_outcome (ext2_read_u16 raw 12) (\<lambda>fb.
          bind_outcome (ext2_read_u16 raw 14) (\<lambda>fi.
          bind_outcome (ext2_read_u16 raw 16) (\<lambda>ud.
          bind_outcome (check_blocks fs [bb, ib, it]) (\<lambda>_.
            Ok \<lparr>block_bitmap = bb, inode_bitmap = ib, inode_table = it, bg_free_blocks_count = fb,
                bg_free_inodes_count = fi, bg_used_dirs_count = ud\<rparr>)))))))))"

text \<open>The loop over the fifteen slots of \<open>i_block\<close>; zero means that there is no block.\<close>

fun read_i_block :: "ext2 \<Rightarrow> u8 list \<Rightarrow> nat \<Rightarrow> nat \<Rightarrow> (ext2_error, nat list) outcome" where
  "read_i_block fs raw slot 0 = Ok []"
| "read_i_block fs raw slot (Suc n) =
     bind_outcome (ext2_read_u32 raw (40 + slot * 4)) (\<lambda>block.
       if block \<noteq> 0 \<and> fs_blocks_count fs \<le> block then Err (BlockOutOfRange block)
       else bind_outcome (read_i_block fs raw (Suc slot) n) (\<lambda>blocks. Ok (block # blocks)))"

text \<open>What \<open>inode\<close> reads out of the 128 bytes of the standard part.\<close>

definition inode_fields :: "ext2 \<Rightarrow> nat \<Rightarrow> u8 list \<Rightarrow> (ext2_error, inode) outcome" where
  "inode_fields fs ino raw =
     bind_outcome (ext2_read_u16 raw 0) (\<lambda>mode.
     bind_outcome (read_i_block fs raw 0 INODE_BLOCK_COUNT) (\<lambda>blocks.
     bind_outcome (ext2_read_u32 raw 4) (\<lambda>size_low.
     bind_outcome (if mode_is_regular mode
         then bind_outcome (ext2_read_u32 raw 108) (\<lambda>high. Ok (size_low OR push_bit 32 high))
         else Ok size_low) (\<lambda>sz.
     bind_outcome (ext2_read_u16 raw 26) (\<lambda>links.
     bind_outcome (ext2_read_u32 raw 28) (\<lambda>sectors.
       Ok \<lparr>i_number = ino, i_mode = mode, i_size = sz, i_links_count = links,
           i_blocks_512 = sectors, i_block = blocks\<rparr>))))))"

definition read_inode :: "ext2 \<Rightarrow> nat \<Rightarrow> (ext2_error, inode) outcome" where
  "read_inode fs ino =
     (if ino = 0 \<or> fs_inodes_count fs < ino then Err (InodeOutOfRange ino)
      else if fs_inodes_per_group fs = 0 then Panic
      else let zero_based = ino - 1;
               grp = zero_based div fs_inodes_per_group fs;
               index = zero_based mod fs_inodes_per_group fs in
        bind_outcome (group_descriptor fs grp) (\<lambda>descriptor.
        let start = inode_table descriptor * fs_block_size fs + index * fs_inode_size fs;
            fin = min (start + INODE_CORE_LEN) (u64_limit - 1) in
        if length (fs_image fs) < fin then Err (InodeTableOutOfRange ino fin)
        else if fin < start then Panic
        else inode_fields fs ino (subslice start (fin - start) (fs_image fs))))"

subsection \<open>The blocks of a file\<close>

definition block_number_of :: "ext2 \<Rightarrow> inode \<Rightarrow> nat \<Rightarrow> (ext2_error, nat) outcome" where
  "block_number_of fs inode index =
     (if index < DIRECT_BLOCK_COUNT then Ok (i_block inode ! index)
      else let within = index - DIRECT_BLOCK_COUNT in
        if fs_block_size fs div INDIRECT_ENTRY_SIZE \<le> within then Err (IndirectBlockUnsupported index)
        else let table_block = i_block inode ! SINGLE_INDIRECT_SLOT in
          if table_block = 0 then Ok 0
          else bind_outcome (block_bytes fs table_block) (\<lambda>table.
            let p = within * INDIRECT_ENTRY_SIZE in
            if p + INDIRECT_ENTRY_SIZE \<le> length table
            then Ok (le_nat (subslice p INDIRECT_ENTRY_SIZE table))
            else Err (FileBlockOutOfRange index)))"

definition file_block :: "ext2 \<Rightarrow> inode \<Rightarrow> nat \<Rightarrow> (ext2_error, u8 list) outcome" where
  "file_block fs inode index =
     (let offset = index * fs_block_size fs in
      if i_size inode \<le> offset then Err (FileBlockOutOfRange index)
      else if uses_unsupported_indirection inode then Err (IndirectBlockUnsupported index)
      else bind_outcome (block_number_of fs inode index) (\<lambda>block.
        bind_outcome
          (if block = 0 then
             (if fs_block_size fs \<le> ZERO_BLOCK_LEN then Ok (replicate (fs_block_size fs) 0) else Panic)
           else block_bytes fs block) (\<lambda>bytes.
        if i_size inode < offset then Panic
        else let remaining = i_size inode - offset; len = min remaining (fs_block_size fs) in
        if len \<le> length bytes then Ok (take len bytes) else Panic)))"

definition block_span :: "ext2 \<Rightarrow> inode \<Rightarrow> nat" where
  "block_span fs inode = div_ceil (i_size inode) (fs_block_size fs)"

subsection \<open>Directories\<close>

definition directory_entries_from :: "ext2 \<Rightarrow> inode \<Rightarrow> nat \<Rightarrow> (ext2_error, dir_entries) outcome" where
  "directory_entries_from fs inode from =
     (if \<not> is_directory inode then Err (NotADirectory (i_number inode))
      else if fs_block_size fs = 0 then Panic
      else Ok \<lparr>de_fs = fs, de_inode = inode, de_block_count = block_span fs inode,
               de_block_index = (if from div fs_block_size fs < u32_limit then from div fs_block_size fs else u32_limit - 1),
               de_block = None, de_offset = from mod fs_block_size fs, de_finished = False\<rparr>)"

definition directory_entries :: "ext2 \<Rightarrow> inode \<Rightarrow> (ext2_error, dir_entries) outcome" where
  "directory_entries fs inode = directory_entries_from fs inode 0"

text \<open>One turn of the loop of \<open>DirEntries::next\<close>: the block at hand, then what its bytes say.
  A step either asks for another turn or ends the call with an item (or with the end).\<close>

datatype dir_step = Again dir_entries | Yield "(ext2_error + dir_entry) option" dir_entries

definition fetch_block :: "dir_entries \<Rightarrow> (dir_step, u8 list) outcome" where
  "fetch_block d =
     (case de_block d of
        Some bytes \<Rightarrow> Ok bytes
      | None \<Rightarrow>
          if de_block_count d \<le> de_block_index d then Err (Yield None (d\<lparr>de_finished := True\<rparr>))
          else (case file_block (de_fs d) (de_inode d) (de_block_index d) of
                  Ok bytes \<Rightarrow> Ok bytes
                | Err e \<Rightarrow> Err (Yield (Some (Inl e)) (d\<lparr>de_finished := True\<rparr>))
                | Panic \<Rightarrow> Panic))"

definition stop_with :: "dir_entries \<Rightarrow> ext2_error \<Rightarrow> (ext2_error, dir_step) outcome" where
  "stop_with d e = Ok (Yield (Some (Inl e)) (d\<lparr>de_finished := True\<rparr>))"

definition read_entry :: "dir_entries \<Rightarrow> u8 list \<Rightarrow> (ext2_error, dir_step) outcome" where
  "read_entry d bytes =
     (if length bytes < de_offset d then Panic
      else let remaining = length bytes - de_offset d in
      if remaining < DIRENT_HEADER_LEN then stop_with d (DirEntryTruncated (de_block_index d) remaining)
      else let header = subslice (de_offset d) DIRENT_HEADER_LEN bytes in
        bind_outcome (ext2_read_u32 header 0) (\<lambda>inode.
        bind_outcome (ext2_read_u16 header 4) (\<lambda>rec_len.
        let name_len = unat (header ! 6); file_type = unat (header ! 7) in
        if rec_len mod DIRENT_ALIGNMENT \<noteq> 0 then stop_with d (DirEntryMisaligned rec_len)
        else if rec_len < DIRENT_HEADER_LEN + name_len then stop_with d (DirEntryRecordTooSmall rec_len name_len)
        else if remaining < rec_len then stop_with d (DirEntryRecordPastBlock rec_len remaining)
        else if inode \<noteq> 0 \<and> fs_inodes_count (de_fs d) < inode then stop_with d (InodeOutOfRange inode)
        else let name_start = de_offset d + DIRENT_HEADER_LEN in
          if length bytes < name_start + name_len then Panic
          else let name = subslice name_start name_len bytes;
                   d' = d\<lparr>de_offset := de_offset d + rec_len\<rparr> in
            if inode = 0 then Ok (Again d')
            else Ok (Yield (Some (Inr \<lparr>d_inode = inode, d_file_type = file_type, d_name = name,
                   d_next_offset = de_block_index d * fs_block_size (de_fs d) + de_offset d'\<rparr>)) d'))))"

definition next_step :: "dir_entries \<Rightarrow> (ext2_error, dir_step) outcome" where
  "next_step d =
     (if de_finished d then Ok (Yield None d)
      else case fetch_block d of
        Err s \<Rightarrow> Ok s
      | Panic \<Rightarrow> Panic
      | Ok bytes \<Rightarrow>
          if length bytes \<le> de_offset d
          then (if de_block_index d + 1 < u32_limit
                then Ok (Again (d\<lparr>de_block := None, de_offset := 0, de_block_index := de_block_index d + 1\<rparr>))
                else Panic)
          else read_entry (d\<lparr>de_block := Some bytes\<rparr>) bytes)"

text \<open>The loop itself. Its order: a block not yet fetched ranks above the same block fetched, which
  ranks above the next one; within a block the offset grows.\<close>

definition turn_rank :: "dir_entries \<Rightarrow> nat" where
  "turn_rank d =
     (if de_block_index d < de_block_count d
      then 2 * (de_block_count d - de_block_index d) + (if de_block d = None then 1 else 0)
      else if de_block d = None then 0 else 1)"

definition bytes_left :: "dir_entries \<Rightarrow> nat" where
  "bytes_left d = (case de_block d of None \<Rightarrow> 0 | Some bytes \<Rightarrow> length bytes - de_offset d)"

definition later :: "(dir_entries \<times> dir_entries) set" where
  "later = inv_image (less_than <*lex*> less_than) (\<lambda>d. (turn_rank d, bytes_left d))"

lemma wf_later [simp, intro!]: "wf later"
  by (simp add: later_def wf_lex_prod)

lemma trans_later: "trans later"
  by (simp add: later_def trans_inv_image trans_lex_prod)

lemma read_entry_advances:
  assumes "read_entry d bytes = Ok (Again d') \<or> read_entry d bytes = Ok (Yield (Some (Inr e)) d')"
  obtains n where "8 \<le> n" "de_offset d + n \<le> length bytes" "d' = d\<lparr>de_offset := de_offset d + n\<rparr>"
proof -
  have "\<exists>n. d' = d\<lparr>de_offset := de_offset d + n\<rparr> \<and> 8 \<le> n \<and> de_offset d + n \<le> length bytes"
    using assms
    by (auto simp: read_entry_def Let_def ext2_constants stop_with_def split: if_splits)
  then show thesis using that by blast
qed

lemma next_step_cases:
  assumes "next_step d = Ok (Again d') \<or> next_step d = Ok (Yield (Some (Inr e)) d')"
  obtains
    (skip) bytes where "\<not> de_finished d" "fetch_block d = Ok bytes" "length bytes \<le> de_offset d"
      "next_step d = Ok (Again d')"
      "d' = d\<lparr>de_block := None, de_offset := 0, de_block_index := de_block_index d + 1\<rparr>"
  | (entry) bytes n where "\<not> de_finished d" "fetch_block d = Ok bytes" "de_offset d < length bytes"
      "8 \<le> n" "de_offset d + n \<le> length bytes"
      "d' = d\<lparr>de_block := Some bytes, de_offset := de_offset d + n\<rparr>"
proof -
  have nf: "\<not> de_finished d" using assms by (auto simp: next_step_def)
  obtain bytes where f: "fetch_block d = Ok bytes"
    using assms nf by (auto simp: next_step_def fetch_block_def split: outcome.splits option.splits if_splits)
  show thesis
  proof (cases "length bytes \<le> de_offset d")
    case True
    then show ?thesis using assms nf f skip by (auto simp: next_step_def split: if_splits)
  next
    case False
    then have "read_entry (d\<lparr>de_block := Some bytes\<rparr>) bytes = Ok (Again d') \<or>
      read_entry (d\<lparr>de_block := Some bytes\<rparr>) bytes = Ok (Yield (Some (Inr e)) d')"
      using assms nf f by (simp add: next_step_def)
    then show ?thesis
      by (rule read_entry_advances) (use entry [OF nf f] False in auto)
  qed
qed

lemma fetch_block_rank: "fetch_block d = Ok bytes \<Longrightarrow> de_block d = None \<Longrightarrow> de_block_index d < de_block_count d"
  by (auto simp: fetch_block_def split: if_splits)

lemma next_step_later:
  assumes "next_step d = Ok (Again d') \<or> next_step d = Ok (Yield (Some (Inr e)) d')"
  shows "(d', d) \<in> later"
  using assms
proof (cases rule: next_step_cases)
  case (skip bytes)
  then show ?thesis using fetch_block_rank [of d bytes]
    by (cases "de_block d") (auto simp: later_def turn_rank_def)
next
  case (entry bytes n)
  then show ?thesis using fetch_block_rank [of d bytes]
    by (cases "de_block d") (auto simp: later_def turn_rank_def bytes_left_def fetch_block_def)
qed

function next_entry :: "dir_entries \<Rightarrow> (ext2_error, (ext2_error + dir_entry) option \<times> dir_entries) outcome" where
  "next_entry d =
     (case next_step d of
        Ok (Again d') \<Rightarrow> next_entry d'
      | Ok (Yield r d') \<Rightarrow> Ok (r, d')
      | Err e \<Rightarrow> Err e
      | Panic \<Rightarrow> Panic)"
  by pat_completeness auto
termination
  by (relation later) (auto intro: next_step_later)

declare next_entry.simps [simp del]

lemma next_entry_later: "next_entry d = Ok (Some (Inr e), d') \<Longrightarrow> (d', d) \<in> later"
proof (induction d rule: next_entry.induct)
  case (1 d)
  show ?case
  proof (cases "next_step d")
    case (Ok s)
    show ?thesis
    proof (cases s)
      case (Again d1)
      have "(d1, d) \<in> later" by (rule next_step_later) (simp add: Ok Again)
      moreover have "(d', d1) \<in> later"
        using 1 Ok Again by (simp add: next_entry.simps [of d])
      ultimately show ?thesis using trans_later by (meson transD)
    next
      case (Yield r d1)
      then show ?thesis using 1 Ok next_step_later [of d d' e] by (simp add: next_entry.simps [of d])
    qed
  qed (use 1 in \<open>simp_all add: next_entry.simps [of d]\<close>)
qed

subsection \<open>Lookup\<close>

function lookup_loop :: "ext2 \<Rightarrow> u8 list \<Rightarrow> dir_entries \<Rightarrow> (ext2_error, inode) outcome" where
  "lookup_loop fs name d =
     (case next_entry d of
        Ok (None, d') \<Rightarrow> Err NotFound
      | Ok (Some (Inl e), d') \<Rightarrow> Err e
      | Ok (Some (Inr entry), d') \<Rightarrow>
          if d_name entry = name then read_inode fs (d_inode entry) else lookup_loop fs name d'
      | Err e \<Rightarrow> Err e
      | Panic \<Rightarrow> Panic)"
  by pat_completeness auto
termination
  by (relation "inv_image later (\<lambda>(fs, name, d). d)") (auto intro: next_entry_later)

declare lookup_loop.simps [simp del]

definition lookup_in :: "ext2 \<Rightarrow> inode \<Rightarrow> u8 list \<Rightarrow> (ext2_error, inode) outcome" where
  "lookup_in fs dir name = bind_outcome (directory_entries fs dir) (lookup_loop fs name)"

text \<open>\<open>slice::split\<close>: the pieces between separators, the empty ones included.\<close>

fun split_on :: "'a \<Rightarrow> 'a list \<Rightarrow> 'a list list" where
  "split_on sep [] = [[]]"
| "split_on sep (x # xs) =
     (if x = sep then [] # split_on sep xs
      else (case split_on sep xs of [] \<Rightarrow> [[x]] | c # cs \<Rightarrow> (x # c) # cs))"

fun resolve :: "ext2 \<Rightarrow> inode \<Rightarrow> nat \<Rightarrow> u8 list list \<Rightarrow> (ext2_error, inode) outcome" where
  "resolve fs current components [] = Ok current"
| "resolve fs current components (component # rest) =
     (if component = [] then resolve fs current components rest
      else if MAX_PATH_COMPONENTS < components + 1 then Err (PathTooManyComponents MAX_PATH_COMPONENTS)
      else bind_outcome (lookup_in fs current component) (\<lambda>inode. resolve fs inode (components + 1) rest))"

definition ext2_lookup :: "ext2 \<Rightarrow> u8 list \<Rightarrow> (ext2_error, inode) outcome" where
  "ext2_lookup fs path =
     (if path = [] \<or> hd path \<noteq> PATH_SEPARATOR then Err PathNotAbsolute
      else bind_outcome (read_inode fs ROOT_INODE) (\<lambda>root.
        bind_outcome (resolve fs root 0 (split_on PATH_SEPARATOR path)) (\<lambda>current.
          if last path = PATH_SEPARATOR \<and> \<not> is_directory current then Err (NotADirectory (i_number current))
          else Ok current)))"

subsection \<open>Reads of an accepted image stay inside it\<close>

text \<open>What \<open>Ext2\<close> promises of a value of its type, and what \<open>Inode\<close> promises of one that was read.\<close>

definition ext2_wf :: "ext2 \<Rightarrow> bool" where
  "ext2_wf fs \<longleftrightarrow>
     (\<exists>k \<le> 6. fs_block_size fs = 1024 * 2 ^ k) \<and>
     fs_blocks_count fs * fs_block_size fs \<le> length (fs_image fs) \<and>
     fs_blocks_count fs < u32_limit \<and> fs_inodes_count fs < u32_limit \<and>
     fs_first_data_block fs < fs_blocks_count fs \<and>
     0 < fs_blocks_per_group fs \<and> 0 < fs_inodes_per_group fs \<and>
     128 \<le> fs_inode_size fs \<and> fs_inode_size fs \<le> fs_block_size fs \<and>
     fs_want_extra_isize fs \<le> fs_inode_size fs - 128 \<and>
     fs_group_count fs = div_ceil (fs_blocks_count fs - fs_first_data_block fs) (fs_blocks_per_group fs) \<and>
     (fs_first_data_block fs + 1) * fs_block_size fs + 32 * fs_group_count fs \<le> length (fs_image fs)"

definition inode_wf :: "ext2 \<Rightarrow> inode \<Rightarrow> bool" where
  "inode_wf fs inode \<longleftrightarrow>
     0 < i_number inode \<and> i_number inode \<le> fs_inodes_count fs \<and> length (i_block inode) = 15 \<and>
     list_all (\<lambda>b. b = 0 \<or> b < fs_blocks_count fs) (i_block inode) \<and>
     (is_regular_file inode \<or> i_size inode < u32_limit)"

lemma read_u16_ok: "offset + 2 \<le> length data \<Longrightarrow> outcome_ok (\<lambda>v. v < 65536) (ext2_read_u16 data offset)"
  using outcome_ok_read [of offset 2 data] by (simp add: ext2_read_u16_def)

lemma read_u32_ok: "offset + 4 \<le> length data \<Longrightarrow> outcome_ok (\<lambda>v. v < u32_limit) (ext2_read_u32 data offset)"
  using outcome_ok_read [of offset 4 data] by (simp add: ext2_read_u32_def)

lemma declared_extra_isize_ok: "outcome_ok (\<lambda>v. v \<le> n - 128) (declared_extra_isize img n)"
  unfolding declared_extra_isize_def
  by (rule outcome_ok_bind [where Q = "\<lambda>_. True"])
    (auto simp: ext2_read_u16_def read_le_def ext2_constants)

lemma ext2_parse_ok: "outcome_ok (\<lambda>fs. ext2_wf fs \<and> fs_image fs = img) (ext2_parse img)"
proof (cases "length img < SUPERBLOCK_OFFSET + SUPERBLOCK_MIN_LEN")
  case True
  then show ?thesis by (simp add: ext2_parse_def)
next
  case False
  let ?sb = "subslice SUPERBLOCK_OFFSET SUPERBLOCK_MIN_LEN img"
  have l: "length ?sb = 104" using False by (simp add: ext2_constants)
  have r16: "outcome_ok (\<lambda>v. v < 65536) (ext2_read_u16 ?sb k)" if "k \<le> 102" for k
    by (rule read_u16_ok) (use that l in simp)
  have r32: "outcome_ok (\<lambda>v. v < u32_limit) (ext2_read_u32 ?sb k)" if "k \<le> 100" for k
    by (rule read_u32_ok) (use that l in simp)
  show ?thesis
    unfolding ext2_parse_def Let_def
    by (intro outcome_ok_if outcome_ok_bind [OF r16] outcome_ok_bind [OF r32]
        outcome_ok_bind [OF declared_extra_isize_ok])
      (use False in \<open>auto simp: group_table_start_def ext2_wf_def ext2_constants\<close>)
qed

lemma group_descriptor_ok:
  assumes "ext2_wf fs"
  shows "outcome_ok (\<lambda>d. block_bitmap d < fs_blocks_count fs \<and> inode_bitmap d < fs_blocks_count fs \<and>
    inode_table d < fs_blocks_count fs) (group_descriptor fs g)"
proof -
  have t: "outcome_ok (\<lambda>_. True) (group_table_start (fs_first_data_block fs) (fs_block_size fs))"
    using assms by (auto simp: ext2_wf_def group_table_start_def)
  have r: "outcome_ok (\<lambda>v. v < u32_limit) (ext2_read_u32 (subslice o32 GROUP_DESCRIPTOR_SIZE img) k)"
    "outcome_ok (\<lambda>v. v < 65536) (ext2_read_u16 (subslice o32 GROUP_DESCRIPTOR_SIZE img) k)"
    if "\<not> length img < o32 + GROUP_DESCRIPTOR_SIZE" "k + 4 \<le> 32" for o32 k img
    by (rule read_u32_ok, use that in \<open>simp add: GROUP_DESCRIPTOR_SIZE_def\<close>)
      (rule read_u16_ok, use that in \<open>simp add: GROUP_DESCRIPTOR_SIZE_def\<close>)
  show ?thesis
    unfolding group_descriptor_def Let_def add_diff_cancel_left'
    by (intro outcome_ok_if outcome_ok_bind [OF t] outcome_ok_bind [OF r(1)] outcome_ok_bind [OF r(2)]) auto
qed

lemma read_i_block_ok:
  assumes "length raw = 128" "slot + n \<le> 15"
  shows "outcome_ok (\<lambda>bs. length bs = n \<and> list_all (\<lambda>b. b = 0 \<or> b < fs_blocks_count fs) bs) (read_i_block fs raw slot n)"
  using assms(2)
proof (induction n arbitrary: slot)
  case 0
  then show ?case by simp
next
  case (Suc n)
  have r: "outcome_ok (\<lambda>v. v < u32_limit) (ext2_read_u32 raw (40 + slot * 4))"
    by (rule read_u32_ok) (use Suc.prems assms(1) in simp)
  have ih: "outcome_ok (\<lambda>bs. length bs = n \<and> list_all (\<lambda>b. b = 0 \<or> b < fs_blocks_count fs) bs)
    (read_i_block fs raw (Suc slot) n)" by (rule Suc.IH) (use Suc.prems in simp)
  show ?case by (auto intro!: outcome_ok_bind [OF r] outcome_ok_if outcome_ok_bind [OF ih])
qed

lemma inode_fields_ok:
  assumes raw: "length raw = 128" and ino: "0 < ino" "ino \<le> fs_inodes_count fs"
  shows "outcome_ok (inode_wf fs) (inode_fields fs ino raw)"
proof -
  have r: "outcome_ok (\<lambda>v. v < 65536) (ext2_read_u16 raw k)" "outcome_ok (\<lambda>v. v < u32_limit) (ext2_read_u32 raw k)"
    if "k + 4 \<le> 128" for k
    by (rule read_u16_ok, use that raw in simp) (rule read_u32_ok, use that raw in simp)
  have size_ok: "outcome_ok (\<lambda>sz. mode_is_regular mode \<or> sz < u32_limit)
      (if mode_is_regular mode then bind_outcome (ext2_read_u32 raw 108) (\<lambda>high. Ok (low OR push_bit 32 high)) else Ok low)"
    if "low < u32_limit" for mode low
    by (rule outcome_ok_if, rule outcome_ok_bind [OF r(2)]) (use that in auto)
  show ?thesis
    unfolding inode_fields_def INODE_BLOCK_COUNT_def
    by (rule outcome_ok_bind [OF r(1)], simp,
        rule outcome_ok_bind [OF read_i_block_ok [OF raw]], simp,
        rule outcome_ok_bind [OF r(2)], simp, rule outcome_ok_bind [OF size_ok], assumption,
        rule outcome_ok_bind [OF r(1)], simp, rule outcome_ok_bind [OF r(2)], simp)
      (use ino in \<open>auto simp: inode_wf_def is_regular_file_def\<close>)
qed

lemma block_size_le: "ext2_wf fs \<Longrightarrow> fs_block_size fs \<le> 65536"
  using power_increasing [of _ 6 "2::nat"] by (fastforce simp: ext2_wf_def)

lemma inode_position_fits:
  assumes "ext2_wf fs" "t < fs_blocks_count fs" "i < fs_inodes_count fs"
  shows "t * fs_block_size fs + i * fs_inode_size fs + 128 < u64_limit - 1"
proof -
  have "fs_inode_size fs \<le> 65536" "i \<le> u32_limit" "t \<le> u32_limit"
    using assms block_size_le [OF assms(1)] unfolding ext2_wf_def by linarith+
  then have "i * fs_inode_size fs \<le> u32_limit * 65536" "t * fs_block_size fs \<le> u32_limit * 65536"
    using mult_le_mono block_size_le [OF assms(1)] by blast+
  then show ?thesis by simp
qed

lemma read_inode_ok:
  assumes "ext2_wf fs"
  shows "outcome_ok (inode_wf fs) (read_inode fs ino)"
proof (cases "ino = 0 \<or> fs_inodes_count fs < ino")
  case True
  then show ?thesis by (auto simp: read_inode_def)
next
  case False
  let ?i = "(ino - 1) mod fs_inodes_per_group fs"
  have i: "?i < fs_inodes_count fs"
    using False mod_less_eq_dividend [of "ino - 1" "fs_inodes_per_group fs"] by linarith
  have pos: "0 < fs_inodes_per_group fs" using assms by (simp add: ext2_wf_def)
  show ?thesis
    unfolding read_inode_def Let_def
  proof (intro outcome_ok_if outcome_ok_bind [OF group_descriptor_ok [OF assms]])
    fix d
    let ?start = "inode_table d * fs_block_size fs + ?i * fs_inode_size fs"
    assume d: "block_bitmap d < fs_blocks_count fs \<and> inode_bitmap d < fs_blocks_count fs \<and> inode_table d < fs_blocks_count fs"
    have m: "min (?start + INODE_CORE_LEN) (u64_limit - 1) = ?start + 128"
      using inode_position_fits [OF assms _ i, of "inode_table d"] d by (simp add: INODE_CORE_LEN_def)
    assume "\<not> length (fs_image fs) < min (?start + INODE_CORE_LEN) (u64_limit - 1)"
    then show "outcome_ok (inode_wf fs) (inode_fields fs ino
        (subslice ?start (min (?start + INODE_CORE_LEN) (u64_limit - 1) - ?start) (fs_image fs)))"
      unfolding m by (intro inode_fields_ok) (use False in auto)
    assume "min (?start + INODE_CORE_LEN) (u64_limit - 1) < ?start"
    then show "outcome_ok (inode_wf fs) Panic" unfolding m by simp
  qed (use False pos in auto)
qed

lemma block_bytes_ok: "outcome_ok (\<lambda>bytes. length bytes = fs_block_size fs) (block_bytes fs b)"
  by (auto simp: block_bytes_def Let_def)

lemma block_bytes_Ok:
  assumes "ext2_wf fs" "b < fs_blocks_count fs"
  shows "block_bytes fs b = Ok (subslice (b * fs_block_size fs) (fs_block_size fs) (fs_image fs))"
proof -
  have "Suc b * fs_block_size fs \<le> fs_blocks_count fs * fs_block_size fs" using assms(2) by (intro mult_le_mono1) simp
  then show ?thesis using assms by (simp add: block_bytes_def ext2_wf_def)
qed

lemma block_number_of_ok: "outcome_ok (\<lambda>_. True) (block_number_of fs inode k)"
  by (auto simp: block_number_of_def Let_def intro!: outcome_ok_bind [OF block_bytes_ok] outcome_ok_if)

lemma file_block_ok:
  assumes "ext2_wf fs"
  shows "outcome_ok (\<lambda>bytes. length bytes = min (i_size inode - k * fs_block_size fs) (fs_block_size fs) \<and>
    k * fs_block_size fs < i_size inode) (file_block fs inode k)"
proof -
  have "fs_block_size fs \<le> 65536" by (rule block_size_le [OF assms])
  then have bytes: "outcome_ok (\<lambda>bytes. length bytes = fs_block_size fs)
      (if b = 0 then if fs_block_size fs \<le> ZERO_BLOCK_LEN then Ok (replicate (fs_block_size fs) 0) else Panic
       else block_bytes fs b)" for b
    using block_bytes_ok by (auto simp: ZERO_BLOCK_LEN_def)
  show ?thesis
    unfolding file_block_def Let_def
    by (rule outcome_ok_if, simp, rule outcome_ok_if, simp,
        intro outcome_ok_bind [OF block_number_of_ok] outcome_ok_bind [OF bytes] outcome_ok_if) auto
qed

subsection \<open>Directory walks end, stay inside the directory and never panic\<close>

definition entries_wf :: "dir_entries \<Rightarrow> bool" where
  "entries_wf d \<longleftrightarrow>
     ext2_wf (de_fs d) \<and> i_size (de_inode d) < u32_limit \<and> de_offset d \<le> fs_block_size (de_fs d) \<and>
     (\<forall>bytes. de_block d = Some bytes \<longrightarrow>
        de_block_index d * fs_block_size (de_fs d) < i_size (de_inode d) \<and>
        length bytes = min (i_size (de_inode d) - de_block_index d * fs_block_size (de_fs d)) (fs_block_size (de_fs d)))"

definition position :: "dir_entries \<Rightarrow> nat" where
  "position d = de_block_index d * fs_block_size (de_fs d) + de_offset d"

definition entry_wf :: "dir_entries \<Rightarrow> dir_entry \<Rightarrow> bool" where
  "entry_wf d e \<longleftrightarrow> 0 < d_inode e \<and> d_inode e \<le> fs_inodes_count (de_fs d) \<and> length (d_name e) \<le> 255 \<and>
     d_next_offset e \<le> i_size (de_inode d)"

lemma fetch_block_wf:
  assumes "entries_wf d" "fetch_block d = Ok bytes"
  shows "de_block_index d * fs_block_size (de_fs d) < i_size (de_inode d)"
    "length bytes = min (i_size (de_inode d) - de_block_index d * fs_block_size (de_fs d)) (fs_block_size (de_fs d))"
proof -
  have "ext2_wf (de_fs d)" using assms(1) by (simp add: entries_wf_def)
  from file_block_ok [OF this, of "de_inode d" "de_block_index d"] assms
  show "de_block_index d * fs_block_size (de_fs d) < i_size (de_inode d)"
    "length bytes = min (i_size (de_inode d) - de_block_index d * fs_block_size (de_fs d)) (fs_block_size (de_fs d))"
    by (auto simp: entries_wf_def fetch_block_def split: option.splits outcome.splits if_splits)
qed

lemma fetch_block_not_Panic:
  assumes "entries_wf d"
  shows "fetch_block d \<noteq> Panic"
proof -
  have "ext2_wf (de_fs d)" using assms by (simp add: entries_wf_def)
  from file_block_ok [OF this, of "de_inode d" "de_block_index d"]
  show ?thesis by (auto simp: fetch_block_def split: option.splits outcome.splits)
qed

text \<open>What one turn keeps: it does not panic, it stays well formed, and it never moves back; an entry
  takes at least its eight header bytes and ends inside the directory. After the end or an error the walk is finished.\<close>

definition turn_ok :: "dir_entries \<Rightarrow> dir_step \<Rightarrow> bool" where
  "turn_ok d st = (case st of
     Again d' \<Rightarrow> entries_wf d' \<and> de_fs d' = de_fs d \<and> de_inode d' = de_inode d \<and> position d \<le> position d'
   | Yield (Some (Inr e)) d' \<Rightarrow> entries_wf d' \<and> de_fs d' = de_fs d \<and> de_inode d' = de_inode d \<and>
       position d + 8 \<le> position d' \<and> position d' \<le> i_size (de_inode d) \<and> d_next_offset e = position d' \<and> entry_wf d e
   | Yield _ d' \<Rightarrow> de_finished d')"

lemma read_entry_ok:
  assumes "entries_wf d" "de_block d = Some bytes" "de_offset d < length bytes"
  shows "outcome_ok (turn_ok d) (read_entry d bytes)"
proof -
  let ?h = "subslice (de_offset d) DIRENT_HEADER_LEN bytes"
  have pos: "de_block_index d * fs_block_size (de_fs d) + length bytes \<le> i_size (de_inode d)"
    using assms by (auto simp: entries_wf_def)
  have r: "outcome_ok (\<lambda>v. v < u32_limit) (ext2_read_u32 ?h 0)" "outcome_ok (\<lambda>v. v < 65536) (ext2_read_u16 ?h 4)"
    if "\<not> length bytes - de_offset d < DIRENT_HEADER_LEN"
    by (rule read_u32_ok, use that in \<open>simp add: DIRENT_HEADER_LEN_def\<close>)
      (rule read_u16_ok, use that in \<open>simp add: DIRENT_HEADER_LEN_def\<close>)
  have wf': "entries_wf (d\<lparr>de_offset := de_offset d + n\<rparr>)" if "de_offset d + n \<le> length bytes" for n
    using assms(1,2) that by (auto simp: entries_wf_def)
  have name: "length (subslice a (unat (c :: u8)) bytes) \<le> 255" for a c
    using length_subslice_le [of a "unat c" bytes] unat_u8_le [of c] by linarith
  show ?thesis
    unfolding read_entry_def Let_def stop_with_def
    by (rule outcome_ok_if, use assms(3) in simp, rule outcome_ok_if, simp add: turn_ok_def,
        intro outcome_ok_bind [OF r(1)] outcome_ok_bind [OF r(2)] outcome_ok_if)
      (use assms(3) pos wf' name in \<open>auto simp: turn_ok_def position_def entry_wf_def DIRENT_HEADER_LEN_def\<close>)
qed

lemma fits_next_index:
  assumes "ext2_wf fs" "k * fs_block_size fs < n" "n < u32_limit"
  shows "k + 1 < u32_limit"
proof -
  have "1024 \<le> fs_block_size fs" using assms(1) by (auto simp: ext2_wf_def)
  then have "k * 1024 \<le> k * fs_block_size fs" by (rule mult_le_mono2)
  then show ?thesis using assms(2,3) by linarith
qed

lemma next_step_ok:
  assumes "entries_wf d"
  shows "outcome_ok (turn_ok d) (next_step d)"
proof (cases "de_finished d")
  case True
  then show ?thesis by (simp add: next_step_def turn_ok_def)
next
  case False
  show ?thesis
  proof (cases "fetch_block d")
    case (Ok bytes)
    note w = fetch_block_wf [OF assms Ok]
    show ?thesis
    proof (cases "length bytes \<le> de_offset d")
      case True
      moreover have "de_block_index d + 1 < u32_limit"
        using fits_next_index w(1) assms by (auto simp: entries_wf_def)
      ultimately show ?thesis using False Ok assms
        by (simp add: next_step_def turn_ok_def entries_wf_def position_def)
    next
      case less: False
      have "outcome_ok (turn_ok (d\<lparr>de_block := Some bytes\<rparr>)) (read_entry (d\<lparr>de_block := Some bytes\<rparr>) bytes)"
        by (rule read_entry_ok) (use assms w less in \<open>auto simp: entries_wf_def\<close>)
      then have "outcome_ok (turn_ok d) (read_entry (d\<lparr>de_block := Some bytes\<rparr>) bytes)"
        by (rule outcome_ok_mono)
          (auto simp: turn_ok_def position_def entry_wf_def split: dir_step.splits option.splits sum.splits)
      then show ?thesis using False Ok less by (simp add: next_step_def)
    qed
  next
    case (Err st)
    then show ?thesis using False
      by (auto simp: next_step_def turn_ok_def fetch_block_def split: option.splits outcome.splits if_splits)
  qed (use fetch_block_not_Panic [OF assms] in simp)
qed

definition item_ok :: "dir_entries \<Rightarrow> (ext2_error + dir_entry) option \<times> dir_entries \<Rightarrow> bool" where
  "item_ok d = (\<lambda>(r, d'). turn_ok d (Yield r d'))"

lemma turn_ok_trans:
  "turn_ok d (Again d1) \<Longrightarrow> turn_ok d1 (Yield r d') \<Longrightarrow> turn_ok d (Yield r d')"
  by (auto simp: turn_ok_def entry_wf_def split: option.splits sum.splits)

lemma next_entry_ok: "entries_wf d \<Longrightarrow> outcome_ok (item_ok d) (next_entry d)"
proof (induction d rule: next_entry.induct)
  case (1 d)
  show ?case
  proof (cases "next_step d")
    case (Ok st)
    have t: "turn_ok d st" using next_step_ok [OF "1.prems"] Ok by simp
    show ?thesis
    proof (cases st)
      case (Again d1)
      have "entries_wf d1" using t Again by (simp add: turn_ok_def)
      then have "outcome_ok (item_ok d1) (next_entry d1)" using "1.IH" Ok Again by blast
      then have "outcome_ok (item_ok d) (next_entry d1)"
        by (rule outcome_ok_mono) (use t Again turn_ok_trans in \<open>auto simp: item_ok_def\<close>)
      then show ?thesis using Ok Again by (simp add: next_entry.simps [of d])
    next
      case (Yield r d1)
      then show ?thesis using Ok t by (simp add: next_entry.simps [of d] item_ok_def)
    qed
  qed (use next_step_ok [OF "1.prems"] in \<open>simp_all add: next_entry.simps [of d]\<close>)
qed

text \<open>Any number of calls of \<open>next\<close>, also beyond the end.\<close>

fun next_times :: "nat \<Rightarrow> dir_entries \<Rightarrow> (ext2_error, dir_entries) outcome" where
  "next_times 0 d = Ok d"
| "next_times (Suc n) d = bind_outcome (next_entry d) (\<lambda>(_, d'). next_times n d')"

lemma next_times_ok: "entries_wf d \<or> de_finished d \<Longrightarrow> outcome_ok (\<lambda>_. True) (next_times n d)"
proof (induction n arbitrary: d)
  case (Suc n)
  have fin: "next_entry d = Ok (None, d)" if "de_finished d" using that by (simp add: next_entry.simps [of d] next_step_def)
  have "outcome_ok (\<lambda>(_, d'). entries_wf d' \<or> de_finished d') (next_entry d)"
  proof (cases "de_finished d")
    case False
    then have "outcome_ok (item_ok d) (next_entry d)" using Suc.prems next_entry_ok by blast
    then show ?thesis
      by (rule outcome_ok_mono) (auto simp: item_ok_def turn_ok_def split: option.splits sum.splits; metis sum.exhaust)
  qed (simp add: fin)
  then show ?case unfolding next_times.simps by (rule outcome_ok_bind) (use Suc.IH in auto)
qed simp

text \<open>All entries a walk from \<open>d\<close> returns before it ends or meets a broken one.\<close>

function walk :: "dir_entries \<Rightarrow> dir_entry list" where
  "walk d = (case next_entry d of Ok (Some (Inr e), d') \<Rightarrow> e # walk d' | _ \<Rightarrow> [])"
  by pat_completeness auto
termination
  by (relation later) (auto intro: next_entry_later)

declare walk.simps [simp del]

lemma walk_cases:
  assumes "entries_wf d"
  obtains "walk d = []"
  | e d' where "next_entry d = Ok (Some (Inr e), d')" "walk d = e # walk d'" "entries_wf d'"
      "de_fs d' = de_fs d" "de_inode d' = de_inode d" "position d + 8 \<le> position d'"
      "position d' \<le> i_size (de_inode d)" "d_next_offset e = position d'" "entry_wf d e"
proof (cases "\<exists>e d'. next_entry d = Ok (Some (Inr e), d')")
  case True
  then obtain e d' where n: "next_entry d = Ok (Some (Inr e), d')" by blast
  have "turn_ok d (Yield (Some (Inr e)) d')" using next_entry_ok [OF assms] n by (simp add: item_ok_def)
  then show thesis using that(2) [OF n] n by (simp add: turn_ok_def walk.simps [of d])
next
  case False
  then show thesis
    by (intro that(1)) (auto simp: walk.simps [of d] split: outcome.splits option.splits sum.splits prod.splits)
qed

lemma walk_bounded:
  "entries_wf d \<Longrightarrow> 8 * length (walk d) \<le> i_size (de_inode d) - position d \<and>
     list_all (entry_wf d) (walk d) \<and>
     list_all (\<lambda>e. position d < d_next_offset e) (walk d) \<and> sorted_wrt (<) (map d_next_offset (walk d))"
proof (induction d rule: walk.induct)
  case (1 d)
  from "1.prems" show ?case
  proof (cases rule: walk_cases)
    case 1
    then show ?thesis by simp
  next
    case (2 e d')
    have ih: "8 * length (walk d') \<le> i_size (de_inode d') - position d' \<and>
       list_all (entry_wf d') (walk d') \<and>
       list_all (\<lambda>e. position d' < d_next_offset e) (walk d') \<and> sorted_wrt (<) (map d_next_offset (walk d'))"
      using "1.IH" 2(1,3) by blast
    have same: "entry_wf d' = entry_wf d" using 2(4,5) by (simp add: entry_wf_def fun_eq_iff)
    have later: "list_all (\<lambda>e. position d < d_next_offset e) (walk d')"
      using ih 2(6) by (auto simp: list_all_iff)
    have "8 * length (walk d) \<le> i_size (de_inode d) - position d"
      using ih 2(2,5,6,7) unfolding 2(2) by simp linarith
    moreover have "sorted_wrt (<) (map d_next_offset (walk d))"
      using ih 2(2,8) by (auto simp: list_all_iff)
    ultimately show ?thesis using ih 2(2,6,8,9) same later by simp
  qed
qed

lemma directory_entries_from_ok:
  assumes "ext2_wf fs" "inode_wf fs inode"
  shows "outcome_ok (\<lambda>d. entries_wf d \<and> de_fs d = fs \<and> de_inode d = inode) (directory_entries_from fs inode from)"
proof -
  have "0 < fs_block_size fs" using assms(1) by (auto simp: ext2_wf_def)
  moreover have "i_size inode < u32_limit" if "is_directory inode"
    using assms(2) that
    by (auto simp: inode_wf_def is_directory_def is_regular_file_def mode_is_directory_def mode_is_regular_def
        MODE_DIRECTORY_def MODE_REGULAR_def)
  ultimately show ?thesis using assms(1) by (auto simp: directory_entries_from_def entries_wf_def)
qed

lemma lookup_loop_ok:
  "entries_wf d \<Longrightarrow> de_fs d = fs \<Longrightarrow> outcome_ok (inode_wf fs) (lookup_loop fs name d)"
proof (induction fs name d rule: lookup_loop.induct)
  case (1 fs name d)
  have fs: "ext2_wf fs" using "1.prems" by (auto simp: entries_wf_def)
  show ?case
    using next_entry_ok [OF "1.prems"(1)] "1.IH" "1.prems"(2) read_inode_ok [OF fs]
    by (auto simp: lookup_loop.simps [of fs name d] item_ok_def turn_ok_def
        split: outcome.splits option.splits sum.splits prod.splits)
qed

lemma lookup_in_ok:
  assumes "ext2_wf fs" "inode_wf fs dir"
  shows "outcome_ok (inode_wf fs) (lookup_in fs dir name)"
  unfolding lookup_in_def directory_entries_def
  by (rule outcome_ok_bind [OF directory_entries_from_ok [OF assms]]) (use lookup_loop_ok in blast)

lemma resolve_ok:
  assumes "ext2_wf fs"
  shows "inode_wf fs current \<Longrightarrow> outcome_ok (inode_wf fs) (resolve fs current n components)"
  by (induction components arbitrary: current n)
    (auto intro!: outcome_ok_bind [OF lookup_in_ok [OF assms]])

lemma ext2_lookup_ok:
  assumes "ext2_wf fs"
  shows "outcome_ok (inode_wf fs) (ext2_lookup fs path)"
  unfolding ext2_lookup_def
  by (intro outcome_ok_if outcome_ok_bind [OF read_inode_ok [OF assms]]
      outcome_ok_bind [OF resolve_ok [OF assms]]) auto

text \<open>C23: no bytes make the reader panic. Parsing either refuses an image or returns a file system whose
  fields are consistent with the image. Then any block, group or inode number gives a value or an error; every inode
  read points inside the file system; every block of it can be read or is refused; a directory can be walked from any
  position, with any number of calls, also past its end or past an error; any name can be looked up in it; and
  the lookup of any path ends in an inode or an error.\<close>

theorem ext2_reader_never_panics:
  "outcome_ok (\<lambda>fs. ext2_wf fs \<and> fs_image fs = img \<and>
      (\<forall>b. outcome_ok (\<lambda>bytes. length bytes = fs_block_size fs) (block_bytes fs b)) \<and>
      (\<forall>g. outcome_ok (\<lambda>d. inode_table d < fs_blocks_count fs) (group_descriptor fs g)) \<and>
      (\<forall>ino. outcome_ok (\<lambda>inode. inode_wf fs inode \<and>
          (\<forall>k. outcome_ok (\<lambda>bytes. length bytes \<le> fs_block_size fs) (file_block fs inode k)) \<and>
          (\<forall>from. outcome_ok (\<lambda>d. \<forall>n. outcome_ok (\<lambda>_. True) (next_times n d)) (directory_entries_from fs inode from)) \<and>
          (\<forall>name. outcome_ok (inode_wf fs) (lookup_in fs inode name)))
        (read_inode fs ino)) \<and>
      (\<forall>path. outcome_ok (inode_wf fs) (ext2_lookup fs path)))
    (ext2_parse img)"
proof (rule outcome_ok_mono [OF ext2_parse_ok], intro conjI allI)
  fix fs b g ino path
  assume fs: "ext2_wf fs \<and> fs_image fs = img"
  then show "ext2_wf fs" "fs_image fs = img" by auto
  show "outcome_ok (\<lambda>bytes. length bytes = fs_block_size fs) (block_bytes fs b)" by (rule block_bytes_ok)
  show "outcome_ok (\<lambda>d. inode_table d < fs_blocks_count fs) (group_descriptor fs g)"
    by (rule outcome_ok_mono [OF group_descriptor_ok]) (use fs in auto)
  show "outcome_ok (inode_wf fs) (ext2_lookup fs path)" using fs ext2_lookup_ok by blast
  have "outcome_ok (\<lambda>bytes. length bytes \<le> fs_block_size fs) (file_block fs inode k)" for inode k
    by (rule outcome_ok_mono [OF file_block_ok]) (use fs in auto)
  moreover have "outcome_ok (\<lambda>d. \<forall>n. outcome_ok (\<lambda>_. True) (next_times n d)) (directory_entries_from fs inode from)" if "inode_wf fs inode" for inode "from"
    by (rule outcome_ok_mono [OF directory_entries_from_ok [OF _ that]]) (use fs next_times_ok in auto)
  moreover have "outcome_ok (inode_wf fs) (lookup_in fs inode name)" if "inode_wf fs inode" for inode name
    using lookup_in_ok [OF _ that] fs by blast
  ultimately show "outcome_ok (\<lambda>inode. inode_wf fs inode \<and>
          (\<forall>k. outcome_ok (\<lambda>bytes. length bytes \<le> fs_block_size fs) (file_block fs inode k)) \<and>
          (\<forall>from. outcome_ok (\<lambda>d. \<forall>n. outcome_ok (\<lambda>_. True) (next_times n d)) (directory_entries_from fs inode from)) \<and>
          (\<forall>name. outcome_ok (inode_wf fs) (lookup_in fs inode name))) (read_inode fs ino)"
    by (intro outcome_ok_mono [OF read_inode_ok]) (use fs in simp_all)
qed

text \<open>C24: a walk through any directory of any accepted image, from any position, ends after at most one
  entry per eight bytes of the directory's size; each entry it returns names an inode of the file
  system, has a name of at most 255 bytes, and resumes strictly further on, never past the end of the
  directory.\<close>

theorem directory_walk_is_bounded:
  "outcome_ok (\<lambda>fs. \<forall>ino. outcome_ok (\<lambda>inode. \<forall>from. outcome_ok (\<lambda>d.
        8 * length (walk d) \<le> i_size inode \<and> list_all (entry_wf d) (walk d) \<and>
        sorted_wrt (<) (map d_next_offset (walk d)))
      (directory_entries_from fs inode from)) (read_inode fs ino)) (ext2_parse img)"
proof (rule outcome_ok_mono [OF ext2_parse_ok], rule allI, rule outcome_ok_mono [OF read_inode_ok])
  fix fs assume fs: "ext2_wf fs \<and> fs_image fs = img"
  then show "ext2_wf fs" by simp
  fix inode assume i: "inode_wf fs inode"
  show "\<forall>from. outcome_ok (\<lambda>d. 8 * length (walk d) \<le> i_size inode \<and> list_all (entry_wf d) (walk d) \<and>
        sorted_wrt (<) (map d_next_offset (walk d))) (directory_entries_from fs inode from)"
  proof
    fix "from"
    show "outcome_ok (\<lambda>d. 8 * length (walk d) \<le> i_size inode \<and> list_all (entry_wf d) (walk d) \<and>
        sorted_wrt (<) (map d_next_offset (walk d))) (directory_entries_from fs inode from)"
    proof (rule outcome_ok_mono [OF directory_entries_from_ok [OF _ i]])
      fix d assume "entries_wf d \<and> de_fs d = fs \<and> de_inode d = inode"
      with walk_bounded [of d] show "8 * length (walk d) \<le> i_size inode \<and> list_all (entry_wf d) (walk d) \<and>
        sorted_wrt (<) (map d_next_offset (walk d))" by auto
    qed (use fs in simp)
  qed
qed

end
