(* ===== verification/Ext2_Write.thy ===== *)
theory Ext2_Write
  imports Ext2
begin

unbundle bit_operations_syntax

text \<open>
  The ext2 writer (\<open>common/src/ext2.rs\<close>, from \<open>Layout\<close> on): taking and returning blocks and inodes,
  growing and cutting a file, creating and removing files and directories. Every operation works on
  the bytes of the image and returns them with its result, also when it fails: what an operation
  wrote before it returned an error stays written.
\<close>

subsection \<open>Operations on an image\<close>

type_synonym img = "u8 list"

definition bind_img ::
  "(img \<Rightarrow> ('e, 'a) outcome \<times> img) \<Rightarrow> ('a \<Rightarrow> img \<Rightarrow> ('e, 'b) outcome \<times> img) \<Rightarrow> img \<Rightarrow> ('e, 'b) outcome \<times> img" where
  "bind_img m f s = (case m s of (Ok a, s') \<Rightarrow> f a s' | (Err e, s') \<Rightarrow> (Err e, s') | (Panic, s') \<Rightarrow> (Panic, s'))"

definition return_img :: "'a \<Rightarrow> img \<Rightarrow> ('e, 'a) outcome \<times> img" where
  "return_img a s = (Ok a, s)"

definition fail_img :: "'e \<Rightarrow> img \<Rightarrow> ('e, 'a) outcome \<times> img" where
  "fail_img e s = (Err e, s)"

text \<open>A read of the image, or a computation that does not touch it.\<close>

definition reading :: "(img \<Rightarrow> ('e, 'a) outcome) \<Rightarrow> img \<Rightarrow> ('e, 'a) outcome \<times> img" where
  "reading f s = (f s, s)"

definition overwrite :: "nat \<Rightarrow> u8 list \<Rightarrow> img \<Rightarrow> img" where
  "overwrite p bs s = take p s @ bs @ drop (p + length bs) s"

definition put_bytes :: "nat \<Rightarrow> u8 list \<Rightarrow> img \<Rightarrow> ('e, unit) outcome \<times> img" where
  "put_bytes p bs s = (if p + length bs \<le> length s then (Ok (), overwrite p bs s) else (Panic, s))"

definition put_u8 :: "nat \<Rightarrow> u8 \<Rightarrow> img \<Rightarrow> ('e, unit) outcome \<times> img" where
  "put_u8 p b = put_bytes p [b]"

definition put_u16 :: "nat \<Rightarrow> nat \<Rightarrow> img \<Rightarrow> ('e, unit) outcome \<times> img" where
  "put_u16 p v = put_bytes p (le_bytes 2 v)"

definition put_u32 :: "nat \<Rightarrow> nat \<Rightarrow> img \<Rightarrow> ('e, unit) outcome \<times> img" where
  "put_u32 p v = put_bytes p (le_bytes 4 v)"

definition fill_zero :: "nat \<Rightarrow> nat \<Rightarrow> img \<Rightarrow> ('e, unit) outcome \<times> img" where
  "fill_zero p n = put_bytes p (replicate n 0)"

definition get_u8 :: "nat \<Rightarrow> img \<Rightarrow> ('e, u8) outcome" where
  "get_u8 p s = (if p < length s then Ok (s ! p) else Panic)"

definition get_bytes :: "nat \<Rightarrow> nat \<Rightarrow> img \<Rightarrow> ('e, u8 list) outcome" where
  "get_bytes p n s = (if p + n \<le> length s then Ok (subslice p n s) else Panic)"

subsection \<open>Layout and errors\<close>

definition SUPERBLOCK_FREE_BLOCKS_COUNT :: nat where "SUPERBLOCK_FREE_BLOCKS_COUNT = 12"
definition SUPERBLOCK_FREE_INODES_COUNT :: nat where "SUPERBLOCK_FREE_INODES_COUNT = 16"
definition GROUP_DESCRIPTOR_FREE_BLOCKS_COUNT :: nat where "GROUP_DESCRIPTOR_FREE_BLOCKS_COUNT = 12"
definition GROUP_DESCRIPTOR_FREE_INODES_COUNT :: nat where "GROUP_DESCRIPTOR_FREE_INODES_COUNT = 14"
definition GROUP_DESCRIPTOR_USED_DIRS_COUNT :: nat where "GROUP_DESCRIPTOR_USED_DIRS_COUNT = 16"
definition INODE_EXTRA_ISIZE :: nat where "INODE_EXTRA_ISIZE = INODE_CORE_LEN"
definition MAX_NAME_LEN :: nat where "MAX_NAME_LEN = 255"
definition dot :: "u8 list" where "dot = [46]"
definition dot_dot :: "u8 list" where "dot_dot = [46, 46]"

lemmas ext2_offsets = SUPERBLOCK_FREE_BLOCKS_COUNT_def SUPERBLOCK_FREE_INODES_COUNT_def
  GROUP_DESCRIPTOR_FREE_BLOCKS_COUNT_def GROUP_DESCRIPTOR_FREE_INODES_COUNT_def
  GROUP_DESCRIPTOR_USED_DIRS_COUNT_def INODE_EXTRA_ISIZE_def SUPERBLOCK_OFFSET_def GROUP_DESCRIPTOR_SIZE_def

record layout =
  l_block_size :: nat
  l_blocks_count :: nat
  l_first_data_block :: nat
  l_blocks_per_group :: nat
  l_group_count :: nat
  l_inodes_per_group :: nat
  l_inode_size :: nat
  l_inodes_count :: nat
  l_want_extra_isize :: nat
  l_first_inode :: nat

datatype alloc_error =
    Full | AllocBlockOutOfRange nat | NotAllocated nat | AllocImageTooSmall | FreeCountInconsistent
  | AllocInodeOutOfRange nat | BadName | AllocNameTaken | NoRoomInDirectory | AllocNotADirectory nat
  | NotARegularFile nat | NoSuchEntry | NoPreviousEntry | DirectoryNotEmpty nat | DirectoryCorrupt

definition ext2_layout :: "ext2 \<Rightarrow> layout" where
  "ext2_layout fs = \<lparr>l_block_size = fs_block_size fs, l_blocks_count = fs_blocks_count fs,
     l_first_data_block = fs_first_data_block fs, l_blocks_per_group = fs_blocks_per_group fs,
     l_group_count = fs_group_count fs, l_inodes_per_group = fs_inodes_per_group fs,
     l_inode_size = fs_inode_size fs, l_inodes_count = fs_inodes_count fs,
     l_want_extra_isize = fs_want_extra_isize fs, l_first_inode = fs_first_inode fs\<rparr>"

definition locate :: "layout \<Rightarrow> nat \<Rightarrow> ('e, (nat \<times> nat) option) outcome" where
  "locate l block =
     (if l_blocks_count l \<le> block then Ok None
      else if block < l_first_data_block l then Ok None
      else if l_blocks_per_group l = 0 then Panic
      else let index = block - l_first_data_block l in
        Ok (Some (index div l_blocks_per_group l, index mod l_blocks_per_group l)))"

definition descriptor_at :: "layout \<Rightarrow> nat \<Rightarrow> ('e, nat option) outcome" where
  "descriptor_at l grp =
     (if l_group_count l \<le> grp then Ok None
      else bind_outcome (group_table_start (l_first_data_block l) (l_block_size l)) (\<lambda>table.
        Ok (Some (table + grp * GROUP_DESCRIPTOR_SIZE))))"

definition block_at :: "layout \<Rightarrow> nat \<Rightarrow> nat" where
  "block_at l block = block * l_block_size l"

definition inode_at :: "layout \<Rightarrow> img \<Rightarrow> nat \<Rightarrow> ('e, nat option) outcome" where
  "inode_at l img ino =
     (if ino = 0 \<or> l_inodes_count l < ino then Ok None
      else if l_inodes_per_group l = 0 then Panic
      else let grp = (ino - 1) div l_inodes_per_group l; index = (ino - 1) mod l_inodes_per_group l in
        bind_outcome (descriptor_at l grp) (\<lambda>d.
          case d of None \<Rightarrow> Ok None
          | Some descriptor \<Rightarrow>
              if length img < descriptor + GROUP_DESCRIPTOR_SIZE then Ok None
              else bind_outcome (ext2_read_u32 img (descriptor + 8)) (\<lambda>table.
                let offset = table * l_block_size l + index * l_inode_size l in
                if length img < offset + l_inode_size l then Ok None else Ok (Some offset))))"

definition sectors_per_block :: "layout \<Rightarrow> nat" where
  "sectors_per_block l = l_block_size l div 512"

definition bitmap_slot :: "nat \<Rightarrow> nat \<Rightarrow> nat \<times> u8" where
  "bitmap_slot bitmap index = (bitmap + index div 8, push_bit (index mod 8) 1)"

definition i_block_slot :: "nat \<Rightarrow> nat \<Rightarrow> nat" where
  "i_block_slot inode_pos index = inode_pos + 40 + index * 4"

definition ok_or_outcome :: "'e \<Rightarrow> ('e, 'a option) outcome \<Rightarrow> ('e, 'a) outcome" where
  "ok_or_outcome e m = bind_outcome m (ok_or e)"

subsection \<open>Taking and returning blocks\<close>

text \<open>The search of one group's bitmap: the first index below the span that is not passed over and
  whose bit is clear.\<close>

fun free_index :: "(nat \<Rightarrow> bool) \<Rightarrow> img \<Rightarrow> nat \<Rightarrow> nat \<Rightarrow> nat \<Rightarrow> (alloc_error, nat option) outcome" where
  "free_index pass img bitmap index 0 = Ok None"
| "free_index pass img bitmap index (Suc n) =
     (if pass index then free_index pass img bitmap (Suc index) n
      else let (byte, msk) = bitmap_slot bitmap index in
        if length img \<le> byte then Err AllocImageTooSmall
        else if img ! byte AND msk \<noteq> 0 then free_index pass img bitmap (Suc index) n
        else Ok (Some index))"

definition checked_minus_one :: "(alloc_error, nat) outcome \<Rightarrow> (alloc_error, nat) outcome" where
  "checked_minus_one m = bind_outcome m (\<lambda>v. if v = 0 then Err FreeCountInconsistent else Ok (v - 1))"

definition checked_plus_one :: "nat \<Rightarrow> (alloc_error, nat) outcome \<Rightarrow> (alloc_error, nat) outcome" where
  "checked_plus_one limit m = bind_outcome m (\<lambda>v. if v + 1 < limit then Ok (v + 1) else Err FreeCountInconsistent)"

text \<open>The position of a group's descriptor, checked to lie inside the image.\<close>

definition group_at :: "layout \<Rightarrow> alloc_error \<Rightarrow> nat \<Rightarrow> img \<Rightarrow> (alloc_error, nat) outcome" where
  "group_at l e grp img =
     bind_outcome (ok_or_outcome e (descriptor_at l grp)) (\<lambda>descriptor.
       if length img < descriptor + GROUP_DESCRIPTOR_SIZE then Err AllocImageTooSmall else Ok descriptor)"

definition take_block :: "nat \<Rightarrow> nat \<Rightarrow> u8 \<Rightarrow> img \<Rightarrow> (alloc_error, unit) outcome \<times> img" where
  "take_block descriptor byte msk =
     bind_img (reading (\<lambda>img. checked_minus_one (ext2_read_u16 img (descriptor + GROUP_DESCRIPTOR_FREE_BLOCKS_COUNT)))) (\<lambda>free.
     bind_img (reading (\<lambda>img. checked_minus_one (ext2_read_u32 img (SUPERBLOCK_OFFSET + SUPERBLOCK_FREE_BLOCKS_COUNT)))) (\<lambda>total.
     bind_img (reading (get_u8 byte)) (\<lambda>b.
     bind_img (put_u8 byte (b OR msk)) (\<lambda>_.
     bind_img (put_u16 (descriptor + GROUP_DESCRIPTOR_FREE_BLOCKS_COUNT) free) (\<lambda>_.
     put_u32 (SUPERBLOCK_OFFSET + SUPERBLOCK_FREE_BLOCKS_COUNT) total)))))"

fun allocate_block_from :: "layout \<Rightarrow> nat \<Rightarrow> nat \<Rightarrow> img \<Rightarrow> (alloc_error, nat) outcome \<times> img" where
  "allocate_block_from l grp 0 = fail_img Full"
| "allocate_block_from l grp (Suc n) =
     bind_img (reading (group_at l AllocImageTooSmall grp)) (\<lambda>descriptor.
     bind_img (reading (\<lambda>img. ext2_read_u32 img descriptor)) (\<lambda>bitmap_block.
     let bitmap = block_at l bitmap_block;
         first = l_first_data_block l + grp * l_blocks_per_group l in
     if u32_limit \<le> first \<or> l_blocks_count l < first then reading (\<lambda>_. Panic)
     else let span = min (l_blocks_per_group l) (l_blocks_count l - first) in
       bind_img (reading (\<lambda>img. free_index (\<lambda>_. False) img bitmap 0 span)) (\<lambda>found.
         case found of
           None \<Rightarrow> allocate_block_from l (Suc grp) n
         | Some index \<Rightarrow>
             bind_img (take_block descriptor (fst (bitmap_slot bitmap index)) (snd (bitmap_slot bitmap index))) (\<lambda>_.
               return_img (first + index)))))"

definition allocate_block :: "layout \<Rightarrow> img \<Rightarrow> (alloc_error, nat) outcome \<times> img" where
  "allocate_block l = allocate_block_from l 0 (l_group_count l)"

definition free_block :: "layout \<Rightarrow> nat \<Rightarrow> img \<Rightarrow> (alloc_error, unit) outcome \<times> img" where
  "free_block l block =
     bind_img (reading (\<lambda>_. ok_or_outcome (AllocBlockOutOfRange block) (locate l block))) (\<lambda>(grp, index).
     bind_img (reading (group_at l (AllocBlockOutOfRange block) grp)) (\<lambda>descriptor.
     bind_img (reading (\<lambda>img. ext2_read_u32 img descriptor)) (\<lambda>bitmap_block.
     let (byte, msk) = bitmap_slot (block_at l bitmap_block) index in
     bind_img (reading (\<lambda>img. if length img \<le> byte then Err AllocImageTooSmall
        else if img ! byte AND msk = 0 then Err (NotAllocated block) else Ok (img ! byte))) (\<lambda>b.
     bind_img (reading (\<lambda>img. checked_plus_one 65536 (ext2_read_u16 img (descriptor + GROUP_DESCRIPTOR_FREE_BLOCKS_COUNT)))) (\<lambda>free.
     bind_img (reading (\<lambda>img. checked_plus_one u32_limit (ext2_read_u32 img (SUPERBLOCK_OFFSET + SUPERBLOCK_FREE_BLOCKS_COUNT)))) (\<lambda>total.
     bind_img (put_u8 byte (b AND NOT msk)) (\<lambda>_.
     bind_img (put_u16 (descriptor + GROUP_DESCRIPTOR_FREE_BLOCKS_COUNT) free) (\<lambda>_.
     put_u32 (SUPERBLOCK_OFFSET + SUPERBLOCK_FREE_BLOCKS_COUNT) total))))))))"

subsection \<open>Taking and returning inodes\<close>

text \<open>Unlike a block, an inode has its bit set before the counters are checked.\<close>

definition take_inode :: "nat \<Rightarrow> nat \<Rightarrow> u8 \<Rightarrow> img \<Rightarrow> (alloc_error, unit) outcome \<times> img" where
  "take_inode descriptor byte msk =
     bind_img (reading (get_u8 byte)) (\<lambda>b.
     bind_img (put_u8 byte (b OR msk)) (\<lambda>_.
     bind_img (reading (\<lambda>img. checked_minus_one (ext2_read_u16 img (descriptor + GROUP_DESCRIPTOR_FREE_INODES_COUNT)))) (\<lambda>group_free.
     bind_img (reading (\<lambda>img. checked_minus_one (ext2_read_u32 img (SUPERBLOCK_OFFSET + SUPERBLOCK_FREE_INODES_COUNT)))) (\<lambda>total_free.
     bind_img (put_u16 (descriptor + GROUP_DESCRIPTOR_FREE_INODES_COUNT) group_free) (\<lambda>_.
     put_u32 (SUPERBLOCK_OFFSET + SUPERBLOCK_FREE_INODES_COUNT) total_free)))))"

fun allocate_inode_from :: "layout \<Rightarrow> nat \<Rightarrow> nat \<Rightarrow> img \<Rightarrow> (alloc_error, nat) outcome \<times> img" where
  "allocate_inode_from l grp 0 = fail_img Full"
| "allocate_inode_from l grp (Suc n) =
     bind_img (reading (group_at l AllocImageTooSmall grp)) (\<lambda>descriptor.
     bind_img (reading (\<lambda>img. ext2_read_u32 img (descriptor + 4))) (\<lambda>bitmap_block.
     let bitmap = block_at l bitmap_block;
         first = grp * l_inodes_per_group l + 1 in
     if u32_limit \<le> first \<or> u32_limit \<le> l_inodes_count l + 1 then reading (\<lambda>_. Panic)
     else let span = min (l_inodes_per_group l) (l_inodes_count l + 1 - first) in
       bind_img (reading (\<lambda>img. free_index (\<lambda>index. first + index < l_first_inode l) img bitmap 0 span)) (\<lambda>found.
         case found of
           None \<Rightarrow> allocate_inode_from l (Suc grp) n
         | Some index \<Rightarrow>
             bind_img (take_inode descriptor (fst (bitmap_slot bitmap index)) (snd (bitmap_slot bitmap index))) (\<lambda>_.
               return_img (first + index)))))"

definition allocate_inode :: "layout \<Rightarrow> img \<Rightarrow> (alloc_error, nat) outcome \<times> img" where
  "allocate_inode l = allocate_inode_from l 0 (l_group_count l)"

definition free_inode :: "layout \<Rightarrow> nat \<Rightarrow> img \<Rightarrow> (alloc_error, unit) outcome \<times> img" where
  "free_inode l ino =
     (if ino = 0 \<or> l_inodes_count l < ino then fail_img (AllocInodeOutOfRange ino)
      else if l_inodes_per_group l = 0 then reading (\<lambda>_. Panic)
      else let grp = (ino - 1) div l_inodes_per_group l; index = (ino - 1) mod l_inodes_per_group l in
     bind_img (reading (group_at l (AllocInodeOutOfRange ino) grp)) (\<lambda>descriptor.
     bind_img (reading (\<lambda>img. ext2_read_u32 img (descriptor + 4))) (\<lambda>bitmap_block.
     let (byte, msk) = bitmap_slot (block_at l bitmap_block) index in
     bind_img (reading (\<lambda>img. if length img \<le> byte then Err AllocImageTooSmall
        else if img ! byte AND msk = 0 then Err (NotAllocated ino) else Ok (img ! byte))) (\<lambda>b.
     bind_img (reading (\<lambda>img. checked_plus_one 65536 (ext2_read_u16 img (descriptor + GROUP_DESCRIPTOR_FREE_INODES_COUNT)))) (\<lambda>group_free.
     bind_img (reading (\<lambda>img. checked_plus_one u32_limit (ext2_read_u32 img (SUPERBLOCK_OFFSET + SUPERBLOCK_FREE_INODES_COUNT)))) (\<lambda>total_free.
     bind_img (put_u8 byte (b AND NOT msk)) (\<lambda>_.
     bind_img (put_u16 (descriptor + GROUP_DESCRIPTOR_FREE_INODES_COUNT) group_free) (\<lambda>_.
     put_u32 (SUPERBLOCK_OFFSET + SUPERBLOCK_FREE_INODES_COUNT) total_free))))))))"

subsection \<open>Growing and cutting a file\<close>

definition panic_img :: "img \<Rightarrow> ('e, 'a) outcome \<times> img" where
  "panic_img s = (Panic, s)"

text \<open>The block that takes the next bytes: a fresh one at a block boundary, else the last one.\<close>

definition append_target :: "layout \<Rightarrow> nat \<Rightarrow> nat \<Rightarrow> img \<Rightarrow> (alloc_error, nat) outcome \<times> img" where
  "append_target l inode_pos sz =
     (let slot = i_block_slot inode_pos (sz div l_block_size l) in
      if sz mod l_block_size l = 0
      then bind_img (allocate_block l) (\<lambda>block. bind_img (put_u32 slot block) (\<lambda>_. return_img block))
      else reading (\<lambda>img. ext2_read_u32 img slot))"

function append_loop :: "layout \<Rightarrow> nat \<Rightarrow> nat \<Rightarrow> u8 list \<Rightarrow> img \<Rightarrow> (alloc_error, nat) outcome \<times> img" where
  "append_loop l inode_pos sz data =
     (if data = [] then return_img sz
      else if l_block_size l = 0 then panic_img
      else if DIRECT_BLOCK_COUNT \<le> sz div l_block_size l then fail_img Full
      else bind_img (append_target l inode_pos sz) (\<lambda>block.
        let offset_in_block = sz mod l_block_size l;
            n = min (l_block_size l - offset_in_block) (length data);
            p = block_at l block + offset_in_block in
        bind_img (reading (\<lambda>img. if length img < p + n then Err AllocImageTooSmall else Ok ())) (\<lambda>_.
        bind_img (put_bytes p (take n data)) (\<lambda>_.
        if u32_limit \<le> sz + n then panic_img else append_loop l inode_pos (sz + n) (drop n data)))))"
  by pat_completeness auto
termination
  by (relation "measure (\<lambda>(l, inode_pos, sz, data). length data)") (auto simp: min_def)

declare append_loop.simps [simp del]

definition append_to_file :: "layout \<Rightarrow> nat \<Rightarrow> u8 list \<Rightarrow> img \<Rightarrow> (alloc_error, unit) outcome \<times> img" where
  "append_to_file l ino data =
     bind_img (reading (\<lambda>img. ok_or_outcome (AllocBlockOutOfRange ino) (inode_at l img ino))) (\<lambda>inode_pos.
     bind_img (reading (\<lambda>img. ext2_read_u32 img (inode_pos + 4))) (\<lambda>sz0.
     bind_img (append_loop l inode_pos sz0 data) (\<lambda>sz.
     bind_img (put_u32 (inode_pos + 4) sz) (\<lambda>_.
     if l_block_size l = 0 then panic_img
     else let sectors = div_ceil sz (l_block_size l) * sectors_per_block l in
       if u32_limit \<le> sectors then panic_img else put_u32 (inode_pos + 28) sectors))))"

text \<open>The loop of \<open>truncate_to\<close>, from the last block of the file down to the first one not kept:
  \<open>n\<close> blocks remain to be returned.\<close>

fun truncate_loop :: "layout \<Rightarrow> nat \<Rightarrow> nat \<Rightarrow> nat \<Rightarrow> img \<Rightarrow> (alloc_error, unit) outcome \<times> img" where
  "truncate_loop l inode_pos keep 0 = return_img ()"
| "truncate_loop l inode_pos keep (Suc n) =
     (let slot = i_block_slot inode_pos (keep + n) in
      bind_img (reading (\<lambda>img. ext2_read_u32 img slot)) (\<lambda>block.
      if block = 0 then truncate_loop l inode_pos keep n
      else bind_img (\<lambda>img. if block_at l block + l_block_size l \<le> length img
             then fill_zero (block_at l block) (l_block_size l) img else return_img () img) (\<lambda>_.
        bind_img (put_u32 slot 0) (\<lambda>_.
        bind_img (free_block l block) (\<lambda>_. truncate_loop l inode_pos keep n)))))"

definition clear_tail :: "layout \<Rightarrow> nat \<Rightarrow> nat \<Rightarrow> nat \<Rightarrow> img \<Rightarrow> (alloc_error, unit) outcome \<times> img" where
  "clear_tail l inode_pos keep target =
     (if keep = 0 then return_img ()
      else bind_img (reading (\<lambda>img. ext2_read_u32 img (i_block_slot inode_pos (keep - 1)))) (\<lambda>last_block.
        let tail = target mod l_block_size l in
        if last_block = 0 \<or> tail = 0 then return_img ()
        else (\<lambda>img. let p = block_at l last_block + tail in
               if p + (l_block_size l - tail) \<le> length img then fill_zero p (l_block_size l - tail) img
               else return_img () img)))"

definition truncate_to :: "layout \<Rightarrow> nat \<Rightarrow> nat \<Rightarrow> img \<Rightarrow> (alloc_error, unit) outcome \<times> img" where
  "truncate_to l ino target =
     bind_img (reading (\<lambda>img. ok_or_outcome (AllocBlockOutOfRange ino) (inode_at l img ino))) (\<lambda>inode_pos.
     bind_img (reading (\<lambda>img. ext2_read_u32 img (inode_pos + 4))) (\<lambda>sz.
     if sz < target then fail_img (NotAllocated ino)
     else if l_block_size l = 0 then panic_img
     else let keep = div_ceil target (l_block_size l); have = div_ceil sz (l_block_size l) in
       bind_img (truncate_loop l inode_pos keep (have - keep)) (\<lambda>_.
       bind_img (clear_tail l inode_pos keep target) (\<lambda>_.
       bind_img (put_u32 (inode_pos + 4) target) (\<lambda>_.
       let sectors = keep * sectors_per_block l in
       if u32_limit \<le> sectors then panic_img else put_u32 (inode_pos + 28) sectors)))))"

subsection \<open>Directory entries\<close>

definition dirent_span :: "nat \<Rightarrow> nat" where
  "dirent_span name_len = next_multiple_of (DIRENT_HEADER_LEN + name_len) DIRENT_ALIGNMENT"

text \<open>Where an entry is, and where the one before it in its block is.\<close>

type_synonym directory_slot = "nat \<times> nat option"

text \<open>The entries of one block, \<open>p\<close> up to \<open>fin\<close>.\<close>

function scan_block ::
  "img \<Rightarrow> u8 list \<Rightarrow> nat \<Rightarrow> nat \<Rightarrow> nat \<Rightarrow> nat option \<Rightarrow> directory_slot option \<Rightarrow> directory_slot option \<Rightarrow>
   (alloc_error, directory_slot option \<times> directory_slot option) outcome" where
  "scan_block img name want fin p previous found room =
     (if fin < p + DIRENT_HEADER_LEN then Ok (found, room)
      else
        bind_outcome (ext2_read_u32 img p) (\<lambda>entry.
        bind_outcome (ext2_read_u16 img (p + 4)) (\<lambda>rec_len.
        bind_outcome (get_u8 (p + 6) img) (\<lambda>nl.
        let name_len = unat nl in
        if rec_len mod DIRENT_ALIGNMENT \<noteq> 0 \<or> rec_len < DIRENT_HEADER_LEN + name_len \<or> fin < p + rec_len
        then Err DirectoryCorrupt
        else
          bind_outcome (if entry \<noteq> 0
              then bind_outcome (get_bytes (p + DIRENT_HEADER_LEN) name_len img) (\<lambda>bytes. Ok (bytes = name))
              else Ok False) (\<lambda>hit.
          if room = None \<and> entry \<noteq> 0 \<and> rec_len < dirent_span name_len then Panic
          else scan_block img name want fin (p + rec_len) (Some p)
            (if hit then Some (p, previous) else found)
            (if room = None \<and> entry \<noteq> 0 \<and> want \<le> rec_len - dirent_span name_len then Some (p, previous) else room))))))"
  by pat_completeness auto
termination
  by (relation "measure (\<lambda>(img, name, want, fin, p, _). fin - p)") (auto simp: DIRENT_HEADER_LEN_def)

declare scan_block.simps [simp del]

fun scan_blocks ::
  "layout \<Rightarrow> img \<Rightarrow> u8 list \<Rightarrow> nat \<Rightarrow> nat \<Rightarrow> nat \<Rightarrow> nat \<Rightarrow> directory_slot option \<Rightarrow> directory_slot option \<Rightarrow>
   (alloc_error, directory_slot option \<times> directory_slot option) outcome" where
  "scan_blocks l img name want dir_pos index 0 found room = Ok (found, room)"
| "scan_blocks l img name want dir_pos index (Suc n) found room =
     bind_outcome (ext2_read_u32 img (i_block_slot dir_pos index)) (\<lambda>block.
       if block = 0 then scan_blocks l img name want dir_pos (Suc index) n found room
       else let base = block_at l block in
         if length img < base + l_block_size l then Err AllocImageTooSmall
         else bind_outcome (scan_block img name want (base + l_block_size l) base None found room) (\<lambda>(found', room').
           scan_blocks l img name want dir_pos (Suc index) n found' room'))"

definition scan_directory ::
  "layout \<Rightarrow> nat \<Rightarrow> u8 list \<Rightarrow> nat \<Rightarrow> img \<Rightarrow> (alloc_error, directory_slot option \<times> directory_slot option) outcome" where
  "scan_directory l dir name want img =
     bind_outcome (ok_or_outcome (AllocInodeOutOfRange dir) (inode_at l img dir)) (\<lambda>dir_pos.
     bind_outcome (ext2_read_u16 img dir_pos) (\<lambda>mode.
     if \<not> mode_is_directory mode then Err (AllocNotADirectory dir)
     else bind_outcome (ext2_read_u32 img (dir_pos + 4)) (\<lambda>sz.
       if l_block_size l = 0 then Panic
       else scan_blocks l img name want dir_pos 0 (min (sz div l_block_size l) DIRECT_BLOCK_COUNT) None None)))"

definition insert_dirent :: "nat \<Rightarrow> nat \<Rightarrow> u8 list \<Rightarrow> nat \<Rightarrow> img \<Rightarrow> (alloc_error, unit) outcome \<times> img" where
  "insert_dirent previous ino name file_type =
     bind_img (reading (get_u8 (previous + 6))) (\<lambda>nl.
     bind_img (reading (\<lambda>img. ext2_read_u16 img (previous + 4))) (\<lambda>rec_len.
     let previous_len = dirent_span (unat nl) in
     if rec_len < previous_len then panic_img
     else let entry_len = rec_len - previous_len; entry = previous + previous_len in
       bind_img (put_u16 (previous + 4) previous_len) (\<lambda>_.
       bind_img (put_u32 entry ino) (\<lambda>_.
       bind_img (put_u16 (entry + 4) entry_len) (\<lambda>_.
       bind_img (put_u8 (entry + 6) (word_of_nat (length name))) (\<lambda>_.
       bind_img (put_u8 (entry + 7) (word_of_nat file_type)) (\<lambda>_.
       put_bytes (entry + DIRENT_HEADER_LEN) name)))))))"

definition remove_dirent :: "nat \<Rightarrow> nat \<Rightarrow> img \<Rightarrow> (alloc_error, unit) outcome \<times> img" where
  "remove_dirent entry previous =
     bind_img (reading (\<lambda>img. ext2_read_u16 img (entry + 4))) (\<lambda>entry_len.
     bind_img (reading (\<lambda>img. ext2_read_u16 img (previous + 4))) (\<lambda>previous_len.
     if 65536 \<le> previous_len + entry_len then fail_img DirectoryCorrupt
     else bind_img (put_u16 (previous + 4) (previous_len + entry_len)) (\<lambda>_. fill_zero entry entry_len)))"

subsection \<open>Creating and removing\<close>

definition bad_new_name :: "u8 list \<Rightarrow> bool" where
  "bad_new_name name \<longleftrightarrow>
     name = [] \<or> MAX_NAME_LEN < length name \<or> PATH_SEPARATOR \<in> set name \<or> name = dot \<or> name = dot_dot"

text \<open>The opening of \<open>create_file\<close> and \<open>create_directory\<close>: the entry whose slack takes the new name.\<close>

definition find_room :: "layout \<Rightarrow> nat \<Rightarrow> u8 list \<Rightarrow> img \<Rightarrow> (alloc_error, nat) outcome" where
  "find_room l dir name img =
     (if bad_new_name name then Err BadName
      else bind_outcome (scan_directory l dir name (dirent_span (length name)) img) (\<lambda>(found, room).
        if found \<noteq> None then Err AllocNameTaken
        else bind_outcome (ok_or NoRoomInDirectory room) (\<lambda>(previous, _). Ok previous)))"

definition put_extra_isize :: "layout \<Rightarrow> nat \<Rightarrow> img \<Rightarrow> (alloc_error, unit) outcome \<times> img" where
  "put_extra_isize l p =
     (if l_want_extra_isize l = 0 then return_img () else put_u16 (p + INODE_EXTRA_ISIZE) (l_want_extra_isize l))"

definition create_file :: "layout \<Rightarrow> nat \<Rightarrow> u8 list \<Rightarrow> img \<Rightarrow> (alloc_error, nat) outcome \<times> img" where
  "create_file l dir name =
     bind_img (reading (find_room l dir name)) (\<lambda>previous.
     bind_img (allocate_inode l) (\<lambda>ino.
     bind_img (reading (\<lambda>img. ok_or_outcome (AllocInodeOutOfRange ino) (inode_at l img ino))) (\<lambda>p.
     bind_img (fill_zero p (l_inode_size l)) (\<lambda>_.
     bind_img (put_u16 p (MODE_REGULAR OR 420)) (\<lambda>_.
     bind_img (put_extra_isize l p) (\<lambda>_.
     bind_img (put_u16 (p + 26) 1) (\<lambda>_.
     bind_img (insert_dirent previous ino name DIRENT_TYPE_REGULAR) (\<lambda>_. return_img ino))))))))"

text \<open>The opening of \<open>unlink_file\<close> and \<open>remove_directory\<close>: entry, the one before it, inode number and
  position. The room asked for is \<open>usize::MAX\<close>.\<close>

definition find_entry :: "layout \<Rightarrow> nat \<Rightarrow> u8 list \<Rightarrow> img \<Rightarrow> (alloc_error, nat \<times> nat \<times> nat \<times> nat) outcome" where
  "find_entry l dir name img =
     (if name = [] \<or> MAX_NAME_LEN < length name then Err BadName
      else bind_outcome (scan_directory l dir name (u64_limit - 1) img) (\<lambda>(found, _).
        bind_outcome (ok_or NoSuchEntry found) (\<lambda>(entry, before).
        bind_outcome (ok_or NoPreviousEntry before) (\<lambda>previous.
        bind_outcome (ext2_read_u32 img entry) (\<lambda>ino.
        bind_outcome (ok_or_outcome (AllocInodeOutOfRange ino) (inode_at l img ino)) (\<lambda>p.
          Ok (entry, previous, ino, p)))))))"

definition unlink_file :: "layout \<Rightarrow> nat \<Rightarrow> u8 list \<Rightarrow> img \<Rightarrow> (alloc_error, unit) outcome \<times> img" where
  "unlink_file l dir name =
     bind_img (reading (find_entry l dir name)) (\<lambda>(entry, previous, ino, p).
     bind_img (reading (\<lambda>img. ext2_read_u16 img p)) (\<lambda>mode.
     if \<not> mode_is_regular mode then fail_img (NotARegularFile ino)
     else bind_img (truncate_to l ino 0) (\<lambda>_.
       bind_img (fill_zero p (l_inode_size l)) (\<lambda>_.
       bind_img (free_inode l ino) (\<lambda>_. remove_dirent entry previous)))))"

definition bump_links :: "layout \<Rightarrow> nat \<Rightarrow> int \<Rightarrow> img \<Rightarrow> (alloc_error, unit) outcome \<times> img" where
  "bump_links l ino delta =
     bind_img (reading (\<lambda>img. ok_or_outcome (AllocInodeOutOfRange ino) (inode_at l img ino))) (\<lambda>p.
     bind_img (reading (\<lambda>img. ext2_read_u16 img (p + 26))) (\<lambda>links.
     let next_links = int links + delta in
     if next_links < 0 \<or> 65536 \<le> next_links then fail_img DirectoryCorrupt else put_u16 (p + 26) (nat next_links)))"

definition bump_used_dirs :: "layout \<Rightarrow> nat \<Rightarrow> int \<Rightarrow> img \<Rightarrow> (alloc_error, unit) outcome \<times> img" where
  "bump_used_dirs l ino delta =
     (if ino = 0 \<or> l_inodes_per_group l = 0 then panic_img
      else bind_img (reading (\<lambda>_. ok_or_outcome AllocImageTooSmall (descriptor_at l ((ino - 1) div l_inodes_per_group l)))) (\<lambda>descriptor.
        bind_img (reading (\<lambda>img. ext2_read_u16 img (descriptor + GROUP_DESCRIPTOR_USED_DIRS_COUNT))) (\<lambda>dirs.
        let next_dirs = int dirs + delta in
        if next_dirs < 0 \<or> 65536 \<le> next_dirs then fail_img FreeCountInconsistent
        else put_u16 (descriptor + GROUP_DESCRIPTOR_USED_DIRS_COUNT) (nat next_dirs))))"

text \<open>The entries \<open>.\<close> and \<open>..\<close> of a new directory, in its zeroed block; the second takes the rest of it.\<close>

definition put_entry :: "nat \<Rightarrow> nat \<Rightarrow> nat \<Rightarrow> u8 list \<Rightarrow> img \<Rightarrow> (alloc_error, unit) outcome \<times> img" where
  "put_entry p ino rec_len name =
     bind_img (put_u32 p ino) (\<lambda>_.
     bind_img (put_u16 (p + 4) (rec_len mod 65536)) (\<lambda>_.
     bind_img (put_u8 (p + 6) (word_of_nat (length name))) (\<lambda>_.
     bind_img (put_u8 (p + 7) (word_of_nat DIRENT_TYPE_DIRECTORY)) (\<lambda>_.
     put_bytes (p + DIRENT_HEADER_LEN) name))))"

definition create_directory :: "layout \<Rightarrow> nat \<Rightarrow> u8 list \<Rightarrow> img \<Rightarrow> (alloc_error, nat) outcome \<times> img" where
  "create_directory l parent name =
     bind_img (reading (find_room l parent name)) (\<lambda>previous.
     bind_img (allocate_inode l) (\<lambda>ino.
     bind_img (allocate_block l) (\<lambda>block.
     bind_img (reading (\<lambda>img. ok_or_outcome (AllocInodeOutOfRange ino) (inode_at l img ino))) (\<lambda>p.
     bind_img (fill_zero p (l_inode_size l)) (\<lambda>_.
     bind_img (put_u16 p (MODE_DIRECTORY OR 493)) (\<lambda>_.
     bind_img (put_u32 (p + 4) (l_block_size l)) (\<lambda>_.
     bind_img (put_u16 (p + 26) 2) (\<lambda>_.
     bind_img (put_u32 (p + 28) (sectors_per_block l)) (\<lambda>_.
     bind_img (put_u32 (p + 40) block) (\<lambda>_.
     bind_img (put_extra_isize l p) (\<lambda>_.
     let body = block_at l block; dot_len = dirent_span 1 in
     bind_img (fill_zero body (l_block_size l)) (\<lambda>_.
     bind_img (put_entry body ino dot_len dot) (\<lambda>_.
     if l_block_size l < dot_len then panic_img
     else bind_img (put_entry (body + dot_len) parent (l_block_size l - dot_len) dot_dot) (\<lambda>_.
     bind_img (insert_dirent previous ino name DIRENT_TYPE_DIRECTORY) (\<lambda>_.
     bind_img (bump_links l parent 1) (\<lambda>_.
     bind_img (bump_used_dirs l ino 1) (\<lambda>_.
     return_img ino)))))))))))))))))"

text \<open>The walk of \<open>directory_is_empty\<close>, which looks at the first block only and does not check that the
  block lies inside the image.\<close>

function empty_loop :: "img \<Rightarrow> nat \<Rightarrow> nat \<Rightarrow> nat \<Rightarrow> (alloc_error, bool) outcome" where
  "empty_loop img body bs offset =
     (if bs < offset + DIRENT_HEADER_LEN then Ok True
      else
        bind_outcome (ext2_read_u16 img (body + offset + 4)) (\<lambda>rec_len.
        if rec_len < DIRENT_HEADER_LEN \<or> bs < offset + rec_len then Err DirectoryCorrupt
        else
          bind_outcome (ext2_read_u32 img (body + offset)) (\<lambda>inode.
          bind_outcome (get_u8 (body + offset + 6) img) (\<lambda>nl.
          bind_outcome (if inode = 0 then Ok True
            else bind_outcome (get_bytes (body + offset + DIRENT_HEADER_LEN) (unat nl) img) (\<lambda>name. Ok (name = dot \<or> name = dot_dot)))
            (\<lambda>skip. if skip then empty_loop img body bs (offset + rec_len) else Ok False)))))"
  by pat_completeness auto
termination
  by (relation "measure (\<lambda>(img, body, bs, offset). bs - offset)") (auto simp: DIRENT_HEADER_LEN_def)

declare empty_loop.simps [simp del]

definition directory_is_empty :: "layout \<Rightarrow> nat \<Rightarrow> img \<Rightarrow> (alloc_error, bool) outcome" where
  "directory_is_empty l ino img =
     bind_outcome (ok_or_outcome (AllocInodeOutOfRange ino) (inode_at l img ino)) (\<lambda>p.
     bind_outcome (ext2_read_u32 img (p + 40)) (\<lambda>block.
     if block = 0 then Ok True else empty_loop img (block_at l block) (l_block_size l) 0))"

definition remove_directory :: "layout \<Rightarrow> nat \<Rightarrow> u8 list \<Rightarrow> img \<Rightarrow> (alloc_error, unit) outcome \<times> img" where
  "remove_directory l parent name =
     bind_img (reading (find_entry l parent name)) (\<lambda>(entry, previous, ino, p).
     bind_img (reading (\<lambda>img. ext2_read_u16 img p)) (\<lambda>mode.
     if \<not> mode_is_directory mode then fail_img (AllocNotADirectory ino)
     else bind_img (reading (directory_is_empty l ino)) (\<lambda>empty.
       if \<not> empty then fail_img (DirectoryNotEmpty ino)
       else bind_img (truncate_to l ino 0) (\<lambda>_.
         bind_img (fill_zero p (l_inode_size l)) (\<lambda>_.
         bind_img (free_inode l ino) (\<lambda>_.
         bind_img (bump_used_dirs l ino (- 1)) (\<lambda>_.
         bind_img (bump_links l parent (- 1)) (\<lambda>_.
         remove_dirent entry previous))))))))"

end
