(* ===== verification/Ext2_Account.thy ===== *)
theory Ext2_Account
  imports Ext2_Write
begin

unbundle bit_operations_syntax

text \<open>
  The accounts of an ext2 volume: the bitmaps of blocks and inodes, the counters of the groups and of
  the superblock. On a volume whose counters agree with its bitmaps, taking a unit returns one that
  was free and keeps the agreement, and returning it gives back the image byte for byte; both kinds of
  unit are instances of one interface, \<open>unit_store\<close>. The last section shows what a refusal can leave
  behind.
\<close>

subsection \<open>Overwriting bytes\<close>

named_theorems img_simps \<open>execution of operations on an image\<close>

lemma bind_img_simps [img_simps]:
  "bind_img (return_img a) h s = h a s"
  "bind_img (fail_img e) k s = (Err e, s)"
  "bind_img (reading g) f' s = (case g s of Ok a \<Rightarrow> f' a s | Err e \<Rightarrow> (Err e, s) | Panic \<Rightarrow> (Panic, s))"
  "bind_img (put_bytes p bs) f s = (if p + length bs \<le> length s then f () (overwrite p bs s) else (Panic, s))"
  "bind_img (put_u8 p b) f s = (if p + 1 \<le> length s then f () (overwrite p [b] s) else (Panic, s))"
  "bind_img (put_u16 p v) f s = (if p + 2 \<le> length s then f () (overwrite p (le_bytes 2 v) s) else (Panic, s))"
  "bind_img (put_u32 p v) f s = (if p + 4 \<le> length s then f () (overwrite p (le_bytes 4 v) s) else (Panic, s))"
  "bind_img (fill_zero p n) f s = (if p + n \<le> length s then f () (overwrite p (replicate n 0) s) else (Panic, s))"
  by (auto simp: bind_img_def return_img_def fail_img_def reading_def put_bytes_def put_u8_def put_u16_def put_u32_def
      fill_zero_def split: outcome.splits)

lemma put_simps [img_simps]:
  "put_bytes p bs s = (if p + length bs \<le> length s then (Ok (), overwrite p bs s) else (Panic, s))"
  "put_u8 p b s = (if p + 1 \<le> length s then (Ok (), overwrite p [b] s) else (Panic, s))"
  "put_u16 p v s = (if p + 2 \<le> length s then (Ok (), overwrite p (le_bytes 2 v) s) else (Panic, s))"
  "put_u32 p v s = (if p + 4 \<le> length s then (Ok (), overwrite p (le_bytes 4 v) s) else (Panic, s))"
  "fill_zero p n s = (if p + n \<le> length s then (Ok (), overwrite p (replicate n 0) s) else (Panic, s))"
  "return_img a s = (Ok a, s)" "fail_img e s = (Err e, s)" "panic_img s = (Panic, s)" "reading g s = (g s, s)"
  by (auto simp: put_bytes_def put_u8_def put_u16_def put_u32_def fill_zero_def return_img_def fail_img_def
      panic_img_def reading_def)

lemma length_overwrite [simp]: "p + length bs \<le> length s \<Longrightarrow> length (overwrite p bs s) = length s"
  by (simp add: overwrite_def)

lemma nth_overwrite:
  "p + length bs \<le> length s \<Longrightarrow> i < length s \<Longrightarrow>
     overwrite p bs s ! i = (if p \<le> i \<and> i < p + length bs then bs ! (i - p) else s ! i)"
  by (auto simp: overwrite_def nth_append)

text \<open>Two ranges, each a position and a length, that share no byte.\<close>

definition apart :: "nat \<Rightarrow> nat \<Rightarrow> nat \<Rightarrow> nat \<Rightarrow> bool" where
  "apart p n q m \<longleftrightarrow> p + n \<le> q \<or> q + m \<le> p"

lemma subslice_overwrite_apart:
  assumes "apart q n p (length bs)" "p + length bs \<le> length s" "q + n \<le> length s"
  shows "subslice q n (overwrite p bs s) = subslice q n s"
  by (rule nth_equalityI) (use assms in \<open>auto simp: nth_subslice nth_overwrite apart_def\<close>)

lemma subslice_overwrite_same:
  assumes "p + length bs \<le> length s" "n = length bs"
  shows "subslice p n (overwrite p bs s) = bs"
  by (rule nth_equalityI) (use assms in \<open>auto simp: nth_subslice nth_overwrite\<close>)

lemma overwrite_overwrite:
  assumes "p + length bs \<le> length s" "length cs = length bs"
  shows "overwrite p cs (overwrite p bs s) = overwrite p cs s"
  by (rule nth_equalityI) (use assms in \<open>auto simp: nth_overwrite\<close>)

lemma overwrite_subslice:
  assumes "p + n \<le> length s"
  shows "overwrite p (subslice p n s) s = s"
  by (rule nth_equalityI) (use assms in \<open>auto simp: nth_overwrite nth_subslice\<close>)

lemma overwrite_commute:
  assumes "apart p (length bs) q (length cs)" "p + length bs \<le> length s" "q + length cs \<le> length s"
  shows "overwrite p bs (overwrite q cs s) = overwrite q cs (overwrite p bs s)"
  by (rule nth_equalityI) (use assms in \<open>auto simp: nth_overwrite apart_def\<close>)

lemma read_le_overwrite_apart:
  assumes "apart q n p (length bs)" "p + length bs \<le> length s"
  shows "read_le n (overwrite p bs s) q = read_le n s q"
  using assms by (auto simp: read_le_def subslice_overwrite_apart)

lemma read_le_overwrite_same:
  "p + n \<le> length s \<Longrightarrow> v < 256 ^ n \<Longrightarrow> read_le n (overwrite p (le_bytes n v) s) p = Ok v"
  by (simp add: read_le_def subslice_overwrite_same)

subsection \<open>A bit and its two counters\<close>

text \<open>What taking or returning a unit does to the image: the byte of the bitmap, the counter of the
  group at \<open>d\<close>, the counter of the superblock at \<open>q\<close>.\<close>

definition settle :: "nat \<Rightarrow> u8 \<Rightarrow> nat \<Rightarrow> nat \<Rightarrow> nat \<Rightarrow> nat \<Rightarrow> img \<Rightarrow> img" where
  "settle byte b d f q t s = overwrite q (le_bytes 4 t) (overwrite d (le_bytes 2 f) (overwrite byte [b] s))"

definition accounts :: "nat \<Rightarrow> nat \<Rightarrow> nat \<Rightarrow> img \<Rightarrow> bool" where
  "accounts byte d q s \<longleftrightarrow> byte < length s \<and> d + 2 \<le> length s \<and> q + 4 \<le> length s \<and>
     apart byte 1 d 2 \<and> apart byte 1 q 4 \<and> apart d 2 q 4"

lemma length_settle [simp]: "accounts byte d q s \<Longrightarrow> length (settle byte b d f q t s) = length s"
  by (simp add: settle_def accounts_def)

lemma nth_settle:
  assumes "accounts byte d q s" "i < length s"
  shows "settle byte b d f q t s ! i =
    (if i = byte then b else if d \<le> i \<and> i < d + 2 then le_bytes 2 f ! (i - d)
     else if q \<le> i \<and> i < q + 4 then le_bytes 4 t ! (i - q) else s ! i)"
  using assms by (auto simp: settle_def accounts_def nth_overwrite apart_def)

lemma subslice_settle_other:
  assumes "accounts byte d q s" "apart p n byte 1" "apart p n d 2" "apart p n q 4" "p + n \<le> length s"
  shows "subslice p n (settle byte b d f q t s) = subslice p n s"
  by (rule nth_equalityI) (use assms in \<open>auto simp: nth_subslice nth_settle apart_def\<close>)

lemma read_settle:
  assumes "accounts byte d q s" "f < 65536" "t < u32_limit"
  shows "ext2_read_u16 (settle byte b d f q t s) d = Ok f" "ext2_read_u32 (settle byte b d f q t s) q = Ok t"
    "settle byte b d f q t s ! byte = b"
  using assms
  by (auto simp: accounts_def settle_def ext2_read_u16_def ext2_read_u32_def nth_overwrite apart_def
      read_le_overwrite_apart read_le_overwrite_same)

lemma settle_settle:
  assumes "accounts byte d q s"
  shows "settle byte b' d f' q t' (settle byte b d f q t s) = settle byte b' d f' q t' s"
proof -
  have "accounts byte d q (settle byte b d f q t s)" using assms by (simp add: accounts_def settle_def)
  with assms show ?thesis by (intro nth_equalityI) (auto simp: nth_settle)
qed

lemma settle_id:
  assumes "accounts byte d q s" "ext2_read_u16 s d = Ok f" "ext2_read_u32 s q = Ok t"
  shows "settle byte (s ! byte) d f q t s = s"
proof -
  have f: "le_bytes 2 f = subslice d 2 s" and t: "le_bytes 4 t = subslice q 4 s"
    using assms by (auto simp: ext2_read_u16_def ext2_read_u32_def read_le_Ok)
  show ?thesis by (rule nth_equalityI) (use assms(1) in \<open>auto simp: nth_settle f t nth_subslice accounts_def\<close>)
qed

lemma clear_set_bit:
  fixes b m :: u8
  assumes "b AND m = 0"
  shows "(b OR m) AND NOT m = b" "m \<noteq> 0 \<Longrightarrow> (b OR m) AND m \<noteq> 0"
proof -
  have x: "\<not> (bit b n \<and> bit m n)" for n using assms by (metis bit_and_iff bit_0_eq bot_apply bot_bool_def)
  show "(b OR m) AND NOT m = b" by (rule bit_eqI) (use x in \<open>auto simp: bit_simps\<close>)
  show "m \<noteq> 0 \<Longrightarrow> (b OR m) AND m \<noteq> 0"
    using x by (metis and.commute bit.conj_disj_distrib2 or.right_idem assms and.idem or_eq_0_iff)
qed

subsection \<open>A consistent volume\<close>

text \<open>Blocks and inodes are kept alike: a bitmap per group, a counter per group, a counter in the
  superblock. The two kinds of unit are told apart by where a descriptor keeps the number of the
  bitmap's block: 0 for blocks, 4 for inodes.\<close>

definition units_per_group :: "layout \<Rightarrow> nat \<Rightarrow> nat" where
  "units_per_group l k = (if k = 0 then l_blocks_per_group l else l_inodes_per_group l)"

definition group_counter :: "nat \<Rightarrow> nat" where
  "group_counter k = (if k = 0 then 12 else 14)"

definition super_counter :: "nat \<Rightarrow> nat" where
  "super_counter k = (if k = 0 then 1036 else 1040)"

definition layout_wf :: "layout \<Rightarrow> bool" where
  "layout_wf l \<longleftrightarrow> 0 < l_block_size l \<and> l_first_data_block l < l_blocks_count l \<and> l_blocks_count l < u32_limit \<and>
     0 < l_blocks_per_group l \<and> 0 < l_inodes_per_group l \<and>
     l_group_count l = div_ceil (l_blocks_count l - l_first_data_block l) (l_blocks_per_group l) \<and>
     l_inodes_count l = l_group_count l * l_inodes_per_group l \<and> l_inodes_count l + 1 < u32_limit"

definition table_pos :: "layout \<Rightarrow> nat" where
  "table_pos l = (l_first_data_block l + 1) * l_block_size l"

definition desc_pos :: "layout \<Rightarrow> nat \<Rightarrow> nat" where
  "desc_pos l g = table_pos l + g * 32"

definition desc_field :: "layout \<Rightarrow> nat \<Rightarrow> nat \<Rightarrow> img \<Rightarrow> nat" where
  "desc_field l g k s = le_nat (subslice (desc_pos l g + k) 4 s)"

definition map_pos :: "layout \<Rightarrow> nat \<Rightarrow> nat \<Rightarrow> img \<Rightarrow> nat" where
  "map_pos l k g s = desc_field l g k s * l_block_size l"

definition map_len :: "layout \<Rightarrow> nat \<Rightarrow> nat" where
  "map_len l k = (units_per_group l k + 7) div 8"

text \<open>The bytes of the bitmaps lie inside the image, apart from the superblock, from the descriptor
  table and from each other.\<close>

definition map_ok :: "layout \<Rightarrow> img \<Rightarrow> nat \<Rightarrow> nat \<Rightarrow> bool" where
  "map_ok l s p n \<longleftrightarrow> p + n \<le> length s \<and> apart p n 1024 104 \<and> apart p n (table_pos l) (32 * l_group_count l)"

definition volume :: "layout \<Rightarrow> img \<Rightarrow> bool" where
  "volume l s \<longleftrightarrow> layout_wf l \<and> 1128 \<le> length s \<and> table_pos l + 32 * l_group_count l \<le> length s \<and>
     apart 1024 104 (table_pos l) (32 * l_group_count l) \<and>
     (\<forall>g < l_group_count l. \<forall>k \<in> {0, 4}. map_ok l s (map_pos l k g s) (map_len l k) \<and>
        (\<forall>h < l_group_count l. \<forall>k' \<in> {0, 4}. (k, g) \<noteq> (k', h) \<longrightarrow>
           apart (map_pos l k g s) (map_len l k) (map_pos l k' h s) (map_len l k')))"

definition unit_used :: "layout \<Rightarrow> nat \<Rightarrow> nat \<Rightarrow> nat \<Rightarrow> img \<Rightarrow> bool" where
  "unit_used l k g i s \<longleftrightarrow> bit (s ! (map_pos l k g s + i div 8)) (i mod 8)"

definition super_free :: "nat \<Rightarrow> img \<Rightarrow> nat" where
  "super_free k s = le_nat (subslice (super_counter k) 4 s)"

definition group_free :: "layout \<Rightarrow> nat \<Rightarrow> nat \<Rightarrow> img \<Rightarrow> nat" where
  "group_free l k g s = le_nat (subslice (desc_pos l g + group_counter k) 2 s)"

lemma volumeD:
  assumes "volume l s"
  shows "layout_wf l" "1128 \<le> length s" "table_pos l + 32 * l_group_count l \<le> length s"
    "apart 1024 104 (table_pos l) (32 * l_group_count l)"
  using assms by (simp_all add: volume_def)

lemma volume_map_ok:
  assumes "volume l s" "g < l_group_count l" "k \<in> {0, 4}"
  shows "map_ok l s (map_pos l k g s) (map_len l k)"
  using assms unfolding volume_def by meson

lemma volume_maps_apart:
  assumes "volume l s" "g < l_group_count l" "k \<in> {0, 4}" "h < l_group_count l" "k' \<in> {0, 4}" "(k, g) \<noteq> (k', h)"
  shows "apart (map_pos l k g s) (map_len l k) (map_pos l k' h s) (map_len l k')"
  using assms unfolding volume_def by meson

lemma desc_inside:
  assumes "volume l s" "g < l_group_count l"
  shows "desc_pos l g + 32 \<le> table_pos l + 32 * l_group_count l" "desc_pos l g + 32 \<le> length s" "table_pos l \<le> desc_pos l g"
proof -
  have "g * 32 + 32 \<le> 32 * l_group_count l" using assms(2) by simp
  then show "desc_pos l g + 32 \<le> table_pos l + 32 * l_group_count l" "table_pos l \<le> desc_pos l g"
    by (auto simp: desc_pos_def)
  then show "desc_pos l g + 32 \<le> length s" using volumeD(3) [OF assms(1)] by simp
qed

lemma desc_apart: "g \<noteq> h \<Longrightarrow> desc_pos l g + 32 \<le> desc_pos l h \<or> desc_pos l h + 32 \<le> desc_pos l g"
  by (cases "g < h") (auto simp: desc_pos_def not_less le_less)

lemma descriptor_at_volume:
  assumes "layout_wf l"
  shows "descriptor_at l g = (if g < l_group_count l then Ok (Some (desc_pos l g)) else Ok None)"
  using assms by (auto simp: descriptor_at_def group_table_start_def layout_wf_def desc_pos_def table_pos_def GROUP_DESCRIPTOR_SIZE_def)

lemma group_at_volume:
  assumes "volume l s" "g < l_group_count l"
  shows "group_at l e g s = Ok (desc_pos l g)"
  using assms desc_inside(2) [OF assms]
  by (auto simp: group_at_def ok_or_outcome_def descriptor_at_volume volume_def GROUP_DESCRIPTOR_SIZE_def)

lemma read_desc_volume:
  assumes "volume l s" "g < l_group_count l" "k + 4 \<le> 32"
  shows "ext2_read_u32 s (desc_pos l g + k) = Ok (desc_field l g k s)"
  using desc_inside(2) [OF assms(1,2)] assms(3) by (simp add: ext2_read_u32_def read_le_def desc_field_def)

lemma index_in_map: "i < units_per_group l k \<Longrightarrow> i div 8 < map_len l k"
  using div_le_mono [of "i + 8" "units_per_group l k + 7" 8] by (simp add: map_len_def)

text \<open>A byte of a bitmap, the counter of a group and the counter of the superblock are apart.\<close>

lemma accounts_volume:
  assumes v: "volume l s" and k: "k \<in> {0, 4}" "g < l_group_count l" "i < units_per_group l k"
  shows "accounts (map_pos l k g s + i div 8) (desc_pos l g + group_counter k) (super_counter k) s"
proof -
  have "map_ok l s (map_pos l k g s) (map_len l k)" by (rule volume_map_ok [OF v k(2,1)])
  then show ?thesis
    using volumeD(2-4) [OF v] desc_inside [OF v k(2)] index_in_map [OF k(3)] k(1)
    unfolding accounts_def map_ok_def apart_def by (auto simp: group_counter_def super_counter_def)
qed

lemma free_index_find:
  assumes "bm + (N + 7) div 8 \<le> length s"
  shows "i + n \<le> N \<Longrightarrow>
    free_index pass s bm i n = Ok (find (\<lambda>j. \<not> pass j \<and> \<not> bit (s ! (bm + j div 8)) (j mod 8)) [i..<i + n])"
proof (induction n arbitrary: i)
  case 0
  then show ?case by simp
next
  case (Suc n)
  have "i div 8 < (N + 7) div 8" using div_le_mono [of "i + 8" "N + 7" 8] Suc.prems by simp
  then have inside: "bm + i div 8 < length s" using assms by linarith
  have "free_index pass s bm (Suc i) n = Ok (find (\<lambda>j. \<not> pass j \<and> \<not> bit (s ! (bm + j div 8)) (j mod 8)) [Suc i..<Suc i + n])"
    by (rule Suc.IH) (use Suc.prems in simp)
  moreover have "[i..<i + Suc n] = i # [Suc i..<Suc i + n]" by (simp add: upt_conv_Cons)
  ultimately show ?case using inside
    by (simp add: bitmap_slot_def bit_iff_and_push_bit_not_eq_0)
qed

lemma div_ceil_bound: "0 < b \<Longrightarrow> g < div_ceil a b \<Longrightarrow> g * b < a"
proof -
  assume b: "0 < b" "g < div_ceil a b"
  show "g * b < a"
  proof (cases "a mod b = 0")
    case True
    then have "g < a div b" using b(2) by (simp add: div_ceil_def)
    then have "g * b < a div b * b" using b(1) by simp
    then show ?thesis using div_mult_mod_eq [of a b] True by linarith
  next
    case False
    then have "g \<le> a div b" using b(2) by (simp add: div_ceil_def)
    then have "g * b \<le> a div b * b" by simp
    then show ?thesis using div_mult_mod_eq [of a b] False by linarith
  qed
qed

text \<open>What settling one unit leaves alone.\<close>

abbreviation settled :: "layout \<Rightarrow> nat \<Rightarrow> nat \<Rightarrow> nat \<Rightarrow> u8 \<Rightarrow> nat \<Rightarrow> nat \<Rightarrow> img \<Rightarrow> img" where
  "settled l k g i b f t s \<equiv>
     settle (map_pos l k g s + i div 8) b (desc_pos l g + group_counter k) f (super_counter k) t s"

lemma counter_bounds:
  "k \<in> {0, 4} \<Longrightarrow> 12 \<le> group_counter k \<and> group_counter k + 2 \<le> 16"
  "k \<in> {0, 4} \<Longrightarrow> 1036 \<le> super_counter k \<and> super_counter k + 4 \<le> 1044"
  by (auto simp: group_counter_def super_counter_def)

lemma settled_desc_field:
  assumes v: "volume l s" and k: "k \<in> {0, 4}" "g < l_group_count l" "i < units_per_group l k"
    and h: "h < l_group_count l" "k' + 4 \<le> 12"
  shows "desc_field l h k' (settled l k g i b f t s) = desc_field l h k' s"
proof -
  have m: "map_ok l s (map_pos l k g s) (map_len l k)" by (rule volume_map_ok [OF v k(2,1)])
  have "subslice (desc_pos l h + k') 4 (settled l k g i b f t s) = subslice (desc_pos l h + k') 4 s"
  proof (rule subslice_settle_other [OF accounts_volume [OF v k]])
    show "apart (desc_pos l h + k') 4 (map_pos l k g s + i div 8) 1"
      using m desc_inside [OF v h(1)] index_in_map [OF k(3)] h(2) unfolding map_ok_def apart_def by linarith
    show "apart (desc_pos l h + k') 4 (desc_pos l g + group_counter k) 2"
      using desc_apart [of g h l] h(2) counter_bounds(1) [OF k(1)] unfolding apart_def
      by (cases "g = h") auto
    show "apart (desc_pos l h + k') 4 (super_counter k) 4"
      using volumeD(4) [OF v] desc_inside [OF v h(1)] h(2) counter_bounds(2) [OF k(1)] unfolding apart_def by linarith
    show "desc_pos l h + k' + 4 \<le> length s" using desc_inside [OF v h(1)] h(2) by linarith
  qed
  then show ?thesis by (simp add: desc_field_def)
qed

lemma settled_map_pos:
  assumes "volume l s" "k \<in> {0, 4}" "g < l_group_count l" "i < units_per_group l k"
    "h < l_group_count l" "k' \<in> {0, 4}"
  shows "map_pos l k' h (settled l k g i b f t s) = map_pos l k' h s"
  using settled_desc_field [OF assms(1-5), of k'] assms(6) by (auto simp: map_pos_def)

lemma settled_volume:
  assumes "volume l s" "k \<in> {0, 4}" "g < l_group_count l" "i < units_per_group l k"
  shows "volume l (settled l k g i b f t s)"
proof -
  have m: "map_pos l k' h (settled l k g i b f t s) = map_pos l k' h s" if "h < l_group_count l" "k' \<in> {0, 4}" for k' h
    by (rule settled_map_pos [OF assms that])
  have len: "length (settled l k g i b f t s) = length s" using accounts_volume [OF assms] by simp
  show ?thesis
    unfolding volume_def map_ok_def len
    using assms(1) m unfolding volume_def map_ok_def by simp
qed

lemma settled_unit_used:
  assumes v: "volume l s" and k: "k \<in> {0, 4}" "g < l_group_count l" "i < units_per_group l k"
    and h: "h < l_group_count l" "k' \<in> {0, 4}" "j < units_per_group l k'"
  shows "unit_used l k' h j (settled l k g i b f t s) =
    (if (k', h) = (k, g) \<and> j div 8 = i div 8 then bit b (j mod 8) else unit_used l k' h j s)"
proof -
  let ?p = "map_pos l k' h s + j div 8" and ?byte = "map_pos l k g s + i div 8"
  have m: "map_ok l s (map_pos l k' h s) (map_len l k')" by (rule volume_map_ok [OF v h(1,2)])
  have lt: "i div 8 < map_len l k" "j div 8 < map_len l k'" using index_in_map k(3) h(3) by blast+
  have p: "?p < length s" using m lt(2) unfolding map_ok_def by linarith
  have same: "?p = ?byte \<longleftrightarrow> (k', h) = (k, g) \<and> j div 8 = i div 8"
    using volume_maps_apart [OF v h(1,2) k(2,1)] lt unfolding apart_def by fastforce
  have a: "\<not> (desc_pos l g + group_counter k \<le> ?p \<and> ?p < desc_pos l g + group_counter k + 2)"
    using m lt(2) desc_inside [OF v k(2)] counter_bounds(1) [OF k(1)] unfolding map_ok_def apart_def by linarith
  have b: "\<not> (super_counter k \<le> ?p \<and> ?p < super_counter k + 4)"
    using m lt(2) counter_bounds(2) [OF k(1)] unfolding map_ok_def apart_def by linarith
  have "settled l k g i b f t s ! ?p = (if ?p = ?byte then b else s ! ?p)"
    by (subst nth_settle [OF accounts_volume [OF v k] p]) (simp only: a b if_False)
  then show ?thesis
    unfolding unit_used_def settled_map_pos [OF v k h(1,2)] by (simp add: same)
qed

lemma settled_super_free:
  assumes v: "volume l s" and k: "k \<in> {0, 4}" "g < l_group_count l" "i < units_per_group l k" "k' \<in> {0, 4}" "t < u32_limit"
  shows "super_free k' (settled l k g i b f t s) = (if k' = k then t else super_free k' s)"
proof (cases "k' = k")
  case True
  have "subslice (super_counter k) 4 (settled l k g i b f t s) = le_bytes 4 t"
    using accounts_volume [OF v k(1-3)] by (simp add: accounts_def settle_def subslice_overwrite_same)
  then show ?thesis using True k(5) by (simp add: super_free_def)
next
  case False
  have m: "map_ok l s (map_pos l k g s) (map_len l k)" by (rule volume_map_ok [OF v k(2,1)])
  have "subslice (super_counter k') 4 (settled l k g i b f t s) = subslice (super_counter k') 4 s"
  proof (rule subslice_settle_other [OF accounts_volume [OF v k(1-3)]])
    show "apart (super_counter k') 4 (map_pos l k g s + i div 8) 1"
      using m index_in_map [OF k(3)] counter_bounds(2) [OF k(4)] unfolding map_ok_def apart_def by linarith
    show "apart (super_counter k') 4 (desc_pos l g + group_counter k) 2"
      using volumeD(4) [OF v] desc_inside [OF v k(2)] counter_bounds [OF k(1)] counter_bounds(2) [OF k(4)] unfolding apart_def by linarith
    show "apart (super_counter k') 4 (super_counter k) 4"
      using False k(1,4) by (auto simp: super_counter_def apart_def)
    show "super_counter k' + 4 \<le> length s" using volumeD(2) [OF v] counter_bounds(2) [OF k(4)] by linarith
  qed
  then show ?thesis using False by (simp add: super_free_def)
qed

lemma settled_group_free:
  assumes v: "volume l s" and k: "k \<in> {0, 4}" "g < l_group_count l" "i < units_per_group l k"
    and h: "k' \<in> {0, 4}" "h < l_group_count l" and f: "f < 65536"
  shows "group_free l k' h (settled l k g i b f t s) = (if (k', h) = (k, g) then f else group_free l k' h s)"
proof (cases "(k', h) = (k, g)")
  case True
  have "subslice (desc_pos l g + group_counter k) 2 (settled l k g i b f t s) = le_bytes 2 f"
    using accounts_volume [OF v k]
    by (auto simp: accounts_def settle_def subslice_overwrite_same subslice_overwrite_apart)
  then show ?thesis using True f by (simp add: group_free_def)
next
  case False
  have m: "map_ok l s (map_pos l k g s) (map_len l k)" by (rule volume_map_ok [OF v k(2,1)])
  have "subslice (desc_pos l h + group_counter k') 2 (settled l k g i b f t s) = subslice (desc_pos l h + group_counter k') 2 s"
  proof (rule subslice_settle_other [OF accounts_volume [OF v k]])
    show "apart (desc_pos l h + group_counter k') 2 (map_pos l k g s + i div 8) 1"
      using m desc_inside [OF v h(2)] index_in_map [OF k(3)] counter_bounds(1) [OF h(1)] unfolding map_ok_def apart_def by linarith
    show "apart (desc_pos l h + group_counter k') 2 (desc_pos l g + group_counter k) 2"
    proof (cases "g = h")
      case True
      then show ?thesis using False k(1) h(1) by (auto simp: group_counter_def apart_def)
    next
      case False
      then show ?thesis using desc_apart [OF False, of l] counter_bounds(1) [OF k(1)] counter_bounds(1) [OF h(1)]
        unfolding apart_def by linarith
    qed
    show "apart (desc_pos l h + group_counter k') 2 (super_counter k) 4"
      using volumeD(4) [OF v] desc_inside [OF v h(2)] counter_bounds(1) [OF h(1)] counter_bounds(2) [OF k(1)] unfolding apart_def by linarith
    show "desc_pos l h + group_counter k' + 2 \<le> length s" using desc_inside [OF v h(2)] counter_bounds(1) [OF h(1)] by linarith
  qed
  then show ?thesis using False by (auto simp: group_free_def)
qed

subsection \<open>Taking one unit\<close>

definition group_span :: "layout \<Rightarrow> nat \<Rightarrow> nat \<Rightarrow> nat" where
  "group_span l k g =
     (if k = 0 then min (l_blocks_per_group l) (l_blocks_count l - (l_first_data_block l + g * l_blocks_per_group l))
      else l_inodes_per_group l)"

text \<open>The counters agree with the bitmaps: each group's with its clear bits, the superblock's with
  the sum over the groups.\<close>

definition counted :: "layout \<Rightarrow> nat \<Rightarrow> img \<Rightarrow> bool" where
  "counted l k s \<longleftrightarrow>
     (\<forall>g < l_group_count l. group_free l k g s = card {i. i < group_span l k g \<and> \<not> unit_used l k g i s}) \<and>
     super_free k s = (\<Sum>g < l_group_count l. group_free l k g s)"

definition taken :: "layout \<Rightarrow> nat \<Rightarrow> nat \<Rightarrow> nat \<Rightarrow> img \<Rightarrow> img" where
  "taken l k g i s = settled l k g i (s ! (map_pos l k g s + i div 8) OR push_bit (i mod 8) 1)
     (group_free l k g s - 1) (super_free k s - 1) s"

definition takeable :: "layout \<Rightarrow> nat \<Rightarrow> nat \<Rightarrow> nat \<Rightarrow> img \<Rightarrow> bool" where
  "takeable l k g i s \<longleftrightarrow> g < l_group_count l \<and> i < group_span l k g \<and> \<not> unit_used l k g i s"

lemma group_span_le: "group_span l k g \<le> units_per_group l k"
  by (simp add: group_span_def units_per_group_def)

lemma group_free_bound: "group_free l k g s < 65536"
  using le_nat_bound [of "subslice (desc_pos l g + group_counter k) 2 s"] length_subslice_le [of "desc_pos l g + group_counter k" 2 s]
    power_increasing [of "length (subslice (desc_pos l g + group_counter k) 2 s)" 2 "256::nat"]
  by (simp add: group_free_def)

lemma super_free_bound: "super_free k s < u32_limit"
  using le_nat_bound [of "subslice (super_counter k) 4 s"] length_subslice_le [of "super_counter k" 4 s]
    power_increasing [of "length (subslice (super_counter k) 4 s)" 4 "256::nat"]
  by (simp add: super_free_def)

lemma counted_positive:
  assumes "counted l k s" "takeable l k g i s"
  shows "0 < group_free l k g s" "0 < super_free k s"
proof -
  have "i \<in> {i. i < group_span l k g \<and> \<not> unit_used l k g i s}" using assms(2) by (simp add: takeable_def)
  then have "0 < card {i. i < group_span l k g \<and> \<not> unit_used l k g i s}" by (auto simp: card_gt_0_iff)
  then show pos: "0 < group_free l k g s" using assms by (simp add: counted_def takeable_def)
  have "group_free l k g s \<le> (\<Sum>g < l_group_count l. group_free l k g s)"
    using assms(2) by (intro member_le_sum) (auto simp: takeable_def)
  then show "0 < super_free k s" using pos assms(1) by (simp add: counted_def)
qed

lemma taken_facts:
  assumes v: "volume l s" and k: "k \<in> {0, 4}" and t: "takeable l k g i s"
  shows "volume l (taken l k g i s)" "length (taken l k g i s) = length s"
    "h < l_group_count l \<Longrightarrow> k' \<in> {0, 4} \<Longrightarrow> j < units_per_group l k' \<Longrightarrow>
       unit_used l k' h j (taken l k g i s) = (unit_used l k' h j s \<or> (k', h, j) = (k, g, i))"
    "k' \<in> {0, 4} \<Longrightarrow> super_free k' (taken l k g i s) = (if k' = k then super_free k s - 1 else super_free k' s)"
    "h < l_group_count l \<Longrightarrow> k' \<in> {0, 4} \<Longrightarrow>
       group_free l k' h (taken l k g i s) = (if (k', h) = (k, g) then group_free l k g s - 1 else group_free l k' h s)"
proof -
  have gi: "g < l_group_count l" "i < units_per_group l k"
    using t group_span_le [of l k g] by (auto simp: takeable_def)
  show "volume l (taken l k g i s)" unfolding taken_def by (rule settled_volume [OF v k gi])
  show "length (taken l k g i s) = length s" unfolding taken_def using accounts_volume [OF v k gi] by simp
  have "super_free k s - 1 < u32_limit" using super_free_bound [of k s] by linarith
  then show "super_free k' (taken l k g i s) = (if k' = k then super_free k s - 1 else super_free k' s)" if "k' \<in> {0, 4}"
    unfolding taken_def using settled_super_free [OF v k gi that] by simp
  have "group_free l k g s - 1 < 65536" using group_free_bound [of l k g s] by linarith
  then show "group_free l k' h (taken l k g i s) = (if (k', h) = (k, g) then group_free l k g s - 1 else group_free l k' h s)"
    if "h < l_group_count l" "k' \<in> {0, 4}"
    unfolding taken_def using settled_group_free [OF v k gi that(2,1)] by simp
  show "unit_used l k' h j (taken l k g i s) = (unit_used l k' h j s \<or> (k', h, j) = (k, g, i))"
    if h: "h < l_group_count l" "k' \<in> {0, 4}" "j < units_per_group l k'"
  proof -
    have eq: "j div 8 = i div 8 \<Longrightarrow> j mod 8 = i mod 8 \<longleftrightarrow> j = i" by (metis div_mult_mod_eq)
    have "bit (s ! (map_pos l k g s + i div 8) OR push_bit (i mod 8) 1) (j mod 8) \<longleftrightarrow>
        bit (s ! (map_pos l k g s + i div 8)) (j mod 8) \<or> j mod 8 = i mod 8"
      by (auto simp: bit_or_iff bit_exp_iff)
    then show ?thesis
      unfolding taken_def settled_unit_used [OF v k gi h] using eq by (auto simp: unit_used_def)
  qed
qed

text \<open>One bit changes to \<open>w\<close> and both counters move by one: the counters still agree.\<close>

lemma counted_change:
  assumes c: "counted l k s" and gi: "g < l_group_count l" "i < group_span l k g" "unit_used l k g i s \<noteq> w"
    and u: "\<And>h j. h < l_group_count l \<Longrightarrow> j < units_per_group l k \<Longrightarrow>
      unit_used l k h j s' = (if (h, j) = (g, i) then w else unit_used l k h j s)"
    and f: "\<And>h. h < l_group_count l \<Longrightarrow>
      group_free l k h s' = (if h = g then if w then group_free l k g s - 1 else group_free l k g s + 1 else group_free l k h s)"
    and t: "super_free k s' = (if w then super_free k s - 1 else super_free k s + 1)"
  shows "counted l k s'"
proof -
  let ?free = "\<lambda>h s. {j. j < group_span l k h \<and> \<not> unit_used l k h j s}"
  have span: "j < units_per_group l k" if "j < group_span l k h" for h j using that group_span_le [of l k h] by linarith
  have pos: "0 < group_free l k g s" "0 < super_free k s" if w
    using counted_positive [OF c, of g i] gi that by (auto simp: takeable_def)
  have card_g: "card (?free g s) = group_free l k g s" using c gi(1) by (simp add: counted_def)
  have "group_free l k h s' = card (?free h s')" if h: "h < l_group_count l" for h
  proof (cases "h = g")
    case True
    show ?thesis
    proof (cases w)
      case True
      then have "?free g s' = ?free g s - {i}" using u [OF gi(1)] span by (auto split: if_splits)
      moreover have "i \<in> ?free g s" using gi True by simp
      ultimately have "card (?free g s') = card (?free g s) - 1" by simp
      then show ?thesis using f [OF h] \<open>h = g\<close> True card_g by simp
    next
      case False
      then have "?free g s' = insert i (?free g s)" using u [OF gi(1)] span gi by (auto split: if_splits)
      moreover have "i \<notin> ?free g s" using gi False by simp
      ultimately have "card (?free g s') = card (?free g s) + 1" by simp
      then show ?thesis using f [OF h] \<open>h = g\<close> False card_g by simp
    qed
  next
    case False
    then have "?free h s' = ?free h s" using u [OF h] span by auto
    then show ?thesis using f [OF h] False c h by (simp add: counted_def)
  qed
  moreover have "super_free k s' = (\<Sum>h < l_group_count l. group_free l k h s')"
  proof -
    let ?rest = "\<Sum>h \<in> {..<l_group_count l} - {g}. group_free l k h s"
    have "(\<Sum>h \<in> {..<l_group_count l} - {g}. group_free l k h s') = ?rest" by (rule sum.cong) (auto simp: f)
    then have "(\<Sum>h < l_group_count l. group_free l k h s') = group_free l k g s' + ?rest"
      "super_free k s = group_free l k g s + ?rest"
      using gi(1) c by (simp_all add: sum.remove counted_def)
    then show ?thesis using t f [OF gi(1)] pos by (cases w) simp_all
  qed
  ultimately show ?thesis by (simp add: counted_def)
qed

lemma counted_same:
  assumes "counted l k s"
    and "\<And>h j. h < l_group_count l \<Longrightarrow> j < units_per_group l k \<Longrightarrow> unit_used l k h j s' = unit_used l k h j s"
    and f: "\<And>h. h < l_group_count l \<Longrightarrow> group_free l k h s' = group_free l k h s" and t: "super_free k s' = super_free k s"
  shows "counted l k s'"
proof -
  have "{j. j < group_span l k h \<and> \<not> unit_used l k h j s'} = {j. j < group_span l k h \<and> \<not> unit_used l k h j s}"
    if "h < l_group_count l" for h
    using assms(2) [OF that] group_span_le [of l k h] by (auto dest: order_less_le_trans)
  moreover have "(\<Sum>h < l_group_count l. group_free l k h s') = (\<Sum>h < l_group_count l. group_free l k h s)"
    by (rule sum.cong) (auto simp: f)
  ultimately show ?thesis using assms(1) by (simp add: counted_def f t)
qed

lemma taken_counted:
  assumes v: "volume l s" and k: "k \<in> {0, 4}" "k' \<in> {0, 4}" and c: "counted l k' s" and t: "takeable l k g i s"
  shows "counted l k' (taken l k g i s)"
proof (cases "k' = k")
  case False
  show ?thesis
    by (rule counted_same [OF c]) (use taken_facts(3-5) [OF v k(1) t] k(2) False in auto)
next
  case True
  have gi: "g < l_group_count l" "i < group_span l k g" "\<not> unit_used l k g i s" using t by (auto simp: takeable_def)
  show ?thesis
    unfolding True
    by (rule counted_change [where w = True and g = g and i = i, OF c [unfolded True] gi(1,2)])
      (use taken_facts(3-5) [OF v k(1) t] k(1) gi(3) in auto)
qed

text \<open>What \<open>allocate_block\<close> and \<open>allocate_inode\<close> do to a volume whose counters agree with its bitmaps.\<close>

lemma take_block_taken:
  assumes "volume l s" "counted l 0 s" "takeable l 0 g i s"
  shows "take_block (desc_pos l g) (map_pos l 0 g s + i div 8) (push_bit (i mod 8) 1) s = (Ok (), taken l 0 g i s)"
proof -
  have gi: "g < l_group_count l" "i < units_per_group l 0"
    using assms(3) group_span_le [of l 0 g] by (auto simp: takeable_def)
  have a: "accounts (map_pos l 0 g s + i div 8) (desc_pos l g + 12) 1036 s"
    using accounts_volume [OF assms(1) _ gi] by (simp add: group_counter_def super_counter_def)
  then have r: "ext2_read_u16 s (desc_pos l g + 12) = (Ok (group_free l 0 g s) :: (alloc_error, nat) outcome)"
    "ext2_read_u32 s 1036 = (Ok (super_free 0 s) :: (alloc_error, nat) outcome)"
    by (simp_all add: accounts_def ext2_read_u16_def ext2_read_u32_def read_le_def group_free_def super_free_def
        group_counter_def super_counter_def)
  show ?thesis
    using a counted_positive [OF assms(2,3)]
    by (simp add: take_block_def img_simps ext2_offsets r checked_minus_one_def get_u8_def accounts_def taken_def
        settle_def group_counter_def super_counter_def)
qed

lemma take_inode_taken:
  assumes "volume l s" "counted l 4 s" "takeable l 4 g i s"
  shows "take_inode (desc_pos l g) (map_pos l 4 g s + i div 8) (push_bit (i mod 8) 1) s = (Ok (), taken l 4 g i s)"
proof -
  have gi: "g < l_group_count l" "i < units_per_group l 4"
    using assms(3) group_span_le [of l 4 g] by (auto simp: takeable_def)
  let ?byte = "map_pos l 4 g s + i div 8"
  have a: "accounts ?byte (desc_pos l g + 14) 1040 s"
    using accounts_volume [OF assms(1) _ gi] by (simp add: group_counter_def super_counter_def)
  then have r: "ext2_read_u16 (overwrite ?byte [b] s) (desc_pos l g + 14) = (Ok (group_free l 4 g s) :: (alloc_error, nat) outcome)"
    "ext2_read_u32 (overwrite ?byte [b] s) 1040 = (Ok (super_free 4 s) :: (alloc_error, nat) outcome)" for b
    by (auto simp: accounts_def ext2_read_u16_def ext2_read_u32_def read_le_def group_free_def super_free_def
        group_counter_def super_counter_def subslice_overwrite_apart apart_def)
  show ?thesis
    using a counted_positive [OF assms(2,3)]
    by (simp add: take_inode_def img_simps ext2_offsets r checked_minus_one_def get_u8_def accounts_def taken_def
        settle_def group_counter_def super_counter_def)
qed

lemma group_first_block:
  assumes "layout_wf l" "g < l_group_count l"
  shows "l_first_data_block l + g * l_blocks_per_group l < l_blocks_count l"
  using div_ceil_bound [of "l_blocks_per_group l" g "l_blocks_count l - l_first_data_block l"] assms
  by (auto simp: layout_wf_def)

lemma find_takeable:
  assumes "volume l s" "k \<in> {0, 4}" "g < l_group_count l"
  shows "free_index pass s (map_pos l k g s) 0 (group_span l k g) =
    Ok (find (\<lambda>i. \<not> pass i \<and> \<not> unit_used l k g i s) [0..<group_span l k g])"
  using free_index_find [of "map_pos l k g s" "units_per_group l k" s 0 "group_span l k g" pass]
    volume_map_ok [OF assms(1,3,2)] group_span_le [of l k g]
  by (simp add: map_ok_def map_len_def unit_used_def)

lemma allocate_block_from_cases:
  assumes v: "volume l s" and c: "counted l 0 s"
  shows "grp + n = l_group_count l \<Longrightarrow>
    (\<exists>g i. grp \<le> g \<and> takeable l 0 g i s \<and>
       allocate_block_from l grp n s = (Ok (l_first_data_block l + g * l_blocks_per_group l + i), taken l 0 g i s)) \<or>
    allocate_block_from l grp n s = (Err Full, s) \<and> (\<forall>g i. grp \<le> g \<longrightarrow> \<not> takeable l 0 g i s)"
proof (induction n arbitrary: grp)
  case 0
  then show ?case by (auto simp: img_simps takeable_def)
next
  case (Suc n)
  have g: "grp < l_group_count l" using Suc.prems by simp
  have first: "l_first_data_block l + grp * l_blocks_per_group l < l_blocks_count l" "l_blocks_count l < u32_limit"
    using group_first_block [OF volumeD(1) [OF v] g] volumeD(1) [OF v] by (auto simp: layout_wf_def)
  have rd: "ext2_read_u32 s (desc_pos l grp) = (Ok (desc_field l grp 0 s) :: (alloc_error, nat) outcome)"
    using read_desc_volume [OF v g, of 0] by simp
  have unfold: "allocate_block_from l grp (Suc n) s =
    (case find (\<lambda>i. \<not> unit_used l 0 grp i s) [0..<group_span l 0 grp] of
       None \<Rightarrow> allocate_block_from l (Suc grp) n s
     | Some i \<Rightarrow> bind_img (take_block (desc_pos l grp) (map_pos l 0 grp s + i div 8) (push_bit (i mod 8) 1))
         (\<lambda>_. return_img (l_first_data_block l + grp * l_blocks_per_group l + i)) s)"
    using first find_takeable [OF v _ g, of 0 "\<lambda>_. False"]
    by (simp add: img_simps group_at_volume [OF v g] rd Let_def block_at_def map_pos_def [symmetric]
        group_span_def bitmap_slot_def split: option.splits)
  show ?case
  proof (cases "find (\<lambda>i. \<not> unit_used l 0 grp i s) [0..<group_span l 0 grp]")
    case None
    then have "\<not> takeable l 0 grp i s" for i by (auto simp: find_None_iff takeable_def)
    then have last: "\<not> takeable l 0 g i s" if "\<forall>g i. Suc grp \<le> g \<longrightarrow> \<not> takeable l 0 g i s" "grp \<le> g" for g i
      using that by (cases "g = grp") auto
    have "Suc grp + n = l_group_count l" using Suc.prems by simp
    from Suc.IH [OF this] show ?thesis
      unfolding unfold None option.case using last Suc_leD by blast
  next
    case (Some i)
    then have t: "takeable l 0 grp i s" using g by (auto simp: find_Some_iff takeable_def)
    show ?thesis
      unfolding unfold Some
      using take_block_taken [OF v c t] t by (auto simp: bind_img_def return_img_def)
  qed
qed

lemma inode_group_span:
  assumes "layout_wf l" "g < l_group_count l"
  shows "min (l_inodes_per_group l) (l_inodes_count l + 1 - (g * l_inodes_per_group l + 1)) = group_span l 4 g"
    "g * l_inodes_per_group l + 1 < u32_limit"
proof -
  have "Suc g * l_inodes_per_group l \<le> l_group_count l * l_inodes_per_group l" using assms(2) by (intro mult_le_mono1) simp
  then have le: "g * l_inodes_per_group l + l_inodes_per_group l \<le> l_inodes_count l"
    using assms(1) by (simp add: layout_wf_def add.commute)
  then show "min (l_inodes_per_group l) (l_inodes_count l + 1 - (g * l_inodes_per_group l + 1)) = group_span l 4 g"
    by (simp add: group_span_def)
  show "g * l_inodes_per_group l + 1 < u32_limit" using le assms(1) unfolding layout_wf_def by linarith
qed

lemma allocate_inode_from_cases:
  assumes v: "volume l s" and c: "counted l 4 s"
  shows "grp + n = l_group_count l \<Longrightarrow>
    (\<exists>g i. grp \<le> g \<and> takeable l 4 g i s \<and> l_first_inode l \<le> g * l_inodes_per_group l + 1 + i \<and>
       allocate_inode_from l grp n s = (Ok (g * l_inodes_per_group l + 1 + i), taken l 4 g i s)) \<or>
    allocate_inode_from l grp n s = (Err Full, s) \<and>
      (\<forall>g i. grp \<le> g \<longrightarrow> \<not> (takeable l 4 g i s \<and> l_first_inode l \<le> g * l_inodes_per_group l + 1 + i))"
proof (induction n arbitrary: grp)
  case 0
  then show ?case by (auto simp: img_simps takeable_def)
next
  case (Suc n)
  let ?ok = "\<lambda>g i. takeable l 4 g i s \<and> l_first_inode l \<le> g * l_inodes_per_group l + 1 + i"
  have g: "grp < l_group_count l" using Suc.prems by simp
  have first: "grp * l_inodes_per_group l + 1 < u32_limit" "l_inodes_count l + 1 < u32_limit"
    using inode_group_span(2) [OF volumeD(1) [OF v] g] volumeD(1) [OF v] by (auto simp: layout_wf_def)
  note span = inode_group_span(1) [OF volumeD(1) [OF v] g]
  have rd: "ext2_read_u32 s (desc_pos l grp + 4) = (Ok (desc_field l grp 4 s) :: (alloc_error, nat) outcome)"
    using read_desc_volume [OF v g, of 4] by simp
  have nopanic: "\<not> (u32_limit \<le> grp * l_inodes_per_group l + 1 \<or> u32_limit \<le> l_inodes_count l + 1)"
    using first by linarith
  have unfold: "allocate_inode_from l grp (Suc n) s =
    (case find (\<lambda>i. \<not> grp * l_inodes_per_group l + 1 + i < l_first_inode l \<and> \<not> unit_used l 4 grp i s) [0..<group_span l 4 grp] of
       None \<Rightarrow> allocate_inode_from l (Suc grp) n s
     | Some i \<Rightarrow> bind_img (take_inode (desc_pos l grp) (map_pos l 4 grp s + i div 8) (push_bit (i mod 8) 1))
         (\<lambda>_. return_img (grp * l_inodes_per_group l + 1 + i)) s)"
    unfolding allocate_inode_from.simps Let_def
    by (simp only: img_simps group_at_volume [OF v g] outcome.case rd nopanic if_False span block_at_def
        map_pos_def [symmetric] find_takeable [OF v _ g, of 4, simplified] bitmap_slot_def fst_conv snd_conv)
      (simp add: img_simps split: option.splits)
  show ?case
  proof (cases "find (\<lambda>i. \<not> grp * l_inodes_per_group l + 1 + i < l_first_inode l \<and> \<not> unit_used l 4 grp i s) [0..<group_span l 4 grp]")
    case None
    then have "\<not> ?ok grp i" for i by (auto simp: find_None_iff takeable_def not_less)
    then have last: "\<not> ?ok g i" if "\<forall>g i. Suc grp \<le> g \<longrightarrow> \<not> ?ok g i" "grp \<le> g" for g i
      using that by (cases "g = grp") auto
    have "Suc grp + n = l_group_count l" using Suc.prems by simp
    from Suc.IH [OF this] show ?thesis
      unfolding unfold None option.case using last Suc_leD by blast
  next
    case (Some i)
    then have t: "takeable l 4 grp i s" "l_first_inode l \<le> grp * l_inodes_per_group l + 1 + i"
      using g by (auto simp: find_Some_iff takeable_def)
    show ?thesis
      unfolding unfold Some
      using take_inode_taken [OF v c t(1)] t by (auto simp: bind_img_def return_img_def)
  qed
qed

subsection \<open>Returning one unit\<close>

definition released :: "layout \<Rightarrow> nat \<Rightarrow> nat \<Rightarrow> nat \<Rightarrow> img \<Rightarrow> img" where
  "released l k g i s = settled l k g i (s ! (map_pos l k g s + i div 8) AND NOT (push_bit (i mod 8) 1))
     (group_free l k g s + 1) (super_free k s + 1) s"

lemma unit_used_mask: "unit_used l k g i s \<longleftrightarrow> s ! (map_pos l k g s + i div 8) AND push_bit (i mod 8) 1 \<noteq> 0"
  by (simp only: unit_used_def bit_iff_and_push_bit_not_eq_0)

text \<open>Taking and returning the same unit gives back the image, byte for byte.\<close>

lemma released_taken:
  assumes v: "volume l s" and k: "k \<in> {0, 4}" and c: "counted l k s" and t: "takeable l k g i s"
  shows "released l k g i (taken l k g i s) = s"
proof -
  have gi: "g < l_group_count l" "i < units_per_group l k" "\<not> unit_used l k g i s"
    using t group_span_le [of l k g] by (auto simp: takeable_def)
  note a = accounts_volume [OF v k gi(1,2)]
  let ?byte = "map_pos l k g s + i div 8" and ?m = "push_bit (i mod 8) 1 :: u8"
  let ?f = "group_free l k g s" and ?t = "super_free k s"
  note pos = counted_positive [OF c t]
  have b: "?f - 1 < 65536" "?t - 1 < u32_limit" using group_free_bound [of l k g s] super_free_bound [of k s] by linarith+
  have facts: "map_pos l k g (taken l k g i s) = map_pos l k g s" "group_free l k g (taken l k g i s) = ?f - 1"
    "super_free k (taken l k g i s) = ?t - 1"
    unfolding taken_def
    using settled_map_pos [OF v k gi(1,2) gi(1) k] settled_group_free [OF v k gi(1,2) k gi(1) b(1)]
      settled_super_free [OF v k gi(1,2) k b(2)] by simp_all
  have byte: "taken l k g i s ! ?byte = s ! ?byte OR ?m" unfolding taken_def by (rule read_settle(3) [OF a b])
  have bit: "(s ! ?byte OR ?m) AND NOT ?m = s ! ?byte"
    by (rule clear_set_bit) (use gi(3) in \<open>simp only: unit_used_mask not_not\<close>)
  have r: "ext2_read_u16 s (desc_pos l g + group_counter k) = (Ok ?f :: (alloc_error, nat) outcome)"
    "ext2_read_u32 s (super_counter k) = (Ok ?t :: (alloc_error, nat) outcome)"
    using a by (simp_all add: accounts_def ext2_read_u16_def ext2_read_u32_def read_le_def group_free_def super_free_def)
  have "released l k g i (taken l k g i s) =
      settle ?byte (s ! ?byte) (desc_pos l g + group_counter k) ?f (super_counter k) ?t (taken l k g i s)"
    unfolding released_def facts byte bit using pos by simp
  also have "\<dots> = settle ?byte (s ! ?byte) (desc_pos l g + group_counter k) ?f (super_counter k) ?t s"
    unfolding taken_def by (rule settle_settle [OF a])
  also have "\<dots> = s" by (rule settle_id [OF a r])
  finally show ?thesis .
qed

lemma locate_volume:
  assumes "layout_wf l" "g < l_group_count l" "i < group_span l 0 g"
  shows "locate l (l_first_data_block l + g * l_blocks_per_group l + i) = Ok (Some (g, i))"
proof -
  have i: "i < l_blocks_per_group l" "l_first_data_block l + g * l_blocks_per_group l + i < l_blocks_count l"
    using assms(3) by (auto simp: group_span_def)
  then have "(g * l_blocks_per_group l + i) div l_blocks_per_group l = g" "(g * l_blocks_per_group l + i) mod l_blocks_per_group l = i"
    by simp_all
  then show ?thesis using i assms(1) by (simp add: locate_def layout_wf_def Let_def add.assoc)
qed

lemma free_block_released:
  assumes v: "volume l s" and gi: "g < l_group_count l" "i < group_span l 0 g" and u: "unit_used l 0 g i s"
    and c: "group_free l 0 g s + 1 < 65536" "super_free 0 s + 1 < u32_limit"
  shows "free_block l (l_first_data_block l + g * l_blocks_per_group l + i) s = (Ok (), released l 0 g i s)"
proof -
  have i: "i < units_per_group l 0" using gi(2) group_span_le [of l 0 g] by linarith
  have a: "accounts (map_pos l 0 g s + i div 8) (desc_pos l g + 12) 1036 s"
    using accounts_volume [OF v _ gi(1) i] by (simp add: group_counter_def super_counter_def)
  have rd: "ext2_read_u32 s (desc_pos l g) = (Ok (desc_field l g 0 s) :: (alloc_error, nat) outcome)"
    using read_desc_volume [OF v gi(1), of 0] by simp
  have r: "ext2_read_u16 s (desc_pos l g + 12) = (Ok (group_free l 0 g s) :: (alloc_error, nat) outcome)"
    "ext2_read_u32 s 1036 = (Ok (super_free 0 s) :: (alloc_error, nat) outcome)"
    using a by (simp_all add: accounts_def ext2_read_u16_def ext2_read_u32_def read_le_def group_free_def super_free_def
        group_counter_def super_counter_def)
  have u': "s ! (map_pos l 0 g s + i div 8) AND 2 ^ (i mod 8) \<noteq> 0" using u unfolding unit_used_mask push_bit_of_1 .
  show ?thesis
    using a c u'
    by (simp add: free_block_def img_simps ok_or_outcome_def locate_volume [OF volumeD(1) [OF v] gi]
        group_at_volume [OF v gi(1)] rd r block_at_def map_pos_def [symmetric] bitmap_slot_def ext2_offsets
        checked_plus_one_def accounts_def released_def settle_def group_counter_def super_counter_def)
qed

lemma free_inode_released:
  assumes v: "volume l s" and gi: "g < l_group_count l" "i < l_inodes_per_group l" and u: "unit_used l 4 g i s"
    and c: "group_free l 4 g s + 1 < 65536" "super_free 4 s + 1 < u32_limit"
  shows "free_inode l (g * l_inodes_per_group l + 1 + i) s = (Ok (), released l 4 g i s)"
proof -
  have i: "i < units_per_group l 4" using gi(2) by (simp add: units_per_group_def)
  have a: "accounts (map_pos l 4 g s + i div 8) (desc_pos l g + 14) 1040 s"
    using accounts_volume [OF v _ gi(1) i] by (simp add: group_counter_def super_counter_def)
  have "Suc g * l_inodes_per_group l \<le> l_group_count l * l_inodes_per_group l" using gi(1) by (intro mult_le_mono1) simp
  then have le: "g * l_inodes_per_group l + 1 + i \<le> l_inodes_count l"
    using volumeD(1) [OF v] gi(2) by (simp add: layout_wf_def)
  have dm: "(g * l_inodes_per_group l + i) div l_inodes_per_group l = g" "(g * l_inodes_per_group l + i) mod l_inodes_per_group l = i"
    using gi(2) by simp_all
  have rd: "ext2_read_u32 s (desc_pos l g + 4) = (Ok (desc_field l g 4 s) :: (alloc_error, nat) outcome)"
    using read_desc_volume [OF v gi(1), of 4] by simp
  have r: "ext2_read_u16 s (desc_pos l g + 14) = (Ok (group_free l 4 g s) :: (alloc_error, nat) outcome)"
    "ext2_read_u32 s 1040 = (Ok (super_free 4 s) :: (alloc_error, nat) outcome)"
    using a by (simp_all add: accounts_def ext2_read_u16_def ext2_read_u32_def read_le_def group_free_def super_free_def
        group_counter_def super_counter_def)
  have u': "s ! (map_pos l 4 g s + i div 8) AND 2 ^ (i mod 8) \<noteq> 0" using u unfolding unit_used_mask push_bit_of_1 .
  show ?thesis
    using a c u' le gi(2)
    by (simp add: free_inode_def img_simps dm Let_def
        group_at_volume [OF v gi(1)] rd r block_at_def map_pos_def [symmetric] bitmap_slot_def ext2_offsets
        checked_plus_one_def accounts_def released_def settle_def group_counter_def super_counter_def)
qed


lemma released_facts:
  assumes v: "volume l s" and k: "k \<in> {0, 4}" and gi: "g < l_group_count l" "i < group_span l k g"
    and c: "group_free l k g s + 1 < 65536" "super_free k s + 1 < u32_limit"
  shows "volume l (released l k g i s)"
    "h < l_group_count l \<Longrightarrow> k' \<in> {0, 4} \<Longrightarrow> j < units_per_group l k' \<Longrightarrow>
       unit_used l k' h j (released l k g i s) = (unit_used l k' h j s \<and> (k', h, j) \<noteq> (k, g, i))"
    "k' \<in> {0, 4} \<Longrightarrow> super_free k' (released l k g i s) = (if k' = k then super_free k s + 1 else super_free k' s)"
    "h < l_group_count l \<Longrightarrow> k' \<in> {0, 4} \<Longrightarrow>
       group_free l k' h (released l k g i s) = (if (k', h) = (k, g) then group_free l k g s + 1 else group_free l k' h s)"
proof -
  have i: "i < units_per_group l k" using gi(2) group_span_le [of l k g] by linarith
  show "volume l (released l k g i s)" unfolding released_def by (rule settled_volume [OF v k gi(1) i])
  show "super_free k' (released l k g i s) = (if k' = k then super_free k s + 1 else super_free k' s)" if "k' \<in> {0, 4}"
    unfolding released_def using settled_super_free [OF v k gi(1) i that c(2)] by simp
  show "group_free l k' h (released l k g i s) = (if (k', h) = (k, g) then group_free l k g s + 1 else group_free l k' h s)"
    if "h < l_group_count l" "k' \<in> {0, 4}"
    unfolding released_def using settled_group_free [OF v k gi(1) i that(2,1) c(1)] by simp
  show "unit_used l k' h j (released l k g i s) = (unit_used l k' h j s \<and> (k', h, j) \<noteq> (k, g, i))"
    if h: "h < l_group_count l" "k' \<in> {0, 4}" "j < units_per_group l k'"
  proof -
    have eq: "j div 8 = i div 8 \<Longrightarrow> j mod 8 = i mod 8 \<longleftrightarrow> j = i" by (metis div_mult_mod_eq)
    have "bit (s ! (map_pos l k g s + i div 8) AND NOT (push_bit (i mod 8) 1)) (j mod 8) \<longleftrightarrow>
        bit (s ! (map_pos l k g s + i div 8)) (j mod 8) \<and> j mod 8 \<noteq> i mod 8"
      by (auto simp: bit_and_iff bit_not_iff bit_exp_iff)
    then show ?thesis
      unfolding released_def settled_unit_used [OF v k gi(1) i h] using eq by (auto simp: unit_used_def)
  qed
qed

lemma released_counted:
  assumes v: "volume l s" and k: "k \<in> {0, 4}" "k' \<in> {0, 4}" and c: "counted l k' s"
    and gi: "g < l_group_count l" "i < group_span l k g" "unit_used l k g i s"
    and b: "group_free l k g s + 1 < 65536" "super_free k s + 1 < u32_limit"
  shows "counted l k' (released l k g i s)"
proof (cases "k' = k")
  case False
  show ?thesis
    by (rule counted_same [OF c]) (use released_facts(2-4) [OF v k(1) gi(1,2) b] k(2) False in auto)
next
  case True
  show ?thesis
    unfolding True
    by (rule counted_change [where w = False and g = g and i = i, OF c [unfolded True] gi(1,2)])
      (use released_facts(2-4) [OF v k(1) gi(1,2) b] k(1) gi(3) in auto)
qed

subsection \<open>A store of numbered units\<close>

text \<open>Several units taken one after the other, and returned in the opposite order, as
  \<open>append_to_file\<close> takes the blocks of a file and \<open>truncate_to\<close> returns them.\<close>

fun take_many :: "(img \<Rightarrow> ('e, nat) outcome \<times> img) \<Rightarrow> nat \<Rightarrow> img \<Rightarrow> ('e, nat list) outcome \<times> img" where
  "take_many f 0 = return_img []"
| "take_many f (Suc n) = bind_img f (\<lambda>u. bind_img (take_many f n) (\<lambda>us. return_img (u # us)))"

fun give_many :: "(nat \<Rightarrow> img \<Rightarrow> ('e, unit) outcome \<times> img) \<Rightarrow> nat list \<Rightarrow> img \<Rightarrow> ('e, unit) outcome \<times> img" where
  "give_many g [] = return_img ()"
| "give_many g (u # us) = bind_img (give_many g us) (\<lambda>_. g u)"

lemma bind_img_Ok: "bind_img m f s = (Ok b, s'') \<longleftrightarrow> (\<exists>a s'. m s = (Ok a, s') \<and> f a s' = (Ok b, s''))"
  by (auto simp: bind_img_def split: prod.splits outcome.splits)

lemma bind_img_run: "m s = (Ok a, s') \<Longrightarrow> bind_img m f s = f a s'"
  by (simp add: bind_img_def)

locale unit_store =
  fixes inv :: "img \<Rightarrow> bool" and in_use :: "img \<Rightarrow> nat set" and units :: "nat set"
    and take_unit :: "img \<Rightarrow> (alloc_error, nat) outcome \<times> img"
    and give_unit :: "nat \<Rightarrow> img \<Rightarrow> (alloc_error, unit) outcome \<times> img"
  assumes take_cases: "inv s \<Longrightarrow>
      (\<exists>n s'. take_unit s = (Ok n, s') \<and> n \<in> units \<and> n \<notin> in_use s \<and> in_use s' = insert n (in_use s) \<and>
         inv s' \<and> give_unit n s' = (Ok (), s)) \<or>
      take_unit s = (Err Full, s) \<and> units \<subseteq> in_use s"
begin

lemma take_Ok:
  assumes "inv s" "take_unit s = (Ok n, s')"
  shows "n \<in> units" "n \<notin> in_use s" "in_use s' = insert n (in_use s)" "inv s'" "give_unit n s' = (Ok (), s)"
  using take_cases [OF assms(1)] assms(2) by auto

lemma take_many_Ok:
  "inv s \<Longrightarrow> take_many take_unit n s = (Ok us, s') \<Longrightarrow>
     inv s' \<and> length us = n \<and> distinct us \<and> set us \<subseteq> units \<and> set us \<inter> in_use s = {} \<and> in_use s' = in_use s \<union> set us \<and>
     give_many give_unit us s' = (Ok (), s)"
proof (induction n arbitrary: s us)
  case 0
  then show ?case by (simp add: return_img_def)
next
  case (Suc n)
  from Suc.prems(2) obtain u s1 us1 where t: "take_unit s = (Ok u, s1)" "take_many take_unit n s1 = (Ok us1, s')" "us = u # us1"
    by (auto simp: bind_img_Ok return_img_def)
  note one = take_Ok [OF Suc.prems(1) t(1)]
  note ih = Suc.IH [OF one(4) t(2)]
  have "give_many give_unit us s' = (Ok (), s)"
    unfolding t(3) using ih one(5) by (simp add: bind_img_run)
  then show ?case using ih one t(3) by auto
qed

lemma take_many_total:
  "inv s \<Longrightarrow> (\<exists>us s'. take_many take_unit n s = (Ok us, s')) \<or> (\<exists>s'. take_many take_unit n s = (Err Full, s') \<and> units \<subseteq> in_use s')"
proof (induction n arbitrary: s)
  case 0
  then show ?case by (simp add: return_img_def)
next
  case (Suc n)
  from take_cases [OF Suc.prems] show ?case
  proof (elim disjE exE conjE)
    fix u s1 assume t: "take_unit s = (Ok u, s1)" "inv s1"
    from Suc.IH [OF t(2)] show ?thesis
      by (auto simp: t(1) bind_img_def return_img_def)
  next
    assume "take_unit s = (Err Full, s)" "units \<subseteq> in_use s"
    then show ?thesis by (auto simp: bind_img_def)
  qed
qed

end

subsection \<open>Blocks and inodes are such stores\<close>

definition consistent :: "layout \<Rightarrow> img \<Rightarrow> bool" where
  "consistent l s \<longleftrightarrow> volume l s \<and> counted l 0 s \<and> counted l 4 s"

definition blocks_in_use :: "layout \<Rightarrow> img \<Rightarrow> nat set" where
  "blocks_in_use l s = {b. l_first_data_block l \<le> b \<and> b < l_blocks_count l \<and>
     unit_used l 0 ((b - l_first_data_block l) div l_blocks_per_group l) ((b - l_first_data_block l) mod l_blocks_per_group l) s}"

definition inodes_in_use :: "layout \<Rightarrow> img \<Rightarrow> nat set" where
  "inodes_in_use l s = {ino. 1 \<le> ino \<and> ino \<le> l_inodes_count l \<and>
     unit_used l 4 ((ino - 1) div l_inodes_per_group l) ((ino - 1) mod l_inodes_per_group l) s}"

lemma block_coordinates:
  assumes "layout_wf l" "l_first_data_block l \<le> b" "b < l_blocks_count l"
  defines "g \<equiv> (b - l_first_data_block l) div l_blocks_per_group l" and "i \<equiv> (b - l_first_data_block l) mod l_blocks_per_group l"
  shows "g < l_group_count l" "i < group_span l 0 g" "b = l_first_data_block l + g * l_blocks_per_group l + i"
proof -
  have bpg: "0 < l_blocks_per_group l" using assms(1) by (simp add: layout_wf_def)
  have e: "b - l_first_data_block l = g * l_blocks_per_group l + i" by (simp add: g_def i_def)
  then show b: "b = l_first_data_block l + g * l_blocks_per_group l + i" using assms(2) by linarith
  have i: "i < l_blocks_per_group l" using bpg by (simp add: i_def)
  then show "i < group_span l 0 g" using b assms(3) by (simp add: group_span_def)
  show "g < l_group_count l"
  proof (rule ccontr)
    assume "\<not> g < l_group_count l"
    then have "l_group_count l * l_blocks_per_group l \<le> g * l_blocks_per_group l" by simp
    moreover have "l_blocks_count l - l_first_data_block l \<le> l_group_count l * l_blocks_per_group l"
      using div_ceil_mult_ge [OF bpg, of "l_blocks_count l - l_first_data_block l"] assms(1) by (simp add: layout_wf_def)
    ultimately show False using b assms(3) by linarith
  qed
qed

lemma inode_coordinates:
  assumes "layout_wf l" "1 \<le> ino" "ino \<le> l_inodes_count l"
  defines "g \<equiv> (ino - 1) div l_inodes_per_group l" and "i \<equiv> (ino - 1) mod l_inodes_per_group l"
  shows "g < l_group_count l" "i < group_span l 4 g" "ino = g * l_inodes_per_group l + 1 + i"
proof -
  have ipg: "0 < l_inodes_per_group l" using assms(1) by (simp add: layout_wf_def)
  have e: "ino - 1 = g * l_inodes_per_group l + i" by (simp add: g_def i_def)
  then show "ino = g * l_inodes_per_group l + 1 + i" using assms(2) by linarith
  show "i < group_span l 4 g" using ipg by (simp add: group_span_def i_def)
  have "ino - 1 < l_group_count l * l_inodes_per_group l" using assms by (auto simp: layout_wf_def)
  then show "g < l_group_count l" by (simp add: g_def less_mult_imp_div_less)
qed

lemma block_back:
  assumes "i < group_span l 0 g"
  shows "(l_first_data_block l + g * l_blocks_per_group l + i - l_first_data_block l) div l_blocks_per_group l = g"
    "(l_first_data_block l + g * l_blocks_per_group l + i - l_first_data_block l) mod l_blocks_per_group l = i"
    "l_first_data_block l + g * l_blocks_per_group l + i < l_blocks_count l"
  using assms by (auto simp: group_span_def)

lemma block_numbers_unique:
  assumes "g * n + i = h * n + j" "i < n" "j < n"
  shows "g = h \<and> i = (j :: nat)"
proof -
  have "(g * n + i) div n = g" "(g * n + i) mod n = i" "(h * n + j) div n = h" "(h * n + j) mod n = j"
    using assms(2,3) by simp_all
  with assms(1) show ?thesis by metis
qed


lemma taken_in_use:
  assumes v: "volume l s" and t: "takeable l 0 g i s"
  shows "blocks_in_use l (taken l 0 g i s) = insert (l_first_data_block l + g * l_blocks_per_group l + i) (blocks_in_use l s)"
    "inodes_in_use l (taken l 0 g i s) = inodes_in_use l s"
proof -
  note wf = volumeD(1) [OF v]
  have gi: "g < l_group_count l" "i < group_span l 0 g" using t by (auto simp: takeable_def)
  have u: "unit_used l k ((b - d) div units_per_group l k) ((b - d) mod units_per_group l k) (taken l 0 g i s) =
     (unit_used l k ((b - d) div units_per_group l k) ((b - d) mod units_per_group l k) s \<or>
       k = 0 \<and> (b - d) div units_per_group l k = g \<and> (b - d) mod units_per_group l k = i)"
    if "k \<in> {0, 4}" "(b - d) div units_per_group l k < l_group_count l" for k b d
    using taken_facts(3) [OF v _ t that(2,1), of "(b - d) mod units_per_group l k"] wf that(1)
    by (auto simp: units_per_group_def layout_wf_def)
  show "inodes_in_use l (taken l 0 g i s) = inodes_in_use l s"
    using u [of 4 _ 1] inode_coordinates(1) [OF wf] by (auto simp: inodes_in_use_def units_per_group_def)
  let ?n = "l_first_data_block l + g * l_blocks_per_group l + i"
  have eq: "b = ?n \<longleftrightarrow>
     (b - l_first_data_block l) div l_blocks_per_group l = g \<and> (b - l_first_data_block l) mod l_blocks_per_group l = i"
    if "l_first_data_block l \<le> b" "b < l_blocks_count l" for b
    using block_coordinates(3) [OF wf that] block_back(1,2) [OF gi(2)] by metis
  show "blocks_in_use l (taken l 0 g i s) = insert ?n (blocks_in_use l s)"
  proof (rule set_eqI)
    fix b
    show "b \<in> blocks_in_use l (taken l 0 g i s) \<longleftrightarrow> b \<in> insert ?n (blocks_in_use l s)"
    proof (cases "l_first_data_block l \<le> b \<and> b < l_blocks_count l")
      case True
      then show ?thesis
        using u [of 0 b "l_first_data_block l"] block_coordinates(1) [OF wf, of b] eq [of b]
        by (simp add: blocks_in_use_def units_per_group_def disj_commute)
    next
      case False
      then have "b \<noteq> ?n" using block_back(3) [OF gi(2)] by auto
      with False show ?thesis by (auto simp: blocks_in_use_def)
    qed
  qed
qed

lemma taken_consistent:
  assumes "consistent l s" "k \<in> {0, 4}" "takeable l k g i s"
  shows "consistent l (taken l k g i s)"
proof -
  have v: "volume l s" and c: "counted l 0 s" "counted l 4 s" using assms(1) by (auto simp: consistent_def)
  show ?thesis
    using taken_facts(1) [OF v assms(2,3)] taken_counted [OF v assms(2) _ c(1) assms(3)]
      taken_counted [OF v assms(2) _ c(2) assms(3)] by (simp add: consistent_def)
qed

lemma free_after_take:
  assumes c: "consistent l s" and k: "k \<in> {0, 4}" and t: "takeable l k g i s"
  shows "unit_used l k g i (taken l k g i s)" "group_free l k g (taken l k g i s) + 1 < 65536"
    "super_free k (taken l k g i s) + 1 < u32_limit"
proof -
  have v: "volume l s" and cnt: "counted l k s" using c k by (auto simp: consistent_def)
  have gi: "g < l_group_count l" "i < units_per_group l k"
    using t group_span_le [of l k g] by (auto simp: takeable_def)
  show "unit_used l k g i (taken l k g i s)" using taken_facts(3) [OF v k t gi(1) k gi(2)] by simp
  show "group_free l k g (taken l k g i s) + 1 < 65536"
    using taken_facts(5) [OF v k t gi(1) k] group_free_bound [of l k g s] counted_positive(1) [OF cnt t] by simp
  show "super_free k (taken l k g i s) + 1 < u32_limit"
    using taken_facts(4) [OF v k t k] super_free_bound [of k s] counted_positive(2) [OF cnt t] by simp
qed

interpretation blocks: unit_store "consistent l" "blocks_in_use l" "{l_first_data_block l..<l_blocks_count l}"
    "allocate_block l" "free_block l" for l
proof
  fix s assume c: "consistent l s"
  then have v: "volume l s" and cnt: "counted l 0 s" by (auto simp: consistent_def)
  let ?n = "\<lambda>g i. l_first_data_block l + g * l_blocks_per_group l + i"
  from allocate_block_from_cases [OF v cnt, of 0 "l_group_count l"]
  consider g i where "takeable l 0 g i s" "allocate_block l s = (Ok (?n g i), taken l 0 g i s)"
    | "allocate_block l s = (Err Full, s)" "\<And>g i. \<not> takeable l 0 g i s"
    unfolding allocate_block_def by auto
  then show "(\<exists>n s'. allocate_block l s = (Ok n, s') \<and> n \<in> {l_first_data_block l..<l_blocks_count l} \<and> n \<notin> blocks_in_use l s \<and>
      blocks_in_use l s' = insert n (blocks_in_use l s) \<and> consistent l s' \<and> free_block l n s' = (Ok (), s)) \<or>
    allocate_block l s = (Err Full, s) \<and> {l_first_data_block l..<l_blocks_count l} \<subseteq> blocks_in_use l s"
  proof cases
    case 1
    have gi: "g < l_group_count l" "i < group_span l 0 g" "\<not> unit_used l 0 g i s" using 1(1) by (auto simp: takeable_def)
    have "free_block l (?n g i) (taken l 0 g i s) = (Ok (), released l 0 g i (taken l 0 g i s))"
      by (rule free_block_released [OF _ gi(1,2)])
        (use taken_facts(1) [OF v _ 1(1)] free_after_take [OF c _ 1(1)] in auto)
    then have "free_block l (?n g i) (taken l 0 g i s) = (Ok (), s)" using released_taken [OF v _ cnt 1(1)] by simp
    moreover have "?n g i \<notin> blocks_in_use l s" using gi block_back [OF gi(2)] by (simp add: blocks_in_use_def)
    moreover have "consistent l (taken l 0 g i s)" by (rule taken_consistent [OF c _ 1(1)]) simp
    ultimately show ?thesis using 1(2) taken_in_use(1) [OF v 1(1)] block_back(3) [OF gi(2)] by auto
  next
    case 2
    have "b \<in> blocks_in_use l s" if "l_first_data_block l \<le> b" "b < l_blocks_count l" for b
      using block_coordinates(1,2) [OF volumeD(1) [OF v] that] 2(2) that by (auto simp: takeable_def blocks_in_use_def)
    then show ?thesis using 2(1) by auto
  qed
qed


lemma taken_inodes_in_use:
  assumes v: "volume l s" and t: "takeable l 4 g i s"
  shows "inodes_in_use l (taken l 4 g i s) = insert (g * l_inodes_per_group l + 1 + i) (inodes_in_use l s)"
    "blocks_in_use l (taken l 4 g i s) = blocks_in_use l s"
proof -
  note wf = volumeD(1) [OF v]
  have gi: "g < l_group_count l" "i < l_inodes_per_group l" using t by (auto simp: takeable_def group_span_def)
  have u: "unit_used l k ((b - d) div units_per_group l k) ((b - d) mod units_per_group l k) (taken l 4 g i s) =
     (unit_used l k ((b - d) div units_per_group l k) ((b - d) mod units_per_group l k) s \<or>
       k = 4 \<and> (b - d) div units_per_group l k = g \<and> (b - d) mod units_per_group l k = i)"
    if "k \<in> {0, 4}" "(b - d) div units_per_group l k < l_group_count l" for k b d
    using taken_facts(3) [OF v _ t that(2,1), of "(b - d) mod units_per_group l k"] wf that(1)
    by (auto simp: units_per_group_def layout_wf_def)
  show "blocks_in_use l (taken l 4 g i s) = blocks_in_use l s"
    using u [of 0 _ "l_first_data_block l"] block_coordinates(1) [OF wf] by (auto simp: blocks_in_use_def units_per_group_def)
  let ?n = "g * l_inodes_per_group l + 1 + i"
  have n: "(?n - 1) div l_inodes_per_group l = g" "(?n - 1) mod l_inodes_per_group l = i" "?n \<le> l_inodes_count l"
  proof -
    show "(?n - 1) div l_inodes_per_group l = g" "(?n - 1) mod l_inodes_per_group l = i" using gi(2) by simp_all
    have "Suc g * l_inodes_per_group l \<le> l_group_count l * l_inodes_per_group l" using gi(1) by (intro mult_le_mono1) simp
    then show "?n \<le> l_inodes_count l" using wf gi(2) by (simp add: layout_wf_def)
  qed
  have eq: "ino = ?n \<longleftrightarrow> (ino - 1) div l_inodes_per_group l = g \<and> (ino - 1) mod l_inodes_per_group l = i"
    if "1 \<le> ino" "ino \<le> l_inodes_count l" for ino
    using inode_coordinates(3) [OF wf that] n(1,2) by metis
  show "inodes_in_use l (taken l 4 g i s) = insert ?n (inodes_in_use l s)"
  proof (rule set_eqI)
    fix ino
    show "ino \<in> inodes_in_use l (taken l 4 g i s) \<longleftrightarrow> ino \<in> insert ?n (inodes_in_use l s)"
    proof (cases "1 \<le> ino \<and> ino \<le> l_inodes_count l")
      case True
      then show ?thesis
        using u [of 4 ino 1] inode_coordinates(1) [OF wf, of ino] eq [of ino]
        by (simp add: inodes_in_use_def units_per_group_def disj_commute)
    next
      case False
      then have "ino \<noteq> ?n" using n(3) by auto
      with False show ?thesis by (auto simp: inodes_in_use_def)
    qed
  qed
qed

interpretation inodes: unit_store "consistent l" "inodes_in_use l" "{ino. 1 \<le> ino \<and> l_first_inode l \<le> ino \<and> ino \<le> l_inodes_count l}"
    "allocate_inode l" "free_inode l" for l
proof
  fix s assume c: "consistent l s"
  then have v: "volume l s" and cnt: "counted l 4 s" by (auto simp: consistent_def)
  note wf = volumeD(1) [OF v]
  let ?n = "\<lambda>g i. g * l_inodes_per_group l + 1 + i"
  let ?units = "{ino. 1 \<le> ino \<and> l_first_inode l \<le> ino \<and> ino \<le> l_inodes_count l}"
  from allocate_inode_from_cases [OF v cnt, of 0 "l_group_count l"]
  consider g i where "takeable l 4 g i s" "l_first_inode l \<le> ?n g i" "allocate_inode l s = (Ok (?n g i), taken l 4 g i s)"
    | "allocate_inode l s = (Err Full, s)" "\<And>g i. takeable l 4 g i s \<Longrightarrow> \<not> l_first_inode l \<le> ?n g i"
    unfolding allocate_inode_def by auto
  then show "(\<exists>n s'. allocate_inode l s = (Ok n, s') \<and> n \<in> ?units \<and> n \<notin> inodes_in_use l s \<and>
      inodes_in_use l s' = insert n (inodes_in_use l s) \<and> consistent l s' \<and> free_inode l n s' = (Ok (), s)) \<or>
    allocate_inode l s = (Err Full, s) \<and> ?units \<subseteq> inodes_in_use l s"
  proof cases
    case 1
    have gi: "g < l_group_count l" "i < l_inodes_per_group l" "\<not> unit_used l 4 g i s"
      using 1(1) by (auto simp: takeable_def group_span_def)
    have "free_inode l (?n g i) (taken l 4 g i s) = (Ok (), released l 4 g i (taken l 4 g i s))"
      by (rule free_inode_released [OF _ gi(1,2)])
        (use taken_facts(1) [OF v _ 1(1)] free_after_take [OF c _ 1(1)] in auto)
    then have "free_inode l (?n g i) (taken l 4 g i s) = (Ok (), s)" using released_taken [OF v _ cnt 1(1)] by simp
    moreover have "?n g i \<notin> inodes_in_use l s" using gi by (simp add: inodes_in_use_def)
    moreover have "consistent l (taken l 4 g i s)" by (rule taken_consistent [OF c _ 1(1)]) simp
    moreover have "?n g i \<le> l_inodes_count l"
      using inode_group_span(1) [OF wf gi(1)] gi(2) by (simp add: group_span_def)
    ultimately show ?thesis using 1(2,3) taken_inodes_in_use(1) [OF v 1(1)] by auto
  next
    case 2
    have "ino \<in> inodes_in_use l s" if ino: "1 \<le> ino" "ino \<le> l_inodes_count l" "l_first_inode l \<le> ino" for ino
    proof -
      note co = inode_coordinates [OF wf ino(1,2)]
      have "\<not> takeable l 4 ((ino - 1) div l_inodes_per_group l) ((ino - 1) mod l_inodes_per_group l) s"
        using 2(2) co(3) ino(3) by metis
      then show ?thesis using co(1,2) ino by (simp add: takeable_def inodes_in_use_def)
    qed
    then show ?thesis using 2(1) by auto
  qed
qed

subsection \<open>Properties\<close>

definition sample_layout :: layout where
  "sample_layout = \<lparr>l_block_size = 1024, l_blocks_count = 9, l_first_data_block = 1, l_blocks_per_group = 8, l_group_count = 1,
     l_inodes_per_group = 8, l_inode_size = 128, l_inodes_count = 8, l_want_extra_isize = 0, l_first_inode = 3\<rparr>"

text \<open>A volume of nine blocks as \<open>mke2fs\<close> would lay it out: the superblock at 1024, one descriptor at 2048
  naming block 3 as the block bitmap, block 4 as the inode bitmap and block 5 as the inode table, the
  root directory (inode 2) in block 6; blocks 7 and 8 and six inodes are free.\<close>

definition sample_volume :: img where
  "sample_volume =
     replicate 1024 0 @ [8, 0, 0, 0, 9, 0, 0, 0, 0, 0, 0, 0, 2, 0, 0, 0, 6, 0, 0, 0, 1, 0, 0, 0, 0, 0, 0, 0] @
     replicate 4 0 @ [8, 0, 0, 0, 0, 0, 0, 0, 8, 0, 0, 0] @ replicate 12 0 @ [83, 239] @ replicate 18 0 @
     [1, 0, 0, 0, 0, 0, 0, 0, 3, 0, 0, 0, 128, 0] @ replicate 6 0 @ [2, 0, 0, 0] @ replicate 924 0 @
     [3, 0, 0, 0, 4, 0, 0, 0, 5, 0, 0, 0, 2, 0, 6, 0, 1, 0] @ replicate 1006 0 @
     [63] @ replicate 1023 0 @ [3] @ replicate 1151 0 @
     [237, 65, 0, 0, 0, 4, 0, 0] @ replicate 18 0 @ [2, 0] @ replicate 12 0 @ [6, 0, 0, 0] @ replicate 852 0 @
     [2, 0, 0, 0, 12, 0, 1, 2, 46, 0, 0, 0, 2, 0, 0, 0, 244, 3, 2, 2, 46, 46, 0, 0] @ replicate 3048 0"

lemma card_below: "card {i. i < n \<and> P i} = length (filter P [0..<n])"
proof -
  have "{i. i < n \<and> P i} = set (filter P [0..<n])" by auto
  then show ?thesis using distinct_card [of "filter P [0..<n]"] by simp
qed

lemma sample_slices:
  "length sample_volume = 9216"
  "subslice 1036 4 sample_volume = [2, 0, 0, 0]" "subslice 1040 4 sample_volume = [6, 0, 0, 0]"
  "subslice 2048 4 sample_volume = [3, 0, 0, 0]" "subslice 2052 4 sample_volume = [4, 0, 0, 0]"
  "subslice 2056 4 sample_volume = [5, 0, 0, 0]"
  "subslice 2060 2 sample_volume = [2, 0]" "subslice 2062 2 sample_volume = [6, 0]"
  "sample_volume ! 3072 = 63" "sample_volume ! 4096 = 3"
  by (simp_all add: sample_volume_def subslice_def nth_append)

lemma sample_consistent: "consistent sample_layout sample_volume"
proof -
  have pos: "map_pos sample_layout 0 0 sample_volume = 3072" "map_pos sample_layout 4 0 sample_volume = 4096"
    by (simp_all add: map_pos_def desc_field_def desc_pos_def table_pos_def sample_layout_def sample_slices)
  have g: "l_group_count sample_layout = 1" "table_pos sample_layout = 2048" "map_len sample_layout 0 = 1" "map_len sample_layout 4 = 1"
    by (simp_all add: sample_layout_def table_pos_def map_len_def units_per_group_def)
  have wf: "layout_wf sample_layout" by (simp add: layout_wf_def sample_layout_def div_ceil_def)
  have v: "volume sample_layout sample_volume"
    unfolding volume_def map_ok_def g
    by (simp add: wf sample_slices(1) pos g apart_def)
  have used: "unit_used sample_layout 0 0 i sample_volume = bit (63 :: u8) i" "unit_used sample_layout 4 0 i sample_volume = bit (3 :: u8) i"
    if "i < 8" for i
    using that by (simp_all add: unit_used_def pos sample_slices)
  have c0: "{i. i < group_span sample_layout 0 0 \<and> \<not> unit_used sample_layout 0 0 i sample_volume} = {i. i < 8 \<and> \<not> bit (63 :: u8) i}"
    and c4: "{i. i < group_span sample_layout 4 0 \<and> \<not> unit_used sample_layout 4 0 i sample_volume} = {i. i < 8 \<and> \<not> bit (3 :: u8) i}"
    using used by (auto simp: group_span_def sample_layout_def)
  have "counted sample_layout 0 sample_volume"
    unfolding counted_def g
    by (simp add: c0 card_below upt_rec group_free_def super_free_def desc_pos_def g group_counter_def super_counter_def sample_slices)
  moreover have "counted sample_layout 4 sample_volume"
    unfolding counted_def g
    by (simp add: c4 card_below upt_rec group_free_def super_free_def desc_pos_def g group_counter_def super_counter_def sample_slices)
  ultimately show ?thesis using v by (simp add: consistent_def)
qed

text \<open>The reader accepts the sample, with the layout above.\<close>

lemma sample_super:
  "subslice 1024 104 sample_volume = [8, 0, 0, 0, 9, 0, 0, 0, 0, 0, 0, 0, 2, 0, 0, 0, 6, 0, 0, 0, 1, 0, 0, 0, 0, 0, 0, 0] @
     replicate 4 0 @ [8, 0, 0, 0, 0, 0, 0, 0, 8, 0, 0, 0] @ replicate 12 0 @ [83, 239] @ replicate 18 0 @
     [1, 0, 0, 0, 0, 0, 0, 0, 3, 0, 0, 0, 128, 0] @ replicate 6 0 @ [2, 0, 0, 0] @ replicate 4 0"
  by (simp add: sample_volume_def subslice_def)

lemma sample_volume_parses:
  "\<exists>fs. ext2_parse sample_volume = Ok fs \<and> fs_image fs = sample_volume \<and> fs_block_size fs = 1024 \<and> fs_blocks_count fs = 9 \<and>
     ext2_layout fs = sample_layout"
proof -
  have ex: "subslice 1374 2 sample_volume = replicate 2 0" by (simp add: sample_volume_def subslice_def)
  show ?thesis
  by (simp add: ext2_parse_def sample_slices(1) ext2_constants sample_super declared_extra_isize_def ex
    ext2_read_u16_def ext2_read_u32_def read_le_def Let_def subslice_def [of _ _ "_ @ _"] subslice_def [of _ _ "_ # _"]
        INCOMPAT_SUPPORTED_def INCOMPAT_FILETYPE_def is_power_of_two_def div_ceil_def group_table_start_def ext2_layout_def
        sample_layout_def)
qed
text \<open>C21: on a volume whose counters agree with its bitmaps, \<open>allocate_block\<close> returns a block that was
  free, marks that one and no other, and leaves the volume with counters that agree again; it refuses
  with \<open>Full\<close> only when every block is in use, and then it has written nothing.\<close>

theorem allocate_block_takes_one_free_block:
  assumes "consistent l s"
  shows "case allocate_block l s of
      (Ok b, s') \<Rightarrow> l_first_data_block l \<le> b \<and> b < l_blocks_count l \<and> b \<notin> blocks_in_use l s \<and>
        blocks_in_use l s' = insert b (blocks_in_use l s) \<and> consistent l s'
    | (Err e, s') \<Rightarrow> e = Full \<and> s' = s \<and> blocks_in_use l s = {l_first_data_block l..<l_blocks_count l}
    | (Panic, s') \<Rightarrow> False"
  using blocks.take_cases [OF assms]
proof (elim disjE exE conjE)
  fix b s'
  assume "allocate_block l s = (Ok b, s')" "b \<in> {l_first_data_block l..<l_blocks_count l}" "b \<notin> blocks_in_use l s"
    "blocks_in_use l s' = insert b (blocks_in_use l s)" "consistent l s'"
  then show ?thesis by simp
next
  have "blocks_in_use l s \<subseteq> {l_first_data_block l..<l_blocks_count l}" by (auto simp: blocks_in_use_def)
  moreover assume "allocate_block l s = (Err Full, s)" "{l_first_data_block l..<l_blocks_count l} \<subseteq> blocks_in_use l s"
  ultimately show ?thesis by simp
qed

theorem allocate_block_takes_one_free_block_witness:
  "\<exists>b s'. allocate_block sample_layout sample_volume = (Ok b, s') \<and> b \<notin> blocks_in_use sample_layout sample_volume \<and>
     blocks_in_use sample_layout s' = insert b (blocks_in_use sample_layout sample_volume)"
proof -
  have "8 \<notin> blocks_in_use sample_layout sample_volume"
    by (simp add: blocks_in_use_def unit_used_def map_pos_def desc_field_def desc_pos_def table_pos_def sample_layout_def sample_slices)
  moreover have "(8 :: nat) \<in> {l_first_data_block sample_layout..<l_blocks_count sample_layout}" by (simp add: sample_layout_def)
  ultimately show ?thesis
    using allocate_block_takes_one_free_block [OF sample_consistent] by (auto split: prod.splits outcome.splits)
qed


text \<open>C22: blocks taken one after the other are distinct and none was in use; returned in the opposite
  order they leave the image exactly as it was, byte for byte. The same holds of inodes.\<close>

theorem taken_units_are_distinct_and_returned:
  assumes "consistent l s"
  shows "(case take_many (allocate_block l) n s of
      (Ok bs, s') \<Rightarrow> length bs = n \<and> distinct bs \<and> set bs \<inter> blocks_in_use l s = {} \<and> consistent l s' \<and>
        give_many (free_block l) bs s' = (Ok (), s)
    | (Err e, s') \<Rightarrow> e = Full \<and> {l_first_data_block l..<l_blocks_count l} \<subseteq> blocks_in_use l s'
    | (Panic, s') \<Rightarrow> False) \<and>
   (case take_many (allocate_inode l) n s of
      (Ok is, s') \<Rightarrow> length is = n \<and> distinct is \<and> set is \<inter> inodes_in_use l s = {} \<and>
        list_all (\<lambda>ino. l_first_inode l \<le> ino \<and> ino \<le> l_inodes_count l) is \<and> consistent l s' \<and>
        give_many (free_inode l) is s' = (Ok (), s)
    | (Err e, s') \<Rightarrow> e = Full
    | (Panic, s') \<Rightarrow> False)"
proof (rule conjI)
  from blocks.take_many_total [OF assms, of n]
  show "case take_many (allocate_block l) n s of
      (Ok bs, s') \<Rightarrow> length bs = n \<and> distinct bs \<and> set bs \<inter> blocks_in_use l s = {} \<and> consistent l s' \<and>
        give_many (free_block l) bs s' = (Ok (), s)
    | (Err e, s') \<Rightarrow> e = Full \<and> {l_first_data_block l..<l_blocks_count l} \<subseteq> blocks_in_use l s'
    | (Panic, s') \<Rightarrow> False"
    using blocks.take_many_Ok [OF assms, of n] by (elim disjE exE conjE) simp_all
  from inodes.take_many_total [OF assms, of n]
  show "case take_many (allocate_inode l) n s of
      (Ok is, s') \<Rightarrow> length is = n \<and> distinct is \<and> set is \<inter> inodes_in_use l s = {} \<and>
        list_all (\<lambda>ino. l_first_inode l \<le> ino \<and> ino \<le> l_inodes_count l) is \<and> consistent l s' \<and>
        give_many (free_inode l) is s' = (Ok (), s)
    | (Err e, s') \<Rightarrow> e = Full
    | (Panic, s') \<Rightarrow> False"
  proof (elim disjE exE conjE)
    fix "is" s' assume t: "take_many (allocate_inode l) n s = (Ok is, s')"
    note ok = inodes.take_many_Ok [OF assms t]
    then have "list_all (\<lambda>ino. l_first_inode l \<le> ino \<and> ino \<le> l_inodes_count l) is" by (auto simp: list_all_iff)
    then show ?thesis using ok t by simp
  qed simp
qed

theorem taken_units_are_distinct_and_returned_witness:
  "\<exists>e s' e' s''. take_many (allocate_block sample_layout) 4 sample_volume = (e, s') \<and> e \<noteq> Panic \<and>
     take_many (allocate_inode sample_layout) 2 sample_volume = (e', s'') \<and> e' \<noteq> Panic"
  using taken_units_are_distinct_and_returned [OF sample_consistent, of 4]
    taken_units_are_distinct_and_returned [OF sample_consistent, of 2]
  by (cases "take_many (allocate_block sample_layout) 4 sample_volume", cases "take_many (allocate_inode sample_layout) 2 sample_volume")
    (auto split: outcome.splits)

subsection \<open>What a refusal leaves behind\<close>

text \<open>A group whose counter says that nothing is free while its bitmap has a clear bit: taking a block
  refuses and writes nothing, taking an inode refuses with the bit already set.\<close>

lemma take_refused:
  assumes "accounts byte (d + group_counter k) (super_counter k) s" "k \<in> {0, 4}"
    "le_nat (subslice (d + group_counter k) 2 s) = 0"
  shows "k = 0 \<Longrightarrow> take_block d byte m s = (Err FreeCountInconsistent, s)"
    "k = 4 \<Longrightarrow> take_inode d byte m s = (Err FreeCountInconsistent, overwrite byte [s ! byte OR m] s)"
proof -
  show "take_block d byte m s = (Err FreeCountInconsistent, s)" if "k = 0"
    using assms that
    by (simp add: take_block_def img_simps ext2_offsets checked_minus_one_def ext2_read_u16_def read_le_def
        accounts_def group_counter_def)
  show "take_inode d byte m s = (Err FreeCountInconsistent, overwrite byte [s ! byte OR m] s)" if "k = 4"
  proof -
    have "subslice (d + 14) 2 (overwrite byte [b] s) = subslice (d + 14) 2 s" for b
      by (rule subslice_overwrite_apart) (use assms(1) that in \<open>auto simp: accounts_def group_counter_def apart_def\<close>)
    then show ?thesis using assms that
      by (simp add: take_inode_def img_simps ext2_offsets checked_minus_one_def ext2_read_u16_def read_le_def get_u8_def
          accounts_def group_counter_def)
  qed
qed

text \<open>A superblock that names \<open>2 ^ 32 - 1\<close> inodes is accepted by the reader; taking an inode then panics on
  the sum \<open>inodes_count + 1\<close>.\<close>

lemma allocate_inode_overflow:
  assumes "l_inodes_count l = u32_limit - 1" "l_group_count l = Suc n" "group_at l AllocImageTooSmall 0 s = Ok d" "d + 8 \<le> length s"
  shows "allocate_inode l s = (Panic, s)"
  using assms
  by (simp add: allocate_inode_def img_simps ext2_read_u32_def read_le_def Let_def)

text \<open>A new directory for which no block is left: the inode it took stays in use, and nothing names it.\<close>

lemma create_directory_leaks_inode:
  assumes "find_room l parent name s = Ok previous" "consistent l s"
    "allocate_inode l s = (Ok ino, s1)" "allocate_block l s1 = (Err e, s2)"
  shows "create_directory l parent name s = (Err e, s1)" "inodes_in_use l s1 = insert ino (inodes_in_use l s)" "ino \<notin> inodes_in_use l s"
proof -
  note t = inodes.take_Ok [OF assms(2,3)]
  show "inodes_in_use l s1 = insert ino (inodes_in_use l s)" "ino \<notin> inodes_in_use l s" using t by auto
  have "s2 = s1" using blocks.take_cases [OF t(4)] assms(4) by auto
  then show "create_directory l parent name s = (Err e, s1)"
    using assms by (simp add: create_directory_def bind_img_def reading_def)
qed

end
