(* ===== verification/Ext2_Dirent.thy ===== *)
theory Ext2_Dirent
  imports Ext2_Account
begin

unbundle bit_operations_syntax

text \<open>
  Directory blocks as lists of records: what inserting and removing a record does to the list, that the
  two undo each other, and what the writer's scan finds.
\<close>

subsection \<open>The entries of a block\<close>

text \<open>One record of a directory block: its position, inode, length, name and type.\<close>

record dirent =
  de_pos :: nat
  de_ino :: nat
  de_len :: nat
  de_name :: "u8 list"
  de_type :: u8

definition dirent_at :: "img \<Rightarrow> nat \<Rightarrow> dirent" where
  "dirent_at s p = \<lparr>de_pos = p, de_ino = le_nat (subslice p 4 s), de_len = le_nat (subslice (p + 4) 2 s),
     de_name = subslice (p + 8) (unat (s ! (p + 6))) s, de_type = s ! (p + 7)\<rparr>"

definition record_ok :: "img \<Rightarrow> nat \<Rightarrow> nat \<Rightarrow> bool" where
  "record_ok s fin p \<longleftrightarrow> (let n = le_nat (subslice (p + 4) 2 s) in
     n mod 4 = 0 \<and> 8 + unat (s ! (p + 6)) \<le> n \<and> p + n \<le> fin)"

text \<open>The records from \<open>p\<close> to \<open>fin\<close>, when every one is sound and the last one ends less than a
  header before \<open>fin\<close>.\<close>

function dirents :: "img \<Rightarrow> nat \<Rightarrow> nat \<Rightarrow> dirent list option" where
  "dirents s fin p =
     (if fin < p + 8 then Some []
      else if \<not> record_ok s fin p then None
      else map_option ((#) (dirent_at s p)) (dirents s fin (p + le_nat (subslice (p + 4) 2 s))))"
  by pat_completeness auto
termination
  by (relation "measure (\<lambda>(s, fin, p). fin - p)") (auto simp: record_ok_def Let_def)

declare dirents.simps [simp del]

lemma dirents_Some_Cons:
  "dirents s fin p = Some (e # es) \<longleftrightarrow>
     p + 8 \<le> fin \<and> record_ok s fin p \<and> e = dirent_at s p \<and> dirents s fin (p + de_len e) = Some es"
  by (subst dirents.simps) (auto simp: dirent_at_def not_less)

lemma dirents_Some_Nil: "dirents s fin p = Some [] \<longleftrightarrow> fin < p + 8"
  by (subst dirents.simps) auto

lemma record_ok_len:
  assumes "record_ok s fin p"
  shows "8 + unat (s ! (p + 6)) \<le> de_len (dirent_at s p)" "p + de_len (dirent_at s p) \<le> fin" "4 dvd de_len (dirent_at s p)"
    "de_len (dirent_at s p) < 65536"
proof -
  show "8 + unat (s ! (p + 6)) \<le> de_len (dirent_at s p)" "p + de_len (dirent_at s p) \<le> fin" "4 dvd de_len (dirent_at s p)"
    using assms by (auto simp: record_ok_def dirent_at_def Let_def)
  show "de_len (dirent_at s p) < 65536"
    using le_nat_bound [of "subslice (p + 4) 2 s"] length_subslice_le [of "p + 4" 2 s]
      power_increasing [of "length (subslice (p + 4) 2 s)" 2 "256::nat"] by (simp add: dirent_at_def)
qed

text \<open>The slack of a record: what its name does not need.\<close>

lemma dirent_span_props:
  "8 + n \<le> dirent_span n" "dirent_span n < 12 + n" "4 dvd dirent_span n"
  using next_multiple_of_props [of 4 "8 + n"]
  by (auto simp: dirent_span_def DIRENT_HEADER_LEN_def DIRENT_ALIGNMENT_def)

lemma dirent_span_least: "8 + n \<le> m \<Longrightarrow> 4 dvd m \<Longrightarrow> dirent_span n \<le> m"
  using next_multiple_of_least [of 4 "8 + n" m]
  by (auto simp: dirent_span_def DIRENT_HEADER_LEN_def DIRENT_ALIGNMENT_def)

text \<open>Two images with the same bytes from \<open>p\<close> to \<open>fin\<close> have the same records there.\<close>

lemma subslice_cong:
  assumes "length s = length s'" "\<And>i. p \<le> i \<Longrightarrow> i < p + n \<Longrightarrow> i < length s \<Longrightarrow> s ! i = s' ! i"
  shows "subslice p n s = subslice p n s'"
  by (rule nth_equalityI) (use assms in \<open>auto simp: subslice_def\<close>)

lemma dirent_at_cong:
  assumes "length s = length s'" "fin \<le> length s" "\<And>i. p \<le> i \<Longrightarrow> i < fin \<Longrightarrow> s ! i = s' ! i" "p + 8 \<le> fin"
  shows "le_nat (subslice (p + 4) 2 s) = le_nat (subslice (p + 4) 2 s')" "s ! (p + 6) = s' ! (p + 6)"
    "record_ok s fin p = record_ok s' fin p" "record_ok s fin p \<Longrightarrow> dirent_at s p = dirent_at s' p"
proof -
  have s4: "subslice (p + 4) 2 s = subslice (p + 4) 2 s'"
    by (rule subslice_cong) (use assms in auto)
  show n: "s ! (p + 6) = s' ! (p + 6)" using assms(3) [of "p + 6"] assms(4) by simp
  show "le_nat (subslice (p + 4) 2 s) = le_nat (subslice (p + 4) 2 s')" by (simp add: s4)
  show "record_ok s fin p = record_ok s' fin p" by (simp add: record_ok_def s4 n)
  show "dirent_at s p = dirent_at s' p" if "record_ok s fin p"
  proof -
    have "subslice p 4 s = subslice p 4 s'" by (rule subslice_cong) (use assms in auto)
    moreover have "subslice (p + 8) (unat (s ! (p + 6))) s = subslice (p + 8) (unat (s ! (p + 6))) s'"
      by (rule subslice_cong [OF assms(1)], rule assms(3)) (use record_ok_len(1,2) [OF that] in linarith)+
    moreover have "s ! (p + 7) = s' ! (p + 7)" using assms(3) [of "p + 7"] assms(4) by simp
    ultimately show ?thesis by (simp add: dirent_at_def s4 n)
  qed
qed

lemma dirents_cong:
  assumes len: "length s = length s'" "fin \<le> length s"
  shows "(\<And>i. p \<le> i \<Longrightarrow> i < fin \<Longrightarrow> s ! i = s' ! i) \<Longrightarrow> dirents s fin p = dirents s' fin p"
proof (induction "fin - p" arbitrary: p rule: less_induct)
  case less
  show ?case
  proof (cases "fin < p + 8")
    case True
    then show ?thesis by (simp add: dirents.simps)
  next
    case False
    note c = dirent_at_cong [OF len less.prems, simplified]
    show ?thesis
    proof (cases "record_ok s fin p")
      case True
      let ?q = "p + de_len (dirent_at s p)"
      have q: "p < ?q" using record_ok_len(1) [OF True] by simp
      have "dirents s fin ?q = dirents s' fin ?q"
        by (rule less.hyps) (use q False less.prems in auto)
      then show ?thesis using True False c by (simp add: dirents.simps [of s fin p] dirents.simps [of s' fin p] dirent_at_def)
    next
      case no: False
      then show ?thesis using False c by (simp add: dirents.simps [of s fin p] dirents.simps [of s' fin p])
    qed
  qed
qed


subsection \<open>Inserting and removing a record\<close>

text \<open>The bytes \<open>insert_dirent\<close> writes: the shortened length of the record before, then the new record.\<close>

definition with_dirent :: "nat \<Rightarrow> nat \<Rightarrow> nat \<Rightarrow> u8 list \<Rightarrow> nat \<Rightarrow> img \<Rightarrow> img" where
  "with_dirent p k ino name ty s =
     (let n = le_nat (subslice (p + 4) 2 s) in
      overwrite (p + k) (le_bytes 4 ino @ le_bytes 2 (n - k) @ [word_of_nat (length name), word_of_nat ty] @ name)
        (overwrite (p + 4) (le_bytes 2 k) s))"

lemma overwrite_append:
  assumes "p + length bs + length cs \<le> length s"
  shows "overwrite (p + length bs) cs (overwrite p bs s) = overwrite p (bs @ cs) s"
  by (rule nth_equalityI) (use assms in \<open>auto simp: nth_overwrite nth_append\<close>)

lemma overwrite_record:
  assumes "q + 8 + length name \<le> length s" "length bs = 4" "length cs = 2"
  shows "overwrite (q + 8) name (overwrite (q + 7) [b] (overwrite (q + 6) [a] (overwrite (q + 4) cs (overwrite q bs s)))) =
    overwrite q (bs @ cs @ [a, b] @ name) s"
  using assms overwrite_append [of q bs cs s] overwrite_append [of q "bs @ cs" "[a]" s]
    overwrite_append [of q "bs @ cs @ [a]" "[b]" s] overwrite_append [of q "bs @ cs @ [a, b]" name s]
  by simp

lemma insert_dirent_result:
  assumes "record_ok s fin p" "p + 8 \<le> fin" "fin \<le> length s" "dirent_span (length (de_name (dirent_at s p))) + dirent_span (length name) \<le> de_len (dirent_at s p)"
  shows "insert_dirent p ino name ty s = (Ok (), with_dirent p (dirent_span (unat (s ! (p + 6)))) ino name ty s)"
proof -
  note r = record_ok_len [OF assms(1)]
  have nl: "length (de_name (dirent_at s p)) = unat (s ! (p + 6))"
    using r(1,2) assms(3) by (simp add: dirent_at_def)
  let ?k = "dirent_span (unat (s ! (p + 6)))" and ?n = "le_nat (subslice (p + 4) 2 s)"
  have n: "?k + dirent_span (length name) \<le> ?n" "p + ?n \<le> fin" using assms(4) r(2) nl by (simp_all add: dirent_at_def)
  then have fits: "p + ?k + 8 + length name \<le> length s" using dirent_span_props(1) [of "length name"] assms(3) by linarith
  have k: "8 \<le> ?k" using dirent_span_props(1) [of "unat (s ! (p + 6))"] by linarith
  have "with_dirent p ?k ino name ty s =
      overwrite (p + ?k + 8) name (overwrite (p + ?k + 7) [word_of_nat ty] (overwrite (p + ?k + 6) [word_of_nat (length name)]
        (overwrite (p + ?k + 4) (le_bytes 2 (?n - ?k)) (overwrite (p + ?k) (le_bytes 4 ino) (overwrite (p + 4) (le_bytes 2 ?k) s)))))"
    unfolding with_dirent_def Let_def using fits k by (subst overwrite_record) simp_all
  then show ?thesis
    using n fits k
    by (simp add: insert_dirent_def img_simps get_u8_def ext2_read_u16_def read_le_def Let_def DIRENT_HEADER_LEN_def)
qed

lemma record_same:
  assumes "record_ok s fin q" "q + 8 \<le> fin" "fin \<le> length s" "length s' = length s"
    "\<And>i. q \<le> i \<Longrightarrow> i < q + de_len (dirent_at s q) \<Longrightarrow> s ! i = s' ! i"
  shows "record_ok s' fin q" "dirent_at s' q = dirent_at s q"
proof -
  let ?e = "q + de_len (dirent_at s q)"
  note r = record_ok_len [OF assms(1)]
  have here: "record_ok s ?e q" using assms(1) by (auto simp: record_ok_def dirent_at_def Let_def)
  have e: "?e \<le> length s" "q + 8 \<le> ?e" using r assms(3) by linarith+
  note c = dirent_at_cong [OF assms(4) [symmetric] e(1) assms(5) e(2)]
  have d: "dirent_at s q = dirent_at s' q" by (rule c(4)) (use here in auto)
  show "dirent_at s' q = dirent_at s q" using d by simp
  have n: "le_nat (subslice (q + 4) 2 s) = le_nat (subslice (q + 4) 2 s')" "s ! (q + 6) = s' ! (q + 6)" using c(1,2) by blast+
  show "record_ok s' fin q" using assms(1) by (simp add: record_ok_def n)
qed

lemma dirents_positions:
  "dirents s fin p = Some es \<Longrightarrow> e \<in> set es \<Longrightarrow>
     p \<le> de_pos e \<and> de_pos e + 8 \<le> fin \<and> record_ok s fin (de_pos e) \<and> e = dirent_at s (de_pos e)"
proof (induction es arbitrary: p)
  case (Cons a es)
  from Cons.prems(1) have a: "p + 8 \<le> fin" "record_ok s fin p" "a = dirent_at s p" "dirents s fin (p + de_len a) = Some es"
    unfolding dirents_Some_Cons by blast+
  show ?case
  proof (cases "e = a")
    case True
    then show ?thesis using a by (simp add: dirent_at_def)
  next
    case False
    then show ?thesis using Cons.IH [OF a(4)] Cons.prems(2) by auto
  qed
qed simp

lemma with_dirent_facts:
  fixes p k ino ty :: nat and name :: "u8 list" and s :: img
  assumes "p + 8 \<le> p + k" "p + k + 8 + length name \<le> length s"
  defines "s' \<equiv> with_dirent p k ino name ty s" and "n \<equiv> le_nat (subslice (p + 4) 2 s)"
  shows "length s' = length s"
    "i < length s \<Longrightarrow> \<not> (p + 4 \<le> i \<and> i < p + 6) \<Longrightarrow> \<not> (p + k \<le> i \<and> i < p + k + 8 + length name) \<Longrightarrow> s' ! i = s ! i"
    "subslice (p + 4) 2 s' = le_bytes 2 k" "subslice (p + k) 4 s' = le_bytes 4 ino"
    "subslice (p + k + 4) 2 s' = le_bytes 2 (n - k)" "s' ! (p + k + 6) = word_of_nat (length name)"
    "s' ! (p + k + 7) = word_of_nat ty" "subslice (p + k + 8) (length name) s' = name"
proof -
  let ?rec = "le_bytes 4 ino @ le_bytes 2 (n - k) @ [word_of_nat (length name), word_of_nat ty] @ name"
  have s': "s' = overwrite (p + k) ?rec (overwrite (p + 4) (le_bytes 2 k) s)"
    by (simp add: s'_def n_def with_dirent_def Let_def)
  have len: "length ?rec = 8 + length name" by simp
  show l: "length s' = length s" unfolding s' using assms(1,2) by simp
  have at: "s' ! i = (if p + k \<le> i \<and> i < p + k + 8 + length name then ?rec ! (i - (p + k))
      else if p + 4 \<le> i \<and> i < p + 6 then le_bytes 2 k ! (i - (p + 4)) else s ! i)" if "i < length s" for i
    unfolding s' using that assms(1,2) by (subst nth_overwrite) (simp_all add: nth_overwrite)
  show "s' ! i = s ! i" if "i < length s" "\<not> (p + 4 \<le> i \<and> i < p + 6)" "\<not> (p + k \<le> i \<and> i < p + k + 8 + length name)"
    using at [OF that(1)] that by (simp only: if_False)
  have inside: "subslice (p + k + a) b s' = subslice a b ?rec" if "a + b \<le> 8 + length name" for a b
    by (rule nth_equalityI) (use that l len assms(1,2) at in \<open>auto simp: nth_subslice\<close>)
  show "subslice (p + k) 4 s' = le_bytes 4 ino" using inside [of 0 4] by (simp add: subslice_def)
  show "subslice (p + k + 4) 2 s' = le_bytes 2 (n - k)" using inside [of 4 2] by (simp add: subslice_def)
  show "subslice (p + k + 8) (length name) s' = name" using inside [of 8 "length name"] by (simp add: subslice_def)
  show "s' ! (p + k + 6) = word_of_nat (length name)" "s' ! (p + k + 7) = word_of_nat ty"
    using at [of "p + k + 6"] at [of "p + k + 7"] assms(2) by (simp_all add: nth_append)
  show "subslice (p + 4) 2 s' = le_bytes 2 k"
    by (rule nth_equalityI) (use l assms(1,2) at in \<open>auto simp: nth_subslice\<close>)
qed


text \<open>Inserting a record after \<open>e\<close> changes the list of records at that place and nowhere else.\<close>

definition new_record :: "dirent \<Rightarrow> nat \<Rightarrow> u8 list \<Rightarrow> nat \<Rightarrow> dirent" where
  "new_record e ino name ty = (let k = dirent_span (length (de_name e)) in
     \<lparr>de_pos = de_pos e + k, de_ino = ino, de_len = de_len e - k, de_name = name, de_type = word_of_nat ty\<rparr>)"

definition shortened :: "dirent \<Rightarrow> dirent" where
  "shortened e = e\<lparr>de_len := dirent_span (length (de_name e))\<rparr>"

lemma name_length:
  assumes "record_ok s fin p" "fin \<le> length s"
  shows "length (de_name (dirent_at s p)) = unat (s ! (p + 6))"
  using record_ok_len(1,2) [OF assms(1)] assms(2) by (simp add: dirent_at_def)

lemma dirents_insert_here:
  fixes ty :: nat
  assumes d: "dirents s fin p = Some (e # post)" and fin: "fin \<le> length s"
    and v: "ino < u32_limit" "length name \<le> 255"
    and room: "dirent_span (length (de_name e)) + dirent_span (length name) \<le> de_len e"
  defines "s' \<equiv> with_dirent p (dirent_span (length (de_name e))) ino name ty s"
  shows "dirents s' fin p = Some (shortened e # new_record e ino name ty # post)"
proof -
  let ?k = "dirent_span (length (de_name e))"
  have a: "p + 8 \<le> fin" "record_ok s fin p" "e = dirent_at s p" "dirents s fin (p + de_len e) = Some post"
    using d unfolding dirents_Some_Cons by blast+
  note r = record_ok_len [OF a(2), folded a(3)] and nl = name_length [OF a(2) fin, folded a(3)]
  have sp: "8 + length (de_name e) \<le> ?k" "4 dvd ?k" "8 + length name \<le> dirent_span (length name)"
    using dirent_span_props by blast+
  have bounds: "p + 8 \<le> p + ?k" "p + ?k + 8 + length name \<le> length s" "?k < 65536" using sp r room fin by linarith+
  note f = with_dirent_facts [where ino = ino and ty = ty, OF bounds(1,2), folded s'_def]
  have n: "le_nat (subslice (p + 4) 2 s) = de_len e" using a(3) by (simp add: dirent_at_def)
  have same: "s' ! i = s ! i" if "p \<le> i" "i < p + 8 + length (de_name e)" "\<not> (p + 4 \<le> i \<and> i < p + 6)" for i
    by (rule f(2)) (use that sp bounds in linarith)+
  have first: "record_ok s' fin p" "dirent_at s' p = shortened e"
  proof -
    have six: "s' ! (p + 6) = s ! (p + 6)" by (rule same) simp_all
    have k: "le_nat (subslice (p + 4) 2 s') = ?k" using f(3) bounds(3) by simp
    show "record_ok s' fin p" using sp r room nl k six by (simp add: record_ok_def)
    have "subslice p 4 s' = subslice p 4 s" "subslice (p + 8) (unat (s ! (p + 6))) s' = subslice (p + 8) (unat (s ! (p + 6))) s"
      by (rule subslice_cong [OF f(1)], rule same, (use nl in linarith)+)+
    moreover have "s' ! (p + 7) = s ! (p + 7)" by (rule same) simp_all
    moreover have "dirent_at s p\<lparr>de_len := ?k\<rparr> = shortened e" using a(3) by (simp add: shortened_def)
    ultimately show "dirent_at s' p = shortened e" using k six a(3) by (simp add: dirent_at_def)
  qed
  have second: "record_ok s' fin (p + ?k)" "dirent_at s' (p + ?k) = new_record e ino name ty"
  proof -
    have len: "le_nat (subslice (p + ?k + 4) 2 s') = de_len e - ?k" using f(5) n r(4) by simp
    have nm: "unat (s' ! (p + ?k + 6)) = length name" unfolding f(6) using v(2) by (intro unat_word_of_nat) simp
    have "4 dvd de_len e - ?k" using r(3) sp(2) by (simp add: dvd_diff_nat)
    then show "record_ok s' fin (p + ?k)" using r room sp(3) len nm by (simp add: record_ok_def Let_def)
    show "dirent_at s' (p + ?k) = new_record e ino name ty"
      using f(4,7,8) v(1) len nm a(3) by (simp add: dirent_at_def new_record_def Let_def)
  qed
  have rest: "dirents s' fin (p + de_len e) = Some post"
  proof -
    have "dirents s' fin (p + de_len e) = dirents s fin (p + de_len e)"
      by (rule dirents_cong [OF f(1)], use fin f(1) in simp, rule f(2)) (use r room sp fin in linarith)+
    then show ?thesis using a(4) by simp
  qed
  have k8: "p + ?k + 8 \<le> fin" using r room sp by linarith
  have lens: "de_len (shortened e) = ?k" "de_len (new_record e ino name ty) = de_len e - ?k"
    by (simp_all add: shortened_def new_record_def Let_def)
  have rejoin: "p + ?k + (de_len e - ?k) = p + de_len e" using room by simp
  show ?thesis
    unfolding dirents_Some_Cons lens rejoin using a(1) first second rest k8 by simp
qed

lemma dirents_insert:
  assumes fin: "fin \<le> length s" and v: "ino < u32_limit" "length name \<le> 255"
    and room: "dirent_span (length (de_name e)) + dirent_span (length name) \<le> de_len e"
  shows "dirents s fin base = Some (pre @ e # post) \<Longrightarrow>
    dirents (with_dirent (de_pos e) (dirent_span (length (de_name e))) ino name ty s) fin base =
      Some (pre @ shortened e # new_record e ino name ty # post)"
proof (induction pre arbitrary: base)
  case Nil
  then have "de_pos e = base" by (auto simp: dirents_Some_Cons dirent_at_def)
  then show ?case using dirents_insert_here [OF _ fin v room] Nil by simp
next
  case (Cons x pre)
  let ?s' = "with_dirent (de_pos e) (dirent_span (length (de_name e))) ino name ty s"
  have x: "base + 8 \<le> fin" "record_ok s fin base" "x = dirent_at s base" "dirents s fin (base + de_len x) = Some (pre @ e # post)"
    using Cons.prems unfolding dirents_Some_Cons append_Cons by blast+
  have e: "base + de_len x \<le> de_pos e" "record_ok s fin (de_pos e)" "e = dirent_at s (de_pos e)"
    using dirents_positions [OF x(4), of e] by auto
  note r = record_ok_len [OF e(2), folded e(3)]
  have sp: "8 \<le> dirent_span (length (de_name e))" "8 + length name \<le> dirent_span (length name)"
    using dirent_span_props(1) [of "length (de_name e)"] dirent_span_props(1) [of "length name"] by linarith+
  have b: "de_pos e + 8 \<le> de_pos e + dirent_span (length (de_name e))"
    "de_pos e + dirent_span (length (de_name e)) + 8 + length name \<le> length s"
    using sp r room fin by linarith+
  note f = with_dirent_facts [where ino = ino and ty = ty, OF b]
  have bytes: "s ! i = ?s' ! i" if "base \<le> i" "i < base + de_len (dirent_at s base)" for i
    by (rule f(2) [symmetric]) (use that e(1) x(3) r fin sp room in simp_all)
  have same: "record_ok ?s' fin base" "dirent_at ?s' base = dirent_at s base"
    using record_same [OF x(2,1) fin f(1) bytes] by blast+
  show ?case unfolding append_Cons dirents_Some_Cons using x same Cons.IH [OF x(4)] by simp
qed

definition without_dirent :: "nat \<Rightarrow> nat \<Rightarrow> img \<Rightarrow> img" where
  "without_dirent q p s = (let n = le_nat (subslice (q + 4) 2 s); m = le_nat (subslice (p + 4) 2 s) in
     overwrite q (replicate n 0) (overwrite (p + 4) (le_bytes 2 (m + n)) s))"

text \<open>\<open>a\<close> and \<open>e\<close> are neighbours in a block: the record \<open>e\<close> starts where \<open>a\<close> ends.\<close>

lemma neighbours:
  assumes "dirents s fin base = Some (pre @ a # e # post)"
  shows "de_pos e = de_pos a + de_len a" "record_ok s fin (de_pos a)" "record_ok s fin (de_pos e)"
    "a = dirent_at s (de_pos a)" "e = dirent_at s (de_pos e)" "base \<le> de_pos a" "de_pos a + 8 \<le> fin" "de_pos e + 8 \<le> fin"
    "de_pos e + de_len e \<le> fin" "de_pos a + 8 + length (de_name a) \<le> de_pos e \<or> length s < fin"
proof -
  have "\<exists>b. dirents s fin b = Some (a # e # post)"
    using assms by (induction pre arbitrary: base) (auto simp: dirents_Some_Cons)
  then obtain b where b: "dirents s fin b = Some (a # e # post)" by blast
  then have "de_pos a = b" "dirents s fin (b + de_len a) = Some (e # post)" by (auto simp: dirents_Some_Cons dirent_at_def)
  then show pe: "de_pos e = de_pos a + de_len a" by (auto simp: dirents_Some_Cons dirent_at_def)
  show ra: "record_ok s fin (de_pos a)" and re: "record_ok s fin (de_pos e)"
    and ea: "a = dirent_at s (de_pos a)" and ee: "e = dirent_at s (de_pos e)"
    and "base \<le> de_pos a" "de_pos a + 8 \<le> fin" "de_pos e + 8 \<le> fin"
    using dirents_positions [OF assms, of a] dirents_positions [OF assms, of e] by auto
  show "de_pos e + de_len e \<le> fin" using record_ok_len(2) [OF re] ee by simp
  show "de_pos a + 8 + length (de_name a) \<le> de_pos e \<or> length s < fin"
    using record_ok_len(1) [OF ra] name_length [OF ra] pe ea by fastforce
qed

lemma remove_dirent_result:
  assumes d: "dirents s fin base = Some (pre @ a # e # post)" and fin: "fin \<le> length s" and fits: "de_len a + de_len e < 65536"
  shows "remove_dirent (de_pos e) (de_pos a) s = (Ok (), without_dirent (de_pos e) (de_pos a) s)"
proof -
  note nb = neighbours [OF d]
  have n: "le_nat (subslice (de_pos e + 4) 2 s) = de_len e" "le_nat (subslice (de_pos a + 4) 2 s) = de_len a"
    using nb(4,5) by (metis dirent.select_convs(3) dirent_at_def)+
  have b: "de_pos e + 6 \<le> length s" "de_pos a + 6 \<le> length s" "de_pos e + de_len e \<le> length s"
    using nb(7,8,9) fin by linarith+
  show ?thesis
    using b fits
    by (simp add: remove_dirent_def img_simps ext2_read_u16_def read_le_def without_dirent_def n Let_def)
qed

lemma without_dirent_facts:
  assumes "p + 6 \<le> q" "q + le_nat (subslice (q + 4) 2 s) \<le> length s" "q + 6 \<le> length s"
  shows "length (without_dirent q p s) = length s"
    "i < length s \<Longrightarrow> \<not> (p + 4 \<le> i \<and> i < p + 6) \<Longrightarrow> \<not> (q \<le> i \<and> i < q + le_nat (subslice (q + 4) 2 s)) \<Longrightarrow>
       without_dirent q p s ! i = s ! i"
    "subslice (p + 4) 2 (without_dirent q p s) = le_bytes 2 (le_nat (subslice (p + 4) 2 s) + le_nat (subslice (q + 4) 2 s))"
proof -
  let ?n = "le_nat (subslice (q + 4) 2 s)"
  let ?t = "overwrite (p + 4) (le_bytes 2 (le_nat (subslice (p + 4) 2 s) + ?n)) s"
  have w: "without_dirent q p s = overwrite q (replicate ?n 0) ?t" by (simp add: without_dirent_def Let_def)
  have t: "length ?t = length s" using assms by simp
  show "length (without_dirent q p s) = length s" unfolding w using assms t by simp
  show "without_dirent q p s ! i = s ! i"
    if "i < length s" "\<not> (p + 4 \<le> i \<and> i < p + 6)" "\<not> (q \<le> i \<and> i < q + ?n)"
    unfolding w using assms t that by (subst nth_overwrite) (auto simp: nth_overwrite)
  have "subslice (p + 4) 2 (overwrite q (replicate ?n 0) ?t) = subslice (p + 4) 2 ?t"
    by (rule subslice_overwrite_apart) (use assms t in \<open>auto simp: apart_def\<close>)
  then show "subslice (p + 4) 2 (without_dirent q p s) = le_bytes 2 (le_nat (subslice (p + 4) 2 s) + ?n)"
    unfolding w using assms by (simp add: subslice_overwrite_same)
qed

lemma dirents_remove_here:
  assumes d: "dirents s fin p = Some (a # e # post)" and fin: "fin \<le> length s" and fits: "de_len a + de_len e < 65536"
  shows "dirents (without_dirent (de_pos e) p s) fin p = Some (a\<lparr>de_len := de_len a + de_len e\<rparr> # post)"
proof -
  note nb = neighbours [of s fin p "[]" a e post, simplified, OF d]
  have p: "de_pos a = p" using d by (auto simp: dirents_Some_Cons dirent_at_def)
  let ?q = "de_pos e" and ?s' = "without_dirent (de_pos e) p s"
  have n: "le_nat (subslice (?q + 4) 2 s) = de_len e" "le_nat (subslice (p + 4) 2 s) = de_len a"
    using nb(4,5) p by (metis dirent.select_convs(3) dirent_at_def)+
  note ra = record_ok_len [OF nb(2), folded nb(4), unfolded p] and re = record_ok_len [OF nb(3), folded nb(5)]
  have nl: "length (de_name a) = unat (s ! (p + 6))" using name_length [OF nb(2) fin] nb(4) p by simp
  have b: "p + 6 \<le> ?q" "?q + le_nat (subslice (?q + 4) 2 s) \<le> length s" "?q + 6 \<le> length s"
    using nb(1,8,9) ra(1) p fin n by linarith+
  note f = without_dirent_facts [OF b]
  have same: "?s' ! i = s ! i" if "p \<le> i" "i < p + 8 + length (de_name a)" "\<not> (p + 4 \<le> i \<and> i < p + 6)" for i
    by (rule f(2)) (use that nb(1,8) p ra(1) nl fin in linarith)+
  have six: "?s' ! (p + 6) = s ! (p + 6)" "?s' ! (p + 7) = s ! (p + 7)" by (rule same; simp)+
  have k: "le_nat (subslice (p + 4) 2 ?s') = de_len a + de_len e" using f(3) fits n by simp
  have "subslice p 4 ?s' = subslice p 4 s" "subslice (p + 8) (unat (s ! (p + 6))) ?s' = subslice (p + 8) (unat (s ! (p + 6))) s"
    by (rule subslice_cong [OF f(1)], rule same, (use nl in linarith)+)+
  moreover have "dirent_at s p\<lparr>de_len := de_len a + de_len e\<rparr> = a\<lparr>de_len := de_len a + de_len e\<rparr>" using nb(4) p by simp
  ultimately have here: "dirent_at ?s' p = a\<lparr>de_len := de_len a + de_len e\<rparr>" using k six by (simp add: dirent_at_def)
  have ok: "record_ok ?s' fin p"
    using k six ra re nb(1) p by (simp add: record_ok_def Let_def mod_eq_0_iff_dvd)
  have next_post: "dirents s fin (?q + de_len e) = Some post"
  proof -
    have "dirents s fin (p + de_len a) = Some (e # post)" using d unfolding dirents_Some_Cons [of s fin p] by blast
    then have "dirents s fin (p + de_len a + de_len e) = Some post" unfolding dirents_Some_Cons by blast
    then show ?thesis using nb(1) p by simp
  qed
  have "dirents ?s' fin (p + (de_len a + de_len e)) = dirents s fin (p + (de_len a + de_len e))"
    by (rule dirents_cong [OF f(1)], use fin f(1) in simp, rule f(2)) (use nb(1) p n b ra(1) fin in linarith)+
  then have rest: "dirents ?s' fin (p + (de_len a + de_len e)) = Some post"
    using next_post nb(1) p by (simp add: add.assoc)
  show ?thesis unfolding dirents_Some_Cons using here ok rest nb(7) p by simp
qed

lemma dirents_remove:
  assumes fin: "fin \<le> length s" and fits: "de_len a + de_len e < 65536"
  shows "dirents s fin base = Some (pre @ a # e # post) \<Longrightarrow>
    dirents (without_dirent (de_pos e) (de_pos a) s) fin base = Some (pre @ a\<lparr>de_len := de_len a + de_len e\<rparr> # post)"
proof (induction pre arbitrary: base)
  case Nil
  then have "de_pos a = base" by (auto simp: dirents_Some_Cons dirent_at_def)
  then show ?case using dirents_remove_here [OF _ fin fits] Nil by simp
next
  case (Cons x pre)
  let ?s' = "without_dirent (de_pos e) (de_pos a) s"
  have x: "base + 8 \<le> fin" "record_ok s fin base" "x = dirent_at s base" "dirents s fin (base + de_len x) = Some (pre @ a # e # post)"
    using Cons.prems unfolding dirents_Some_Cons append_Cons by blast+
  note nb = neighbours [OF x(4)]
  have n: "le_nat (subslice (de_pos e + 4) 2 s) = de_len e" using nb(5) by (metis dirent.select_convs(3) dirent_at_def)
  have b: "de_pos a + 6 \<le> de_pos e" "de_pos e + le_nat (subslice (de_pos e + 4) 2 s) \<le> length s" "de_pos e + 6 \<le> length s"
    using nb(1,8,9) record_ok_len(1) [OF nb(2), folded nb(4)] fin n by linarith+
  note f = without_dirent_facts [OF b]
  have bytes: "s ! i = ?s' ! i" if "base \<le> i" "i < base + de_len (dirent_at s base)" for i
    by (rule f(2) [symmetric]) (use that nb(6,9) x(3) fin b(1) in simp_all)
  have same: "record_ok ?s' fin base" "dirent_at ?s' base = dirent_at s base"
    using record_same [OF x(2,1) fin f(1) bytes] by blast+
  show ?case unfolding append_Cons dirents_Some_Cons using x same Cons.IH [OF x(4)] by simp
qed

text \<open>Removing what was just inserted gives back the image, when the slack held zeros before.\<close>

lemma without_with_dirent:
  assumes k: "8 \<le> k" "k + 8 + length name \<le> le_nat (subslice (p + 4) 2 s)" "p + le_nat (subslice (p + 4) 2 s) \<le> length s"
    and zero: "\<And>i. p + k \<le> i \<Longrightarrow> i < p + le_nat (subslice (p + 4) 2 s) \<Longrightarrow> s ! i = 0"
  shows "without_dirent (p + k) p (with_dirent p k ino name ty s) = s"
proof -
  let ?n = "le_nat (subslice (p + 4) 2 s)" and ?s' = "with_dirent p k ino name ty s"
  have b: "p + 8 \<le> p + k" "p + k + 8 + length name \<le> length s" using k by linarith+
  note f = with_dirent_facts [where ino = ino and ty = ty, OF b]
  have n: "?n < 65536"
    using le_nat_bound [of "subslice (p + 4) 2 s"] length_subslice_le [of "p + 4" 2 s]
      power_increasing [of "length (subslice (p + 4) 2 s)" 2 "256::nat"] by simp
  have lens: "le_nat (subslice (p + k + 4) 2 ?s') = ?n - k" "le_nat (subslice (p + 4) 2 ?s') = k"
    using f(3,5) n k(2) by simp_all
  let ?t = "overwrite (p + 4) (le_bytes 2 ?n) ?s'"
  have w: "without_dirent (p + k) p ?s' = overwrite (p + k) (replicate (?n - k) 0) ?t"
    using k(2) by (simp add: without_dirent_def Let_def lens)
  have len: "length ?t = length s" using f(1) b by simp
  have n2: "le_bytes 2 ?n = subslice (p + 4) 2 s" using b by simp
  show ?thesis
    unfolding w
  proof (rule nth_equalityI)
    show l: "length (overwrite (p + k) (replicate (?n - k) 0) ?t) = length s" using len k by simp
    fix i assume "i < length (overwrite (p + k) (replicate (?n - k) 0) ?t)"
    then have i: "i < length s" using l by simp
    consider "p + k \<le> i" "i < p + ?n" | "p + 4 \<le> i" "i < p + 6" | "\<not> (p + 4 \<le> i \<and> i < p + 6)" "\<not> (p + k \<le> i \<and> i < p + ?n)" by linarith
    then show "overwrite (p + k) (replicate (?n - k) 0) ?t ! i = s ! i"
    proof cases
      case 1
      then show ?thesis using len k i zero by (subst nth_overwrite) simp_all
    next
      case 2
      then have "overwrite (p + k) (replicate (?n - k) 0) ?t ! i = ?t ! i" using len k i by (subst nth_overwrite) simp_all
      also have "\<dots> = s ! i" using 2 f(1) b i by (subst nth_overwrite) (simp_all add: n2 nth_subslice)
      finally show ?thesis .
    next
      case 3
      then have "overwrite (p + k) (replicate (?n - k) 0) ?t ! i = ?t ! i" using len k i by (subst nth_overwrite) auto
      also have "\<dots> = ?s' ! i" using 3(1) f(1) b i by (subst nth_overwrite) auto
      also have "\<dots> = s ! i" by (rule f(2) [OF i 3(1)]) (use 3(2) k in linarith)
      finally show ?thesis .
    qed
  qed
qed

subsection \<open>What a scan finds\<close>

fun scan_list :: "u8 list \<Rightarrow> nat \<Rightarrow> nat option \<Rightarrow> directory_slot option \<Rightarrow> directory_slot option \<Rightarrow> dirent list \<Rightarrow>
    directory_slot option \<times> directory_slot option" where
  "scan_list name want previous found room [] = (found, room)"
| "scan_list name want previous found room (e # es) =
     scan_list name want (Some (de_pos e))
       (if de_ino e \<noteq> 0 \<and> de_name e = name then Some (de_pos e, previous) else found)
       (if room = None \<and> de_ino e \<noteq> 0 \<and> want \<le> de_len e - dirent_span (length (de_name e)) then Some (de_pos e, previous) else room) es"

lemma scan_block_dirents:
  assumes fin: "fin \<le> length s"
  shows "scan_block s name want fin p previous found room =
    (case dirents s fin p of None \<Rightarrow> Err DirectoryCorrupt | Some es \<Rightarrow> Ok (scan_list name want previous found room es))"
proof (induction "fin - p" arbitrary: p previous found room rule: less_induct)
  case less
  show ?case
  proof (cases "fin < p + 8")
    case True
    then show ?thesis by (simp add: scan_block.simps [of s] dirents.simps DIRENT_HEADER_LEN_def)
  next
    case False
    let ?e = "dirent_at s p"
    have rd: "ext2_read_u32 s p = (Ok (de_ino ?e) :: (alloc_error, nat) outcome)"
      "ext2_read_u16 s (p + 4) = (Ok (de_len ?e) :: (alloc_error, nat) outcome)"
      "get_u8 (p + 6) s = (Ok (s ! (p + 6)) :: (alloc_error, u8) outcome)"
      using False fin by (simp_all add: ext2_read_u32_def ext2_read_u16_def read_le_def get_u8_def dirent_at_def)
    have ok: "record_ok s fin p \<longleftrightarrow> \<not> (de_len ?e mod 4 \<noteq> 0 \<or> de_len ?e < 8 + unat (s ! (p + 6)) \<or> fin < p + de_len ?e)"
      by (auto simp: record_ok_def Let_def dirent_at_def)
    show ?thesis
    proof (cases "record_ok s fin p")
      case True
      note r = record_ok_len [OF True] and nl = name_length [OF True fin]
      have nm: "get_bytes (p + 8) (unat (s ! (p + 6))) s = (Ok (de_name ?e) :: (alloc_error, u8 list) outcome)"
        using r(1,2) fin by (simp add: get_bytes_def dirent_at_def)
      have span: "\<not> de_len ?e < dirent_span (unat (s ! (p + 6)))"
        using dirent_span_least [OF r(1,3)] by simp
      have pos: "de_pos ?e = p" by (simp add: dirent_at_def)
      have ih: "scan_block s name want fin (p + de_len ?e) pv f rm =
          (case dirents s fin (p + de_len ?e) of None \<Rightarrow> Err DirectoryCorrupt | Some es \<Rightarrow> Ok (scan_list name want pv f rm es))" for pv f rm
        by (rule less.hyps) (use r(1) False in linarith)
      have d: "dirents s fin p = map_option ((#) ?e) (dirents s fin (p + de_len ?e))"
        using True False by (subst dirents.simps) (simp add: dirent_at_def)
      have "scan_block s name want fin p previous found room =
          scan_block s name want fin (p + de_len ?e) (Some p)
            (if de_ino ?e \<noteq> 0 \<and> de_name ?e = name then Some (p, previous) else found)
            (if room = None \<and> de_ino ?e \<noteq> 0 \<and> want \<le> de_len ?e - dirent_span (length (de_name ?e)) then Some (p, previous) else room)"
        unfolding nl using False ok True span
        by (subst scan_block.simps) (auto simp: rd nm DIRENT_HEADER_LEN_def DIRENT_ALIGNMENT_def Let_def)
      then show ?thesis
        unfolding ih d by (cases "dirents s fin (p + de_len ?e)") (simp_all add: pos)
    next
      case no: False
      then have "scan_block s name want fin p previous found room = Err DirectoryCorrupt"
        using False ok by (subst scan_block.simps) (auto simp: rd DIRENT_HEADER_LEN_def DIRENT_ALIGNMENT_def Let_def)
      moreover have "dirents s fin p = None" using False no by (subst dirents.simps) simp
      ultimately show ?thesis by simp
    qed
  qed
qed

abbreviation live :: "u8 list \<Rightarrow> dirent \<Rightarrow> bool" where
  "live name e \<equiv> de_ino e \<noteq> 0 \<and> de_name e = name"

definition roomy :: "nat \<Rightarrow> dirent \<Rightarrow> bool" where
  "roomy want e \<longleftrightarrow> de_ino e \<noteq> 0 \<and> want \<le> de_len e - dirent_span (length (de_name e))"

lemma scan_list_None:
  "fst (scan_list name want previous found room es) = None \<longleftrightarrow> found = None \<and> (\<forall>e \<in> set es. \<not> live name e)"
  "snd (scan_list name want previous found room es) = None \<longleftrightarrow> room = None \<and> (\<forall>e \<in> set es. \<not> roomy want e)"
  by (induction es arbitrary: previous found room) (auto simp: roomy_def)

lemma scan_list_found:
  "fst (scan_list name want previous found room es) = Some (q, before) \<Longrightarrow>
     found = Some (q, before) \<or>
     (\<exists>pre e post. es = pre @ e # post \<and> de_pos e = q \<and> live name e \<and>
        before = (if pre = [] then previous else Some (de_pos (last pre))))"
proof (induction es arbitrary: previous found room)
  case (Cons a es)
  from Cons.IH [OF Cons.prems [unfolded scan_list.simps]] show ?case
  proof (elim disjE exE conjE)
    assume "(if de_ino a \<noteq> 0 \<and> de_name a = name then Some (de_pos a, previous) else found) = Some (q, before)"
    then show ?thesis by (auto split: if_splits)
  next
    fix pre e post
    assume "es = pre @ e # post" "de_pos e = q" "de_ino e \<noteq> 0" "de_name e = name"
      "before = (if pre = [] then Some (de_pos a) else Some (de_pos (last pre)))"
    then show ?thesis by (intro disjI2 exI [of _ "a # pre"] exI [of _ e] exI [of _ post]) auto
  qed
qed simp

lemma scan_list_room:
  "snd (scan_list name want previous found room es) = Some (q, before) \<Longrightarrow>
     room = Some (q, before) \<or> (\<exists>pre e post. es = pre @ e # post \<and> de_pos e = q \<and> roomy want e)"
proof (induction es arbitrary: previous found room)
  case (Cons a es)
  from Cons.IH [OF Cons.prems [unfolded scan_list.simps]] show ?case
  proof (elim disjE exE conjE)
    assume "(if room = None \<and> de_ino a \<noteq> 0 \<and> want \<le> de_len a - dirent_span (length (de_name a)) then Some (de_pos a, previous) else room) = Some (q, before)"
    then have "room = Some (q, before) \<or> de_pos a = q \<and> roomy want a" by (auto simp: roomy_def split: if_splits)
    then show ?thesis by (elim disjE) (simp, intro disjI2 exI [of _ "[]"] exI [of _ a] exI [of _ es], simp)
  next
    fix pre e post
    assume "es = pre @ e # post" "de_pos e = q" "roomy want e"
    then show ?thesis by (intro disjI2 exI [of _ "a # pre"] exI [of _ e] exI [of _ post]) auto
  qed
qed simp

text \<open>The blocks of a directory that the writer looks at, and the records of one of them.\<close>

definition dir_blocks :: "layout \<Rightarrow> nat \<Rightarrow> nat \<Rightarrow> nat \<Rightarrow> img \<Rightarrow> nat list" where
  "dir_blocks l p i n s = filter (\<lambda>b. b \<noteq> 0) (map (\<lambda>j. le_nat (subslice (i_block_slot p j) 4 s)) [i..<i + n])"

abbreviation block_records :: "layout \<Rightarrow> img \<Rightarrow> nat \<Rightarrow> dirent list option" where
  "block_records l s b \<equiv> dirents s (b * l_block_size l + l_block_size l) (b * l_block_size l)"

definition scan_lists :: "u8 list \<Rightarrow> nat \<Rightarrow> directory_slot option \<times> directory_slot option \<Rightarrow> dirent list list \<Rightarrow>
    directory_slot option \<times> directory_slot option" where
  "scan_lists name want = foldl (\<lambda>(found, room) es. scan_list name want None found room es)"

lemma scan_blocks_Ok:
  assumes "i_block_slot p (i + n) \<le> length s" "\<forall>b \<in> set (dir_blocks l p i n s). b * l_block_size l + l_block_size l \<le> length s"
    "scan_blocks l s name want p i n found room = Ok fr"
  shows "\<exists>ess. map (block_records l s) (dir_blocks l p i n s) = map Some ess \<and> fr = scan_lists name want (found, room) ess"
  using assms
proof (induction n arbitrary: i found room)
  case 0
  then show ?case by (simp add: dir_blocks_def scan_lists_def)
next
  case (Suc n)
  let ?b = "le_nat (subslice (i_block_slot p i) 4 s)"
  have cons: "dir_blocks l p i (Suc n) s = (if ?b = 0 then [] else [?b]) @ dir_blocks l p (Suc i) n s"
    by (simp add: dir_blocks_def upt_conv_Cons del: upt_Suc)
  have rd: "ext2_read_u32 s (i_block_slot p i) = (Ok ?b :: (alloc_error, nat) outcome)"
    using Suc.prems(1) by (simp add: ext2_read_u32_def read_le_def i_block_slot_def)
  have sub: "i_block_slot p (Suc i + n) \<le> length s" "\<forall>b \<in> set (dir_blocks l p (Suc i) n s). b * l_block_size l + l_block_size l \<le> length s"
    using Suc.prems(1,2) by (auto simp: cons)
  show ?case
  proof (cases "?b = 0")
    case True
    then show ?thesis using Suc.IH [OF sub] Suc.prems(3) by (simp add: rd cons)
  next
    case False
    then have fin: "?b * l_block_size l + l_block_size l \<le> length s" using Suc.prems(2) by (simp add: cons)
    obtain es where es: "block_records l s ?b = Some es"
      "scan_blocks l s name want p (Suc i) n (fst (scan_list name want None found room es)) (snd (scan_list name want None found room es)) = Ok fr"
      using Suc.prems(3) False fin
      by (auto simp: rd Let_def block_at_def scan_block_dirents [OF fin] case_prod_beta split: option.splits)
    from Suc.IH [OF sub es(2)] obtain ess where
      "map (block_records l s) (dir_blocks l p (Suc i) n s) = map Some ess" "fr = scan_lists name want (scan_list name want None found room es) ess"
      by auto
    then show ?thesis using False es(1) by (intro exI [of _ "es # ess"]) (simp add: cons scan_lists_def)
  qed
qed

lemma scan_lists_None:
  "fst (scan_lists name want fr ess) = None \<longleftrightarrow> fst fr = None \<and> (\<forall>es \<in> set ess. \<forall>e \<in> set es. \<not> live name e)"
  "snd (scan_lists name want fr ess) = None \<longleftrightarrow> snd fr = None \<and> (\<forall>es \<in> set ess. \<forall>e \<in> set es. \<not> roomy want e)"
  unfolding scan_lists_def
  by (induction ess arbitrary: fr) (auto simp: scan_list_None case_prod_beta)

lemma scan_lists_found:
  "fst (scan_lists name want fr ess) = Some (q, before) \<Longrightarrow>
     fst fr = Some (q, before) \<or>
     (\<exists>es \<in> set ess. \<exists>pre e post. es = pre @ e # post \<and> de_pos e = q \<and> live name e \<and>
        before = (if pre = [] then None else Some (de_pos (last pre))))"
proof (induction ess arbitrary: fr)
  case (Cons es ess)
  obtain f r where fr: "fr = (f, r)" by (cases fr)
  have "fst (scan_lists name want (scan_list name want None f r es) ess) = Some (q, before)"
    using Cons.prems by (simp add: fr scan_lists_def)
  from Cons.IH [OF this] show ?case
  proof (elim disjE)
    assume "fst (scan_list name want None f r es) = Some (q, before)"
    from scan_list_found [OF this] show ?thesis
    proof (elim disjE exE conjE)
      fix pre e post
      assume "es = pre @ e # post" "de_pos e = q" "de_ino e \<noteq> 0" "de_name e = name"
        "before = (if pre = [] then None else Some (de_pos (last pre)))"
      then show ?thesis by (intro disjI2 bexI [of _ es] exI [of _ pre] exI [of _ e] exI [of _ post]) simp_all
    qed (simp add: fr)
  qed auto
qed (simp add: scan_lists_def)

lemma scan_lists_room:
  "snd (scan_lists name want fr ess) = Some (q, before) \<Longrightarrow>
     snd fr = Some (q, before) \<or> (\<exists>es \<in> set ess. \<exists>pre e post. es = pre @ e # post \<and> de_pos e = q \<and> roomy want e)"
proof (induction ess arbitrary: fr)
  case (Cons es ess)
  obtain f r where fr: "fr = (f, r)" by (cases fr)
  have "snd (scan_lists name want (scan_list name want None f r es) ess) = Some (q, before)"
    using Cons.prems by (simp add: fr scan_lists_def)
  from Cons.IH [OF this] show ?case
  proof (elim disjE)
    assume "snd (scan_list name want None f r es) = Some (q, before)"
    from scan_list_room [OF this] show ?thesis
    proof (elim disjE exE conjE)
      fix pre e post
      assume "es = pre @ e # post" "de_pos e = q" "roomy want e"
      then show ?thesis by (intro disjI2 bexI [of _ es] exI [of _ pre] exI [of _ e] exI [of _ post]) simp_all
    qed (simp add: fr)
  qed auto
qed (simp add: scan_lists_def)

end
