(* ===== verification/Ext2_Create.thy ===== *)
theory Ext2_Create
  imports Ext2_Dirent
begin

unbundle bit_operations_syntax

text \<open>
  Creating a file, end to end: which bytes of the image each step may touch, and that the directory gains
  exactly one record.
\<close>

subsection \<open>Writes that leave the accounts alone\<close>

definition in_metadata :: "layout \<Rightarrow> img \<Rightarrow> nat \<Rightarrow> bool" where
  "in_metadata l s i \<longleftrightarrow> 1024 \<le> i \<and> i < 1128 \<or> table_pos l \<le> i \<and> i < table_pos l + 32 * l_group_count l \<or>
     (\<exists>g < l_group_count l. \<exists>k \<in> {0, 4}. map_pos l k g s \<le> i \<and> i < map_pos l k g s + map_len l k)"

definition clear_of_metadata :: "layout \<Rightarrow> img \<Rightarrow> nat \<Rightarrow> nat \<Rightarrow> bool" where
  "clear_of_metadata l s p n \<longleftrightarrow> apart p n 1024 104 \<and> apart p n (table_pos l) (32 * l_group_count l) \<and>
     (\<forall>g < l_group_count l. \<forall>k \<in> {0, 4}. apart p n (map_pos l k g s) (map_len l k))"

definition keeps :: "layout \<Rightarrow> img \<Rightarrow> img \<Rightarrow> bool" where
  "keeps l s s' \<longleftrightarrow> length s' = length s \<and> (\<forall>i < length s. in_metadata l s i \<longrightarrow> s' ! i = s ! i)"

lemma clear_not_in: "clear_of_metadata l s p n \<Longrightarrow> p \<le> i \<Longrightarrow> i < p + n \<Longrightarrow> \<not> in_metadata l s i"
  unfolding clear_of_metadata_def in_metadata_def apart_def by fastforce

lemma clear_sub: "clear_of_metadata l s p n \<Longrightarrow> p \<le> q \<Longrightarrow> q + m \<le> p + n \<Longrightarrow> clear_of_metadata l s q m"
  unfolding clear_of_metadata_def apart_def by fastforce

lemma overwrite_keeps:
  "p + length bs \<le> length s \<Longrightarrow> clear_of_metadata l s p (length bs) \<Longrightarrow> keeps l s (overwrite p bs s)"
  using clear_not_in [of l s p "length bs"] by (auto simp: keeps_def nth_overwrite)

lemma keeps_refl [simp]: "keeps l s s"
  by (simp add: keeps_def)

lemma keeps_table:
  assumes "volume l s" "keeps l s s'" "table_pos l \<le> p" "p + n \<le> table_pos l + 32 * l_group_count l"
  shows "subslice p n s' = subslice p n s"
  by (rule subslice_cong) (use assms in \<open>auto simp: keeps_def in_metadata_def\<close>)

lemma keeps_super:
  assumes "volume l s" "keeps l s s'" "1024 \<le> p" "p + n \<le> 1128"
  shows "subslice p n s' = subslice p n s"
  by (rule subslice_cong) (use assms in \<open>auto simp: keeps_def in_metadata_def\<close>)

lemma keeps_facts:
  assumes v: "volume l s" and k: "keeps l s s'"
  shows "g < l_group_count l \<Longrightarrow> j + 4 \<le> 32 \<Longrightarrow> desc_field l g j s' = desc_field l g j s"
    "g < l_group_count l \<Longrightarrow> j \<in> {0, 4} \<Longrightarrow> map_pos l j g s' = map_pos l j g s"
    "g < l_group_count l \<Longrightarrow> j \<in> {0, 4} \<Longrightarrow> group_free l j g s' = group_free l j g s"
    "j \<in> {0, 4} \<Longrightarrow> super_free j s' = super_free j s"
    "g < l_group_count l \<Longrightarrow> j \<in> {0, 4} \<Longrightarrow> i < units_per_group l j \<Longrightarrow> unit_used l j g i s' = unit_used l j g i s"
    "volume l s'"
proof -
  show df: "desc_field l g j s' = desc_field l g j s" if "g < l_group_count l" "j + 4 \<le> 32" for g j
    unfolding desc_field_def
    by (subst keeps_table [OF v k]) (use desc_inside [OF v that(1)] that(2) in auto)
  show mp: "map_pos l j g s' = map_pos l j g s" if "g < l_group_count l" "j \<in> {0, 4}" for g j
    unfolding map_pos_def using df [OF that(1), of j] that(2) by auto
  show "group_free l j g s' = group_free l j g s" if "g < l_group_count l" "j \<in> {0, 4}"
    unfolding group_free_def
    by (subst keeps_table [OF v k]) (use desc_inside [OF v that(1)] counter_bounds(1) [OF that(2)] in auto)
  show "super_free j s' = super_free j s" if "j \<in> {0, 4}"
    unfolding super_free_def
    by (subst keeps_super [OF v k]) (use counter_bounds(2) [OF that] in auto)
  have len: "length s' = length s" using k by (simp add: keeps_def)
  show "volume l s'"
    unfolding volume_def map_ok_def len using v mp unfolding volume_def map_ok_def by simp
  show "unit_used l j g i s' = unit_used l j g i s" if "g < l_group_count l" "j \<in> {0, 4}" "i < units_per_group l j"
  proof -
    let ?p = "map_pos l j g s + i div 8"
    have "i div 8 < map_len l j" by (rule index_in_map [OF that(3)])
    moreover have "map_pos l j g s + map_len l j \<le> length s" using volume_map_ok [OF v that(1,2)] by (simp add: map_ok_def)
    ultimately have "?p < length s" "in_metadata l s ?p" using that(1,2) unfolding in_metadata_def by fastforce+
    then have "s' ! ?p = s ! ?p" using k by (simp add: keeps_def)
    then show ?thesis by (simp add: unit_used_def mp [OF that(1,2)])
  qed
qed

lemma keeps_consistent:
  assumes c: "consistent l s" and k: "keeps l s s'"
  shows "consistent l s'" "inodes_in_use l s' = inodes_in_use l s" "blocks_in_use l s' = blocks_in_use l s"
proof -
  have v: "volume l s" using c by (simp add: consistent_def)
  note f = keeps_facts [OF v k] and wf = volumeD(1) [OF v]
  have "counted l j s'" if "j \<in> {0, 4}" for j
    by (rule counted_same [of l j s]) (use c that f in \<open>auto simp: consistent_def\<close>)
  then show "consistent l s'" using f(6) by (simp add: consistent_def)
  have "unit_used l 4 ((ino - 1) div l_inodes_per_group l) ((ino - 1) mod l_inodes_per_group l) s' =
      unit_used l 4 ((ino - 1) div l_inodes_per_group l) ((ino - 1) mod l_inodes_per_group l) s"
    if "1 \<le> ino" "ino \<le> l_inodes_count l" for ino
    using f(5) [OF inode_coordinates(1) [OF wf that], of 4] wf by (simp add: units_per_group_def layout_wf_def)
  then show "inodes_in_use l s' = inodes_in_use l s" by (auto simp: inodes_in_use_def)
  have "unit_used l 0 ((b - l_first_data_block l) div l_blocks_per_group l) ((b - l_first_data_block l) mod l_blocks_per_group l) s' =
      unit_used l 0 ((b - l_first_data_block l) div l_blocks_per_group l) ((b - l_first_data_block l) mod l_blocks_per_group l) s"
    if "l_first_data_block l \<le> b" "b < l_blocks_count l" for b
    using f(5) [OF block_coordinates(1) [OF wf that], of 0] wf by (simp add: units_per_group_def layout_wf_def)
  then show "blocks_in_use l s' = blocks_in_use l s" by (auto simp: blocks_in_use_def)
qed

lemma keeps_clear:
  assumes "volume l s" "keeps l s s'"
  shows "clear_of_metadata l s' p n = clear_of_metadata l s p n"
  using keeps_facts(2) [OF assms] unfolding clear_of_metadata_def by simp

lemma keeps_trans:
  assumes "volume l s" "keeps l s s'" "keeps l s' s''"
  shows "keeps l s s''"
proof -
  have "in_metadata l s' i = in_metadata l s i" for i
    using keeps_facts(2) [OF assms(1,2)] unfolding in_metadata_def by auto
  then show ?thesis using assms(2,3) by (simp add: keeps_def)
qed

text \<open>Taking a unit changes metadata only.\<close>

lemma taken_data:
  assumes v: "volume l s" and k: "k \<in> {0, 4}" and t: "takeable l k g i s" and d: "j < length s" "\<not> in_metadata l s j"
  shows "taken l k g i s ! j = s ! j"
proof -
  have gi: "g < l_group_count l" "i < units_per_group l k"
    using t group_span_le [of l k g] by (auto simp: takeable_def)
  have "j \<noteq> map_pos l k g s + i div 8"
    using d(2) index_in_map [OF gi(2)] gi(1) k unfolding in_metadata_def by fastforce
  moreover have "\<not> (desc_pos l g + group_counter k \<le> j \<and> j < desc_pos l g + group_counter k + 2)"
    using d(2) desc_inside(1,3) [OF v gi(1)] counter_bounds(1) [OF k] unfolding in_metadata_def by linarith
  moreover have "\<not> (super_counter k \<le> j \<and> j < super_counter k + 4)"
    using d(2) counter_bounds(2) [OF k] unfolding in_metadata_def by linarith
  ultimately show ?thesis
    unfolding taken_def by (subst nth_settle [OF accounts_volume [OF v k gi] d(1)]) (simp only: if_False)
qed


subsection \<open>Creating a file\<close>

definition inode_pos :: "layout \<Rightarrow> img \<Rightarrow> nat \<Rightarrow> nat" where
  "inode_pos l s ino = desc_field l ((ino - 1) div l_inodes_per_group l) 8 s * l_block_size l +
     (ino - 1) mod l_inodes_per_group l * l_inode_size l"

text \<open>The inode tables lie inside the image, clear of the superblock, the descriptors, the bitmaps and
  each other.\<close>

definition tables_ok :: "layout \<Rightarrow> img \<Rightarrow> bool" where
  "tables_ok l s \<longleftrightarrow> 128 \<le> l_inode_size l \<and> (l_want_extra_isize l = 0 \<or> 130 \<le> l_inode_size l) \<and>
     (\<forall>g < l_group_count l. let t = desc_field l g 8 s * l_block_size l; n = l_inodes_per_group l * l_inode_size l in
        t + n \<le> length s \<and> clear_of_metadata l s t n \<and>
        (\<forall>h < l_group_count l. g \<noteq> h \<longrightarrow> apart t n (desc_field l h 8 s * l_block_size l) n))"

lemma inode_slot:
  assumes v: "volume l s" and t: "tables_ok l s" and i: "1 \<le> ino" "ino \<le> l_inodes_count l"
  defines "g \<equiv> (ino - 1) div l_inodes_per_group l"
  shows "inode_at l s ino = Ok (Some (inode_pos l s ino))" "inode_pos l s ino + l_inode_size l \<le> length s"
    "clear_of_metadata l s (inode_pos l s ino) (l_inode_size l)" "g < l_group_count l"
    "desc_field l g 8 s * l_block_size l \<le> inode_pos l s ino"
    "inode_pos l s ino + l_inode_size l \<le> desc_field l g 8 s * l_block_size l + l_inodes_per_group l * l_inode_size l"
proof -
  note wf = volumeD(1) [OF v]
  show g: "g < l_group_count l" using inode_coordinates(1) [OF wf i] by (simp add: g_def)
  let ?k = "(ino - 1) mod l_inodes_per_group l" and ?t = "desc_field l g 8 s * l_block_size l"
  have ipg: "0 < l_inodes_per_group l" using wf by (simp add: layout_wf_def)
  then have "Suc ?k * l_inode_size l \<le> l_inodes_per_group l * l_inode_size l"
    by (intro mult_le_mono1) (simp add: Suc_leI)
  then show slot: "?t \<le> inode_pos l s ino" "inode_pos l s ino + l_inode_size l \<le> ?t + l_inodes_per_group l * l_inode_size l"
    by (simp_all add: inode_pos_def g_def)
  have table: "?t + l_inodes_per_group l * l_inode_size l \<le> length s" "clear_of_metadata l s ?t (l_inodes_per_group l * l_inode_size l)"
    using t g by (simp_all add: tables_ok_def Let_def)
  then show fits: "inode_pos l s ino + l_inode_size l \<le> length s" using slot by linarith
  show "clear_of_metadata l s (inode_pos l s ino) (l_inode_size l)" by (rule clear_sub [OF table(2) slot])
  have at: "g = (ino - Suc 0) div l_inodes_per_group l" by (simp add: g_def)
  show "inode_at l s ino = Ok (Some (inode_pos l s ino))"
    using i ipg desc_inside(2) [OF v g] fits g
    by (simp add: inode_at_def Let_def at [symmetric] GROUP_DESCRIPTOR_SIZE_def inode_pos_def descriptor_at_volume [OF wf]
        ext2_read_u32_def read_le_def desc_field_def)
qed

text \<open>The bytes of the slot of a new regular file.\<close>

definition new_inode :: "layout \<Rightarrow> nat \<Rightarrow> img \<Rightarrow> img" where
  "new_inode l p s =
     overwrite (p + 26) (le_bytes 2 1)
       ((if l_want_extra_isize l = 0 then id else overwrite (p + 128) (le_bytes 2 (l_want_extra_isize l)))
          (overwrite p (le_bytes 2 (MODE_REGULAR OR 420)) (overwrite p (replicate (l_inode_size l) 0) s)))"

lemma new_inode_facts:
  assumes "128 \<le> l_inode_size l" "l_want_extra_isize l = 0 \<or> 130 \<le> l_inode_size l" "p + l_inode_size l \<le> length s"
  shows "length (new_inode l p s) = length s"
    "i < length s \<Longrightarrow> \<not> (p \<le> i \<and> i < p + l_inode_size l) \<Longrightarrow> new_inode l p s ! i = s ! i"
    "subslice p 2 (new_inode l p s) = le_bytes 2 (MODE_REGULAR OR 420)"
    "subslice (p + 4) 4 (new_inode l p s) = replicate 4 0"
    "subslice (p + 26) 2 (new_inode l p s) = le_bytes 2 1"
    "subslice (p + 28) 4 (new_inode l p s) = replicate 4 0"
proof -
  let ?a = "overwrite p (replicate (l_inode_size l) 0) s"
  let ?b = "overwrite p (le_bytes 2 (MODE_REGULAR OR 420)) ?a"
  let ?c = "(if l_want_extra_isize l = 0 then id else overwrite (p + 128) (le_bytes 2 (l_want_extra_isize l))) ?b"
  have n: "new_inode l p s = overwrite (p + 26) (le_bytes 2 1) ?c" by (simp add: new_inode_def)
  have len: "length ?a = length s" "length ?b = length s" "length ?c = length s" using assms by auto
  show "length (new_inode l p s) = length s" unfolding n using assms len by simp
  have a: "?a ! i = (if p \<le> i \<and> i < p + l_inode_size l then 0 else s ! i)" if "i < length s" for i
    using that assms by (auto simp: nth_overwrite)
  have b: "?b ! i = (if p \<le> i \<and> i < p + 2 then le_bytes 2 (MODE_REGULAR OR 420) ! (i - p) else ?a ! i)" if "i < length s" for i
    using that assms len by (subst nth_overwrite) auto
  have c: "?c ! i = ?b ! i" if "i < length s" "\<not> (p + 128 \<le> i \<and> i < p + 130) \<or> l_want_extra_isize l = 0" for i
    using that assms len by (cases "l_want_extra_isize l = 0") (simp, simp, subst nth_overwrite, auto)
  have d: "new_inode l p s ! i = (if p + 26 \<le> i \<and> i < p + 28 then le_bytes 2 1 ! (i - (p + 26)) else ?c ! i)" if "i < length s" for i
    unfolding n using that assms len by (subst nth_overwrite) auto
  show "new_inode l p s ! i = s ! i" if "i < length s" "\<not> (p \<le> i \<and> i < p + l_inode_size l)"
    using that assms d [of i] c [of i] b [of i] a [of i] by auto
  have l: "length (new_inode l p s) = length s" unfolding n using assms len by simp
  show "subslice p 2 (new_inode l p s) = le_bytes 2 (MODE_REGULAR OR 420)"
    by (rule nth_equalityI) (use assms l c d b in \<open>auto simp: nth_subslice\<close>)
  show "subslice (p + 4) 4 (new_inode l p s) = replicate 4 0"
    by (rule nth_equalityI) (use assms l c d b a in \<open>auto simp: nth_subslice\<close>)
  show "subslice (p + 28) 4 (new_inode l p s) = replicate 4 0"
    by (rule nth_equalityI) (use assms l c d b a in \<open>auto simp: nth_subslice\<close>)
  show "subslice (p + 26) 2 (new_inode l p s) = le_bytes 2 1"
    by (rule nth_equalityI) (use assms l d in \<open>auto simp: nth_subslice\<close>)
qed

text \<open>An inode that is a directory, with the blocks the writer looks at; these lie inside the image,
  clear of all metadata.\<close>

definition directory :: "layout \<Rightarrow> img \<Rightarrow> nat \<Rightarrow> nat list \<Rightarrow> bool" where
  "directory l s dir bs \<longleftrightarrow> 1 \<le> dir \<and> dir \<le> l_inodes_count l \<and> dir \<in> inodes_in_use l s \<and>
     mode_is_directory (le_nat (subslice (inode_pos l s dir) 2 s)) \<and>
     bs = dir_blocks l (inode_pos l s dir) 0 (min (le_nat (subslice (inode_pos l s dir + 4) 4 s) div l_block_size l) 12) s \<and>
     (\<forall>b \<in> set bs. b * l_block_size l + l_block_size l \<le> length s \<and> clear_of_metadata l s (b * l_block_size l) (l_block_size l) \<and>
        (\<forall>g < l_group_count l. apart (b * l_block_size l) (l_block_size l)
           (desc_field l g 8 s * l_block_size l) (l_inodes_per_group l * l_inode_size l)))"

definition names :: "layout \<Rightarrow> img \<Rightarrow> nat list \<Rightarrow> u8 list set" where
  "names l s bs = {de_name e | b es e. b \<in> set bs \<and> block_records l s b = Some es \<and> e \<in> set es \<and> de_ino e \<noteq> 0}"

lemma scan_blocks_not_Panic:
  "i_block_slot p (i + n) \<le> length s \<Longrightarrow> scan_blocks l s name want p i n found room \<noteq> Panic"
proof (induction n arbitrary: i found room)
  case (Suc n)
  have rd: "ext2_read_u32 s (i_block_slot p i) = (Ok (le_nat (subslice (i_block_slot p i) 4 s)) :: (alloc_error, nat) outcome)"
    using Suc.prems by (simp add: ext2_read_u32_def read_le_def i_block_slot_def)
  show ?case using Suc
    by (auto simp: rd Let_def block_at_def scan_block_dirents bind_outcome_eq_Panic split: option.splits prod.splits)
qed simp

lemma scan_directory_cases:
  assumes v: "volume l s" and t: "tables_ok l s" and d: "directory l s dir bs"
  shows "scan_directory l dir name want s \<noteq> Panic"
    "scan_directory l dir name want s = Ok fr \<Longrightarrow>
       \<exists>ess. map (block_records l s) bs = map Some ess \<and> fr = scan_lists name want (None, None) ess"
proof -
  let ?p = "inode_pos l s dir" and ?n = "min (le_nat (subslice (inode_pos l s dir + 4) 4 s) div l_block_size l) 12"
  have i: "1 \<le> dir" "dir \<le> l_inodes_count l" using d by (auto simp: directory_def)
  note slot = inode_slot [OF v t i]
  have big: "128 \<le> l_inode_size l" using t by (simp add: tables_ok_def)
  have bs: "0 < l_block_size l" using volumeD(1) [OF v] by (simp add: layout_wf_def)
  have room: "i_block_slot ?p (0 + ?n) \<le> length s" using slot(2) big by (auto simp: i_block_slot_def)
  have eq: "scan_directory l dir name want s = scan_blocks l s name want ?p 0 ?n None None"
    using slot(2) big bs d
    by (simp add: inode_slot(1) [OF v t i] scan_directory_def ok_or_outcome_def ext2_read_u16_def ext2_read_u32_def read_le_def directory_def DIRECT_BLOCK_COUNT_def)
  show "scan_directory l dir name want s \<noteq> Panic" unfolding eq by (rule scan_blocks_not_Panic [OF room])
  show "\<exists>ess. map (block_records l s) bs = map Some ess \<and> fr = scan_lists name want (None, None) ess"
    if "scan_directory l dir name want s = Ok fr"
  proof -
    have b: "bs = dir_blocks l ?p 0 ?n s" using d by (simp add: directory_def)
    have "\<forall>b \<in> set (dir_blocks l ?p 0 ?n s). b * l_block_size l + l_block_size l \<le> length s"
      using d by (auto simp: directory_def)
    from scan_blocks_Ok [OF room this that [unfolded eq]] show ?thesis using b by simp
  qed
qed

lemma find_room_cases:
  assumes v: "volume l s" and t: "tables_ok l s" and d: "directory l s dir bs"
  shows "find_room l dir name s \<noteq> Panic"
    "find_room l dir name s = Ok p \<Longrightarrow> name \<notin> names l s bs \<and> \<not> bad_new_name name \<and>
       (\<exists>b \<in> set bs. \<exists>pre e post. block_records l s b = Some (pre @ e # post) \<and> de_pos e = p \<and> roomy (dirent_span (length name)) e)"
proof -
  let ?scan = "scan_directory l dir name (dirent_span (length name)) s"
  note sc = scan_directory_cases [OF v t d, of name "dirent_span (length name)"]
  show "find_room l dir name s \<noteq> Panic"
    using sc(1) by (auto simp: find_room_def bind_outcome_eq_Panic split: prod.splits)
  show "name \<notin> names l s bs \<and> \<not> bad_new_name name \<and>
       (\<exists>b \<in> set bs. \<exists>pre e post. block_records l s b = Some (pre @ e # post) \<and> de_pos e = p \<and> roomy (dirent_span (length name)) e)"
    if ok: "find_room l dir name s = Ok p"
  proof -
    obtain f r where fr: "?scan = Ok (f, r)" "f = None" "\<exists>before. r = Some (p, before)" and good: "\<not> bad_new_name name"
      using ok by (cases ?scan) (auto simp: find_room_def split: if_splits prod.splits simp del: not_None_eq)
    from sc(2) [OF fr(1)] obtain ess where ess: "map (block_records l s) bs = map Some ess"
      "(f, r) = scan_lists name (dirent_span (length name)) (None, None) ess" by blast
    have member: "es \<in> set ess \<longleftrightarrow> (\<exists>b \<in> set bs. block_records l s b = Some es)" for es
    proof -
      have "Some ` set ess = block_records l s ` set bs" using arg_cong [OF ess(1), of set] by simp
      then show ?thesis by (metis (no_types, lifting) image_iff option.inject)
    qed
    have none: "\<forall>es \<in> set ess. \<forall>e \<in> set es. \<not> live name e"
      using scan_lists_None(1) [of name "dirent_span (length name)" "(None, None)" ess] ess(2) fr(2) by (metis fst_conv)
    have "name \<notin> names l s bs"
      unfolding names_def using none member by blast
    moreover obtain before where "snd (scan_lists name (dirent_span (length name)) (None, None) ess) = Some (p, before)"
      using fr(3) ess(2) by (metis snd_conv)
    from scan_lists_room [OF this] obtain es pre e post where
      "es \<in> set ess" "es = pre @ e # post" "de_pos e = p" "roomy (dirent_span (length name)) e" by auto
    ultimately show ?thesis using good member by blast
  qed
qed

lemma block_apart: "b \<noteq> c \<Longrightarrow> b * (n::nat) + n \<le> c * n \<or> c * n + n \<le> b * n"
proof -
  assume "b \<noteq> c"
  then have "Suc b \<le> c \<or> Suc c \<le> b" by linarith
  then have "Suc b * n \<le> c * n \<or> Suc c * n \<le> b * n" using mult_le_mono1 by blast
  then show ?thesis by (simp add: add.commute)
qed


lemma slots_apart:
  assumes v: "volume l s" and t: "tables_ok l s" and a: "1 \<le> a" "a \<le> l_inodes_count l" and b: "1 \<le> b" "b \<le> l_inodes_count l" and ne: "a \<noteq> b"
  shows "apart (inode_pos l s a) (l_inode_size l) (inode_pos l s b) (l_inode_size l)"
proof (cases "(a - 1) div l_inodes_per_group l = (b - 1) div l_inodes_per_group l")
  case True
  then have "(a - 1) mod l_inodes_per_group l \<noteq> (b - 1) mod l_inodes_per_group l"
    using ne a b by (metis div_mult_mod_eq eq_diff_iff)
  from block_apart [OF this, of "l_inode_size l"] show ?thesis
    unfolding inode_pos_def apart_def True by linarith
next
  case False
  note sa = inode_slot(4-6) [OF v t a] and sb = inode_slot(4-6) [OF v t b]
  have "apart (desc_field l ((a - 1) div l_inodes_per_group l) 8 s * l_block_size l) (l_inodes_per_group l * l_inode_size l)
      (desc_field l ((b - 1) div l_inodes_per_group l) 8 s * l_block_size l) (l_inodes_per_group l * l_inode_size l)"
    using t sa(1) sb(1) False by (simp add: tables_ok_def Let_def)
  then show ?thesis using sa(2,3) sb(2,3) unfolding apart_def by linarith
qed

lemma taken_tables:
  assumes v: "volume l s" and k: "k \<in> {0, 4}" and tk: "takeable l k g i s"
  shows "h < l_group_count l \<Longrightarrow> desc_field l h 8 (taken l k g i s) = desc_field l h 8 s"
    "clear_of_metadata l (taken l k g i s) p n = clear_of_metadata l s p n"
    "tables_ok l (taken l k g i s) = tables_ok l s"
    "1 \<le> ino \<Longrightarrow> ino \<le> l_inodes_count l \<Longrightarrow> inode_pos l (taken l k g i s) ino = inode_pos l s ino"
proof -
  have gi: "g < l_group_count l" "i < units_per_group l k"
    using tk group_span_le [of l k g] by (auto simp: takeable_def)
  show df: "desc_field l h 8 (taken l k g i s) = desc_field l h 8 s" if "h < l_group_count l" for h
    unfolding taken_def by (rule settled_desc_field [OF v k gi that]) simp
  have mp: "map_pos l j h (taken l k g i s) = map_pos l j h s" if "h < l_group_count l" "j \<in> {0, 4}" for j h
    unfolding taken_def by (rule settled_map_pos [OF v k gi that])
  show cl: "clear_of_metadata l (taken l k g i s) p n = clear_of_metadata l s p n" for p n
    using mp by (simp add: clear_of_metadata_def)
  show "tables_ok l (taken l k g i s) = tables_ok l s"
    using df taken_facts(2) [OF v k tk] by (simp add: tables_ok_def cl Let_def)
  show "inode_pos l (taken l k g i s) ino = inode_pos l s ino" if "1 \<le> ino" "ino \<le> l_inodes_count l"
    using df inode_coordinates(1) [OF volumeD(1) [OF v] that] by (simp add: inode_pos_def)
qed

text \<open>From the room found to the finished file, one step after the other.\<close>

lemma new_inode_run:
  assumes t: "tables_ok l s" and fits: "p + l_inode_size l \<le> length s"
  shows "bind_img (fill_zero p (l_inode_size l)) (\<lambda>_.
     bind_img (put_u16 p (MODE_REGULAR OR 420)) (\<lambda>_.
     bind_img (put_extra_isize l p) (\<lambda>_.
     bind_img (put_u16 (p + 26) 1) f))) s = f () (new_inode l p s)"
proof -
  have n: "128 \<le> l_inode_size l" "l_want_extra_isize l = 0 \<or> 130 \<le> l_inode_size l" using t by (auto simp: tables_ok_def)
  show ?thesis
    using n fits
    by (cases "l_want_extra_isize l = 0")
      (simp_all add: img_simps put_extra_isize_def new_inode_def INODE_EXTRA_ISIZE_def INODE_CORE_LEN_def)
qed

lemma new_inode_keeps:
  assumes v: "volume l s" and t: "tables_ok l s" and i: "1 \<le> ino" "ino \<le> l_inodes_count l"
  shows "keeps l s (new_inode l (inode_pos l s ino) s)"
proof -
  note slot = inode_slot [OF v t i]
  have n: "128 \<le> l_inode_size l" "l_want_extra_isize l = 0 \<or> 130 \<le> l_inode_size l" using t by (auto simp: tables_ok_def)
  note f = new_inode_facts [OF n slot(2)]
  show ?thesis
    unfolding keeps_def using f(1) f(2) clear_not_in [OF slot(3)] by blast
qed

lemma records_same:
  assumes "length s' = length s" "b * l_block_size l + l_block_size l \<le> length s"
    "\<And>j. b * l_block_size l \<le> j \<Longrightarrow> j < b * l_block_size l + l_block_size l \<Longrightarrow> s' ! j = s ! j"
  shows "block_records l s' b = block_records l s b"
  by (rule dirents_cong) (use assms in auto)

text \<open>Exactly one record more, in one block, after a record that gives up its slack.\<close>

definition added :: "layout \<Rightarrow> nat list \<Rightarrow> u8 list \<Rightarrow> nat \<Rightarrow> nat \<Rightarrow> img \<Rightarrow> img \<Rightarrow> bool" where
  "added l bs name ino ty s s' \<longleftrightarrow>
     (\<exists>b \<in> set bs. \<exists>pre e post. block_records l s b = Some (pre @ e # post) \<and>
        block_records l s' b = Some (pre @ shortened e # new_record e ino name ty # post) \<and>
        (\<forall>c \<in> set bs - {b}. block_records l s' c = block_records l s c))"

lemma insert_into_block:
  fixes ty :: nat
  assumes v: "volume l s" and b: "b * l_block_size l + l_block_size l \<le> length s" "clear_of_metadata l s (b * l_block_size l) (l_block_size l)"
    and r: "block_records l s b = Some (pre @ e # post)" and room: "roomy (dirent_span (length name)) e"
    and n: "length name \<le> 255" "ino < u32_limit"
  defines "s' \<equiv> with_dirent (de_pos e) (dirent_span (length (de_name e))) ino name ty s"
  shows "insert_dirent (de_pos e) ino name ty s = (Ok (), s')" "keeps l s s'" "length s' = length s"
    "block_records l s' b = Some (pre @ shortened e # new_record e ino name ty # post)"
    "j < length s \<Longrightarrow> \<not> (b * l_block_size l \<le> j \<and> j < b * l_block_size l + l_block_size l) \<Longrightarrow> s' ! j = s ! j"
proof -
  let ?base = "b * l_block_size l" and ?fin = "b * l_block_size l + l_block_size l"
  let ?k = "dirent_span (length (de_name e))"
  let ?s' = "with_dirent (de_pos e) ?k ino name ty s"
  have p: "?base \<le> de_pos e" "de_pos e + 8 \<le> ?fin" "record_ok s ?fin (de_pos e)" "e = dirent_at s (de_pos e)"
    using dirents_positions [OF r, of e] by auto
  note ro = record_ok_len [OF p(3), folded p(4)]
  have nl: "length (de_name e) = unat (s ! (de_pos e + 6))" using name_length [OF p(3) b(1)] p(4) by simp
  have slack: "?k + dirent_span (length name) \<le> de_len e"
    using room dirent_span_props(1) [of "length name"] unfolding roomy_def by linarith
  have sp: "8 + length (de_name e) \<le> ?k" "8 + length name \<le> dirent_span (length name)" using dirent_span_props(1) by blast+
  have bd: "de_pos e + 8 \<le> de_pos e + ?k" "de_pos e + ?k + 8 + length name \<le> ?fin" using sp slack ro(2) by linarith+
  note f = with_dirent_facts [where ino = ino and ty = ty, OF bd(1) order_trans [OF bd(2) b(1)]]
  have out: "?s' ! j = s ! j" if "j < length s" "\<not> (?base \<le> j \<and> j < ?fin)" for j
    by (rule f(2) [OF that(1)]) (use that(2) p(1,2) bd in linarith)+
  show "insert_dirent (de_pos e) ino name ty s = (Ok (), s')"
    unfolding s'_def using insert_dirent_result [OF p(3,2) b(1), of name ino ty] slack nl p(4) by simp
  show "keeps l s s'" unfolding s'_def keeps_def using f(1) out clear_not_in [OF b(2)] by blast
  show "length s' = length s" unfolding s'_def by (rule f(1))
  show "block_records l s' b = Some (pre @ shortened e # new_record e ino name ty # post)"
    unfolding s'_def by (rule dirents_insert [OF b(1) n(2,1) slack r])
  show "s' ! j = s ! j" if "j < length s" "\<not> (?base \<le> j \<and> j < ?fin)" unfolding s'_def by (rule out [OF that])
qed

text \<open>Besides what \<open>s1\<close> changed of the metadata, only the slot at \<open>p\<close> and the blocks \<open>bs\<close> were written.\<close>

definition wrote :: "layout \<Rightarrow> nat list \<Rightarrow> nat \<Rightarrow> img \<Rightarrow> img \<Rightarrow> img \<Rightarrow> bool" where
  "wrote l bs p s s1 s' \<longleftrightarrow> keeps l s1 s' \<and> length s' = length s \<and>
     (\<forall>j < length s. \<not> in_metadata l s j \<longrightarrow> \<not> (p \<le> j \<and> j < p + l_inode_size l) \<longrightarrow>
        (\<forall>b \<in> set bs. \<not> (b * l_block_size l \<le> j \<and> j < b * l_block_size l + l_block_size l)) \<longrightarrow> s' ! j = s ! j)"

lemma create_file_ok:
  assumes c: "consistent l s" and t: "tables_ok l s" and d: "directory l s dir bs"
    and room: "find_room l dir name s = Ok p"
    and take: "takeable l 4 g i s" "ino = g * l_inodes_per_group l + 1 + i" "allocate_inode l s = (Ok ino, taken l 4 g i s)"
  obtains s' b pre e post where "b \<in> set bs" "block_records l s b = Some (pre @ e # post)" "roomy (dirent_span (length name)) e"
    "s' = with_dirent (de_pos e) (dirent_span (length (de_name e))) ino name 1 (new_inode l (inode_pos l s ino) (taken l 4 g i s))"
    "block_records l s' b = Some (pre @ shortened e # new_record e ino name 1 # post)"
    "\<And>c. c \<in> set bs - {b} \<Longrightarrow> block_records l s' c = block_records l s c"
    "create_file l dir name s = (Ok ino, s')" "wrote l bs (inode_pos l s ino) s (taken l 4 g i s) s'"
    "\<And>j. inode_pos l s ino \<le> j \<Longrightarrow> j < inode_pos l s ino + l_inode_size l \<Longrightarrow>
       s' ! j = new_inode l (inode_pos l s ino) (taken l 4 g i s) ! j"
proof -
  have v: "volume l s" using c by (simp add: consistent_def)
  let ?s1 = "taken l 4 g i s" and ?p = "inode_pos l s ino"
  let ?s2 = "new_inode l ?p ?s1"
  have k4: "(4 :: nat) \<in> {0, 4}" by simp
  note tf = taken_facts(1,2) [OF v k4 take(1)] and tt = taken_tables [OF v k4 take(1)]
  have gi: "g < l_group_count l" "i < l_inodes_per_group l" using take(1) by (auto simp: takeable_def group_span_def)
  have ino: "1 \<le> ino" "ino \<le> l_inodes_count l"
    using inode_group_span(1) [OF volumeD(1) [OF v] gi(1)] gi(2) take(2) by (simp_all add: group_span_def)
  have t1: "tables_ok l ?s1" using t tt(3) by simp
  have pos1: "inode_pos l ?s1 ino = ?p" by (rule tt(4) [OF ino])
  note slot = inode_slot [OF tf(1) t1 ino, unfolded pos1] and slot0 = inode_slot [OF v t ino]
  have n: "128 \<le> l_inode_size l" "l_want_extra_isize l = 0 \<or> 130 \<le> l_inode_size l" using t by (auto simp: tables_ok_def)
  note nf = new_inode_facts [OF n slot(2)]
  have k12: "keeps l ?s1 ?s2" using new_inode_keeps [OF tf(1) t1 ino] pos1 by simp
  have len: "length ?s2 = length s" using nf(1) tf(2) by simp
  have data: "?s2 ! j = s ! j" if "j < length s" "\<not> in_metadata l s j" "\<not> (?p \<le> j \<and> j < ?p + l_inode_size l)" for j
    using nf(2) [of j] that tf(2) taken_data [OF v k4 take(1) that(1,2)] by simp
  have dirb: "b * l_block_size l + l_block_size l \<le> length s" "clear_of_metadata l s (b * l_block_size l) (l_block_size l)"
    "apart (b * l_block_size l) (l_block_size l) ?p (l_inode_size l)" if "b \<in> set bs" for b
  proof -
    show "b * l_block_size l + l_block_size l \<le> length s" "clear_of_metadata l s (b * l_block_size l) (l_block_size l)"
      using d that by (auto simp: directory_def)
    have "apart (b * l_block_size l) (l_block_size l)
        (desc_field l ((ino - 1) div l_inodes_per_group l) 8 s * l_block_size l) (l_inodes_per_group l * l_inode_size l)"
      using d that slot0(4) by (auto simp: directory_def)
    then show "apart (b * l_block_size l) (l_block_size l) ?p (l_inode_size l)"
      using slot0(5,6) unfolding apart_def by linarith
  qed
  have rec2: "block_records l ?s2 b = block_records l s b" if b: "b \<in> set bs" for b
  proof (rule records_same [OF len dirb(1) [OF b]])
    fix j assume "b * l_block_size l \<le> j" "j < b * l_block_size l + l_block_size l"
    then show "?s2 ! j = s ! j"
      using clear_not_in [OF dirb(2) [OF b]] dirb(1,3) [OF b] unfolding apart_def by (intro data) auto
  qed
  from find_room_cases(2) [OF v t d room] obtain b pre e post where
    b: "b \<in> set bs" "block_records l s b = Some (pre @ e # post)" "de_pos e = p" "roomy (dirent_span (length name)) e" and good: "\<not> bad_new_name name"
    by blast
  have v2: "volume l ?s2" by (rule keeps_facts(6) [OF tf(1) k12])
  have clear2: "clear_of_metadata l ?s2 (b * l_block_size l) (l_block_size l)"
    using keeps_clear [OF tf(1) k12] tt(2) dirb(2) [OF b(1)] by simp
  have fin2: "b * l_block_size l + l_block_size l \<le> length ?s2" using dirb(1) [OF b(1)] len by simp
  have nm: "length name \<le> 255" using good by (simp add: bad_new_name_def MAX_NAME_LEN_def)
  have small: "ino < u32_limit" using ino(2) volumeD(1) [OF v] unfolding layout_wf_def by linarith
  have r2: "block_records l ?s2 b = Some (pre @ e # post)" using rec2 [OF b(1)] b(2) by simp
  define s' where "s' = with_dirent (de_pos e) (dirent_span (length (de_name e))) ino name 1 ?s2"
  note s' = insert_into_block [OF v2 fin2 clear2 r2 b(4) nm small, where ty = 1, folded s'_def]
  show thesis
  proof (rule that [OF b(1,2,4) s'_def s'(4)])
    have at: "inode_at l ?s1 ino = (Ok (Some ?p) :: (alloc_error, nat option) outcome)"
      using inode_slot(1) [OF tf(1) t1 ino] pos1 by simp
    show "create_file l dir name s = (Ok ino, s')"
      by (simp only: create_file_def bind_img_simps(3) room outcome.case bind_img_run [of "allocate_inode l" s ino ?s1, OF take(3)]
          ok_or_outcome_def at bind_outcome_simps ok_or_simps new_inode_run [OF t1 slot(2)] DIRENT_TYPE_REGULAR_def
          b(3) [symmetric] bind_img_run [of "insert_dirent (de_pos e) ino name 1" ?s2 "()" s', OF s'(1)] return_img_def)
    show "block_records l s' c = block_records l s c" if "c \<in> set bs - {b}" for c
    proof -
      have cb: "c \<in> set bs" "c \<noteq> b" using that by auto
      have "block_records l s' c = block_records l ?s2 c"
        by (rule records_same [OF s'(3)], use dirb(1) [OF cb(1)] len in simp, rule s'(5))
          (use block_apart [OF cb(2), of "l_block_size l"] dirb(1) [OF cb(1)] len in auto)
      then show ?thesis using rec2 [OF cb(1)] by simp
    qed
    have "s' ! j = s ! j" if "j < length s" "\<not> in_metadata l s j" "\<not> (?p \<le> j \<and> j < ?p + l_inode_size l)"
      "\<forall>b \<in> set bs. \<not> (b * l_block_size l \<le> j \<and> j < b * l_block_size l + l_block_size l)" for j
      using s'(5) [of j] bspec [OF that(4) b(1)] data [OF that(1-3)] that(1) len by simp
    then show "wrote l bs ?p s ?s1 s'"
      unfolding wrote_def using keeps_trans [OF tf(1) k12 s'(2)] s'(3) len by simp
    show "s' ! j = ?s2 ! j" if "?p \<le> j" "j < ?p + l_inode_size l" for j
      by (rule s'(5)) (use that dirb(3) [OF b(1)] slot0(2) len in \<open>auto simp: apart_def\<close>)
  qed
qed


lemma directory_kept:
  assumes v: "volume l s" and t: "tables_ok l s" and d: "directory l s dir bs"
    and same: "length s' = length s" "\<And>g. g < l_group_count l \<Longrightarrow> desc_field l g 8 s' = desc_field l g 8 s"
      "\<And>p n. clear_of_metadata l s' p n = clear_of_metadata l s p n" "dir \<in> inodes_in_use l s'"
      "\<And>j. inode_pos l s dir \<le> j \<Longrightarrow> j < inode_pos l s dir + l_inode_size l \<Longrightarrow> s' ! j = s ! j"
  shows "directory l s' dir bs"
proof -
  have i: "1 \<le> dir" "dir \<le> l_inodes_count l" using d by (auto simp: directory_def)
  have big: "128 \<le> l_inode_size l" using t by (simp add: tables_ok_def)
  have pos: "inode_pos l s' dir = inode_pos l s dir"
    using same(2) inode_coordinates(1) [OF volumeD(1) [OF v] i] by (simp add: inode_pos_def)
  have sl: "subslice (inode_pos l s dir + k) n s' = subslice (inode_pos l s dir + k) n s" if "k + n \<le> 128" for k n
    by (rule subslice_cong [OF same(1)], rule same(5)) (use that big in linarith)+
  have db: "dir_blocks l (inode_pos l s dir) 0 n s' = dir_blocks l (inode_pos l s dir) 0 n s" if "n \<le> 12" for n
  proof -
    have "subslice (i_block_slot (inode_pos l s dir) j) 4 s' = subslice (i_block_slot (inode_pos l s dir) j) 4 s" if "j < n" for j
      using sl [of "40 + j * 4" 4] that \<open>n \<le> 12\<close> by (simp add: i_block_slot_def add.assoc)
    then show ?thesis unfolding dir_blocks_def by (intro arg_cong [of _ _ "filter _"] map_cong) auto
  qed
  show ?thesis
    using d i sl [of 0 2] sl [of 4 4] db same(1-4) unfolding directory_def pos by simp
qed

lemma create_file_structure:
  assumes c: "consistent l s" and t: "tables_ok l s" and d: "directory l s dir bs" and tk: "takeable l 4 g i s"
    and ino: "ino = g * l_inodes_per_group l + 1 + i" and w: "wrote l bs (inode_pos l s ino) s (taken l 4 g i s) s'"
  shows "consistent l s'" "inodes_in_use l s' = insert ino (inodes_in_use l s)" "blocks_in_use l s' = blocks_in_use l s"
    "tables_ok l s'" "directory l s' dir bs" "inode_pos l s' ino = inode_pos l s ino" "1 \<le> ino" "ino \<le> l_inodes_count l"
    "ino \<notin> inodes_in_use l s"
proof -
  have v: "volume l s" using c by (simp add: consistent_def)
  have k4: "(4 :: nat) \<in> {0, 4}" by simp
  have c1: "consistent l (taken l 4 g i s)" by (rule taken_consistent [OF c k4 tk])
  have v1: "volume l (taken l 4 g i s)" using c1 by (simp add: consistent_def)
  have keep: "keeps l (taken l 4 g i s) s'" and len: "length s' = length s" using w by (auto simp: wrote_def)
  note kc = keeps_consistent [OF c1 keep] and tu = taken_inodes_in_use [OF v tk] and tt = taken_tables [OF v k4 tk]
  have gi: "g < l_group_count l" "i < l_inodes_per_group l" "\<not> unit_used l 4 g i s" using tk by (auto simp: takeable_def group_span_def)
  show bounds: "1 \<le> ino" "ino \<le> l_inodes_count l"
    using inode_group_span(1) [OF volumeD(1) [OF v] gi(1)] gi(2) ino by (simp_all add: group_span_def)
  show unused: "ino \<notin> inodes_in_use l s" using gi ino by (simp add: inodes_in_use_def)
  show "consistent l s'" "blocks_in_use l s' = blocks_in_use l s" using kc(1,3) tu(2) by simp_all
  show in_use: "inodes_in_use l s' = insert ino (inodes_in_use l s)" using kc(2) tu(1) ino by simp
  have df: "desc_field l h 8 s' = desc_field l h 8 s" if "h < l_group_count l" for h
    using keeps_facts(1) [OF v1 keep that, of 8] tt(1) [OF that] by simp
  have cl: "clear_of_metadata l s' q n = clear_of_metadata l s q n" for q n using keeps_clear [OF v1 keep] tt(2) by simp
  show "tables_ok l s'" using t df len by (simp add: tables_ok_def cl Let_def)
  show "inode_pos l s' ino = inode_pos l s ino"
    using df inode_coordinates(1) [OF volumeD(1) [OF v] bounds] by (simp add: inode_pos_def)
  have dir: "1 \<le> dir" "dir \<le> l_inodes_count l" "dir \<in> inodes_in_use l s" "dir \<noteq> ino"
    using d unused by (auto simp: directory_def)
  note slot = inode_slot [OF v t dir(1,2)]
  show "directory l s' dir bs"
  proof (rule directory_kept [OF v t d len df cl])
    show "dir \<in> inodes_in_use l s'" using dir(3) in_use by simp
    fix j assume j: "inode_pos l s dir \<le> j" "j < inode_pos l s dir + l_inode_size l"
    have "j < length s" "\<not> in_metadata l s j" using slot(2) clear_not_in [OF slot(3) j] j by linarith+
    moreover have "\<not> (inode_pos l s ino \<le> j \<and> j < inode_pos l s ino + l_inode_size l)"
      using slots_apart [OF v t dir(1,2) bounds dir(4)] j unfolding apart_def by linarith
    moreover have "\<not> (b * l_block_size l \<le> j \<and> j < b * l_block_size l + l_block_size l)" if "b \<in> set bs" for b
    proof -
      have "apart (b * l_block_size l) (l_block_size l)
          (desc_field l ((dir - 1) div l_inodes_per_group l) 8 s * l_block_size l) (l_inodes_per_group l * l_inode_size l)"
        using d that slot(4) by (auto simp: directory_def)
      then show ?thesis using slot(5,6) j unfolding apart_def by linarith
    qed
    ultimately show "s' ! j = s ! j" using w by (simp add: wrote_def)
  qed
qed

text \<open>A scan of a directory all of whose blocks hold sound records succeeds.\<close>

lemma scan_blocks_total:
  assumes "i_block_slot p (i + n) \<le> length s" "\<forall>b \<in> set (dir_blocks l p i n s). b * l_block_size l + l_block_size l \<le> length s"
    "\<forall>b \<in> set (dir_blocks l p i n s). block_records l s b \<noteq> None"
  shows "\<exists>fr. scan_blocks l s name want p i n found room = Ok fr"
  using assms
proof (induction n arbitrary: i found room)
  case (Suc n)
  let ?b = "le_nat (subslice (i_block_slot p i) 4 s)"
  have cons: "dir_blocks l p i (Suc n) s = (if ?b = 0 then [] else [?b]) @ dir_blocks l p (Suc i) n s"
    by (simp add: dir_blocks_def upt_conv_Cons del: upt_Suc)
  have rd: "ext2_read_u32 s (i_block_slot p i) = (Ok ?b :: (alloc_error, nat) outcome)"
    using Suc.prems(1) by (simp add: ext2_read_u32_def read_le_def i_block_slot_def)
  have sub: "i_block_slot p (Suc i + n) \<le> length s" "\<forall>b \<in> set (dir_blocks l p (Suc i) n s). b * l_block_size l + l_block_size l \<le> length s"
    "\<forall>b \<in> set (dir_blocks l p (Suc i) n s). block_records l s b \<noteq> None"
    using Suc.prems by (auto simp: cons)
  show ?case
  proof (cases "?b = 0")
    case True
    then show ?thesis using Suc.IH [OF sub] by (simp add: rd)
  next
    case False
    then have fin: "?b * l_block_size l + l_block_size l \<le> length s" and some: "block_records l s ?b \<noteq> None"
      using Suc.prems(2,3) by (auto simp: cons)
    from some obtain es where es: "block_records l s ?b = Some es" by blast
    show ?thesis using False fin es Suc.IH [OF sub]
      by (simp add: rd Let_def block_at_def scan_block_dirents [OF fin] case_prod_beta)
  qed
qed simp

lemma scan_directory_total:
  assumes v: "volume l s" and t: "tables_ok l s" and d: "directory l s dir bs" and r: "\<forall>b \<in> set bs. block_records l s b \<noteq> None"
  shows "\<exists>ess. map (block_records l s) bs = map Some ess \<and> scan_directory l dir name want s = Ok (scan_lists name want (None, None) ess)"
proof -
  let ?p = "inode_pos l s dir" and ?n = "min (le_nat (subslice (inode_pos l s dir + 4) 4 s) div l_block_size l) 12"
  have i: "1 \<le> dir" "dir \<le> l_inodes_count l" using d by (auto simp: directory_def)
  note slot = inode_slot [OF v t i]
  have big: "128 \<le> l_inode_size l" using t by (simp add: tables_ok_def)
  have bs: "0 < l_block_size l" using volumeD(1) [OF v] by (simp add: layout_wf_def)
  have room: "i_block_slot ?p (0 + ?n) \<le> length s" using slot(2) big by (auto simp: i_block_slot_def)
  have b: "bs = dir_blocks l ?p 0 ?n s" "\<forall>b \<in> set (dir_blocks l ?p 0 ?n s). b * l_block_size l + l_block_size l \<le> length s"
    using d by (auto simp: directory_def)
  have "scan_directory l dir name want s = scan_blocks l s name want ?p 0 ?n None None"
    using slot(2) big bs d
    by (simp add: inode_slot(1) [OF v t i] scan_directory_def ok_or_outcome_def ext2_read_u16_def ext2_read_u32_def read_le_def
        directory_def DIRECT_BLOCK_COUNT_def)
  moreover obtain fr where fr: "scan_blocks l s name want ?p 0 ?n None None = Ok fr"
    using scan_blocks_total [OF room b(2)] r b(1) by blast
  ultimately show ?thesis using scan_blocks_Ok [OF room b(2) fr] b(1) by auto
qed

text \<open>The new inode, as the finished image holds it.\<close>

lemma new_inode_content:
  assumes t: "tables_ok l s" and fits: "p + l_inode_size l \<le> length s1" "length s' = length s1"
    and same: "\<forall>j \<in> {p ..< p + l_inode_size l}. s' ! j = new_inode l p s1 ! j"
  shows "subslice p 2 s' = le_bytes 2 (MODE_REGULAR OR 420)" "subslice (p + 4) 4 s' = replicate 4 0"
    "subslice (p + 26) 2 s' = le_bytes 2 1" "subslice (p + 28) 4 s' = replicate 4 0"
proof -
  have big: "128 \<le> l_inode_size l" "l_want_extra_isize l = 0 \<or> 130 \<le> l_inode_size l" using t by (auto simp: tables_ok_def)
  note nf = new_inode_facts [OF big fits(1)]
  have content: "subslice (p + k) n s' = subslice (p + k) n (new_inode l p s1)" if "k + n \<le> 128" for k n
    by (rule subslice_cong, use fits nf(1) in simp, rule same [rule_format]) (use that big in simp)
  show "subslice p 2 s' = le_bytes 2 (MODE_REGULAR OR 420)" using content [of 0 2] nf(3) by simp
  show "subslice (p + 4) 4 s' = replicate 4 0" using content [of 4 4] nf(4) by simp
  show "subslice (p + 26) 2 s' = le_bytes 2 1" using content [of 26 2] nf(5) by simp
  show "subslice (p + 28) 4 s' = replicate 4 0" using content [of 28 4] nf(6) by simp
qed

lemma regular_mode_word: "mode_is_regular (le_nat (le_bytes 2 (MODE_REGULAR OR 420)))"
  by (simp add: le_nat_le_bytes mode_is_regular_def MODE_FORMAT_MASK_def MODE_REGULAR_def)

text \<open>C20: creating a file either refuses without having written anything, because the scan of the
  directory refused (a bad name, a name taken, no room) or because every inode past the reserved ones is in use, or takes an inode that was free
  and adds one record for it to the directory: every other record of every block of the directory is
  as before, the record after which the new one stands gave up only its slack, the name was not there
  before, the counters agree with the bitmaps again, and the new inode is an empty regular file with one
  link. It never panics.\<close>

theorem create_file_adds_one_entry:
  assumes "consistent l s" "tables_ok l s" "directory l s dir bs"
  shows "case create_file l dir name s of
      (Ok ino, s') \<Rightarrow> ino \<notin> inodes_in_use l s \<and> inodes_in_use l s' = insert ino (inodes_in_use l s) \<and>
        blocks_in_use l s' = blocks_in_use l s \<and> name \<notin> names l s bs \<and> added l bs name ino DIRENT_TYPE_REGULAR s s' \<and>
        consistent l s' \<and> tables_ok l s' \<and> directory l s' dir bs \<and>
        mode_is_regular (le_nat (subslice (inode_pos l s' ino) 2 s')) \<and>
        le_nat (subslice (inode_pos l s' ino + 4) 4 s') = 0 \<and> le_nat (subslice (inode_pos l s' ino + 26) 2 s') = 1
    | (Err e, s') \<Rightarrow> s' = s \<and> (find_room l dir name s = Err e \<or> e = Full \<and>
        (\<forall>i. 1 \<le> i \<and> l_first_inode l \<le> i \<and> i \<le> l_inodes_count l \<longrightarrow> i \<in> inodes_in_use l s))
    | (Panic, s') \<Rightarrow> False"
proof (cases "find_room l dir name s")
  case (Err e)
  then show ?thesis by (simp add: create_file_def bind_img_def reading_def)
next
  case Panic
  have "volume l s" using assms(1) by (simp add: consistent_def)
  then show ?thesis using find_room_cases(1) [OF _ assms(2,3)] Panic by blast
next
  case (Ok p)
  have v: "volume l s" and cnt: "counted l 4 s" using assms(1) by (auto simp: consistent_def)
  have k4: "(4 :: nat) \<in> {0, 4}" by simp
  from allocate_inode_from_cases [OF v cnt, of 0 "l_group_count l"]
  consider g i ino where "takeable l 4 g i s" "ino = g * l_inodes_per_group l + 1 + i" "allocate_inode l s = (Ok ino, taken l 4 g i s)"
    | "allocate_inode l s = (Err Full, s)"
    unfolding allocate_inode_def by auto
  then show ?thesis
  proof cases
    case 2
    then show ?thesis using Ok inodes.take_cases [OF assms(1)] by (auto simp: create_file_def bind_img_def reading_def)
  next
    case (1 g i ino)
    from create_file_ok [OF assms Ok 1] obtain s' b pre e post where
      b: "b \<in> set bs" "block_records l s b = Some (pre @ e # post)"
        "block_records l s' b = Some (pre @ shortened e # new_record e ino name 1 # post)"
        "\<And>c. c \<in> set bs - {b} \<Longrightarrow> block_records l s' c = block_records l s c"
      and s': "create_file l dir name s = (Ok ino, s')" "wrote l bs (inode_pos l s ino) s (taken l 4 g i s) s'"
        "\<And>j. inode_pos l s ino \<le> j \<Longrightarrow> j < inode_pos l s ino + l_inode_size l \<Longrightarrow>
           s' ! j = new_inode l (inode_pos l s ino) (taken l 4 g i s) ! j"
      by metis
    note st = create_file_structure [OF assms 1(1,2) s'(2)]
    have add: "added l bs name ino 1 s s'" unfolding added_def using b by blast
    have fresh: "name \<notin> names l s bs" using find_room_cases(2) [OF v assms(2,3) Ok] by blast
    have len: "length (taken l 4 g i s) = length s" "length s' = length (taken l 4 g i s)"
      using taken_facts(2) [OF v k4 1(1)] s'(2) by (simp_all add: wrote_def)
    have "inode_pos l s ino + l_inode_size l \<le> length (taken l 4 g i s)"
      using inode_slot(2) [OF v assms(2) st(7,8)] len(1) by simp
    moreover have "\<forall>j \<in> {inode_pos l s ino ..< inode_pos l s ino + l_inode_size l}.
        s' ! j = new_inode l (inode_pos l s ino) (taken l 4 g i s) ! j" using s'(3) by simp
    ultimately have content: "subslice (inode_pos l s ino) 2 s' = le_bytes 2 (MODE_REGULAR OR 420)"
        "subslice (inode_pos l s ino + 4) 4 s' = replicate 4 0" "subslice (inode_pos l s ino + 26) 2 s' = le_bytes 2 1"
      using new_inode_content [OF assms(2)] len(2) by blast+
    have "mode_is_regular (le_nat (subslice (inode_pos l s ino) 2 s'))"
      unfolding content(1) by (simp add: regular_mode_word)
    moreover have "le_nat (subslice (inode_pos l s ino + 4) 4 s') = 0" unfolding content(2) by simp
    moreover have "le_nat (subslice (inode_pos l s ino + 26) 2 s') = 1" unfolding content(3) by simp
    ultimately show ?thesis unfolding s'(1) DIRENT_TYPE_REGULAR_def using st add fresh by simp
  qed
qed

text \<open>The sample volume meets the hypotheses, and its root directory has room for a name.\<close>

lemma sample_inode:
  "subslice 5248 2 sample_volume = [237, 65]" "subslice 5252 4 sample_volume = [0, 4, 0, 0]" "subslice 5288 4 sample_volume = [6, 0, 0, 0]"
  by (simp_all add: sample_volume_def subslice_def)

lemma sample_positions:
  "l_group_count sample_layout = 1" "table_pos sample_layout = 2048" "map_len sample_layout 0 = 1" "map_len sample_layout 4 = 1"
  "map_pos sample_layout 0 0 sample_volume = 3072" "map_pos sample_layout 4 0 sample_volume = 4096"
  "desc_field sample_layout 0 8 sample_volume = 5" "inode_pos sample_layout sample_volume 2 = 5248"
  "l_block_size sample_layout = 1024" "l_inodes_per_group sample_layout = 8" "l_inode_size sample_layout = 128"
  "l_inodes_count sample_layout = 8" "l_want_extra_isize sample_layout = 0"
  by (simp_all add: map_pos_def desc_field_def desc_pos_def table_pos_def sample_layout_def sample_slices
      map_len_def units_per_group_def inode_pos_def)

lemma sample_clear: "clear_of_metadata sample_layout sample_volume p n" if "4097 \<le> p"
  using that by (simp add: clear_of_metadata_def apart_def sample_positions)

lemma sample_tables: "tables_ok sample_layout sample_volume"
  by (simp add: tables_ok_def sample_positions Let_def sample_clear sample_slices(1))

lemma sample_directory: "directory sample_layout sample_volume 2 [6]"
proof -
  have "unit_used sample_layout 4 0 1 sample_volume" by (simp add: unit_used_def sample_positions sample_slices)
  then have "2 \<in> inodes_in_use sample_layout sample_volume" by (simp add: inodes_in_use_def sample_positions)
  moreover have "dir_blocks sample_layout 5248 0 1 sample_volume = [6]"
    by (simp add: dir_blocks_def upt_rec sample_inode i_block_slot_def)
  moreover have "mode_is_directory (le_nat [237, 65])" by (simp add: mode_is_directory_def MODE_FORMAT_MASK_def MODE_DIRECTORY_def)
  ultimately show ?thesis
    unfolding directory_def sample_positions by (simp add: sample_inode sample_clear sample_positions sample_slices(1) apart_def)
qed

lemma sample_records: "dirents sample_volume 7168 6144 = Some
  [\<lparr>de_pos = 6144, de_ino = 2, de_len = 12, de_name = [46], de_type = 2\<rparr>,
   \<lparr>de_pos = 6156, de_ino = 2, de_len = 1012, de_name = [46, 46], de_type = 2\<rparr>]"
proof -
  have sl: "subslice 6144 4 sample_volume = [2, 0, 0, 0]" "subslice 6148 2 sample_volume = [12, 0]" "sample_volume ! 6150 = 1"
     "sample_volume ! 6151 = 2"  "subslice 6152 (Suc 0) sample_volume = [46]"
     "subslice 6156 4 sample_volume = [2, 0, 0, 0]" "subslice 6160 2 sample_volume = [244, 3]" "sample_volume ! 6162 = 2"
     "sample_volume ! 6163 = 2"  "subslice 6164 2 sample_volume = [46, 46]"
    by (simp_all add: sample_volume_def subslice_def nth_append)
  show ?thesis 
    by (simp add: sample_positions dirents.simps [of _ _ 6144] dirents.simps [of _ _ 6156] dirents.simps [of _ _ 7168]
         record_ok_def dirent_at_def sl)
qed

lemma sample_spans: "dirent_span (Suc 0) = 12" "dirent_span (Suc (Suc 0)) = 12" "\<not> bad_new_name [97]"
  by (simp_all add: dirent_span_def next_multiple_of_def DIRENT_HEADER_LEN_def DIRENT_ALIGNMENT_def bad_new_name_def MAX_NAME_LEN_def
      PATH_SEPARATOR_def dot_def dot_dot_def)

lemma sample_room: "find_room sample_layout 2 [97] sample_volume = Ok 6156"
proof -
  have v: "volume sample_layout sample_volume" using sample_consistent by (simp add: consistent_def)
  have "\<forall>b \<in> set [6]. block_records sample_layout sample_volume b \<noteq> None" by (simp add: sample_records sample_positions)
  from scan_directory_total [OF v sample_tables sample_directory this, of "[97]" "dirent_span 1"]
  have "scan_directory sample_layout 2 [97] (dirent_span 1) sample_volume = Ok (None, Some (6156, Some 6144))"
    using sample_spans by (auto simp: sample_records sample_positions scan_lists_def)
  then show ?thesis using sample_spans by (simp add: find_room_def ok_or_def)
qed

lemma sample_unused:
  "3 \<notin> inodes_in_use sample_layout sample_volume" "l_first_inode sample_layout = 3" "3 \<le> l_inodes_count sample_layout"
  by (simp_all add: inodes_in_use_def unit_used_def sample_positions sample_slices) (simp add: sample_layout_def)

theorem create_file_adds_one_entry_witness:
  "\<exists>ino s'. create_file sample_layout 2 [97] sample_volume = (Ok ino, s') \<and> added sample_layout [6] [97] ino DIRENT_TYPE_REGULAR sample_volume s'"
  using create_file_adds_one_entry [OF sample_consistent sample_tables sample_directory, of "[97]"] sample_room sample_unused
  by (force split: prod.splits outcome.splits)

end
