(* ===== verification/Vfs.thy ===== *)
theory Vfs
  imports Ext2_Account Socket
begin

unbundle bit_operations_syntax

text \<open>
  Open files (\<open>kernel/src/vfs.rs\<close>): what a descriptor can stand for, the table of a process, the root
  image; and the system calls of \<open>kernel/src/syscall.rs\<close> that work on files by path or by descriptor.

  Copying a path or a buffer to and from user memory is left out: a handler gets the path as bytes, and
  whether the user's buffer passed the check of the page tables (\<open>valid\<close>); the bytes that a call stores
  there are part of its result. A handler ends with a non-negative number or with the negated errno,
  which is an \<open>int\<close>; \<open>Panic\<close> stands for an arithmetic panic below it.
\<close>

subsection \<open>Error numbers\<close>

definition ENOENT :: int where "ENOENT = 2"
definition EIO :: int where "EIO = 5"
definition EBADF :: int where "EBADF = 9"
definition EFAULT :: int where "EFAULT = 14"
definition EEXIST :: int where "EEXIST = 17"
definition ENOTDIR :: int where "ENOTDIR = 20"
definition EISDIR :: int where "EISDIR = 21"
definition EINVAL :: int where "EINVAL = 22"
definition EMFILE :: int where "EMFILE = 24"
definition ENOSPC :: int where "ENOSPC = 28"
definition ESPIPE :: int where "ESPIPE = 29"
definition EROFS :: int where "EROFS = 30"
definition ENAMETOOLONG :: int where "ENAMETOOLONG = 36"
definition ENOTEMPTY :: int where "ENOTEMPTY = 39"

lemmas errno_defs =
  ENOENT_def EIO_def EBADF_def EFAULT_def EEXIST_def ENOTDIR_def EISDIR_def EINVAL_def EMFILE_def
  ENOSPC_def ESPIPE_def EROFS_def ENAMETOOLONG_def ENOTEMPTY_def ENOTCONN_def

fun errno_for_ext2 :: "ext2_error \<Rightarrow> int" where
  "errno_for_ext2 (NotADirectory _) = ENOTDIR"
| "errno_for_ext2 NotFound = ENOENT"
| "errno_for_ext2 PathNotAbsolute = EINVAL"
| "errno_for_ext2 (PathTooManyComponents _) = ENAMETOOLONG"
| "errno_for_ext2 _ = EIO"

fun errno_for_alloc :: "alloc_error \<Rightarrow> int" where
  "errno_for_alloc Full = ENOSPC"
| "errno_for_alloc NoRoomInDirectory = ENOSPC"
| "errno_for_alloc AllocNameTaken = EEXIST"
| "errno_for_alloc BadName = EINVAL"
| "errno_for_alloc NoSuchEntry = ENOENT"
| "errno_for_alloc (NotARegularFile _) = EISDIR"
| "errno_for_alloc (AllocNotADirectory _) = ENOTDIR"
| "errno_for_alloc (DirectoryNotEmpty _) = ENOTEMPTY"
| "errno_for_alloc _ = EIO"

subsection \<open>Open files\<close>

datatype socket_state = Unbound | ListenerAt nat | StreamAt nat side

datatype vfile =
    Regular inode nat bool
  | Terminal bool
  | PipeRead nat
  | PipeWrite nat
  | SocketFile socket_state
  | ShmFile nat
  | Input
  | Screen

fun pipe_read_end :: "vfile \<Rightarrow> nat option" where
  "pipe_read_end (PipeRead pipe) = Some pipe"
| "pipe_read_end _ = None"

fun pipe_write_end :: "vfile \<Rightarrow> nat option" where
  "pipe_write_end (PipeWrite pipe) = Some pipe"
| "pipe_write_end _ = None"

fun file_socket_state :: "vfile \<Rightarrow> socket_state option" where
  "file_socket_state (SocketFile state) = Some state"
| "file_socket_state _ = None"

definition is_input :: "vfile \<Rightarrow> bool" where
  "is_input f \<longleftrightarrow> f = Input"

definition is_screen :: "vfile \<Rightarrow> bool" where
  "is_screen f \<longleftrightarrow> f = Screen"

definition file_new :: "inode \<Rightarrow> vfile" where
  "file_new inode = Regular inode 0 False"

definition file_writable :: "inode \<Rightarrow> vfile" where
  "file_writable inode = Regular inode 0 True"

fun is_writable_file :: "vfile \<Rightarrow> bool" where
  "is_writable_file (Regular _ _ writable) = writable"
| "is_writable_file _ = False"

fun is_terminal :: "vfile \<Rightarrow> bool" where
  "is_terminal (Terminal _) = True"
| "is_terminal _ = False"

definition is_error_terminal :: "vfile \<Rightarrow> bool" where
  "is_error_terminal f \<longleftrightarrow> f = Terminal True"

fun file_inode :: "vfile \<Rightarrow> inode option" where
  "file_inode (Regular inode _ _) = Some inode"
| "file_inode _ = None"

fun file_offset :: "vfile \<Rightarrow> nat" where
  "file_offset (Regular _ offset _) = offset"
| "file_offset _ = 0"

text \<open>Both moves saturate at the size of the file.\<close>

fun advance :: "nat \<Rightarrow> vfile \<Rightarrow> vfile" where
  "advance bytes (Regular inode offset w) = Regular inode (min (min (offset + bytes) (u64_limit - 1)) (i_size inode)) w"
| "advance bytes f = f"

fun seek_to :: "nat \<Rightarrow> vfile \<Rightarrow> vfile" where
  "seek_to to (Regular inode offset w) = Regular inode (min to (i_size inode)) w"
| "seek_to to f = f"

subsection \<open>The table of a process\<close>

definition MAX_OPEN_FILES :: nat where "MAX_OPEN_FILES = 16"
definition STDIN_FD :: nat where "STDIN_FD = 0"
definition STDOUT_FD :: nat where "STDOUT_FD = 1"
definition STDERR_FD :: nat where "STDERR_FD = 2"

datatype file_table_error = NoFreeDescriptor | BadDescriptor nat

record file_table =
  slots :: "vfile option list"
  opened :: nat

fun errno_for_file_table :: "file_table_error \<Rightarrow> int" where
  "errno_for_file_table NoFreeDescriptor = EMFILE"
| "errno_for_file_table (BadDescriptor _) = EBADF"

definition file_table_new :: file_table where
  "file_table_new =
     \<lparr>slots = (replicate MAX_OPEN_FILES None)[STDIN_FD := Some (Terminal False), STDOUT_FD := Some (Terminal False),
        STDERR_FD := Some (Terminal True)], opened = 0\<rparr>"

definition ft_insert :: "vfile \<Rightarrow> file_table \<Rightarrow> file_table \<times> (file_table_error + nat)" where
  "ft_insert file t =
     (case find_index (\<lambda>slot. slot = None) (slots t) of
        None \<Rightarrow> (t, Inl NoFreeDescriptor)
      | Some fd \<Rightarrow> (t\<lparr>slots := (slots t)[fd := Some file], opened := min (opened t + 1) (u64_limit - 1)\<rparr>, Inr fd))"

definition ft_get :: "nat \<Rightarrow> file_table \<Rightarrow> file_table_error + vfile" where
  "ft_get fd t =
     (if fd < length (slots t) then (case slots t ! fd of Some f \<Rightarrow> Inr f | None \<Rightarrow> Inl (BadDescriptor fd))
      else Inl (BadDescriptor fd))"

definition ft_remove :: "nat \<Rightarrow> file_table \<Rightarrow> file_table \<times> (file_table_error + vfile)" where
  "ft_remove fd t =
     (case ft_get fd t of Inl e \<Rightarrow> (t, Inl e) | Inr f \<Rightarrow> (t\<lparr>slots := (slots t)[fd := None]\<rparr>, Inr f))"

text \<open>\<open>get_mut\<close>: the table with the entry changed in place, when there is one.\<close>

definition ft_update :: "nat \<Rightarrow> (vfile \<Rightarrow> vfile) \<Rightarrow> file_table \<Rightarrow> file_table" where
  "ft_update fd g t =
     (case ft_get fd t of Inl _ \<Rightarrow> t | Inr f \<Rightarrow> t\<lparr>slots := (slots t)[fd := Some (g f)]\<rparr>)"

text \<open>\<open>replace\<close>: the new table and what was in the slot; the caller's world releases that.\<close>

definition ft_replace :: "nat \<Rightarrow> vfile \<Rightarrow> file_table \<Rightarrow> file_table \<times> vfile option" where
  "ft_replace fd file t =
     (if fd < length (slots t) then (t\<lparr>slots := (slots t)[fd := Some file]\<rparr>, slots t ! fd) else (t, None))"

definition open_count :: "file_table \<Rightarrow> nat" where
  "open_count t = length (filter (\<lambda>slot. case slot of Some f \<Rightarrow> \<not> is_terminal f | None \<Rightarrow> False) (slots t))"

definition opened_total :: "file_table \<Rightarrow> nat" where
  "opened_total t = opened t"

subsection \<open>The root image\<close>

text \<open>The image in memory (none before it has been copied there), and the table of the calling process.\<close>

record vfs_state =
  root_copy :: "img option"
  files :: file_table

definition root_image :: "vfs_state \<Rightarrow> img" where
  "root_image s = (case root_copy s of None \<Rightarrow> [] | Some im \<Rightarrow> im)"

definition set_root_image :: "img \<Rightarrow> vfs_state \<Rightarrow> vfs_state" where
  "set_root_image im s = s\<lparr>root_copy := Some im\<rparr>"

text \<open>The file system with errors turned into errnos.\<close>

definition errno_outcome :: "('e \<Rightarrow> int) \<Rightarrow> ('e, 'a) outcome \<Rightarrow> (int, 'a) outcome" where
  "errno_outcome g r = (case r of Ok a \<Rightarrow> Ok a | Err e \<Rightarrow> Err (g e) | Panic \<Rightarrow> Panic)"

definition root_filesystem :: "vfs_state \<Rightarrow> (int, ext2) outcome" where
  "root_filesystem s = errno_outcome errno_for_ext2 (ext2_parse (root_image s))"

text \<open>A writing operation on the image. \<open>None\<close> means that there is no image to write.\<close>

definition with_root_image_mut ::
  "(img \<Rightarrow> (alloc_error, 'a) outcome \<times> img) \<Rightarrow> vfs_state \<Rightarrow> (alloc_error, 'a) outcome option \<times> vfs_state" where
  "with_root_image_mut f s =
     (case root_copy s of
        None \<Rightarrow> (None, s)
      | Some im \<Rightarrow> (case f im of (r, im') \<Rightarrow> (Some r, s\<lparr>root_copy := Some im'\<rparr>)))"

subsection \<open>Paths\<close>

text \<open>\<open>rposition\<close> of the separator cuts the path; an empty parent is the root.\<close>

fun last_index :: "'a \<Rightarrow> 'a list \<Rightarrow> nat option" where
  "last_index x [] = None"
| "last_index x (y # ys) = (case last_index x ys of Some i \<Rightarrow> Some (Suc i) | None \<Rightarrow> if y = x then Some 0 else None)"

definition split_parent_and_name :: "u8 list \<Rightarrow> (int, u8 list \<times> u8 list) outcome" where
  "split_parent_and_name path =
     (case last_index PATH_SEPARATOR path of
        None \<Rightarrow> Err EINVAL
      | Some i \<Rightarrow>
          let parent = take i path; name = drop (Suc i) path in
          if name = [] then Err EINVAL
          else Ok (if parent = [] then [PATH_SEPARATOR] else parent, name))"

text \<open>The opening of the calls that change a directory: its inode, the layout and the name.\<close>

definition parent_directory :: "u8 list \<Rightarrow> vfs_state \<Rightarrow> (int, layout \<times> nat \<times> u8 list) outcome" where
  "parent_directory path s =
     bind_outcome (split_parent_and_name path) (\<lambda>(parent, name).
     bind_outcome (root_filesystem s) (\<lambda>fs.
     bind_outcome (errno_outcome errno_for_ext2 (ext2_lookup fs parent)) (\<lambda>dir.
       if is_directory dir then Ok (ext2_layout fs, i_number dir, name) else Err ENOTDIR)))"

definition create_and_lookup :: "u8 list \<Rightarrow> vfs_state \<Rightarrow> (int, inode) outcome \<times> vfs_state" where
  "create_and_lookup path s =
     (case parent_directory path s of
        Err e \<Rightarrow> (Err e, s)
      | Panic \<Rightarrow> (Panic, s)
      | Ok (l, dir, name) \<Rightarrow>
          (case with_root_image_mut (create_file l dir name) s of
             (None, s1) \<Rightarrow> (Err EIO, s1)
           | (Some Panic, s1) \<Rightarrow> (Panic, s1)
           | (Some (Err e), s1) \<Rightarrow> (Err (errno_for_alloc e), s1)
           | (Some (Ok _), s1) \<Rightarrow>
               (bind_outcome (root_filesystem s1) (\<lambda>fs. errno_outcome errno_for_ext2 (ext2_lookup fs path)), s1)))"

definition O_ACCMODE :: u64 where "O_ACCMODE = 3"
definition O_RDONLY :: u64 where "O_RDONLY = 0"
definition O_WRONLY :: u64 where "O_WRONLY = 1"
definition O_CREAT :: u64 where "O_CREAT = 64"
definition O_TRUNC :: u64 where "O_TRUNC = 512"
definition O_APPEND :: u64 where "O_APPEND = 1024"
definition O_WRITE_INTENT :: u64 where "O_WRITE_INTENT = O_CREAT OR O_TRUNC OR O_APPEND"
definition SEEK_SET :: nat where "SEEK_SET = 0"

definition write_form :: "u64 \<Rightarrow> bool" where
  "write_form flags \<longleftrightarrow> flags AND O_ACCMODE = O_WRONLY \<and> flags AND O_WRITE_INTENT AND NOT O_CREAT = O_TRUNC"

definition open_insert :: "vfile \<Rightarrow> vfs_state \<Rightarrow> (int, int) outcome \<times> vfs_state" where
  "open_insert file s =
     (case ft_insert file (files s) of
        (t, Inr fd) \<Rightarrow> (Ok (int fd), s\<lparr>files := t\<rparr>)
      | (t, Inl e) \<Rightarrow> (Err (errno_for_file_table e), s\<lparr>files := t\<rparr>))"

definition open_inode :: "bool \<Rightarrow> inode \<Rightarrow> vfs_state \<Rightarrow> (int, int) outcome \<times> vfs_state" where
  "open_inode for_writing inode s =
     (if \<not> for_writing then open_insert (file_new inode) s
      else if \<not> is_regular_file inode then (Err EROFS, s)
      else case root_filesystem s of
        Err e \<Rightarrow> (Err e, s)
      | Panic \<Rightarrow> (Panic, s)
      | Ok fs \<Rightarrow>
          (case with_root_image_mut (truncate_to (ext2_layout fs) (i_number inode) 0) s of
             (None, s1) \<Rightarrow> (Err EROFS, s1)
           | (Some Panic, s1) \<Rightarrow> (Panic, s1)
           | (Some (Err _), s1) \<Rightarrow> (Err EIO, s1)
           | (Some (Ok _), s1) \<Rightarrow> open_insert (file_writable inode) s1))"

definition sys_open :: "u8 list \<Rightarrow> u64 \<Rightarrow> vfs_state \<Rightarrow> (int, int) outcome \<times> vfs_state" where
  "sys_open path flags s =
     (if \<not> write_form flags \<and> (flags AND O_ACCMODE \<noteq> O_RDONLY \<or> flags AND O_WRITE_INTENT \<noteq> 0) then (Err EROFS, s)
      else case root_filesystem s of
        Err e \<Rightarrow> (Err e, s)
      | Panic \<Rightarrow> (Panic, s)
      | Ok fs \<Rightarrow>
          (case ext2_lookup fs path of
             Ok inode \<Rightarrow> open_inode (write_form flags) inode s
           | Panic \<Rightarrow> (Panic, s)
           | Err e \<Rightarrow>
               if e = NotFound \<and> write_form flags \<and> flags AND O_CREAT \<noteq> 0 then
                 (case create_and_lookup path s of
                    (Ok inode, s1) \<Rightarrow> open_inode True inode s1
                  | (Err e, s1) \<Rightarrow> (Err e, s1)
                  | (Panic, s1) \<Rightarrow> (Panic, s1))
               else (Err (errno_for_ext2 e), s)))"

definition sys_unlink :: "u8 list \<Rightarrow> vfs_state \<Rightarrow> (int, int) outcome \<times> vfs_state" where
  "sys_unlink path s =
     (case parent_directory path s of
        Err e \<Rightarrow> (Err e, s)
      | Panic \<Rightarrow> (Panic, s)
      | Ok (l, dir, name) \<Rightarrow>
          (case with_root_image_mut (unlink_file l dir name) s of
             (None, s1) \<Rightarrow> (Err EROFS, s1)
           | (Some Panic, s1) \<Rightarrow> (Panic, s1)
           | (Some (Err e), s1) \<Rightarrow> (Err (errno_for_alloc e), s1)
           | (Some (Ok _), s1) \<Rightarrow> (Ok 0, s1)))"

datatype directory_op = DirCreate | DirRemove

fun directory_operation :: "directory_op \<Rightarrow> layout \<Rightarrow> nat \<Rightarrow> u8 list \<Rightarrow> img \<Rightarrow> (alloc_error, unit) outcome \<times> img" where
  "directory_operation DirCreate l dir name = bind_img (create_directory l dir name) (\<lambda>_. return_img ())"
| "directory_operation DirRemove l dir name = remove_directory l dir name"

definition sys_directory :: "u8 list \<Rightarrow> directory_op \<Rightarrow> vfs_state \<Rightarrow> (int, int) outcome \<times> vfs_state" where
  "sys_directory path op s =
     (case parent_directory path s of
        Err e \<Rightarrow> (Err e, s)
      | Panic \<Rightarrow> (Panic, s)
      | Ok (l, dir, name) \<Rightarrow>
          (case with_root_image_mut (directory_operation op l dir name) s of
             (None, s1) \<Rightarrow> (Err EROFS, s1)
           | (Some Panic, s1) \<Rightarrow> (Panic, s1)
           | (Some (Err e), s1) \<Rightarrow> (Err (errno_for_alloc e), s1)
           | (Some (Ok _), s1) \<Rightarrow> (Ok 0, s1)))"

definition sys_lseek :: "nat \<Rightarrow> nat \<Rightarrow> nat \<Rightarrow> vfs_state \<Rightarrow> (int, int) outcome \<times> vfs_state" where
  "sys_lseek fd offset whence s =
     (if whence \<noteq> SEEK_SET then (Err EINVAL, s)
      else case ft_get fd (files s) of
        Inl e \<Rightarrow> (Err (errno_for_file_table e), s)
      | Inr f \<Rightarrow>
          if is_terminal f then (Err ESPIPE, s)
          else (Ok (int (file_offset (seek_to offset f))), s\<lparr>files := ft_update fd (seek_to offset) (files s)\<rparr>))"

subsection \<open>Reading through a descriptor\<close>

text \<open>What \<open>sys_read\<close> goes to, in the order in which it asks.\<close>

datatype read_target = FromPipe nat | FromSocket nat side | FromInput | FromTerminal | FromFile inode nat | ReadFails int

definition read_target_of :: "nat \<Rightarrow> file_table \<Rightarrow> read_target" where
  "read_target_of fd t =
     (case ft_get fd t of
        Inl e \<Rightarrow> ReadFails (errno_for_file_table e)
      | Inr f \<Rightarrow>
          (case pipe_read_end f of
             Some pipe \<Rightarrow> FromPipe pipe
           | None \<Rightarrow>
               (case file_socket_state f of
                  Some (StreamAt conn sd) \<Rightarrow> FromSocket conn sd
                | Some _ \<Rightarrow> ReadFails ENOTCONN
                | None \<Rightarrow>
                    if is_input f then FromInput
                    else if is_screen f then ReadFails EINVAL
                    else (case file_inode f of
                            None \<Rightarrow> FromTerminal
                          | Some inode \<Rightarrow>
                              if is_writable_file f then ReadFails EBADF
                              else if is_directory inode then ReadFails EISDIR
                              else FromFile inode (file_offset f)))))"

text \<open>\<open>copy_to_user\<close> into a checked range of \<open>len\<close> bytes: how many bytes of \<open>src\<close> go in from \<open>at\<close>.\<close>

definition copy_to_user :: "nat \<Rightarrow> nat \<Rightarrow> u8 list \<Rightarrow> nat" where
  "copy_to_user len pos src = (if len < pos then 0 else min (length src) (len - pos))"

text \<open>One turn of the loop over the blocks, with the bytes that are in the user's buffer: the end of the
  loop with its result, or the longer buffer.\<close>

definition read_turn :: "ext2 \<Rightarrow> inode \<Rightarrow> nat \<Rightarrow> nat \<Rightarrow> u8 list \<Rightarrow> (int, nat) outcome + u8 list" where
  "read_turn fs inode offset want buf =
     (let so_far = length buf; pos = offset + so_far; index = pos div fs_block_size fs; within = pos mod fs_block_size fs in
      if want \<le> so_far then Inl (Ok so_far)
      else if fs_block_size fs = 0 then Inl Panic
      else if u32_limit \<le> index then Inl (Err EIO)
      else case file_block fs inode index of
          Err e \<Rightarrow> Inl (Err (errno_for_ext2 e))
        | Panic \<Rightarrow> Inl Panic
        | Ok block \<Rightarrow>
            let chunk = min (want - so_far) (length block - within);
                piece = subslice within chunk block;
                written = copy_to_user want so_far piece in
            if length block - within = 0 then Inl (Err EIO)
            else if written = 0 then Inl (Err EFAULT)
            else Inr (buf @ take written piece))"

lemma read_turn_grows:
  assumes "read_turn fs inode offset want buf = Inr buf'"
  shows "length buf < want" "length buf < length buf'"
proof -
  show "length buf < want" using assms by (auto simp: read_turn_def Let_def split: if_splits)
  show "length buf < length buf'" using assms
    by (auto simp: read_turn_def Let_def copy_to_user_def split: if_splits outcome.splits)
qed

function read_loop :: "ext2 \<Rightarrow> inode \<Rightarrow> nat \<Rightarrow> nat \<Rightarrow> u8 list \<Rightarrow> (int, nat) outcome \<times> u8 list" where
  "read_loop fs inode offset want buf =
     (case read_turn fs inode offset want buf of Inl r \<Rightarrow> (r, buf) | Inr buf' \<Rightarrow> read_loop fs inode offset want buf')"
  by pat_completeness auto
termination
  by (relation "measure (\<lambda>(fs, inode, offset, want, buf). want - length buf)")
    (auto dest: read_turn_grows intro: diff_less_mono2)

declare read_loop.simps [simp del]

definition read_file :: "nat \<Rightarrow> inode \<Rightarrow> nat \<Rightarrow> nat \<Rightarrow> bool \<Rightarrow> vfs_state \<Rightarrow> ((int, nat) outcome \<times> u8 list) \<times> vfs_state" where
  "read_file fd inode offset count valid s =
     (if i_size inode < offset then ((Panic, []), s)
      else let want = min count (i_size inode - offset) in
        if want = 0 then ((Ok 0, []), s)
        else if \<not> valid then ((Err EFAULT, []), s)
        else case root_filesystem s of
          Err e \<Rightarrow> ((Err e, []), s)
        | Panic \<Rightarrow> ((Panic, []), s)
        | Ok fs \<Rightarrow>
            (case read_loop fs inode offset want [] of
               (Ok n, buf) \<Rightarrow> ((Ok n, buf), s\<lparr>files := ft_update fd (advance n) (files s)\<rparr>)
             | (r, buf) \<Rightarrow> ((r, buf), s)))"

text \<open>\<open>sys_read\<close> as far as it stays in the file system; \<open>None\<close> for the targets outside it.\<close>

definition sys_read :: "nat \<Rightarrow> nat \<Rightarrow> bool \<Rightarrow> vfs_state \<Rightarrow> (((int, nat) outcome \<times> u8 list) \<times> vfs_state) option" where
  "sys_read fd count valid s =
     (case read_target_of fd (files s) of
        ReadFails e \<Rightarrow> Some ((Err e, []), s)
      | FromFile inode offset \<Rightarrow> Some (read_file fd inode offset count valid s)
      | _ \<Rightarrow> None)"

subsection \<open>Writing a file\<close>

definition WRITE_BUF_LEN :: nat where "WRITE_BUF_LEN = 64"

text \<open>The loop of \<open>sys_write_to_file\<close> over the chunks of the user's buffer (a chunk ends with a page or
  with the kernel's buffer); \<open>valid\<close> says which chunks pass the check, \<open>mem\<close> is the memory. One turn ends
  the loop with its result, or goes on after the chunk.\<close>

definition write_chunk :: "nat \<Rightarrow> nat \<Rightarrow> nat \<Rightarrow> nat" where
  "write_chunk addr count so_far = min (min (4096 - addr mod 4096) (count - so_far)) WRITE_BUF_LEN"

definition write_turn ::
  "layout \<Rightarrow> nat \<Rightarrow> nat \<Rightarrow> nat \<Rightarrow> nat \<Rightarrow> (nat \<Rightarrow> nat \<Rightarrow> bool) \<Rightarrow> (nat \<Rightarrow> u8) \<Rightarrow> vfs_state \<Rightarrow> ((int, int) outcome + nat) \<times> vfs_state" where
  "write_turn l ino buf count so_far valid mem s =
     (let addr = buf + so_far; chunk = write_chunk addr count so_far;
          stop = (\<lambda>e. Inl (if so_far = 0 then Err e else Ok (int so_far))) in
      if count \<le> so_far then (Inl (Ok (int so_far)), s)
      else if u64_limit \<le> addr then (Inl (Err EFAULT), s)
      else if \<not> valid addr chunk then (stop EFAULT, s)
      else case with_root_image_mut (append_to_file l ino (map (\<lambda>i. mem (addr + i)) [0..<chunk])) s of
            (None, s1) \<Rightarrow> (Inl (Err EROFS), s1)
          | (Some Panic, s1) \<Rightarrow> (Inl Panic, s1)
          | (Some (Err _), s1) \<Rightarrow> (stop EIO, s1)
          | (Some (Ok _), s1) \<Rightarrow> (Inr (so_far + chunk), s1))"

lemma write_turn_grows:
  assumes "write_turn l ino buf count so_far valid mem s = (Inr n, s1)"
  shows "so_far < count" "so_far < n"
proof -
  show c: "so_far < count" using assms by (auto simp: write_turn_def Let_def split: if_splits)
  have "0 < write_chunk (buf + so_far) count so_far"
    using c by (simp add: write_chunk_def WRITE_BUF_LEN_def)
  then show "so_far < n"
    using assms by (auto simp: write_turn_def Let_def split: if_splits option.splits outcome.splits prod.splits)
qed

lemma write_turn_less:
  "write_turn l ino buf count so_far valid mem s = (Inr n, s1) \<Longrightarrow> count - n < count - so_far"
  using write_turn_grows by (rule diff_less_mono2 [rotated])

function write_file_loop ::
  "layout \<Rightarrow> nat \<Rightarrow> nat \<Rightarrow> nat \<Rightarrow> nat \<Rightarrow> (nat \<Rightarrow> nat \<Rightarrow> bool) \<Rightarrow> (nat \<Rightarrow> u8) \<Rightarrow> vfs_state \<Rightarrow> (int, int) outcome \<times> vfs_state" where
  "write_file_loop l ino buf count so_far valid mem s =
     (case write_turn l ino buf count so_far valid mem s of
        (Inl r, s1) \<Rightarrow> (r, s1)
      | (Inr n, s1) \<Rightarrow> write_file_loop l ino buf count n valid mem s1)"
  by pat_completeness auto
termination
  by (relation "measure (\<lambda>(l, ino, buf, count, so_far, valid, mem, s). count - so_far)")
    (auto dest!: write_turn_less [OF sym])

declare write_file_loop.simps [simp del]

definition sys_write_to_file ::
  "nat \<Rightarrow> nat \<Rightarrow> nat \<Rightarrow> (nat \<Rightarrow> nat \<Rightarrow> bool) \<Rightarrow> (nat \<Rightarrow> u8) \<Rightarrow> vfs_state \<Rightarrow> (int, int) outcome \<times> vfs_state" where
  "sys_write_to_file buf count ino valid mem s =
     (case root_filesystem s of
        Err e \<Rightarrow> (Err e, s)
      | Panic \<Rightarrow> (Panic, s)
      | Ok fs \<Rightarrow> write_file_loop (ext2_layout fs) ino buf count 0 valid mem s)"

subsection \<open>What a read returns\<close>

text \<open>The contents of a file: its blocks, one after the other, when every one of them can be read.\<close>

fun blocks_from :: "ext2 \<Rightarrow> inode \<Rightarrow> nat \<Rightarrow> nat \<Rightarrow> u8 list list option" where
  "blocks_from fs inode i 0 = Some []"
| "blocks_from fs inode i (Suc n) =
     (case file_block fs inode i of
        Ok block \<Rightarrow> map_option ((#) block) (blocks_from fs inode (Suc i) n)
      | _ \<Rightarrow> None)"

definition file_contents :: "ext2 \<Rightarrow> inode \<Rightarrow> u8 list option" where
  "file_contents fs inode = map_option concat (blocks_from fs inode 0 (block_span fs inode))"

lemma file_block_length:
  assumes "file_block fs inode i = Ok block"
  shows "i * fs_block_size fs < i_size inode" "length block = min (i_size inode - i * fs_block_size fs) (fs_block_size fs)"
  using assms by (auto simp: file_block_def Let_def bind_outcome_eq_Ok split: if_splits)

lemma file_block_index:
  assumes "file_block fs inode i = Ok block" "fs_block_size fs \<le> 65536"
  shows "i < u32_limit"
proof -
  have "i < 12 + fs_block_size fs div 4"
    using assms(1)
    by (auto simp: file_block_def block_number_of_def Let_def bind_outcome_eq_Ok ext2_constants split: if_splits)
  moreover have "fs_block_size fs div 4 \<le> 65536 div 4" using assms(2) by (rule div_le_mono)
  ultimately show ?thesis by simp
qed

lemma blocks_from_nth:
  "blocks_from fs inode i n = Some bs \<Longrightarrow> length bs = n \<and> (\<forall>j < n. file_block fs inode (i + j) = Ok (bs ! j))"
proof (induction n arbitrary: i bs)
  case (Suc n)
  then obtain b bs' where b: "file_block fs inode i = Ok b" "blocks_from fs inode (Suc i) n = Some bs'" "bs = b # bs'"
    by (auto split: outcome.splits)
  with Suc.IH [OF b(2)] show ?case by (auto simp: nth_Cons split: nat.splits)
qed simp

text \<open>The start of the block \<open>k\<close> in the concatenation, when the blocks before it are full.\<close>

lemma drop_concat_blocks:
  "k \<le> length bs \<Longrightarrow> \<forall>j < k. length (bs ! j) = B \<Longrightarrow> drop (k * B) (concat bs) = concat (drop k bs)"
proof (induction bs arbitrary: k)
  case (Cons b bs)
  show ?case
  proof (cases k)
    case (Suc m)
    have "length b = B" using Cons.prems(2) Suc by auto
    moreover have "drop (m * B) (concat bs) = concat (drop m bs)" using Cons.prems Suc by (intro Cons.IH) auto
    ultimately show ?thesis using Suc by simp
  qed simp
qed simp

lemma file_contents_facts:
  assumes "file_contents fs inode = Some c" "0 < fs_block_size fs"
  shows "length c = i_size inode"
    "\<And>pos. pos < i_size inode \<Longrightarrow> \<exists>block. file_block fs inode (pos div fs_block_size fs) = Ok block \<and>
       pos mod fs_block_size fs < length block \<and>
       (\<forall>m. pos mod fs_block_size fs + m \<le> length block \<longrightarrow> subslice (pos mod fs_block_size fs) m block = subslice pos m c)"
proof -
  let ?B = "fs_block_size fs" and ?n = "block_span fs inode" and ?size = "i_size inode"
  obtain bs where bs: "blocks_from fs inode 0 ?n = Some bs" "c = concat bs"
    using assms(1) by (auto simp: file_contents_def)
  have blk: "length bs = ?n" "\<And>j. j < ?n \<Longrightarrow> file_block fs inode j = Ok (bs ! j)" using blocks_from_nth [OF bs(1)] by auto
  have full: "length (bs ! j) = ?B" if "Suc j < ?n" for j
    using file_block_length(1) [OF blk(2) [OF that]] file_block_length(2) [OF blk(2) [of j]] that by simp
  have dr: "drop (k * ?B) c = concat (drop k bs)" if "k < ?n" for k
    unfolding bs(2) by (rule drop_concat_blocks) (use that blk(1) full in auto)
  have covers: "?size \<le> ?n * ?B" using assms(2) by (simp add: block_span_def div_ceil_mult_ge)
  then have last_in: "0 < ?size \<Longrightarrow> 0 < ?n" by (cases ?n) simp_all
  show len: "length c = ?size"
  proof (cases "?size = 0")
    case True
    then have "?n = 0" by (simp add: block_span_def div_ceil_def)
    then show ?thesis using True blk(1) bs(2) by simp
  next
    case False
    let ?k = "?n - 1"
    have k: "?k < ?n" "Suc ?k = ?n" using last_in False by simp_all
    have "drop ?k bs = [bs ! ?k]" using k blk(1) by (metis Cons_nth_drop_Suc drop_all le_refl)
    then have "drop (?k * ?B) c = bs ! ?k" using dr [OF k(1)] by simp
    then have "length c - ?k * ?B = length (bs ! ?k)" by (metis length_drop)
    moreover note file_block_length [OF blk(2) [OF k(1)]]
    moreover have "?size - ?k * ?B \<le> ?B" using covers k(2) by (metis add.commute le_diff_conv mult_Suc)
    ultimately show ?thesis by linarith
  qed
  show "\<exists>block. file_block fs inode (pos div ?B) = Ok block \<and> pos mod ?B < length block \<and>
      (\<forall>m. pos mod ?B + m \<le> length block \<longrightarrow> subslice (pos mod ?B) m block = subslice pos m c)" if pos: "pos < ?size" for pos
  proof -
    let ?k = "pos div ?B" and ?w = "pos mod ?B"
    have k: "?k < ?n" using pos covers assms(2) by (metis less_le_trans less_mult_imp_div_less)
    have eq: "pos = ?k * ?B + ?w" by simp
    have "drop pos c = drop ?w (concat (drop ?k bs))" using dr [OF k] eq by (metis add.commute drop_drop)
    also have "\<dots> = drop ?w (bs ! ?k @ concat (drop (Suc ?k) bs))" using k blk(1) by (simp add: Cons_nth_drop_Suc [symmetric])
    finally have "subslice pos m c = subslice ?w m (bs ! ?k)" if "?w + m \<le> length (bs ! ?k)" for m
      using that by (simp add: subslice_def)
    moreover have "?w < length (bs ! ?k)"
    proof -
      have "?w < ?B" using assms(2) by simp
      moreover have "?w < ?size - ?k * ?B" using pos eq by linarith
      ultimately show ?thesis using file_block_length(2) [OF blk(2) [OF k]] by simp
    qed
    ultimately show ?thesis using blk(2) [OF k] by (metis)
  qed
qed

lemma subslice_append: "subslice p n xs @ subslice (p + n) m xs = subslice p (n + m) xs"
  by (simp add: subslice_def take_add add.commute [of n p])

lemma read_loop_contents:
  assumes c: "file_contents fs inode = Some c" and B: "0 < fs_block_size fs" "fs_block_size fs \<le> 65536"
    and fits: "offset + want \<le> i_size inode"
  shows "length buf \<le> want \<Longrightarrow> buf = subslice offset (length buf) c \<Longrightarrow>
    read_loop fs inode offset want buf = (Ok want, subslice offset want c)"
proof (induction "want - length buf" arbitrary: buf rule: less_induct)
  case less
  note len = file_contents_facts(1) [OF c B(1)]
  show ?case
  proof (cases "want \<le> length buf")
    case True
    then have "length buf = want" using less.prems(1) by simp
    moreover from this have "read_turn fs inode offset want buf = Inl (Ok want)" by (simp add: read_turn_def)
    ultimately show ?thesis using less.prems(2) by (subst read_loop.simps) simp
  next
    case False
    let ?pos = "offset + length buf" and ?B = "fs_block_size fs"
    have pos: "?pos < i_size inode" using False fits by simp
    from file_contents_facts(2) [OF c B(1) pos] obtain block where
      blk: "file_block fs inode (?pos div ?B) = Ok block" "?pos mod ?B < length block"
        "\<And>m. ?pos mod ?B + m \<le> length block \<Longrightarrow> subslice (?pos mod ?B) m block = subslice ?pos m c" by blast
    define n where "n = min (want - length buf) (length block - ?pos mod ?B)"
    have n: "0 < n" "length buf + n \<le> want" "?pos mod ?B + n \<le> length block" using False blk(2) by (auto simp: n_def)
    have piece: "subslice (?pos mod ?B) n block = subslice ?pos n c" "length (subslice ?pos n c) = n"
      using blk(3) [OF n(3)] n(2) fits len by simp_all
    let ?buf = "buf @ subslice ?pos n c"
    have "\<not> u32_limit \<le> ?pos div ?B" using file_block_index [OF blk(1) B(2)] by simp
    then have "read_turn fs inode offset want buf = Inr ?buf"
      using False B(1) blk(1,2) piece n(1,2) by (simp add: read_turn_def Let_def copy_to_user_def n_def [symmetric])
    moreover have "read_loop fs inode offset want ?buf = (Ok want, subslice offset want c)"
    proof (rule less.hyps)
      show "want - length ?buf < want - length buf" "length ?buf \<le> want" using n piece(2) by simp_all
      show "?buf = subslice offset (length ?buf) c" using piece(2) less.prems(2) subslice_append by (metis length_append)
    qed
    ultimately show ?thesis by (simp add: read_loop.simps [of _ _ _ _ buf])
  qed
qed

text \<open>Tables after an update: the entry of one descriptor, and every other as it was.\<close>

lemma ft_get_update:
  "ft_get fd (ft_update fd' g t) = (if fd = fd' then (case ft_get fd t of Inr f \<Rightarrow> Inr (g f) | Inl e \<Rightarrow> Inl e) else ft_get fd t)"
  by (auto simp: ft_update_def ft_get_def nth_list_update split: sum.splits option.splits)

lemma root_block_size:
  assumes "root_filesystem s = Ok fs"
  shows "0 < fs_block_size fs" "fs_block_size fs \<le> 65536" "ext2_wf fs"
proof -
  have "ext2_parse (root_image s) = Ok fs"
    using assms by (auto simp: root_filesystem_def errno_outcome_def split: outcome.splits)
  then show wf: "ext2_wf fs" using ext2_parse_ok [of "root_image s"] by simp
  then obtain k where "k \<le> 6" "fs_block_size fs = 1024 * 2 ^ k" by (auto simp: ext2_wf_def)
  moreover from this have "(2 :: nat) ^ k \<le> 2 ^ 6" by (intro power_increasing) simp_all
  ultimately show "0 < fs_block_size fs" "fs_block_size fs \<le> 65536" by simp_all
qed

lemma read_file_result:
  fixes count
  assumes fs: "root_filesystem s = Ok fs" and f: "ft_get fd (files s) = Inr (Regular inode offset False)"
    and d: "offset \<le> i_size inode" "i_size inode < u64_limit" "file_contents fs inode = Some c"
  defines "n \<equiv> min count (i_size inode - offset)"
  shows "\<exists>s'. read_file fd inode offset count True s = ((Ok n, subslice offset n c), s') \<and> root_copy s' = root_copy s \<and>
    ft_get fd (files s') = Inr (Regular inode (offset + n) False) \<and> (\<forall>other. other \<noteq> fd \<longrightarrow> ft_get other (files s') = ft_get other (files s))"
proof (cases "n = 0")
  case True
  then have "read_file fd inode offset count True s = ((Ok 0, []), s)" using d(1) by (simp add: read_file_def n_def)
  then show ?thesis using True f by (simp add: subslice_def)
next
  case False
  have B: "0 < fs_block_size fs" "fs_block_size fs \<le> 65536" using fs by (rule root_block_size)+
  have "read_loop fs inode offset n [] = (Ok n, subslice offset n c)"
    by (rule read_loop_contents [OF d(3) B]) (use d(1) in \<open>auto simp: n_def subslice_def\<close>)
  then have "read_file fd inode offset count True s = ((Ok n, subslice offset n c), s\<lparr>files := ft_update fd (advance n) (files s)\<rparr>)"
    using False d(1) fs by (simp add: read_file_def n_def [symmetric])
  moreover have "advance n (Regular inode offset False) = Regular inode (offset + n) False"
    using d(1,2) by (simp add: n_def)
  ultimately show ?thesis using f by (simp add: ft_get_update)
qed

subsection \<open>Properties\<close>

text \<open>A program that calls \<open>read\<close> with one count after the other: the result of every call and the bytes it got.\<close>

fun read_sequence :: "nat \<Rightarrow> nat list \<Rightarrow> vfs_state \<Rightarrow> ((int, nat) outcome \<times> u8 list) list option" where
  "read_sequence fd [] s = Some []"
| "read_sequence fd (count # counts) s =
     (case sys_read fd count True s of
        None \<Rightarrow> None
      | Some (answer, s1) \<Rightarrow> map_option (Cons answer) (read_sequence fd counts s1))"

text \<open>What the calls should answer when these bytes are left: each as many of them as it asks for, as far as there are
  any, and the number of them; none and zero at the end.\<close>

fun pieces :: "nat list \<Rightarrow> u8 list \<Rightarrow> ((int, nat) outcome \<times> u8 list) list" where
  "pieces [] left = []"
| "pieces (count # counts) left = (Ok (length (take count left)), take count left) # pieces counts (drop count left)"

lemma read_sequence_contents:
  assumes fs: "root_filesystem s = Ok fs" and d: "\<not> is_directory inode" "i_size inode < u64_limit" "file_contents fs inode = Some c"
  shows "ft_get fd (files s) = Inr (Regular inode offset False) \<Longrightarrow> offset \<le> i_size inode \<Longrightarrow>
    read_sequence fd counts s = Some (pieces counts (drop offset c))"
  using fs
proof (induction counts arbitrary: s offset)
  case (Cons count counts)
  let ?n = "min count (i_size inode - offset)"
  from read_file_result [OF Cons.prems(3,1,2) d(2,3), of count] obtain s' where
    s': "read_file fd inode offset count True s = ((Ok ?n, subslice offset ?n c), s')" "root_copy s' = root_copy s"
      "ft_get fd (files s') = Inr (Regular inode (offset + ?n) False)" by blast
  have read: "sys_read fd count True s = Some ((Ok ?n, subslice offset ?n c), s')"
    using Cons.prems(1) d(1) s'(1) by (simp add: sys_read_def read_target_of_def is_input_def is_screen_def)
  have "root_filesystem s' = Ok fs" using Cons.prems(3) s'(2) by (simp add: root_filesystem_def root_image_def)
  moreover have "offset + ?n \<le> i_size inode" using Cons.prems(2) by simp
  ultimately have rest: "read_sequence fd counts s' = Some (pieces counts (drop (offset + ?n) c))"
    using Cons.IH [OF s'(3)] by blast
  have len: "length c = i_size inode"
    by (rule file_contents_facts(1) [OF d(3) root_block_size(1) [OF Cons.prems(3)]])
  have "length (take count (drop offset c)) = ?n" "subslice offset ?n c = take count (drop offset c)" "drop (offset + ?n) c = drop count (drop offset c)"
    using len Cons.prems(2) by (auto simp: subslice_def min_def add.commute)
  then show ?case using read rest by simp
qed simp

text \<open>C27: reading a regular file through a descriptor, in pieces of any sizes, delivers the bytes of the
  file in order from the descriptor's offset, each once: every call succeeds, gets as many bytes as it asks for
  while there are as many left and else those that are left, and returns their number, so zero at the end of the file.
  The contents are those of the blocks that the file system reader finds for the inode.\<close>

theorem reads_deliver_the_file:
  assumes "root_filesystem s = Ok fs" "ft_get fd (files s) = Inr (Regular inode offset False)" "offset \<le> i_size inode" "\<not> is_directory inode"
    and "i_size inode < u64_limit" "file_contents fs inode = Some c"
  shows "length c = i_size inode \<and> read_sequence fd counts s = Some (pieces counts (drop offset c))"
  using read_sequence_contents [OF assms(1,4-6,2,3)] file_contents_facts(1) [OF assms(6) root_block_size(1) [OF assms(1)]] by blast

definition sample_inode_copy :: inode where
  "sample_inode_copy = \<lparr>i_number = 3, i_mode = 0x81A4, i_size = 5, i_links_count = 1, i_blocks_512 = 2, i_block = 6 # replicate 14 0\<rparr>"

theorem reads_deliver_the_file_witness:
  "\<exists>s. root_copy s = Some sample_volume \<and> read_sequence 3 [3, 4, 4] s = Some [(Ok 3, [2, 0, 0]), (Ok 2, [0, 12]), (Ok 0, [])]"
proof -
  define s where "s = \<lparr>root_copy = Some sample_volume, files = file_table_new\<lparr>slots := (slots file_table_new)[3 := Some (Regular sample_inode_copy 0 False)]\<rparr>\<rparr>"
  from sample_volume_parses obtain fs where fs: "ext2_parse sample_volume = Ok fs" "fs_image fs = sample_volume" "fs_block_size fs = 1024"
    "fs_blocks_count fs = 9" by blast
  have root: "root_filesystem s = Ok fs" using fs(1) by (simp add: s_def root_filesystem_def root_image_def errno_outcome_def)
  have fd: "ft_get 3 (files s) = Inr (Regular sample_inode_copy 0 False)"
    by (simp add: s_def ft_get_def file_table_new_def MAX_OPEN_FILES_def)
  have node: "\<not> is_directory sample_inode_copy" "i_size sample_inode_copy < u64_limit" "block_span fs sample_inode_copy = 1"
    by (simp_all add: sample_inode_copy_def is_directory_def mode_is_directory_def MODE_FORMAT_MASK_def MODE_DIRECTORY_def
        block_span_def div_ceil_def fs)
  have "block_bytes fs 6 = Ok (subslice 6144 1024 sample_volume)"
    by (simp add: block_bytes_def fs sample_slices(1) Let_def)
  then have "file_block fs sample_inode_copy 0 = Ok (subslice 6144 5 sample_volume)"
    by (simp add: file_block_def block_number_of_def uses_unsupported_indirection_def sample_inode_copy_def ext2_constants fs
        sample_slices(1)) (simp add: subslice_def)
  moreover have "subslice 6144 5 sample_volume = [2, 0, 0, 0, 12]" by (simp add: sample_volume_def subslice_def)
  ultimately have "file_contents fs sample_inode_copy = Some [2, 0, 0, 0, 12]"
    using node(3) by (simp add: file_contents_def)
  from reads_deliver_the_file [OF root fd _ node(1,2) this, of "[3, 4, 4]"]
  show ?thesis by (intro exI [of _ s]) (auto simp: s_def)
qed

end
