(* ===== verification/Descriptors.thy ===== *)
theory Descriptors
  imports Vfs Pipe Shm "HOL-Library.Multiset"
begin

text \<open>
  Descriptors and what they stand for: the system calls that open, pass and close the ends of pipes,
  sockets, shared memories and the screen (\<open>kernel/src/syscall.rs\<close>), the descriptors that a new process
  inherits and those that a process leaves behind (\<open>kernel/src/userland.rs\<close>, \<open>Drop for FileTable\<close>).

  Every process has one table. The kernel swaps the table of the running process into a slot and back
  (\<open>swap_current_files\<close>) without copying it, so the world holds the tables of all processes and a call
  names the one it works on. Names and counts that come from user memory are arguments.
\<close>

subsection \<open>State\<close>

definition EAGAIN :: int where "EAGAIN = 11"
definition ENOMEM :: int where "ENOMEM = 12"
definition EBUSY :: int where "EBUSY = 16"
definition ENODEV :: int where "ENODEV = 19"
definition ENOTSOCK :: int where "ENOTSOCK = 88"
definition EPROTONOSUPPORT :: int where "EPROTONOSUPPORT = 93"
definition EAFNOSUPPORT :: int where "EAFNOSUPPORT = 97"
definition EADDRINUSE :: int where "EADDRINUSE = 98"
definition ENOBUFS :: int where "ENOBUFS = 105"
definition EISCONN :: int where "EISCONN = 106"
definition ECONNREFUSED :: int where "ECONNREFUSED = 111"
definition AF_UNIX :: nat where "AF_UNIX = 1"
definition SOCK_STREAM :: nat where "SOCK_STREAM = 1"

text \<open>\<open>inherit_stdin\<close> and \<open>inherit_stdout\<close> are the ends parked for the next process (\<open>INHERITED_ENDS\<close> and
  the request of a detached start), \<open>pending_stdin\<close> the reserved read ends (\<open>PENDING_STDIN\<close>), per slot.\<close>

record desc_world =
  tables :: "file_table list"
  dw_pipes :: pipe_world
  dw_sockets :: socket_world
  dw_shm :: shm_world
  graphics_active :: bool
  graphics_entered :: nat
  graphics_left :: nat
  inherit_stdin :: "nat option list"
  inherit_stdout :: "nat option list"
  pending_stdin :: "nat option list"

abbreviation set_table :: "nat \<Rightarrow> file_table \<Rightarrow> desc_world \<Rightarrow> desc_world" where
  "set_table p t w \<equiv> w\<lparr>tables := (tables w)[p := t]\<rparr>"

subsection \<open>Releasing what a descriptor stands for\<close>

definition leave_graphics :: "desc_world \<Rightarrow> desc_world" where
  "leave_graphics w =
     (if graphics_active w then w\<lparr>graphics_active := False, graphics_left := graphics_left w + 1\<rparr> else w)"

definition enter_graphics :: "bool \<Rightarrow> desc_world \<Rightarrow> desc_world \<times> int" where
  "enter_graphics has_surface w =
     (if \<not> has_surface then (w, - ENODEV)
      else if graphics_active w then (w, - EBUSY)
      else (w\<lparr>graphics_active := True, graphics_entered := graphics_entered w + 1\<rparr>, 0))"

text \<open>\<open>None\<close> where the allocator below would panic.\<close>

fun release_end :: "vfile \<Rightarrow> desc_world \<Rightarrow> desc_world option" where
  "release_end (PipeRead pipe) w = Some (w\<lparr>dw_pipes := close_read_end pipe (dw_pipes w)\<rparr>)"
| "release_end (PipeWrite pipe) w = Some (w\<lparr>dw_pipes := close_write_end pipe (dw_pipes w)\<rparr>)"
| "release_end (SocketFile (StreamAt conn sd)) w = Some (w\<lparr>dw_sockets := close_end conn sd (dw_sockets w)\<rparr>)"
| "release_end (SocketFile (ListenerAt l)) w = Some (w\<lparr>dw_sockets := close_listener l (dw_sockets w)\<rparr>)"
| "release_end (ShmFile shm) w = map_option (\<lambda>m. w\<lparr>dw_shm := m\<rparr>) (shm_detach shm (dw_shm w))"
| "release_end Screen w = Some (leave_graphics w)"
| "release_end _ w = Some w"

text \<open>\<open>Drop for FileTable\<close>: every entry, in order.\<close>

fun release_all :: "vfile option list \<Rightarrow> desc_world \<Rightarrow> desc_world option" where
  "release_all [] w = Some w"
| "release_all (None # fs) w = release_all fs w"
| "release_all (Some f # fs) w = (case release_end f w of None \<Rightarrow> None | Some w1 \<Rightarrow> release_all fs w1)"

subsection \<open>System calls on descriptors\<close>

text \<open>\<open>close\<close>: the flag says that the file was open for writing, so that the image is flushed.\<close>

definition sys_close :: "nat \<Rightarrow> nat \<Rightarrow> desc_world \<Rightarrow> (desc_world \<times> (int + bool)) option" where
  "sys_close p fd w =
     (case ft_remove fd (tables w ! p) of
        (t, Inl e) \<Rightarrow> Some (w, Inl (- errno_for_file_table e))
      | (t, Inr f) \<Rightarrow> map_option (\<lambda>w1. (w1, Inr (is_writable_file f))) (release_end f (set_table p t w)))"

definition insert_file :: "nat \<Rightarrow> vfile \<Rightarrow> desc_world \<Rightarrow> desc_world \<times> int" where
  "insert_file p f w =
     (case ft_insert f (tables w ! p) of
        (t, Inr fd) \<Rightarrow> (set_table p t w, int fd)
      | (t, Inl e) \<Rightarrow> (w, - errno_for_file_table e))"

text \<open>\<open>FileTable::replace\<close>: the entry that was there is released.\<close>

definition replace_file :: "nat \<Rightarrow> nat \<Rightarrow> vfile \<Rightarrow> desc_world \<Rightarrow> desc_world option" where
  "replace_file p fd f w =
     (case ft_replace fd f (tables w ! p) of
        (t, None) \<Rightarrow> Some (set_table p t w)
      | (t, Some previous) \<Rightarrow> release_end previous (set_table p t w))"

definition socket_state_of :: "nat \<Rightarrow> nat \<Rightarrow> desc_world \<Rightarrow> int + socket_state" where
  "socket_state_of p fd w =
     (case ft_get fd (tables w ! p) of
        Inl e \<Rightarrow> Inl (- errno_for_file_table e)
      | Inr f \<Rightarrow> (case file_socket_state f of Some state \<Rightarrow> Inr state | None \<Rightarrow> Inl (- ENOTSOCK)))"

definition shm_of :: "nat \<Rightarrow> nat \<Rightarrow> desc_world \<Rightarrow> int + nat" where
  "shm_of p fd w = (case ft_get fd (tables w ! p) of Inr (ShmFile shm) \<Rightarrow> Inr shm | _ \<Rightarrow> Inl (- EBADF))"

text \<open>\<open>poll\<close> after the copy of the requests, each a descriptor and its events: one turn of its loop.\<close>

definition POLLIN :: nat where "POLLIN = 1"

definition poll_reason_of :: "nat \<Rightarrow> nat \<Rightarrow> desc_world \<Rightarrow> wait option" where
  "poll_reason_of p fd w =
     (case ft_get fd (tables w ! p) of
        Inl _ \<Rightarrow> None
      | Inr f \<Rightarrow>
          if is_input f then Some Keyboard
          else case file_socket_state f of
                 Some (StreamAt conn sd) \<Rightarrow> Some (SocketReadable conn sd)
               | Some (ListenerAt l) \<Rightarrow> Some (SocketAcceptable l)
               | _ \<Rightarrow> None)"

fun poll_reasons :: "nat \<Rightarrow> (int \<times> nat) list \<Rightarrow> desc_world \<Rightarrow> int + wait list" where
  "poll_reasons p [] w = Inr []"
| "poll_reasons p ((fd, events) # requests) w =
     (if fd < 0 \<or> events \<noteq> POLLIN then Inl (- EINVAL)
      else case poll_reason_of p (nat fd) w of
             None \<Rightarrow> Inl (- EBADF)
           | Some reason \<Rightarrow> map_sum id ((#) reason) (poll_reasons p requests w))"

definition poll_from_ring3 ::
  "nat \<Rightarrow> nat \<Rightarrow> bool \<Rightarrow> bool \<Rightarrow> (int \<times> nat) list \<Rightarrow> int \<Rightarrow> desc_world \<Rightarrow> desc_world \<times> (int + poll_outcome)" where
  "poll_from_ring3 p task input may_wait requests timeout w =
     (if requests = [] \<or> MAX_WAIT_REASONS < length requests then (w, Inl (- EINVAL))
      else if timeout \<noteq> - 1 \<and> timeout \<noteq> 0 then (w, Inl (- EINVAL))
      else case poll_reasons p requests w of
             Inl e \<Rightarrow> (w, Inl e)
           | Inr reasons \<Rightarrow>
               let (sockets, r) = poll_attempt task input may_wait reasons timeout (dw_sockets w)
               in (w\<lparr>dw_sockets := sockets\<rparr>, Inr r))"

definition socket_from_ring3 :: "nat \<Rightarrow> nat \<Rightarrow> nat \<Rightarrow> nat \<Rightarrow> desc_world \<Rightarrow> desc_world \<times> int" where
  "socket_from_ring3 p domain kind protocol w =
     (if domain \<noteq> AF_UNIX then (w, - EAFNOSUPPORT)
      else if kind \<noteq> SOCK_STREAM then (w, - EINVAL)
      else if protocol \<noteq> 0 then (w, - EPROTONOSUPPORT)
      else insert_file p (SocketFile Unbound) w)"

text \<open>\<open>read_socket_name\<close> after the copy: the bytes of a \<open>sockaddr_un\<close>, at least its family.\<close>

definition SOCKADDR_UN_LEN :: nat where "SOCKADDR_UN_LEN = 110"

definition socket_name_of :: "u8 list \<Rightarrow> int + u8 list" where
  "socket_name_of raw =
     (if length raw < 2 \<or> SOCKADDR_UN_LEN < length raw then Inl EINVAL
      else let name = takeWhile (\<lambda>b. b \<noteq> 0) (drop 2 raw) in
        if le_nat (take 2 raw) \<noteq> AF_UNIX then Inl EINVAL
        else if name = [] then Inl EINVAL
        else if NAME_MAX < length name then Inl ENAMETOOLONG
        else Inr name)"

definition bind_from_ring3 :: "nat \<Rightarrow> nat \<Rightarrow> u8 list \<Rightarrow> desc_world \<Rightarrow> (desc_world \<times> int) option" where
  "bind_from_ring3 p fd raw w =
     (case socket_state_of p fd w of
        Inl e \<Rightarrow> Some (w, e)
      | Inr Unbound \<Rightarrow>
          (case socket_name_of raw of
             Inl e \<Rightarrow> Some (w, - e)
           | Inr name \<Rightarrow>
               (case bind name (dw_sockets w) of
                  (sw, Ok l) \<Rightarrow> map_option (\<lambda>w1. (w1, 0)) (replace_file p fd (SocketFile (ListenerAt l)) (w\<lparr>dw_sockets := sw\<rparr>))
                | (sw, Err NameTaken) \<Rightarrow> Some (w\<lparr>dw_sockets := sw\<rparr>, - EADDRINUSE)
                | (sw, Err BindNoRoom) \<Rightarrow> Some (w\<lparr>dw_sockets := sw\<rparr>, - ENOBUFS)
                | (sw, Panic) \<Rightarrow> None))
      | Inr _ \<Rightarrow> Some (w, - EINVAL))"

definition listen_from_ring3 :: "nat \<Rightarrow> nat \<Rightarrow> desc_world \<Rightarrow> desc_world \<times> int" where
  "listen_from_ring3 p fd w =
     (case socket_state_of p fd w of
        Inl e \<Rightarrow> (w, e)
      | Inr (ListenerAt l) \<Rightarrow>
          (case listen l (dw_sockets w) of (sw, ok) \<Rightarrow> (w\<lparr>dw_sockets := sw\<rparr>, if ok then 0 else - EINVAL))
      | Inr _ \<Rightarrow> (w, - EINVAL))"

text \<open>One attempt of \<open>accept\<close>; no result means that the task now waits.\<close>

definition accept_from_ring3 :: "nat \<Rightarrow> nat \<Rightarrow> nat \<Rightarrow> bool \<Rightarrow> desc_world \<Rightarrow> desc_world \<times> int option" where
  "accept_from_ring3 task p fd wants_addr w =
     (case socket_state_of p fd w of
        Inl e \<Rightarrow> (w, Some e)
      | Inr (ListenerAt l) \<Rightarrow>
          if wants_addr then (w, Some (- EINVAL))
          else (case sys_accept_attempt task l (dw_sockets w) of
                  (sw, None) \<Rightarrow> (w\<lparr>dw_sockets := sw\<rparr>, None)
                | (sw, Some (Connection conn)) \<Rightarrow>
                    (case insert_file p (SocketFile (StreamAt conn Server)) (w\<lparr>dw_sockets := sw\<rparr>) of
                       (w1, r) \<Rightarrow> if r < 0 then (w1\<lparr>dw_sockets := close_end conn Server (dw_sockets w1)\<rparr>, Some r)
                                  else (w1, Some r))
                | (sw, Some _) \<Rightarrow> (w\<lparr>dw_sockets := sw\<rparr>, Some (- EINVAL)))
      | Inr _ \<Rightarrow> (w, Some (- EINVAL)))"

definition connect_from_ring3 :: "nat \<Rightarrow> nat \<Rightarrow> u8 list \<Rightarrow> desc_world \<Rightarrow> (desc_world \<times> int) option" where
  "connect_from_ring3 p fd raw w =
     (case socket_state_of p fd w of
        Inl e \<Rightarrow> Some (w, e)
      | Inr Unbound \<Rightarrow>
          (case socket_name_of raw of
             Inl e \<Rightarrow> Some (w, - e)
           | Inr name \<Rightarrow>
               (case connect name (dw_sockets w) of
                  (sw, Inr conn) \<Rightarrow>
                    map_option (\<lambda>w1. (w1, 0)) (replace_file p fd (SocketFile (StreamAt conn Client)) (w\<lparr>dw_sockets := sw\<rparr>))
                | (sw, Inl NoListener) \<Rightarrow> Some (w\<lparr>dw_sockets := sw\<rparr>, - ECONNREFUSED)
                | (sw, Inl ConnectNoRoom) \<Rightarrow> Some (w\<lparr>dw_sockets := sw\<rparr>, - EAGAIN)))
      | Inr (StreamAt _ _) \<Rightarrow> Some (w, - EISCONN)
      | Inr (ListenerAt _) \<Rightarrow> Some (w, - EINVAL))"

definition memfd_create_from_ring3 :: "nat \<Rightarrow> desc_world \<Rightarrow> (desc_world \<times> int) option" where
  "memfd_create_from_ring3 p w =
     (case shm_create (dw_shm w) of
        (m, None) \<Rightarrow> Some (w\<lparr>dw_shm := m\<rparr>, - ENOMEM)
      | (m, Some shm) \<Rightarrow>
          (case insert_file p (ShmFile shm) (w\<lparr>dw_shm := m\<rparr>) of
             (w1, r) \<Rightarrow> if r < 0 then map_option (\<lambda>m1. (w1\<lparr>dw_shm := m1\<rparr>, r)) (shm_detach shm (dw_shm w1))
                        else Some (w1, r)))"

fun truncate_errno :: "truncate_outcome \<Rightarrow> int" where
  "truncate_errno (Pages _) = 0"
| "truncate_errno TooLarge = - ENOMEM"
| "truncate_errno NoRoom = - ENOMEM"
| "truncate_errno AlreadySet = - EINVAL"
| "truncate_errno NoShm = - EBADF"

definition ftruncate_from_ring3 :: "nat \<Rightarrow> nat \<Rightarrow> nat \<Rightarrow> desc_world \<Rightarrow> (desc_world \<times> int) option" where
  "ftruncate_from_ring3 p fd sz w =
     (case shm_of p fd w of
        Inl e \<Rightarrow> Some (w, e)
      | Inr shm \<Rightarrow> map_option (\<lambda>(m, r). (w\<lparr>dw_shm := m\<rparr>, truncate_errno r)) (shm_set_size shm sz (dw_shm w)))"

text \<open>The descriptor half of \<open>sendmsg\<close> and of \<open>recvmsg\<close>; no result means that the call goes on to the bytes,
  which are calls of the sockets. \<open>control_errno\<close> says why the number of the new descriptor cannot be
  stored in the caller's control buffer, 0 when it can.\<close>

definition sendmsg_from_ring3 :: "nat \<Rightarrow> nat \<Rightarrow> nat \<Rightarrow> desc_world \<Rightarrow> desc_world \<times> int option" where
  "sendmsg_from_ring3 p fd control_fd w =
     (case socket_state_of p fd w of
        Inl e \<Rightarrow> (w, Some e)
      | Inr (StreamAt conn sd) \<Rightarrow>
          (case shm_of p control_fd w of
             Inl e \<Rightarrow> (w, Some e)
           | Inr shm \<Rightarrow>
               (case sendmsg_fd conn sd shm (dw_sockets w, dw_shm w) of
                  ((sw, m), sent) \<Rightarrow> (w\<lparr>dw_sockets := sw, dw_shm := m\<rparr>, if sent then None else Some (- EAGAIN))))
      | Inr _ \<Rightarrow> (w, Some (- ENOTCONN)))"

definition recvmsg_from_ring3 :: "nat \<Rightarrow> nat \<Rightarrow> int \<Rightarrow> desc_world \<Rightarrow> (desc_world \<times> int option) option" where
  "recvmsg_from_ring3 p fd control_errno w =
     (case socket_state_of p fd w of
        Inl e \<Rightarrow> Some (w, Some e)
      | Inr (StreamAt conn sd) \<Rightarrow>
          (case take_fd conn sd (dw_sockets w) of
             (sw, None) \<Rightarrow> Some (w\<lparr>dw_sockets := sw\<rparr>, None)
           | (sw, Some shm) \<Rightarrow>
               (case insert_file p (ShmFile shm) (w\<lparr>dw_sockets := sw\<rparr>) of
                  (w1, r) \<Rightarrow>
                    if r < 0 then map_option (\<lambda>m. (w1\<lparr>dw_shm := m\<rparr>, Some r)) (shm_detach shm (dw_shm w1))
                    else if control_errno \<noteq> 0 then Some (w1, Some (- control_errno))
                    else Some (w1\<lparr>dw_shm := note_fd_received (dw_shm w1)\<rparr>, None)))
      | Inr _ \<Rightarrow> Some (w, Some (- ENOTCONN)))"

definition open_input_from_ring3 :: "nat \<Rightarrow> bool \<Rightarrow> desc_world \<Rightarrow> desc_world \<times> int" where
  "open_input_from_ring3 p foreground w = (if \<not> foreground then (w, - EBADF) else insert_file p Input w)"

definition open_screen_from_ring3 :: "nat \<Rightarrow> bool \<Rightarrow> bool \<Rightarrow> desc_world \<Rightarrow> desc_world \<times> int" where
  "open_screen_from_ring3 p foreground has_surface w =
     (if \<not> foreground then (w, - EBADF)
      else case enter_graphics has_surface w of
        (w1, r) \<Rightarrow>
          if r < 0 then (w1, r)
          else (case insert_file p Screen w1 of (w2, r2) \<Rightarrow> if r2 < 0 then (leave_graphics w2, r2) else (w2, r2)))"

subsection \<open>Processes\<close>

definition USER_TASK_SLOTS :: nat where "USER_TASK_SLOTS = 2"

text \<open>The pipe of \<open>spawn_detached_from_ring3\<close>: its write end is parked for the process on slot \<open>child\<close>, its
  read end stays reserved for the caller's next process. \<open>started\<close> is whether \<open>start_detached\<close> gave a task.\<close>

definition spawn_detached_pipe :: "nat \<Rightarrow> nat \<Rightarrow> bool \<Rightarrow> desc_world \<Rightarrow> desc_world \<times> int" where
  "spawn_detached_pipe slot child started w =
     (case pipe_create True (dw_pipes w) of
        (pw, None) \<Rightarrow> (w\<lparr>dw_pipes := pw\<rparr>, - EBUSY)
      | (pw, Some pipe) \<Rightarrow>
          if started
          then (w\<lparr>dw_pipes := pw, inherit_stdout := (inherit_stdout w)[child := Some pipe],
                  pending_stdin := (pending_stdin w)[slot := Some pipe]\<rparr>, 0)
          else (w\<lparr>dw_pipes := close_write_end pipe (fst (drop_reservation pipe pw))\<rparr>, - EAGAIN))"

text \<open>\<open>spawn_with_piped_stdin_from_ring3\<close> before and after the nested \<open>spawn\<close>, and the same two moments of a
  detached process.\<close>

definition piped_stdin_begin :: "nat \<Rightarrow> desc_world \<Rightarrow> desc_world \<times> int" where
  "piped_stdin_begin slot w =
     (case pending_stdin w ! slot of
        None \<Rightarrow> (w, - EINVAL)
      | Some pipe \<Rightarrow>
          let w1 = w\<lparr>pending_stdin := (pending_stdin w)[slot := None]\<rparr> in
          (case claim_reserved_reader pipe (dw_pipes w1) of
             (pw, False) \<Rightarrow> (w1\<lparr>dw_pipes := pw\<rparr>, - EINVAL)
           | (pw, True) \<Rightarrow> (w1\<lparr>dw_pipes := pw, inherit_stdin := (inherit_stdin w1)[slot := Some pipe]\<rparr>, 0)))"

definition piped_stdin_end :: "nat \<Rightarrow> desc_world \<Rightarrow> desc_world" where
  "piped_stdin_end slot w =
     (case inherit_stdin w ! slot of
        None \<Rightarrow> w
      | Some pipe \<Rightarrow> w\<lparr>inherit_stdin := (inherit_stdin w)[slot := None], dw_pipes := close_read_end pipe (dw_pipes w)\<rparr>)"

definition detached_end :: "nat \<Rightarrow> desc_world \<Rightarrow> desc_world" where
  "detached_end slot w =
     (case inherit_stdout w ! slot of
        None \<Rightarrow> w
      | Some pipe \<Rightarrow> w\<lparr>inherit_stdout := (inherit_stdout w)[slot := None], dw_pipes := close_write_end pipe (dw_pipes w)\<rparr>)"

definition wait_child_begin :: "nat \<Rightarrow> desc_world \<Rightarrow> desc_world" where
  "wait_child_begin slot w =
     (case pending_stdin w ! slot of
        None \<Rightarrow> w
      | Some pipe \<Rightarrow>
          w\<lparr>pending_stdin := (pending_stdin w)[slot := None], dw_pipes := fst (drop_reservation pipe (dw_pipes w))\<rparr>)"

text \<open>The table of a new process: the terminals, with the parked ends in the places of the first two.\<close>

definition inherited :: "(nat \<Rightarrow> vfile) \<Rightarrow> nat \<Rightarrow> nat option \<Rightarrow> file_table \<Rightarrow> file_table" where
  "inherited f fd end t = (case end of None \<Rightarrow> t | Some pipe \<Rightarrow> fst (ft_replace fd (f pipe) t))"

definition new_process :: "nat \<Rightarrow> desc_world \<Rightarrow> desc_world" where
  "new_process slot w =
     w\<lparr>tables := tables w @ [inherited PipeWrite STDOUT_FD (inherit_stdout w ! slot)
                              (inherited PipeRead STDIN_FD (inherit_stdin w ! slot) file_table_new)],
       inherit_stdin := (inherit_stdin w)[slot := None], inherit_stdout := (inherit_stdout w)[slot := None]\<rparr>"

text \<open>The end of a process drops its table.\<close>

definition end_process :: "nat \<Rightarrow> desc_world \<Rightarrow> desc_world option" where
  "end_process p w = release_all (slots (tables w ! p)) (w\<lparr>tables := take p (tables w) @ drop (Suc p) (tables w)\<rparr>)"

subsection \<open>What is counted\<close>

text \<open>The open descriptors of a table, of all tables, and those parked for a process to come.\<close>

definition table_files :: "file_table \<Rightarrow> vfile multiset" where
  "table_files t = mset (map the (filter (\<lambda>s. s \<noteq> None) (slots t)))"

definition parked :: "(nat \<Rightarrow> vfile) \<Rightarrow> nat option list \<Rightarrow> vfile multiset" where
  "parked f ends = mset (map (\<lambda>e. f (the e)) (filter (\<lambda>e. e \<noteq> None) ends))"

definition open_files :: "desc_world \<Rightarrow> vfile multiset" where
  "open_files w = sum_list (map table_files (tables w)) + parked PipeRead (inherit_stdin w) + parked PipeWrite (inherit_stdout w)"

definition in_flight :: "nat \<Rightarrow> socket_world \<Rightarrow> nat" where
  "in_flight i sw = (\<Sum>c \<leftarrow> connections sw. \<Sum>s \<leftarrow> [Client, Server]. if pending_fd c s = Some i then 1 else 0)"

text \<open>The counts of a pipe are exactly the descriptors of its ends and the reservations; the screen has an
  owner exactly in graphics mode; the count of a shared memory covers its descriptors and those in
  flight (it can be larger: a connection that goes away with a descriptor in flight loses one).\<close>

definition pipe_slot_ok :: "pipe \<Rightarrow> bool" where
  "pipe_slot_ok p \<longleftrightarrow> readers p \<le> 1 \<and> (reserved_reader p \<longrightarrow> readers p = 0) \<and>
     (pipe_in_use p \<longleftrightarrow> 0 < readers p \<or> 0 < writers p \<or> reserved_reader p) \<and> (\<not> pipe_in_use p \<longrightarrow> p = pipe_empty)"

definition pipes_counted :: "vfile multiset \<Rightarrow> nat option list \<Rightarrow> pipe_world \<Rightarrow> bool" where
  "pipes_counted M pending pw \<longleftrightarrow> length (pipes pw) = MAX_PIPES \<and>
     (\<forall>i. count M (PipeRead i) = (if i < MAX_PIPES then readers (pipes pw ! i) else 0) \<and>
          count M (PipeWrite i) = (if i < MAX_PIPES then writers (pipes pw ! i) else 0) \<and>
          count_list pending (Some i) = (if i < MAX_PIPES \<and> reserved_reader (pipes pw ! i) then 1 else 0)) \<and>
     list_all pipe_slot_ok (pipes pw)"

definition screen_counted :: "vfile multiset \<Rightarrow> desc_world \<Rightarrow> bool" where
  "screen_counted M w \<longleftrightarrow> count M Screen = (if graphics_active w then 1 else 0)"

definition shm_counted :: "nat \<Rightarrow> vfile multiset \<Rightarrow> socket_world \<Rightarrow> shm_world \<Rightarrow> bool" where
  "shm_counted k M sw mw \<longleftrightarrow>
     (\<forall>i. count M (ShmFile i) + in_flight i sw \<le> (if i < MAX_SHM then shm_refs (shms mw ! i) else 0)) \<and>
     (\<forall>i < MAX_SHM. shm_refs (shms mw ! i) \<le> k)"

definition counted_world :: "nat \<Rightarrow> vfile multiset \<Rightarrow> phys_addr set \<Rightarrow> desc_world \<Rightarrow> bool" where
  "counted_world k M held w \<longleftrightarrow> pipes_counted M (pending_stdin w) (dw_pipes w) \<and> screen_counted M w \<and>
     shm_counted k M (dw_sockets w) (dw_shm w) \<and> shm_invar (dw_shm w, held)"

subsection \<open>Polling\<close>

text \<open>A call of \<open>poll\<close> is a step of the sockets: the reasons of descriptors are those a step may name.
  The refusal of a wait set that is too long is never reached, since the number of requests was
  checked before.\<close>

lemma poll_reasons_ok: "poll_reasons p requests w = Inr reasons \<Longrightarrow> list_all poll_reason reasons \<and> length reasons = length requests"
proof (induction requests arbitrary: reasons)
  case (Cons q requests)
  obtain fd events where q: "q = (fd, events)" by fastforce
  from Cons.prems q obtain r rs where r: "poll_reason_of p (nat fd) w = Some r" "poll_reasons p requests w = Inr rs"
    "reasons = r # rs"
    by (cases "poll_reasons p requests w") (auto split: if_splits option.splits)
  have "poll_reason r"
    using r(1) by (auto simp: poll_reason_of_def poll_reason_def split: sum.splits if_splits option.splits socket_state.splits)
  then show ?case using Cons.IH [OF r(2)] r(3) by simp
qed simp

lemma push_reasons_fit: "length ws + length rs \<le> MAX_WAIT_REASONS \<Longrightarrow> push_reasons rs ws \<noteq> None"
  by (induction rs arbitrary: ws) (auto simp: wait_set_push_def Let_def)

lemma poll_steps_sockets:
  assumes "task < TASK_COUNT"
  shows "sock_step\<^sup>*\<^sup>* (dw_sockets w) (dw_sockets (fst (poll_from_ring3 p task input may_wait requests timeout w)))"
    and "snd (poll_from_ring3 p task input may_wait requests timeout w) \<noteq> Inr PollInvalid"
proof -
  let ?call = "poll_from_ring3 p task input may_wait requests timeout w"
  show "sock_step\<^sup>*\<^sup>* (dw_sockets w) (dw_sockets (fst ?call))"
  proof (cases "poll_reasons p requests w")
    case (Inr reasons)
    have "sock_step (dw_sockets w) (fst (poll_attempt task input may_wait reasons timeout (dw_sockets w)))"
      using poll_reasons_ok [OF Inr] by (intro st_poll [OF assms]) simp
    then show ?thesis using Inr by (auto simp: poll_from_ring3_def split: prod.splits)
  qed (simp add: poll_from_ring3_def)
  show "snd ?call \<noteq> Inr PollInvalid"
  proof (cases "poll_reasons p requests w")
    case (Inr reasons)
    have "push_reasons reasons wait_set_empty \<noteq> None" if "length requests \<le> MAX_WAIT_REASONS"
      using poll_reasons_ok [OF Inr] that by (intro push_reasons_fit) (simp add: wait_set_empty_def)
    then show ?thesis using Inr
      by (auto simp: poll_from_ring3_def poll_attempt_def Let_def split: if_splits option.splits)
  qed (simp add: poll_from_ring3_def)
qed

end
