(* ===== verification/Descriptor_Counts.thy ===== *)
theory Descriptor_Counts
  imports Descriptors
begin

text \<open>
  The counts behind the descriptors. The kernel keeps no list of who holds the end of a pipe, a shared
  memory or the screen, only counts in the objects themselves; a count that runs ahead leaks the object,
  one that falls behind frees it under a descriptor that still stands. The lemmas here show that every
  call moves the counts together with the descriptors that are open, parked or in flight.
\<close>

subsection \<open>Tables and multisets\<close>

definition rest_files :: "nat \<Rightarrow> desc_world \<Rightarrow> vfile multiset" where
  "rest_files p w = sum_list (map table_files (take p (tables w) @ drop (Suc p) (tables w))) +
     parked PipeRead (inherit_stdin w) + parked PipeWrite (inherit_stdout w)"

lemma open_files_split:
  assumes "p < length (tables w)"
  shows "open_files w = table_files (tables w ! p) + rest_files p w"
    "open_files (set_table p t w) = table_files t + rest_files p w"
    "open_files (w\<lparr>tables := take p (tables w) @ drop (Suc p) (tables w)\<rparr>) = rest_files p w"
proof -
  let ?ts = "tables w"
  have "?ts = take p ?ts @ ?ts ! p # drop (Suc p) ?ts" using assms by (rule id_take_nth_drop)
  then have "sum_list (map table_files ?ts) = sum_list (map table_files (take p ?ts @ ?ts ! p # drop (Suc p) ?ts))" by simp
  then show "open_files w = table_files (tables w ! p) + rest_files p w"
    unfolding open_files_def rest_files_def by (simp add: ac_simps)
  show "open_files (set_table p t w) = table_files t + rest_files p w"
    using assms unfolding open_files_def rest_files_def by (simp add: upd_conv_take_nth_drop ac_simps)
  show "open_files (w\<lparr>tables := take p (tables w) @ drop (Suc p) (tables w)\<rparr>) = rest_files p w"
    by (simp add: open_files_def rest_files_def)
qed

lemma mset_present_update:
  assumes "i < length xs"
  shows "mset (map the (filter (\<lambda>s. s \<noteq> None) (xs[i := v]))) + (case xs ! i of None \<Rightarrow> {#} | Some f \<Rightarrow> {#f#}) =
    mset (map the (filter (\<lambda>s. s \<noteq> None) xs)) + (case v of None \<Rightarrow> {#} | Some f \<Rightarrow> {#f#})"
  using assms
proof (induction xs arbitrary: i)
  case (Cons x xs)
  show ?case
  proof (cases i)
    case 0
    then show ?thesis by (cases x; cases v) auto
  next
    case (Suc j)
    with Cons have "mset (map the (filter (\<lambda>s. s \<noteq> None) (xs[j := v]))) + (case xs ! j of None \<Rightarrow> {#} | Some f \<Rightarrow> {#f#}) =
      mset (map the (filter (\<lambda>s. s \<noteq> None) xs)) + (case v of None \<Rightarrow> {#} | Some f \<Rightarrow> {#f#})" by simp
    then show ?thesis using Suc by (cases x) auto
  qed
qed simp

lemma table_files_update:
  "fd < length (slots t) \<Longrightarrow> table_files (t\<lparr>slots := (slots t)[fd := v]\<rparr>) + (case slots t ! fd of None \<Rightarrow> {#} | Some f \<Rightarrow> {#f#}) =
     table_files t + (case v of None \<Rightarrow> {#} | Some f \<Rightarrow> {#f#})"
proof -
  assume fd: "fd < length (slots t)"
  have "slots (t\<lparr>slots := (slots t)[fd := v]\<rparr>) = (slots t)[fd := v]" by simp
  then show ?thesis using mset_present_update [OF fd, of v] unfolding table_files_def by argo
qed

lemma table_files_insert:
  assumes "ft_insert f t = (t', r)"
  shows "(\<exists>e. r = Inl e) \<and> t' = t \<or> (\<exists>fd. r = Inr fd) \<and> table_files t' = add_mset f (table_files t)"
proof (cases "find_index (\<lambda>slot. slot = None) (slots t)")
  case None
  then show ?thesis using assms by (auto simp: ft_insert_def)
next
  case (Some fd)
  from find_index_Some [OF this] have fd: "fd < length (slots t)" "slots t ! fd = None" by auto
  from table_files_update [OF fd(1), of "Some f"] fd(2)
  have "table_files (t\<lparr>slots := (slots t)[fd := Some f]\<rparr>) = add_mset f (table_files t)" by simp
  then show ?thesis using assms Some by (auto simp: ft_insert_def table_files_def)
qed

lemma table_files_remove:
  assumes "ft_remove fd t = (t', Inr f)"
  shows "table_files t = add_mset f (table_files t')"
proof -
  have g: "ft_get fd t = Inr f" "t' = t\<lparr>slots := (slots t)[fd := None]\<rparr>"
    using assms by (auto simp: ft_remove_def split: sum.splits)
  then have "fd < length (slots t)" "slots t ! fd = Some f" by (auto simp: ft_get_def split: if_splits option.splits)
  with table_files_update [of fd t None] g(2) show ?thesis by simp
qed

lemma table_files_replace:
  assumes "ft_get fd t = Inr g" "ft_replace fd f t = (t', r)"
  shows "r = Some g" "add_mset g (table_files t') = add_mset f (table_files t)"
proof -
  have fd: "fd < length (slots t)" "slots t ! fd = Some g"
    using assms(1) by (auto simp: ft_get_def split: if_splits option.splits)
  then show "r = Some g" using assms(2) by (auto simp: ft_replace_def)
  show "add_mset g (table_files t') = add_mset f (table_files t)"
    using table_files_update [OF fd(1), of "Some f"] fd assms(2) by (auto simp: ft_replace_def)
qed

lemma insert_file_cases:
  assumes "p < length (tables w)" "insert_file p f w = (w', r)"
  shows "r < 0 \<and> w' = w \<or> 0 \<le> r \<and> open_files w' = add_mset f (open_files w) \<and> (\<exists>t. w' = set_table p t w)"
proof -
  obtain t e where t: "ft_insert f (tables w ! p) = (t, e)" by (cases "ft_insert f (tables w ! p)")
  have neg: "- errno_for_file_table x < 0" for x by (cases x) (simp_all add: errno_defs)
  show ?thesis
  proof (cases e)
    case (Inl x)
    then show ?thesis using assms(2) t neg by (auto simp: insert_file_def)
  next
    case (Inr fd)
    then have "w' = set_table p t w" "r = int fd" using assms(2) t by (auto simp: insert_file_def)
    moreover have "open_files (set_table p t w) = add_mset f (open_files w)"
      using table_files_insert [OF t] Inr open_files_split(1,2) [OF assms(1)] by auto
    ultimately show ?thesis by auto
  qed
qed

subsection \<open>Pipes\<close>

lemma count_list_update:
  "i < length xs \<Longrightarrow> count_list (xs[i := v]) x + (if xs ! i = x then 1 else 0) = count_list xs x + (if v = x then 1 else 0)"
proof (induction xs arbitrary: i)
  case (Cons y ys)
  show ?case
  proof (cases i)
    case (Suc j)
    then show ?thesis using Cons.IH [of j] Cons.prems by (auto split: if_splits)
  qed auto
qed simp

lemma pipe_empty_counts [simp]:
  "readers pipe_empty = 0" "writers pipe_empty = 0" "\<not> reserved_reader pipe_empty" "\<not> pipe_in_use pipe_empty"
  by (simp_all add: pipe_empty_def)

lemma release_if_unused_counts [simp]:
  "readers (release_if_unused p) = readers p" "writers (release_if_unused p) = writers p"
  "reserved_reader (release_if_unused p) = reserved_reader p"
  by (simp_all add: release_if_unused_def)

lemma release_slot_ok:
  "pipe_in_use p \<Longrightarrow> readers p \<le> 1 \<Longrightarrow> (reserved_reader p \<longrightarrow> readers p = 0) \<Longrightarrow> pipe_slot_ok (release_if_unused p)"
  by (auto simp: release_if_unused_def pipe_slot_ok_def)

lemma pipe_slot_okD:
  assumes "pipe_slot_ok p"
  shows "readers p \<le> 1" "reserved_reader p \<Longrightarrow> readers p = 0" "\<not> pipe_in_use p \<Longrightarrow> p = pipe_empty"
    "0 < readers p \<Longrightarrow> pipe_in_use p" "0 < writers p \<Longrightarrow> pipe_in_use p" "reserved_reader p \<Longrightarrow> pipe_in_use p"
  using assms by (auto simp: pipe_slot_ok_def)

lemma pipes_counted_at:
  assumes "pipes_counted M pend pw" "i < MAX_PIPES"
  shows "readers (pipes pw ! i) = count M (PipeRead i)" "writers (pipes pw ! i) = count M (PipeWrite i)"
    "count_list pend (Some i) = (if reserved_reader (pipes pw ! i) then 1 else 0)" "pipe_slot_ok (pipes pw ! i)"
    "i < length (pipes pw)"
  using assms by (auto simp: pipes_counted_def list_all_length)

lemma pipes_counted_in_range:
  assumes "pipes_counted M pend pw"
  shows "PipeRead i \<in># M \<Longrightarrow> i < MAX_PIPES" "PipeWrite i \<in># M \<Longrightarrow> i < MAX_PIPES" "Some i \<in> set pend \<Longrightarrow> i < MAX_PIPES"
proof -
  have z: "\<not> i < MAX_PIPES \<Longrightarrow> count M (PipeRead i) = 0 \<and> count M (PipeWrite i) = 0 \<and> count_list pend (Some i) = 0"
    using assms by (simp add: pipes_counted_def)
  show "PipeRead i \<in># M \<Longrightarrow> i < MAX_PIPES" "PipeWrite i \<in># M \<Longrightarrow> i < MAX_PIPES"
    using z by (auto simp: not_in_iff [symmetric])
  show "Some i \<in> set pend \<Longrightarrow> i < MAX_PIPES" using z by (auto simp: count_list_0_iff)
qed

text \<open>The pattern of every operation on a pipe: one slot changes, with the descriptors of that pipe.\<close>

lemma pipes_counted_update:
  assumes c: "pipes_counted M pend pw" and i: "i < MAX_PIPES" and upd: "pipes pw' = (pipes pw)[i := p]" and p: "pipe_slot_ok p"
    and here: "count M' (PipeRead i) = readers p" "count M' (PipeWrite i) = writers p"
      "count_list pend' (Some i) = (if reserved_reader p then 1 else 0)"
    and others: "\<And>j. j \<noteq> i \<Longrightarrow> count M' (PipeRead j) = count M (PipeRead j)" "\<And>j. j \<noteq> i \<Longrightarrow> count M' (PipeWrite j) = count M (PipeWrite j)"
      "\<And>j. j \<noteq> i \<Longrightarrow> count_list pend' (Some j) = count_list pend (Some j)"
  shows "pipes_counted M' pend' pw'"
proof -
  have len: "length (pipes pw) = MAX_PIPES" using c by (simp add: pipes_counted_def)
  have "list_all pipe_slot_ok (pipes pw')" using c p len i by (auto simp: upd pipes_counted_def list_all_length nth_list_update)
  moreover have "count M' (PipeRead j) = (if j < MAX_PIPES then readers (pipes pw' ! j) else 0) \<and>
      count M' (PipeWrite j) = (if j < MAX_PIPES then writers (pipes pw' ! j) else 0) \<and>
      count_list pend' (Some j) = (if j < MAX_PIPES \<and> reserved_reader (pipes pw' ! j) then 1 else 0)" for j
  proof (cases "j = i")
    case True
    then show ?thesis using here i len by (simp add: upd)
  next
    case False
    then show ?thesis using others [OF False] c by (simp add: upd pipes_counted_def)
  qed
  ultimately show ?thesis using len unfolding pipes_counted_def by (simp add: upd)
qed

lemma pipes_counted_close:
  shows "pipes_counted (add_mset (PipeRead i) M) pend pw \<Longrightarrow> pipes_counted M pend (close_read_end i pw)"
    and "pipes_counted (add_mset (PipeWrite i) M) pend pw \<Longrightarrow> pipes_counted M pend (close_write_end i pw)"
proof -
  let ?p = "pipes pw ! i"
  {
    assume c: "pipes_counted (add_mset (PipeRead i) M) pend pw"
    have i: "i < MAX_PIPES" by (rule pipes_counted_in_range [OF c]) simp
    note at = pipes_counted_at [OF c i]
    have use: "pipe_in_use ?p" "0 < readers ?p" using at(1) pipe_slot_okD(4) [OF at(4)] by auto
    have upd: "pipes (close_read_end i pw) = (pipes pw)[i := release_if_unused (?p\<lparr>readers := readers ?p - 1\<rparr>)]"
      using use at(5) by (simp add: close_read_end_def Let_def)
    show "pipes_counted M pend (close_read_end i pw)"
      by (rule pipes_counted_update [OF c i upd release_slot_ok]) (use at(1-3) pipe_slot_okD(1,2) [OF at(4)] use in auto)
  next
    assume c: "pipes_counted (add_mset (PipeWrite i) M) pend pw"
    have i: "i < MAX_PIPES" by (rule pipes_counted_in_range [OF c]) simp
    note at = pipes_counted_at [OF c i]
    have use: "pipe_in_use ?p" "0 < writers ?p" using at(2) pipe_slot_okD(5) [OF at(4)] by auto
    have upd: "pipes (close_write_end i pw) = (pipes pw)[i := release_if_unused (?p\<lparr>writers := writers ?p - 1\<rparr>)]"
      using use at(5) by (simp add: close_write_end_def Let_def)
    show "pipes_counted M pend (close_write_end i pw)"
      by (rule pipes_counted_update [OF c i upd release_slot_ok]) (use at(1-3) pipe_slot_okD(1,2) [OF at(4)] use in auto)
  }
qed

lemma pipes_counted_create:
  assumes c: "pipes_counted M pend pw" and new: "pipe_create True pw = (pw', Some i)" and s: "slot < length pend"
  shows "pipes_counted (add_mset (PipeWrite i) M) (pend[slot := Some i]) pw'"
    "pipes_counted M pend (close_write_end i (fst (drop_reservation i pw')))"
proof -
  let ?p = "pipe_empty\<lparr>pipe_in_use := True, writers := 1, reserved_reader := True\<rparr>"
  obtain pipe where f: "find_index (\<lambda>p. \<not> pipe_in_use p) (pipes pw) = Some i" and pw': "pipes pw' = (pipes pw)[i := ?p]"
    using new by (auto simp: pipe_create_def Let_def split: option.splits)
  from find_index_Some [OF f] have i: "i < length (pipes pw)" "\<not> pipe_in_use (pipes pw ! i)" by auto
  have im: "i < MAX_PIPES" using i(1) c by (simp add: pipes_counted_def)
  note at = pipes_counted_at [OF c im]
  have free: "pipes pw ! i = pipe_empty" using pipe_slot_okD(3) [OF at(4)] i(2) by blast
  have none: "pend ! slot = None"
  proof (cases "pend ! slot")
    case (Some j)
    then have "Some j \<in> set pend" using s by (metis nth_mem)
    then have "j < MAX_PIPES" "count_list pend (Some j) \<noteq> 0" using pipes_counted_in_range(3) [OF c] by (auto simp: count_list_0_iff)
    then have "j = i" "reserved_reader (pipes pw ! j)" using im pipes_counted_at(3) [OF c, of j] by (auto simp: MAX_PIPES_def split: if_splits)
    then show ?thesis using free by simp
  qed
  have cl: "count_list (pend[slot := Some i]) (Some j) = count_list pend (Some j) + (if i = j then 1 else 0)" for j
    using count_list_update [OF s, of "Some i" "Some j"] none by simp
  show "pipes_counted (add_mset (PipeWrite i) M) (pend[slot := Some i]) pw'"
    by (rule pipes_counted_update [OF c im pw']) (use at free cl in \<open>auto simp: pipe_slot_ok_def\<close>)
  have "pipes (close_write_end i (fst (drop_reservation i pw'))) = (pipes pw)[i := pipe_empty]"
    using i(1) pw' by (simp add: drop_reservation_def close_write_end_def release_if_unused_def Let_def)
  then show "pipes_counted M pend (close_write_end i (fst (drop_reservation i pw')))"
    by (rule pipes_counted_update [OF c im]) (use at free in \<open>auto simp: pipe_slot_ok_def\<close>)
qed

lemma pipes_counted_pending:
  assumes c: "pipes_counted M pend pw" and s: "slot < length pend" "pend ! slot = Some i"
  shows "\<exists>pw'. claim_reserved_reader i pw = (pw', True) \<and> pipes_counted (add_mset (PipeRead i) M) (pend[slot := None]) pw'"
    "pipes_counted M (pend[slot := None]) (fst (drop_reservation i pw))"
proof -
  have mem: "Some i \<in> set pend" using s by (metis nth_mem)
  have i: "i < MAX_PIPES" by (rule pipes_counted_in_range(3) [OF c mem])
  note at = pipes_counted_at [OF c i]
  let ?p = "pipes pw ! i"
  have one: "count_list pend (Some i) = 1" using mem at(3) by (auto simp: count_list_0_iff split: if_splits)
  then have res: "reserved_reader ?p" using at(3) by (metis zero_neq_one)
  note res = res pipe_slot_okD(6,2) [OF at(4) res]
  have cl: "count_list (pend[slot := None]) (Some j) = count_list pend (Some j) - (if i = j then 1 else 0)" for j
    using count_list_update [OF s(1), of None "Some j"] s(2) by simp
  have claim: "claim_reserved_reader i pw = (set_pipe i (?p\<lparr>reserved_reader := False, readers := 1\<rparr>) pw, True)"
    using res at(5) by (simp add: claim_reserved_reader_def Let_def)
  have "pipes_counted (add_mset (PipeRead i) M) (pend[slot := None]) (set_pipe i (?p\<lparr>reserved_reader := False, readers := 1\<rparr>) pw)"
    by (rule pipes_counted_update [OF c i]) (use at(1-3) res cl one in \<open>auto simp: pipe_slot_ok_def\<close>)
  then show "\<exists>pw'. claim_reserved_reader i pw = (pw', True) \<and> pipes_counted (add_mset (PipeRead i) M) (pend[slot := None]) pw'"
    using claim by blast
  have upd: "pipes (fst (drop_reservation i pw)) = (pipes pw)[i := release_if_unused (?p\<lparr>reserved_reader := False\<rparr>)]"
    using res at(5) by (simp add: drop_reservation_def Let_def)
  show "pipes_counted M (pend[slot := None]) (fst (drop_reservation i pw))"
    by (rule pipes_counted_update [OF c i upd release_slot_ok]) (use at(1-3) res cl one in auto)
qed

subsection \<open>Shared memories and descriptors in flight\<close>

definition conn_flight :: "nat \<Rightarrow> connection \<Rightarrow> nat" where
  "conn_flight i c = (\<Sum>s \<leftarrow> [Client, Server]. if pending_fd c s = Some i then 1 else 0)"

lemma in_flight_sum: "in_flight i sw = (\<Sum>c \<leftarrow> connections sw. conn_flight i c)"
  by (simp add: in_flight_def conn_flight_def)

lemma sum_list_map_update:
  fixes f :: "'a \<Rightarrow> nat"
  shows "k < length xs \<Longrightarrow> (\<Sum>x \<leftarrow> xs[k := v]. f x) + f (xs ! k) = (\<Sum>x \<leftarrow> xs. f x) + f v"
proof (induction xs arbitrary: k)
  case (Cons y ys)
  show ?case
  proof (cases k)
    case (Suc j)
    then show ?thesis using Cons.IH [of j] Cons.prems by simp
  qed simp
qed simp

lemma in_flight_update:
  assumes "connections sw' = (connections sw)[k := c]" "k < length (connections sw)"
  shows "in_flight i sw' + conn_flight i (connections sw ! k) = in_flight i sw + conn_flight i c"
  unfolding in_flight_sum assms(1) by (rule sum_list_map_update [OF assms(2)])

lemma in_flight_fewer:
  assumes "connections sw' = (connections sw)[k := c]" "\<And>j. k < length (connections sw) \<Longrightarrow> conn_flight j c \<le> conn_flight j (connections sw ! k)"
  shows "in_flight i sw' \<le> in_flight i sw"
proof (cases "k < length (connections sw)")
  case True
  then show ?thesis using in_flight_update [OF assms(1) True, of i] assms(2) [OF True, of i] by linarith
next
  case False
  then have "connections sw' = connections sw" using assms(1) by (simp add: list_update_beyond)
  then show ?thesis by (simp add: in_flight_sum)
qed

lemma in_flight_cong: "connections sw' = connections sw \<Longrightarrow> in_flight i sw' = in_flight i sw"
  by (simp add: in_flight_def)

lemma conn_flight_simps [simp]:
  "conn_flight i connection_empty = 0" "conn_flight i (c\<lparr>is_open := f\<rparr>) = conn_flight i c" "conn_flight i (c\<lparr>accepted := b\<rparr>) = conn_flight i c"
  "conn_flight i (c\<lparr>rings := r\<rparr>) = conn_flight i c" "conn_flight i (c\<lparr>conn_listener := l\<rparr>) = conn_flight i c" "conn_flight i (c\<lparr>conn_in_use := b\<rparr>) = conn_flight i c"
  by (simp_all add: conn_flight_def connection_empty_def)

lemma in_flight_close_end: "in_flight i (close_end conn sd sw) \<le> in_flight i sw"
proof (cases "conn < length (connections sw) \<and> conn_in_use (connections sw ! conn) \<and> is_open (connections sw ! conn) sd")
  case True
  then have "\<exists>c. connections (close_end conn sd sw) = (connections sw)[conn := c] \<and> (c = connection_empty \<or> (\<exists>f. c = (connections sw ! conn)\<lparr>is_open := f\<rparr>))"
    by (auto simp: close_end_def Let_def)
  then obtain c where c: "connections (close_end conn sd sw) = (connections sw)[conn := c]"
    "c = connection_empty \<or> (\<exists>f. c = (connections sw ! conn)\<lparr>is_open := f\<rparr>)" by blast
  show ?thesis by (rule in_flight_fewer [OF c(1)]) (use c(2) in auto)
next
  case False
  then show ?thesis by (auto simp: close_end_def Let_def)
qed

lemma in_flight_fold_close: "in_flight i (fold (\<lambda>j. close_end j Server) js sw) \<le> in_flight i sw"
proof (induction js arbitrary: sw)
  case (Cons j js)
  then show ?case using in_flight_close_end [of i j Server sw] le_trans by fastforce
qed simp

lemma in_flight_close_listener: "in_flight i (close_listener l sw) \<le> in_flight i sw"
proof (cases "l < length (listeners sw) \<and> lis_in_use (listeners sw ! l)")
  case True
  let ?sw = "sw\<lparr>listeners := (listeners sw)[l := listener_empty], sk_listeners_released := sk_listeners_released sw + 1\<rparr>"
  have "in_flight i ?sw = in_flight i sw" by (simp add: in_flight_def)
  with in_flight_fold_close [of i _ ?sw] True show ?thesis by (simp add: close_listener_def Let_def)
next
  case False
  then show ?thesis by (auto simp: close_listener_def)
qed

lemma in_flight_connect: "in_flight i (fst (connect name sw)) \<le> in_flight i sw"
proof (cases "\<exists>l. find_index (\<lambda>l. lis_in_use l \<and> listening l \<and> lis_name l = name) (listeners sw) = Some l \<and>
    find_index (\<lambda>c. \<not> conn_in_use c) (connections sw) \<noteq> None")
  case True
  then obtain l k where lk: "find_index (\<lambda>l. lis_in_use l \<and> listening l \<and> lis_name l = name) (listeners sw) = Some l"
    "find_index (\<lambda>c. \<not> conn_in_use c) (connections sw) = Some k" by auto
  then have "connections (fst (connect name sw)) =
      (connections sw)[k := connection_empty\<lparr>conn_in_use := True, conn_listener := l, is_open := (\<lambda>_. True)\<rparr>]"
    by (simp add: connect_def Let_def sock_wake_def)
  then show ?thesis by (rule in_flight_fewer) simp
next
  case False
  then show ?thesis by (auto simp: connect_def in_flight_def split: option.splits)
qed

lemma in_flight_same:
  "in_flight i (fst (bind name sw)) = in_flight i sw" "in_flight i (fst (listen l sw)) = in_flight i sw"
  "in_flight i (sw\<lparr>sk_accept_waits := n, sock_tasks := ts\<rparr>) = in_flight i sw"
  by (auto simp: bind_def listen_def in_flight_def split: option.splits)

lemma in_flight_accept: "in_flight i (fst (sys_accept_attempt k l sw)) \<le> in_flight i sw"
proof -
  have "in_flight i (fst (accept l sw)) \<le> in_flight i sw"
  proof (cases "is_listening l sw \<and> find_index (is_pending l) (connections sw) \<noteq> None")
    case True
    then obtain j where "find_index (is_pending l) (connections sw) = Some j" "is_listening l sw" by auto
    then have "connections (fst (accept l sw)) = (connections sw)[j := (connections sw ! j)\<lparr>accepted := True\<rparr>]"
      by (simp add: accept_def)
    then show ?thesis by (rule in_flight_fewer) simp
  next
    case False
    then show ?thesis by (auto simp: accept_def)
  qed
  then show ?thesis by (auto simp: sys_accept_attempt_def in_flight_same split: prod.splits accept_outcome.splits)
qed

lemma traffic_connections:
  "connections (fst (sock_read_into conn sd m sw)) = connections sw \<or>
     (\<exists>r. connections (fst (sock_read_into conn sd m sw)) = (connections sw)[conn := (connections sw ! conn)\<lparr>rings := r\<rparr>])"
  "connections (fst (sock_write_from conn sd src sw)) = connections sw \<or>
     (\<exists>r. connections (fst (sock_write_from conn sd src sw)) = (connections sw)[conn := (connections sw ! conn)\<lparr>rings := r\<rparr>])"
  by (auto simp: sock_read_into_def sock_write_from_def Let_def split: prod.splits)

lemma traffic_calls:
  "\<exists>m. connections (fst (read_from_socket k conn sd n sw)) = connections (fst (sock_read_into conn sd m sw)) \<or>
     connections (fst (read_from_socket k conn sd n sw)) = connections sw"
  "\<exists>src. connections (fst (write_to_socket k conn sd data sw)) = connections (fst (sock_write_from conn sd src sw)) \<or>
     connections (fst (write_to_socket k conn sd data sw)) = connections sw"
proof -
  show "\<exists>m. connections (fst (read_from_socket k conn sd n sw)) = connections (fst (sock_read_into conn sd m sw)) \<or>
     connections (fst (read_from_socket k conn sd n sw)) = connections sw"
    by (rule exI [of _ "min n SOCKET_RING"])
      (cases "sock_read_into conn sd (min n SOCKET_RING) sw", auto simp: read_from_socket_def split: sock_read_outcome.splits)
  show "\<exists>src. connections (fst (write_to_socket k conn sd data sw)) = connections (fst (sock_write_from conn sd src sw)) \<or>
     connections (fst (write_to_socket k conn sd data sw)) = connections sw"
    by (rule exI [of _ "take SOCKET_RING data"])
      (cases "sock_write_from conn sd (take SOCKET_RING data) sw", auto simp: write_to_socket_def split: sock_write_outcome.splits)
qed

lemma in_flight_traffic:
  "in_flight i (fst (read_from_socket k conn sd n sw)) \<le> in_flight i sw"
  "in_flight i (fst (write_to_socket k conn sd data sw)) \<le> in_flight i sw"
  "in_flight i (wait_until_readable k conn sd sw) = in_flight i sw"
proof -
  have ring: "in_flight i sw' \<le> in_flight i sw"
    if "connections sw' = connections sw \<or> (\<exists>r. connections sw' = (connections sw)[conn := (connections sw ! conn)\<lparr>rings := r\<rparr>])" for sw'
    using that
  proof
    assume "\<exists>r. connections sw' = (connections sw)[conn := (connections sw ! conn)\<lparr>rings := r\<rparr>]"
    then obtain r where "connections sw' = (connections sw)[conn := (connections sw ! conn)\<lparr>rings := r\<rparr>]" by blast
    then show ?thesis by (rule in_flight_fewer) simp
  qed (simp add: in_flight_def)
  show "in_flight i (fst (read_from_socket k conn sd n sw)) \<le> in_flight i sw"
    by (rule ring) (use traffic_calls(1) traffic_connections(1) in metis)
  show "in_flight i (fst (write_to_socket k conn sd data sw)) \<le> in_flight i sw"
    by (rule ring) (use traffic_calls(2) traffic_connections(2) in metis)
  show "in_flight i (wait_until_readable k conn sd sw) = in_flight i sw"
    by (simp add: wait_until_readable_def in_flight_def)
qed

lemma shm_counted_fewer:
  assumes "shm_counted k M sw mw" "\<And>i. in_flight i sw' \<le> in_flight i sw"
  shows "shm_counted k M sw' mw"
  using assms unfolding shm_counted_def by (meson add_left_mono le_trans)

lemma shm_counted_later: "shm_counted k M sw mw \<Longrightarrow> shm_counted (Suc k) M sw mw"
  unfolding shm_counted_def by (meson le_Suc_eq)

lemma shm_counted_refs:
  assumes "shm_counted k M sw mw" "shms mw' = shms mw"
  shows "shm_counted k M sw mw'"
  using assms(1) unfolding shm_counted_def assms(2) .

text \<open>The pattern of the operations on one object: its count changes with its descriptors.\<close>

lemma shm_counted_update:
  assumes c: "shm_counted k M sw mw" and i: "i < MAX_SHM" "length (shms mw) = MAX_SHM" and upd: "shms mw' = (shms mw)[i := s]"
    and here: "count M' (ShmFile i) + in_flight i sw' \<le> shm_refs s" "shm_refs s \<le> k'" "k \<le> k'"
    and others: "\<And>j. j \<noteq> i \<Longrightarrow> count M' (ShmFile j) \<le> count M (ShmFile j)" "\<And>j. j \<noteq> i \<Longrightarrow> in_flight j sw' \<le> in_flight j sw"
  shows "shm_counted k' M' sw' mw'"
proof -
  have "count M' (ShmFile j) + in_flight j sw' \<le> (if j < MAX_SHM then shm_refs (shms mw' ! j) else 0)" for j
  proof (cases "j = i")
    case True
    then show ?thesis using here(1) i by (simp add: upd)
  next
    case False
    have "count M (ShmFile j) + in_flight j sw \<le> (if j < MAX_SHM then shm_refs (shms mw ! j) else 0)"
      using c by (simp add: shm_counted_def)
    then show ?thesis using others [OF False] False by (auto simp: upd split: if_splits)
  qed
  moreover have "shm_refs (shms mw' ! j) \<le> k'" if "j < MAX_SHM" for j
  proof (cases "j = i")
    case True
    then show ?thesis using here(2) i by (simp add: upd)
  next
    case False
    then show ?thesis using c that here(3) by (simp add: upd shm_counted_def) (meson le_trans)
  qed
  ultimately show ?thesis by (simp add: shm_counted_def)
qed

lemma shm_counted_mem:
  assumes "shm_counted k M sw mw" "ShmFile i \<in># M \<or> 0 < in_flight i sw"
  shows "i < MAX_SHM" "0 < shm_refs (shms mw ! i)"
proof -
  have "count M (ShmFile i) + in_flight i sw \<le> (if i < MAX_SHM then shm_refs (shms mw ! i) else 0)"
    using assms(1) by (simp add: shm_counted_def)
  moreover have "0 < count M (ShmFile i) + in_flight i sw" using assms(2) by (auto simp: count_greater_zero_iff)
  ultimately have "0 < (if i < MAX_SHM then shm_refs (shms mw ! i) else 0)" by linarith
  then show "i < MAX_SHM" "0 < shm_refs (shms mw ! i)" by (simp_all split: if_splits)
qed

lemma shm_in_use_refs: "shm_invar (mw, held) \<Longrightarrow> i < MAX_SHM \<Longrightarrow> 0 < shm_refs (shms mw ! i) \<Longrightarrow> shm_in_use (shms mw ! i)"
  using shm_invar_slot [of mw held i] by (auto simp: shm_slot_ok_def shm_empty_def split: if_splits)

lemma shm_detach_refs:
  assumes "shm_detach i mw = Some mw'" "i < MAX_SHM" "shm_in_use (shms mw ! i)"
  shows "\<exists>s. shms mw' = (shms mw)[i := s] \<and> shm_refs s = shm_refs (shms mw ! i) - 1"
  using assms by (auto simp: shm_detach_def Let_def shm_empty_def split: if_splits prod.splits option.splits)

lemma shm_counted_detach:
  assumes c: "shm_counted k (add_mset (ShmFile i) M) sw mw" and inv: "shm_invar (mw, held)"
  shows "\<exists>mw'. shm_detach i mw = Some mw' \<and> shm_counted k M sw mw' \<and> shm_invar (mw', held)"
proof -
  have i: "i < MAX_SHM" "0 < shm_refs (shms mw ! i)" using shm_counted_mem [OF c, of i] by auto
  have len: "length (shms mw) = MAX_SHM" using inv by (simp add: shm_invar_def)
  obtain mw' where mw': "shm_detach i mw = Some mw'" "shm_invar (mw', held)" using shm_invar_detach [OF inv] by blast
  obtain s where s: "shms mw' = (shms mw)[i := s]" "shm_refs s = shm_refs (shms mw ! i) - 1"
    using shm_detach_refs [OF mw'(1) i(1) shm_in_use_refs [OF inv i]] by blast
  have "Suc (count M (ShmFile i)) + in_flight i sw \<le> shm_refs (shms mw ! i)" "shm_refs (shms mw ! i) \<le> k"
    using c i(1) by (auto simp: shm_counted_def split: if_splits dest: spec [of _ i])
  then have "shm_counted k M sw mw'"
    by (intro shm_counted_update [OF c i(1) len s(1)]) (use s(2) in auto)
  then show ?thesis using mw' by blast
qed

lemma shm_counted_create:
  assumes c: "shm_counted k M sw mw" and inv: "shm_invar (mw, held)" and new: "shm_create mw = (mw', Some i)"
  shows "shm_counted (Suc k) (add_mset (ShmFile i) M) sw mw'"
proof -
  have f: "find_index (\<lambda>s. \<not> shm_in_use s) (shms mw) = Some i" and upd: "shms mw' = (shms mw)[i := shm_empty\<lparr>shm_in_use := True, shm_refs := 1\<rparr>]"
    using new by (auto simp: shm_create_def split: option.splits)
  have len: "length (shms mw) = MAX_SHM" using inv by (simp add: shm_invar_def)
  from find_index_Some [OF f] have i: "i < MAX_SHM" "\<not> shm_in_use (shms mw ! i)" using len by auto
  have "shm_refs (shms mw ! i) = 0" using shm_invar_slot [OF inv i(1)] i(2) by (simp add: shm_slot_ok_def shm_empty_def)
  then have "count M (ShmFile i) + in_flight i sw = 0" using c i(1) by (auto simp: shm_counted_def dest: spec [of _ i])
  then show ?thesis by (intro shm_counted_update [OF c i(1) len upd]) auto
qed

lemma shm_counted_send:
  assumes c: "shm_counted k M sw mw" and inv: "shm_invar (mw, held)" and f: "ShmFile i \<in># M" and k: "k < 2 ^ 32 - 1"
    and s: "sendmsg_fd conn sd i (sw, mw) = ((sw', mw'), sent)"
  shows "shm_counted (Suc k) M sw' mw'" "shm_invar (mw', held)"
proof -
  have i: "i < MAX_SHM" "0 < shm_refs (shms mw ! i)" using shm_counted_mem [OF c] f by auto
  have use: "shm_in_use (shms mw ! i)" by (rule shm_in_use_refs [OF inv i])
  have len: "length (shms mw) = MAX_SHM" using inv by (simp add: shm_invar_def)
  obtain sw1 q where q: "queue_fd conn sd i sw = (sw1, q)" by (cases "queue_fd conn sd i sw")
  have "shm_counted (Suc k) M sw' mw' \<and> shm_invar (mw', held)"
  proof (cases q)
    case False
    then have "sw' = sw" "mw' = mw" using s q by (auto simp: sendmsg_fd_def queue_fd_def Let_def split: if_splits)
    then show ?thesis using shm_counted_later [OF c] inv by simp
  next
    case True
    let ?c = "connections sw ! conn"
    have con: "conn < length (connections sw)" "pending_fd ?c (peer sd) = None"
      "connections sw1 = (connections sw)[conn := ?c\<lparr>pending_fd := (pending_fd ?c)(peer sd := Some i)\<rparr>]"
      using q True by (auto simp: queue_fd_def Let_def sock_wake_def split: if_splits)
    have fl: "in_flight j sw1 = in_flight j sw + (if j = i then 1 else 0)" for j
      using in_flight_update [OF con(3,1), of j] con(2) by (cases sd) (auto simp: conn_flight_def split: if_splits)
    have refs: "shm_refs (shms mw ! i) \<le> k" "count M (ShmFile i) + in_flight i sw \<le> shm_refs (shms mw ! i)"
      using c i(1) by (auto simp: shm_counted_def dest: spec [of _ i])
    have sw': "sw' = sw1" and mw': "mw' = note_fd_sent (fst (shm_attach i mw))" using s q True by (auto simp: sendmsg_fd_def)
    have upd: "shms mw' = (shms mw)[i := (shms mw ! i)\<lparr>shm_refs := shm_refs (shms mw ! i) + 1\<rparr>]"
      using i(1) use refs(1) k by (simp add: mw' note_fd_sent_def shm_attach_def Let_def)
    have "shm_counted (Suc k) M sw1 mw'"
      by (rule shm_counted_update [OF c i(1) len upd]) (use fl refs in auto)
    moreover have "shm_invar (fst (shm_attach i mw), held)" using shm_invar_attach [OF inv] by (metis prod.collapse)
    then have "shm_invar (mw', held)" unfolding mw' note_fd_sent_def
      by (rule shm_invar_lending) (use \<open>shm_invar (fst (shm_attach i mw), held)\<close> in \<open>auto simp: shm_invar_def\<close>)
    ultimately show ?thesis using sw' by simp
  qed
  then show "shm_counted (Suc k) M sw' mw'" "shm_invar (mw', held)" by auto
qed

lemma shm_counted_take:
  assumes c: "shm_counted k M sw mw" and t: "take_fd conn sd sw = (sw', Some i)"
  shows "shm_counted k (add_mset (ShmFile i) M) sw' mw"
proof -
  let ?c = "connections sw ! conn"
  have con: "conn < length (connections sw)" "pending_fd ?c sd = Some i"
    "connections sw' = (connections sw)[conn := ?c\<lparr>pending_fd := (pending_fd ?c)(sd := None)\<rparr>]"
    using t by (auto simp: take_fd_def Let_def split: if_splits)
  have fl: "in_flight j sw' + (if j = i then 1 else 0) = in_flight j sw" for j
    using in_flight_update [OF con(3,1), of j] con(2) by (cases sd) (auto simp: conn_flight_def split: if_splits)
  have "count (add_mset (ShmFile i) M) (ShmFile j) + in_flight j sw' = count M (ShmFile j) + in_flight j sw" for j
    using fl [of j] by (cases "j = i") simp_all
  then show ?thesis using c unfolding shm_counted_def by simp
qed

subsection \<open>Opening and releasing keeps the counts\<close>

lemma counted_other [simp]:
  "(\<And>i. f \<noteq> PipeRead i) \<Longrightarrow> (\<And>i. f \<noteq> PipeWrite i) \<Longrightarrow> pipes_counted (add_mset f M) pend pw = pipes_counted M pend pw"
  "f \<noteq> Screen \<Longrightarrow> screen_counted (add_mset f M) w = screen_counted M w"
  "(\<And>i. f \<noteq> ShmFile i) \<Longrightarrow> shm_counted k (add_mset f M) sw mw = shm_counted k M sw mw"
  by (simp_all add: pipes_counted_def screen_counted_def shm_counted_def)

lemma counted_worldD:
  assumes "counted_world k M held w"
  shows "pipes_counted M (pending_stdin w) (dw_pipes w)" "screen_counted M w" "shm_counted k M (dw_sockets w) (dw_shm w)"
    "shm_invar (dw_shm w, held)"
  using assms by (auto simp: counted_world_def)

lemma counted_world_later: "counted_world k M held w \<Longrightarrow> counted_world (Suc k) M held w"
  by (auto simp: counted_world_def intro: shm_counted_later)

lemma counted_world_sockets:
  assumes "counted_world k M held w" "\<And>i. in_flight i sw \<le> in_flight i (dw_sockets w)"
  shows "counted_world k M held (w\<lparr>dw_sockets := sw\<rparr>)"
  using assms shm_counted_fewer by (auto simp: counted_world_def screen_counted_def)

lemma screen_counted_leave: "screen_counted (add_mset Screen M) w \<Longrightarrow> screen_counted M (leave_graphics w)"
  by (auto simp: screen_counted_def leave_graphics_def split: if_splits)

definition same_tables :: "desc_world \<Rightarrow> desc_world \<Rightarrow> bool" where
  "same_tables w w' \<longleftrightarrow> tables w' = tables w \<and> inherit_stdin w' = inherit_stdin w \<and> inherit_stdout w' = inherit_stdout w \<and>
     pending_stdin w' = pending_stdin w"

lemma same_tables_open: "same_tables w w' \<Longrightarrow> open_files w' = open_files w"
  by (simp add: same_tables_def open_files_def)

lemma release_end_counted:
  assumes c: "counted_world k (add_mset f M) held w"
  shows "\<exists>w'. release_end f w = Some w' \<and> counted_world k M held w' \<and> same_tables w w'"
proof -
  note d = counted_worldD [OF c]
  show ?thesis
  proof (cases f)
    case (PipeRead i)
    then show ?thesis using d pipes_counted_close(1) by (auto simp: counted_world_def same_tables_def screen_counted_def)
  next
    case (PipeWrite i)
    then show ?thesis using d pipes_counted_close(2) by (auto simp: counted_world_def same_tables_def screen_counted_def)
  next
    case (ShmFile i)
    with d(3,4) obtain mw' where "shm_detach i (dw_shm w) = Some mw'" "shm_counted k M (dw_sockets w) mw'" "shm_invar (mw', held)"
      using shm_counted_detach by blast
    then show ?thesis using d ShmFile by (auto simp: counted_world_def same_tables_def screen_counted_def)
  next
    case Screen
    have "dw_pipes (leave_graphics w) = dw_pipes w" "pending_stdin (leave_graphics w) = pending_stdin w"
      "dw_sockets (leave_graphics w) = dw_sockets w" "dw_shm (leave_graphics w) = dw_shm w" "same_tables w (leave_graphics w)"
      by (simp_all add: leave_graphics_def same_tables_def)
    then show ?thesis using d Screen screen_counted_leave by (auto simp: counted_world_def)
  next
    case (SocketFile s)
    have base: "counted_world k M held w" using d SocketFile by (auto simp: counted_world_def)
    show ?thesis
    proof (cases s)
      case (StreamAt conn sd)
      then show ?thesis using counted_world_sockets [OF base in_flight_close_end] SocketFile by (auto simp: same_tables_def)
    next
      case (ListenerAt l)
      then show ?thesis using counted_world_sockets [OF base in_flight_close_listener] SocketFile by (auto simp: same_tables_def)
    qed (use base SocketFile in \<open>auto simp: same_tables_def\<close>)
  qed (use d in \<open>auto simp: counted_world_def same_tables_def\<close>)
qed

lemma release_all_counted:
  "counted_world k (mset (map the (filter (\<lambda>s. s \<noteq> None) fs)) + M) held w \<Longrightarrow>
     \<exists>w'. release_all fs w = Some w' \<and> counted_world k M held w' \<and> same_tables w w'"
proof (induction fs arbitrary: w)
  case Nil
  then show ?case by (simp add: same_tables_def)
next
  case (Cons x fs)
  show ?case
  proof (cases x)
    case None
    then show ?thesis using Cons by simp
  next
    case (Some f)
    with Cons.prems have "counted_world k (add_mset f (mset (map the (filter (\<lambda>s. s \<noteq> None) fs)) + M)) held w" by simp
    from release_end_counted [OF this] obtain w1 where w1: "release_end f w = Some w1"
      "counted_world k (mset (map the (filter (\<lambda>s. s \<noteq> None) fs)) + M) held w1" "same_tables w w1" by blast
    from Cons.IH [OF w1(2)] show ?thesis using Some w1(1,3) by (auto simp: same_tables_def)
  qed
qed

text \<open>The invariant: the counts agree with the descriptors that are open or parked.\<close>

definition desc_invar :: "nat \<Rightarrow> desc_world \<times> phys_addr set \<Rightarrow> bool" where
  "desc_invar k = (\<lambda>(w, held). counted_world k (open_files w) held w \<and> length (inherit_stdin w) = USER_TASK_SLOTS \<and>
     length (inherit_stdout w) = USER_TASK_SLOTS \<and> length (pending_stdin w) = USER_TASK_SLOTS)"

lemma counted_set_table: "counted_world k M held (set_table p t w) = counted_world k M held w"
  by (simp add: counted_world_def screen_counted_def)

lemma insert_counted:
  assumes p: "p < length (tables w)" and i: "insert_file p f w = (w', r)" and c: "counted_world k (add_mset f (open_files w)) held w"
  shows "r < 0 \<and> w' = w \<or> 0 \<le> r \<and> counted_world k (open_files w') held w' \<and> (\<exists>t. w' = set_table p t w)"
  using insert_file_cases [OF p i] c counted_set_table by metis

lemma insert_plain:
  assumes "desc_invar k (w, held)" "p < length (tables w)" "insert_file p f w = (w', r)"
    and "\<And>i. f \<noteq> PipeRead i" "\<And>i. f \<noteq> PipeWrite i" "\<And>i. f \<noteq> ShmFile i" "f \<noteq> Screen"
  shows "desc_invar k (w', held)"
proof -
  have "counted_world k (add_mset f (open_files w)) held w" using assms(1,4-) by (auto simp: desc_invar_def counted_world_def)
  from insert_counted [OF assms(2,3) this] show ?thesis using assms(1) by (auto simp: desc_invar_def)
qed

lemma close_counted:
  assumes inv: "desc_invar k (w, held)" and p: "p < length (tables w)" and c: "sys_close p fd w = Some (w', r)"
  shows "desc_invar k (w', held)"
proof -
  obtain t e where t: "ft_remove fd (tables w ! p) = (t, e)" by (cases "ft_remove fd (tables w ! p)")
  show ?thesis
  proof (cases e)
    case (Inl x)
    then show ?thesis using inv c t by (simp add: sys_close_def)
  next
    case (Inr f)
    have "open_files w = add_mset f (open_files (set_table p t w))"
      using table_files_remove [OF t [unfolded Inr]] open_files_split(1,2) [OF p] by simp
    then have "counted_world k (add_mset f (open_files (set_table p t w))) held (set_table p t w)"
      using inv by (simp add: desc_invar_def counted_set_table)
    from release_end_counted [OF this] obtain w1 where w1: "release_end f (set_table p t w) = Some w1"
      "counted_world k (open_files (set_table p t w)) held w1" "same_tables (set_table p t w) w1" by blast
    then have "w' = w1" using c t Inr by (simp add: sys_close_def)
    then show ?thesis using w1(2,3) inv same_tables_open [OF w1(3)] by (auto simp: desc_invar_def same_tables_def)
  qed
qed

lemma end_process_counted:
  assumes inv: "desc_invar k (w, held)" and p: "p < length (tables w)"
  shows "\<exists>w'. end_process p w = Some w' \<and> desc_invar k (w', held)"
proof -
  let ?w = "w\<lparr>tables := take p (tables w) @ drop (Suc p) (tables w)\<rparr>"
  have "counted_world k (table_files (tables w ! p) + open_files ?w) held w"
    using inv open_files_split(1,3) [OF p] by (simp add: desc_invar_def)
  then have "counted_world k (table_files (tables w ! p) + open_files ?w) held ?w" by (simp add: counted_world_def screen_counted_def)
  from release_all_counted [OF this [unfolded table_files_def]] obtain w1 where
    w1: "release_all (slots (tables w ! p)) ?w = Some w1" "counted_world k (open_files ?w) held w1" "same_tables ?w w1" by blast
  have "desc_invar k (w1, held)" using w1(2,3) inv same_tables_open [OF w1(3)] by (auto simp: desc_invar_def same_tables_def)
  then show ?thesis using w1(1) by (simp add: end_process_def)
qed

lemma counted_world_socket_file [simp]: "counted_world k (add_mset (SocketFile s) M) held w = counted_world k M held w"
  by (simp add: counted_world_def)

lemma replace_socket_counted:
  assumes inv: "desc_invar k (w, held)" and p: "p < length (tables w)" and s: "socket_state_of p fd w = Inr Unbound"
    and sw: "\<And>i. in_flight i sw \<le> in_flight i (dw_sockets w)"
    and r: "replace_file p fd (SocketFile s') (w\<lparr>dw_sockets := sw\<rparr>) = Some w'"
  shows "desc_invar k (w', held)"
proof -
  let ?w = "w\<lparr>dw_sockets := sw\<rparr>"
  have g: "ft_get fd (tables w ! p) = Inr (SocketFile Unbound)"
    using s by (auto simp: socket_state_of_def split: sum.splits option.splits elim!: file_socket_state.elims)
  obtain t e where t: "ft_replace fd (SocketFile s') (tables w ! p) = (t, e)" by (cases "ft_replace fd (SocketFile s') (tables w ! p)")
  note rep = table_files_replace [OF g t]
  have w': "w' = set_table p t ?w" using r t rep(1) by (simp add: replace_file_def)
  have "add_mset (SocketFile Unbound) (open_files w') = add_mset (SocketFile s') (open_files w)"
    using rep(2) open_files_split(1) [OF p] open_files_split(2) [of p ?w t] p by (simp add: w' rest_files_def)
  moreover have "counted_world k (open_files w) held ?w" by (rule counted_world_sockets [OF _ sw]) (use inv in \<open>simp add: desc_invar_def\<close>)
  ultimately have "counted_world k (open_files w') held ?w" by (metis counted_world_socket_file)
  moreover have "counted_world k M held w' = counted_world k M held ?w" for M unfolding w' by (rule counted_set_table)
  ultimately have "counted_world k (open_files w') held w'" by simp
  then show ?thesis using inv by (simp add: desc_invar_def) (simp add: w')
qed

lemma desc_invar_sockets:
  "desc_invar k (w, held) \<Longrightarrow> (\<And>i. in_flight i sw \<le> in_flight i (dw_sockets w)) \<Longrightarrow> desc_invar k (w\<lparr>dw_sockets := sw\<rparr>, held)"
  using counted_world_sockets [of k "open_files w" held w sw] by (simp add: desc_invar_def open_files_def)

lemma bind_counted:
  assumes "desc_invar k (w, held)" "p < length (tables w)" "bind_from_ring3 p fd raw w = Some (w', r)"
  shows "desc_invar k (w', held)"
proof -
  have fl: "in_flight i sw \<le> in_flight i (dw_sockets w)" if "bind name (dw_sockets w) = (sw, x)" for i name sw x
    using in_flight_same(1) [of i name "dw_sockets w"] that by simp
  from assms(1,3) show ?thesis
    by (auto simp: bind_from_ring3_def split: sum.splits socket_state.splits prod.splits outcome.splits bind_error.splits
        intro: replace_socket_counted [OF assms(1,2)] desc_invar_sockets [OF assms(1)] fl)
qed

lemma connect_counted:
  assumes "desc_invar k (w, held)" "p < length (tables w)" "connect_from_ring3 p fd raw w = Some (w', r)"
  shows "desc_invar k (w', held)"
proof -
  have fl: "in_flight i sw \<le> in_flight i (dw_sockets w)" if "connect name (dw_sockets w) = (sw, x)" for i name sw x
    using in_flight_connect [of i name "dw_sockets w"] that by simp
  from assms(1,3) show ?thesis
    by (auto simp: connect_from_ring3_def split: sum.splits socket_state.splits prod.splits connect_error.splits
        intro: replace_socket_counted [OF assms(1,2)] desc_invar_sockets [OF assms(1)] fl)
qed

lemma listen_counted:
  assumes "desc_invar k (w, held)" "listen_from_ring3 p fd w = (w', r)"
  shows "desc_invar k (w', held)"
proof -
  have fl: "in_flight i sw \<le> in_flight i (dw_sockets w)" if "listen l (dw_sockets w) = (sw, x)" for i l sw x
    using in_flight_same(2) [of i l "dw_sockets w"] that by simp
  from assms show ?thesis
    by (auto simp: listen_from_ring3_def split: sum.splits socket_state.splits prod.splits
        intro: desc_invar_sockets [OF assms(1)] fl)
qed

lemma accept_counted:
  assumes inv: "desc_invar k (w, held)" and p: "p < length (tables w)" and a: "accept_from_ring3 task p fd b w = (w', r)"
  shows "desc_invar k (w', held)"
proof (cases "\<exists>l. socket_state_of p fd w = Inr (ListenerAt l) \<and> \<not> b")
  case False
  then have "w' = w" using a by (auto simp: accept_from_ring3_def split: sum.splits socket_state.splits)
  then show ?thesis using inv by simp
next
  case True
  then obtain l where l: "socket_state_of p fd w = Inr (ListenerAt l)" "\<not> b" by blast
  obtain sw x where sw: "sys_accept_attempt task l (dw_sockets w) = (sw, x)" by (cases "sys_accept_attempt task l (dw_sockets w)")
  have inv1: "desc_invar k (w\<lparr>dw_sockets := sw\<rparr>, held)"
    by (rule desc_invar_sockets [OF inv]) (use in_flight_accept [of _ task l "dw_sockets w"] sw in simp)
  show ?thesis
  proof (cases "\<exists>conn. x = Some (Connection conn)")
    case False
    then have "w' = w\<lparr>dw_sockets := sw\<rparr>" using a l sw by (auto simp: accept_from_ring3_def split: option.splits accept_outcome.splits)
    then show ?thesis using inv1 by simp
  next
    case True
    then obtain conn where x: "x = Some (Connection conn)" by blast
    obtain w1 fd' where i: "insert_file p (SocketFile (StreamAt conn Server)) (w\<lparr>dw_sockets := sw\<rparr>) = (w1, fd')"
      by (cases "insert_file p (SocketFile (StreamAt conn Server)) (w\<lparr>dw_sockets := sw\<rparr>)")
    have "desc_invar k (w1, held)" by (rule insert_plain [OF inv1 _ i]) (use p in simp_all)
    moreover have "w' = w1 \<or> w' = w1\<lparr>dw_sockets := close_end conn Server (dw_sockets w1)\<rparr>"
      using a l sw x i by (auto simp: accept_from_ring3_def split: if_splits)
    ultimately show ?thesis using desc_invar_sockets [OF _ in_flight_close_end] by blast
  qed
qed

lemma desc_invar_shm:
  assumes "desc_invar k (w, held)" "shm_counted k' (open_files w) (dw_sockets w) mw" "shm_invar (mw, held')"
  shows "desc_invar k' (w\<lparr>dw_shm := mw\<rparr>, held')"
  using assms by (simp add: desc_invar_def counted_world_def open_files_def screen_counted_def)

lemma memfd_counted:
  assumes inv: "desc_invar k (w, held)" and p: "p < length (tables w)" and m: "memfd_create_from_ring3 p w = Some (w', r)"
  shows "desc_invar (Suc k) (w', held)"
proof -
  obtain mw x where mw: "shm_create (dw_shm w) = (mw, x)" by (cases "shm_create (dw_shm w)")
  have d: "counted_world k (open_files w) held w" using inv by (simp add: desc_invar_def)
  note d = counted_worldD [OF d]
  have mi: "shm_invar (mw, held)" by (rule shm_invar_create [OF d(4) mw])
  show ?thesis
  proof (cases x)
    case None
    then have "mw = dw_shm w" using mw by (auto simp: shm_create_def split: option.splits)
    then show ?thesis using m mw None inv counted_world_later by (auto simp: memfd_create_from_ring3_def desc_invar_def)
  next
    case (Some i)
    let ?w = "w\<lparr>dw_shm := mw\<rparr>"
    have "shm_counted (Suc k) (add_mset (ShmFile i) (open_files w)) (dw_sockets w) mw"
      by (rule shm_counted_create [OF d(3,4)]) (use mw Some in simp)
    then have c: "counted_world (Suc k) (add_mset (ShmFile i) (open_files w)) held ?w"
      using d mi by (simp add: counted_world_def screen_counted_def)
    have op: "open_files ?w = open_files w" by (simp add: open_files_def)
    obtain w1 fd where i: "insert_file p (ShmFile i) ?w = (w1, fd)" by (cases "insert_file p (ShmFile i) ?w")
    have "fd < 0 \<and> w1 = ?w \<or> 0 \<le> fd \<and> counted_world (Suc k) (open_files w1) held w1 \<and> (\<exists>t. w1 = set_table p t ?w)"
      by (rule insert_counted [OF _ i]) (use p c op in simp_all)
    then consider (new) "0 \<le> fd" "counted_world (Suc k) (open_files w1) held w1" "\<exists>t. w1 = set_table p t ?w" | (full) "fd < 0" "w1 = ?w"
      by blast
    then show ?thesis
    proof cases
      case new
      then have "w' = w1" using m mw Some i by (auto simp: memfd_create_from_ring3_def)
      then show ?thesis using new inv by (auto simp: desc_invar_def)
    next
      case neg: full
      from release_end_counted [OF c] obtain w2 where
        w2: "release_end (ShmFile i) ?w = Some w2" "counted_world (Suc k) (open_files w) held w2" "same_tables ?w w2" by blast
      have "w' = w2" using m mw Some i neg w2(1) by (auto simp: memfd_create_from_ring3_def)
      then show ?thesis using w2(2,3) inv same_tables_open [OF w2(3)] op by (auto simp: desc_invar_def same_tables_def)
    qed
  qed
qed

lemma shm_set_size_refs:
  assumes "shm_set_size i sz mw = Some (mw', r)"
  shows "shms mw' = shms mw \<or> (\<exists>s. shms mw' = (shms mw)[i := s] \<and> shm_refs s = shm_refs (shms mw ! i))"
  using assms by (auto simp: shm_set_size_def Let_def split: if_splits prod.splits option.splits)

lemma ftruncate_counted:
  assumes inv: "desc_invar k (w, held)" and m: "ftruncate_from_ring3 p fd sz w = Some (w', r)"
  shows "desc_invar k (w', held)"
proof (cases "shm_of p fd w")
  case (Inl e)
  then show ?thesis using inv m by (simp add: ftruncate_from_ring3_def)
next
  case (Inr i)
  have d: "counted_world k (open_files w) held w" using inv by (simp add: desc_invar_def)
  note d = counted_worldD [OF d]
  obtain mw x where mw: "shm_set_size i sz (dw_shm w) = Some (mw, x)" "shm_invar (mw, held)"
    using shm_invar_set_size [OF d(4)] by blast
  have w': "w' = w\<lparr>dw_shm := mw\<rparr>" using m Inr mw(1) by (auto simp: ftruncate_from_ring3_def)
  have "shm_refs (shms mw ! j) = shm_refs (shms (dw_shm w) ! j)" for j
    using shm_set_size_refs [OF mw(1)] by (cases "j = i"; cases "i < length (shms (dw_shm w))") (auto simp: list_update_beyond)
  then have "shm_counted k (open_files w) (dw_sockets w) mw" using d(3) unfolding shm_counted_def by presburger
  then show ?thesis using desc_invar_shm [OF inv _ mw(2)] w' by simp
qed

lemma desc_invar_later: "desc_invar k (w, held) \<Longrightarrow> desc_invar (Suc k) (w, held)"
  using counted_world_later by (auto simp: desc_invar_def)

lemma socket_files_held: "socket_state_of p fd w = Inr s \<Longrightarrow> \<exists>f. ft_get fd (tables w ! p) = Inr f \<and> file_socket_state f = Some s"
  by (auto simp: socket_state_of_def split: sum.splits option.splits)

lemma get_open:
  assumes "ft_get fd (tables w ! p) = Inr f" "p < length (tables w)"
  shows "f \<in># open_files w"
proof -
  have "fd < length (slots (tables w ! p))" "slots (tables w ! p) ! fd = Some f"
    using assms(1) by (auto simp: ft_get_def split: if_splits option.splits)
  then have "Some f \<in> set (slots (tables w ! p))" by (metis nth_mem)
  then have "f \<in># table_files (tables w ! p)" by (force simp: table_files_def)
  then show ?thesis using open_files_split(1) [OF assms(2)] by simp
qed

lemma shm_of_open: "shm_of p fd w = Inr i \<Longrightarrow> p < length (tables w) \<Longrightarrow> ShmFile i \<in># open_files w"
  by (auto simp: shm_of_def split: sum.splits vfile.splits intro: get_open)

lemma sendmsg_counted:
  assumes inv: "desc_invar k (w, held)" and p: "p < length (tables w)" and k: "k < 2 ^ 32 - 1"
    and s: "sendmsg_from_ring3 p fd cfd w = (w', r)"
  shows "desc_invar (Suc k) (w', held)"
proof (cases "\<exists>conn sd i. socket_state_of p fd w = Inr (StreamAt conn sd) \<and> shm_of p cfd w = Inr i")
  case False
  then have "w' = w" using s by (auto simp: sendmsg_from_ring3_def split: sum.splits socket_state.splits)
  then show ?thesis using desc_invar_later [OF inv] by simp
next
  case True
  then obtain conn sd i where st: "socket_state_of p fd w = Inr (StreamAt conn sd)" and i: "shm_of p cfd w = Inr i" by blast
  obtain sw mw sent where m: "sendmsg_fd conn sd i (dw_sockets w, dw_shm w) = ((sw, mw), sent)" by (metis prod.exhaust)
  have w': "w' = w\<lparr>dw_sockets := sw, dw_shm := mw\<rparr>" using s st i m by (simp add: sendmsg_from_ring3_def)
  have d: "counted_world k (open_files w) held w" using inv by (simp add: desc_invar_def)
  note d = counted_worldD [OF d]
  note sent = shm_counted_send [OF d(3,4) shm_of_open [OF i p] k m]
  show ?thesis using inv sent d unfolding w' by (simp add: desc_invar_def counted_world_def open_files_def screen_counted_def)
qed

lemma insert_shm_counted:
  assumes inv: "desc_invar k (w0, held)" "same_tables w0 w" and p: "p < length (tables w)"
    and c: "counted_world k' (add_mset (ShmFile i) (open_files w)) held w" and ins: "insert_file p (ShmFile i) w = (w1, r)"
  shows "r < 0 \<Longrightarrow> \<exists>m. shm_detach i (dw_shm w1) = Some m \<and> desc_invar k' (w1\<lparr>dw_shm := m\<rparr>, held)"
    "0 \<le> r \<Longrightarrow> desc_invar k' (w1, held)"
proof -
  note cases = insert_counted [OF p ins c]
  show "desc_invar k' (w1, held)" if "0 \<le> r" using cases that inv by (auto simp: desc_invar_def same_tables_def)
  show "\<exists>m. shm_detach i (dw_shm w1) = Some m \<and> desc_invar k' (w1\<lparr>dw_shm := m\<rparr>, held)" if "r < 0"
  proof -
    have w1: "w1 = w" using cases that by auto
    from release_end_counted [OF c] obtain w2 where
      w2: "release_end (ShmFile i) w = Some w2" "counted_world k' (open_files w) held w2" "same_tables w w2" by blast
    then obtain m where m: "shm_detach i (dw_shm w) = Some m" "w2 = w\<lparr>dw_shm := m\<rparr>" by auto
    have "desc_invar k' (w2, held)"
      using w2(2,3) inv same_tables_open [OF w2(3)] by (auto simp: desc_invar_def same_tables_def)
    then show ?thesis using m w1 by simp
  qed
qed

lemma note_received_invar: "desc_invar k (w, held) \<Longrightarrow> desc_invar k (w\<lparr>dw_shm := note_fd_received (dw_shm w)\<rparr>, held)"
proof -
  assume inv: "desc_invar k (w, held)"
  then have d: "counted_world k (open_files w) held w" by (simp add: desc_invar_def)
  note d = counted_worldD [OF d]
  have "shm_counted k (open_files w) (dw_sockets w) (note_fd_received (dw_shm w))"
    by (rule shm_counted_refs [OF d(3)]) (simp add: note_fd_received_def)
  moreover have "shm_invar (note_fd_received (dw_shm w), held)"
    by (rule shm_invar_lending [OF d(4)]) (use d(4) in \<open>auto simp: note_fd_received_def shm_invar_def\<close>)
  ultimately show ?thesis by (rule desc_invar_shm [OF inv])
qed

lemma in_flight_take_none:
  assumes "take_fd conn sd sw = (sw', None)"
  shows "in_flight i sw' \<le> in_flight i sw"
proof (cases "conn < length (connections sw) \<and> conn_in_use (connections sw ! conn)")
  case True
  let ?c = "connections sw ! conn"
  have "connections sw' = (connections sw)[conn := ?c\<lparr>pending_fd := (pending_fd ?c)(sd := None)\<rparr>]"
    using assms True by (auto simp: take_fd_def Let_def split: if_splits)
  then show ?thesis by (rule in_flight_fewer) (cases sd; simp add: conn_flight_def)
next
  case False
  then show ?thesis using assms by (auto simp: take_fd_def Let_def split: if_splits)
qed

lemma recvmsg_counted:
  assumes inv: "desc_invar k (w, held)" and p: "p < length (tables w)"
  shows "\<exists>w' r. recvmsg_from_ring3 p fd ce w = Some (w', r) \<and> desc_invar k (w', held)"
proof (cases "\<exists>conn sd. socket_state_of p fd w = Inr (StreamAt conn sd)")
  case False
  then show ?thesis using inv by (auto simp: recvmsg_from_ring3_def split: sum.splits socket_state.splits)
next
  case True
  then obtain conn sd where st: "socket_state_of p fd w = Inr (StreamAt conn sd)" by blast
  obtain sw x where t: "take_fd conn sd (dw_sockets w) = (sw, x)" by (cases "take_fd conn sd (dw_sockets w)")
  have d: "counted_world k (open_files w) held w" using inv by (simp add: desc_invar_def)
  note d = counted_worldD [OF d]
  let ?w = "w\<lparr>dw_sockets := sw\<rparr>"
  show ?thesis
  proof (cases x)
    case None
    have "in_flight i sw \<le> in_flight i (dw_sockets w)" for i using in_flight_take_none t None by simp
    then show ?thesis using st t None desc_invar_sockets [OF inv] by (simp add: recvmsg_from_ring3_def)
  next
    case (Some i)
    have "shm_counted k (add_mset (ShmFile i) (open_files w)) sw (dw_shm w)" using shm_counted_take [OF d(3)] t Some by simp
    then have c: "counted_world k (add_mset (ShmFile i) (open_files ?w)) held ?w"
      using d by (simp add: counted_world_def screen_counted_def open_files_def)
    obtain w1 r where ins: "insert_file p (ShmFile i) ?w = (w1, r)" by (cases "insert_file p (ShmFile i) ?w")
    have same: "same_tables w ?w" by (simp add: same_tables_def)
    have p': "p < length (tables ?w)" using p by simp
    note after = insert_shm_counted [OF inv same p' c ins]
    show ?thesis
    proof (cases "r < 0")
      case True
      then show ?thesis using after(1) st t Some ins by (auto simp: recvmsg_from_ring3_def)
    next
      case False
      then show ?thesis using after(2) note_received_invar st t Some ins by (auto simp: recvmsg_from_ring3_def)
    qed
  qed
qed

lemma open_screen_counted:
  assumes inv: "desc_invar k (w, held)" and p: "p < length (tables w)" and o: "open_screen_from_ring3 p fg surface w = (w', r)"
  shows "desc_invar k (w', held)"
proof (cases "fg \<and> surface \<and> \<not> graphics_active w")
  case False
  then have "w' = w" using o by (cases fg) (auto simp: open_screen_from_ring3_def enter_graphics_def EBUSY_def ENODEV_def split: if_splits)
  then show ?thesis using inv by simp
next
  case True
  let ?w = "w\<lparr>graphics_active := True, graphics_entered := graphics_entered w + 1\<rparr>"
  have e: "enter_graphics surface w = (?w, 0)" using True by (simp add: enter_graphics_def)
  have d: "counted_world k (open_files w) held w" using inv by (simp add: desc_invar_def)
  note d = counted_worldD [OF d]
  have op: "open_files ?w = open_files w" by (simp add: open_files_def)
  have c: "counted_world k (add_mset Screen (open_files ?w)) held ?w"
    using d True unfolding op by (simp add: counted_world_def screen_counted_def)
  obtain w2 r2 where ins: "insert_file p Screen ?w = (w2, r2)" by (cases "insert_file p Screen ?w")
  have "r2 < 0 \<and> w2 = ?w \<or> 0 \<le> r2 \<and> counted_world k (open_files w2) held w2 \<and> (\<exists>t. w2 = set_table p t ?w)"
    by (rule insert_counted [OF _ ins c]) (use p in simp)
  then consider (new) "0 \<le> r2" "counted_world k (open_files w2) held w2" "\<exists>t. w2 = set_table p t ?w" | (full) "r2 < 0" "w2 = ?w" by blast
  then show ?thesis
  proof cases
    case new
    then have "w' = w2" using o True e ins by (simp add: open_screen_from_ring3_def)
    then show ?thesis using new inv by (auto simp: desc_invar_def)
  next
    case full
    then have "w' = leave_graphics ?w" using o True e ins by (simp add: open_screen_from_ring3_def)
    then have "w' = w\<lparr>graphics_active := False, graphics_entered := graphics_entered w + 1, graphics_left := graphics_left w + 1\<rparr>"
      by (simp add: leave_graphics_def)
    then show ?thesis using inv True by (simp add: desc_invar_def counted_world_def screen_counted_def open_files_def)
  qed
qed

subsection \<open>Processes keep the counts\<close>

lemma parked_update:
  assumes "i < length ends"
  shows "parked f (ends[i := v]) + (case ends ! i of None \<Rightarrow> {#} | Some e \<Rightarrow> {#f e#}) =
    parked f ends + (case v of None \<Rightarrow> {#} | Some e \<Rightarrow> {#f e#})"
proof -
  have c: "parked f xs = mset (map the (filter (\<lambda>s. s \<noteq> None) (map (map_option f) xs)))" for xs :: "nat option list"
    by (induction xs) (auto simp: parked_def)
  have "(map (map_option f) ends) ! i = map_option f (ends ! i)" using assms by simp
  then show ?thesis
    using mset_present_update [of i "map (map_option f) ends" "map_option f v"] assms unfolding c map_update
    by (cases v; cases "ends ! i") auto
qed

lemma desc_invarD:
  assumes "desc_invar k (w, held)"
  shows "pipes_counted (open_files w) (pending_stdin w) (dw_pipes w)" "screen_counted (open_files w) w"
    "shm_counted k (open_files w) (dw_sockets w) (dw_shm w)" "shm_invar (dw_shm w, held)"
    "length (inherit_stdin w) = USER_TASK_SLOTS" "length (inherit_stdout w) = USER_TASK_SLOTS" "length (pending_stdin w) = USER_TASK_SLOTS"
  using assms by (auto simp: desc_invar_def counted_world_def)

text \<open>A move of pipe ends: the other descriptors and their objects stay as they are.\<close>

lemma desc_invar_pipes:
  assumes inv: "desc_invar k (w, held)" and c: "pipes_counted (open_files w') (pending_stdin w') (dw_pipes w')"
    and rest: "\<And>i. count (open_files w') (ShmFile i) = count (open_files w) (ShmFile i)" "count (open_files w') Screen = count (open_files w) Screen"
      "graphics_active w' = graphics_active w" "dw_sockets w' = dw_sockets w" "dw_shm w' = dw_shm w"
      "length (inherit_stdin w') = length (inherit_stdin w)" "length (inherit_stdout w') = length (inherit_stdout w)"
      "length (pending_stdin w') = length (pending_stdin w)"
  shows "desc_invar k (w', held)"
proof -
  note d = desc_invarD [OF inv]
  have "shm_counted k (open_files w') (dw_sockets w') (dw_shm w')" using d(3) rest(1) unfolding shm_counted_def rest(4,5) by simp
  moreover have "screen_counted (open_files w') w'" using d(2) rest(2,3) by (simp add: screen_counted_def)
  ultimately show ?thesis using c d rest by (simp add: desc_invar_def counted_world_def)
qed

lemma open_files_pipes [simp]:
  "open_files (w\<lparr>dw_pipes := pw\<rparr>) = open_files w" "open_files (w\<lparr>pending_stdin := ps\<rparr>) = open_files w"
  "open_files (w\<lparr>dw_pipes := pw, pending_stdin := ps\<rparr>) = open_files w"
  by (simp_all add: open_files_def)

lemma spawn_detached_counted:
  assumes inv: "desc_invar k (w, held)" and s: "slot < USER_TASK_SLOTS" "child < USER_TASK_SLOTS"
    and free: "started \<longrightarrow> inherit_stdout w ! child = None" and r: "spawn_detached_pipe slot child started w = (w', r)"
  shows "desc_invar k (w', held)"
proof -
  note d = desc_invarD [OF inv]
  obtain pw x where pw: "pipe_create True (dw_pipes w) = (pw, x)" by (cases "pipe_create True (dw_pipes w)")
  show ?thesis
  proof (cases x)
    case None
    then have "pipes pw = pipes (dw_pipes w)" using pw by (auto simp: pipe_create_def Let_def split: option.splits)
    then have "pipes_counted (open_files w) (pending_stdin w) pw" using d(1) by (simp add: pipes_counted_def)
    then show ?thesis using r pw None by (intro desc_invar_pipes [OF inv]) (auto simp: spawn_detached_pipe_def)
  next
    case (Some i)
    have sl: "slot < length (pending_stdin w)" using s(1) d(7) by simp
    note new = pipes_counted_create [OF d(1) pw [unfolded Some] sl]
    show ?thesis
    proof (cases started)
      case False
      then show ?thesis using r pw Some new(2) by (intro desc_invar_pipes [OF inv]) (auto simp: spawn_detached_pipe_def)
    next
      case True
      let ?w = "w\<lparr>dw_pipes := pw, inherit_stdout := (inherit_stdout w)[child := Some i], pending_stdin := (pending_stdin w)[slot := Some i]\<rparr>"
      have "parked PipeWrite ((inherit_stdout w)[child := Some i]) = add_mset (PipeWrite i) (parked PipeWrite (inherit_stdout w))"
        using parked_update [of child "inherit_stdout w" PipeWrite "Some i"] s(2) d(6) free True by simp
      then have op: "open_files ?w = add_mset (PipeWrite i) (open_files w)" by (simp add: open_files_def)
      have "w' = ?w" using r pw Some True by (simp add: spawn_detached_pipe_def)
      then show ?thesis using new(1) op by (intro desc_invar_pipes [OF inv]) auto
    qed
  qed
qed

lemma piped_stdin_begin_counted:
  assumes inv: "desc_invar k (w, held)" and s: "slot < USER_TASK_SLOTS" "inherit_stdin w ! slot = None"
    and r: "piped_stdin_begin slot w = (w', r)"
  shows "desc_invar k (w', held)"
proof (cases "pending_stdin w ! slot")
  case None
  then show ?thesis using inv r by (simp add: piped_stdin_begin_def)
next
  case (Some i)
  note d = desc_invarD [OF inv]
  have sl: "slot < length (pending_stdin w)" using s(1) d(7) by simp
  obtain pw where pw: "claim_reserved_reader i (dw_pipes w) = (pw, True)"
    "pipes_counted (add_mset (PipeRead i) (open_files w)) ((pending_stdin w)[slot := None]) pw"
    using pipes_counted_pending(1) [OF d(1) sl Some] by blast
  let ?w = "w\<lparr>pending_stdin := (pending_stdin w)[slot := None], dw_pipes := pw, inherit_stdin := (inherit_stdin w)[slot := Some i]\<rparr>"
  have "parked PipeRead ((inherit_stdin w)[slot := Some i]) = add_mset (PipeRead i) (parked PipeRead (inherit_stdin w))"
    using parked_update [of slot "inherit_stdin w" PipeRead "Some i"] s d(5) by simp
  then have op: "open_files ?w = add_mset (PipeRead i) (open_files w)" by (simp add: open_files_def)
  have "w' = ?w" using r pw(1) Some by (simp add: piped_stdin_begin_def)
  then show ?thesis using pw(2) op by (intro desc_invar_pipes [OF inv]) auto
qed

lemma parked_end_counted:
  assumes inv: "desc_invar k (w, held)" and s: "slot < USER_TASK_SLOTS"
  shows "desc_invar k (piped_stdin_end slot w, held)" "desc_invar k (detached_end slot w, held)" "desc_invar k (wait_child_begin slot w, held)"
proof -
  note d = desc_invarD [OF inv]
  show "desc_invar k (piped_stdin_end slot w, held)"
  proof (cases "inherit_stdin w ! slot")
    case None
    then show ?thesis using inv by (simp add: piped_stdin_end_def)
  next
    case (Some i)
    have e: "add_mset (PipeRead i) (parked PipeRead ((inherit_stdin w)[slot := None])) = parked PipeRead (inherit_stdin w)"
      using parked_update [of slot "inherit_stdin w" PipeRead None] s d(5) Some by simp
    have op: "open_files w = add_mset (PipeRead i) (open_files (piped_stdin_end slot w))"
      using Some by (simp add: open_files_def piped_stdin_end_def e [symmetric])
    show ?thesis by (rule desc_invar_pipes [OF inv]) (use d(1) op Some pipes_counted_close(1) in \<open>auto simp: piped_stdin_end_def\<close>)
  qed
  show "desc_invar k (detached_end slot w, held)"
  proof (cases "inherit_stdout w ! slot")
    case None
    then show ?thesis using inv by (simp add: detached_end_def)
  next
    case (Some i)
    have e: "add_mset (PipeWrite i) (parked PipeWrite ((inherit_stdout w)[slot := None])) = parked PipeWrite (inherit_stdout w)"
      using parked_update [of slot "inherit_stdout w" PipeWrite None] s d(6) Some by simp
    have op: "open_files w = add_mset (PipeWrite i) (open_files (detached_end slot w))"
      using Some by (simp add: open_files_def detached_end_def e [symmetric])
    show ?thesis by (rule desc_invar_pipes [OF inv]) (use d(1) op Some pipes_counted_close(2) in \<open>auto simp: detached_end_def\<close>)
  qed
  show "desc_invar k (wait_child_begin slot w, held)"
  proof (cases "pending_stdin w ! slot")
    case None
    then show ?thesis using inv by (simp add: wait_child_begin_def)
  next
    case (Some i)
    then show ?thesis using pipes_counted_pending(2) [OF d(1), of slot i] s d(7)
      by (intro desc_invar_pipes [OF inv]) (auto simp: wait_child_begin_def open_files_def)
  qed
qed

lemma pipes_counted_cong:
  assumes "pipes_counted M pend pw" "\<And>i. count M' (PipeRead i) = count M (PipeRead i)" "\<And>i. count M' (PipeWrite i) = count M (PipeWrite i)"
    "pipes pw' = pipes pw"
  shows "pipes_counted M' pend pw'"
  using assms(1) unfolding pipes_counted_def assms(2-) .

lemma new_table_files:
  "table_files (inherited PipeWrite STDOUT_FD out (inherited PipeRead STDIN_FD inp file_table_new)) =
     (case inp of None \<Rightarrow> {#Terminal False#} | Some i \<Rightarrow> {#PipeRead i#}) +
     (case out of None \<Rightarrow> {#Terminal False#} | Some i \<Rightarrow> {#PipeWrite i#}) + {#Terminal True#}"
  by (cases inp; cases out)
    (simp_all add: table_files_def inherited_def file_table_new_def ft_replace_def MAX_OPEN_FILES_def STDIN_FD_def STDOUT_FD_def
      STDERR_FD_def numeral_eq_Suc)

lemma new_process_counted:
  assumes inv: "desc_invar k (w, held)" and s: "slot < USER_TASK_SLOTS"
  shows "desc_invar k (new_process slot w, held)"
proof -
  note d = desc_invarD [OF inv]
  let ?in = "inherit_stdin w ! slot" and ?out = "inherit_stdout w ! slot"
  let ?tty = "\<lambda>end. case end of None \<Rightarrow> {#Terminal False#} | Some _ \<Rightarrow> {#}"
  let ?new = "table_files (inherited PipeWrite STDOUT_FD ?out (inherited PipeRead STDIN_FD ?in file_table_new))"
  have i: "parked PipeRead ((inherit_stdin w)[slot := None]) + (case ?in of None \<Rightarrow> {#} | Some e \<Rightarrow> {#PipeRead e#}) = parked PipeRead (inherit_stdin w)"
    using parked_update [of slot "inherit_stdin w" PipeRead None] s d(5) by simp
  have o: "parked PipeWrite ((inherit_stdout w)[slot := None]) + (case ?out of None \<Rightarrow> {#} | Some e \<Rightarrow> {#PipeWrite e#}) = parked PipeWrite (inherit_stdout w)"
    using parked_update [of slot "inherit_stdout w" PipeWrite None] s d(6) by simp
  have n: "?new = (case ?in of None \<Rightarrow> {#} | Some e \<Rightarrow> {#PipeRead e#}) + (case ?out of None \<Rightarrow> {#} | Some e \<Rightarrow> {#PipeWrite e#}) +
      (?tty ?in + ?tty ?out + {#Terminal True#})"
    unfolding new_table_files by (cases ?in; cases ?out) simp_all
  have "open_files (new_process slot w) = sum_list (map table_files (tables w)) + ?new +
      parked PipeRead ((inherit_stdin w)[slot := None]) + parked PipeWrite ((inherit_stdout w)[slot := None])"
    by (simp add: open_files_def new_process_def)
  also have "\<dots> = open_files w + (?tty ?in + ?tty ?out + {#Terminal True#})"
    unfolding n open_files_def i [symmetric] o [symmetric] by (simp add: ac_simps)
  finally have op: "open_files (new_process slot w) = open_files w + (?tty ?in + ?tty ?out + {#Terminal True#})" .
  have c: "count (open_files (new_process slot w)) f = count (open_files w) f" if "\<And>b. f \<noteq> Terminal b" for f
    unfolding op using that by (cases ?in; cases ?out) auto
  show ?thesis
    by (rule desc_invar_pipes [OF inv]) (use c pipes_counted_cong [OF d(1)] in \<open>auto simp: new_process_def\<close>)
qed

lemma pipe_traffic_shape:
  assumes "list_all pipe_slot_ok (pipes w)" "w' = fst (read_from_pipe task i n w) \<or> w' = fst (write_to_pipe task i data w)"
  shows "pipes w' = pipes w \<or> i < length (pipes w) \<and> pipe_in_use (pipes w ! i) \<and> (\<exists>r. pipes w' = (pipes w)[i := (pipes w ! i)\<lparr>pipe_ring := r\<rparr>])"
proof (cases "i < length (pipes w)")
  case False
  then show ?thesis using assms(2) by (auto simp: read_from_pipe_def pipe_read_into_def write_to_pipe_def pipe_write_from_def)
next
  case True
  then have ok: "pipe_slot_ok (pipes w ! i)" using assms(1) by (simp add: list_all_length)
  have use: "pipe_in_use (pipes w ! i)" if "\<not> ring_is_empty (pipe_ring (pipes w ! i)) \<or> \<not> (readers (pipes w ! i) = 0 \<and> \<not> reserved_reader (pipes w ! i))"
    using that ok by (auto simp: pipe_slot_ok_def pipe_empty_def ring_is_empty_def ring_empty_def)
  have r: "pipes (fst (pipe_read_into i m w)) = pipes w \<or> (\<exists>r. pipes (fst (pipe_read_into i m w)) = (pipes w)[i := (pipes w ! i)\<lparr>pipe_ring := r\<rparr>]) \<and> pipe_in_use (pipes w ! i)" for m
    using True use by (auto simp: pipe_read_into_def Let_def split: prod.splits)
  have p: "pipes (fst (pipe_write_from i src w)) = pipes w \<or> (\<exists>r. pipes (fst (pipe_write_from i src w)) = (pipes w)[i := (pipes w ! i)\<lparr>pipe_ring := r\<rparr>]) \<and> pipe_in_use (pipes w ! i)" for src
    using True use by (auto simp: pipe_write_from_def Let_def split: prod.splits)
  have "pipes (fst (read_from_pipe task i n w)) = pipes w \<or> pipes (fst (read_from_pipe task i n w)) = pipes (fst (pipe_read_into i (min n PIPE_RING) w))"
    by (cases "pipe_read_into i (min n PIPE_RING) w") (auto simp: read_from_pipe_def split: pipe_read_outcome.splits)
  moreover have "pipes (fst (write_to_pipe task i data w)) = pipes w \<or> pipes (fst (write_to_pipe task i data w)) = pipes (fst (pipe_write_from i (take PIPE_RING data) w))"
    by (cases "pipe_write_from i (take PIPE_RING data) w") (auto simp: write_to_pipe_def split: pipe_write_outcome.splits)
  ultimately show ?thesis using assms(2) r p True by metis
qed

lemma pipe_traffic_counted:
  assumes inv: "desc_invar k (w, held)" and pw: "pw = fst (read_from_pipe task i n (dw_pipes w)) \<or> pw = fst (write_to_pipe task i data (dw_pipes w))"
  shows "desc_invar k (w\<lparr>dw_pipes := pw\<rparr>, held)"
proof -
  note d = desc_invarD [OF inv]
  have ok: "list_all pipe_slot_ok (pipes (dw_pipes w))" using d(1) by (simp add: pipes_counted_def)
  from pipe_traffic_shape [OF ok pw] have "pipes_counted (open_files w) (pending_stdin w) pw"
  proof (elim disjE conjE exE)
    assume "pipes pw = pipes (dw_pipes w)"
    then show ?thesis using d(1) by (simp add: pipes_counted_def)
  next
    fix r
    assume u: "i < length (pipes (dw_pipes w))" "pipe_in_use (pipes (dw_pipes w) ! i)"
      and pw: "pipes pw = (pipes (dw_pipes w))[i := (pipes (dw_pipes w) ! i)\<lparr>pipe_ring := r\<rparr>]"
    have im: "i < MAX_PIPES" using u(1) d(1) by (simp add: pipes_counted_def)
    note at = pipes_counted_at [OF d(1) im]
    show ?thesis by (rule pipes_counted_update [OF d(1) im pw]) (use at u(2) in \<open>auto simp: pipe_slot_ok_def\<close>)
  qed
  then show ?thesis by (intro desc_invar_pipes [OF inv]) auto
qed

lemma update_regular_counted:
  assumes inv: "desc_invar k (w, held)" and p: "p < length (tables w)" and g: "g = advance n \<or> g = seek_to n"
  shows "desc_invar k (set_table p (ft_update fd g (tables w ! p)) w, held)"
proof -
  let ?t = "tables w ! p"
  have "count (table_files (ft_update fd g ?t)) f = count (table_files ?t) f" if "\<And>a b c. f \<noteq> Regular a b c" for f
  proof (cases "ft_get fd ?t")
    case (Inl e)
    then show ?thesis by (simp add: ft_update_def)
  next
    case (Inr h)
    then have h: "fd < length (slots ?t)" "slots ?t ! fd = Some h" by (auto simp: ft_get_def split: if_splits option.splits)
    have "add_mset h (table_files (ft_update fd g ?t)) = add_mset (g h) (table_files ?t)"
      using table_files_update [OF h(1), of "Some (g h)"] h(2) Inr by (simp add: ft_update_def)
    then have "count (add_mset h (table_files (ft_update fd g ?t))) f = count (add_mset (g h) (table_files ?t)) f" by simp
    moreover have "(g h = f) = (h = f)" using g that by (cases h; cases f) auto
    ultimately show ?thesis by (auto split: if_splits)
  qed
  then have c: "count (open_files (set_table p (ft_update fd g ?t) w)) f = count (open_files w) f" if "\<And>a b c. f \<noteq> Regular a b c" for f
    using that unfolding open_files_split(2) [OF p] open_files_split(1) [OF p] by simp
  show ?thesis by (rule desc_invar_pipes [OF inv]) (use c pipes_counted_cong [OF desc_invarD(1) [OF inv]] in auto)
qed

text \<open>What the rest of the kernel does with the frame allocator.\<close>

lemma desc_invar_environment:
  assumes inv: "desc_invar k (w, held)" and s: "shm_step (dw_shm w, held) (mw, held')" and same: "shms mw = shms (dw_shm w)"
  shows "desc_invar k (w\<lparr>dw_shm := mw\<rparr>, held')"
proof -
  note d = desc_invarD [OF inv]
  show ?thesis by (rule desc_invar_shm [OF inv shm_counted_refs [OF d(3) same] shm_invar_step [OF s d(4)]])
qed

subsection \<open>Runs of the system\<close>

text \<open>One step: a call of a process, a moment in the life of one, traffic on the channels, or what the rest
  of the kernel does with the frame allocator. The premises say only what the kernel has by construction:
  the calling process exists, its slot is one of the task slots, an end is parked on a slot only when the
  slot's previous one was consumed (\<open>spawn\<close> nests inside one call, a detached process starts only on a
  finished slot).\<close>

inductive desc_step :: "desc_world \<times> phys_addr set \<Rightarrow> desc_world \<times> phys_addr set \<Rightarrow> bool" where
  opened: "p < length (tables w) \<Longrightarrow> desc_step (w, held) (fst (insert_file p (Regular inode 0 writable) w), held)"
| moved: "p < length (tables w) \<Longrightarrow> g = advance n \<or> g = seek_to n \<Longrightarrow>
    desc_step (w, held) (set_table p (ft_update fd g (tables w ! p)) w, held)"
| closed: "p < length (tables w) \<Longrightarrow> sys_close p fd w = Some (w', r) \<Longrightarrow> desc_step (w, held) (w', held)"
| socket: "p < length (tables w) \<Longrightarrow> desc_step (w, held) (fst (socket_from_ring3 p domain kind proto w), held)"
| bound: "p < length (tables w) \<Longrightarrow> bind_from_ring3 p fd raw w = Some (w', r) \<Longrightarrow> desc_step (w, held) (w', held)"
| listened: "desc_step (w, held) (fst (listen_from_ring3 p fd w), held)"
| accepted: "p < length (tables w) \<Longrightarrow> desc_step (w, held) (fst (accept_from_ring3 task p fd wants w), held)"
| connected: "p < length (tables w) \<Longrightarrow> connect_from_ring3 p fd raw w = Some (w', r) \<Longrightarrow> desc_step (w, held) (w', held)"
| memfd: "p < length (tables w) \<Longrightarrow> memfd_create_from_ring3 p w = Some (w', r) \<Longrightarrow> desc_step (w, held) (w', held)"
| truncated: "ftruncate_from_ring3 p fd sz w = Some (w', r) \<Longrightarrow> desc_step (w, held) (w', held)"
| sent: "p < length (tables w) \<Longrightarrow> desc_step (w, held) (fst (sendmsg_from_ring3 p fd cfd w), held)"
| received: "p < length (tables w) \<Longrightarrow> recvmsg_from_ring3 p fd e w = Some (w', x) \<Longrightarrow> desc_step (w, held) (w', held)"
| input: "p < length (tables w) \<Longrightarrow> desc_step (w, held) (fst (open_input_from_ring3 p fg w), held)"
| screen: "p < length (tables w) \<Longrightarrow> desc_step (w, held) (fst (open_screen_from_ring3 p fg surface w), held)"
| detached_start: "slot < USER_TASK_SLOTS \<Longrightarrow> child < USER_TASK_SLOTS \<Longrightarrow> (started \<longrightarrow> inherit_stdout w ! child = None) \<Longrightarrow>
    desc_step (w, held) (fst (spawn_detached_pipe slot child started w), held)"
| piped_begin: "slot < USER_TASK_SLOTS \<Longrightarrow> inherit_stdin w ! slot = None \<Longrightarrow> desc_step (w, held) (fst (piped_stdin_begin slot w), held)"
| piped_end: "slot < USER_TASK_SLOTS \<Longrightarrow> desc_step (w, held) (piped_stdin_end slot w, held)"
| detached_over: "slot < USER_TASK_SLOTS \<Longrightarrow> desc_step (w, held) (detached_end slot w, held)"
| waited: "slot < USER_TASK_SLOTS \<Longrightarrow> desc_step (w, held) (wait_child_begin slot w, held)"
| started: "slot < USER_TASK_SLOTS \<Longrightarrow> desc_step (w, held) (new_process slot w, held)"
| ended: "p < length (tables w) \<Longrightarrow> end_process p w = Some w' \<Longrightarrow> desc_step (w, held) (w', held)"
| pipe_read: "desc_step (w, held) (w\<lparr>dw_pipes := fst (read_from_pipe task i n (dw_pipes w))\<rparr>, held)"
| pipe_write: "desc_step (w, held) (w\<lparr>dw_pipes := fst (write_to_pipe task i data (dw_pipes w))\<rparr>, held)"
| socket_read: "desc_step (w, held) (w\<lparr>dw_sockets := fst (read_from_socket task c s n (dw_sockets w))\<rparr>, held)"
| socket_write: "desc_step (w, held) (w\<lparr>dw_sockets := fst (write_to_socket task c s data (dw_sockets w))\<rparr>, held)"
| allocator: "shm_step (dw_shm w, held) (mw, held') \<Longrightarrow> shms mw = shms (dw_shm w) \<Longrightarrow> desc_step (w, held) (w\<lparr>dw_shm := mw\<rparr>, held')"

lemma desc_invar_plain:
  assumes "desc_invar k (w, held)" "p < length (tables w)"
  shows "desc_invar k (fst (insert_file p (Regular inode off writable) w), held)"
    "desc_invar k (fst (socket_from_ring3 p domain kind proto w), held)" "desc_invar k (fst (open_input_from_ring3 p fg w), held)"
proof -
  have plain: "desc_invar k (fst (insert_file p f w), held)"
    if "\<And>i. f \<noteq> PipeRead i" "\<And>i. f \<noteq> PipeWrite i" "\<And>i. f \<noteq> ShmFile i" "f \<noteq> Screen" for f
    by (rule insert_plain [OF assms prod.collapse [symmetric] that])
  then show "desc_invar k (fst (insert_file p (Regular inode off writable) w), held)" by simp
  show "desc_invar k (fst (socket_from_ring3 p domain kind proto w), held)" using plain assms(1) by (simp add: socket_from_ring3_def)
  show "desc_invar k (fst (open_input_from_ring3 p fg w), held)" using plain assms(1) by (simp add: open_input_from_ring3_def)
qed

lemma desc_invar_traffic:
  assumes "desc_invar k (w, held)"
  shows "desc_invar k (w\<lparr>dw_sockets := fst (read_from_socket task c s n (dw_sockets w))\<rparr>, held)"
    "desc_invar k (w\<lparr>dw_sockets := fst (write_to_socket task c s data (dw_sockets w))\<rparr>, held)"
  by (rule desc_invar_sockets [OF assms in_flight_traffic(1)], rule desc_invar_sockets [OF assms in_flight_traffic(2)])

lemmas desc_invar_calls =
  desc_invar_plain update_regular_counted close_counted bind_counted listen_counted [OF _ prod.collapse [symmetric]]
  accept_counted [OF _ _ prod.collapse [symmetric]] connect_counted ftruncate_counted
  open_screen_counted [OF _ _ prod.collapse [symmetric]] spawn_detached_counted [OF _ _ _ _ prod.collapse [symmetric]]
  piped_stdin_begin_counted [OF _ _ _ prod.collapse [symmetric]] parked_end_counted new_process_counted
  desc_invar_traffic desc_invar_environment

lemma desc_step_invar:
  assumes "desc_step c d" "desc_invar k c" "k < 2 ^ 32 - 1"
  shows "desc_invar (Suc k) d"
  using assms
proof (induction rule: desc_step.induct)
  case (memfd p w w' r held)
  then show ?case using memfd_counted by blast
next
  case (sent p w held fd cfd)
  then show ?case by (intro sendmsg_counted [OF _ _ _ prod.collapse [symmetric]])
next
  case (received p w fd e w' x held)
  from recvmsg_counted [OF received.prems(1) received.hyps(1), of fd e] received.hyps(2) have "desc_invar k (w', held)" by auto
  then show ?case by (rule desc_invar_later)
next
  case (ended p w w' held)
  from end_process_counted [OF ended.prems(1) ended.hyps(1)] ended.hyps(2) have "desc_invar k (w', held)" by auto
  then show ?case by (rule desc_invar_later)
next
  case (pipe_read w held task i n)
  then show ?case by (intro desc_invar_later pipe_traffic_counted) auto
next
  case (pipe_write w held task i data)
  then show ?case by (intro desc_invar_later pipe_traffic_counted) auto
qed (blast intro: desc_invar_later desc_invar_calls)+

lemma desc_run_invar:
  "(desc_step ^^ n) c d \<Longrightarrow> desc_invar 0 c \<Longrightarrow> n < 2 ^ 32 \<Longrightarrow> desc_invar n d"
proof (induction n arbitrary: d)
  case (Suc n)
  then obtain e where e: "(desc_step ^^ n) c e" "desc_step e d" by auto
  then show ?case using desc_step_invar [OF e(2)] Suc by simp
qed simp

text \<open>The state after boot: no process, nothing open anywhere.\<close>

definition desc_booted :: "desc_world \<Rightarrow> bool" where
  "desc_booted w \<longleftrightarrow> tables w = [] \<and> pipes (dw_pipes w) = replicate MAX_PIPES pipe_empty \<and>
     connections (dw_sockets w) = replicate MAX_CONNECTIONS connection_empty \<and> shms (dw_shm w) = replicate MAX_SHM shm_empty \<and>
     \<not> graphics_active w \<and> inherit_stdin w = replicate USER_TASK_SLOTS None \<and> inherit_stdout w = replicate USER_TASK_SLOTS None \<and>
     pending_stdin w = replicate USER_TASK_SLOTS None"

lemma desc_booted_invar:
  assumes "desc_booted w" "shm_invar (dw_shm w, held)"
  shows "desc_invar 0 (w, held)"
proof -
  note b = assms(1) [unfolded desc_booted_def]
  have op: "open_files w = {#}" using b by (simp add: open_files_def parked_def USER_TASK_SLOTS_def)
  have "in_flight i (dw_sockets w) = 0" for i
    unfolding in_flight_sum using b by (simp add: MAX_CONNECTIONS_def)
  then have "shm_counted 0 (open_files w) (dw_sockets w) (dw_shm w)" using b by (simp add: shm_counted_def op shm_empty_def)
  moreover have "pipes_counted (open_files w) (pending_stdin w) (dw_pipes w)"
    using b by (auto simp: pipes_counted_def op list_all_length pipe_slot_ok_def count_list_0_iff)
  ultimately show ?thesis using b assms(2) by (simp add: desc_invar_def counted_world_def screen_counted_def op)
qed

subsection \<open>Properties\<close>

fun descriptor_live :: "vfile \<Rightarrow> desc_world \<Rightarrow> phys_addr set \<Rightarrow> bool" where
  "descriptor_live (PipeRead i) w held \<longleftrightarrow>
     i < MAX_PIPES \<and> pipe_in_use (pipes (dw_pipes w) ! i) \<and> readers (pipes (dw_pipes w) ! i) = 1"
| "descriptor_live (PipeWrite i) w held \<longleftrightarrow>
     i < MAX_PIPES \<and> pipe_in_use (pipes (dw_pipes w) ! i) \<and> 0 < writers (pipes (dw_pipes w) ! i)"
| "descriptor_live (ShmFile i) w held \<longleftrightarrow> i < MAX_SHM \<and> shm_in_use (shms (dw_shm w) ! i) \<and>
     frame_number ` set (shared_pages (shms (dw_shm w) ! i)) \<inter> free_frames (lend_storage (shm_lending (dw_shm w))) = {} \<and>
     frame_number ` set (shared_pages (shms (dw_shm w) ! i)) \<inter> frame_number ` held = {}"
| "descriptor_live Screen w held \<longleftrightarrow> graphics_active w"
| "descriptor_live _ w held \<longleftrightarrow> True"

text \<open>C25: whatever the processes do after boot, in fewer than 2^32 steps, an open descriptor stands for something
  that is there: the end of a pipe in use, which has a reader, respectively a writer; a shared memory in
  use, none of whose frames is free or held by another part of the kernel; the screen while graphics
  mode is on. Closing it and the end of its process never panic.\<close>

theorem open_descriptors_never_dangle:
  assumes "desc_booted w0" "shm_invar (dw_shm w0, held0)" "(desc_step ^^ n) (w0, held0) (w, held)" "n < 2 ^ 32"
    "p < length (tables w)" "ft_get fd (tables w ! p) = Inr f"
  shows "descriptor_live f w held \<and> sys_close p fd w \<noteq> None \<and> end_process p w \<noteq> None"
proof -
  have inv: "desc_invar n (w, held)" by (rule desc_run_invar [OF assms(3) desc_booted_invar [OF assms(1,2)] assms(4)])
  note d = desc_invarD [OF inv] and f = get_open [OF assms(6,5)]
  have pages: "set (shared_pages (shms (dw_shm w) ! i)) \<subseteq> set (shared_list (dw_shm w))" if "i < MAX_SHM" for i
  proof -
    have "shms (dw_shm w) ! i \<in> set (shms (dw_shm w))" using that d(4) by (simp add: shm_invar_def)
    then show ?thesis by (auto simp: shared_list_def)
  qed
  have pool: "frame_number ` set (shared_list (dw_shm w)) \<inter> free_frames (lend_storage (shm_lending (dw_shm w))) = {}"
    "frame_number ` set (shared_list (dw_shm w)) \<inter> frame_number ` held = {}"
    using d(4) by (auto simp: shm_invar_def pool_ok_def)
  have live: "descriptor_live f w held"
  proof (cases f)
    case (PipeRead i)
    with f have m: "0 < count (open_files w) (PipeRead i)" by simp
    have i: "i < MAX_PIPES" by (rule pipes_counted_in_range(1) [OF d(1)]) (use f PipeRead in simp)
    note at = pipes_counted_at [OF d(1) i]
    from m at(1) pipe_slot_okD(1) [OF at(4)] have "readers (pipes (dw_pipes w) ! i) = 1" by linarith
    then show ?thesis using PipeRead i pipe_slot_okD(4) [OF at(4)] by simp
  next
    case (PipeWrite i)
    with f have m: "0 < count (open_files w) (PipeWrite i)" by simp
    have i: "i < MAX_PIPES" by (rule pipes_counted_in_range(2) [OF d(1)]) (use f PipeWrite in simp)
    note at = pipes_counted_at [OF d(1) i]
    show ?thesis using PipeWrite m i at(2) pipe_slot_okD(5) [OF at(4)] by auto
  next
    case (ShmFile i)
    have i: "i < MAX_SHM" "0 < shm_refs (shms (dw_shm w) ! i)" using shm_counted_mem [OF d(3), of i] f ShmFile by auto
    show ?thesis using ShmFile i(1) shm_in_use_refs [OF d(4) i] pages [OF i(1)] pool by auto
  next
    case Screen
    with f have "0 < count (open_files w) Screen" by (simp only: count_greater_zero_iff)
    then have "graphics_active w" using d(2) unfolding screen_counted_def by (metis less_irrefl)
    then show ?thesis using Screen by simp
  qed simp_all
  have "sys_close p fd w \<noteq> None"
  proof -
    obtain t where t: "ft_remove fd (tables w ! p) = (t, Inr f)" using assms(6) by (auto simp: ft_remove_def)
    have "counted_world n (add_mset f (open_files (set_table p t w))) held (set_table p t w)"
      using inv table_files_remove [OF t] open_files_split(1,2) [OF assms(5)] by (simp add: desc_invar_def counted_set_table)
    from release_end_counted [OF this] show ?thesis using t by (auto simp: sys_close_def)
  qed
  moreover have "end_process p w \<noteq> None" using end_process_counted [OF inv assms(5)] by auto
  ultimately show ?thesis using live by simp
qed

text \<open>C26: in every state after boot and fewer than 2^32 steps the counts in a pipe are the numbers of its ends that are open in some
  process or parked for one to come, at most one of them a read end and never together with a reserved
  one; the slot is in use exactly while one of these exists; graphics mode is on exactly while one
  descriptor of the screen is open, and there is never a second.\<close>

theorem pipe_ends_are_counted:
  assumes "desc_booted w0" "shm_invar (dw_shm w0, held0)" "(desc_step ^^ n) (w0, held0) (w, held)" "n < 2 ^ 32" "i < MAX_PIPES"
  shows "readers (pipes (dw_pipes w) ! i) = count (open_files w) (PipeRead i) \<and>
    writers (pipes (dw_pipes w) ! i) = count (open_files w) (PipeWrite i) \<and>
    count (open_files w) (PipeRead i) + count_list (pending_stdin w) (Some i) \<le> 1 \<and>
    (pipe_in_use (pipes (dw_pipes w) ! i) \<longleftrightarrow>
       PipeRead i \<in># open_files w \<or> PipeWrite i \<in># open_files w \<or> Some i \<in> set (pending_stdin w)) \<and>
    count (open_files w) Screen = (if graphics_active w then 1 else 0)"
proof -
  have inv: "desc_invar n (w, held)" by (rule desc_run_invar [OF assms(3) desc_booted_invar [OF assms(1,2)] assms(4)])
  note d = desc_invarD [OF inv]
  note at = pipes_counted_at [OF d(1) assms(5)]
  have pend: "Some i \<in> set (pending_stdin w) \<longleftrightarrow> reserved_reader (pipes (dw_pipes w) ! i)"
    using at(3) by (cases "Some i \<in> set (pending_stdin w)") (auto simp: count_list_0_iff split: if_splits)
  have use: "pipe_in_use (pipes (dw_pipes w) ! i) \<longleftrightarrow> 0 < readers (pipes (dw_pipes w) ! i) \<or> 0 < writers (pipes (dw_pipes w) ! i) \<or>
      reserved_reader (pipes (dw_pipes w) ! i)"
    using at(4) by (simp add: pipe_slot_ok_def)
  have one: "readers (pipes (dw_pipes w) ! i) + count_list (pending_stdin w) (Some i) \<le> 1"
    using at(3) pipe_slot_okD(1,2) [OF at(4)] by simp
  show ?thesis
    using one use pend d(2) unfolding at(1,2) screen_counted_def count_greater_zero_iff by blast
qed

definition sample_desc_world :: desc_world where
  "sample_desc_world = \<lparr>tables = [], dw_pipes = pipe_world_init, dw_sockets = socket_world_init, dw_shm = sample_shm_world,
     graphics_active = False, graphics_entered = 0, graphics_left = 0, inherit_stdin = [None, None], inherit_stdout = [None, None],
     pending_stdin = [None, None]\<rparr>"

lemma sample_desc_booted: "desc_booted sample_desc_world" "dw_shm sample_desc_world = sample_shm_world"
  by (simp_all add: desc_booted_def sample_desc_world_def pipe_world_init_def socket_world_init_def sample_shm_world_def
      MAX_PIPES_def MAX_CONNECTIONS_def MAX_SHM_def USER_TASK_SLOTS_def numeral_2_eq_2)

lemma sample_process: "length (tables (new_process 0 sample_desc_world)) = 1"
  by (simp add: new_process_def sample_desc_world_def)

theorem open_descriptors_never_dangle_witness:
  "case memfd_create_from_ring3 0 (new_process 0 sample_desc_world) of
     None \<Rightarrow> False
   | Some (w, r) \<Rightarrow> r = 3 \<and> ft_get 3 (tables w ! 0) = Inr (ShmFile 0) \<and> shm_in_use (shms (dw_shm w) ! 0) \<and> sys_close 0 3 w \<noteq> None"
proof -
  let ?W = "new_process 0 sample_desc_world"
  let ?t = "file_table_new\<lparr>slots := (slots file_table_new)[3 := Some (ShmFile 0)], opened := 1\<rparr>"
  have W: "tables ?W = [file_table_new]" "dw_shm ?W = sample_shm_world"
    by (simp_all add: new_process_def sample_desc_world_def inherited_def)
  obtain m where m: "shm_create sample_shm_world = (m, Some 0)"
    by (simp add: shm_create_def sample_shm_world_def shm_empty_def)
  have "slots file_table_new = Some (Terminal False) # Some (Terminal False) # Some (Terminal True) # None # replicate 12 None"
    by (simp add: file_table_new_def MAX_OPEN_FILES_def STDIN_FD_def STDOUT_FD_def STDERR_FD_def numeral_eq_Suc)
  then have "find_index (\<lambda>slot. slot = None) (slots file_table_new) = Some 3" by simp
  then have ins: "ft_insert (ShmFile 0) file_table_new = (?t, Inr 3)" by (simp add: ft_insert_def file_table_new_def)
  from ins have "insert_file 0 (ShmFile 0) (?W\<lparr>dw_shm := m\<rparr>) = (set_table 0 ?t (?W\<lparr>dw_shm := m\<rparr>), 3)"
    by (simp add: insert_file_def W)
  then have "memfd_create_from_ring3 0 ?W = Some (set_table 0 ?t (?W\<lparr>dw_shm := m\<rparr>), 3)"
    using m by (simp add: memfd_create_from_ring3_def W)
  moreover have "ft_get 3 ?t = Inr (ShmFile 0)" by (simp add: ft_get_def file_table_new_def MAX_OPEN_FILES_def)
  ultimately have "\<exists>w. memfd_create_from_ring3 0 ?W = Some (w, 3) \<and> ft_get 3 (tables w ! 0) = Inr (ShmFile 0) \<and> 0 < length (tables w)"
    by (simp add: W)
  then obtain w where w: "memfd_create_from_ring3 0 (new_process 0 sample_desc_world) = Some (w, 3)"
      "ft_get 3 (tables w ! 0) = Inr (ShmFile 0)" "0 < length (tables w)" by blast
  have "desc_step (sample_desc_world, {}) (new_process 0 sample_desc_world, {})"
    by (rule desc_step.started) (simp add: USER_TASK_SLOTS_def)
  moreover have "desc_step (new_process 0 sample_desc_world, {}) (w, {})"
    by (rule desc_step.memfd [OF _ w(1)]) (simp add: sample_process)
  ultimately have run: "(desc_step ^^ 2) (sample_desc_world, {}) (w, {})" by (auto simp: numeral_2_eq_2)
  from open_descriptors_never_dangle [OF sample_desc_booted(1) _ run _ w(3,2)] sample_shm_invar
  show ?thesis using w by (simp add: sample_desc_booted(2))
qed

theorem pipe_ends_are_counted_witness:
  "case spawn_detached_pipe 0 1 True (new_process 0 sample_desc_world) of
     (w, r) \<Rightarrow> r = 0 \<and> count (open_files w) (PipeWrite 0) = 1 \<and> writers (pipes (dw_pipes w) ! 0) = 1 \<and> pipe_in_use (pipes (dw_pipes w) ! 0)"
proof -
  let ?w1 = "new_process 0 sample_desc_world"
  obtain w r where w: "spawn_detached_pipe 0 1 True ?w1 = (w, r)" by (cases "spawn_detached_pipe 0 1 True ?w1")
  have e: "r = 0 \<and> writers (pipes (dw_pipes w) ! 0) = 1"
    using w by (auto simp: spawn_detached_pipe_def new_process_def sample_desc_world_def pipe_world_init_def pipe_create_def
        pipe_empty_def Let_def)
  have "desc_step (sample_desc_world, {}) (?w1, {})"
    by (rule desc_step.started) (simp add: USER_TASK_SLOTS_def)
  moreover have "desc_step (?w1, {}) (fst (spawn_detached_pipe 0 1 True ?w1), {})"
    by (rule desc_step.detached_start) (simp_all add: USER_TASK_SLOTS_def new_process_def sample_desc_world_def)
  ultimately have run: "(desc_step ^^ 2) (sample_desc_world, {}) (w, {})" using w by (auto simp: numeral_2_eq_2)
  have m: "0 < MAX_PIPES" by (simp add: MAX_PIPES_def)
  have s: "shm_invar (dw_shm sample_desc_world, {})" using sample_shm_invar by (simp add: sample_desc_booted(2))
  have "(2 :: nat) < 2 ^ 32" by simp
  note c = pipe_ends_are_counted [OF sample_desc_booted(1) s run this m]
  have "count (open_files w) (PipeWrite 0) = 1" using c e by argo
  moreover from this have "PipeWrite 0 \<in># open_files w" by (simp add: count_greater_zero_iff [symmetric])
  ultimately show ?thesis unfolding w prod.case using c e by blast
qed

end
