(* ===== verification/Address_Space.thy ===== *)
theory Address_Space
  imports Page_Map
begin

unbundle bit_operations_syntax

text \<open>
  The address spaces of processes (\<open>kernel/src/arch/x86_64/paging/address_space.rs\<close>): mapping a user's page, making a
  space from the kernel's half of the tables, and collecting its frames when it goes. \<open>space_step\<close> puts the calls in
  any order; its invariant says which frame is held by which space and where.
\<close>

subsection \<open>Mapping a page of a process\<close>

lemma put_frame_facts:
  assumes "fa_invar DEFAULT_CAPACITY (pg_frames w)" "frame_number f \<notin> free_frames (pg_frames w)"
  obtains w' where "put_frame f w = Some w'" "pg_mem w' = pg_mem w" "fa_invar DEFAULT_CAPACITY (pg_frames w')"
    "free_frames (pg_frames w') \<subseteq> insert (frame_number f) (free_frames (pg_frames w))"
proof (cases "deallocate_frame DEFAULT_CAPACITY (pg_frames w) f")
  case (Ok fa)
  then have "put_frame f w = Some (w\<lparr>pg_frames := fa\<rparr>)" by (simp add: put_frame_def)
  then show thesis using deallocate_frame_spec [OF assms] Ok by (intro that [of "w\<lparr>pg_frames := fa\<rparr>"]) simp_all
next
  case (Err x)
  then have "put_frame f w = Some w" by (simp add: put_frame_def)
  then show thesis using assms(1) by (intro that [of w]) auto
next
  case Panic
  then show thesis using deallocate_frame_spec [OF assms] by simp
qed

lemma discard_grown:
  assumes ok: "tables_ok r w" and t: "take_frame w = (w1, Some c)" and d: "discard c e w1 = (res, w2)"
  shows "grown k r w w2" "res = Err e"
proof -
  note tk = take_frame_cases [OF ok t]
  have inv: "fa_invar DEFAULT_CAPACITY (pg_frames w1)" "frame_number c \<notin> free_frames (pg_frames w1)"
    using tk(2) tk(4) [OF refl] by (auto simp: tables_ok_def)
  obtain w3 where w3: "put_frame c w1 = Some w3" "pg_mem w3 = pg_mem w1" "fa_invar DEFAULT_CAPACITY (pg_frames w3)"
    "free_frames (pg_frames w3) \<subseteq> insert (frame_number c) (free_frames (pg_frames w1))"
    by (rule put_frame_facts [OF inv])
  have "w2 = w3" and e: "res = Err e" using d w3(1) by (auto simp: discard_def)
  then have f: "pg_mem w2 = pg_mem w" "fa_invar DEFAULT_CAPACITY (pg_frames w2)" "free_frames (pg_frames w2) \<subseteq> free_frames (pg_frames w)"
    using w3 tk(1,3) tk(4) [OF refl] by auto
  then have "tables_ok r w2" using ok by (auto simp: tables_ok_def)
  then show "grown k r w w2" using f by (simp add: grown_def)
  show "res = Err e" by (rule e)
qed

lemma user_descend_grown:
  assumes "tables_ok r w" "table_at (pg_mem w) r p = Some t" "length p + length is \<le> 3" "\<forall>i \<in> set is. i < 512"
    "is = [] \<or> along k (rev is @ p)" "user_descend dm perms is t (a, w) = (res, a', w')"
  shows "grown k r w w' \<and> res \<noteq> Panic \<and> (\<forall>c. res = Ok c \<longrightarrow> table_at (pg_mem w') r (rev is @ p) = Some c) \<and>
    as_pml4 a' = as_pml4 a \<and> as_user_index a' = as_user_index a"
  using assms
proof (induction "is" arbitrary: p t a w)
  case Nil
  then show ?case by (auto simp: grown_refl)
next
  case (Cons i "is")
  have i: "i < 512" "length p \<le> 2" using Cons.prems by auto
  have al: "along k (i # p)" using Cons.prems(5) by (cases "p = []") auto
  let ?e = "pg_mem w t i"
  show ?case
  proof (cases "is_present ?e")
    case True
    show ?thesis
    proof (cases "is_huge ?e")
      case False
      have "table_at (pg_mem w) r (i # p) = Some (table_address ?e)" using True False Cons.prems(2) i by (simp add: child_of_def)
      then show ?thesis using Cons.IH [of w "i # p" "table_address ?e" a] Cons.prems True False by auto
    qed (use True Cons.prems grown_refl in auto)
  next
    case False
    obtain w1 x where tk: "take_frame w = (w1, x)" by (cases "take_frame w")
    show ?thesis
    proof (cases x)
      case None
      then show ?thesis using Cons.prems False tk take_frame_grown [OF Cons.prems(1) tk] by auto
    next
      case (Some c)
      note tk = tk [unfolded Some]
      show ?thesis
      proof (cases "covers dm c")
        case cov: False
        obtain y w2 where d: "discard c Unreachable w1 = (y :: (address_space_error, phys_addr) outcome, w2)" by fastforce
        then show ?thesis using Cons.prems False tk cov discard_grown [OF Cons.prems(1) tk d] by auto
      next
        case cov: True
        note att = attach_fresh [OF Cons.prems(1,2) i(2,1) al False tk, of perms]
        let ?w = "write_entry t i (table_entry c perms) (zero_table c w1)"
        have "grown k r ?w w' \<and> res \<noteq> Panic \<and> (\<forall>c'. res = Ok c' \<longrightarrow> table_at (pg_mem w') r (rev is @ i # p) = Some c') \<and>
          as_pml4 a' = as_pml4 a \<and> as_user_index a' = as_user_index a"
          using Cons.IH [OF grownD(1) [OF att(1)] att(2), of "a\<lparr>as_frames_taken := as_frames_taken a + 1\<rparr>"] Cons.prems False tk cov by auto
        then show ?thesis using grown_trans [OF att(1)] by auto
      qed
    qed
  qed
qed

text \<open>A root none of whose tables is written keeps its tables, its leaves and every translation.\<close>

lemma unread_view:
  assumes same: "\<forall>x \<in> tables m r2. m' x = m x"
  shows "\<And>q. length q \<le> 4 \<Longrightarrow> table_at m' r2 q = table_at m r2 q" "\<And>q. q \<noteq> [] \<Longrightarrow> length q \<le> 4 \<Longrightarrow> leaf_at m' r2 q = leaf_at m r2 q"
    "tables m' r2 = tables m r2" "tree m' r2 = tree m r2" "top_ok m' r2 = top_ok m r2"
proof -
  show t: "table_at m' r2 q = table_at m r2 q" if "length q \<le> 4" for q
    using that
  proof (induction q)
    case (Cons i q)
    have "m' t = m t" if "table_at m r2 q = Some t" for t using same that Cons.prems by (auto simp: tables_def)
    then show ?case using Cons by (auto split: option.splits)
  qed simp
  have "entry_at m' r2 (i # q) = entry_at m r2 (i # q)" if "length q \<le> 3" for i q
    using t [of q] same that by (auto simp: entry_at_def tables_def split: option.splits)
  then have l: "leaf_at m' r2 (i # q) = leaf_at m r2 (i # q)" if "length q \<le> 3" for i q using that by (simp add: leaf_at_def)
  show "leaf_at m' r2 q = leaf_at m r2 q" if "q \<noteq> []" "length q \<le> 4" for q using l [of "tl q" "hd q"] that by (cases q) auto
  show "tables m' r2 = tables m r2" "tree m' r2 = tree m r2" using t by (auto simp: tables_def tree_def)
  show "top_ok m' r2 = top_ok m r2" using same by (simp add: top_ok_def)
qed

lemma unread_translate:
  assumes "\<forall>x \<in> tables m r2. m' x = m x" "top_ok m r2"
  shows "translate m' r2 u = translate m r2 u"
  using unread_view(2,5) [OF assms(1)] assms(2) by (simp add: translate_by_leaves translate_leaves_def cong: option.case_cong)

text \<open>The frames that mapping a page below entry \<open>k\<close> of a root may write.\<close>

definition writable_tables :: "phys_addr \<Rightarrow> nat \<Rightarrow> paging \<Rightarrow> phys_addr set" where
  "writable_tables r k w = insert r (tables_under (pg_mem w) r k) \<union> {x. frame_number x \<in> free_frames (pg_frames w)}"

lemma map_user_effect:
  assumes ok: "tables_ok (as_pml4 a) w" and v: "is_canonical (virt_raw v)" and p: "page_aligned frame"
    and m: "map_user_4kib dm v frame perms (a, w) = (res, a', w')"
  defines "r \<equiv> as_pml4 a" and "k \<equiv> as_user_index a"
  shows "tables_ok r w'" "res \<noteq> Panic" "as_pml4 a' = r \<and> as_user_index a' = k"
    and "\<And>q. q \<noteq> [] \<Longrightarrow> length q \<le> 4 \<Longrightarrow> leaf_at (pg_mem w') r q =
      (if res = Ok () \<and> q = pt_path v then Some (leaf_entry frame perms SmallLeaf) else leaf_at (pg_mem w) r q)"
    and "res = Ok () \<Longrightarrow> top_index v = k \<and> perm_user perms \<and> \<not> writable_and_executable perms \<and> leaf_at (pg_mem w) r (pt_path v) = None \<and>
      (\<exists>pt. table_at (pg_mem w') r (pd_path v) = Some pt)"
    and "\<And>x. x \<notin> writable_tables r k w \<Longrightarrow> pg_mem w' x = pg_mem w x"
    and "\<And>j. j \<noteq> k \<Longrightarrow> pg_mem w' r j = pg_mem w r j"
    and "free_frames (pg_frames w') \<subseteq> free_frames (pg_frames w)"
    and "tables_under (pg_mem w') r k \<subseteq> tables_under (pg_mem w) r k \<union> {x. frame_number x \<in> free_frames (pg_frames w)}"
    and "\<And>q t. length q \<le> 3 \<Longrightarrow> table_at (pg_mem w) r q = Some t \<Longrightarrow> table_at (pg_mem w') r q = Some t"
proof -
  let ?e = "leaf_entry frame perms SmallLeaf"
  let ?goal = "tables_ok r w' \<and> res \<noteq> Panic \<and> as_pml4 a' = r \<and> as_user_index a' = k \<and>
    (\<forall>q. q \<noteq> [] \<longrightarrow> length q \<le> 4 \<longrightarrow> leaf_at (pg_mem w') r q = (if res = Ok () \<and> q = pt_path v then Some ?e else leaf_at (pg_mem w) r q)) \<and>
    (res = Ok () \<longrightarrow> top_index v = k \<and> perm_user perms \<and> \<not> writable_and_executable perms \<and> leaf_at (pg_mem w) r (pt_path v) = None \<and>
      (\<exists>pt. table_at (pg_mem w') r (pd_path v) = Some pt)) \<and>
    (\<forall>x. x \<notin> writable_tables r k w \<longrightarrow> pg_mem w' x = pg_mem w x) \<and> (\<forall>j. j \<noteq> k \<longrightarrow> pg_mem w' r j = pg_mem w r j) \<and>
    free_frames (pg_frames w') \<subseteq> free_frames (pg_frames w) \<and>
    tables_under (pg_mem w') r k \<subseteq> tables_under (pg_mem w) r k \<union> {x. frame_number x \<in> free_frames (pg_frames w)} \<and>
    (\<forall>q t. length q \<le> 3 \<longrightarrow> table_at (pg_mem w) r q = Some t \<longrightarrow> table_at (pg_mem w') r q = Some t)"
  have ?goal
  proof (cases "top_index v = k \<and> perm_user perms \<and> \<not> writable_and_executable perms \<and> covers dm frame")
    case False
    then have "(\<exists>e. res = Err e) \<and> a' = a \<and> w' = w" using m by (auto simp: map_user_4kib_def k_def split: if_splits)
    then show ?thesis using ok by (auto simp: r_def k_def simp del: table_at.simps)
  next
    case True
    obtain x a1 w1 where d: "user_descend dm perms [top_index v, upper_index v, middle_index v] r (a, w) = (x, a1, w1)" by (metis prod_cases3)
    have r0: "table_at (pg_mem w) r [] = Some r" by simp
    have g: "grown k r w w1" "x \<noteq> Panic" "\<And>c. x = Ok c \<Longrightarrow> table_at (pg_mem w1) r (pd_path v) = Some c" "as_pml4 a1 = r" "as_user_index a1 = k"
      using user_descend_grown [OF ok [folded r_def] r0 _ _ _ d, of k] True index_bound [of v] by (auto simp: r_def k_def simp del: table_at.simps)
    note G = grownD [OF g(1)]
    have m1: "(res, a', w') = bind_pg (x, a1, w1) (\<lambda>pt (a1, w1).
       if is_present (pg_mem w1 pt (leaf_index v)) then (Err SpaceAlreadyMapped, a1, w1)
       else (Ok (), a1\<lparr>as_frames_taken := as_frames_taken a1 + 1\<rparr>, write_entry pt (leaf_index v) ?e w1))"
      using m True d by (simp add: map_user_4kib_def r_def k_def)
    have out: "pg_mem w1 x = pg_mem w x" if "x \<notin> writable_tables r k w" for x using G(6) that by (simp add: writable_tables_def)
    show ?thesis
    proof (cases "\<exists>pt. x = Ok pt \<and> \<not> is_present (pg_mem w1 pt (leaf_index v))")
      case False
      then have "(\<exists>e. res = Err e) \<and> a' = a1 \<and> w' = w1" using m1 g(2) by (cases x) (auto simp: bind_pg_def split: if_splits)
      then show ?thesis using G g out by (auto simp del: table_at.simps)
    next
      case True
      then obtain pt where pt: "x = Ok pt" "\<not> is_present (pg_mem w1 pt (leaf_index v))" by blast
      have t: "table_at (pg_mem w1) r (pd_path v) = Some pt" using g(3) pt(1) by simp
      have w': "res = Ok ()" "a' = a1\<lparr>as_frames_taken := as_frames_taken a1 + 1\<rparr>" "w' = write_entry pt (leaf_index v) ?e w1"
        using m1 pt by (simp_all add: bind_pg_def)
      have len: "length (pd_path v) = 3" by simp
      note sl = tables_ok_set_leaf [OF G(1) t len, where i = "leaf_index v" and e = ?e, folded w'(3)]
      have old: "leaf_at (pg_mem w1) r (pt_path v) = None" using t pt(2) by (simp add: leaf_at_def entry_at_def del: table_at.simps)
      have le: "leaf_entry_at 4 ?e = Some ?e" using leaf_entry_facts(2) [OF p] by (simp add: leaf_entry_at_def)
      have tr: "tree (pg_mem w1) r" using G(1) by (simp add: tables_ok_def)
      have mm: "pg_mem w' = set_entry pt (leaf_index v) ?e (pg_mem w1)" by (simp add: w' write_entry_def set_entry_def)
      have view: "table_at (pg_mem w') r q = table_at (pg_mem w1) r q" if "length q \<le> 3" for q
      proof -
        have "\<not> through (pt_path v) q" using that by (auto dest: through_length)
        then show ?thesis unfolding mm using table_at_elsewhere [OF tr t, of "leaf_index v" q ?e] that by simp
      qed
      then have t': "table_at (pg_mem w') r (pd_path v) = Some pt" using t by (simp del: table_at.simps)
      have under: "tables_under (pg_mem w') r k = tables_under (pg_mem w1) r k" unfolding tables_under_def using view by auto
      have fr: "pg_frames w' = pg_frames w1" by (simp add: w' write_entry_def)
      have "pt \<in> tables_under (pg_mem w1) r k"
        unfolding tables_under_def using t \<open>top_index v = k \<and> _\<close> by (intro CollectI exI [of _ "pd_path v"]) (simp del: table_at.simps)
      then have ptw: "pt \<in> writable_tables r k w" "pt \<noteq> r" using G(4) tree_inj [OF tr t, of "[]"] by (auto simp: writable_tables_def)
      have away: "pg_mem w' x = pg_mem w1 x" if "x \<noteq> pt" for x using that by (simp add: mm set_entry_def)
      have out': "pg_mem w' x = pg_mem w x" if "x \<notin> writable_tables r k w" for x using away [of x] out [OF that] ptw(1) that by auto
      have keep: "table_at (pg_mem w') r q = Some t'" if "length q \<le> 3" "table_at (pg_mem w) r q = Some t'" for q t' using view [OF that(1)] G(3) [OF that] by simp
      show ?thesis unfolding under fr
        using w'(1,2) sl(1) sl(2) G(2,4,5,7) g(4,5) old le t' ptw(2) away [of r] out' keep \<open>top_index v = k \<and> _\<close> by (auto simp del: table_at.simps)
    qed
  qed
  then show "tables_ok r w'" "res \<noteq> Panic" "as_pml4 a' = r \<and> as_user_index a' = k"
    and "\<And>q. q \<noteq> [] \<Longrightarrow> length q \<le> 4 \<Longrightarrow> leaf_at (pg_mem w') r q = (if res = Ok () \<and> q = pt_path v then Some ?e else leaf_at (pg_mem w) r q)"
    and "res = Ok () \<Longrightarrow> top_index v = k \<and> perm_user perms \<and> \<not> writable_and_executable perms \<and> leaf_at (pg_mem w) r (pt_path v) = None \<and>
      (\<exists>pt. table_at (pg_mem w') r (pd_path v) = Some pt)"
    and "\<And>x. x \<notin> writable_tables r k w \<Longrightarrow> pg_mem w' x = pg_mem w x"
    and "\<And>j. j \<noteq> k \<Longrightarrow> pg_mem w' r j = pg_mem w r j" and "free_frames (pg_frames w') \<subseteq> free_frames (pg_frames w)"
    and "tables_under (pg_mem w') r k \<subseteq> tables_under (pg_mem w) r k \<union> {x. frame_number x \<in> free_frames (pg_frames w)}"
    and "\<And>q t. length q \<le> 3 \<Longrightarrow> table_at (pg_mem w) r q = Some t \<Longrightarrow> table_at (pg_mem w') r q = Some t"
    by (auto simp del: table_at.simps)
qed

subsection \<open>The frames of an address space\<close>

text \<open>What a space holds: its root, the tables under its own entry of the root, and the pages mapped there that
  are not marked as shared, each named by its path.\<close>

definition holds :: "address_space \<Rightarrow> table_mem \<Rightarrow> nat list \<Rightarrow> phys_addr option" where
  "holds a m p =
     (if p \<noteq> [] \<and> last p \<noteq> as_user_index a then None
      else if length p \<le> 3 then table_at m (as_pml4 a) p
      else if length p = 4 \<and> hd p < 512 then
        (case leaf_at m (as_pml4 a) p of Some e \<Rightarrow> if is_shared e then None else Some (page_address_4k e) | None \<Rightarrow> None)
      else None)"

text \<open>The shape of a space beside the kernel's tables \<open>kr\<close>: nothing in the private half but its own entry, the
  other half the kernel's, and small pages that are never both writable and executable.\<close>

definition space_ok :: "phys_addr \<Rightarrow> address_space \<Rightarrow> table_mem \<Rightarrow> bool" where
  "space_ok kr a m \<longleftrightarrow> as_user_index a < KERNEL_PML4_FIRST_INDEX \<and>
     (\<forall>i < KERNEL_PML4_FIRST_INDEX. i \<noteq> as_user_index a \<longrightarrow> \<not> is_present (m (as_pml4 a) i)) \<and>
     (\<forall>i. is_shared_kernel_index i \<longrightarrow> m (as_pml4 a) i = m kr i) \<and>
     (\<forall>q e. q \<noteq> [] \<longrightarrow> length q \<le> 4 \<longrightarrow> last q = as_user_index a \<longrightarrow> leaf_at m (as_pml4 a) q = Some e \<longrightarrow>
        length q = 4 \<and> \<not> (bit e 1 \<and> \<not> bit e 63))"

type_synonym spaces = "address_space list \<times> phys_addr set \<times> paging"

definition spaces_ok :: "phys_addr \<Rightarrow> spaces \<Rightarrow> bool" where
  "spaces_ok kr = (\<lambda>(ss, owned, w). let m = pg_mem w; free = free_frames (pg_frames w) in
     tables_ok kr w \<and> (\<forall>i. is_shared_kernel_index i \<longrightarrow> \<not> (is_present (m kr i) \<and> bit (m kr i) 2)) \<and>
     (\<forall>a \<in> set ss. tables_ok (as_pml4 a) w \<and> space_ok kr a m) \<and>
     (\<forall>i < length ss. \<forall>j < length ss. \<forall>p q f. holds (ss ! i) m p = Some f \<longrightarrow> holds (ss ! j) m q = Some f \<longrightarrow> i = j \<and> p = q) \<and>
     (\<forall>a \<in> set ss. \<forall>p f. holds a m p = Some f \<longrightarrow> page_aligned f \<and> f \<notin> tables m kr \<and> frame_number f \<notin> free \<and> f \<notin> owned) \<and>
     (\<forall>f \<in> owned. page_aligned f \<and> f \<notin> tables m kr \<and> frame_number f \<notin> free))"

lemma spaces_okD:
  assumes "spaces_ok kr (ss, owned, w)"
  shows "tables_ok kr w" "\<And>i. is_shared_kernel_index i \<Longrightarrow> \<not> (is_present (pg_mem w kr i) \<and> bit (pg_mem w kr i) 2)"
    "\<And>a. a \<in> set ss \<Longrightarrow> tables_ok (as_pml4 a) w" "\<And>a. a \<in> set ss \<Longrightarrow> space_ok kr a (pg_mem w)"
    "\<And>i j p q f. i < length ss \<Longrightarrow> j < length ss \<Longrightarrow> holds (ss ! i) (pg_mem w) p = Some f \<Longrightarrow> holds (ss ! j) (pg_mem w) q = Some f \<Longrightarrow> i = j \<and> p = q"
    "\<And>a p f. a \<in> set ss \<Longrightarrow> holds a (pg_mem w) p = Some f \<Longrightarrow> page_aligned f \<and> f \<notin> tables (pg_mem w) kr \<and> frame_number f \<notin> free_frames (pg_frames w) \<and> f \<notin> owned"
    "\<And>f. f \<in> owned \<Longrightarrow> page_aligned f \<and> f \<notin> tables (pg_mem w) kr \<and> frame_number f \<notin> free_frames (pg_frames w)"
  using assms unfolding spaces_ok_def Let_def prod.case by blast+

lemma spaces_okI:
  assumes "tables_ok kr w" "\<And>i. is_shared_kernel_index i \<Longrightarrow> \<not> (is_present (pg_mem w kr i) \<and> bit (pg_mem w kr i) 2)"
    "\<And>a. a \<in> set ss \<Longrightarrow> tables_ok (as_pml4 a) w" "\<And>a. a \<in> set ss \<Longrightarrow> space_ok kr a (pg_mem w)"
    "\<And>i j p q f. i < length ss \<Longrightarrow> j < length ss \<Longrightarrow> holds (ss ! i) (pg_mem w) p = Some f \<Longrightarrow> holds (ss ! j) (pg_mem w) q = Some f \<Longrightarrow> i = j \<and> p = q"
    "\<And>a p f. a \<in> set ss \<Longrightarrow> holds a (pg_mem w) p = Some f \<Longrightarrow> page_aligned f \<and> f \<notin> tables (pg_mem w) kr \<and> frame_number f \<notin> free_frames (pg_frames w) \<and> f \<notin> owned"
    "\<And>f. f \<in> owned \<Longrightarrow> page_aligned f \<and> f \<notin> tables (pg_mem w) kr \<and> frame_number f \<notin> free_frames (pg_frames w)"
  shows "spaces_ok kr (ss, owned, w)"
  using assms unfolding spaces_ok_def Let_def prod.case by blast

lemma table_at_snoc:
  "table_at m r (q @ [i]) = (if i < 512 then (case child_of (m r i) of None \<Rightarrow> None | Some t \<Rightarrow> table_at m t q) else None)"
  by (induction q) (auto split: option.splits)

lemma table_at_top:
  assumes "p \<noteq> []"
  shows "m r (last p) = m r2 (last p) \<Longrightarrow> table_at m r p = table_at m r2 p" "\<not> is_present (m r (last p)) \<Longrightarrow> table_at m r p = None"
    "table_at m r p \<noteq> None \<Longrightarrow> last p < 512"
  using table_at_snoc [of m r "butlast p" "last p"] table_at_snoc [of m r2 "butlast p" "last p"] assms
  by (auto simp: child_of_def split: if_splits)

lemma space_tables:
  assumes "space_ok kr a m" "t \<in> tables m (as_pml4 a)"
  shows "(\<exists>p. length p \<le> 3 \<and> holds a m p = Some t) \<or> t \<in> tables m kr"
proof -
  obtain p where p: "length p \<le> 3" "table_at m (as_pml4 a) p = Some t" using assms(2) by (auto simp: tables_def)
  show ?thesis
  proof (cases "p = [] \<or> last p = as_user_index a")
    case True
    then have "holds a m p = Some t" using p by (auto simp: holds_def)
    then show ?thesis using p(1) by blast
  next
    case False
    have l: "last p < 512" using table_at_top(3) [of p m "as_pml4 a"] False p(2) by simp
    show ?thesis
    proof (cases "is_shared_kernel_index (last p)")
      case True
      then have "table_at m (as_pml4 a) p = table_at m kr p" using table_at_top(1) [of p m "as_pml4 a" kr] False assms(1) by (simp add: space_ok_def)
      then show ?thesis using p by (auto simp: tables_def)
    next
      case ns: False
      then have "last p < KERNEL_PML4_FIRST_INDEX" using l by (auto simp: is_shared_kernel_index_def PML4_ENTRY_COUNT_def)
      then have "table_at m (as_pml4 a) p = None" using table_at_top(2) [of p m "as_pml4 a"] False assms(1) by (simp add: space_ok_def)
      then show ?thesis using p by simp
    qed
  qed
qed

text \<open>Whatever writes no table of a space or of the kernel leaves the space as it was.\<close>

lemma untouched_space:
  assumes ok: "space_ok kr a m" and same: "\<forall>x \<in> tables m (as_pml4 a). m' x = m x" "m' kr = m kr"
  shows "space_ok kr a m'" "holds a m' = holds a m"
proof -
  note view = unread_view [OF same(1)]
  have r: "m' (as_pml4 a) = m (as_pml4 a)" using same(1) by simp
  show "space_ok kr a m'" using ok view(2) same(2) unfolding space_ok_def r by auto
  show "holds a m' = holds a m"
  proof
    fix p show "holds a m' p = holds a m p" using view(1) [of p] view(2) [of p] by (cases "p = []") (auto simp: holds_def)
  qed
qed

lemma tables_ok_untouched:
  assumes "tables_ok r w" "\<forall>x \<in> tables (pg_mem w) r. pg_mem w' x = pg_mem w x" "fa_invar DEFAULT_CAPACITY (pg_frames w')"
    "\<And>t. t \<in> tables (pg_mem w) r \<Longrightarrow> frame_number t \<notin> free_frames (pg_frames w')"
  shows "tables_ok r w'"
  using assms unread_view(3-5) [OF assms(2)] by (simp add: tables_ok_def)

lemma page_aligned_inj:
  assumes "page_aligned a" "page_aligned b" "frame_number a = frame_number b"
  shows "a = b"
proof -
  have b: "bit (phys_raw x) n \<longleftrightarrow> 12 \<le> n \<and> bit (frame_number x) (n - 12)" if "page_aligned x" for x n
  proof -
    have "frame_number x = drop_bit 12 (unat (phys_raw x))" by (simp add: frame_number_def drop_bit_eq_div)
    then show ?thesis using that by (auto simp: page_aligned_bits bit_drop_bit_eq bit_unsigned_iff)
  qed
  have "phys_raw a = phys_raw b" by (rule bit_word_eqI) (simp add: b assms)
  then show ?thesis by (rule phys_addr.expand)
qed

text \<open>What mapping a page changes of what the space holds.\<close>

lemma map_user_holds:
  assumes ok: "tables_ok (as_pml4 a) w" and v: "is_canonical (virt_raw v)" and p: "page_aligned frame"
    and m: "map_user_4kib dm v frame perms (a, w) = (res, a', w')" and h: "holds a' (pg_mem w') q = Some f"
  shows "holds a (pg_mem w) q = Some f \<or> length q \<le> 3 \<and> frame_number f \<in> free_frames (pg_frames w) \<or>
    q = pt_path v \<and> f = frame \<and> res = Ok () \<and> \<not> perm_shared perms"
proof -
  note eff = map_user_effect [OF ok v p m]
  note a' = eff(3)
  have tr: "tree (pg_mem w') (as_pml4 a)" using eff(1) by (simp add: tables_ok_def)
  consider "q = []" | "q \<noteq> []" "length q \<le> 3" "last q = as_user_index a" "table_at (pg_mem w') (as_pml4 a) q = Some f"
    | e where "length q = 4" "hd q < 512" "last q = as_user_index a" "leaf_at (pg_mem w') (as_pml4 a) q = Some e" "\<not> is_shared e" "f = page_address_4k e"
    using h a' by (auto simp: holds_def split: if_splits option.splits)
  then show ?thesis
  proof cases
    case 1
    then show ?thesis using h a' by (simp add: holds_def)
  next
    case 2
    then have "f \<in> tables_under (pg_mem w') (as_pml4 a) (as_user_index a)" by (auto simp: tables_under_def)
    then have "f \<in> tables_under (pg_mem w) (as_pml4 a) (as_user_index a) \<or> frame_number f \<in> free_frames (pg_frames w)" using eff(9) by auto
    then consider q' where "q' \<noteq> []" "length q' \<le> 3" "table_at (pg_mem w) (as_pml4 a) q' = Some f" | "frame_number f \<in> free_frames (pg_frames w)"
      by (auto simp: tables_under_def)
    then show ?thesis
    proof cases
      case q': 1
      then have "q' = q" using tree_inj [OF tr eff(10) [OF q'(2,3)] 2(4)] 2(2) by simp
      then show ?thesis using q' 2 by (simp add: holds_def)
    qed (use 2 in simp)
  next
    case 3
    have "q \<noteq> []" using 3(1) by auto
    show ?thesis
    proof (cases "res = Ok () \<and> q = pt_path v")
      case True
      then have "e = leaf_entry frame perms SmallLeaf" using eff(4) [of q] 3 \<open>q \<noteq> []\<close> by simp
      then show ?thesis using True 3 leaf_entry_facts(1,5) [OF p, of perms] by simp
    next
      case False
      then have "leaf_at (pg_mem w) (as_pml4 a) q = Some e" using eff(4) [of q] 3 \<open>q \<noteq> []\<close> by auto
      then show ?thesis using 3 by (auto simp: holds_def)
    qed
  qed
qed

lemma held_tables:
  assumes "x \<in> insert (as_pml4 a) (tables_under m (as_pml4 a) (as_user_index a))"
  shows "\<exists>p. holds a m p = Some x"
proof (cases "x = as_pml4 a")
  case True
  then have "holds a m [] = Some x" by (simp add: holds_def)
  then show ?thesis by blast
next
  case False
  then obtain p where p: "p \<noteq> []" "length p \<le> 3" "last p = as_user_index a" "table_at m (as_pml4 a) p = Some x" using assms by (auto simp: tables_under_def)
  then have "holds a m p = Some x" by (simp add: holds_def)
  then show ?thesis by blast
qed

lemma map_user_keeps_spaces:
  assumes inv: "spaces_ok kr (ss, owned, w)" and i: "i < length ss" and v: "is_canonical (virt_raw v)" and f: "frame \<in> owned"
    and m: "map_user_4kib dm v frame perms (ss ! i, w) = (res, a', w')"
  shows "spaces_ok kr (ss[i := a'], if res = Ok () \<and> \<not> perm_shared perms then owned - {frame} else owned, w')"
    "\<And>r. r = kr \<or> (\<exists>j < length ss. j \<noteq> i \<and> r = as_pml4 (ss ! j)) \<Longrightarrow> \<forall>x \<in> tables (pg_mem w) r. pg_mem w' x = pg_mem w x"
proof -
  note D = spaces_okD [OF inv]
  let ?a = "ss ! i" and ?free = "free_frames (pg_frames w)" and ?m = "pg_mem w" and ?m' = "pg_mem w'"
  have a: "?a \<in> set ss" using i by simp
  have p: "page_aligned frame" using D(7) [OF f] by simp
  note eff = map_user_effect [OF D(3) [OF a] v p m]
  have held: "\<exists>p. holds ?a ?m p = Some x" if "x \<in> writable_tables (as_pml4 ?a) (as_user_index ?a) w" "frame_number x \<notin> ?free" for x
    using held_tables [of x ?a ?m] that by (auto simp: writable_tables_def)
  have kr: "\<forall>x \<in> tables ?m kr. ?m' x = ?m x"
  proof
    fix x assume x: "x \<in> tables ?m kr"
    then have "frame_number x \<notin> ?free" using D(1) by (simp add: tables_ok_def)
    then have "x \<notin> writable_tables (as_pml4 ?a) (as_user_index ?a) w" using held D(6) [OF a] x by blast
    then show "?m' x = ?m x" by (rule eff(6))
  qed
  have others: "\<forall>x \<in> tables ?m (as_pml4 (ss ! j)). ?m' x = ?m x" if j: "j < length ss" "j \<noteq> i" for j
  proof
    let ?b = "ss ! j"
    have b: "?b \<in> set ss" using j by simp
    fix x assume x: "x \<in> tables ?m (as_pml4 ?b)"
    have nf: "frame_number x \<notin> ?free" using D(3) [OF b] x by (simp add: tables_ok_def)
    show "?m' x = ?m x"
    proof (cases "x \<in> tables ?m kr")
      case False
      then obtain q where "holds ?b ?m q = Some x" using space_tables [OF D(4) [OF b] x] by blast
      then have "x \<notin> writable_tables (as_pml4 ?a) (as_user_index ?a) w" using held [OF _ nf] D(5) [OF i j(1)] j(2) by blast
      then show ?thesis by (rule eff(6))
    qed (use kr in simp)
  qed
  show "\<forall>x \<in> tables ?m r. ?m' x = ?m x" if "r = kr \<or> (\<exists>j < length ss. j \<noteq> i \<and> r = as_pml4 (ss ! j))" for r
    using that kr others by auto
  have krm: "?m' kr = ?m kr" using kr by simp
  have inv': "fa_invar DEFAULT_CAPACITY (pg_frames w')" using eff(1) by (simp add: tables_ok_def)
  note fr = eff(8)
  have ktab: "tables ?m' kr = tables ?m kr" by (rule unread_view(3) [OF kr])
  have keep: "space_ok kr (ss ! j) ?m'" "holds (ss ! j) ?m' = holds (ss ! j) ?m" "tables_ok (as_pml4 (ss ! j)) w'" if j: "j < length ss" "j \<noteq> i" for j
  proof -
    have b: "ss ! j \<in> set ss" using j by simp
    show "space_ok kr (ss ! j) ?m'" "holds (ss ! j) ?m' = holds (ss ! j) ?m"
      using untouched_space [OF D(4) [OF b] others [OF j] krm] by simp_all
    have "frame_number t \<notin> free_frames (pg_frames w')" if "t \<in> tables ?m (as_pml4 (ss ! j))" for t
      using D(3) [OF b] fr that by (auto simp: tables_ok_def)
    then show "tables_ok (as_pml4 (ss ! j)) w'" by (rule tables_ok_untouched [OF D(3) [OF b] others [OF j] inv'])
  qed
  have self: "space_ok kr a' ?m'"
  proof -
    have sp: "space_ok kr ?a ?m" by (rule D(4) [OF a])
    have leaf: "length q = 4 \<and> \<not> (bit e 1 \<and> \<not> bit e 63)"
      if q: "q \<noteq> []" "length q \<le> 4" "last q = as_user_index ?a" "leaf_at ?m' (as_pml4 ?a) q = Some e" for q e
    proof (cases "res = Ok () \<and> q = pt_path v")
      case True
      then have "e = leaf_entry frame perms SmallLeaf" "\<not> writable_and_executable perms" using eff(4) [OF q(1,2)] eff(5) q(4) by auto
      then show ?thesis using leaf_entry_facts(3,6) [OF p, of perms] True by (simp add: writable_and_executable_def)
    next
      case False
      then have "leaf_at ?m (as_pml4 ?a) q = Some e" using eff(4) [OF q(1,2)] q(4) by auto
      then show ?thesis using sp q unfolding space_ok_def by blast
    qed
    have row: "?m' (as_pml4 ?a) j = ?m (as_pml4 ?a) j" if "j \<noteq> as_user_index ?a" for j using eff(7) [OF that] .
    have "j \<noteq> as_user_index ?a" if "is_shared_kernel_index j" for j using sp that by (auto simp: space_ok_def is_shared_kernel_index_def)
    then show ?thesis using sp leaf eff(3) krm row unfolding space_ok_def by auto
  qed
  let ?own = "if res = Ok () \<and> \<not> perm_shared perms then owned - {frame} else owned"
  have cl: "holds (ss ! j) ?m q = Some g \<or> j = i \<and> length q \<le> 3 \<and> frame_number g \<in> ?free \<or>
      j = i \<and> q = pt_path v \<and> g = frame \<and> res = Ok () \<and> \<not> perm_shared perms"
    if "j < length ss" "holds (ss[i := a'] ! j) ?m' q = Some g" for j q g
    using map_user_holds [OF D(3) [OF a] v p m, of q g] keep(2) [of j] that by (cases "j = i") auto
  have old: "g \<notin> owned" "frame_number g \<notin> ?free" "g \<notin> tables ?m kr" "page_aligned g" if "j < length ss" "holds (ss ! j) ?m q = Some g" for j q g
    using D(6) [of "ss ! j" q g] that by auto
  have tr: "tree ?m' (as_pml4 ?a)" using eff(1) by (simp add: tables_ok_def)
  have small: "table_at ?m' (as_pml4 ?a) q = Some g" if "holds a' ?m' q = Some g" "length q \<le> 3" for q g
    using that eff(3) by (auto simp: holds_def split: if_splits)
  show "spaces_ok kr (ss[i := a'], ?own, w')"
  proof (rule spaces_okI)
    show "tables_ok kr w'" by (rule tables_ok_untouched [OF D(1) kr inv']) (use D(1) fr in \<open>auto simp: tables_ok_def\<close>)
    show "\<not> (is_present (?m' kr j) \<and> bit (?m' kr j) 2)" if "is_shared_kernel_index j" for j using D(2) [OF that] krm by simp
    show "tables_ok (as_pml4 b) w'" if "b \<in> set (ss[i := a'])" for b
      using that keep(3) eff(1,3) i by (auto simp: in_set_conv_nth nth_list_update split: if_splits)
    show "space_ok kr b ?m'" if "b \<in> set (ss[i := a'])" for b
      using that keep(1) self i by (auto simp: in_set_conv_nth nth_list_update split: if_splits)
    show "g \<in> ?own \<Longrightarrow> page_aligned g \<and> g \<notin> tables ?m' kr \<and> frame_number g \<notin> free_frames (pg_frames w')" for g
      using D(7) [of g] fr unfolding ktab by (auto split: if_splits)
    show "page_aligned g \<and> g \<notin> tables ?m' kr \<and> frame_number g \<notin> free_frames (pg_frames w') \<and> g \<notin> ?own"
      if b: "b \<in> set (ss[i := a'])" "holds b ?m' q = Some g" for b q g
    proof -
      obtain j where j: "j < length ss" "b = ss[i := a'] ! j" using b(1) by (auto simp: in_set_conv_nth)
      note cl = cl [OF j(1), of q g]
      have new: "page_aligned g \<and> g \<notin> tables ?m kr \<and> frame_number g \<notin> free_frames (pg_frames w') \<and> g \<notin> owned"
        if "j = i" "length q \<le> 3" "frame_number g \<in> ?free"
      proof -
        have "table_at ?m' (as_pml4 ?a) q = Some g" using small b(2) j(2) that i by simp
        then have "g \<in> tables ?m' (as_pml4 ?a)" using that(2) by (auto simp: tables_def)
        then show ?thesis using eff(1) that(3) D(1) D(7) [of g] by (auto simp: tables_ok_def)
      qed
      show ?thesis unfolding ktab using cl b(2) j old [OF j(1), of q g] new fr D(7) [OF f] by (auto split: if_splits)
    qed
    show "j = l \<and> q = q'"
      if jl: "j < length (ss[i := a'])" "l < length (ss[i := a'])" and h: "holds (ss[i := a'] ! j) ?m' q = Some g" "holds (ss[i := a'] ! l) ?m' q' = Some g" for j l q q' g
    proof -
      have j: "j < length ss" "l < length ss" using jl by simp_all
      have free: "j = i \<and> length q \<le> 3 \<and> l = i \<and> length q' \<le> 3 \<Longrightarrow> ?thesis"
        using small [of q g] small [of q' g] h i tree_inj [OF tr, of q g q'] by simp
      from cl [OF j(1) h(1)] cl [OF j(2) h(2)] show ?thesis
        using D(5) [OF j, of q g q'] old [OF j(1), of q g] old [OF j(2), of q' g] f D(7) [OF f] free by blast
    qed
  qed
qed

lemma take_frame_keeps_spaces:
  assumes inv: "spaces_ok kr (ss, owned, w)" and t: "take_frame w = (w', x)"
  shows "spaces_ok kr (ss, owned \<union> set_option x, w')"
proof -
  note D = spaces_okD [OF inv]
  note tk = take_frame_cases [OF D(1) t]
  have "page_aligned c \<and> c \<notin> tables (pg_mem w) kr \<and> frame_number c \<notin> free_frames (pg_frames w')" "frame_number c \<in> free_frames (pg_frames w)" if "x = Some c" for c
    using tk(4) [OF that] by auto
  moreover have "tables_ok (as_pml4 a) w'" if "a \<in> set ss" for a using take_frame_cases(2) [OF D(3) [OF that] t] .
  ultimately show ?thesis
    by (intro spaces_okI) (use D tk(1,2,3) in \<open>auto 0 3\<close>)
qed

lemma put_frame_keeps_spaces:
  assumes inv: "spaces_ok kr (ss, owned, w)" and f: "f \<in> owned" and t: "put_frame f w = Some w'"
  shows "spaces_ok kr (ss, owned - {f}, w')"
proof -
  note D = spaces_okD [OF inv]
  have fi: "fa_invar DEFAULT_CAPACITY (pg_frames w)" "frame_number f \<notin> free_frames (pg_frames w)" using D(1) D(7) [OF f] by (simp_all add: tables_ok_def)
  have fx: "pg_mem w' = pg_mem w" "fa_invar DEFAULT_CAPACITY (pg_frames w')" "free_frames (pg_frames w') \<subseteq> insert (frame_number f) (free_frames (pg_frames w))"
    using put_frame_facts [OF fi] t by (metis option.inject)+
  have al: "page_aligned f" using D(7) [OF f] by simp
  have nf: "frame_number g \<notin> free_frames (pg_frames w')" if "page_aligned g" "g \<noteq> f" "frame_number g \<notin> free_frames (pg_frames w)" for g
    using fx that page_aligned_inj [OF that(1) al] by auto
  have tab: "tables_ok r w'" if "tables_ok r w" "f \<notin> tables (pg_mem w) r" for r
    using that nf fx by (auto simp: tables_ok_def)
  have nt: "f \<notin> tables (pg_mem w) (as_pml4 a)" if "a \<in> set ss" for a
    using space_tables [OF D(4) [OF that], of f] D(6) [OF that] D(7) [OF f] f by blast
  show ?thesis
  proof (rule spaces_okI)
    show "tables_ok kr w'" using tab [OF D(1)] D(7) [OF f] by simp
    show "\<And>a. a \<in> set ss \<Longrightarrow> tables_ok (as_pml4 a) w'" using tab [OF D(3)] nt by simp
    show "page_aligned g \<and> g \<notin> tables (pg_mem w') kr \<and> frame_number g \<notin> free_frames (pg_frames w') \<and> g \<notin> owned - {f}"
      if "a \<in> set ss" "holds a (pg_mem w') p = Some g" for a p g
      using D(6) [OF that(1), of p g] that(2) fx nf [of g] f by auto
    show "page_aligned g \<and> g \<notin> tables (pg_mem w') kr \<and> frame_number g \<notin> free_frames (pg_frames w')" if "g \<in> owned - {f}" for g
      using D(7) [of g] that fx nf [of g] by auto
  qed (use D fx in auto)
qed

lemma copy_kernel_top_mem:
  assumes "new \<noteq> current"
  shows "pg_mem (copy_kernel_top new current w) =
      (pg_mem w)(new := (\<lambda>i. if i < 512 then (if is_shared_kernel_index i then pg_mem w current i else 0) else pg_mem w new i))"
    "pg_frames (copy_kernel_top new current w) = pg_frames w"
proof -
  have "pg_mem (fold (\<lambda>i w. write_entry new i (if is_shared_kernel_index i then pg_mem w current i else 0) w) [0 ..< n] w) =
      (pg_mem w)(new := (\<lambda>i. if i < n then (if is_shared_kernel_index i then pg_mem w current i else 0) else pg_mem w new i)) \<and>
    pg_frames (fold (\<lambda>i w. write_entry new i (if is_shared_kernel_index i then pg_mem w current i else 0) w) [0 ..< n] w) = pg_frames w" for n
  proof (induction n)
    case (Suc n)
    then show ?case using assms by (auto simp: write_entry_def fun_eq_iff less_Suc_eq)
  qed (simp add: fun_eq_iff)
  from this [of 512] show "pg_mem (copy_kernel_top new current w) =
      (pg_mem w)(new := (\<lambda>i. if i < 512 then (if is_shared_kernel_index i then pg_mem w current i else 0) else pg_mem w new i))"
    "pg_frames (copy_kernel_top new current w) = pg_frames w"
    by (simp_all add: copy_kernel_top_def PML4_ENTRY_COUNT_def)
qed

text \<open>The roots the processor can be on: the kernel's, or one whose upper half is the kernel's.\<close>

definition kernel_view :: "phys_addr \<Rightarrow> address_space list \<Rightarrow> phys_addr \<Rightarrow> bool" where
  "kernel_view kr ss r \<longleftrightarrow> r = kr \<or> r \<in> as_pml4 ` set ss"

lemma fresh_space:
  assumes ok: "tables_ok kr w" and c: "c \<notin> tables (pg_mem w) kr" "page_aligned c" "frame_number c \<notin> free_frames (pg_frames w')"
    and m': "pg_mem w' = (pg_mem w)(c := g)" and g: "\<And>i. i < 512 \<Longrightarrow> g i = (if is_shared_kernel_index i then pg_mem w kr i else 0)"
    and fr: "fa_invar DEFAULT_CAPACITY (pg_frames w')" "free_frames (pg_frames w') \<subseteq> free_frames (pg_frames w)" and k: "k < KERNEL_PML4_FIRST_INDEX"
  shows "tables_ok c w'" "space_ok kr \<lparr>as_pml4 = c, as_user_index = k, as_frames_taken = n\<rparr> (pg_mem w')"
    "holds \<lparr>as_pml4 = c, as_user_index = k, as_frames_taken = n\<rparr> (pg_mem w') p = (if p = [] then Some c else None)"
proof -
  let ?m = "pg_mem w" and ?m' = "pg_mem w'" and ?a = "\<lparr>as_pml4 = c, as_user_index = k, as_frames_taken = n\<rparr>"
  have same: "\<forall>x \<in> tables ?m kr. ?m' x = ?m x" using c(1) by (auto simp: m')
  have krc: "kr \<noteq> c" using c(1) by auto
  have row: "?m' c = g" by (simp add: m')
  have kr: "table_at ?m' kr p = table_at ?m kr p" if "length p \<le> 4" for p by (rule unread_view(1) [OF same that])
  have view: "table_at ?m' c p = (if is_shared_kernel_index (last p) then table_at ?m kr p else None)" if "p \<noteq> []" "length p \<le> 4" for p
  proof -
    have "g (last p) = ?m' kr (last p)" if "is_shared_kernel_index (last p)"
      using that g [of "last p"] krc by (simp add: m' is_shared_kernel_index_def PML4_ENTRY_COUNT_def)
    then have "is_shared_kernel_index (last p) \<Longrightarrow> table_at ?m' c p = table_at ?m' kr p" using table_at_top(1) [of p ?m' c kr] that(1) by (simp add: row)
    moreover have "table_at ?m' c p = None" if "\<not> is_shared_kernel_index (last p)"
      using that table_at_top(2,3) [of p ?m' c] \<open>p \<noteq> []\<close> g [of "last p"] by (force simp: row)
    ultimately show ?thesis using kr [OF that(2)] by simp
  qed
  have tabs: "tables ?m' c \<subseteq> insert c (tables ?m kr)"
  proof
    fix t assume "t \<in> tables ?m' c"
    then obtain p where p: "length p \<le> 3" "table_at ?m' c p = Some t" by (auto simp: tables_def)
    then show "t \<in> insert c (tables ?m kr)" using view [of p] by (cases "p = []") (auto simp: tables_def split: if_splits)
  qed
  have tr: "tree ?m' c" unfolding tree_def
  proof (intro allI impI)
    fix p q t assume l: "length p \<le> 3" "length q \<le> 3" and t: "table_at ?m' c p = Some t" "table_at ?m' c q = Some t"
    have *: "table_at ?m kr p = Some t \<and> t \<noteq> c" if "p \<noteq> []" "length p \<le> 3" "table_at ?m' c p = Some t" for p
      using view [of p] that c(1) by (auto simp: tables_def split: if_splits)
    have "tree ?m kr" using ok by (simp add: tables_ok_def)
    then show "p = q" using *[of p] *[of q] l t tree_inj [of ?m kr p t q] by (cases "p = []"; cases "q = []") auto
  qed
  have top: "top_ok ?m' c" using ok g by (auto simp: top_ok_def row tables_ok_def is_shared_kernel_index_def)
  show "tables_ok c w'" unfolding tables_ok_def using fr tr top tabs c(2,3) ok by (auto simp: tables_ok_def)
  have k': "\<not> is_shared_kernel_index k" "k < 512" using k by (simp_all add: is_shared_kernel_index_def KERNEL_PML4_FIRST_INDEX_def)
  have low: "table_at ?m' c q = None" if "q \<noteq> []" "length q \<le> 4" "last q = k" for q using view [OF that(1,2)] that(3) k' by simp
  have leaf: "leaf_at ?m' c q = None" if q: "q \<noteq> []" "length q \<le> 4" "last q = k" for q
  proof (cases "length q = 1")
    case True
    then have "q = [k]" using q(3) by (cases q) auto
    then have "entry_at ?m' c q = 0" using g [OF k'(2)] k'(1) by (simp add: entry_at_def row)
    then show ?thesis by (simp add: leaf_at_def)
  next
    case False
    then have "tl q \<noteq> []" using q(1) by (cases q) auto
    then have "table_at ?m' c (tl q) = None" using low [of "tl q"] q by (simp add: last_tl)
    then have "entry_at ?m' c q = 0" by (simp add: entry_at_def)
    then show ?thesis by (simp add: leaf_at_def)
  qed
  have "\<not> is_present (g i)" if "i < KERNEL_PML4_FIRST_INDEX" for i
    using that g [of i] by (simp add: is_shared_kernel_index_def KERNEL_PML4_FIRST_INDEX_def)
  moreover have "g i = ?m' kr i" if "is_shared_kernel_index i" for i
    using that g [of i] krc by (simp add: m' is_shared_kernel_index_def PML4_ENTRY_COUNT_def)
  ultimately show "space_ok kr ?a ?m'" using leaf k unfolding space_ok_def by (auto simp: row)
  show "holds ?a ?m' p = (if p = [] then Some c else None)"
  proof (cases "p = []")
    case False
    then show ?thesis using low [of p] leaf [of p] False by (auto simp: holds_def split: option.splits)
  qed (simp add: holds_def)
qed

lemma spaces_ok_untouched:
  assumes inv: "spaces_ok kr (ss, owned, w)" and same: "\<forall>x. frame_number x \<notin> free_frames (pg_frames w) \<longrightarrow> pg_mem w' x = pg_mem w x"
    and fr: "fa_invar DEFAULT_CAPACITY (pg_frames w')" "free_frames (pg_frames w') \<subseteq> free_frames (pg_frames w)"
  shows "spaces_ok kr (ss, owned, w')" "\<And>a. a \<in> set ss \<Longrightarrow> holds a (pg_mem w') = holds a (pg_mem w)" "tables (pg_mem w') kr = tables (pg_mem w) kr"
proof -
  note D = spaces_okD [OF inv]
  have un: "\<forall>x \<in> tables (pg_mem w) r. pg_mem w' x = pg_mem w x" if "tables_ok r w" for r using that same by (simp add: tables_ok_def)
  have tab: "tables_ok r w'" if "tables_ok r w" for r
    by (rule tables_ok_untouched [OF that un [OF that] fr(1)]) (use that fr(2) in \<open>auto simp: tables_ok_def\<close>)
  have kr: "pg_mem w' kr = pg_mem w kr" using un [OF D(1)] by simp
  show kt: "tables (pg_mem w') kr = tables (pg_mem w) kr" by (rule unread_view(3) [OF un [OF D(1)]])
  show h: "holds a (pg_mem w') = holds a (pg_mem w)" if "a \<in> set ss" for a
    using untouched_space(2) [OF D(4) [OF that] un [OF D(3) [OF that]] kr] .
  show "spaces_ok kr (ss, owned, w')"
  proof (rule spaces_okI)
    show "tables_ok kr w'" by (rule tab [OF D(1)])
    show "tables_ok (as_pml4 a) w'" if "a \<in> set ss" for a by (rule tab [OF D(3) [OF that]])
    show "space_ok kr a (pg_mem w')" if "a \<in> set ss" for a by (rule untouched_space(1) [OF D(4) [OF that] un [OF D(3) [OF that]] kr])
    show "page_aligned f \<and> f \<notin> tables (pg_mem w') kr \<and> frame_number f \<notin> free_frames (pg_frames w') \<and> f \<notin> owned"
      if "a \<in> set ss" "holds a (pg_mem w') p = Some f" for a p f using D(6) [OF that(1), of p f] h [OF that(1)] that(2) fr(2) kt by auto
    show "page_aligned f \<and> f \<notin> tables (pg_mem w') kr \<and> frame_number f \<notin> free_frames (pg_frames w')" if "f \<in> owned" for f using D(7) [OF that] kt fr(2) by auto
    show "i = j \<and> p = q" if "i < length ss" "j < length ss" "holds (ss ! i) (pg_mem w') p = Some f" "holds (ss ! j) (pg_mem w') q = Some f" for i j p q f
      using D(5) [OF that(1,2), of p f q] h [of "ss ! i"] h [of "ss ! j"] that by simp
  qed (use D(2) kr in simp)
qed

lemma spaces_ok_append:
  assumes inv: "spaces_ok kr (ss, owned, w)" and a: "tables_ok (as_pml4 a) w" "space_ok kr a (pg_mem w)"
    and h: "\<And>p f. holds a (pg_mem w) p = Some f \<Longrightarrow> p = [] \<and> f = c"
    and c: "page_aligned c" "c \<notin> tables (pg_mem w) kr" "frame_number c \<notin> free_frames (pg_frames w)" "c \<notin> owned"
    and new: "\<And>b p. b \<in> set ss \<Longrightarrow> holds b (pg_mem w) p \<noteq> Some c"
  shows "spaces_ok kr (ss @ [a], owned, w)"
proof -
  note D = spaces_okD [OF inv]
  have hi: "i < length ss \<and> holds (ss ! i) (pg_mem w) p = Some f \<or> i = length ss \<and> p = [] \<and> f = c"
    if "i < length (ss @ [a])" "holds ((ss @ [a]) ! i) (pg_mem w) p = Some f" for i p f
    using that h [of p f] by (auto simp: nth_append split: if_splits)
  show ?thesis
  proof (rule spaces_okI)
    show "i = j \<and> p = q" if "i < length (ss @ [a])" "j < length (ss @ [a])" "holds ((ss @ [a]) ! i) (pg_mem w) p = Some f"
      "holds ((ss @ [a]) ! j) (pg_mem w) q = Some f" for i j p q f
      using hi [OF that(1,3)] hi [OF that(2,4)] D(5) [of i j p f q] new [OF nth_mem, of i p] new [OF nth_mem, of j q] by blast
    show "page_aligned f \<and> f \<notin> tables (pg_mem w) kr \<and> frame_number f \<notin> free_frames (pg_frames w) \<and> f \<notin> owned"
      if "b \<in> set (ss @ [a])" "holds b (pg_mem w) p = Some f" for b p f
      using that D(6) [of b p f] h [of p f] c by auto
  qed (use D a in auto)
qed

lemma address_space_new_keeps:
  assumes inv: "spaces_ok kr (ss, owned, w)" and cur: "kernel_view kr ss current" and k: "k < PML4_ENTRY_COUNT"
    and n: "address_space_new frozen dm current k w = (res, w')"
  shows "res \<noteq> Panic" "spaces_ok kr (case res of Ok a \<Rightarrow> ss @ [a] | _ \<Rightarrow> ss, owned, w')"
    "\<And>r u. tables_ok r w \<Longrightarrow> translate (pg_mem w') r u = translate (pg_mem w) r u"
proof -
  note D = spaces_okD [OF inv]
  obtain w1 x where tk: "take_frame w = (w1, x)" by (cases "take_frame w")
  note T = take_frame_cases [OF D(1) tk]
  have inv1: "fa_invar DEFAULT_CAPACITY (pg_frames w1)" using T(2) by (simp add: tables_ok_def)
  have w1: "spaces_ok kr (ss, owned, w1)" by (rule spaces_ok_untouched(1) [OF inv _ inv1 T(3)]) (simp add: T(1))
  have untouched: "translate (pg_mem w2) r u = translate (pg_mem w) r u"
    if "tables_ok r w" "\<And>x. frame_number x \<notin> free_frames (pg_frames w) \<Longrightarrow> pg_mem w2 x = pg_mem w x" for w2 r u
    by (rule unread_translate) (use that in \<open>simp_all add: tables_ok_def\<close>)
  have "res \<noteq> Panic \<and> spaces_ok kr (case res of Ok a \<Rightarrow> ss @ [a] | _ \<Rightarrow> ss, owned, w') \<and> (\<forall>x. frame_number x \<notin> free_frames (pg_frames w) \<longrightarrow> pg_mem w' x = pg_mem w x)"
  proof (cases "is_shared_kernel_index k \<or> x = None")
    case True
    then show ?thesis using n inv w1 T(1) tk by (auto simp: address_space_new_def split: if_splits)
  next
    case False
    then obtain c where x: "x = Some c" by auto
    note C = T(4) [OF x]
    have k': "k < KERNEL_PML4_FIRST_INDEX" using False k by (auto simp: is_shared_kernel_index_def)
    have curkr: "pg_mem w current i = pg_mem w kr i" if "is_shared_kernel_index i" for i
      using cur D(4) that by (auto simp: kernel_view_def space_ok_def)
    have curtab: "tables_ok current w" using cur D(1,3) by (auto simp: kernel_view_def)
    have ne: "c \<noteq> current" "c \<noteq> kr" using C curtab D(1) root_in_tables [of current "pg_mem w"] root_in_tables [of kr "pg_mem w"] by (auto simp: tables_ok_def)
    let ?w2 = "copy_kernel_top c current w1"
    note cp = copy_kernel_top_mem [OF ne(1), of w1, unfolded T(1)]
    have inv_c: "fa_invar DEFAULT_CAPACITY (pg_frames ww)" "frame_number c \<notin> free_frames (pg_frames ww)" if "pg_frames ww = pg_frames w1" for ww
      using that inv1 C by simp_all
    have disc: "res \<noteq> Panic \<and> (\<exists>e. res = Err e) \<and> spaces_ok kr (ss, owned, w') \<and> (\<forall>x. frame_number x \<notin> free_frames (pg_frames w) \<longrightarrow> pg_mem w' x = pg_mem w x)"
      if d: "discard c e ww = (res, w')" and wf: "pg_frames ww = pg_frames w1" and wm: "\<And>x. frame_number x \<notin> free_frames (pg_frames w) \<Longrightarrow> pg_mem ww x = pg_mem w x" for e ww
    proof -
      obtain w3 where w3: "put_frame c ww = Some w3" "pg_mem w3 = pg_mem ww" "fa_invar DEFAULT_CAPACITY (pg_frames w3)"
        "free_frames (pg_frames w3) \<subseteq> insert (frame_number c) (free_frames (pg_frames ww))"
        by (rule put_frame_facts [OF inv_c [OF wf]])
      have r: "res = Err e" "w' = w3" using d w3(1) by (auto simp: discard_def)
      have same: "\<forall>x. frame_number x \<notin> free_frames (pg_frames w) \<longrightarrow> pg_mem w3 x = pg_mem w x" using wm w3(2) by simp
      have "free_frames (pg_frames w3) \<subseteq> free_frames (pg_frames w)" using w3(4) T(3) C by (auto simp: wf)
      then show ?thesis using spaces_ok_untouched(1) [OF inv same w3(3)] r same by auto
    qed
    have same2: "\<forall>x. frame_number x \<notin> free_frames (pg_frames w) \<longrightarrow> pg_mem ?w2 x = pg_mem w x" using C by (auto simp: cp(1))
    show ?thesis
    proof (cases "\<not> covers dm c \<or> \<not> covers dm current")
      case True
      then have "discard c Unreachable w1 = (res, w')" using n False tk x by (simp add: address_space_new_def)
      from disc [OF this refl] show ?thesis using T(1) by auto
    next
      case cov: False
      show ?thesis
      proof (cases "frozen \<noteq> 0 \<and> kernel_top_digest (kernel_top (pg_mem ?w2) c) \<noteq> frozen")
        case True
        then have "discard c KernelTopChanged ?w2 = (res, w')" using n False tk x cov by (simp add: address_space_new_def Let_def)
        from disc [OF this cp(2)] same2 show ?thesis by auto
      next
        case good: False
        let ?a = "\<lparr>as_pml4 = c, as_user_index = k, as_frames_taken = 1\<rparr>"
        have r: "res = Ok ?a" "w' = ?w2" using n False tk x cov good by (auto simp: address_space_new_def Let_def)
        have fr: "fa_invar DEFAULT_CAPACITY (pg_frames ?w2)" "free_frames (pg_frames ?w2) \<subseteq> free_frames (pg_frames w)" "frame_number c \<notin> free_frames (pg_frames ?w2)"
          using inv1 T(3) C by (simp_all add: cp(2))
        note un = spaces_ok_untouched [OF inv same2 fr(1,2)]
        have ct: "c \<notin> tables (pg_mem w) kr" "page_aligned c" using C by simp_all
        note fs = fresh_space [OF D(1) ct fr(3) cp(1) _ fr(1,2) k']
        have g: "(if i < 512 then (if is_shared_kernel_index i then pg_mem w current i else 0) else pg_mem w c i) =
            (if is_shared_kernel_index i then pg_mem w kr i else 0)" if "i < 512" for i using that curkr by simp
        have "spaces_ok kr (ss @ [?a], owned, ?w2)"
        proof (rule spaces_ok_append [OF un(1), of _ c])
          show "tables_ok (as_pml4 ?a) ?w2" using fs(1) g by simp
          show "space_ok kr ?a (pg_mem ?w2)" using fs(2) g by simp
          show "p = [] \<and> f = c" if "holds ?a (pg_mem ?w2) p = Some f" for p f using that fs(3) [OF g, of 1 p] by (simp split: if_splits)
          show "page_aligned c" "c \<notin> tables (pg_mem ?w2) kr" "frame_number c \<notin> free_frames (pg_frames ?w2)" using C fr(3) un(3) by simp_all
          show "c \<notin> owned" using C D(7) [of c] by auto
          show "holds b (pg_mem ?w2) p \<noteq> Some c" if "b \<in> set ss" for b p using un(2) [OF that] D(6) [OF that, of p c] C by auto
        qed
        then show ?thesis using r same2 by simp
      qed
    qed
  qed
  then show "res \<noteq> Panic" "spaces_ok kr (case res of Ok a \<Rightarrow> ss @ [a] | _ \<Rightarrow> ss, owned, w')"
    "\<And>r u. tables_ok r w \<Longrightarrow> translate (pg_mem w') r u = translate (pg_mem w) r u" using untouched by auto
qed

subsection \<open>Taking a space down\<close>

lemma detach_loop_absent:
  "\<forall>i \<in> set is. \<not> is_present (pg_mem w r i) \<Longrightarrow> detach_loop r is w = ([], w)"
  by (induction "is") auto

lemma detach_loop_one:
  assumes "distinct is" "\<forall>i \<in> set is. i \<noteq> k \<longrightarrow> \<not> is_present (pg_mem w r i)" "k \<in> set is"
  shows "detach_loop r is w =
    (let e = pg_mem w r k in
     if is_present e then (pdpt_frames (pg_mem w) (table_address e) @ [table_address e], write_entry r k 0 w) else ([], w))"
  using assms
proof (induction "is")
  case (Cons i "is")
  show ?case
  proof (cases "i = k")
    case True
    have "detach_loop r is (write_entry r k 0 w) = ([], write_entry r k 0 w)" "detach_loop r is w = ([], w)"
      using Cons.prems True by (auto intro!: detach_loop_absent simp: write_entry_def split: if_splits)
    then show ?thesis using True by (simp add: Let_def)
  qed (use Cons in \<open>simp add: Let_def\<close>)
qed simp

definition below :: "address_space \<Rightarrow> table_mem \<Rightarrow> nat list \<Rightarrow> phys_addr set" where
  "below a m p = {f. \<exists>s. s \<noteq> [] \<and> holds a m (s @ p) = Some f}"

lemma holds_last: "holds a m (s @ p) = Some f \<Longrightarrow> p \<noteq> [] \<Longrightarrow> last p = as_user_index a \<and> length (s @ p) \<le> 4"
  by (auto simp: holds_def split: if_splits)

lemma set_pt_frames:
  assumes "length p = 3" "last p = as_user_index a" "table_at m (as_pml4 a) p = Some t"
  shows "set (pt_frames m t) = below a m p"
proof (intro set_eqI iffI)
  fix f assume "f \<in> set (pt_frames m t)"
  then obtain i where i: "i < 512" "is_present (m t i)" "\<not> is_shared (m t i)" "f = page_address_4k (m t i)"
    by (auto simp: pt_frames_def ENTRIES_PER_TABLE_def)
  have "holds a m ([i] @ p) = Some f" using assms i by (auto simp: holds_def leaf_at_def entry_at_def)
  then show "f \<in> below a m p" unfolding below_def by blast
next
  fix f assume "f \<in> below a m p"
  then obtain s where s: "s \<noteq> []" "holds a m (s @ p) = Some f" by (auto simp: below_def)
  have "p \<noteq> []" using assms(1) by auto
  then have "length (s @ p) \<le> 4" using holds_last [OF s(2)] by simp
  then obtain i where "s = [i]" using s(1) assms(1) by (cases s) auto
  then show "f \<in> set (pt_frames m t)" using s(2) assms
    by (auto simp: holds_def leaf_at_def entry_at_def pt_frames_def ENTRIES_PER_TABLE_def Let_def split: if_splits)
qed

lemma below_step:
  assumes p: "0 < length p" "length p \<le> 2" "last p = as_user_index a" "table_at m (as_pml4 a) p = Some t"
  shows "below a m p = (\<Union>i \<in> set (filter (\<lambda>i. is_present (m t i) \<and> \<not> is_huge (m t i)) [0 ..< 512]). insert (table_address (m t i)) (below a m (i # p)))"
proof (intro set_eqI iffI)
  fix f assume "f \<in> below a m p"
  then obtain s where s: "s \<noteq> []" "holds a m (s @ p) = Some f" by (auto simp: below_def)
  obtain s' i where s': "s = s' @ [i]" using s(1) by (metis rev_exhaust)
  have sp: "s @ p = s' @ i # p" using s' by simp
  have "table_at m (as_pml4 a) (i # p) \<noteq> None"
  proof
    assume n: "table_at m (as_pml4 a) (i # p) = None"
    have "through (i # p) (s @ p)" using sp by (auto simp: through_def)
    then have "table_at m (as_pml4 a) (s @ p) = None" by (rule table_at_below_None [OF n])
    moreover have "leaf_at m (as_pml4 a) (s @ p) = None" if "length (s @ p) = 4"
    proof (rule leaf_at_below_None [OF n \<open>through (i # p) (s @ p)\<close>])
      show "s @ p \<noteq> i # p" using that p(2) by auto
    qed
    ultimately show False using s(2) by (auto simp: holds_def split: if_splits)
  qed
  then have i: "i < 512" "is_present (m t i)" "\<not> is_huge (m t i)" using p(4) by (auto simp: child_of_def split: if_splits)
  have "f = table_address (m t i) \<or> f \<in> below a m (i # p)"
  proof (cases "s' = []")
    case True
    then show ?thesis using s(2) s' p i by (auto simp: holds_def child_of_def split: if_splits)
  next
    case False
    then show ?thesis using s(2) unfolding sp below_def by blast
  qed
  then show "f \<in> (\<Union>i \<in> set (filter (\<lambda>i. is_present (m t i) \<and> \<not> is_huge (m t i)) [0 ..< 512]). insert (table_address (m t i)) (below a m (i # p)))" using i by auto
next
  fix f assume "f \<in> (\<Union>i \<in> set (filter (\<lambda>i. is_present (m t i) \<and> \<not> is_huge (m t i)) [0 ..< 512]). insert (table_address (m t i)) (below a m (i # p)))"
  then obtain i where i: "i < 512" "is_present (m t i)" "\<not> is_huge (m t i)" "f = table_address (m t i) \<or> f \<in> below a m (i # p)" by auto
  have "holds a m ([i] @ p) = Some (table_address (m t i))" using p i by (auto simp: holds_def child_of_def)
  moreover have "f \<in> below a m (i # p) \<Longrightarrow> \<exists>s. s \<noteq> [] \<and> holds a m (s @ p) = Some f"
  proof -
    assume "f \<in> below a m (i # p)"
    then obtain s where "holds a m ((s @ [i]) @ p) = Some f" by (auto simp: below_def)
    then show ?thesis by blast
  qed
  ultimately show "f \<in> below a m p" using i(4) unfolding below_def by blast
qed

lemma distinct_concat_map:
  assumes "distinct is" "\<forall>i \<in> set is. distinct (g i)" "\<forall>i \<in> set is. \<forall>j \<in> set is. i \<noteq> j \<longrightarrow> set (g i) \<inter> set (g j) = {}"
  shows "distinct (concat (map g is))"
  using assms by (induction "is") auto

definition inj_holds :: "address_space \<Rightarrow> table_mem \<Rightarrow> bool" where
  "inj_holds a m \<longleftrightarrow> (\<forall>p q f. holds a m p = Some f \<longrightarrow> holds a m q = Some f \<longrightarrow> p = q)"

lemma below_disjoint:
  assumes "inj_holds a m" "i \<noteq> j"
  shows "f \<in> below a m (i # p) \<Longrightarrow> f \<notin> below a m (j # p)" "holds a m (i # p) = Some f \<Longrightarrow> f \<notin> below a m (j # p)"
    "holds a m (i # p) = Some f \<Longrightarrow> holds a m (j # p) \<noteq> Some f"
proof -
  note inj = assms(1) [unfolded inj_holds_def, rule_format]
  show "f \<in> below a m (i # p) \<Longrightarrow> f \<notin> below a m (j # p)"
  proof
    assume "f \<in> below a m (i # p)" "f \<in> below a m (j # p)"
    then obtain s s' where "holds a m (s @ i # p) = Some f" "holds a m (s' @ j # p) = Some f" by (auto simp: below_def)
    then have "s @ i # p = s' @ j # p" by (rule inj)
    then have "(s @ [i]) @ p = (s' @ [j]) @ p" by simp
    then show False using assms(2) by (simp only: append_same_eq) simp
  qed
  show "holds a m (i # p) = Some f \<Longrightarrow> f \<notin> below a m (j # p)"
  proof
    assume "holds a m (i # p) = Some f" "f \<in> below a m (j # p)"
    then obtain s' where "holds a m ([] @ i # p) = Some f" "holds a m (s' @ j # p) = Some f" by (auto simp: below_def)
    then have "[] @ i # p = s' @ j # p" by (rule inj)
    then have "([] @ [i]) @ p = (s' @ [j]) @ p" by simp
    then show False using assms(2) by (simp only: append_same_eq) simp
  qed
  show "holds a m (i # p) = Some f \<Longrightarrow> holds a m (j # p) \<noteq> Some f" using inj [of "i # p" f "j # p"] assms(2) by auto
qed

lemma below_self: "inj_holds a m \<Longrightarrow> holds a m p = Some f \<Longrightarrow> f \<notin> below a m p"
  by (auto simp: inj_holds_def below_def)

lemma distinct_pt_frames:
  assumes "inj_holds a m" "length p = 3" "last p = as_user_index a" "table_at m (as_pml4 a) p = Some t"
  shows "distinct (pt_frames m t)"
proof -
  have "holds a m (i # p) = Some (page_address_4k (m t i))" if "i < 512" "is_present (m t i)" "\<not> is_shared (m t i)" for i
    using assms that by (auto simp: holds_def leaf_at_def entry_at_def)
  then have "inj_on (\<lambda>i. page_address_4k (m t i)) (set (filter (\<lambda>i. is_present (m t i) \<and> \<not> is_shared (m t i)) [0 ..< 512]))"
    using assms(1) unfolding inj_on_def inj_holds_def by (metis (mono_tags, lifting) atLeastLessThan_iff list.inject mem_Collect_eq set_filter set_upt)
  then show ?thesis by (simp add: pt_frames_def ENTRIES_PER_TABLE_def distinct_map del: set_filter)
qed

text \<open>One level above another: what is collected below an entry, and then the table itself.\<close>

lemma level_frames:
  assumes inj: "inj_holds a m" and p: "0 < length p" "length p \<le> 2" "last p = as_user_index a" "table_at m (as_pml4 a) p = Some t"
    and sub: "\<forall>i c. table_at m (as_pml4 a) (i # p) = Some c \<longrightarrow> set (g c) = below a m (i # p) \<and> distinct (g c)"
  defines "l \<equiv> concat (map (\<lambda>i. let c = table_address (m t i) in g c @ [c]) (filter (\<lambda>i. is_present (m t i) \<and> \<not> is_huge (m t i)) [0 ..< ENTRIES_PER_TABLE]))"
  shows "set l = below a m p" "distinct l"
proof -
  let ?is = "filter (\<lambda>i. is_present (m t i) \<and> \<not> is_huge (m t i)) [0 ..< 512]"
  have i: "holds a m (i # p) = Some (table_address (m t i))" "set (g (table_address (m t i))) = below a m (i # p)" "distinct (g (table_address (m t i)))" if "i \<in> set ?is" for i
  proof -
    have "table_at m (as_pml4 a) (i # p) = Some (table_address (m t i))" using that p(4) by (simp add: child_of_def)
    then show "holds a m (i # p) = Some (table_address (m t i))" "set (g (table_address (m t i))) = below a m (i # p)" "distinct (g (table_address (m t i)))"
      using sub p by (auto simp: holds_def simp del: table_at.simps)
  qed
  show "set l = below a m p" unfolding l_def below_step [OF p] ENTRIES_PER_TABLE_def using i(2) by (auto simp: Let_def)
  show "distinct l" unfolding l_def ENTRIES_PER_TABLE_def
  proof (rule distinct_concat_map)
    show "\<forall>i \<in> set ?is. distinct (let c = table_address (m t i) in g c @ [c])"
      using i below_self [OF inj] by (simp add: Let_def)
    show "\<forall>i \<in> set ?is. \<forall>j \<in> set ?is. i \<noteq> j \<longrightarrow>
      set (let c = table_address (m t i) in g c @ [c]) \<inter> set (let c = table_address (m t j) in g c @ [c]) = {}"
    proof (intro ballI impI)
      fix i j assume ij: "i \<in> set ?is" "j \<in> set ?is" "i \<noteq> j"
      show "set (let c = table_address (m t i) in g c @ [c]) \<inter> set (let c = table_address (m t j) in g c @ [c]) = {}"
        using below_disjoint [OF inj ij(3)] below_disjoint [OF inj ij(3) [symmetric]] i(1,2) [OF ij(1)] i(1,2) [OF ij(2)] by (auto simp: Let_def)
    qed
  qed simp
qed


lemma detach_effect:
  assumes ok: "space_ok kr a (pg_mem w)" and top: "top_ok (pg_mem w) (as_pml4 a)" and inj: "inj_holds a (pg_mem w)" and d: "detach a cap w = ((fs, leaked), w')"
  obtains all where "fs = take cap all" "leaked = length all - cap" "distinct all" "set all = {f. \<exists>p. holds a (pg_mem w) p = Some f}"
    "pg_frames w' = pg_frames w" "\<And>x. x \<noteq> as_pml4 a \<Longrightarrow> pg_mem w' x = pg_mem w x"
proof -
  let ?m = "pg_mem w" and ?r = "as_pml4 a" and ?k = "as_user_index a"
  let ?e = "?m ?r ?k"
  obtain gs w1 where l: "detach_loop ?r [0 ..< KERNEL_PML4_FIRST_INDEX] w = (gs, w1)" by fastforce
  have k: "?k < KERNEL_PML4_FIRST_INDEX" "?k < 512" using ok by (auto simp: space_ok_def KERNEL_PML4_FIRST_INDEX_def)
  have absent: "\<forall>i \<in> set [0 ..< KERNEL_PML4_FIRST_INDEX]. i \<noteq> ?k \<longrightarrow> \<not> is_present (?m ?r i)" using ok by (simp add: space_ok_def)
  have "distinct [0 ..< KERNEL_PML4_FIRST_INDEX]" "?k \<in> set [0 ..< KERNEL_PML4_FIRST_INDEX]" using k by simp_all
  note one = detach_loop_one [OF this(1) absent this(2), unfolded l Let_def]
  have root: "holds a ?m [] = Some ?r" by (simp add: holds_def)
  have hk: "{f. \<exists>p. holds a ?m p = Some f} = insert ?r (set_option (holds a ?m [?k]) \<union> below a ?m [?k])"
  proof (intro set_eqI iffI; clarsimp)
    fix f p assume h: "holds a ?m p = Some f" and "f \<noteq> ?r" "f \<notin> below a ?m [?k]"
    moreover have "p = [] \<or> last p = ?k" using h by (auto simp: holds_def split: if_splits)
    ultimately show "holds a ?m [?k] = Some f"
      by (cases p rule: rev_cases; cases "butlast p = []") (auto simp: root below_def)
  next
    fix f assume "f = ?r \<or> holds a ?m [?k] = Some f \<or> f \<in> below a ?m [?k]"
    then show "\<exists>p. holds a ?m p = Some f" using root by (auto simp: below_def)
  qed
  have gs: "distinct gs \<and> set gs = set_option (holds a ?m [?k]) \<union> below a ?m [?k] \<and> pg_frames w1 = pg_frames w \<and> (\<forall>x. x \<noteq> ?r \<longrightarrow> pg_mem w1 x = ?m x)"
  proof (cases "is_present ?e")
    case False
    have n: "table_at ?m ?r [?k] = None" using False by (simp add: child_of_def)
    have "holds a ?m (s @ [?k]) = None" for s
    proof -
      have t: "through [?k] (s @ [?k])" by (auto simp: through_def)
      have "leaf_at ?m ?r (s @ [?k]) = None" if "s \<noteq> []" by (rule leaf_at_below_None [OF n t]) (use that in simp)
      then show ?thesis using table_at_below_None [OF n t] by (cases "s = []") (auto simp: holds_def)
    qed
    from this [of "[]"] this show ?thesis using one False by (auto simp: below_def)
  next
    case True
    let ?t = "table_address ?e"
    have nh: "\<not> is_huge ?e" using True top k by (simp add: top_ok_def)
    have t: "table_at ?m ?r [?k] = Some ?t" using True nh k by (simp add: child_of_def)
    have pd: "set (pd_frames ?m c) = below a ?m (i # [?k]) \<and> distinct (pd_frames ?m c)" if c: "table_at ?m ?r (i # [?k]) = Some c" for i c
    proof -
      have "set (pt_frames ?m c') = below a ?m (j # i # [?k]) \<and> distinct (pt_frames ?m c')" if "table_at ?m ?r (j # i # [?k]) = Some c'" for j c'
        using set_pt_frames [OF _ _ that] distinct_pt_frames [OF inj _ _ that] by simp
      then show ?thesis using level_frames [OF inj _ _ _ c, of "pt_frames ?m"] unfolding pd_frames_def by simp
    qed
    have pdpt: "set (pdpt_frames ?m ?t) = below a ?m [?k]" "distinct (pdpt_frames ?m ?t)"
      using level_frames [OF inj _ _ _ t, of "pd_frames ?m"] pd unfolding pdpt_frames_def by simp_all
    have "holds a ?m [?k] = Some ?t" using t by (simp add: holds_def del: table_at.simps)
    then show ?thesis using one True pdpt below_self [OF inj] by (auto simp: write_entry_def)
  qed
  have only: "p = []" if "holds a ?m p = Some ?r" for p using inj that root unfolding inj_holds_def by blast
  have r: "?r \<notin> set gs"
  proof
    assume "?r \<in> set gs"
    then have "holds a ?m [?k] = Some ?r \<or> (\<exists>s. holds a ?m (s @ [?k]) = Some ?r)" using gs by (auto simp: below_def)
    then show False using only by blast
  qed
  show thesis
  proof (rule that [of "gs @ [?r]"])
    show "fs = take cap (gs @ [?r])" "leaked = length (gs @ [?r]) - cap" "pg_frames w' = pg_frames w" "\<And>x. x \<noteq> ?r \<Longrightarrow> pg_mem w' x = ?m x"
      using d l gs by (auto simp: detach_def Let_def)
    show "distinct (gs @ [?r])" using gs r by simp
    show "set (gs @ [?r]) = {f. \<exists>p. holds a ?m p = Some f}" using gs hk by simp
  qed
qed

lemma detach_keeps_spaces:
  assumes inv: "spaces_ok kr (ss, owned, w)" and i: "i < length ss" and d: "detach (ss ! i) cap w = ((fs, leaked), w')"
  shows "spaces_ok kr (take i ss @ drop (Suc i) ss, owned \<union> set fs, w')"
proof -
  note D = spaces_okD [OF inv]
  let ?a = "ss ! i" and ?ss = "take i ss @ drop (Suc i) ss"
  have a: "?a \<in> set ss" using i by simp
  have inj: "inj_holds ?a (pg_mem w)" unfolding inj_holds_def using D(5) [OF i i] by blast
  have top: "top_ok (pg_mem w) (as_pml4 ?a)" by (rule tables_ok_top [OF D(3) [OF a]])
  obtain all where all: "fs = take cap all" "set all = {f. \<exists>p. holds ?a (pg_mem w) p = Some f}" "pg_frames w' = pg_frames w"
    "\<And>x. x \<noteq> as_pml4 ?a \<Longrightarrow> pg_mem w' x = pg_mem w x"
    by (rule detach_effect [OF D(4) [OF a] top inj d]) blast
  have fs: "\<exists>p. holds ?a (pg_mem w) p = Some f" if "f \<in> set fs" for f using that all(1,2) by (auto dest: in_set_takeD)
  define idx where "idx j = (if j < i then j else Suc j)" for j
  have idx: "?ss ! j = ss ! idx j" "idx j < length ss" "idx j \<noteq> i" if "j < length ?ss" for j
    using that i by (auto simp: idx_def nth_append min_def)
  have idx_inj: "idx j = idx l \<Longrightarrow> j = l" for j l by (auto simp: idx_def split: if_splits)
  have mem: "\<exists>j < length ss. j \<noteq> i \<and> b = ss ! j" if "b \<in> set ?ss" for b using that idx by (metis in_set_conv_nth)
  have root: "holds ?a (pg_mem w) [] = Some (as_pml4 ?a)" by (simp add: holds_def)
  have kr: "\<forall>x \<in> tables (pg_mem w) kr. pg_mem w' x = pg_mem w x" using D(6) [OF a root] all(4) by metis
  have other: "\<forall>x \<in> tables (pg_mem w) (as_pml4 (ss ! j)). pg_mem w' x = pg_mem w x" if j: "j < length ss" "j \<noteq> i" for j
  proof
    fix x assume x: "x \<in> tables (pg_mem w) (as_pml4 (ss ! j))"
    have "x \<noteq> as_pml4 ?a" using space_tables [OF D(4) x] D(5) [OF i j(1) root] D(6) [OF a root] j by fastforce
    then show "pg_mem w' x = pg_mem w x" by (rule all(4))
  qed
  have krm: "pg_mem w' kr = pg_mem w kr" using kr by simp
  have inv': "fa_invar DEFAULT_CAPACITY (pg_frames w')" using D(1) all(3) by (simp add: tables_ok_def)
  have keep: "space_ok kr b (pg_mem w') \<and> holds b (pg_mem w') = holds b (pg_mem w) \<and> tables_ok (as_pml4 b) w'" if b: "b \<in> set ?ss" for b
  proof -
    obtain j where j: "j < length ss" "j \<noteq> i" "b = ss ! j" using mem [OF b] by blast
    have bs: "b \<in> set ss" using j by simp
    note un = other [OF j(1,2), folded j(3)]
    have "tables_ok (as_pml4 b) w'" by (rule tables_ok_untouched [OF D(3) [OF bs] un inv']) (use D(3) [OF bs] all(3) in \<open>simp add: tables_ok_def\<close>)
    then show ?thesis using untouched_space [OF D(4) [OF bs] un krm] by simp
  qed
  have ktab: "tables (pg_mem w') kr = tables (pg_mem w) kr" by (rule unread_view(3) [OF kr])
  show ?thesis
  proof (rule spaces_okI)
    show "tables_ok kr w'" by (rule tables_ok_untouched [OF D(1) kr inv']) (use D(1) all(3) in \<open>simp add: tables_ok_def\<close>)
    show "\<And>j. is_shared_kernel_index j \<Longrightarrow> \<not> (is_present (pg_mem w' kr j) \<and> bit (pg_mem w' kr j) 2)" using D(2) krm by simp
    show "\<And>b. b \<in> set ?ss \<Longrightarrow> tables_ok (as_pml4 b) w'" "\<And>b. b \<in> set ?ss \<Longrightarrow> space_ok kr b (pg_mem w')" using keep by blast+
    show "j = l \<and> p = q" if jl: "j < length ?ss" "l < length ?ss" and h: "holds (?ss ! j) (pg_mem w') p = Some f" "holds (?ss ! l) (pg_mem w') q = Some f" for j l p q f
    proof -
      have "holds (ss ! idx j) (pg_mem w) p = Some f" "holds (ss ! idx l) (pg_mem w) q = Some f"
        using h keep [OF nth_mem [OF jl(1)]] keep [OF nth_mem [OF jl(2)]] idx(1) [OF jl(1)] idx(1) [OF jl(2)] by simp_all
      then show ?thesis using D(5) [OF idx(2) [OF jl(1)] idx(2) [OF jl(2)]] idx_inj by blast
    qed
    show "page_aligned f \<and> f \<notin> tables (pg_mem w') kr \<and> frame_number f \<notin> free_frames (pg_frames w') \<and> f \<notin> owned \<union> set fs"
      if b: "b \<in> set ?ss" "holds b (pg_mem w') p = Some f" for b p f
    proof -
      obtain j where j: "j < length ss" "j \<noteq> i" "b = ss ! j" using mem [OF b(1)] by blast
      have h: "holds (ss ! j) (pg_mem w) p = Some f" using keep [OF b(1)] b(2) j(3) by simp
      have "f \<notin> set fs" using fs [of f] D(5) [OF i j(1)] h j(2) by blast
      then show ?thesis using D(6) [OF nth_mem [OF j(1)] h] ktab all(3) by simp
    qed
    show "page_aligned f \<and> f \<notin> tables (pg_mem w') kr \<and> frame_number f \<notin> free_frames (pg_frames w')" if "f \<in> owned \<union> set fs" for f
      using that D(7) [of f] fs [of f] D(6) [OF a, of _ f] ktab all(3) by auto
  qed
qed

subsection \<open>Runs\<close>

text \<open>What the kernel does with address spaces: it takes frames and gives back frames it owns, makes spaces from
  the tables it runs on, maps frames it owns, and takes spaces down. A mapped page belongs to the space from then
  on unless it is shared, and what is collected when the space goes belongs to the kernel again.\<close>

inductive space_step :: "phys_addr \<Rightarrow> direct_map \<Rightarrow> spaces \<Rightarrow> spaces \<Rightarrow> bool" for kr dm where
  space_take: "take_frame w = (w', x) \<Longrightarrow> space_step kr dm (ss, owned, w) (ss, owned \<union> set_option x, w')"
| space_put: "f \<in> owned \<Longrightarrow> put_frame f w = Some w' \<Longrightarrow> space_step kr dm (ss, owned, w) (ss, owned - {f}, w')"
| space_new: "kernel_view kr ss current \<Longrightarrow> k < PML4_ENTRY_COUNT \<Longrightarrow> address_space_new frozen dm current k w = (res, w') \<Longrightarrow>
    space_step kr dm (ss, owned, w) (case res of Ok a \<Rightarrow> ss @ [a] | _ \<Rightarrow> ss, owned, w')"
| space_map: "i < length ss \<Longrightarrow> is_canonical (virt_raw v) \<Longrightarrow> frame \<in> owned \<Longrightarrow> map_user_4kib dm v frame perms (ss ! i, w) = (res, a', w') \<Longrightarrow>
    space_step kr dm (ss, owned, w) (ss[i := a'], if res = Ok () \<and> \<not> perm_shared perms then owned - {frame} else owned, w')"
| space_detach: "i < length ss \<Longrightarrow> detach (ss ! i) cap w = ((fs, leaked), w') \<Longrightarrow>
    space_step kr dm (ss, owned, w) (take i ss @ drop (Suc i) ss, owned \<union> set fs, w')"

definition spaces_booted :: "phys_addr \<Rightarrow> paging \<Rightarrow> bool" where
  "spaces_booted kr w \<longleftrightarrow> tables_ok kr w \<and> (\<forall>i. is_shared_kernel_index i \<longrightarrow> \<not> (is_present (pg_mem w kr i) \<and> bit (pg_mem w kr i) 2))"

lemma space_step_ok: "space_step kr dm s s' \<Longrightarrow> spaces_ok kr s \<Longrightarrow> spaces_ok kr s'"
proof (induction rule: space_step.induct)
  case (space_take w w' x ss owned)
  then show ?case using take_frame_keeps_spaces by blast
next
  case (space_put f owned w w' ss)
  then show ?case using put_frame_keeps_spaces by blast
next
  case (space_new ss current k frozen w res w' owned)
  then show ?case using address_space_new_keeps(2) by blast
next
  case (space_map i ss v frame owned perms w res a' w')
  then show ?case using map_user_keeps_spaces(1) by blast
next
  case (space_detach i ss cap w fs leaked w' owned)
  then show ?case using detach_keeps_spaces by blast
qed

lemma space_run_ok:
  assumes "(space_step kr dm)\<^sup>*\<^sup>* ([], {}, w0) (ss, owned, w)" "spaces_booted kr w0"
  shows "spaces_ok kr (ss, owned, w)"
proof -
  have start: "spaces_ok kr ([], {}, w0)" using assms(2) by (simp add: spaces_ok_def spaces_booted_def)
  from assms(1) have "spaces_ok kr ([], {}, w0) \<longrightarrow> spaces_ok kr (ss, owned, w)"
    by (induction rule: rtranclp_induct2 [where r = "\<lambda>x y. space_step kr dm x y"]) (auto intro: space_step_ok)
  then show ?thesis using start by simp
qed

lemma space_ok_leaf:
  assumes "space_ok kr a m"
  shows "q \<noteq> [] \<Longrightarrow> length q \<le> 4 \<Longrightarrow> last q = as_user_index a \<Longrightarrow> leaf_at m (as_pml4 a) q = Some e \<Longrightarrow> length q = 4 \<and> \<not> (bit e 1 \<and> \<not> bit e 63)"
  using assms unfolding space_ok_def by blast

text \<open>A short run: a frame is taken, a space is made and the frame is mapped in it.\<close>

definition sample_dm :: direct_map where
  "sample_dm = \<lparr>dm_base = VirtAddr 0xFFFF800000000000, dm_length = 0x1000000\<rparr>"

definition sample_after :: "nat \<Rightarrow> paging" where
  "sample_after n = \<lparr>pg_mem = (\<lambda>_ _. 0), pg_frames = \<lparr>fa_ranges = [\<lparr>start_frame = n, frame_count = 2000 - n\<rparr>]\<rparr>\<rparr>"

definition sample_space :: address_space where
  "sample_space = \<lparr>as_pml4 = PhysAddr 0x4000, as_user_index = 0, as_frames_taken = 1\<rparr>"

lemma sample_take: "take_frame sample_paging = (sample_after 4, Some (PhysAddr 0x3000))"
  by (simp add: sample_paging_def sample_after_def eval_tables)

lemma sample_new: "address_space_new 0 sample_dm (PhysAddr 0x1000) 0 (sample_after 4) = (Ok sample_space, sample_after 5)"
proof -
  have tk: "take_frame (sample_after 4) = (sample_after 5, Some (PhysAddr 0x4000))" by (simp add: sample_after_def eval_tables)
  have "pg_mem (copy_kernel_top (PhysAddr 0x4000) (PhysAddr 0x1000) (sample_after 5)) = (\<lambda>_ _. 0)"
    "pg_frames (copy_kernel_top (PhysAddr 0x4000) (PhysAddr 0x1000) (sample_after 5)) = pg_frames (sample_after 5)"
    by (simp_all add: copy_kernel_top_mem sample_after_def fun_eq_iff)
  then have "copy_kernel_top (PhysAddr 0x4000) (PhysAddr 0x1000) (sample_after 5) = sample_after 5" by (simp add: sample_after_def)
  then show ?thesis
    by (simp add: address_space_new_def tk is_shared_kernel_index_def KERNEL_PML4_FIRST_INDEX_def covers_def sample_dm_def sample_space_def)
qed

lemma sample_booted: "spaces_booted (PhysAddr 0x1000) sample_paging"
  using sample_paging_ok by (simp add: spaces_booted_def sample_paging_def)

lemma sample_run: "(space_step (PhysAddr 0x1000) sample_dm)\<^sup>*\<^sup>* ([], {}, sample_paging) ([sample_space], {PhysAddr 0x3000}, sample_after 5)"
proof -
  let ?step = "space_step (PhysAddr 0x1000) sample_dm"
  have "?step ([], {}, sample_paging) ([], {PhysAddr 0x3000}, sample_after 4)" using space_take [OF sample_take, of "PhysAddr 0x1000" sample_dm "[]" "{}"] by simp
  moreover have "?step ([], {PhysAddr 0x3000}, sample_after 4) ([sample_space], {PhysAddr 0x3000}, sample_after 5)"
    using space_new [OF _ _ sample_new, of "PhysAddr 0x1000" "[]" "{PhysAddr 0x3000}"] by (simp add: kernel_view_def PML4_ENTRY_COUNT_def)
  ultimately show ?thesis by (meson r_into_rtranclp rtranclp_trans)
qed

definition sample_mapped :: "(address_space_error, unit) outcome \<times> address_space \<times> paging" where
  "sample_mapped = map_user_4kib sample_dm (VirtAddr 0x400000) (PhysAddr 0x3000) user_data (sample_space, sample_after 5)"

lemma sample_mapped_facts:
  "\<exists>a' w'. sample_mapped = (Ok (), a', w') \<and> as_pml4 a' = PhysAddr 0x4000 \<and> user_may (pg_mem w') (PhysAddr 0x4000) WriteAccess (VirtAddr 0x400000)"
  by (simp add: sample_mapped_def map_user_4kib_def sample_space_def sample_after_def eval_tables eval_entry user_data_def writable_and_executable_def
      covers_def sample_dm_def bind_pg_def Let_def user_may_iff level_allows_def)

lemma sample_run_mapped:
  assumes "sample_mapped = (Ok (), a', w')"
  shows "(space_step (PhysAddr 0x1000) sample_dm)\<^sup>*\<^sup>* ([], {}, sample_paging) ([a'], {}, w')"
proof -
  have "space_step (PhysAddr 0x1000) sample_dm ([sample_space], {PhysAddr 0x3000}, sample_after 5) ([a'], {}, w')"
    using space_map [of 0 "[sample_space]" "VirtAddr 0x400000" "PhysAddr 0x3000" "{PhysAddr 0x3000}" sample_dm user_data "sample_after 5" "Ok ()" a' w' "PhysAddr 0x1000"]
      assms by (simp add: sample_mapped_def is_canonical_iff user_data_def)
  then show ?thesis using sample_run by (meson rtranclp.rtrancl_into_rtrancl)
qed

text \<open>C2: However frames are taken and given back and spaces made, filled and taken down, what a process may touch
  lies under the one entry of the root that is its own, never in the half it shares with the kernel, and no page it
  may touch is both writable and executable.\<close>

theorem user_access_is_confined:
  assumes "spaces_booted kr w0" "(space_step kr dm)\<^sup>*\<^sup>* ([], {}, w0) (ss, owned, w)" "a \<in> set ss"
    "user_may (pg_mem w) (as_pml4 a) access v"
  shows "top_index v = as_user_index a \<and>
    (\<exists>t. translate (pg_mem w) (as_pml4 a) v = Ok (Some t) \<and> \<not> (bit (tr_entry t) 1 \<and> \<not> bit (tr_entry t) 63))"
proof -
  have ok: "spaces_ok kr (ss, owned, w)" by (rule space_run_ok [OF assms(2,1)])
  note D = spaces_okD [OF ok]
  let ?m = "pg_mem w" and ?r = "as_pml4 a"
  have e1: "is_present (?m ?r (top_index v)) \<and> bit (?m ?r (top_index v)) 2"
    using assms(4) by (simp add: user_may_iff Let_def level_allows_iff)
  have sp: "space_ok kr a ?m" by (rule D(4) [OF assms(3)])
  have top: "top_index v = as_user_index a"
  proof (rule ccontr)
    assume n: "top_index v \<noteq> as_user_index a"
    show False
    proof (cases "is_shared_kernel_index (top_index v)")
      case True
      then show False using D(2) [OF True] sp e1 by (simp add: space_ok_def)
    next
      case False
      then have "top_index v < KERNEL_PML4_FIRST_INDEX" using index_bound(1) [of v] by (auto simp: is_shared_kernel_index_def PML4_ENTRY_COUNT_def)
      then show False using sp n e1 by (simp add: space_ok_def)
    qed
  qed
  obtain t where t: "translate ?m ?r v = Ok (Some t)" "tr_page_size t = Size4KiB" using user_may_translates [OF assms(4)] by blast
  have "leaf_at ?m ?r (pt_path v) = Some (tr_entry t)"
    using t tables_ok_top [OF D(3) [OF assms(3)]]
    by (auto simp: translate_by_leaves translate_leaves_def translated_small(1) translated_large(1) split: option.splits)
  then have "\<not> (bit (tr_entry t) 1 \<and> \<not> bit (tr_entry t) 63)" using space_ok_leaf [OF sp, of "pt_path v"] top by simp
  then show ?thesis using top t by blast
qed


theorem user_access_is_confined_witness:
  "\<exists>a' w'. sample_mapped = (Ok (), a', w') \<and> user_may (pg_mem w') (as_pml4 a') WriteAccess (VirtAddr 0x400000) \<and>
     top_index (VirtAddr 0x400000) = as_user_index a'"
proof -
  obtain a' w' where m: "sample_mapped = (Ok (), a', w')" "user_may (pg_mem w') (as_pml4 a') WriteAccess (VirtAddr 0x400000)" using sample_mapped_facts by auto
  then show ?thesis using user_access_is_confined [OF sample_booted sample_run_mapped [OF m(1)], of a'] by auto
qed

text \<open>C3: Mapping a page in one address space changes no translation of the kernel or of another space, and in the
  space itself only that of the page; when the call fails no translation changes. (A call that runs out of frames may
  leave new, empty tables linked in, and the frames they took.)\<close>

theorem mapping_a_page_touches_one_space:
  assumes "spaces_booted kr w0" "(space_step kr dm)\<^sup>*\<^sup>* ([], {}, w0) (ss, owned, w)"
    and "i < length ss" "is_canonical (virt_raw v)" "frame \<in> owned" "map_user_4kib dm v frame perms (ss ! i, w) = (res, a', w')"
  shows "res \<noteq> Panic \<and>
    (\<forall>r u. r = kr \<or> (\<exists>j < length ss. j \<noteq> i \<and> r = as_pml4 (ss ! j)) \<longrightarrow> translate (pg_mem w') r u = translate (pg_mem w) r u) \<and>
    (\<forall>u. is_canonical (virt_raw u) \<longrightarrow> translate (pg_mem w') (as_pml4 (ss ! i)) u =
       (if res = Ok () \<and> same_page u v then Ok (Some (small_page frame (leaf_entry frame perms SmallLeaf) u))
        else translate (pg_mem w) (as_pml4 (ss ! i)) u))"
proof -
  have ok: "spaces_ok kr (ss, owned, w)" by (rule space_run_ok [OF assms(2,1)])
  note D = spaces_okD [OF ok]
  have a: "ss ! i \<in> set ss" using assms(3) by simp
  have p: "page_aligned frame" using D(7) [OF assms(5)] by simp
  note eff = map_user_effect [OF D(3) [OF a] assms(4) p assms(6)]
  have other: "translate (pg_mem w') r u = translate (pg_mem w) r u" if r: "r = kr \<or> (\<exists>j < length ss. j \<noteq> i \<and> r = as_pml4 (ss ! j))" for r u
    by (rule unread_translate [OF map_user_keeps_spaces(2) [OF ok assms(3-6) r]]) (use r D(1,3) in \<open>auto intro: tables_ok_top\<close>)
  have own: "translate (pg_mem w') (as_pml4 (ss ! i)) u =
       (if res = Ok () \<and> same_page u v then Ok (Some (small_page frame (leaf_entry frame perms SmallLeaf) u))
        else translate (pg_mem w) (as_pml4 (ss ! i)) u)" if u: "is_canonical (virt_raw u)" for u
  proof (cases "res = Ok ()")
    case True
    obtain pt where "table_at (pg_mem w') (as_pml4 (ss ! i)) (pd_path v) = Some pt" using eff(5) True by blast
    then show ?thesis
      using translate_one_page [OF tables_ok_top [OF D(3) [OF a]] tables_ok_top [OF eff(1)], of v pt "Some (leaf_entry frame perms SmallLeaf)", OF _ _ u assms(4)]
        eff(4) True leaf_entry_facts(1) [OF p] by simp
  next
    case False
    then show ?thesis using eff(1,4) D(3) [OF a] by (simp add: translate_by_leaves tables_ok_top translate_leaves_def cong: option.case_cong)
  qed
  show ?thesis using eff(2) other own by blast
qed

theorem mapping_a_page_touches_one_space_witness:
  "\<exists>a' w'. sample_mapped = (Ok (), a', w') \<and>
     translate (pg_mem w') (PhysAddr 0x4000) (VirtAddr 0x400000) =
       Ok (Some (small_page (PhysAddr 0x3000) (leaf_entry (PhysAddr 0x3000) user_data SmallLeaf) (VirtAddr 0x400000)))"
proof -
  obtain a' w' where m: "sample_mapped = (Ok (), a', w')" using sample_mapped_facts by auto
  have c: "is_canonical (virt_raw (VirtAddr 0x400000))" by (simp add: is_canonical_iff)
  have "map_user_4kib sample_dm (VirtAddr 0x400000) (PhysAddr 0x3000) user_data ([sample_space] ! 0, sample_after 5) = (Ok (), a', w')"
    using m by (simp add: sample_mapped_def)
  from mapping_a_page_touches_one_space [OF sample_booted sample_run _ c _ this]
  have "translate (pg_mem w') (PhysAddr 0x4000) (VirtAddr 0x400000) =
       Ok (Some (small_page (PhysAddr 0x3000) (leaf_entry (PhysAddr 0x3000) user_data SmallLeaf) (VirtAddr 0x400000)))"
    using c by (simp add: same_page_def sample_space_def)
  then show ?thesis using m by blast
qed

text \<open>C4: Taking a space down collects every frame it holds once, its pages, its tables and its root, and no frame that
  is free, owned by the kernel, a table of the kernel or held by another space: giving them back frees nothing twice
  and nothing still in use. Only frames that do not fit into the caller's array are left out, and they are counted.\<close>

theorem detach_collects_each_frame_once:
  assumes "spaces_booted kr w0" "(space_step kr dm)\<^sup>*\<^sup>* ([], {}, w0) (ss, owned, w)"
    and "i < length ss" "detach (ss ! i) cap w = ((fs, leaked), w')"
  shows "distinct fs \<and> length fs + leaked = card {f. \<exists>p. holds (ss ! i) (pg_mem w) p = Some f} \<and>
    (leaked = 0 \<longrightarrow> set fs = {f. \<exists>p. holds (ss ! i) (pg_mem w) p = Some f}) \<and>
    (\<forall>f \<in> set fs. frame_number f \<notin> free_frames (pg_frames w) \<and> f \<notin> owned \<and> f \<notin> tables (pg_mem w) kr \<and>
       (\<forall>j < length ss. j \<noteq> i \<longrightarrow> (\<forall>p. holds (ss ! j) (pg_mem w) p \<noteq> Some f)))"
proof -
  have ok: "spaces_ok kr (ss, owned, w)" by (rule space_run_ok [OF assms(2,1)])
  note D = spaces_okD [OF ok]
  have a: "ss ! i \<in> set ss" using assms(3) by simp
  have inj: "inj_holds (ss ! i) (pg_mem w)" unfolding inj_holds_def using D(5) [OF assms(3,3)] by blast
  obtain all where all: "fs = take cap all" "leaked = length all - cap" "distinct all" "set all = {f. \<exists>p. holds (ss ! i) (pg_mem w) p = Some f}"
    by (rule detach_effect [OF D(4) [OF a] tables_ok_top [OF D(3) [OF a]] inj assms(4)]) blast
  have held: "\<exists>p. holds (ss ! i) (pg_mem w) p = Some f" if "f \<in> set fs" for f using that all(1,4) by (auto dest: in_set_takeD)
  have "length fs + leaked = card (set all)" using distinct_card [OF all(3)] all(1,2) by simp
  moreover have "leaked = 0 \<longrightarrow> set fs = set all" using all(1,2) by auto
  moreover have "distinct fs" using all(1,3) by simp
  moreover have "frame_number f \<notin> free_frames (pg_frames w) \<and> f \<notin> owned \<and> f \<notin> tables (pg_mem w) kr \<and>
       (\<forall>j < length ss. j \<noteq> i \<longrightarrow> (\<forall>p. holds (ss ! j) (pg_mem w) p \<noteq> Some f))" if "f \<in> set fs" for f
    using held [OF that] D(6) [OF a] D(5) [OF assms(3)] by blast
  ultimately show ?thesis unfolding all(4) by blast
qed

theorem detach_collects_each_frame_once_witness:
  "\<exists>a' w' fs leaked w''. sample_mapped = (Ok (), a', w') \<and> detach a' 16 w' = ((fs, leaked), w'') \<and> distinct fs"
proof -
  obtain a' w' where m: "sample_mapped = (Ok (), a', w')" using sample_mapped_facts by auto
  obtain fs leaked w'' where d: "detach ([a'] ! 0) 16 w' = ((fs, leaked), w'')" by (metis prod_cases3 prod.exhaust)
  have "distinct fs" using detach_collects_each_frame_once [OF sample_booted sample_run_mapped [OF m] _ d] by simp
  then show ?thesis using m d [unfolded nth_Cons_0] by blast
qed

end
