(* ===== verification/Spec2Isabelle.thy ===== *)
theory Spec2Isabelle
  imports Frame_Allocator Page_Plan Page_Build Pipe Socket Shm Quarantine Elf Heap Ext2_Create Descriptor_Counts Address_Space
begin

text \<open>
  ZaytOS: a verification library.

  ZaytOS is an x86-64 operating system in Rust. A UEFI bootloader loads the kernel, which builds its own
  page tables and direct physical map, a frame allocator and a heap, starts the other cores, schedules
  kernel and Ring 3 tasks under one big lock, mounts an ext2 image and serves Linux-shaped system calls
  on files, pipes, sockets and shared memory. The theories model the parts of it that are program logic:
  what the code computes on its own data, with every error value, early return and arithmetic panic of
  the development build. The optional cargo features, most of which plant a fault for the tests, are off.

  \<^bold>\<open>Memory.\<close> \<open>Addr\<close> (\<open>common/src/addr.rs\<close>): physical and canonical virtual addresses, the direct map
  window; round trip between the two inside the window. \<open>Memory_Map\<close> (\<open>kernel/src/memory_map.rs\<close>): the
  firmware's descriptors and their classification. \<open>Frame_Allocator\<close> (\<open>kernel/src/frame_allocator.rs\<close>):
  the sorted merged list of free ranges, built from the memory map, and the slot that lends the
  allocator to one borrower at a time; the interface \<open>frame_pool\<close> states what taking and returning
  promise, and every run over it partitions the frames into held and free ones. \<open>Page_Plan\<close>
  (\<open>kernel/src/paging/plan.rs\<close>): which ranges the kernel maps, and how they are cut into pages. The
  property at the end of this theory joins the four: whatever the allocator hands out is mapped. \<open>Heap\<close>
  (\<open>kernel/src/heap/\<close>): the first-fit heap whose list of free blocks lives in those blocks, refined to
  an abstract list of blocks. \<open>Quarantine\<close> (\<open>kernel/src/bkl.rs\<close>, \<open>quarantine.rs\<close>): the big kernel lock, the
  generations of mappings and the frames that wait until no core can hold a stale translation.

  \<^bold>\<open>Page tables.\<close> \<open>Page_Entry\<close> (\<open>kernel/src/paging/permissions.rs\<close>, \<open>image.rs\<close>, \<open>arch/x86_64/paging/entry.rs\<close>):
  permissions, the cutting of the kernel image and the bits of entries. \<open>Page_Table\<close> (\<open>table.rs\<close>, \<open>active.rs\<close>,
  \<open>verify.rs\<close>, \<open>address_space.rs\<close> and the pointer check of \<open>kernel/src/syscall.rs\<close>): the tables in memory as a
  function of a frame and an index, and every operation on them. \<open>Page_Walk\<close>: the two independent walks agree, and
  the check of a user's range is exact. \<open>Page_Tree\<close>: the tables under a root as a tree of paths, and which leaves a
  write changes. \<open>Page_Map\<close>: mapping, removing and splitting, against what the tables translate. \<open>Address_Space\<close>:
  runs of making, filling and taking down address spaces; the invariant names the path by which a space holds each
  of its frames, and gives confinement of user access, isolation of the spaces and the exactness of the collection.

  \<^bold>\<open>Tasks and their channels.\<close> \<open>Task\<close> (\<open>kernel/src/task.rs\<close>, \<open>task/scheduler.rs\<close>): states, wait sets, wake-ups,
  timers and the choice of the next task. \<open>Ring\<close> (\<open>kernel/src/ring.rs\<close>, \<open>keyboard/buffer.rs\<close>): the two byte
  rings as instances of one bounded queue, \<open>byte_queue\<close>. \<open>Pipe\<close> (\<open>kernel/src/pipe.rs\<close>) and \<open>Socket\<close>
  (\<open>kernel/src/socket.rs\<close>) put rings, reference counts and wake-ups together with the waiting loops of
  \<open>kernel/src/syscall.rs\<close>: their invariants say that nobody waits for a condition that already holds.
  \<open>Shm\<close> (\<open>kernel/src/shm.rs\<close>) owns frames of the allocator and travels over sockets.

  \<^bold>\<open>Files.\<close> \<open>Elf\<close> (\<open>common/src/elf.rs\<close>): the parser and the layout check of executables. \<open>Ext2\<close> and
  \<open>Ext2_Write\<close> (\<open>common/src/ext2.rs\<close>): the reader, which must stand any bytes, and the writer, a state
  monad over the image that keeps what was written before an error. \<open>Ext2_Account\<close>: bitmaps against
  counters, with blocks and inodes as instances of the interface \<open>unit_store\<close>. \<open>Ext2_Dirent\<close>: directory
  blocks as lists of records. \<open>Ext2_Create\<close>: creating a file, end to end. \<open>Vfs\<close> (\<open>kernel/src/vfs.rs\<close> and the file
  calls of \<open>kernel/src/syscall.rs\<close>): the descriptor table of a process, open, read, write, seek and the calls on
  names. \<open>Descriptors\<close> (\<open>kernel/src/syscall.rs\<close>, \<open>userland.rs\<close>): the descriptors of pipes, sockets and shared memory,
  closing, passing them over sockets, inheriting them and ending a process. \<open>Descriptor_Counts\<close>: over all calls in
  any order, the reference counts of the channels are the numbers of descriptors that name them, so that an open
  descriptor never names a slot that was given away.

  \<^bold>\<open>How the code corresponds.\<close> A struct is a record with the source's fields, an enum a datatype, an array
  with a length field the list of its live entries. An operation takes the state and returns it; a
  \<open>Result\<close> that the code can also leave by a panic is an \<open>outcome\<close> of \<open>Prelude\<close>. A \<open>usize\<close> or a counting
  \<open>u64\<close> is a \<open>nat\<close> with the overflow of the development build written out; what the code treats bitwise is a
  word. Every operation of the kernel runs under the big lock with interrupts off, so one operation is
  one step of the step relations; the exceptions (the scancode ring between an interrupt handler and
  the main loop, the cores before they hold the lock) have finer steps.

  \<^bold>\<open>Bounds and fuel.\<close> The walks over the heap's list in memory take fuel, one unit per node and one for the
  end; the refinement lemmas show that the length of the list and one more is enough, and \<open>heap_alloc\<close>
  and \<open>heap_dealloc\<close> are stated with that fuel. Every other loop is structural or has a termination
  proof. Capacities (\<open>CAP\<close> of the allocator and of the plan) are arguments; the limits the source fixes
  are the constants of the theories.

  \<^bold>\<open>Not modelled.\<close> Machine code and registers (context switch, interrupt entry, GDT and IDT loading, writes
  to CR3 and the flushing of the TLB, the APIC, the PIC and port I/O), the drivers (virtio, i8042, serial
  port, framebuffer), the bootloader's calls of the firmware, the dispatch of system calls with their
  copies to and from user memory, the Ring 3 programs (the shell, the editor and the test programs), the
  self-tests in \<open>kernel/src/main.rs\<close> and the host-side build driver \<open>xtask\<close>: they are input and output,
  or need a model of the machine that the sources do not contain.
\<close>

subsection \<open>The allocator and the page-table plan agree\<close>

lemma frame_bytes:
  assumes "from_frame_number f = Some p" "phys_checked_add p 4096 = Some q" "p \<le> a" "a < q"
  shows "pa a div 4096 = f"
proof -
  have "pa p = f * 4096"
    using assms(1) unat_word_of_nat [where 'a = 64, of "f * 4096"]
    by (auto simp: from_frame_number_Some simp del: of_nat_mult)
  moreover have "pa q = pa p + 4096" using phys_checked_add_Some [OF assms(2)] by simp
  ultimately show ?thesis using assms(3,4) by (simp add: phys_le_iff phys_less_iff)
qed

lemma free_frame_is_planned:
  assumes plan: "mapped_ranges_build cap raw dsize extra = Ok ranges" "parse_entries raw dsize = Inr entries"
    and aligned: "\<forall>e \<in> set entries. 4096 dvd unat (phys_start e)"
    and f: "f \<in> conventional_frames entries" "from_frame_number f = Some p" "phys_checked_add p 4096 = Some q"
  shows "contains_range ranges p q"
proof -
  obtain e where e: "e \<in> set entries" "memory_type e = CONVENTIONAL" "f \<in> entry_frames e" "f \<noteq> 0"
    using f(1) by (auto simp: conventional_frames_def)
  have "mapped_contains ranges a" if "p \<le> a" "a < q" for a
  proof -
    have fa: "pa a div 4096 = f" by (rule frame_bytes [OF f(2,3) that])
    obtain k where k: "unat (phys_start e) = 4096 * k" using aligned e(1) by auto
    have "k \<le> f" "f < k + unat (page_count e)" using e(3) by (simp_all add: entry_frames_def k FRAME_SIZE_def)
    then have "4096 * k \<le> pa a" "pa a < 4096 * k + unat (page_count e) * 4096" "4096 \<le> pa a"
      using fa e(4) by linarith+
    then have "covered True ranges a"
      using plan_covers_conventional [OF plan e(1,2), of a] by (simp add: k)
    then show ?thesis by (simp add: mapped_contains_covered)
  qed
  then show ?thesis by (simp add: contains_range_iff)
qed

text \<open>C1: whatever frames the allocator built from a memory map has handed out after any run of
  allocations and returns, the page-table plan built from the same map covers every byte of them.
  The map's descriptors are disjoint and page-aligned, as the firmware specification requires.\<close>

theorem handed_out_frames_are_mapped:
  assumes "build raw dsize = Ok (fa, stats)" "mapped_ranges_build cap raw dsize extra = Ok ranges"
    and "parse_entries raw dsize = Inr entries" "entries_disjoint entries"
    and "\<forall>e \<in> set entries. 4096 dvd unat (phys_start e)"
    and "conventional_frames entries \<subseteq> {..< 2 ^ 40}"
    and "(pool_step allocate_frame (deallocate_frame DEFAULT_CAPACITY))\<^sup>*\<^sup>* (fa, {}) (fa', held)"
    and "p \<in> held" "phys_checked_add p 4096 = Some q"
  shows "contains_range ranges p q"
proof -
  have fa: "fa_invar DEFAULT_CAPACITY fa" "free_frames fa = conventional_frames entries"
    using build_spec [OF assms(1,3,4)] by auto
  have "fa.partitioned DEFAULT_CAPACITY (free_frames fa) (fa, {})" using fa(1) by (simp add: fa.partitioned_def)
  from fa.run_partitioned [OF assms(7) _ this] assms(6) fa(2)
  have p: "frame_number p \<in> conventional_frames entries" "from_frame_number (frame_number p) = Some p"
    using assms(8) by (auto simp: fa.partitioned_def)
  from free_frame_is_planned [OF assms(2,3,5) p assms(9)] show ?thesis .
qed

definition sample_raw :: "u8 list" where
  "sample_raw =
     [7, 0, 0, 0, 0, 0, 0, 0, 0, 0, 0x10, 0, 0, 0, 0, 0, 0, 0, 0, 0, 0, 0, 0, 0, 16, 0, 0, 0, 0, 0, 0, 0,
      0, 0, 0, 0, 0, 0, 0, 0]"

definition sample_entry :: memory_map_entry where
  "sample_entry = \<lparr>memory_type = 7, phys_start = 0x100000, page_count = 16\<rparr>"

lemma sample_parse: "parse_entries sample_raw 40 = Inr [sample_entry]"
  by (simp add: parse_entries_def descriptor_offsets chunks_exact.simps sample_raw_def sample_entry_def
      entry_of_chunk_def subslice_def)

lemma sample_frames: "conventional_frames [sample_entry] = {256 ..< 272}"
  by (auto simp: conventional_frames_def entry_frames_def sample_entry_def FRAME_SIZE_def memory_type_defs)

lemma sample_build:
  "build sample_raw 40 = Ok (\<lparr>fa_ranges = [\<lparr>start_frame = 256, frame_count = 16\<rparr>]\<rparr>,
     \<lparr>stats_free_frame_count = 16, stats_exclusions = no_exclusions\<rparr>)"
  by (simp add: build_def sample_parse build_entry_def sample_entry_def classify_def memory_type_defs
      FRAME_SIZE_def DEFAULT_CAPACITY_def insert_free_range_def insert_position_def
      frame_allocator_new_def map_err_def free_frame_count_def)

lemma sample_plan:
  "mapped_ranges_build 256 sample_raw 40 [] =
     Ok [\<lparr>ar_start = PhysAddr 0x100000, ar_end = PhysAddr 0x110000, ar_cacheable = True\<rparr>]"
  by (simp add: mapped_ranges_build_def sample_parse plan_entry_def sample_entry_def classify_def
      memory_type_defs phys_new_def is_valid_phys_iff)

theorem handed_out_frames_are_mapped_witness:
  "contains_range [\<lparr>ar_start = PhysAddr 0x100000, ar_end = PhysAddr 0x110000, ar_cacheable = True\<rparr>]
     (PhysAddr 0x100000) (PhysAddr 0x101000)"
proof -
  let ?fa = "\<lparr>fa_ranges = [\<lparr>start_frame = 256, frame_count = 16\<rparr>]\<rparr>"
  have "from_frame_number 256 = Some (PhysAddr 0x100000)" by (simp add: from_frame_number_Some)
  then have "allocate_frame ?fa =
      (\<lparr>fa_ranges = [\<lparr>start_frame = 257, frame_count = 15\<rparr>]\<rparr>, Some (PhysAddr 0x100000))"
    by (simp add: allocate_frame_def)
  then have run: "(pool_step allocate_frame (deallocate_frame DEFAULT_CAPACITY))\<^sup>*\<^sup>* (?fa, {})
      (\<lparr>fa_ranges = [\<lparr>start_frame = 257, frame_count = 15\<rparr>]\<rparr>, {PhysAddr 0x100000})"
    by (intro r_into_rtranclp handed_out)
  have nxt: "phys_checked_add (PhysAddr 0x100000) 4096 = Some (PhysAddr 0x101000)"
    by (simp add: phys_checked_add_def checked_add_def phys_new_Some)
  have small: "conventional_frames [sample_entry] \<subseteq> {..< 2 ^ 40}" by (auto simp: sample_frames)
  show ?thesis
    by (rule handed_out_frames_are_mapped [OF sample_build sample_plan sample_parse _ _ small run _ nxt])
       (simp_all add: sample_entry_def)
qed

end
